(* ===== verification/Prelude.thy ===== *)
theory Prelude
  imports Main "HOL-Library.Word"
begin

text \<open>
  Shared vocabulary of the development: the machine-integer types of the C++ code,
  the collections the component theories fill, and generic facts on words, bit lists
  and list access that more than one component uses.
\<close>

unbundle bit_operations_syntax

section \<open>Machine integers\<close>

type_synonym u8 = "8 word"
type_synonym u16 = "16 word"
type_synonym u32 = "32 word"
type_synonym u64 = "64 word"

text \<open>
  Bytes are \<open>u8\<close>; a C++ \<open>std::string\<close> is a HOL \<open>string\<close>, one \<open>char\<close> per byte.
\<close>

definition byte_of_char :: "char \<Rightarrow> u8" where
  "byte_of_char c = word_of_nat (of_char c)"

definition char_of_byte :: "u8 \<Rightarrow> char" where
  "char_of_byte b = char_of (unat b)"

lemma char_of_byte_of_char [simp]: "char_of_byte (byte_of_char c) = c"
proof -
  have "(of_char c :: nat) < 256" by simp
  then show ?thesis
    by (simp add: byte_of_char_def char_of_byte_def unat_of_nat)
qed

lemma map_char_of_byte_of_char [simp]: "map (char_of_byte \<circ> byte_of_char) s = s"
  by (simp add: comp_def)

definition byte_of_bool :: "bool \<Rightarrow> u8" where
  "byte_of_bool b = (if b then 1 else 0)"

section \<open>Collections\<close>

named_theorems defs_of \<open>unfolding equations of small model definitions\<close>
named_theorems inv_simps \<open>what a component invariant says, field by field\<close>
named_theorems inv_intros \<open>preservation facts of component invariants\<close>

section \<open>Words\<close>

lemma unat_word_bound [simp]: "unat (w :: 'a::len word) < 2 ^ LENGTH('a)"
  by simp

lemma xor_cancel_left: "a XOR (a XOR b) = (b :: 'a::len word)"
  by (simp flip: xor.assoc)

lemma xor_eq_iff_eq_xor: "a XOR b = c \<longleftrightarrow> a = c XOR (b :: 'a::len word)"
  by (metis xor.assoc xor.right_neutral xor_self_eq)

lemma xor_right_cancel: "a XOR c = b XOR c \<longleftrightarrow> a = (b :: 'a::len word)"
  by (metis xor.assoc xor.right_neutral xor_self_eq)

lemma xor_eq_0_iff_eq: "a XOR b = 0 \<longleftrightarrow> a = (b :: 'a::len word)"
  by (metis xor.left_neutral xor_eq_iff_eq_xor)

text \<open>The MSB-first accumulator \<open>v = (v << 1) | (x & 1)\<close>.\<close>

lemma bit_foldl_shift_in:
  "n \<le> LENGTH('a) \<Longrightarrow>
     bit (foldl (\<lambda>v i. push_bit 1 v OR (ucast (f i :: u8) AND 1)) (0 :: 'a::len word) [0..<n]) k
       \<longleftrightarrow> k < n \<and> bit (f (n - 1 - k)) 0"
proof (induction n arbitrary: k)
  case (Suc n)
  have low: "bit (ucast (f n) AND (1 :: 'a word)) k \<longleftrightarrow> k = 0 \<and> bit (f n) 0"
    unfolding bit_and_iff bit_1_iff bit_ucast_iff by auto
  show ?case
  proof (cases k)
    case 0
    then show ?thesis
      unfolding upt_Suc_append [OF le0] foldl_append foldl.simps bit_or_iff low bit_push_bit_iff by simp
  next
    case (Suc j)
    then show ?thesis
      using Suc.prems Suc.IH [of j] unfolding upt_Suc_append [OF le0] foldl_append foldl.simps bit_or_iff low bit_push_bit_iff
      by auto
  qed
qed simp

lemma unat_less_of_bits:
  assumes "\<And>k. bit (w :: 'a::len word) k \<Longrightarrow> k < n" shows "unat w < 2 ^ n"
proof -
  have "take_bit n w = w" by (rule bit_word_eqI) (use assms in \<open>auto simp: bit_take_bit_iff\<close>)
  then have "take_bit n (unat w) = unat w" by (metis unsigned_take_bit_eq)
  then show ?thesis by (simp add: take_bit_nat_eq_self_iff)
qed

lemma bit_lt_of_unat_lt:
  assumes "unat (w :: 'a::len word) < 2 ^ n" and "bit w k" shows "k < n"
proof (rule ccontr)
  assume "\<not> k < n"
  then have "(2 :: nat) ^ n \<le> 2 ^ k" by simp
  then have "unat w div 2 ^ k = 0" using assms(1) by (intro div_less) linarith
  moreover have "bit (unat w) k" using assms(2) by (simp add: bit_unsigned_iff bit_imp_le_length)
  ultimately show False by (simp add: bit_iff_odd)
qed

lemma bit_lt_of_take_bit: "take_bit n w = w \<Longrightarrow> bit (w :: 'a::len word) k \<Longrightarrow> k < n"
proof -
  assume w: "take_bit n w = w" "bit w k"
  then have "bit (take_bit n w) k" by simp
  then show ?thesis by (simp add: bit_take_bit_iff)
qed

text \<open>Enumerating the bits of a word, for identities between packed fields.\<close>

lemma lt8_mem: "(n :: nat) < 8 \<Longrightarrow> n \<in> set [0, 1, 2, 3, 4, 5, 6, 7]"
  by (simp add: numeral_eq_Suc less_Suc_eq)

lemma lt16_mem: "(n :: nat) < 16 \<Longrightarrow> n \<in> set [0, 1, 2, 3, 4, 5, 6, 7, 8, 9, 10, 11, 12, 13, 14, 15]"
  by (simp add: numeral_eq_Suc less_Suc_eq)

lemma lt32_mem: "(n :: nat) < 32 \<Longrightarrow> n \<in> set [0, 1, 2, 3, 4, 5, 6, 7, 8, 9, 10, 11, 12, 13, 14, 15, 16, 17, 18, 19, 20, 21, 22, 23,
     24, 25, 26, 27, 28, 29, 30, 31]"
  by (simp add: numeral_eq_Suc less_Suc_eq)

lemma lt64_mem: "(n :: nat) < 64 \<Longrightarrow> n \<in> set [0, 1, 2, 3, 4, 5, 6, 7, 8, 9, 10, 11, 12, 13, 14, 15, 16, 17, 18, 19, 20, 21, 22, 23,
     24, 25, 26, 27, 28, 29, 30, 31, 32, 33, 34, 35, 36, 37, 38, 39, 40, 41, 42, 43, 44, 45, 46, 47,
     48, 49, 50, 51, 52, 53, 54, 55, 56, 57, 58, 59, 60, 61, 62, 63]"
  by (simp add: numeral_eq_Suc less_Suc_eq)

lemmas lt8_cases = lt8_mem [simplified]
lemmas lt16_cases = lt16_mem [simplified]
lemmas lt32_cases = lt32_mem [simplified]
lemmas lt64_cases = lt64_mem [simplified]

lemma uint_word_of_int_small: "0 \<le> x \<Longrightarrow> x < 2 ^ LENGTH('a) \<Longrightarrow> uint (word_of_int x :: 'a::len word) = x"
  by (simp add: unsigned_of_int take_bit_int_eq_self_iff)

text \<open>Appending and splitting off a digit, in machine arithmetic.\<close>

lemma radix_word:
  fixes a b c :: int
  assumes "0 \<le> a" and "0 \<le> c" and "c < b" and "b < 2 ^ LENGTH('a::len)" and "a * b + c < 2 ^ LENGTH('a)"
  shows radix_word_div: "(word_of_int (a * b + c) :: 'a word) div word_of_int b = word_of_int a"
    and radix_word_mod: "uint ((word_of_int (a * b + c) :: 'a word) mod word_of_int b) = c"
proof -
  have b: "0 < b" "0 \<le> a * b" "a \<le> a * b"
    using assms by (simp_all add: mult_le_cancel_left1)
  have n: "uint (word_of_int (a * b + c) :: 'a word) = a * b + c" "uint (word_of_int b :: 'a word) = b"
    "uint (word_of_int a :: 'a word) = a"
    by (rule uint_word_of_int_small; use assms b in linarith)+
  show "uint ((word_of_int (a * b + c) :: 'a word) mod word_of_int b) = c"
    unfolding uint_mod n using assms b by simp
  show "(word_of_int (a * b + c) :: 'a word) div word_of_int b = word_of_int a"
    unfolding word_uint_eq_iff uint_div n using assms b by simp
qed

section \<open>Naturals and lists\<close>

lemma diff_less_bound [simp]: "a < c \<Longrightarrow> a - b < (c :: nat)"
  by (rule le_less_trans [OF diff_le_self])

lemma foldl_inv:
  assumes "P a" and "\<And>x y. P x \<Longrightarrow> y \<in> set ys \<Longrightarrow> P (f x y)"
  shows "P (foldl f a ys)"
  using assms by (induction ys arbitrary: a) auto

lemma upt_split_at: "i \<le> j \<Longrightarrow> j \<le> k \<Longrightarrow> [i..<k] = [i..<j] @ [j..<k]"
  by (metis le_add_diff_inverse upt_add_eq_append)

lemma map_nth_upt_take: "n \<le> length xs \<Longrightarrow> map ((!) xs) [0..<n] = take n xs"
  by (rule nth_equalityI) auto

lemma take_drop_split3:
  "i \<le> j \<Longrightarrow> xs = take i xs @ take (j - i) (drop i xs) @ drop j xs"
  by (metis append_take_drop_id drop_drop le_add_diff_inverse2)

lemma in_zip_map [simp]: "(x, y) \<in> set (zip xs (map f xs)) \<longleftrightarrow> x \<in> set xs \<and> y = f x"
  by (induction xs) auto

text \<open>A matrix stored row after row.\<close>

lemma nth_concat_rows:
  assumes "\<And>i. i < n \<Longrightarrow> length (f i) = w" and "r < n" and "p < w"
  shows "concat (map f [0..<n]) ! (r * w + p) = f r ! p"
proof -
  have len: "length (concat (map f [0..<k])) = k * w" if "k \<le> n" for k
    using that assms(1) by (induction k) simp_all
  have "concat (map f [0..<n]) = concat (map f [0..<r]) @ f r @ concat (map f [Suc r..<n])"
    using assms(2) upt_split_at [of 0 r n] by (simp add: upt_conv_Cons)
  then show ?thesis
    using len [of r] assms by (simp add: nth_append)
qed

end
