(* ===== verification/Js8Crc.thy ===== *)
theory Js8Crc
  imports Prelude
begin

text \<open>
  The CRC-12 gate of the JS8 receive path (\<open>gm/hf/js8.cc\<close>): the bit-serial augmented
  CRC, the packing of the 87 information bits into 11 bytes, the check, and the
  MSB-first field reader the message decoder uses.  The lemmas show that the loop is
  linear over GF(2), which CRC field a payload is accepted with, and which error
  patterns the gate rejects.
\<close>

section \<open>Definitions\<close>

text \<open>One iteration of the inner loop of \<open>crc12_augmented\<close>.\<close>

definition crc12_bit :: "u16 \<Rightarrow> bool \<Rightarrow> u16" where
  "crc12_bit crc inp =
     (let quotient = bit crc 11;
          crc' = (push_bit 1 crc OR of_bool inp) AND 0xFFF
      in if quotient then crc' XOR 0xC06 else crc')"

text \<open>The inner loop: bits 7 down to 0 of one byte.\<close>

definition crc12_byte :: "u16 \<Rightarrow> u8 \<Rightarrow> u16" where
  "crc12_byte crc d = foldl (\<lambda>c b. crc12_bit c (bit d b)) crc [7, 6, 5, 4, 3, 2, 1, 0]"

definition crc12_augmented :: "u8 list \<Rightarrow> u16" where
  "crc12_augmented data = foldl crc12_byte 0 data XOR 42"

text \<open>The packing loop of \<open>checkCRC12\<close>: bit \<open>i\<close> of the message to byte \<open>i / 8\<close>, MSB first.\<close>

definition pack_step :: "u8 list \<Rightarrow> u8 list \<Rightarrow> nat \<Rightarrow> u8 list" where
  "pack_step decoded_bits packed i =
     (if decoded_bits ! i \<noteq> 0
      then packed[i div 8 := packed ! (i div 8) OR push_bit (7 - i mod 8) 1]
      else packed)"

definition pack87 :: "u8 list \<Rightarrow> u8 list" where
  "pack87 decoded_bits = foldl (pack_step decoded_bits) (replicate 11 0) [0..<87]"

definition received_crc :: "u8 list \<Rightarrow> u16" where
  "received_crc packed =
     push_bit 7 (ucast (packed ! 9 AND 0x1F)) OR ucast (drop_bit 1 (packed ! 10))"

definition checkCRC12 :: "u8 list \<Rightarrow> bool" where
  "checkCRC12 decoded_bits =
     (let packed = pack87 decoded_bits;
          rx = received_crc packed;
          packed' = packed[9 := packed ! 9 AND 0xE0, 10 := 0]
      in rx = crc12_augmented packed')"

text \<open>\<open>bits_to_int\<close>: \<open>n\<close> bits starting at \<open>offset\<close>, MSB first, in a 64-bit accumulator.\<close>

definition bits_to_int :: "u8 list \<Rightarrow> nat \<Rightarrow> nat \<Rightarrow> u64" where
  "bits_to_int bits offset n =
     foldl (\<lambda>v i. push_bit 1 v OR (ucast (bits ! (offset + i)) AND 1)) 0 [0..<n]"

section \<open>The CRC register\<close>

text \<open>The register after a bit stream; \<open>crc12_augmented\<close> is this fold over all bits.\<close>

definition crc_of_bits :: "bool list \<Rightarrow> u16" where
  "crc_of_bits = foldl crc12_bit 0"

definition byte_bits :: "u8 \<Rightarrow> bool list" where
  "byte_bits d = map (bit d) [7, 6, 5, 4, 3, 2, 1, 0]"

lemma crc12_byte_bits: "crc12_byte c d = foldl crc12_bit c (byte_bits d)"
  by (simp add: crc12_byte_def byte_bits_def)

lemma crc12_augmented_bits:
  "crc12_augmented data = crc_of_bits (concat (map byte_bits data)) XOR 42"
proof -
  have "foldl crc12_byte c data = foldl crc12_bit c (concat (map byte_bits data))" for c
    by (induction data arbitrary: c) (simp_all add: crc12_byte_bits)
  then show ?thesis by (simp add: crc12_augmented_def crc_of_bits_def)
qed

definition crc_shift :: "u16 \<Rightarrow> bool \<Rightarrow> u16" where
  "crc_shift c x = (push_bit 1 c OR of_bool x) AND 0xFFF"

lemma bit_0xFFF_u16: "bit (0xFFF :: u16) n \<longleftrightarrow> n < 12"
proof -
  have "(0xFFF :: u16) = mask 12" by (simp add: mask_eq_exp_minus_1)
  moreover have "bit (mask 12 :: u16) n \<longleftrightarrow> n < 12" by (auto simp: bit_mask_iff)
  ultimately show ?thesis by simp
qed

lemma bit_crc_shift: "bit (crc_shift c x) n \<longleftrightarrow> n < 12 \<and> (if n = 0 then x else bit c (n - 1))"
  unfolding crc_shift_def bit_and_iff bit_or_iff bit_push_bit_iff bit_of_bool_iff bit_0xFFF_u16
  by (cases "n = 0") auto

lemma crc12_bit_alt: "crc12_bit c x = crc_shift c x XOR (if bit c 11 then 0xC06 else 0)"
  by (simp add: crc12_bit_def crc_shift_def Let_def)

lemma crc_shift_xor: "crc_shift (a XOR b) (x = (\<not> y)) = crc_shift a x XOR crc_shift b y"
  by (rule bit_word_eqI) (auto simp: bit_crc_shift bit_xor_iff)

lemma crc12_bit_xor: "crc12_bit (a XOR b) (x = (\<not> y)) = crc12_bit a x XOR crc12_bit b y"
proof -
  have red: "(if bit (a XOR b) 11 then 0xC06 else 0 :: u16)
      = (if bit a 11 then 0xC06 else 0) XOR (if bit b 11 then 0xC06 else 0)"
    by (simp add: bit_xor_iff)
  show ?thesis
    unfolding crc12_bit_alt crc_shift_xor red by (simp only: ac_simps)
qed

lemma crc_of_bits_snoc: "crc_of_bits (xs @ [x]) = crc12_bit (crc_of_bits xs) x"
  by (simp add: crc_of_bits_def)

text \<open>Linearity: the register of the XOR of two streams is the XOR of the registers.\<close>

definition xor_bits :: "bool list \<Rightarrow> bool list \<Rightarrow> bool list" where
  "xor_bits xs ys = map2 (\<lambda>x y. x = (\<not> y)) xs ys"

lemma length_xor_bits [simp]: "length (xor_bits xs ys) = min (length xs) (length ys)"
  by (simp add: xor_bits_def)

lemma nth_xor_bits [simp]:
  "i < length xs \<Longrightarrow> i < length ys \<Longrightarrow> xor_bits xs ys ! i = (xs ! i = (\<not> ys ! i))"
  by (simp add: xor_bits_def)

lemma crc_of_bits_xor:
  assumes "length xs = length ys"
  shows "crc_of_bits (xor_bits xs ys) = crc_of_bits xs XOR crc_of_bits ys"
proof -
  have "foldl crc12_bit (a XOR b) (xor_bits xs ys) = foldl crc12_bit a xs XOR foldl crc12_bit b ys"
    for a b
    using assms
    by (induction xs ys arbitrary: a b rule: list_induct2)
      (simp_all add: xor_bits_def crc12_bit_xor)
  from this [of 0 0] show ?thesis by (simp add: crc_of_bits_def)
qed

lemma crc12_bit_zero [simp]: "crc12_bit 0 False = 0"
  by (simp add: crc12_bit_def)

lemma crc_of_bits_replicate [simp]: "crc_of_bits (replicate n False) = 0"
proof -
  have "foldl crc12_bit 0 (replicate n False) = 0" by (induction n) simp_all
  then show ?thesis by (simp add: crc_of_bits_def)
qed

lemma bit_0xC06_high: "12 \<le> n \<Longrightarrow> \<not> bit (0xC06 :: u16) n"
proof -
  assume "12 \<le> n"
  moreover have "(0xC06 :: u16) = (0xC06 :: u16) AND mask 12" by (simp add: mask_eq_exp_minus_1)
  ultimately show ?thesis by (metis bit_and_iff bit_mask_iff not_le)
qed

lemma bit_0x2A_high: "12 \<le> n \<Longrightarrow> \<not> bit (42 :: u16) n"
proof -
  assume "12 \<le> n"
  moreover have "(42 :: u16) = 42 AND mask 12" by (simp add: mask_eq_exp_minus_1)
  ultimately show ?thesis by (metis bit_and_iff bit_mask_iff not_le)
qed

lemma bit_crc12_bit_high: "12 \<le> n \<Longrightarrow> \<not> bit (crc12_bit c x) n"
  unfolding crc12_bit_alt bit_xor_iff bit_crc_shift using bit_0xC06_high [of n] by simp

lemma bit_crc_of_bits_high: "12 \<le> n \<Longrightarrow> \<not> bit (crc_of_bits xs) n"
proof (cases xs rule: rev_cases)
  case Nil
  then show ?thesis by (simp add: crc_of_bits_def)
next
  case (snoc ys y)
  assume "12 \<le> n"
  with snoc show ?thesis by (simp add: crc_of_bits_snoc bit_crc12_bit_high)
qed

section \<open>What the packing loop builds\<close>

lemma pack_step_length [simp]: "length (pack_step ds p i) = length p"
  by (simp add: pack_step_def)

lemma bit_pack_step:
  assumes "length p = 11" "i < 87" "j < 11" "k < 8"
  shows "bit (pack_step ds p i ! j) (7 - k)
    \<longleftrightarrow> bit (p ! j) (7 - k) \<or> (i = 8 * j + k \<and> ds ! i \<noteq> 0)"
proof -
  have same: "j = i div 8 \<and> k = i mod 8 \<longleftrightarrow> i = 8 * j + k" using assms(4) by auto
  show ?thesis
  proof (cases "j = i div 8")
    case True
    then have "pack_step ds p i ! j = p ! j OR (if ds ! i \<noteq> 0 then push_bit (7 - i mod 8) 1 else 0)"
      using assms by (simp add: pack_step_def)
    moreover have "7 - k = 7 - i mod 8 \<longleftrightarrow> k = i mod 8"
      using assms(4) mod_less_divisor [of 8 i] by linarith
    moreover have "bit (push_bit (7 - i mod 8) (1 :: u8)) (7 - k) \<longleftrightarrow> k = i mod 8"
      using assms(4) \<open>7 - k = 7 - i mod 8 \<longleftrightarrow> k = i mod 8\<close>
      by (simp only: bit_push_bit_iff bit_1_iff) auto
    ultimately show ?thesis
      using True same by (simp add: bit_or_iff)
  next
    case False
    then show ?thesis using same by (auto simp: pack_step_def)
  qed
qed

lemma pack_loop:
  assumes "m \<le> 87"
  shows "length (foldl (pack_step ds) (replicate 11 0) [0..<m]) = 11
    \<and> (\<forall>j<11. \<forall>k<8. bit (foldl (pack_step ds) (replicate 11 0) [0..<m] ! j) (7 - k)
          \<longleftrightarrow> 8 * j + k < m \<and> ds ! (8 * j + k) \<noteq> 0)"
  using assms
proof (induction m)
  case 0
  then show ?case by simp
next
  case (Suc m)
  then show ?case by (auto simp: bit_pack_step less_Suc_eq)
qed

lemma length_pack87 [simp]: "length (pack87 ds) = 11"
  using pack_loop [of 87 ds] by (simp add: pack87_def)

lemma bit_pack87:
  "j < 11 \<Longrightarrow> k < 8 \<Longrightarrow>
     bit (pack87 ds ! j) (7 - k) \<longleftrightarrow> 8 * j + k < 87 \<and> ds ! (8 * j + k) \<noteq> 0"
  using pack_loop [of 87 ds] by (simp add: pack87_def)

lemma byte_bits_eq_map: "byte_bits d = map (\<lambda>k. bit d (7 - k)) [0..<8]"
  by (simp add: byte_bits_def upt_rec)

lemma concat_blocks: "concat (map (\<lambda>j. map (\<lambda>k. f (8 * j + k)) [0..<8]) [0..<n]) = map f [0..<8 * n]"
proof (induction n)
  case (Suc n)
  have "map f [8 * n..<8 * Suc n] = map (\<lambda>k. f (8 * n + k)) [0..<8]"
    by (rule nth_equalityI) auto
  moreover have "[0..<8 * Suc n] = [0..<8 * n] @ [8 * n..<8 * Suc n]"
    by (rule upt_split_at) auto
  ultimately show ?case using Suc by simp
qed simp

definition masked87 :: "u8 list \<Rightarrow> u8 list" where
  "masked87 ds = (pack87 ds)[9 := pack87 ds ! 9 AND 0xE0, 10 := 0]"

lemma bit_0xE0: "k < 8 \<Longrightarrow> bit (0xE0 :: u8) (7 - k) \<longleftrightarrow> k < 3"
proof -
  assume "k < 8"
  then have "k \<in> {0, 1, 2, 3, 4, 5, 6, 7}" by auto
  then show ?thesis by (elim insertE) simp_all
qed

lemma bit_masked87:
  assumes "j < 11" "k < 8"
  shows "bit (masked87 ds ! j) (7 - k) \<longleftrightarrow> 8 * j + k < 75 \<and> ds ! (8 * j + k) \<noteq> 0"
proof -
  consider "j < 9" | "j = 9" | "j = 10" using assms(1) by linarith
  then show ?thesis
  proof cases
    case 1
    then have "masked87 ds ! j = pack87 ds ! j" by (simp add: masked87_def)
    with 1 assms bit_pack87 [of j k ds] show ?thesis by auto
  next
    case 2
    then have "masked87 ds ! j = pack87 ds ! j AND 0xE0" by (simp add: masked87_def)
    then have "bit (masked87 ds ! j) (7 - k) \<longleftrightarrow> bit (pack87 ds ! j) (7 - k) \<and> k < 3"
      by (simp only: bit_and_iff bit_0xE0 [OF assms(2)])
    with 2 assms bit_pack87 [of j k ds] show ?thesis by auto
  next
    case 3
    then show ?thesis by (simp add: masked87_def)
  qed
qed

text \<open>The payload as bits, and the register the check computes over it.\<close>

definition payload_bits :: "u8 list \<Rightarrow> bool list" where
  "payload_bits ds = map (\<lambda>i. ds ! i \<noteq> 0) [0..<75]"

lemma masked87_bits:
  "concat (map byte_bits (masked87 ds)) = payload_bits ds @ replicate 13 False"
proof -
  have "map byte_bits (masked87 ds)
      = map (\<lambda>j. map (\<lambda>k. 8 * j + k < 75 \<and> ds ! (8 * j + k) \<noteq> 0) [0..<8]) [0..<11]"
    by (rule nth_equalityI)
      (auto simp: byte_bits_eq_map bit_masked87 masked87_def [THEN arg_cong, of length])
  then have "concat (map byte_bits (masked87 ds)) = map (\<lambda>i. i < 75 \<and> ds ! i \<noteq> 0) [0..<88]"
    using concat_blocks [of "\<lambda>i. i < 75 \<and> ds ! i \<noteq> 0" 11] by simp
  also have "\<dots> = payload_bits ds @ replicate 13 False"
    by (rule nth_equalityI) (auto simp: payload_bits_def nth_append)
  finally show ?thesis .
qed

lemma bit_0x1F: "bit (0x1F :: u8) n \<longleftrightarrow> n < 5"
proof -
  have "(0x1F :: u8) = mask 5" by (simp add: mask_eq_exp_minus_1)
  moreover have "bit (mask 5 :: u8) n \<longleftrightarrow> n < 5" by (auto simp: bit_mask_iff)
  ultimately show ?thesis by simp
qed

lemma bit_received_crc:
  "bit (received_crc (pack87 ds)) n \<longleftrightarrow> n < 12 \<and> ds ! (86 - n) \<noteq> 0"
proof -
  let ?p = "pack87 ds"
  have hi: "bit (push_bit 7 (ucast (?p ! 9 AND 0x1F) :: u16)) n
      \<longleftrightarrow> 7 \<le> n \<and> n < 12 \<and> bit (?p ! 9) (n - 7)"
    unfolding bit_push_bit_iff bit_ucast_iff bit_and_iff bit_0x1F by auto
  have lo: "bit (ucast (drop_bit 1 (?p ! 10)) :: u16) n \<longleftrightarrow> n < 7 \<and> bit (?p ! 10) (n + 1)"
    unfolding bit_ucast_iff bit_drop_bit_eq comp_def
    using bit_imp_le_length [of "?p ! 10" "1 + n"] by auto
  consider "n < 7" | "7 \<le> n" "n < 12" | "12 \<le> n" by linarith
  then show ?thesis
  proof cases
    case 1
    then have "bit (?p ! 10) (n + 1) \<longleftrightarrow> ds ! (86 - n) \<noteq> 0"
      using bit_pack87 [of 10 "6 - n" ds] le_less_trans [OF diff_le_self, of 86 87 n]
      by (simp add: diff_diff_eq2 Suc_diff_le)
    with 1 show ?thesis unfolding received_crc_def bit_or_iff hi lo by simp
  next
    case 2
    then have "bit (?p ! 9) (n - 7) \<longleftrightarrow> ds ! (86 - n) \<noteq> 0"
      using bit_pack87 [of 9 "14 - n" ds] le_less_trans [OF diff_le_self, of 86 87 n]
      by (simp add: diff_diff_eq2)
    with 2 show ?thesis unfolding received_crc_def bit_or_iff hi lo by simp
  next
    case 3
    then show ?thesis unfolding received_crc_def bit_or_iff hi lo by simp
  qed
qed

section \<open>The check as a syndrome\<close>

text \<open>A register fed at most 12 bits holds exactly those bits.\<close>

lemma bit_crc_of_short:
  "length xs \<le> 12 \<Longrightarrow> bit (crc_of_bits xs) n \<longleftrightarrow> n < length xs \<and> xs ! (length xs - 1 - n)"
proof (induction xs arbitrary: n rule: rev_induct)
  case Nil
  then show ?case by (simp add: crc_of_bits_def)
next
  case (snoc x xs)
  then have "\<not> bit (crc_of_bits xs) 11" by simp
  then have "bit (crc_of_bits (xs @ [x])) n \<longleftrightarrow> bit (crc_shift (crc_of_bits xs) x) n"
    by (simp add: crc_of_bits_snoc crc12_bit_alt)
  also have "\<dots> \<longleftrightarrow> n < length (xs @ [x]) \<and> (xs @ [x]) ! (length (xs @ [x]) - 1 - n)"
  proof (cases n)
    case 0
    then show ?thesis by (simp add: bit_crc_shift)
  next
    case (Suc m)
    have "bit (crc_of_bits xs) m \<longleftrightarrow> m < length xs \<and> xs ! (length xs - 1 - m)"
      using snoc.IH snoc.prems by simp
    moreover have "m < length xs \<Longrightarrow> length xs - Suc m < length xs" by simp
    moreover note Suc snoc.prems
    ultimately show ?thesis
      by (cases "m < length xs") (simp_all add: bit_crc_shift nth_append)
  qed
  finally show ?case .
qed

lemma crc_of_bits_leading: "crc_of_bits (replicate n False @ xs) = crc_of_bits xs"
proof -
  have "foldl crc12_bit 0 (replicate n False) = 0" by (induction n) simp_all
  then show ?thesis by (simp add: crc_of_bits_def)
qed

text \<open>The CRC field, bits 75 to 86, and the 88-bit stream: payload, one zero bit, CRC field.\<close>

definition crc_field :: "u8 list \<Rightarrow> bool list" where
  "crc_field ds = map (\<lambda>i. ds ! i \<noteq> 0) [75..<87]"

definition crc_stream :: "u8 list \<Rightarrow> bool list" where
  "crc_stream ds = payload_bits ds @ False # crc_field ds"

lemma length_crc_parts [simp]:
  "length (payload_bits ds) = 75" "length (crc_field ds) = 12" "length (crc_stream ds) = 88"
  by (simp_all add: payload_bits_def crc_field_def crc_stream_def)

lemma received_crc_field: "received_crc (pack87 ds) = crc_of_bits (crc_field ds)"
proof (rule bit_word_eqI)
  fix n
  have "n < 12 \<Longrightarrow> crc_field ds ! (11 - n) = (ds ! (86 - n) \<noteq> 0)"
    using nth_upt [of 75 "11 - n" 87]
    by (simp add: crc_field_def Nat.add_diff_assoc del: upt_rec_numeral)
  then show "bit (received_crc (pack87 ds)) n = bit (crc_of_bits (crc_field ds)) n"
    by (auto simp: bit_received_crc bit_crc_of_short)
qed

lemma crc_stream_split:
  "crc_of_bits (crc_stream ds)
     = crc_of_bits (payload_bits ds @ replicate 13 False) XOR crc_of_bits (crc_field ds)"
proof -
  have "crc_stream ds
      = xor_bits (payload_bits ds @ replicate 13 False) (replicate 76 False @ crc_field ds)"
    by (rule nth_equalityI) (auto simp: crc_stream_def nth_append nth_Cons')
  then show ?thesis by (simp add: crc_of_bits_xor crc_of_bits_leading)
qed

theorem checkCRC12_syndrome: "checkCRC12 ds \<longleftrightarrow> crc_of_bits (crc_stream ds) = 42"
proof -
  have "checkCRC12 ds \<longleftrightarrow>
      crc_of_bits (crc_field ds) = crc_of_bits (payload_bits ds @ replicate 13 False) XOR 42"
    by (simp add: checkCRC12_def Let_def crc12_augmented_bits received_crc_field
        masked87_bits [unfolded masked87_def])
  also have "\<dots> \<longleftrightarrow> crc_of_bits (crc_stream ds) = 42"
    unfolding crc_stream_split by (metis xor.commute xor_eq_iff_eq_xor)
  finally show ?thesis .
qed

section \<open>Error detection\<close>

text \<open>\<open>crc_pow n\<close>: the register a single one leaves after \<open>n\<close> further zero bits.\<close>

definition crc_zero :: "u16 \<Rightarrow> u16" where
  "crc_zero c = crc12_bit c False"

definition crc_pow :: "nat \<Rightarrow> u16" where
  "crc_pow n = (crc_zero ^^ n) 1"

lemma crc_zero_xor: "crc_zero (a XOR b) = crc_zero a XOR crc_zero b"
  using crc12_bit_xor [of a b False False] by (simp add: crc_zero_def)

lemma crc_zero_funpow_xor: "(crc_zero ^^ n) (a XOR b) = (crc_zero ^^ n) a XOR (crc_zero ^^ n) b"
  by (induction n) (simp_all add: crc_zero_xor)

lemma crc_of_bits_zeros: "crc_of_bits (xs @ replicate n False) = (crc_zero ^^ n) (crc_of_bits xs)"
proof (induction n)
  case (Suc n)
  have "xs @ replicate (Suc n) False = (xs @ replicate n False) @ [False]"
    by (simp flip: replicate_append_same)
  then show ?case
    using Suc by (simp only: crc_of_bits_snoc) (simp add: crc_zero_def)
qed simp

definition unit_bits :: "nat \<Rightarrow> nat \<Rightarrow> bool list" where
  "unit_bits n p = (replicate n False)[p := True]"

lemma crc_of_unit: "p < n \<Longrightarrow> crc_of_bits (unit_bits n p) = crc_pow (n - 1 - p)"
proof -
  assume p: "p < n"
  have "unit_bits n p = (replicate p False @ [True]) @ replicate (n - 1 - p) False"
    using p by (auto intro!: nth_equalityI simp: unit_bits_def nth_append nth_list_update nth_Cons'
        split: if_splits)
  moreover have "crc_of_bits (replicate p False @ [True]) = 1"
    by (simp add: crc_of_bits_leading) (simp add: crc_of_bits_def crc12_bit_def)
  ultimately show ?thesis by (simp only: crc_of_bits_zeros crc_pow_def)
qed

text \<open>
  Only \<open>0\<close> and \<open>0xE03\<close> (the generator divided by \<open>x\<close>) are shifted to zero, and no
  shifted register is \<open>0xE03\<close>, whose low bit is set; so a register that reaches zero
  after any number of zero bits was one of the two to begin with.
\<close>

lemma bit_E03: "bit (0xE03 :: u16) n \<longleftrightarrow> bit (0xC06 :: u16) (Suc n) \<or> n = 11"
proof -
  have "(0xE03 :: u16) = drop_bit 1 0xC06 OR 0x800" by simp
  moreover have "(0x800 :: u16) = push_bit 11 1" by simp
  moreover have "bit (push_bit 11 1 :: u16) n \<longleftrightarrow> n = 11"
    unfolding bit_push_bit_iff bit_1_iff by auto
  ultimately show ?thesis
    by (simp only: bit_or_iff bit_drop_bit_eq comp_def plus_1_eq_Suc)
qed

lemma crc_zero_eq_0:
  assumes "crc_zero c = 0" and "\<And>n. 12 \<le> n \<Longrightarrow> \<not> bit c n"
  shows "c = 0 \<or> c = 0xE03"
proof -
  have *: "crc_shift c False = (if bit c 11 then 0xC06 else 0)"
    using assms(1) by (auto simp: crc_zero_def crc12_bit_alt xor_eq_0_iff_eq split: if_splits)
  have nb: "bit c n \<longleftrightarrow> n < 12 \<and> bit (crc_shift c False) (n + 1) \<or> n = 11 \<and> bit c 11" for n
  proof -
    consider "n < 11" | "n = 11" | "12 \<le> n" by linarith
    then show ?thesis using assms(2) [of n] by cases (auto simp: bit_crc_shift)
  qed
  show ?thesis
  proof (cases "bit c 11")
    case False
    then have "bit c n = bit (0 :: u16) n" for n using nb [of n] * by auto
    then show ?thesis by (auto intro: bit_word_eqI)
  next
    case True
    have "bit c n = bit (0xE03 :: u16) n" for n
    proof -
      consider "n < 11" | "n = 11" | "12 \<le> n" by linarith
      then show ?thesis
      proof cases
        case 1
        then show ?thesis unfolding bit_E03 using nb [of n] * True by simp
      next
        case 2
        then show ?thesis unfolding bit_E03 using True by simp
      next
        case 3
        then show ?thesis
          unfolding bit_E03 using assms(2) bit_0xC06_high [of "Suc n"] by simp
      qed
    qed
    then show ?thesis by (intro disjI2 bit_word_eqI)
  qed
qed

lemma bit_0_crc_zero: "\<not> bit (crc_zero c) 0"
  by (simp add: crc_zero_def crc12_bit_alt bit_xor_iff bit_crc_shift)

lemma crc_zero_funpow_eq_0:
  assumes "(crc_zero ^^ n) c = 0" and hi: "\<And>n. 12 \<le> n \<Longrightarrow> \<not> bit c n"
  shows "c = 0 \<or> c = 0xE03"
  using assms
proof (induction n)
  case (Suc n)
  show ?case
  proof (cases n)
    case 0
    then show ?thesis using Suc.prems crc_zero_eq_0 by simp
  next
    case (Suc k)
    have high: "12 \<le> m \<Longrightarrow> \<not> bit ((crc_zero ^^ n) c) m" for m
      using Suc by (simp add: crc_zero_def bit_crc12_bit_high)
    have "(crc_zero ^^ n) c = 0 \<or> (crc_zero ^^ n) c = 0xE03"
      using Suc.prems(1) high by (intro crc_zero_eq_0) simp_all
    moreover have "(crc_zero ^^ n) c \<noteq> 0xE03"
    proof
      assume "(crc_zero ^^ n) c = 0xE03"
      then have "bit ((crc_zero ^^ n) c) 0" by simp
      then show False using Suc bit_0_crc_zero by simp
    qed
    ultimately show ?thesis using Suc.IH hi by blast
  qed
qed simp

text \<open>The registers \<open>crc_pow 0\<close> to \<open>crc_pow 87\<close>.\<close>

definition crc_table :: "u16 list" where
  "crc_table = [
    1, 2, 4, 8, 16, 32, 64, 128, 256, 512, 1024, 2048, 3078, 1034, 2068, 3118, 1114, 2228,
    3438, 1754, 3508, 1902, 3804, 446, 892, 1784, 3568, 2022, 4044, 926, 1852, 3704, 246, 492,
    984, 1968, 3936, 710, 1420, 2840, 2614, 2154, 3282, 1442, 2884, 2702, 2330, 3634, 98, 196,
    392, 784, 1568, 3136, 1158, 2316, 3614, 58, 116, 232, 464, 928, 1856, 3712, 262, 524, 1048,
    2096, 3174, 1226, 2452, 3886, 602, 1204, 2408, 3798, 426, 852, 1704, 3408, 1702, 3404,
    1694, 3388, 1662, 3324, 1534, 3068]"

lemma length_crc_table [simp]: "length crc_table = 88"
  by (simp add: crc_table_def)

fun crc_chain :: "u16 list \<Rightarrow> bool" where
  "crc_chain (x # y # ys) = (crc_zero x = y \<and> crc_chain (y # ys))"
| "crc_chain xs = True"

lemma crc_chain_nth:
  "crc_chain xs \<Longrightarrow> i < length xs \<Longrightarrow> xs ! i = (crc_zero ^^ i) (xs ! 0)"
proof (induction xs arbitrary: i rule: crc_chain.induct)
  case (1 x y ys)
  then show ?case
  proof (cases i)
    case (Suc k)
    then have "(y # ys) ! k = (crc_zero ^^ k) y" using 1 by simp
    with Suc 1(2) show ?thesis by (simp add: funpow_swap1)
  qed simp
qed auto

lemma crc_zero_eval: "crc_zero c = (let d = (2 * c) AND 0xFFF in if bit c 11 then d XOR 0xC06 else d)"
  by (simp add: crc_zero_def crc12_bit_def Let_def mult.commute)

lemma crc_table_chain: "crc_chain crc_table"
  by (simp add: crc_table_def crc_zero_eval)

lemma crc_table_pow: "i < 88 \<Longrightarrow> crc_pow i = crc_table ! i"
proof -
  assume "i < 88"
  moreover have "length crc_table = 88" "crc_table ! 0 = 1" by (simp_all add: crc_table_def)
  ultimately show ?thesis
    using crc_chain_nth [OF crc_table_chain, of i] by (simp add: crc_pow_def)
qed

text \<open>
  No register of the table is one, or \<open>0xE02\<close>, away from another one: with
  \<open>crc_zero_funpow_eq_0\<close> this rules out every sum of two or three powers.
\<close>

definition crc_table_n :: "nat list" where
  "crc_table_n = map unat crc_table"

lemma crc_table_n_eval: "crc_table_n = [
    1, 2, 4, 8, 16, 32, 64, 128, 256, 512, 1024, 2048, 3078, 1034, 2068, 3118, 1114, 2228,
    3438, 1754, 3508, 1902, 3804, 446, 892, 1784, 3568, 2022, 4044, 926, 1852, 3704, 246, 492,
    984, 1968, 3936, 710, 1420, 2840, 2614, 2154, 3282, 1442, 2884, 2702, 2330, 3634, 98, 196,
    392, 784, 1568, 3136, 1158, 2316, 3614, 58, 116, 232, 464, 928, 1856, 3712, 262, 524, 1048,
    2096, 3174, 1226, 2452, 3886, 602, 1204, 2408, 3798, 426, 852, 1704, 3408, 1702, 3404,
    1694, 3388, 1662, 3324, 1534, 3068]"
  by (simp add: crc_table_n_def crc_table_def)

lemma crc_table_xor_1: "map (\<lambda>x. unat (x XOR 1)) (tl crc_table) = [
    3, 5, 9, 17, 33, 65, 129, 257, 513, 1025, 2049, 3079, 1035, 2069, 3119, 1115, 2229, 3439,
    1755, 3509, 1903, 3805, 447, 893, 1785, 3569, 2023, 4045, 927, 1853, 3705, 247, 493, 985,
    1969, 3937, 711, 1421, 2841, 2615, 2155, 3283, 1443, 2885, 2703, 2331, 3635, 99, 197, 393,
    785, 1569, 3137, 1159, 2317, 3615, 59, 117, 233, 465, 929, 1857, 3713, 263, 525, 1049,
    2097, 3175, 1227, 2453, 3887, 603, 1205, 2409, 3799, 427, 853, 1705, 3409, 1703, 3405,
    1695, 3389, 1663, 3325, 1535, 3069]"
  by (simp add: crc_table_def)

lemma crc_table_xor_E02: "map (\<lambda>x. unat (x XOR 0xE02)) (butlast (tl crc_table)) = [
    3584, 3590, 3594, 3602, 3618, 3650, 3714, 3842, 3074, 2562, 1538, 516, 2568, 1558, 556,
    2648, 1718, 876, 2264, 950, 2412, 222, 4028, 3454, 2298, 1010, 2532, 462, 3484, 2366, 122,
    3828, 4078, 3546, 2482, 354, 3268, 2958, 1306, 1076, 1640, 720, 2976, 1350, 1164, 1816, 48,
    3680, 3782, 3978, 3346, 2082, 578, 2692, 1806, 28, 3640, 3702, 3818, 4050, 3490, 2370, 130,
    3844, 3086, 2586, 1586, 612, 2760, 1942, 300, 3160, 2742, 1898, 212, 4008, 3414, 2218, 850,
    2212, 846, 2204, 830, 2172, 766, 3068]"
  by (simp add: crc_table_def)

lemma crc_table_sep_1: "list_all (\<lambda>v. v \<noteq> 0 \<and> v \<notin> set crc_table_n) (map (\<lambda>x. unat (x XOR 1)) (tl crc_table))"
  unfolding crc_table_xor_1 crc_table_n_eval by simp

lemma crc_table_sep_E02:
  "list_all (\<lambda>v. v \<noteq> 0 \<and> v \<notin> set (butlast crc_table_n))
     (map (\<lambda>x. unat (x XOR 0xE02)) (butlast (tl crc_table)))"
  unfolding crc_table_xor_E02 crc_table_n_eval by simp

lemma crc_table_n_nth: "i < 88 \<Longrightarrow> unat (crc_pow i) = crc_table_n ! i"
  by (simp add: crc_table_pow crc_table_n_def)

lemma crc_pow_sep_1:
  assumes "0 < a" "a < 88" "b < 88"
  shows "crc_pow a XOR 1 \<noteq> crc_pow b" and "crc_pow a \<noteq> 1"
proof -
  have len: "length crc_table = 88" by (simp add: crc_table_def)
  have "tl crc_table ! (a - 1) = crc_pow a"
    using assms len by (simp add: crc_table_pow nth_tl)
  moreover have "a - 1 < length (tl crc_table)" using assms len by simp
  ultimately have mem: "crc_pow a \<in> set (tl crc_table)" by (metis nth_mem)
  then have sep: "unat (crc_pow a XOR 1) \<noteq> 0 \<and> unat (crc_pow a XOR 1) \<notin> set crc_table_n"
    using crc_table_sep_1 by (auto simp: list_all_iff)
  have "unat (crc_pow b) \<in> set crc_table_n"
    using assms(3) len by (simp add: crc_table_n_nth crc_table_n_def)
  with sep show "crc_pow a XOR 1 \<noteq> crc_pow b" by metis
  from sep show "crc_pow a \<noteq> 1" by (metis xor_self_eq unat_0)
qed

lemma crc_pow_sep_E02:
  assumes "0 < a" "a < 87" "b < 87"
  shows "crc_pow a XOR 0xE02 \<noteq> crc_pow b" and "crc_pow a \<noteq> 0xE02"
proof -
  have len: "length crc_table = 88" by (simp add: crc_table_def)
  have "butlast (tl crc_table) ! (a - 1) = crc_pow a"
    using assms len by (simp add: crc_table_pow nth_tl nth_butlast)
  moreover have "a - 1 < length (butlast (tl crc_table))" using assms len by simp
  ultimately have mem: "crc_pow a \<in> set (butlast (tl crc_table))" by (metis nth_mem)
  then have sep: "unat (crc_pow a XOR 0xE02) \<noteq> 0
      \<and> unat (crc_pow a XOR 0xE02) \<notin> set (butlast crc_table_n)"
    using crc_table_sep_E02 by (auto simp: list_all_iff)
  have "butlast crc_table_n ! b = unat (crc_pow b)" "b < length (butlast crc_table_n)"
    using assms(3) len by (simp_all add: crc_table_n_nth crc_table_n_def nth_butlast)
  then have "unat (crc_pow b) \<in> set (butlast crc_table_n)" by (metis nth_mem)
  with sep show "crc_pow a XOR 0xE02 \<noteq> crc_pow b" by metis
  from sep show "crc_pow a \<noteq> 0xE02" by (metis xor_self_eq unat_0)
qed

text \<open>No sum of one, two or three of the 88 powers vanishes.\<close>

lemma bit_crc_pow_high: "12 \<le> n \<Longrightarrow> \<not> bit (crc_pow k) n"
proof (cases k)
  case 0
  assume "12 \<le> n"
  then show ?thesis using 0 by (simp add: crc_pow_def bit_1_iff)
next
  case (Suc j)
  assume "12 \<le> n"
  then show ?thesis using Suc by (simp add: crc_pow_def crc_zero_def bit_crc12_bit_high)
qed

lemma crc_pow_add: "crc_pow (m + n) = (crc_zero ^^ n) (crc_pow m)"
  by (simp add: crc_pow_def funpow_add [of n m] add.commute [of m n])

lemma crc_pow_neq_0: "crc_pow k \<noteq> 0"
proof
  assume "crc_pow k = 0"
  then have "(1 :: u16) = 0 \<or> (1 :: u16) = 0xE03"
    by (intro crc_zero_funpow_eq_0 [where n = k]) (auto simp: crc_pow_def bit_1_iff)
  then show False by simp
qed

lemma crc_pow_2:
  assumes "j < i" "i < 88"
  shows "crc_pow i XOR crc_pow j \<noteq> 0"
proof
  assume z: "crc_pow i XOR crc_pow j = 0"
  have "crc_pow i XOR crc_pow j = (crc_zero ^^ j) (crc_pow (i - j) XOR 1)"
    using assms crc_pow_add [of "i - j" j] crc_pow_add [of 0 j]
    by (simp add: crc_zero_funpow_xor crc_pow_def)
  with z have "(crc_zero ^^ j) (crc_pow (i - j) XOR 1) = 0" by simp
  then have v: "crc_pow (i - j) XOR 1 = 0 \<or> crc_pow (i - j) XOR 1 = 0xE03"
    by (rule crc_zero_funpow_eq_0) (auto simp: bit_xor_iff bit_crc_pow_high bit_1_iff)
  have "crc_pow (i - j) \<noteq> 1" using assms by (intro crc_pow_sep_1(2) [where b = 0]) auto
  then have v': "crc_pow (i - j) = 0xE03 XOR 1"
    using v by (metis xor_eq_0_iff_eq xor_eq_iff_eq_xor)
  show False
  proof (cases j)
    case 0
    with z assms have "crc_pow i = 1" by (simp add: xor_eq_0_iff_eq) (simp add: crc_pow_def)
    then show False using 0 assms crc_pow_sep_1(2) [of i 0] by simp
  next
    case (Suc _)
    then have "crc_pow (i - j) \<noteq> 0xE02" using assms by (intro crc_pow_sep_E02(2) [where b = 0]) auto
    with v' show False by simp
  qed
qed

lemma crc_pow_3:
  assumes "k < j" "j < i" "i < 88"
  shows "crc_pow i XOR crc_pow j XOR crc_pow k \<noteq> 0"
proof
  assume z: "crc_pow i XOR crc_pow j XOR crc_pow k = 0"
  let ?a = "i - k" and ?b = "j - k"
  have "crc_pow i XOR crc_pow j XOR crc_pow k
      = (crc_zero ^^ k) (crc_pow ?a XOR crc_pow ?b XOR 1)"
    using assms crc_pow_add [of ?a k] crc_pow_add [of ?b k] crc_pow_add [of 0 k]
    by (simp add: crc_zero_funpow_xor crc_pow_def)
  with z have "(crc_zero ^^ k) (crc_pow ?a XOR crc_pow ?b XOR 1) = 0" by simp
  then have v: "crc_pow ?a XOR crc_pow ?b XOR 1 = 0 \<or> crc_pow ?a XOR crc_pow ?b XOR 1 = 0xE03"
    by (rule crc_zero_funpow_eq_0) (auto simp: bit_xor_iff bit_crc_pow_high bit_1_iff)
  have "crc_pow ?a XOR 1 \<noteq> crc_pow ?b" using assms by (intro crc_pow_sep_1(1)) auto
  then have ne: "crc_pow ?a XOR crc_pow ?b XOR 1 \<noteq> 0"
    by (metis xor_eq_0_iff_eq xor_eq_iff_eq_xor)
  show False
  proof (cases k)
    case 0
    with z ne show False by (simp add: crc_pow_def [of 0])
  next
    case (Suc _)
    have "crc_pow ?a XOR 0xE02 \<noteq> crc_pow ?b"
      using assms Suc by (intro crc_pow_sep_E02(1)) auto
    moreover have "crc_pow ?a XOR 0xE02 = crc_pow ?b"
    proof -
      have "crc_pow ?a XOR crc_pow ?b XOR 1 = 0xE02 XOR 1" using v ne by simp
      then have "crc_pow ?a XOR crc_pow ?b = 0xE02"
        by (simp only: xor_right_cancel flip: xor.assoc)
      then show ?thesis by (metis xor_cancel_left)
    qed
    ultimately show False by simp
  qed
qed

section \<open>Error patterns of weight up to three\<close>

definition bit_errors :: "u8 list \<Rightarrow> u8 list \<Rightarrow> nat set" where
  "bit_errors ds ds' = {i. i < 87 \<and> (ds ! i \<noteq> 0) \<noteq> (ds' ! i \<noteq> 0)}"

definition stream_pos :: "nat \<Rightarrow> nat" where
  "stream_pos i = (if i < 75 then i else i + 1)"

lemma nth_crc_stream:
  "p < 88 \<Longrightarrow> crc_stream ds ! p = (p \<noteq> 75 \<and> ds ! (if p < 75 then p else p - 1) \<noteq> 0)"
  using nth_upt [of 75 "p - 76" 87]
  by (auto simp: crc_stream_def nth_append payload_bits_def crc_field_def nth_Cons'
      simp del: upt_rec_numeral)

lemma stream_errors:
  "{p. p < 88 \<and> xor_bits (crc_stream ds) (crc_stream ds') ! p} = stream_pos ` bit_errors ds ds'"
proof (intro equalityI subsetI)
  fix p assume "p \<in> {p. p < 88 \<and> xor_bits (crc_stream ds) (crc_stream ds') ! p}"
  then have "p < 88" "p \<noteq> 75" "(if p < 75 then p else p - 1) \<in> bit_errors ds ds'"
    by (auto simp: nth_crc_stream bit_errors_def)
  then show "p \<in> stream_pos ` bit_errors ds ds'"
    by (intro image_eqI [of _ _ "if p < 75 then p else p - 1"]) (auto simp: stream_pos_def)
qed (auto simp: nth_crc_stream bit_errors_def stream_pos_def)

lemma card_stream_pos: "card (stream_pos ` A) = card A"
  by (rule card_image) (auto simp: inj_on_def stream_pos_def split: if_splits)

lemma length_unit_bits [simp]: "length (unit_bits n p) = n"
  by (simp add: unit_bits_def)

lemma nth_unit_bits [simp]: "q < n \<Longrightarrow> unit_bits n p ! q \<longleftrightarrow> p = q"
  by (cases "p = q") (simp_all add: unit_bits_def)

lemma support_mem: "{p. p < n \<and> e ! p} = S \<Longrightarrow> i < n \<Longrightarrow> e ! i \<longleftrightarrow> i \<in> S"
  by blast

lemma crc_of_weight_1:
  assumes "length e = 88" "{p. p < 88 \<and> e ! p} = {p}"
  shows "crc_of_bits e \<noteq> 0"
proof -
  have "p < 88" using assms(2) by blast
  moreover have "e = unit_bits 88 p"
    by (rule nth_equalityI) (auto simp: assms(1) support_mem [OF assms(2)])
  ultimately show ?thesis by (simp add: crc_of_unit crc_pow_neq_0)
qed

lemma crc_of_weight_2:
  assumes "length e = 88" "{p. p < 88 \<and> e ! p} = {p, q}" "p < q"
  shows "crc_of_bits e \<noteq> 0"
proof -
  have pq: "p < 88" "q < 88" using assms(2) by blast+
  have e: "e = xor_bits (unit_bits 88 p) (unit_bits 88 q)"
    using assms(3) by (intro nth_equalityI) (auto simp: assms(1) support_mem [OF assms(2)])
  show ?thesis
    unfolding e using pq assms(3) crc_pow_2 [of "87 - q" "87 - p"]
    by (simp add: crc_of_bits_xor crc_of_unit)
qed

lemma crc_of_weight_3:
  assumes "length e = 88" "{p. p < 88 \<and> e ! p} = {p, q, r}" "p < q" "q < r"
  shows "crc_of_bits e \<noteq> 0"
proof -
  have pqr: "p < 88" "q < 88" "r < 88" using assms(2) by blast+
  have e: "e = xor_bits (unit_bits 88 p) (xor_bits (unit_bits 88 q) (unit_bits 88 r))"
    using assms(3,4) by (intro nth_equalityI) (auto simp: assms(1) support_mem [OF assms(2)])
  show ?thesis
    unfolding e using pqr assms(3,4) crc_pow_3 [of "87 - r" "87 - q" "87 - p"]
    by (simp add: crc_of_bits_xor crc_of_unit)
qed

lemma card_3_sorted:
  fixes A :: "nat set"
  assumes "card A = 3"
  obtains p q r where "A = {p, q, r}" "p < q" "q < r"
proof -
  have fin: "finite A" using assms by (metis card.infinite zero_neq_numeral)
  then have "length (sorted_list_of_set A) = Suc (Suc (Suc 0))" using assms by simp
  then obtain p q r where l: "sorted_list_of_set A = [p, q, r]"
    by (auto simp only: length_Suc_conv length_0_conv)
  have "sorted_wrt (<) (sorted_list_of_set A)" by (rule strict_sorted_list_of_set)
  moreover have "A = set (sorted_list_of_set A)" using fin by simp
  ultimately show thesis using that l by auto
qed

lemma crc_of_weight:
  assumes len: "length e = 88" and w: "card {p. p < 88 \<and> e ! p} \<in> {1, 2, 3}"
  shows "crc_of_bits e \<noteq> 0"
proof -
  consider "card {p. p < 88 \<and> e ! p} = 1" | "card {p. p < 88 \<and> e ! p} = 2"
    | "card {p. p < 88 \<and> e ! p} = 3" using w by auto
  then show ?thesis
  proof cases
    case 1
    then obtain p where "{p. p < 88 \<and> e ! p} = {p}" by (rule card_1_singletonE)
    then show ?thesis by (rule crc_of_weight_1 [OF len])
  next
    case 2
    then obtain p q where S: "{p. p < 88 \<and> e ! p} = {p, q}" "p \<noteq> q"
      unfolding card_2_iff by blast
    show ?thesis
    proof (cases "p < q")
      case True
      with S show ?thesis using crc_of_weight_2 [OF len] by blast
    next
      case False
      with S show ?thesis using crc_of_weight_2 [OF len, of q p] by (simp add: insert_commute)
    qed
  next
    case 3
    then obtain p q r where "{p. p < 88 \<and> e ! p} = {p, q, r}" "p < q" "q < r"
      by (rule card_3_sorted)
    then show ?thesis by (rule crc_of_weight_3 [OF len])
  qed
qed

text \<open>
  C9. The CRC-12 gate never accepts two different 87-bit words that are at most three bit
  flips apart: if a word passes the check, no word with one, two or three of its 87
  information bits inverted passes it.
\<close>

theorem crc_gate_distance:
  assumes "checkCRC12 ds" and "card (bit_errors ds ds') \<in> {1, 2, 3}"
  shows "\<not> checkCRC12 ds'"
proof
  assume "checkCRC12 ds'"
  let ?e = "xor_bits (crc_stream ds) (crc_stream ds')"
  have "crc_of_bits ?e = 42 XOR 42"
    using assms(1) \<open>checkCRC12 ds'\<close> by (simp only: checkCRC12_syndrome crc_of_bits_xor length_crc_parts)
  then have "crc_of_bits ?e = 0" by simp
  moreover have "card {p. p < 88 \<and> ?e ! p} \<in> {1, 2, 3}"
    using assms(2) by (simp add: stream_errors card_stream_pos)
  ultimately show False using crc_of_weight [of ?e] by simp
qed

definition sample_frame :: "u8 list" where
  "sample_frame = replicate 75 0 @ [0, 0, 0, 0, 0, 0, 1, 0, 1, 0, 1, 0]"

lemma sample_frame_passes: "checkCRC12 sample_frame"
  by code_simp

lemma sample_frame_errors: "bit_errors sample_frame (sample_frame[0 := 1, 40 := 1]) = {0, 40}"
proof -
  have len: "length sample_frame = 87" by (simp add: sample_frame_def)
  have z: "sample_frame ! 0 = 0" "sample_frame ! 40 = 0"
    by (simp_all add: sample_frame_def nth_append)
  have "sample_frame[0 := 1, 40 := 1] ! i = (if i = 0 \<or> i = 40 then 1 else sample_frame ! i)"
    if "i < 87" for i
    using that len by (simp add: nth_list_update)
  then have "i \<in> bit_errors sample_frame (sample_frame[0 := 1, 40 := 1]) \<longleftrightarrow> i \<in> {0, 40}" for i
    using z by (cases "i < 87") (simp_all add: bit_errors_def del: nth_list_update_eq)
  then show ?thesis by blast
qed

theorem crc_gate_distance_witness:
  "checkCRC12 sample_frame \<and> \<not> checkCRC12 (sample_frame[0 := 1, 40 := 1])"
  using sample_frame_passes
    crc_gate_distance [OF sample_frame_passes, of "sample_frame[0 := 1, 40 := 1]"]
  by (simp add: sample_frame_errors)

section \<open>The accepted CRC field\<close>

lemma crc_of_field_inj:
  assumes "length f = 12" "length g = 12" "crc_of_bits f = crc_of_bits g"
  shows "f = g"
proof (rule nth_equalityI)
  fix i assume "i < length f"
  then have "bit (crc_of_bits f) (11 - i) = f ! i" "bit (crc_of_bits g) (11 - i) = g ! i"
    using assms(1,2) by (simp_all add: bit_crc_of_short)
  with assms(3) show "f ! i = g ! i" by simp
qed (use assms in simp)

lemma crc_of_field_surj:
  assumes "\<And>n. 12 \<le> n \<Longrightarrow> \<not> bit w n"
  shows "crc_of_bits (map (\<lambda>i. bit w (11 - i)) [0..<12]) = w"
proof (rule bit_word_eqI)
  fix n
  have "n < 12 \<Longrightarrow> map (\<lambda>i. bit w (11 - i)) [0..<12] ! (11 - n) = bit w n"
    by (simp del: upt_rec_numeral)
  with assms [of n] show "bit (crc_of_bits (map (\<lambda>i. bit w (11 - i)) [0..<12])) n = bit w n"
    by (cases "n < 12") (auto simp: bit_crc_of_short simp del: upt_rec_numeral)
qed

lemma frame_parts:
  assumes "length p = 75" "length f = 12"
  shows "payload_bits (p @ map byte_of_bool f) = map (\<lambda>x. x \<noteq> 0) p"
    and "crc_field (p @ map byte_of_bool f) = f"
  using assms
  by (auto intro!: nth_equalityI
      simp: payload_bits_def crc_field_def nth_append byte_of_bool_def simp del: upt_rec_numeral
      split: if_splits)

text \<open>
  For every 75-bit payload there is exactly one 12-bit CRC field with which
  \<open>checkCRC12\<close> accepts the frame: the gate accepts one word in 4096.
\<close>

theorem crc_field_unique:
  assumes "length p = 75"
  shows "\<exists>!f. length f = 12 \<and> checkCRC12 (p @ map byte_of_bool f)"
proof -
  let ?r = "crc_of_bits (map (\<lambda>x. x \<noteq> 0) p @ replicate 13 False)"
  have iff: "checkCRC12 (p @ map byte_of_bool f) \<longleftrightarrow> crc_of_bits f = ?r XOR 42"
    if "length f = 12" for f
    unfolding checkCRC12_syndrome crc_stream_split frame_parts [OF assms that]
    by (metis xor.commute xor_eq_iff_eq_xor)
  have high: "\<not> bit (?r XOR 42) n" if "12 \<le> n" for n
    unfolding bit_xor_iff using bit_crc_of_bits_high [OF that] bit_0x2A_high [OF that] by simp
  let ?f = "map (\<lambda>i. bit (?r XOR 42) (11 - i)) [0..<12]"
  show ?thesis
  proof (rule ex1I [of _ ?f])
    show "length ?f = 12 \<and> checkCRC12 (p @ map byte_of_bool ?f)"
      using iff [of ?f] crc_of_field_surj [of "?r XOR 42"] high by simp
    fix f assume f: "length f = 12 \<and> checkCRC12 (p @ map byte_of_bool f)"
    then have "crc_of_bits f = crc_of_bits ?f"
      using iff [of f] crc_of_field_surj [of "?r XOR 42"] high by simp
    with f show "f = ?f" by (intro crc_of_field_inj) simp_all
  qed
qed

theorem crc_field_unique_witness:
  "\<exists>!f. length f = 12 \<and> checkCRC12 (replicate 75 0 @ map byte_of_bool f)"
  by (rule crc_field_unique) simp

section \<open>Field extraction\<close>

lemma bit_bits_to_int:
  "n \<le> 64 \<Longrightarrow> bit (bits_to_int bits offset n) k
     \<longleftrightarrow> k < n \<and> bit (bits ! (offset + (n - 1 - k))) 0"
  unfolding bits_to_int_def using bit_foldl_shift_in [where 'a = 64, of n "\<lambda>i. bits ! (offset + i)" k] by simp

lemma bits_to_int_less: "n \<le> 64 \<Longrightarrow> unat (bits_to_int bits offset n) < 2 ^ n"
  by (rule unat_less_of_bits) (simp add: bit_bits_to_int)

end
