(* ===== verification/Jsc.thy ===== *)
theory Jsc
  imports Prelude
begin

text \<open>
  \<open>jsc_decompress\<close> of \<open>gm/hf/jsc.cc\<close>: the (s,c)-dense word code of JS8 data frames
  (\<open>s = 7\<close> terminal and \<open>c = 9\<close> continuation values of a 4-bit group).  The word table
  \<open>jsc_map\<close> (262144 strings, \<open>gm/hf/jsc_map.cc\<close>) is the argument \<open>jmap\<close>.  The lemmas
  show that table and offset array are read in range, and that the decoder inverts the
  code: any list of table indices, encoded group by group with its separator bits, is
  decoded to the words it stands for.
\<close>

section \<open>Definitions\<close>

definition kJscSize :: nat where
  "kJscSize = 262144"

definition jsc_s :: nat where "jsc_s = 7"
definition jsc_c :: nat where "jsc_c = 9"

text \<open>32-bit unsigned arithmetic, the wrap-around written out.\<close>

definition wrap32 :: "nat \<Rightarrow> nat" where
  "wrap32 n = n mod 2 ^ 32"

text \<open>The loop that fills \<open>base[2..7]\<close>, with its running power \<open>cpow\<close>.\<close>

fun jsc_base_loop :: "nat \<Rightarrow> nat \<Rightarrow> nat list \<Rightarrow> nat list" where
  "jsc_base_loop 0 cpow bs = bs"
| "jsc_base_loop (Suc n) cpow bs =
     (let cpow' = wrap32 (cpow * jsc_c)
      in jsc_base_loop n cpow' (bs @ [wrap32 (last bs + jsc_s * cpow')]))"

definition jsc_base :: "nat list" where
  "jsc_base = jsc_base_loop 6 1 [0, jsc_s]"

text \<open>Pass 1: 4-bit groups, and after each terminal group one separator bit.\<close>

definition nibble_at :: "u8 list \<Rightarrow> nat \<Rightarrow> nat" where
  "nibble_at bits i =
     unat (push_bit 3 (ucast (bits ! i)) OR push_bit 2 (ucast (bits ! (i + 1)))
        OR push_bit 1 (ucast (bits ! (i + 2))) OR ucast (bits ! (i + 3)) :: u32)"

function jsc_groups ::
  "u8 list \<Rightarrow> nat \<Rightarrow> nat \<Rightarrow> nat list \<Rightarrow> nat list \<Rightarrow> nat list \<times> nat list"
where
  "jsc_groups bits nbits i grps seps =
     (if i + 4 \<le> nbits
      then let g = nibble_at bits i; grps' = grps @ [g]; i' = i + 4
           in if g < jsc_s
              then jsc_groups bits nbits (i' + 1) grps'
                     (if i' < nbits \<and> bits ! i' \<noteq> 0 then seps @ [length grps' - 1] else seps)
              else jsc_groups bits nbits i' grps' seps
      else (grps, seps))"
  by pat_completeness auto
termination
  by (relation "measure (\<lambda>(bits, nbits, i, grps, seps). nbits - i)") (auto simp: jsc_s_def)

text \<open>The inner loop of pass 2: continuation groups accumulated base \<open>c\<close>.\<close>

function jsc_word :: "nat list \<Rightarrow> nat \<Rightarrow> nat \<Rightarrow> nat \<Rightarrow> nat \<times> nat" where
  "jsc_word grps start k j =
     (if start + k < length grps \<and> jsc_s \<le> grps ! (start + k)
      then let j' = wrap32 (j * jsc_c + (grps ! (start + k) - jsc_s)); k' = k + 1
           in if 7 \<le> k' \<or> kJscSize \<le> wrap32 (jsc_base ! k' + j' * jsc_s)
              then (k', j') else jsc_word grps start k' j'
      else (k, j))"
  by pat_completeness auto
termination
  by (relation "measure (\<lambda>(grps, start, k, j). length grps - (start + k))") auto

text \<open>The outer loop of pass 2.\<close>

function jsc_words ::
  "(nat \<Rightarrow> string) \<Rightarrow> nat list \<Rightarrow> nat list \<Rightarrow> nat \<Rightarrow> nat \<Rightarrow> string \<Rightarrow> string"
where
  "jsc_words jmap grps seps start nseps out =
     (if start < length grps
      then let (k, j) = jsc_word grps start 0 0
           in if length grps \<le> start + k then out
              else let idx = wrap32 (j * jsc_s + grps ! (start + k) + jsc_base ! k)
                   in if kJscSize \<le> idx then out
                      else let out' = out @ jmap idx;
                               sep = (nseps < length seps \<and> seps ! nseps = start + k)
                           in jsc_words jmap grps seps (start + (k + 1))
                                (if sep then nseps + 1 else nseps)
                                (if sep then out' @ '' '' else out')
      else out)"
  by pat_completeness auto
termination
  by (relation "measure (\<lambda>(jmap, grps, seps, start, nseps, out). length grps - start)") auto

definition jsc_decompress :: "(nat \<Rightarrow> string) \<Rightarrow> u8 list \<Rightarrow> nat \<Rightarrow> string" where
  "jsc_decompress jmap bits nbits =
     (let (grps, seps) = jsc_groups bits nbits 0 [] []
      in jsc_words jmap grps seps 0 0 [])"

declare jsc_groups.simps [simp del] jsc_word.simps [simp del] jsc_words.simps [simp del]

section \<open>The offset table and its reads\<close>

lemma wrap32_small: "n < 4294967296 \<Longrightarrow> wrap32 n = n"
  by (simp add: wrap32_def)

lemma jsc_base_eval: "jsc_base = [0, 7, 70, 637, 5740, 51667, 465010, 4185097]"
proof -
  have "(6 :: nat) = Suc (Suc (Suc (Suc (Suc (Suc 0)))))" by simp
  then show ?thesis
    unfolding jsc_base_def jsc_s_def
    by (simp only: jsc_base_loop.simps) (simp add: jsc_s_def jsc_c_def wrap32_small Let_def)
qed

lemma jsc_base_step: "k < 7 \<Longrightarrow> jsc_base ! Suc k = jsc_base ! k + 7 * 9 ^ k"
proof -
  assume "k < 7"
  then have "k \<in> {0, 1, 2, 3, 4, 5, 6}" by auto
  then show ?thesis by (auto simp: jsc_base_eval)
qed

lemma jsc_base_mono: "i \<le> k \<Longrightarrow> k \<le> 7 \<Longrightarrow> jsc_base ! i \<le> jsc_base ! k"
proof (induction k)
  case (Suc k)
  then show ?case using jsc_base_step [of k] by (cases "i = Suc k") auto
qed simp

text \<open>\<open>base\<close> has eight entries, and the inner loop leaves with a depth below eight.\<close>

lemma jsc_word_depth: "k \<le> 6 \<Longrightarrow> fst (jsc_word grps start k j) < length jsc_base"
proof (induction grps start k j rule: jsc_word.induct)
  case (1 grps start k j)
  let ?j = "wrap32 (j * jsc_c + (grps ! (start + k) - jsc_s))"
  show ?case
  proof (cases "start + k < length grps \<and> jsc_s \<le> grps ! (start + k)")
    case True
    show ?thesis
    proof (cases "7 \<le> k + 1 \<or> kJscSize \<le> wrap32 (jsc_base ! (k + 1) + ?j * jsc_s)")
      case stop: True
      then show ?thesis
        using True "1.prems" by (subst jsc_word.simps) (auto simp: Let_def jsc_base_eval)
    next
      case go: False
      then have "fst (jsc_word grps start (k + 1) ?j) < length jsc_base"
        using True by (intro "1.IH") auto
      with True go show ?thesis by (subst jsc_word.simps) (simp add: Let_def)
    qed
  next
    case False
    then show ?thesis
      using "1.prems" by (subst jsc_word.simps) (auto simp: jsc_base_eval)
  qed
qed

section \<open>The code words\<close>

text \<open>
  The inverse direction, as the transmitter does it: table index \<open>j\<close> lies in the block of
  one depth \<open>k\<close>; its rank in the block is written as \<open>k\<close> continuation digits in base
  \<open>c\<close> and one terminal digit in base \<open>s\<close>.
\<close>

fun base_digits :: "nat \<Rightarrow> nat \<Rightarrow> nat list" where
  "base_digits 0 r = []"
| "base_digits (Suc k) r = base_digits k (r div 9) @ [r mod 9]"

fun jsc_depth :: "nat \<Rightarrow> nat \<Rightarrow> nat" where
  "jsc_depth 0 j = 0"
| "jsc_depth (Suc k) j = (if jsc_base ! Suc k \<le> j then Suc k else jsc_depth k j)"

definition jsc_code :: "nat \<Rightarrow> nat list" where
  "jsc_code j =
     (let k = jsc_depth 6 j; r = j - jsc_base ! k
      in map (\<lambda>d. d + 7) (base_digits k (r div 7)) @ [r mod 7])"

lemma length_base_digits [simp]: "length (base_digits k r) = k"
  by (induction k arbitrary: r) simp_all

lemma base_digits_less: "d \<in> set (base_digits k r) \<Longrightarrow> d < 9"
  by (induction k arbitrary: r) auto

text \<open>Reading the digits back, most significant first.\<close>

definition horner9 :: "nat \<Rightarrow> nat list \<Rightarrow> nat" where
  "horner9 = foldl (\<lambda>j d. j * 9 + d)"

lemma horner9_append: "horner9 a (xs @ ys) = horner9 (horner9 a xs) ys"
  by (simp add: horner9_def)

lemma horner9_base_digits: "r < 9 ^ k \<Longrightarrow> horner9 0 (base_digits k r) = r"
proof (induction k arbitrary: r)
  case 0
  then show ?case by (simp add: horner9_def)
next
  case (Suc k)
  then have "horner9 0 (base_digits k (r div 9)) = r div 9" by simp
  then show ?case by (simp add: horner9_append) (simp add: horner9_def)
qed

lemma horner9_less: "\<forall>d\<in>set ds. d < 9 \<Longrightarrow> horner9 0 ds < 9 ^ length ds"
proof (induction ds rule: rev_induct)
  case Nil
  then show ?case by (simp add: horner9_def)
next
  case (snoc d ds)
  then have "horner9 0 ds < 9 ^ length ds" "d < 9" by simp_all
  then have "horner9 0 ds * 9 + d < 9 ^ length ds * 9" by linarith
  then show ?case by (simp add: horner9_append) (simp add: horner9_def mult.commute)
qed

lemma jsc_depth_le: "jsc_depth k j \<le> k"
  by (induction k) (auto simp: le_SucI)

lemma jsc_depth_lower: "jsc_base ! jsc_depth k j \<le> j"
  by (induction k) (auto simp: jsc_base_eval)

lemma jsc_depth_upper:
  "k \<le> 6 \<Longrightarrow> j < jsc_base ! Suc k \<Longrightarrow> j < jsc_base ! Suc (jsc_depth k j)"
proof (induction k)
  case (Suc k)
  then show ?case by (cases "jsc_base ! Suc k \<le> j") simp_all
qed simp

lemma jsc_code_block:
  assumes "j < kJscSize"
  obtains k r where "k \<le> 6" "j = jsc_base ! k + r" "r < 7 * 9 ^ k"
    "jsc_code j = map (\<lambda>d. d + 7) (base_digits k (r div 7)) @ [r mod 7]"
proof -
  let ?k = "jsc_depth 6 j"
  have k: "?k \<le> 6" by (rule jsc_depth_le)
  have "j < jsc_base ! Suc 6" using assms by (simp add: kJscSize_def jsc_base_eval)
  then have "j < jsc_base ! Suc ?k" by (intro jsc_depth_upper) simp_all
  then have r: "j - jsc_base ! ?k < 7 * 9 ^ ?k"
    using jsc_base_step [of ?k] k jsc_depth_lower [of 6 j] by linarith
  have "j = jsc_base ! ?k + (j - jsc_base ! ?k)" using jsc_depth_lower [of 6 j] by simp
  then show thesis
    using r by (rule that [OF k]) (simp add: jsc_code_def Let_def)
qed

section \<open>Pass 2 inverts the code\<close>

text \<open>
  Inside one code word the loop reads all continuation groups: at every prefix the offset
  test stays below the table size, because the index itself does.
\<close>

lemma jsc_word_digits:
  assumes "\<And>i. i < length ds \<Longrightarrow> grps ! (start + k + i) = ds ! i + 7"
    and "start + k + length ds < length grps" and "grps ! (start + k + length ds) < 7"
    and "\<forall>d\<in>set ds. d < 9" and "k + length ds \<le> 6" and "j < 9 ^ k"
    and "jsc_base ! (k + length ds) + horner9 j ds * 7 < kJscSize"
  shows "jsc_word grps start k j = (k + length ds, horner9 j ds)"
  using assms
proof (induction ds arbitrary: k j)
  case Nil
  then show ?case by (subst jsc_word.simps) (simp add: jsc_s_def horner9_def)
next
  case (Cons d ds)
  let ?j = "j * 9 + d"
  have g: "grps ! (start + k) = d + 7" using Cons.prems(1) [of 0] by simp
  have d: "d < 9" using Cons.prems(4) by simp
  have k: "k + 1 \<le> 6" using Cons.prems(5) by simp
  have j: "?j < 9 ^ (k + 1)" using Cons.prems(6) d by simp
  have "(9::nat) ^ (k + 1) \<le> 9 ^ 6" using k by (intro power_increasing) simp_all
  with j have jbig: "?j < 531441" by simp
  note bound = Cons.prems(7)
  have small: "jsc_base ! (k + 1) + ?j * 7 < kJscSize"
  proof (cases ds)
    case Nil
    then show ?thesis using bound by (simp add: horner9_def)
  next
    case (Cons e es)
    then have le: "k + 2 \<le> k + length (d # ds)" by simp
    have "jsc_base ! (k + 2) = jsc_base ! (k + 1) + 7 * 9 ^ (k + 1)"
      using jsc_base_step [of "k + 1"] k by simp
    moreover have "jsc_base ! (k + 2) \<le> jsc_base ! (k + length (d # ds))"
      using le \<open>k + length (d # ds) \<le> 6\<close> by (intro jsc_base_mono) simp_all
    ultimately have "jsc_base ! (k + 1) + 7 * 9 ^ (k + 1) \<le> jsc_base ! (k + length (d # ds))"
      by simp
    moreover have "?j * 7 < 7 * 9 ^ (k + 1)" using j by simp
    ultimately show ?thesis using bound by linarith
  qed
  have w1: "wrap32 (j * 9 + d) = ?j" using jbig by (intro wrap32_small) simp
  have w2: "wrap32 (jsc_base ! (k + 1) + ?j * 7) = jsc_base ! (k + 1) + ?j * 7"
    using small by (intro wrap32_small) (simp add: kJscSize_def)
  have "jsc_word grps start k j = jsc_word grps start (k + 1) ?j"
    using Cons.prems(2) g k small w1 w2
    by (subst jsc_word.simps) (simp add: Let_def jsc_s_def jsc_c_def)
  also have "\<dots> = (k + 1 + length ds, horner9 ?j ds)"
  proof (rule Cons.IH)
    show "grps ! (start + (k + 1) + i) = ds ! i + 7" if "i < length ds" for i
      using Cons.prems(1) [of "Suc i"] that by simp
  qed (use Cons.prems j in \<open>simp_all add: horner9_def\<close>)
  finally show ?case by (simp add: horner9_def)
qed

definition jsc_word_list_of :: "(nat \<times> bool) list \<Rightarrow> nat list" where
  "jsc_word_list_of W = concat (map (jsc_code \<circ> fst) W)"

fun jsc_seps_of :: "nat \<Rightarrow> (nat \<times> bool) list \<Rightarrow> nat list" where
  "jsc_seps_of n [] = []"
| "jsc_seps_of n ((j, sp) # W) =
     (if sp then [n + length (jsc_code j) - 1] else []) @ jsc_seps_of (n + length (jsc_code j)) W"

definition jsc_text_of :: "(nat \<Rightarrow> string) \<Rightarrow> (nat \<times> bool) list \<Rightarrow> string" where
  "jsc_text_of jmap W = concat (map (\<lambda>(j, sp). jmap j @ (if sp then '' '' else [])) W)"

lemma jsc_code_nonempty [simp]: "jsc_code j \<noteq> []"
  by (simp add: jsc_code_def Let_def)

lemma jsc_seps_of_lower: "x \<in> set (jsc_seps_of n W) \<Longrightarrow> n \<le> x"
proof (induction n W rule: jsc_seps_of.induct)
  case (2 n j sp W)
  have "0 < length (jsc_code j)" by simp
  then have "n \<le> n + length (jsc_code j) - 1" by linarith
  with 2 show ?case by (auto split: if_splits)
qed simp

text \<open>One word, read from the groups of the whole message.\<close>

lemma jsc_word_code:
  assumes "j < kJscSize" and "grps = pre @ jsc_code j @ post"
  obtains k r where "jsc_word grps (length pre) 0 0 = (k, r div 7)"
    and "length (jsc_code j) = k + 1" and "grps ! (length pre + k) = r mod 7"
    and "j = r div 7 * 7 + r mod 7 + jsc_base ! k"
proof -
  obtain k r where kr: "k \<le> 6" "j = jsc_base ! k + r" "r < 7 * 9 ^ k"
    and code: "jsc_code j = map (\<lambda>d. d + 7) (base_digits k (r div 7)) @ [r mod 7]"
    using assms(1) by (rule jsc_code_block)
  have r7: "r div 7 < 9 ^ k" using kr(3) by (simp add: div_less_iff_less_mult mult.commute)
  have "jsc_word grps (length pre) 0 0
      = (0 + length (base_digits k (r div 7)), horner9 0 (base_digits k (r div 7)))"
  proof (rule jsc_word_digits)
    show "grps ! (length pre + 0 + i) = base_digits k (r div 7) ! i + 7"
      if "i < length (base_digits k (r div 7))" for i
      using that by (simp add: assms(2) code nth_append)
    show "jsc_base ! (0 + length (base_digits k (r div 7)))
        + horner9 0 (base_digits k (r div 7)) * 7 < kJscSize"
      using horner9_base_digits [OF r7] assms(1) kr(2) by simp
  qed (use kr(1) base_digits_less in \<open>auto simp: assms(2) code nth_append\<close>)
  then have "jsc_word grps (length pre) 0 0 = (k, r div 7)"
    by (simp add: horner9_base_digits [OF r7])
  moreover have "grps ! (length pre + k) = r mod 7" by (simp add: assms(2) code nth_append)
  moreover have "length (jsc_code j) = k + 1" by (simp add: code)
  ultimately show thesis using that kr(2) by simp
qed

lemma jsc_words_code:
  assumes "\<forall>(j, sp)\<in>set W. j < kJscSize"
    and "grps = pre @ jsc_word_list_of W" and "drop nseps seps = jsc_seps_of (length pre) W"
  shows "jsc_words jmap grps seps (length pre) nseps out = out @ jsc_text_of jmap W"
  using assms
proof (induction W arbitrary: pre nseps out)
  case Nil
  then show ?case
    by (subst jsc_words.simps) (simp add: jsc_word_list_of_def jsc_text_of_def)
next
  case (Cons w W)
  obtain j sp where w: "w = (j, sp)" by (cases w)
  have j: "j < kJscSize" using Cons.prems(1) w by simp
  have g: "grps = pre @ jsc_code j @ jsc_word_list_of W"
    using Cons.prems(2) by (simp add: w jsc_word_list_of_def)
  obtain k r where kr: "jsc_word grps (length pre) 0 0 = (k, r div 7)"
    "length (jsc_code j) = k + 1" "grps ! (length pre + k) = r mod 7"
    "j = r div 7 * 7 + r mod 7 + jsc_base ! k"
    using j g by (rule jsc_word_code)
  have idx: "wrap32 (r div 7 * jsc_s + grps ! (length pre + k) + jsc_base ! k) = j"
    using kr(3,4) j by (subst wrap32_small) (simp_all add: jsc_s_def kJscSize_def)
  have seps: "drop nseps seps
      = (if sp then [length pre + k] else []) @ jsc_seps_of (length pre + (k + 1)) W"
    using Cons.prems(3) kr(2) by (simp add: w)
  have sep: "(nseps < length seps \<and> seps ! nseps = length pre + k) = sp"
  proof (cases sp)
    case True
    with seps have "drop nseps seps = (length pre + k) # jsc_seps_of (length pre + (k + 1)) W" by simp
    then have "nseps < length seps \<and> seps ! nseps = length pre + k"
      by (metis drop_all hd_drop_conv_nth linorder_not_less list.distinct(1) list.sel(1))
    with True show ?thesis by simp
  next
    case False
    show ?thesis
    proof (rule ccontr)
      assume "\<not> ?thesis"
      then have "length pre + k \<in> set (drop nseps seps)" "nseps < length seps"
        using False by (auto simp: in_set_conv_nth intro!: exI [of _ 0])
      then show False
        using False seps jsc_seps_of_lower [of "length pre + k" "length pre + (k + 1)" W] by auto
    qed
  qed
  let ?ns = "if sp then nseps + 1 else nseps"
  let ?out = "out @ jmap j @ (if sp then '' '' else [])"
  have drop: "drop ?ns seps = jsc_seps_of (length (pre @ jsc_code j)) W"
    using seps kr(2) by (cases sp) (simp_all add: drop_Suc drop_tl [symmetric] flip: tl_drop)
  have "jsc_words jmap grps seps (length pre) nseps out
      = jsc_words jmap grps seps (length (pre @ jsc_code j)) ?ns ?out"
    using g kr idx j sep
    by (subst jsc_words.simps) (auto simp: Let_def)
  also have "\<dots> = ?out @ jsc_text_of jmap W"
    by (rule Cons.IH) (use Cons.prems g drop in \<open>simp_all\<close>)
  finally show ?case by (simp add: w jsc_text_of_def)
qed

section \<open>Pass 1 recovers the groups\<close>

definition nibble_bits :: "nat \<Rightarrow> u8 list" where
  "nibble_bits g = map byte_of_bool [bit g 3, bit g 2, bit g 1, bit g 0]"

definition jsc_encode_word :: "nat \<times> bool \<Rightarrow> u8 list" where
  "jsc_encode_word = (\<lambda>(j, sp). concat (map nibble_bits (jsc_code j)) @ [byte_of_bool sp])"

definition jsc_encode :: "(nat \<times> bool) list \<Rightarrow> u8 list" where
  "jsc_encode W = concat (map jsc_encode_word W)"

lemma length_nibble_bits [simp]: "length (nibble_bits g) = 4"
  by (simp add: nibble_bits_def)

lemma nibble_at_bits:
  assumes "g < 16"
  shows "nibble_at (pre @ nibble_bits g @ post) (length pre) = g"
proof -
  have all: "\<forall>g\<in>{0, 1, 2, 3, 4, 5, 6, 7, 8, 9, 10, 11, 12, 13, 14, 15}.
      nibble_at (pre @ nibble_bits g @ post) (length pre) = g"
    by (simp add: nibble_at_def nibble_bits_def nth_append byte_of_bool_def bit_simps)
  have "g \<in> {0, 1, 2, 3, 4, 5, 6, 7, 8, 9, 10, 11, 12, 13, 14, 15}" using assms by (simp, arith)
  with all show ?thesis by (rule bspec)
qed

lemma jsc_groups_continue:
  assumes "\<forall>g\<in>set ds. 7 \<le> g \<and> g < 16"
    and "bits = pre @ concat (map nibble_bits ds) @ post" and "nbits = length bits"
  shows "jsc_groups bits nbits (length pre) grps seps
     = jsc_groups bits nbits (length pre + 4 * length ds) (grps @ ds) seps"
  using assms
proof (induction ds arbitrary: pre grps)
  case (Cons d ds)
  have n: "nibble_at bits (length pre) = d"
    using Cons.prems(1,2) nibble_at_bits [of d pre] by simp
  have "jsc_groups bits nbits (length pre) grps seps
      = jsc_groups bits nbits (length (pre @ nibble_bits d)) (grps @ [d]) seps"
    using Cons.prems n by (subst jsc_groups.simps) (simp add: Let_def jsc_s_def)
  also have "\<dots> = jsc_groups bits nbits (length (pre @ nibble_bits d) + 4 * length ds) ((grps @ [d]) @ ds) seps"
    by (rule Cons.IH) (use Cons.prems in simp_all)
  finally show ?case by (simp add: algebra_simps)
qed simp

lemma jsc_code_shape:
  "j < kJscSize \<Longrightarrow>
     \<exists>ds t. jsc_code j = ds @ [t] \<and> t < 7 \<and> (\<forall>g\<in>set ds. 7 \<le> g \<and> g < 16)"
  using base_digits_less by (fastforce simp: jsc_code_def Let_def)

lemma jsc_groups_words:
  assumes "\<forall>(j, sp)\<in>set W. j < kJscSize"
    and "bits = pre @ jsc_encode W" and "nbits = length bits"
  shows "jsc_groups bits nbits (length pre) grps seps
     = (grps @ jsc_word_list_of W, seps @ jsc_seps_of (length grps) W)"
  using assms
proof (induction W arbitrary: pre grps seps)
  case Nil
  then show ?case
    by (subst jsc_groups.simps) (simp add: jsc_encode_def jsc_word_list_of_def)
next
  case (Cons w W)
  obtain j sp where w: "w = (j, sp)" by (cases w)
  then have "j < kJscSize" using Cons.prems(1) by simp
  then obtain ds t where code: "jsc_code j = ds @ [t]" and t: "t < 7"
    and ds: "\<forall>g\<in>set ds. 7 \<le> g \<and> g < 16"
    using jsc_code_shape by blast
  let ?pre1 = "pre @ concat (map nibble_bits ds)"
  let ?pre2 = "?pre1 @ nibble_bits t @ [byte_of_bool sp]"
  have bits: "bits = ?pre1 @ nibble_bits t @ byte_of_bool sp # jsc_encode W"
    using Cons.prems(2) by (simp add: w jsc_encode_def jsc_encode_word_def code)
  have len1: "length ?pre1 = length pre + 4 * length ds"
    by (induction ds) simp_all
  have "jsc_groups bits nbits (length pre) grps seps
      = jsc_groups bits nbits (length ?pre1) (grps @ ds) seps"
    using jsc_groups_continue [OF ds, of bits pre "nibble_bits t @ byte_of_bool sp # jsc_encode W"]
      bits Cons.prems(3) len1 by simp
  also have "\<dots> = jsc_groups bits nbits (length ?pre2) (grps @ ds @ [t])
      (seps @ (if sp then [length grps + length ds] else []))"
  proof -
    have n: "nibble_at bits (length ?pre1) = t"
      using nibble_at_bits [of t ?pre1] t bits by simp
    have b: "bits ! (length ?pre1 + 4) = byte_of_bool sp"
      using nth_append_length_plus [of ?pre1 "nibble_bits t @ byte_of_bool sp # jsc_encode W" 4] bits
      by (simp add: nth_append)
    have l: "length ?pre1 + 4 < nbits" using bits Cons.prems(3) by simp
    show ?thesis
      using n b l t
      by (subst jsc_groups.simps) (simp add: Let_def jsc_s_def byte_of_bool_def ac_simps)
  qed
  also have "\<dots> = ((grps @ ds @ [t]) @ jsc_word_list_of W,
      (seps @ (if sp then [length grps + length ds] else [])) @ jsc_seps_of (length (grps @ ds @ [t])) W)"
    by (rule Cons.IH) (use Cons.prems bits in simp_all)
  finally show ?case by (simp add: w code jsc_word_list_of_def)
qed

lemma jsc_decompress_words:
  assumes "\<forall>(j, sp)\<in>set W. j < kJscSize"
  shows "jsc_decompress jmap (jsc_encode W) (length (jsc_encode W)) = jsc_text_of jmap W"
proof -
  have "jsc_groups (jsc_encode W) (length (jsc_encode W)) 0 [] []
      = (jsc_word_list_of W, jsc_seps_of 0 W)"
    using jsc_groups_words [OF assms, of "jsc_encode W" "[]" _ "[]" "[]"] by simp
  moreover have "jsc_words jmap (jsc_word_list_of W) (jsc_seps_of 0 W) 0 0 [] = jsc_text_of jmap W"
    using jsc_words_code [OF assms, of "jsc_word_list_of W" "[]" 0 "jsc_seps_of 0 W" jmap "[]"] by simp
  ultimately show ?thesis by (simp add: jsc_decompress_def)
qed

text \<open>For evaluation.\<close>

lemma jsc_depth_6:
  "jsc_depth 6 j = (if 465010 \<le> j then 6 else if 51667 \<le> j then 5 else if 5740 \<le> j then 4
     else if 637 \<le> j then 3 else if 70 \<le> j then 2 else if 7 \<le> j then 1 else 0)"
proof -
  have "(6 :: nat) = Suc (Suc (Suc (Suc (Suc (Suc 0)))))" by simp
  then show ?thesis by (simp only: jsc_depth.simps) (simp add: jsc_base_eval)
qed

text \<open>
  C7. Decompression inverts the (s,c)-dense code: for every list of table indices with their
  space flags, the bit stream of their code words, each followed by its separator bit, is
  decoded to exactly those table words and spaces.
\<close>

theorem jsc_decompress_encode:
  assumes "\<forall>(j, sp)\<in>set W. j < kJscSize"
  shows "jsc_decompress jmap (jsc_encode W) (length (jsc_encode W)) = jsc_text_of jmap W"
  by (rule jsc_decompress_words [OF assms])

definition sample_jmap :: "nat \<Rightarrow> string" where
  "sample_jmap j = (if j = 0 then ''E'' else if j = 100 then ''CQ'' else ''?'')"

theorem jsc_decompress_encode_witness:
  "jsc_decompress sample_jmap (jsc_encode [(100, True), (0, False)])
     (length (jsc_encode [(100, True), (0, False)])) = ''CQ E''"
proof -
  have "\<forall>(j, sp)\<in>set [(100, True), (0, False)]. j < kJscSize" by (simp add: kJscSize_def)
  from jsc_decompress_encode [OF this, of sample_jmap] show ?thesis
    by (simp add: jsc_text_of_def sample_jmap_def)
qed

end
