(* ===== verification/Js8Text.thy ===== *)
theory Js8Text
  imports Complex_Main Js8Crc Jsc
begin

text \<open>
  The JS8 message decoder of \<open>gm/hf/js8.cc\<close>: callsign, grid, Huffman and raw-text unpackers
  and \<open>decodeJs8Message\<close>, which picks the frame type from the 87 information bits and
  assembles the human-readable message.  The word table of \<open>jsc_decompress\<close> is the argument
  \<open>jmap\<close>.  \<open>decodeJs8Message\<close> returns the message with the value assigned through the
  \<open>from_call\<close> pointer, if it assigns one.

  The lemmas show that every table access is in range, that the packed callsigns decode
  without collisions, that every grid is a Maidenhead locator, that the Huffman code is
  uniquely decodable, and that each frame layout decodes to the text it was built from.
\<close>

section \<open>Tables\<close>

definition kCallAlpha :: string where
  "kCallAlpha = ''0123456789ABCDEFGHIJKLMNOPQRSTUVWXYZ /@''"

definition kNBasecall :: nat where
  "kNBasecall = 262177560"

text \<open>\<open>None\<close> is the \<open>nullptr\<close> entry.\<close>

definition kBasecalls :: "string option list" where
  "kBasecalls = None # map Some
    [''<....>'', ''@ALLCALL'', ''@JS8NET'', ''@DX/NA'', ''@DX/SA'', ''@DX/EU'', ''@DX/AS'',
     ''@DX/AF'', ''@DX/OC'', ''@DX/AN'', ''@REGION/1'', ''@REGION/2'', ''@REGION/3'',
     ''@GROUP/0'', ''@GROUP/1'', ''@GROUP/2'', ''@GROUP/3'', ''@GROUP/4'', ''@GROUP/5'',
     ''@GROUP/6'', ''@GROUP/7'', ''@GROUP/8'', ''@GROUP/9'', ''@COMMAND'', ''@CONTROL'',
     ''@NET'', ''@NTS'', ''@RESERVE/0'', ''@RESERVE/1'', ''@RESERVE/2'', ''@RESERVE/3'',
     ''@RESERVE/4'', ''@APRSIS'', ''@RAGCHEW'', ''@JS8'', ''@EMCOMM'', ''@ARES'', ''@MARS'',
     ''@AMRRON'', ''@RACES'', ''@RAYNET'', ''@RADAR'', ''@SKYWARN'', ''@CQ'', ''@HB'',
     ''@QSO'', ''@QSOPARTY'']"

definition kNumBasecalls :: nat where
  "kNumBasecalls = length kBasecalls"

definition kDirCmds :: "string list" where
  "kDirCmds =
    ['' SNR?'', '' DIT DIT'', '' NACK'', '' HEARING?'', '' GRID?'', ''>'', '' STATUS?'',
     '' STATUS'', '' HEARING'', '' MSG'', '' MSG TO:'', '' QUERY'', '' QUERY MSGS'',
     '' QUERY CALL'', '' ACK'', '' GRID'', '' INFO?'', '' INFO'', '' FB'', '' HW CPY?'',
     '' SK'', '' RR'', '' QSL?'', '' QSL'', '' CMD'', '' SNR'', '' NO'', '' YES'', '' 73'',
     '' HEARTBEAT SNR'', '' AGN?'', '' '']"

definition kHuffTable :: "(char \<times> string) list" where
  "kHuffTable =
    [(CHR '' '', ''01''), (CHR ''E'', ''100''), (CHR ''T'', ''1101''), (CHR ''A'', ''0011''),
     (CHR ''O'', ''11111''), (CHR ''I'', ''11100''), (CHR ''N'', ''10111''), (CHR ''S'', ''10100''),
     (CHR ''H'', ''00011''), (CHR ''R'', ''00000''), (CHR ''D'', ''111011''), (CHR ''L'', ''110011''),
     (CHR ''C'', ''110001''), (CHR ''U'', ''101101''), (CHR ''M'', ''101011''), (CHR ''W'', ''001011''),
     (CHR ''F'', ''001001''), (CHR ''G'', ''000101''), (CHR ''Y'', ''000011''), (CHR ''P'', ''1111011''),
     (CHR ''B'', ''1111001''), (CHR ''.'', ''1110100''), (CHR ''V'', ''1100101''), (CHR ''K'', ''1100100''),
     (CHR ''-'', ''1100001''), (CHR ''+'', ''1100000''), (CHR ''?'', ''1011001''), (CHR ''!'', ''1011000''),
     (CHR 0x22, ''1010101''), (CHR ''X'', ''1010100''), (CHR ''0'', ''0010101''), (CHR ''J'', ''0010100''),
     (CHR ''1'', ''0010001''), (CHR ''Q'', ''0010000''), (CHR ''2'', ''0001001''), (CHR ''Z'', ''0001000''),
     (CHR ''3'', ''0000101''), (CHR ''5'', ''0000100''), (CHR ''4'', ''11110101''), (CHR ''9'', ''11110100''),
     (CHR ''8'', ''11110001''), (CHR ''6'', ''11110000''), (CHR ''7'', ''11101011''), (CHR ''/'', ''11101010'')]"

definition kJs8Alphabet :: string where
  "kJs8Alphabet = ''0123456789ABCDEFGHIJKLMNOPQRSTUVWXYZabcdefghijklmnopqrstuvwxyz-+''"

section \<open>Unpackers\<close>

text \<open>\<open>while (!s.empty() && s.back() == ' ') s.pop_back()\<close>.\<close>

definition pop_spaces :: "string \<Rightarrow> string" where
  "pop_spaces s = rev (dropWhile (\<lambda>c. c = CHR '' '') (rev s))"

definition unpackCallsign28 :: "nat \<Rightarrow> string" where
  "unpackCallsign28 v =
     (if kNBasecall \<le> v
      then let idx = v - kNBasecall
           in if 0 < idx \<and> idx < kNumBasecalls
              then (case kBasecalls ! idx of Some s \<Rightarrow> s | None \<Rightarrow> ''<unknown>'')
              else ''<unknown>''
      else let w5 = kCallAlpha ! (v mod 27 + 10); v = v div 27;
               w4 = kCallAlpha ! (v mod 27 + 10); v = v div 27;
               w3 = kCallAlpha ! (v mod 27 + 10); v = v div 27;
               w2 = kCallAlpha ! (v mod 10); v = v div 10;
               w1 = kCallAlpha ! (v mod 36); v = v div 36;
               w0 = kCallAlpha ! (v mod 37)
           in pop_spaces [w0, w1, w2, w3, w4, w5])"

definition unpackCallsign50 :: "nat \<Rightarrow> string" where
  "unpackCallsign50 v =
     (let w10 = kCallAlpha ! (v mod 38); v = v div 38;
          w9 = kCallAlpha ! (v mod 38); v = v div 38;
          w8 = kCallAlpha ! (v mod 38); v = v div 38;
          w7 = (if v mod 2 \<noteq> 0 then CHR ''/'' else CHR '' ''); v = v div 2;
          w6 = kCallAlpha ! (v mod 38); v = v div 38;
          w5 = kCallAlpha ! (v mod 38); v = v div 38;
          w4 = kCallAlpha ! (v mod 38); v = v div 38;
          w3 = (if v mod 2 \<noteq> 0 then CHR ''/'' else CHR '' ''); v = v div 2;
          w2 = kCallAlpha ! (v mod 38); v = v div 38;
          w1 = kCallAlpha ! (v mod 38); v = v div 38;
          w0 = kCallAlpha ! (v mod 39)
      in filter (\<lambda>c. c \<noteq> CHR '' '') [w0, w1, w2, w3, w4, w5, w6, w7, w8, w9, w10])"

text \<open>
  The single-precision intermediates of \<open>unpackGrid\<close> are integers below \<open>2 ^ 24\<close> (the largest
  is \<open>60 * 358 = 21480\<close>) and both divisions are exact, so exact rationals are the same values.
\<close>

definition unpackGrid :: "nat \<Rightarrow> string" where
  "unpackGrid v =
     (if 32400 \<le> v then []
      else let dlat = (of_nat (v mod 180) :: rat) - 90;
               dlong = (of_nat (v div 180 * 2) :: rat) + 2 - 180;
               dlong = (if dlong < -180 then dlong + 360 else dlong);
               dlong = (if dlong > 180 then dlong - 360 else dlong);
               nlong = nat \<lfloor>60 * (180 - dlong) / 5\<rfloor>;
               nlat = nat \<lfloor>60 * (dlat + 90) / (5 / 2)\<rfloor>
           in [char_of (65 + nlong div 240), char_of (65 + nlat div 240),
               char_of (48 + nlong mod 240 div 24), char_of (48 + nlat mod 240 div 24)])"

text \<open>\<open>huffDecode\<close>: one table scan per symbol; a code that would run past the end is skipped.\<close>

definition huff_match :: "u8 list \<Rightarrow> nat \<Rightarrow> nat \<Rightarrow> string \<Rightarrow> bool" where
  "huff_match bits nbits pos code =
     (pos + length code \<le> nbits \<and>
      list_all (\<lambda>i. (bits ! (pos + i)) AND 1 = byte_of_char (code ! i) - byte_of_char (CHR ''0''))
        [0..<length code])"

definition huff_find :: "u8 list \<Rightarrow> nat \<Rightarrow> nat \<Rightarrow> (char \<times> string) option" where
  "huff_find bits nbits pos = find (\<lambda>(ch, code). huff_match bits nbits pos code) kHuffTable"

lemma find_Some_set: "find P xs = Some x \<Longrightarrow> x \<in> set xs \<and> P x"
  by (induction xs) (auto split: if_splits)

lemma huff_code_pos: "(ch, code) \<in> set kHuffTable \<Longrightarrow> 0 < length code"
proof -
  have "list_all (\<lambda>(ch, code). 0 < length code) kHuffTable" by (simp add: kHuffTable_def)
  then show "(ch, code) \<in> set kHuffTable \<Longrightarrow> 0 < length code" by (auto simp: list_all_iff)
qed

function huff_loop :: "u8 list \<Rightarrow> nat \<Rightarrow> nat \<Rightarrow> string \<Rightarrow> string" where
  "huff_loop bits nbits pos result =
     (if pos < nbits
      then (case huff_find bits nbits pos of
              Some (ch, code) \<Rightarrow> huff_loop bits nbits (pos + length code) (result @ [ch])
            | None \<Rightarrow> result)
      else result)"
  by pat_completeness auto
termination
proof (relation "measure (\<lambda>(bits, nbits, pos, result). nbits - pos)", goal_cases)
  case (2 bits nbits pos result a ch code)
  then have "0 < length code"
    using huff_code_pos [of ch code] find_Some_set unfolding huff_find_def by fastforce
  with \<open>pos < nbits\<close> have "nbits - (pos + length code) < nbits - pos" by linarith
  then show ?case by simp
qed simp

declare huff_loop.simps [simp del]

definition huffDecode :: "u8 list \<Rightarrow> nat \<Rightarrow> string" where
  "huffDecode bits nbits = huff_loop bits nbits 0 []"

text \<open>\<open>extractMessage12\<close>: twelve 6-bit words; the early return is kept as written.\<close>

definition word6 :: "u8 list \<Rightarrow> nat \<Rightarrow> nat" where
  "word6 info i =
     unat (foldl (\<lambda>w b. push_bit 1 w OR (ucast (info ! (i * 6 + b)) AND 1)) (0 :: u32) [0..<6])"

fun extract12_loop :: "u8 list \<Rightarrow> nat list \<Rightarrow> string \<Rightarrow> string" where
  "extract12_loop info [] out = out"
| "extract12_loop info (i # is) out =
     (if 63 < word6 info i then [] else extract12_loop info is (out @ [kJs8Alphabet ! word6 info i]))"

definition extractMessage12 :: "u8 list \<Rightarrow> string" where
  "extractMessage12 info = extract12_loop info [0..<12] []"

section \<open>Message assembly\<close>

text \<open>Decimal output: \<open>%d\<close> and \<open>%+d\<close> of \<open>snprintf\<close>.\<close>

fun dec_of_nat :: "nat \<Rightarrow> string" where
  "dec_of_nat n = (if n < 10 then [char_of (48 + n)] else dec_of_nat (n div 10) @ [char_of (48 + n mod 10)])"

declare dec_of_nat.simps [simp del]

definition fmt_d :: "int \<Rightarrow> string" where
  "fmt_d z = (if z < 0 then ''-'' @ dec_of_nat (nat (- z)) else dec_of_nat (nat z))"

definition fmt_plus_d :: "int \<Rightarrow> string" where
  "fmt_plus_d z = (if z < 0 then ''-'' @ dec_of_nat (nat (- z)) else ''+'' @ dec_of_nat (nat z))"

text \<open>Fast-data frames: payload bits before the last 0 bit of the 72, all JSC coded.\<close>

fun last_zero_from :: "u8 list \<Rightarrow> nat \<Rightarrow> nat" where
  "last_zero_from info n = (if 0 < n \<and> info ! n \<noteq> 0 then last_zero_from info (n - 1) else n)"

declare last_zero_from.simps [simp del]

definition or_data :: "string \<Rightarrow> string" where
  "or_data text = (if text = [] then ''[data]'' else text)"

definition decode_fast_data :: "(nat \<Rightarrow> string) \<Rightarrow> u8 list \<Rightarrow> string" where
  "decode_fast_data jmap info = or_data (jsc_decompress jmap info (last_zero_from info 71))"

text \<open>Old-format data frames: \<open>K\<close> is the last 0 bit of \<open>info[1..71]\<close>.\<close>

definition pad_marker :: "u8 list \<Rightarrow> int" where
  "pad_marker info =
     (case find (\<lambda>j. (info ! j) AND 1 = 0) (rev [1..<72]) of Some j \<Rightarrow> int j | None \<Rightarrow> -1)"

definition decode_old_data :: "(nat \<Rightarrow> string) \<Rightarrow> u8 list \<Rightarrow> string" where
  "decode_old_data jmap info =
     (let compressed = ((info ! 1) AND 1 \<noteq> 0); K = pad_marker info
      in if K \<le> 1 \<or> K - 2 \<le> 0 then ''[data]''
         else if compressed then or_data (jsc_decompress jmap (drop 2 info) (nat (K - 2)))
         else or_data (huffDecode (drop 2 info) (nat (K - 2))))"

text \<open>Heartbeat, compound and compound-directed frames.\<close>

definition compound_extra :: "nat \<Rightarrow> string" where
  "compound_extra num =
     (let nbasegrid = 32400; nusergrid = nbasegrid + 10; nmaxgrid = 2 ^ 15 - 1
      in if num \<le> nbasegrid then unpackGrid num
         else if nusergrid \<le> num \<and> num < nmaxgrid
         then let cmd_bits = num - nusergrid; cmd_idx = cmd_bits mod 32
              in if cmd_idx < 32 then kDirCmds ! cmd_idx else []
         else [])"

definition decode_compound :: "u8 list \<Rightarrow> nat \<Rightarrow> string \<times> string option" where
  "decode_compound info packed_flag =
     (let packed_cs = unat (bits_to_int info 3 50);
          packed_11 = (ucast (bits_to_int info 53 11) :: u32);
          packed_5 = (ucast (bits_to_int info 64 5) :: u32);
          num = push_bit 5 packed_11 OR packed_5;
          cs = unpackCallsign50 packed_cs
      in if cs = [] then (extractMessage12 info, None)
         else if packed_flag = 0
         then let isAlt = bit num 15; grid_v = num AND 0x7FFF;
                  body = (if isAlt then ''@ALLCALL CQ'' else ''@HB HEARTBEAT'');
                  grid = unpackGrid (unat grid_v);
                  body = (if grid \<noteq> [] then body @ '' '' @ grid else body)
              in (cs @ '': '' @ body @ '' '', Some cs)
         else if packed_flag = 1
         then let extra = compound_extra (unat num)
              in (cs @ '':'' @ (if extra = [] then [] else '' '' @ extra) @ '' '', Some cs)
         else let cmd_bits = (if 32410 \<le> unat num then unat num - 32410 else 0);
                  cmd_idx = cmd_bits mod 32;
                  cmd = (if cmd_idx < 32 then kDirCmds ! cmd_idx else [])
              in (cs @ '':'' @ cmd @ '' '', Some cs))"

text \<open>Directed frames.\<close>

definition decode_directed :: "u8 list \<Rightarrow> string \<times> string option" where
  "decode_directed info =
     (let packed_from = (ucast (bits_to_int info 3 28) :: u32);
          packed_to = (ucast (bits_to_int info 31 28) :: u32);
          packed_cmd = (ucast (bits_to_int info 59 5) :: u8);
          portable_from = ((info ! 64) AND 1 \<noteq> 0);
          portable_to = ((info ! 65) AND 1 \<noteq> 0);
          extra = (ucast (bits_to_int info 66 6) :: u8);
          from_cs = unpackCallsign28 (unat packed_from);
          to_cs = unpackCallsign28 (unat packed_to);
          from_cs = (if portable_from then from_cs @ ''/P'' else from_cs);
          to_cs = (if portable_to then to_cs @ ''/P'' else to_cs);
          cmd_idx = unat packed_cmd mod 32;
          cmd = kDirCmds ! cmd_idx;
          result = from_cs @ '': '' @ to_cs @ cmd;
          num = int (unat extra) - 31;
          result = (if extra \<noteq> 0
                    then result @ '' '' @ (if cmd_idx = 25 \<or> cmd_idx = 29 then fmt_plus_d num else fmt_d num)
                    else result)
      in (result @ '' '', Some from_cs))"

definition decodeJs8Message :: "(nat \<Rightarrow> string) \<Rightarrow> u8 list \<Rightarrow> string \<times> string option" where
  "decodeJs8Message jmap info =
     (let i3bit = unat (bits_to_int info 72 3)
      in if bit i3bit 2 then (decode_fast_data jmap info, None)
         else let packed_flag = unat (bits_to_int info 0 3)
              in if 4 \<le> packed_flag then (decode_old_data jmap info, None)
                 else if packed_flag \<le> 2 then decode_compound info packed_flag
                 else if packed_flag = 3 then decode_directed info
                 else (extractMessage12 info, None))"

section \<open>Callsigns\<close>

lemma length_kCallAlpha [simp]: "length kCallAlpha = 39"
  by (simp add: kCallAlpha_def)

lemma distinct_kCallAlpha: "distinct kCallAlpha"
  by (simp add: kCallAlpha_def)

lemma kCallAlpha_eq_iff: "i < 39 \<Longrightarrow> j < 39 \<Longrightarrow> kCallAlpha ! i = kCallAlpha ! j \<longleftrightarrow> i = j"
  using nth_eq_iff_index_eq [OF distinct_kCallAlpha] by simp

lemma kCallAlpha_space: "i < 39 \<Longrightarrow> kCallAlpha ! i = CHR '' '' \<longleftrightarrow> i = 36"
  using kCallAlpha_eq_iff [of i 36] by (simp add: kCallAlpha_def)

lemma pop_spaces_pad: "\<exists>n. s = pop_spaces s @ replicate n (CHR '' '')"
proof -
  let ?sp = "takeWhile (\<lambda>c. c = CHR '' '') (rev s)"
  have "s = rev (dropWhile (\<lambda>c. c = CHR '' '') (rev s)) @ rev ?sp"
    by (metis rev_append rev_rev_ident takeWhile_dropWhile_id)
  moreover have "rev ?sp = replicate (length ?sp) (CHR '' '')"
  proof -
    have "\<forall>x\<in>set ?sp. x = CHR '' ''" by (auto dest: set_takeWhileD)
    then have "?sp = replicate (length ?sp) (CHR '' '')" by (metis replicate_length_same)
    then show ?thesis by (metis rev_replicate)
  qed
  ultimately show ?thesis unfolding pop_spaces_def by metis
qed

lemma pop_spaces_inj: "length s = length t \<Longrightarrow> pop_spaces s = pop_spaces t \<Longrightarrow> s = t"
  using pop_spaces_pad [of s] pop_spaces_pad [of t] by (metis append_same_eq length_append length_replicate add_left_cancel)

text \<open>The six digits of a packed callsign.\<close>

definition call28_digits :: "nat \<Rightarrow> nat list" where
  "call28_digits v =
     [v div 27 div 27 div 27 div 10 div 36 mod 37, v div 27 div 27 div 27 div 10 mod 36,
      v div 27 div 27 div 27 mod 10, v div 27 div 27 mod 27 + 10, v div 27 mod 27 + 10, v mod 27 + 10]"

definition pack28 :: "nat list \<Rightarrow> nat" where
  "pack28 ds = ((((ds ! 0 * 36 + ds ! 1) * 10 + ds ! 2) * 27 + (ds ! 3 - 10)) * 27 + (ds ! 4 - 10)) * 27 + (ds ! 5 - 10)"

lemma unpackCallsign28_digits:
  "v < kNBasecall \<Longrightarrow> unpackCallsign28 v = pop_spaces (map ((!) kCallAlpha) (call28_digits v))"
  by (simp add: unpackCallsign28_def call28_digits_def Let_def)

lemma length_call28_digits: "length (call28_digits v) = 6"
  by (simp add: call28_digits_def)

lemma call28_digits_less: "d \<in> set (call28_digits v) \<Longrightarrow> d < 39"
proof -
  have m: "x mod 27 + 10 < 39" "x mod 10 < 39" "x mod 36 < 39" "x mod 37 < 39" for x :: nat
    using mod_less_divisor [of 27 x] mod_less_divisor [of 10 x]
      mod_less_divisor [of 36 x] mod_less_divisor [of 37 x] by linarith+
  show "d \<in> set (call28_digits v) \<Longrightarrow> d < 39"
    unfolding call28_digits_def using m by (auto simp del: div_mult2_eq)
qed

lemma pack28_digits:
  assumes "v < kNBasecall" shows "pack28 (call28_digits v) = v"
proof -
  have top: "v div 27 div 27 div 27 div 10 div 36 < 37"
    using assms unfolding kNBasecall_def by (simp flip: div_mult2_eq add: less_mult_imp_div_less)
  have step: "x div m * m + x mod m = x" for x m :: nat by (rule div_mult_mod_eq)
  show ?thesis
    unfolding pack28_def call28_digits_def
    using top by (simp only: nth_Cons_0 nth_Cons_Suc numeral_nat add_diff_cancel_right' mod_less step One_nat_def)
qed

lemma map_nth_inj:
  assumes "distinct al" and "map ((!) al) xs = map ((!) al) ys"
    and "\<forall>x\<in>set xs. x < length al" and "\<forall>y\<in>set ys. y < length al"
  shows "xs = ys"
  using assms(2-4)
proof (induction xs arbitrary: ys)
  case (Cons x xs)
  then obtain y ys' where "ys = y # ys'" by (cases ys) auto
  with Cons show ?case using nth_eq_iff_index_eq [OF assms(1)] by auto
qed simp

text \<open>
  No two packed 28-bit values below the group range decode to the same callsign.
\<close>

theorem unpackCallsign28_inj: "inj_on unpackCallsign28 {v. v < kNBasecall}"
proof (rule inj_onI)
  fix v v' assume v: "v \<in> {v. v < kNBasecall}" "v' \<in> {v. v < kNBasecall}"
    and eq: "unpackCallsign28 v = unpackCallsign28 v'"
  then have "pop_spaces (map ((!) kCallAlpha) (call28_digits v))
      = pop_spaces (map ((!) kCallAlpha) (call28_digits v'))"
    using unpackCallsign28_digits by (metis mem_Collect_eq)
  then have "map ((!) kCallAlpha) (call28_digits v) = map ((!) kCallAlpha) (call28_digits v')"
    by (rule pop_spaces_inj [rotated]) (simp add: length_call28_digits)
  then have "call28_digits v = call28_digits v'"
    by (rule map_nth_inj [OF distinct_kCallAlpha]) (simp_all add: call28_digits_less)
  then show "v = v'" using v pack28_digits by (metis mem_Collect_eq)
qed

section \<open>Grids\<close>

definition locators :: "string set" where
  "locators = {[char_of (65 + a), char_of (65 + b), char_of (48 + c), char_of (48 + d)] | a b c d.
     a < (18 :: nat) \<and> b < (18 :: nat) \<and> c < (10 :: nat) \<and> d < (10 :: nat)}"

lemma unpackGrid_eq:
  assumes "v < 32400"
  shows "unpackGrid v =
    (let lo = 179 - v div 180; la = v mod 180
     in [char_of (65 + lo div 10), char_of (65 + la div 10), char_of (48 + lo mod 10), char_of (48 + la mod 10)])"
proof -
  let ?q = "v div 180"
  have q: "?q \<le> 179" using assms by auto
  have scale: "24 * n div 240 = n div 10" "24 * n mod 240 div 24 = n mod 10" for n :: nat
    using div_mult2_eq [of "24 * n" 24 10] mult_mod_right [of 24 n 10] by simp_all
  have long: "nat \<lfloor>60 * (180 - (of_nat (?q * 2) + 2 - 180 :: rat)) / 5\<rfloor> = 24 * (179 - ?q)"
  proof -
    have "60 * (180 - (of_nat (?q * 2) + 2 - 180 :: rat)) / 5 = of_int (24 * (179 - int ?q))" by simp
    then show ?thesis using q by (simp only: floor_of_int) simp
  qed
  have lat: "nat \<lfloor>60 * ((of_nat (v mod 180) :: rat) - 90 + 90) / (5 / 2)\<rfloor> = 24 * (v mod 180)"
  proof -
    have "60 * ((of_nat (v mod 180) :: rat) - 90 + 90) / (5 / 2) = of_int (int (24 * (v mod 180)))" by simp
    then show ?thesis by (simp only: floor_of_int nat_int)
  qed
  have r: "(of_nat ?q :: rat) \<le> 179" using q by (metis of_nat_le_iff of_nat_numeral)
  have b: "\<not> (of_nat (?q * 2) + 2 - 180 :: rat) < -180" "\<not> (of_nat (?q * 2) + 2 - 180 :: rat) > 180"
    using r by simp_all
  show ?thesis
    using assms unfolding unpackGrid_def Let_def if_not_P [OF b(1)] if_not_P [OF b(2)] long lat scale
    by simp
qed

lemma char_of_nat_eq_iff: "a < 256 \<Longrightarrow> b < 256 \<Longrightarrow> (char_of a = char_of b) \<longleftrightarrow> a = (b :: nat)"
  by (metis mod_less of_char_of)

text \<open>
  On the 32400 grid values \<open>unpackGrid\<close> is a bijection onto the four-character
  Maidenhead locators \<open>AA00\<close> to \<open>RR99\<close>.
\<close>

theorem unpackGrid_bij: "bij_betw unpackGrid {v. v < 32400} locators"
proof (rule bij_betw_imageI)
  show "inj_on unpackGrid {v. v < 32400}"
  proof (rule inj_onI)
    fix v w assume a: "v \<in> {v. v < 32400}" "w \<in> {v. v < 32400}" and eq: "unpackGrid v = unpackGrid w"
    have b: "x mod 10 < 256" "(179 - y) div 10 < 191" "z mod 180 div 10 < 191" for x y z :: nat
      by (auto simp: less_mult_imp_div_less)
    have "(179 - v div 180) div 10 = (179 - w div 180) div 10"
      and "v mod 180 div 10 = w mod 180 div 10"
      and "(179 - v div 180) mod 10 = (179 - w div 180) mod 10"
      and "v mod 180 mod 10 = w mod 180 mod 10"
      using eq a b by (simp_all add: unpackGrid_eq Let_def char_of_nat_eq_iff)
    then have "179 - v div 180 = 179 - w div 180" "v mod 180 = w mod 180"
      by (metis div_mult_mod_eq)+
    moreover have "v div 180 \<le> 179" "w div 180 \<le> 179" using a by auto
    ultimately show "v = w" by (metis diff_diff_cancel div_mult_mod_eq)
  qed
next
  show "unpackGrid ` {v. v < 32400} = locators"
  proof (intro set_eqI iffI)
    fix s assume "s \<in> unpackGrid ` {v. v < 32400}"
    then obtain v where v: "v < 32400" "s = unpackGrid v" by auto
    have "(179 - v div 180) div 10 < 18" "v mod 180 div 10 < 18" by (auto simp: less_mult_imp_div_less)
    then show "s \<in> locators"
      unfolding v(2) locators_def using v(1)
      by (simp only: unpackGrid_eq Let_def mem_Collect_eq) (metis mod_less_divisor zero_less_numeral)
  next
    fix s assume "s \<in> locators"
    then obtain a b c d :: nat where
      s: "s = [char_of (65 + a), char_of (65 + b), char_of (48 + c), char_of (48 + d)]"
      and r: "a < 18" "b < 18" "c < 10" "d < 10" unfolding locators_def by blast
    let ?v = "(179 - (10 * a + c)) * 180 + (10 * b + d)"
    have m: "?v div 180 = 179 - (10 * a + c)" "?v mod 180 = 10 * b + d" using r by auto
    have "?v < 32400" using r by auto
    moreover have "unpackGrid ?v = s"
      unfolding unpackGrid_eq [OF \<open>?v < 32400\<close>] Let_def m s using r by simp
    ultimately show "s \<in> unpackGrid ` {v. v < 32400}" by (intro image_eqI [where x = ?v]) simp_all
  qed
qed

section \<open>The Huffman code\<close>

definition huff_code :: "char \<Rightarrow> string" where
  "huff_code ch = (case map_of kHuffTable ch of Some code \<Rightarrow> code | None \<Rightarrow> [])"

definition bits_of_code :: "string \<Rightarrow> u8 list" where
  "bits_of_code code = map (\<lambda>c. byte_of_char c - byte_of_char (CHR ''0'')) code"

definition huff_encode :: "string \<Rightarrow> u8 list" where
  "huff_encode s = concat (map (\<lambda>ch. bits_of_code (huff_code ch)) s)"

definition huff_alphabet :: "char set" where
  "huff_alphabet = fst ` set kHuffTable"

fun prefix_clash :: "string \<Rightarrow> string \<Rightarrow> bool" where
  "prefix_clash (x # xs) (y # ys) = (x = y \<and> prefix_clash xs ys)"
| "prefix_clash _ _ = True"

fun prefix_free :: "string list \<Rightarrow> bool" where
  "prefix_free [] = True"
| "prefix_free (c # cs) = (list_all (\<lambda>d. \<not> prefix_clash c d) cs \<and> prefix_free cs)"

lemma kHuffTable_prefix_free: "prefix_free (map snd kHuffTable)"
  by (simp add: kHuffTable_def)

lemma kHuffTable_binary: "list_all (\<lambda>(ch, code). list_all (\<lambda>c. c = CHR ''0'' \<or> c = CHR ''1'') code) kHuffTable"
  by (simp add: kHuffTable_def)

lemma kHuffTable_distinct: "distinct (map fst kHuffTable)"
  by (simp add: kHuffTable_def)

text \<open>Two codes that both match at a position are comparable.\<close>

lemma huff_match_clash:
  assumes "huff_match bits nbits pos c" and "huff_match bits nbits pos d"
    and "list_all (\<lambda>x. x = CHR ''0'' \<or> x = CHR ''1'') c"
    and "list_all (\<lambda>x. x = CHR ''0'' \<or> x = CHR ''1'') d"
  shows "prefix_clash c d"
proof -
  have bin: "x = y" if "byte_of_char x - byte_of_char (CHR ''0'') = byte_of_char y - byte_of_char (CHR ''0'')"
    "x = CHR ''0'' \<or> x = CHR ''1''" "y = CHR ''0'' \<or> y = CHR ''1''" for x y
    using that by (auto simp: byte_of_char_def)
  have "c ! i = d ! i" if "i < length c" "i < length d" for i
    using assms that unfolding huff_match_def list_all_iff
    by (intro bin) (metis atLeast0LessThan lessThan_iff set_upt nth_mem)+
  then show ?thesis
  proof (induction c d rule: prefix_clash.induct)
    case (1 x xs y ys)
    have "x = y" using 1(2) [of 0] by simp
    moreover have "prefix_clash xs ys" using 1(1) 1(2) [of "Suc i" for i] by fastforce
    ultimately show ?case by simp
  qed simp_all
qed

lemma prefix_free_find:
  assumes "prefix_free (map snd tab)" and "(ch, code) \<in> set tab" and "P code"
    and clash: "\<And>c d. c \<in> snd ` set tab \<Longrightarrow> d \<in> snd ` set tab \<Longrightarrow> P c \<Longrightarrow> P d \<Longrightarrow> prefix_clash c d"
  shows "find (\<lambda>(ch, code). P code) tab = Some (ch, code)"
  using assms
proof (induction tab)
  case (Cons e tab)
  obtain ch' code' where e: "e = (ch', code')" by (cases e)
  show ?case
  proof (cases "e = (ch, code)")
    case False
    then have mem: "(ch, code) \<in> set tab" using Cons.prems(2) by auto
    have "\<not> prefix_clash code' code"
      using Cons.prems(1) mem by (force simp: e list_all_iff)
    then have "\<not> P code'"
      using Cons.prems(4) [of code' code] Cons.prems(2,3) by (force simp: e)
    moreover have "find (\<lambda>(ch, code). P code) tab = Some (ch, code)"
      using Cons.prems(1,4) mem Cons.prems(3) by (intro Cons.IH) auto
    ultimately show ?thesis by (simp add: e)
  qed (use Cons.prems in simp)
qed simp

lemma huff_code_mem: "ch \<in> huff_alphabet \<Longrightarrow> (ch, huff_code ch) \<in> set kHuffTable"
  using kHuffTable_distinct by (fastforce simp: huff_alphabet_def huff_code_def)

lemma kHuffTable_binary_code:
  "c \<in> snd ` set kHuffTable \<Longrightarrow> list_all (\<lambda>x. x = CHR ''0'' \<or> x = CHR ''1'') c"
  using kHuffTable_binary unfolding list_all_iff [of _ kHuffTable] by (auto dest!: bspec)

lemma huff_find_code:
  assumes "(ch, code) \<in> set kHuffTable" and "huff_match bits nbits pos code"
  shows "huff_find bits nbits pos = Some (ch, code)"
  unfolding huff_find_def
proof (rule prefix_free_find [where P = "huff_match bits nbits pos", OF kHuffTable_prefix_free assms])
  fix c d assume "c \<in> snd ` set kHuffTable" "d \<in> snd ` set kHuffTable"
    and "huff_match bits nbits pos c" "huff_match bits nbits pos d"
  then show "prefix_clash c d"
    by (intro huff_match_clash [of bits nbits pos c d] kHuffTable_binary_code)
qed

lemma bits_of_code_and_1:
  "list_all (\<lambda>c. c = CHR ''0'' \<or> c = CHR ''1'') code \<Longrightarrow> i < length code \<Longrightarrow>
     bits_of_code code ! i AND 1 = byte_of_char (code ! i) - byte_of_char (CHR ''0'')"
proof -
  assume "list_all (\<lambda>c. c = CHR ''0'' \<or> c = CHR ''1'') code" and i: "i < length code"
  then have "code ! i = CHR ''0'' \<or> code ! i = CHR ''1''" by (simp add: list_all_length)
  then show ?thesis using i by (auto simp: bits_of_code_def byte_of_char_def)
qed

lemma huff_match_here:
  assumes "(ch, code) \<in> set kHuffTable" and "length pre + length code \<le> nbits"
  shows "huff_match (pre @ bits_of_code code @ post) nbits (length pre) code"
proof -
  have bin: "list_all (\<lambda>c. c = CHR ''0'' \<or> c = CHR ''1'') code"
    using assms(1) kHuffTable_binary by (auto simp: list_all_iff)
  have "(pre @ bits_of_code code @ post) ! (length pre + i) = bits_of_code code ! i"
    if "i < length code" for i
    using that by (simp add: nth_append bits_of_code_def)
  then show ?thesis
    using assms(2) bits_of_code_and_1 [OF bin] by (simp add: huff_match_def list_all_iff)
qed

lemma huff_loop_encode:
  assumes "set s \<subseteq> huff_alphabet" and "nbits = length pre + length (huff_encode s)"
  shows "huff_loop (pre @ huff_encode s @ post) nbits (length pre) acc = acc @ s"
  using assms
proof (induction s arbitrary: pre acc)
  case Nil
  then show ?case by (subst huff_loop.simps) (simp add: huff_encode_def)
next
  case (Cons ch s)
  let ?c = "huff_code ch"
  have mem: "(ch, ?c) \<in> set kHuffTable" using Cons.prems(1) by (simp add: huff_code_mem)
  have enc: "huff_encode (ch # s) = bits_of_code ?c @ huff_encode s" by (simp add: huff_encode_def)
  have len: "length (bits_of_code ?c) = length ?c" by (simp add: bits_of_code_def)
  have pos: "0 < length ?c" by (rule huff_code_pos [OF mem])
  have fnd: "huff_find (pre @ bits_of_code ?c @ huff_encode s @ post) nbits (length pre) = Some (ch, ?c)"
    using Cons.prems(2) by (intro huff_find_code [OF mem] huff_match_here [OF mem]) (simp add: enc len)
  have "length pre < nbits" using Cons.prems(2) pos by (simp add: enc len)
  then have "huff_loop (pre @ huff_encode (ch # s) @ post) nbits (length pre) acc
      = huff_loop ((pre @ bits_of_code ?c) @ huff_encode s @ post) nbits
          (length (pre @ bits_of_code ?c)) (acc @ [ch])"
    by (subst huff_loop.simps) (simp add: enc fnd len)
  also have "\<dots> = (acc @ [ch]) @ s"
    using Cons.prems by (intro Cons.IH) (simp_all add: enc)
  finally show ?case by simp
qed

lemma huffDecode_encode:
  "set s \<subseteq> huff_alphabet \<Longrightarrow> huffDecode (huff_encode s @ post) (length (huff_encode s)) = s"
  using huff_loop_encode [of s _ "[]" post "[]"] by (simp add: huffDecode_def)

section \<open>Data frames\<close>

text \<open>The JSC decoder reads no bit at or beyond its length argument.\<close>

lemma nibble_at_append: "i + 4 \<le> length bits \<Longrightarrow> nibble_at (bits @ post) i = nibble_at bits i"
  by (simp add: nibble_at_def nth_append)

lemma jsc_groups_append:
  "nbits \<le> length bits \<Longrightarrow> jsc_groups (bits @ post) nbits i grps seps = jsc_groups bits nbits i grps seps"
proof (induction bits nbits i grps seps rule: jsc_groups.induct)
  case (1 bits nbits i grps seps)
  show ?case
  proof (cases "i + 4 \<le> nbits")
    case True
    then have n: "nibble_at (bits @ post) i = nibble_at bits i"
      using 1(3) by (simp add: nibble_at_append)
    have a: "(i + 4 < nbits \<and> (bits @ post) ! (i + 4) \<noteq> 0) = (i + 4 < nbits \<and> bits ! (i + 4) \<noteq> 0)"
      using 1(3) by (auto simp: nth_append)
    show ?thesis
      using 1(1) [OF True refl refl refl] 1(2) [OF True refl refl refl] 1(3)
      by (cases "nibble_at bits i < jsc_s")
        (subst (1 2) jsc_groups.simps, simp only: Let_def n a True if_True if_False simp_thms)+
  next
    case False
    then show ?thesis by (subst (1 2) jsc_groups.simps) simp
  qed
qed

lemma jsc_decompress_prefix:
  assumes "\<forall>(j, sp)\<in>set W. j < kJscSize"
  shows "jsc_decompress jmap (jsc_encode W @ post) (length (jsc_encode W)) = jsc_text_of jmap W"
  using jsc_decompress_words [OF assms] by (simp add: jsc_decompress_def jsc_groups_append)

text \<open>The layouts of the two data frames: payload, a 0 marker, 1 padding, then \<open>i3\<close> and the CRC.\<close>

definition pad72 :: "u8 list \<Rightarrow> u8 list" where
  "pad72 payload = payload @ 0 # replicate (71 - length payload) 1"

definition fast_frame :: "u8 list \<Rightarrow> u8 list \<Rightarrow> u8 list" where
  "fast_frame payload tail = pad72 payload @ [1, 0, 0] @ tail"

definition old_frame :: "bool \<Rightarrow> u8 list \<Rightarrow> u8 list \<Rightarrow> u8 list" where
  "old_frame compressed payload tail = pad72 ([1, byte_of_bool compressed] @ payload) @ [0, 0, 0] @ tail"

lemma length_pad72 [simp]: "length payload < 72 \<Longrightarrow> length (pad72 payload) = 72"
  by (simp add: pad72_def)

lemma pad72_nth:
  "length payload < 72 \<Longrightarrow> k < 72 \<Longrightarrow> pad72 payload ! k =
     (if k < length payload then payload ! k else if k = length payload then 0 else 1)"
  by (auto simp: pad72_def nth_append nth_Cons')

lemma last_zero_from_marker:
  assumes "n \<le> m" and "0 < n \<Longrightarrow> info ! n = 0" and "\<forall>k. n < k \<and> k \<le> m \<longrightarrow> info ! k \<noteq> 0"
  shows "last_zero_from info m = n"
  using assms
proof (induction info m rule: last_zero_from.induct)
  case (1 info m)
  show ?case
  proof (cases "n = m")
    case True
    then show ?thesis using 1 by (subst last_zero_from.simps) auto
  next
    case False
    then have "n < m" using 1(2) by simp
    moreover have "last_zero_from info (m - 1) = n"
      using calculation 1 by (intro 1(1)) auto
    ultimately show ?thesis using 1(4) by (subst last_zero_from.simps) simp
  qed
qed

lemma find_rev_upt_last:
  assumes "P n" and "\<forall>k. n < k \<and> k < m \<longrightarrow> \<not> P k" and "n < m" and "a \<le> n"
  shows "find P (rev [a..<m]) = Some n"
proof -
  have "rev [a..<m] = rev [Suc n..<m] @ n # rev [a..<n]"
    using assms(3,4) upt_split_at [of a n m] by (simp add: upt_conv_Cons)
  moreover have "find P (xs @ n # ys) = Some n" if "\<forall>x\<in>set xs. \<not> P x" for xs ys
    using that assms(1) by (induction xs) auto
  moreover have "\<forall>x\<in>set (rev [Suc n..<m]). \<not> P x" using assms(2) by simp
  ultimately show ?thesis by metis
qed

lemma i3bit_of:
  "length xs = 72 \<Longrightarrow> bit (unat (bits_to_int (xs @ [a, b, c] @ tail) 72 3)) 2 = bit a 0"
  by (simp add: bit_unsigned_iff bit_bits_to_int nth_append)

lemma pad_marker_old:
  assumes "length payload < 70"
  shows "pad_marker (old_frame compressed payload tail) = int (2 + length payload)"
proof -
  let ?info = "old_frame compressed payload tail"
  have n: "?info ! k = (if k = 2 + length payload then 0 else 1)" if "2 + length payload \<le> k" "k < 72" for k
    using that assms by (simp add: old_frame_def nth_append pad72_nth)
  have "find (\<lambda>j. (?info ! j) AND 1 = 0) (rev [1..<72]) = Some (2 + length payload)"
    using assms by (intro find_rev_upt_last) (auto simp: n)
  then show ?thesis by (simp add: pad_marker_def)
qed

lemma old_frame_flag:
  assumes "length payload < 70"
  shows "4 \<le> unat (bits_to_int (old_frame compressed payload tail) 0 3)"
proof -
  let ?v = "unat (bits_to_int (old_frame compressed payload tail) 0 3)"
  have "bit ?v 2" by (simp add: bit_unsigned_iff bit_bits_to_int old_frame_def pad72_def)
  then have "odd (?v div 4)" by (simp add: bit_iff_odd)
  then show ?thesis by (cases "?v < 4") auto
qed

lemma length_fast_frame [simp]:
  "length payload < 72 \<Longrightarrow> length (fast_frame payload tail) = 75 + length tail"
  by (simp add: fast_frame_def)

text \<open>
  A fast-data frame that carries any list of JSC table words (up to 71 code bits) decodes to
  exactly the concatenation of those words and their spaces, or to \<open>[data]\<close> when that text is empty.
\<close>

theorem decode_fast_frame:
  assumes "\<forall>(j, sp)\<in>set W. j < kJscSize" and "length (jsc_encode W) < 72"
  shows "decodeJs8Message jmap (fast_frame (jsc_encode W) tail) = (or_data (jsc_text_of jmap W), None)"
proof -
  let ?p = "jsc_encode W"
  let ?info = "fast_frame ?p tail"
  have i3: "bit (unat (bits_to_int ?info 72 3)) 2"
    using assms(2) unfolding fast_frame_def by (subst i3bit_of) simp_all
  have nth: "?info ! k = pad72 ?p ! k" if "k < 72" for k
    using that assms(2) by (simp add: fast_frame_def nth_append)
  have "last_zero_from ?info 71 = length ?p"
    using assms(2) by (intro last_zero_from_marker) (auto simp: nth pad72_nth)
  moreover have "?info = ?p @ (0 # replicate (71 - length ?p) 1) @ [1, 0, 0] @ tail"
    by (simp add: fast_frame_def pad72_def)
  ultimately have "decode_fast_data jmap ?info = or_data (jsc_text_of jmap W)"
    unfolding decode_fast_data_def using jsc_decompress_prefix [OF assms(1)] by metis
  with i3 show ?thesis by (simp add: decodeJs8Message_def Let_def)
qed

theorem decode_fast_frame_witness:
  "decodeJs8Message sample_jmap (fast_frame (jsc_encode [(100, True), (0, False)]) []) = (''CQ E'', None)"
proof -
  have "\<forall>(j, sp)\<in>set [(100, True), (0, False)]. j < kJscSize" by (simp add: kJscSize_def)
  moreover have "length (jsc_encode [(100, True), (0, False)]) < 72"
    by (simp add: jsc_encode_def jsc_encode_word_def jsc_code_def jsc_depth_6 jsc_base_eval numeral_2_eq_2)
  ultimately show ?thesis
    using decode_fast_frame [of "[(100, True), (0, False)]" sample_jmap "[]"]
    by (simp add: jsc_text_of_def sample_jmap_def or_data_def)
qed

lemma decode_old_frame:
  assumes "length payload < 70" and "payload \<noteq> []"
  shows "decodeJs8Message jmap (old_frame compressed payload tail) =
    (let rest = payload @ drop (2 + length payload) (old_frame compressed payload tail)
     in or_data (if compressed then jsc_decompress jmap rest (length payload)
                 else huffDecode rest (length payload)), None)"
proof -
  let ?info = "old_frame compressed payload tail"
  have "\<not> bit (unat (bits_to_int ?info 72 3)) 2"
    using assms(1) unfolding old_frame_def by (subst i3bit_of) simp_all
  moreover have "4 \<le> unat (bits_to_int ?info 0 3)" using assms(1) by (rule old_frame_flag)
  moreover have "drop 2 ?info = payload @ drop (2 + length payload) ?info"
    by (simp add: old_frame_def pad72_def)
  moreover have "?info ! 1 AND 1 \<noteq> 0 \<longleftrightarrow> compressed"
    by (simp add: old_frame_def pad72_def byte_of_bool_def)
  ultimately show ?thesis
    using assms pad_marker_old [OF assms(1), of compressed tail]
    unfolding decodeJs8Message_def decode_old_data_def Let_def
    by (cases compressed) (simp_all del: drop_append add: nat_add_distrib)
qed

text \<open>
  An old-format Huffman data frame built from any non-empty text over the code's 44
  characters (up to 69 code bits) decodes to exactly that text.
\<close>

theorem decode_huffman_frame:
  assumes "set s \<subseteq> huff_alphabet" and "s \<noteq> []" and "length (huff_encode s) < 70"
  shows "decodeJs8Message jmap (old_frame False (huff_encode s) tail) = (s, None)"
proof -
  obtain ch s' where "s = ch # s'" using assms(2) by (cases s) auto
  then have "huff_encode s \<noteq> []"
    using assms(1) huff_code_pos [OF huff_code_mem, of ch] by (simp add: huff_encode_def bits_of_code_def)
  then show ?thesis
    using assms by (simp add: decode_old_frame huffDecode_encode or_data_def Let_def)
qed

theorem decode_huffman_frame_witness:
  "decodeJs8Message sample_jmap (old_frame False (huff_encode ''CQ DX'') []) = (''CQ DX'', None)"
proof -
  have "set ''CQ DX'' \<subseteq> huff_alphabet" by code_simp
  moreover have "length (huff_encode ''CQ DX'') < 70" by code_simp
  ultimately show ?thesis by (intro decode_huffman_frame) simp_all
qed

text \<open>The same for old-format compressed frames.\<close>

lemma decode_jsc_frame:
  assumes "\<forall>(j, sp)\<in>set W. j < kJscSize" and "length (jsc_encode W) < 70" and "jsc_encode W \<noteq> []"
  shows "decodeJs8Message jmap (old_frame True (jsc_encode W) tail) = (or_data (jsc_text_of jmap W), None)"
  using assms by (simp add: decode_old_frame jsc_decompress_prefix Let_def)

section \<open>Directed and compound frames\<close>

text \<open>A field of \<open>n\<close> bits, MSB first.\<close>

definition field_bits :: "nat \<Rightarrow> nat \<Rightarrow> u8 list" where
  "field_bits n v = map (\<lambda>i. byte_of_bool (bit v (n - 1 - i))) [0..<n]"

lemma length_field_bits [simp]: "length (field_bits n v) = n"
  by (simp add: field_bits_def)

lemma bit_byte_of_bool_0 [simp]: "bit (byte_of_bool b) 0 = b"
  by (simp add: byte_of_bool_def)

lemma bits_to_int_field:
  assumes "n \<le> 64" and "v < 2 ^ n" and "off = length pre"
  shows "bits_to_int (pre @ field_bits n v @ post) off n = of_nat v"
proof (rule bit_word_eqI)
  fix k assume "k < LENGTH(64)"
  have tb: "take_bit n v = v" using assms(2) by (simp add: take_bit_nat_eq_self)
  have hi: "\<not> bit v k" if "\<not> k < n" using that tb by (metis bit_take_bit_iff)
  have "(pre @ field_bits n v @ post) ! (off + (n - 1 - k)) = byte_of_bool (bit v k)" if "k < n"
    using that assms(3) by (simp only: nth_append_length_plus) (simp add: nth_append field_bits_def)
  then show "bit (bits_to_int (pre @ field_bits n v @ post) off n) k \<longleftrightarrow> bit (of_nat v :: u64) k"
    unfolding bit_bits_to_int [OF assms(1)] bit_of_nat_iff
    using \<open>k < LENGTH(64)\<close> hi by (cases "k < n") simp_all
qed

definition directed_frame :: "nat \<Rightarrow> nat \<Rightarrow> nat \<Rightarrow> bool \<Rightarrow> bool \<Rightarrow> nat \<Rightarrow> u8 list \<Rightarrow> u8 list" where
  "directed_frame from_v to_v cmd pf pt extra tail =
     [0, 1, 1] @ field_bits 28 from_v @ field_bits 28 to_v @ field_bits 5 cmd
       @ [byte_of_bool pf, byte_of_bool pt] @ field_bits 6 extra @ [0, 0, 0] @ tail"

definition directed_text :: "nat \<Rightarrow> nat \<Rightarrow> nat \<Rightarrow> bool \<Rightarrow> bool \<Rightarrow> nat \<Rightarrow> string" where
  "directed_text from_v to_v cmd pf pt extra =
     unpackCallsign28 from_v @ (if pf then ''/P'' else []) @ '': ''
       @ unpackCallsign28 to_v @ (if pt then ''/P'' else []) @ kDirCmds ! cmd
       @ (if extra = 0 then []
          else '' '' @ (if cmd \<in> {25, 29} then fmt_plus_d (int extra - 31) else fmt_d (int extra - 31))) @ '' ''"

lemma decode_directed_fields:
  assumes "from_v < 2 ^ 28" and "to_v < 2 ^ 28" and "cmd < 32" and "extra < 64"
  shows "decode_directed (directed_frame from_v to_v cmd pf pt extra tail)
     = (directed_text from_v to_v cmd pf pt extra, Some (unpackCallsign28 from_v @ (if pf then ''/P'' else [])))"
proof -
  let ?info = "directed_frame from_v to_v cmd pf pt extra tail"
  have f: "bits_to_int ?info 3 28 = of_nat from_v"
    using bits_to_int_field [of 28 from_v 3 "[0, 1, 1]"] assms(1) by (simp add: directed_frame_def)
  have t: "bits_to_int ?info 31 28 = of_nat to_v"
    using bits_to_int_field [of 28 to_v 31 "[0, 1, 1] @ field_bits 28 from_v"] assms(2)
    by (simp add: directed_frame_def)
  have c: "bits_to_int ?info 59 5 = of_nat cmd"
    using bits_to_int_field [of 5 cmd 59 "[0, 1, 1] @ field_bits 28 from_v @ field_bits 28 to_v"] assms(3)
    by (simp add: directed_frame_def)
  have e: "bits_to_int ?info 66 6 = of_nat extra"
    using bits_to_int_field [of 6 extra 66 "[0, 1, 1] @ field_bits 28 from_v @ field_bits 28 to_v
      @ field_bits 5 cmd @ [byte_of_bool pf, byte_of_bool pt]"] assms(4)
    by (simp add: directed_frame_def)
  have p: "?info ! 64 = byte_of_bool pf" "?info ! 65 = byte_of_bool pt"
    by (simp_all add: directed_frame_def nth_append)
  have u: "unat (ucast (of_nat n :: u64) :: u32) = n" if "n < 2 ^ 28" for n
    using that by (simp add: unsigned_ucast_eq unat_of_nat take_bit_nat_eq_self)
  have u8: "unat (ucast (of_nat n :: u64) :: u8) = n" if "n < 64" for n
    using that by (simp add: unsigned_ucast_eq unat_of_nat take_bit_nat_eq_self)
  have x: "(ucast (of_nat extra :: u64) :: u8) \<noteq> 0 \<longleftrightarrow> extra \<noteq> 0"
    using u8 [OF assms(4)] by (metis unat_eq_zero)
  have b: "byte_of_bool q AND 1 \<noteq> 0 \<longleftrightarrow> q" for q by (simp add: byte_of_bool_def)
  show ?thesis
    unfolding decode_directed_def Let_def f t c e p b x u [OF assms(1)] u [OF assms(2)] u8 [OF assms(4)]
    using assms(3) u8 [of cmd] by (simp add: directed_text_def)
qed

text \<open>
  A directed frame decodes field by field: the two 28-bit callsigns with their portable
  suffixes, the command text, and the signed extra number.
\<close>

theorem decode_directed_frame:
  assumes "from_v < 2 ^ 28" and "to_v < 2 ^ 28" and "cmd < 32" and "extra < 64"
  shows "decodeJs8Message jmap (directed_frame from_v to_v cmd pf pt extra tail)
     = (directed_text from_v to_v cmd pf pt extra, Some (unpackCallsign28 from_v @ (if pf then ''/P'' else [])))"
proof -
  let ?info = "directed_frame from_v to_v cmd pf pt extra tail"
  have "\<not> bit (unat (bits_to_int ?info 72 3)) 2"
    using i3bit_of [of "[0, 1, 1] @ field_bits 28 from_v @ field_bits 28 to_v @ field_bits 5 cmd
       @ [byte_of_bool pf, byte_of_bool pt] @ field_bits 6 extra" 0 0 0 tail]
    by (simp add: directed_frame_def)
  moreover have "unat (bits_to_int ?info 0 3) = 3"
  proof -
    have "?info = [] @ field_bits 3 3 @ drop 3 ?info"
      by (simp add: directed_frame_def field_bits_def byte_of_bool_def upt_rec bit_0)
    then have "bits_to_int ?info 0 3 = of_nat 3"
      using bits_to_int_field [of 3 3 0 "[]" "drop 3 ?info"] by simp
    then show ?thesis by simp
  qed
  ultimately show ?thesis
    using decode_directed_fields [OF assms] by (simp add: decodeJs8Message_def Let_def)
qed

theorem decode_directed_frame_witness:
  "decodeJs8Message sample_jmap (directed_frame 144682919 262177562 25 True False 26 [])
     = (''KF0RRR/P: @ALLCALL SNR -5 '', Some ''KF0RRR/P'')"
proof -
  have cs: "unpackCallsign28 144682919 = ''KF0RRR''" "unpackCallsign28 262177562 = ''@ALLCALL''"
    by (simp_all add: unpackCallsign28_def kNBasecall_def kNumBasecalls_def kBasecalls_def kCallAlpha_def
        pop_spaces_def Let_def)
  have "fmt_plus_d (int 26 - 31) = ''-5''"
    by (simp add: fmt_plus_d_def dec_of_nat.simps char_of_def bit_0)
  then show ?thesis
    using decode_directed_frame [of 144682919 262177562 25 26 sample_jmap True False "[]"]
    by (simp add: directed_text_def cs kDirCmds_def)
qed

text \<open>Compound frames: which text, and which bits it is read from.\<close>

lemma kDirCmds_nonempty: "i < 32 \<Longrightarrow> kDirCmds ! i \<noteq> []"
proof -
  assume "i < 32"
  then have "kDirCmds ! i \<in> set kDirCmds" by (intro nth_mem) (simp add: kDirCmds_def)
  moreover have "list_all (\<lambda>c. c \<noteq> []) kDirCmds" by (simp add: kDirCmds_def)
  ultimately show ?thesis by (auto simp: list_all_iff)
qed

lemma bit_word6:
  "bit (foldl (\<lambda>w b. push_bit 1 w OR (ucast (info ! (i * 6 + b) :: u8) AND 1)) (0 :: u32) [0..<6]) k
     \<longleftrightarrow> k < 6 \<and> bit (info ! (i * 6 + (5 - k))) 0"
  using bit_foldl_shift_in [where 'a = 32, of 6 "\<lambda>b. info ! (i * 6 + b)" k] by simp

lemma word6_less: "word6 info i < 64"
  unfolding word6_def using unat_less_of_bits [OF bit_word6 [THEN iffD1, THEN conjunct1]] by simp

lemma word6_eq_iff:
  "word6 info i = word6 info' i \<longleftrightarrow>
     map (\<lambda>b. bit (info ! b) 0) [i * 6..<i * 6 + 6] = map (\<lambda>b. bit (info' ! b) 0) [i * 6..<i * 6 + 6]"
  (is "?l \<longleftrightarrow> ?r")
proof -
  have "?l \<longleftrightarrow> (\<forall>k. (k < 6 \<and> bit (info ! (i * 6 + (5 - k))) 0) = (k < 6 \<and> bit (info' ! (i * 6 + (5 - k))) 0))"
    unfolding word6_def word_unat_eq_iff [symmetric] bit_word6 [symmetric]
    by (auto intro: bit_word_eqI)
  also have "\<dots> \<longleftrightarrow> (\<forall>k<6. bit (info ! (i * 6 + (5 - k))) 0 = bit (info' ! (i * 6 + (5 - k))) 0)"
    by blast
  also have "\<dots> \<longleftrightarrow> (\<forall>b<6. bit (info ! (i * 6 + b)) 0 = bit (info' ! (i * 6 + b)) 0)"
  proof (rule iffI; intro allI impI)
    fix b :: nat
    assume "\<forall>k<6. bit (info ! (i * 6 + (5 - k))) 0 = bit (info' ! (i * 6 + (5 - k))) 0" "b < 6"
    then show "bit (info ! (i * 6 + b)) 0 = bit (info' ! (i * 6 + b)) 0"
      by (elim allE [of _ "5 - b"]) simp
  qed (simp only: diff_less_bound rel_simps less_numeral_extra)
  also have "\<dots> \<longleftrightarrow> ?r"
    by (auto simp: list_eq_iff_nth_eq)
  finally show ?thesis .
qed

lemma extract12_loop_eq: "extract12_loop info is out = out @ map (\<lambda>i. kJs8Alphabet ! word6 info i) is"
proof (induction "is" arbitrary: out)
  case (Cons i "is")
  then show ?case using word6_less [of info i] by simp
qed simp

lemma extractMessage12_eq: "extractMessage12 info = map (\<lambda>i. kJs8Alphabet ! word6 info i) [0..<12]"
  by (simp only: extractMessage12_def extract12_loop_eq append_Nil)

lemma kJs8Alphabet_eq_iff: "i < 64 \<Longrightarrow> j < 64 \<Longrightarrow> kJs8Alphabet ! i = kJs8Alphabet ! j \<longleftrightarrow> i = j"
  by (rule nth_eq_iff_index_eq) (simp_all add: kJs8Alphabet_def)

lemma blocks_map_eq:
  "map f [0..<n * m] = map g [0..<n * m] \<longleftrightarrow>
     (\<forall>i<n. map f [i * m..<i * m + m] = map g [i * m..<i * m + m])"
proof (induction n)
  case (Suc n)
  have "[0..<Suc n * m] = [0..<n * m] @ [n * m..<n * m + m]"
    using upt_add_eq_append [of 0 "n * m" m] by (simp add: add.commute)
  then show ?case using Suc by (auto simp: less_Suc_eq simp del: upt_Suc map_eq_conv)
qed simp

text \<open>
  The 12-character raw text is a faithful key of the 72 payload bits: two words have the
  same raw text exactly when they agree on the low bit of each of the first 72 entries.
\<close>

theorem extractMessage12_key:
  "extractMessage12 a = extractMessage12 b \<longleftrightarrow>
     map (\<lambda>i. bit (a ! i) 0) [0..<72] = map (\<lambda>i. bit (b ! i) 0) [0..<72]"
proof -
  have "extractMessage12 a = extractMessage12 b \<longleftrightarrow> (\<forall>i<12. word6 a i = word6 b i)"
    unfolding extractMessage12_eq map_eq_conv
    by (auto simp: kJs8Alphabet_eq_iff word6_less simp del: upt_rec_numeral)
  then show ?thesis
    using blocks_map_eq [of "\<lambda>i. bit (a ! i) 0" 12 6 "\<lambda>i. bit (b ! i) 0"]
    by (simp only: word6_eq_iff numeral_times_numeral semiring_norm)
qed

lemma unpackCallsign28_nonempty: "unpackCallsign28 v \<noteq> []"
proof (cases "v < kNBasecall")
  case True
  define ds where "ds = call28_digits v"
  have "\<exists>c\<in>set (map ((!) kCallAlpha) ds). c \<noteq> CHR '' ''"
  proof -
    have "ds ! 2 < 10" "ds ! 2 \<in> set ds" unfolding ds_def call28_digits_def by (simp_all del: div_mult2_eq)
    then show ?thesis using kCallAlpha_space [of "ds ! 2"] by (force simp del: nth_mem)
  qed
  then have "pop_spaces (map ((!) kCallAlpha) ds) \<noteq> []"
    unfolding pop_spaces_def by (auto simp: dropWhile_eq_Nil_conv)
  then show ?thesis using unpackCallsign28_digits [OF True] ds_def by simp
next
  case False
  have "list_all (\<lambda>c. c \<noteq> Some []) kBasecalls" by (simp add: kBasecalls_def)
  then have "kBasecalls ! i \<noteq> Some []" if "i < kNumBasecalls" for i
    using that by (auto simp: list_all_length kNumBasecalls_def)
  from this [of "v - kNBasecall"] False show ?thesis
    by (auto simp: unpackCallsign28_def Let_def split: option.split)
qed

text \<open>
  The decoder always produces a message: for no information word is it empty, and the
  \<open>from\<close> callsign, when assigned, is not empty either.
\<close>

theorem decodeJs8Message_nonempty:
  "fst (decodeJs8Message jmap info) \<noteq> [] \<and> snd (decodeJs8Message jmap info) \<noteq> Some []"
proof -
  have "extractMessage12 info \<noteq> []" by (simp only: extractMessage12_eq) simp
  moreover have "decode_fast_data jmap info \<noteq> []" "decode_old_data jmap info \<noteq> []"
    by (simp_all add: decode_fast_data_def decode_old_data_def or_data_def Let_def)
  moreover have "fst (decode_compound info f) \<noteq> [] \<and> snd (decode_compound info f) \<noteq> Some []" for f
    using calculation(1) by (simp add: decode_compound_def Let_def)
  moreover have "fst (decode_directed info) \<noteq> [] \<and> snd (decode_directed info) \<noteq> Some []"
    using unpackCallsign28_nonempty by (simp add: decode_directed_def Let_def)
  ultimately show ?thesis
    unfolding decodeJs8Message_def Let_def by (simp split: if_splits)
qed

end
