(* ===== verification/Float32.thy ===== *)
theory Float32
  imports Complex_Main "HOL-Library.Log_Nat" Prelude
begin

text \<open>
  IEEE-754 binary32 and binary64 arithmetic on the finite values, as the C++ code uses it:
  a \<open>float\<close> or \<open>double\<close> is the rational number it stands for, and every operation is the exact
  rational operation followed by rounding to nearest, ties to even, with gradual underflow.
  Overflow to infinity and NaN are outside the model: the components use it on bounded
  log-likelihoods, powers and frequencies.
\<close>

type_synonym f32 = rat
type_synonym f64 = rat

text \<open>Round to the nearest integer, ties to even.\<close>

definition round_ne :: "rat \<Rightarrow> int" where
  "round_ne x =
     (let f = \<lfloor>x\<rfloor>; r = x - of_int f
      in if r < 1 / 2 then f else if r > 1 / 2 then f + 1 else if even f then f else f + 1)"

text \<open>The binary exponent of a positive rational.\<close>

definition ilog2 :: "rat \<Rightarrow> int" where
  "ilog2 x =
     (let (a, b) = quotient_of x; e = bitlen a - bitlen b
      in if 2 powi e \<le> x then e else e - 1)"

definition fp_round :: "int \<Rightarrow> int \<Rightarrow> rat \<Rightarrow> rat" where
  "fp_round p emin x =
     (if x = 0 then 0
      else let e = max emin (ilog2 \<bar>x\<bar> - p + 1)
           in of_int (round_ne (x * 2 powi (- e))) * 2 powi e)"

definition r32 :: "rat \<Rightarrow> f32" where "r32 = fp_round 24 (-149)"
definition r64 :: "rat \<Rightarrow> f64" where "r64 = fp_round 53 (-1074)"

definition fadd :: "f32 \<Rightarrow> f32 \<Rightarrow> f32" where "fadd a b = r32 (a + b)"
definition fsub :: "f32 \<Rightarrow> f32 \<Rightarrow> f32" where "fsub a b = r32 (a - b)"
definition fmul :: "f32 \<Rightarrow> f32 \<Rightarrow> f32" where "fmul a b = r32 (a * b)"
definition fdiv :: "f32 \<Rightarrow> f32 \<Rightarrow> f32" where "fdiv a b = r32 (a / b)"
definition dadd :: "f64 \<Rightarrow> f64 \<Rightarrow> f64" where "dadd a b = r64 (a + b)"
definition dsub :: "f64 \<Rightarrow> f64 \<Rightarrow> f64" where "dsub a b = r64 (a - b)"
definition dmul :: "f64 \<Rightarrow> f64 \<Rightarrow> f64" where "dmul a b = r64 (a * b)"
definition ddiv :: "f64 \<Rightarrow> f64 \<Rightarrow> f64" where "ddiv a b = r64 (a / b)"

text \<open>Conversion to an integer truncates towards zero.\<close>

definition trunc :: "rat \<Rightarrow> int" where
  "trunc x = (if x < 0 then - \<lfloor>- x\<rfloor> else \<lfloor>x\<rfloor>)"

section \<open>Rounding to an integer\<close>

lemma round_ne_of_int [simp]: "round_ne (of_int n) = n"
  by (simp add: round_ne_def)

lemma round_ne_nonneg: "0 \<le> x \<Longrightarrow> 0 \<le> round_ne x"
  by (auto simp: round_ne_def Let_def)

lemma round_ne_bounds: "of_int (round_ne x) \<le> x + 1 / 2 \<and> x - 1 / 2 \<le> of_int (round_ne x)"
proof -
  have "of_int \<lfloor>x\<rfloor> \<le> x" "x < of_int \<lfloor>x\<rfloor> + 1" by linarith+
  then show ?thesis unfolding round_ne_def Let_def by (auto; linarith)
qed

lemma round_ne_mono: "x \<le> y \<Longrightarrow> round_ne x \<le> round_ne y"
proof -
  assume xy: "x \<le> y"
  then have f: "\<lfloor>x\<rfloor> \<le> \<lfloor>y\<rfloor>" by (rule floor_mono)
  show ?thesis
  proof (cases "\<lfloor>x\<rfloor> = \<lfloor>y\<rfloor>")
    case True
    then show ?thesis using xy by (auto simp: round_ne_def Let_def)
  next
    case False
    with f have "\<lfloor>x\<rfloor> + 1 \<le> \<lfloor>y\<rfloor>" by simp
    moreover have "round_ne x \<le> \<lfloor>x\<rfloor> + 1" "\<lfloor>y\<rfloor> \<le> round_ne y" by (auto simp: round_ne_def Let_def)
    ultimately show ?thesis by linarith
  qed
qed

section \<open>The binary exponent\<close>

lemma bitlen_powi:
  "0 < a \<Longrightarrow> (2 :: rat) powi (bitlen a - 1) \<le> of_int a \<and> of_int a < (2 :: rat) powi bitlen a"
proof -
  assume a: "0 < a"
  have "1 \<le> bitlen a"
  proof (rule ccontr)
    assume "\<not> 1 \<le> bitlen a"
    then have "nat (bitlen a) = 0" by simp
    then show False using bitlen_bounds [OF a] a by simp
  qed
  then have "2 ^ nat (bitlen a - 1) \<le> a \<and> a < 2 ^ nat (bitlen a)"
    using bitlen_bounds [of a] a by auto
  then have "(2 :: rat) ^ nat (bitlen a - 1) \<le> of_int a \<and> of_int a < (2 :: rat) ^ nat (bitlen a)"
    by (metis of_int_le_iff of_int_less_iff of_int_numeral of_int_power)
  then show ?thesis using \<open>1 \<le> bitlen a\<close> by (simp add: power_int_def)
qed

lemma ilog2_bounds:
  assumes "0 < x" shows "2 powi ilog2 x \<le> x \<and> x < 2 powi (ilog2 x + 1)"
proof -
  obtain a b where q: "quotient_of x = (a, b)" by (cases "quotient_of x")
  then have x: "x = of_int a / of_int b" and b: "0 < b"
    using quotient_of_div quotient_of_denom_pos by blast+
  then have a: "0 < a" using assms by (simp add: zero_less_divide_iff)
  let ?e = "bitlen a - bitlen b"
  have "x < 2 powi bitlen a / 2 powi (bitlen b - 1)"
    unfolding x using bitlen_powi [OF a] bitlen_powi [OF b] b a
    by (intro frac_less) auto
  also have "\<dots> = 2 powi (?e + 1)" by (simp add: power_int_diff power_int_add)
  finally have up: "x < 2 powi (?e + 1)" .
  have "2 powi (bitlen a - 1) / 2 powi bitlen b \<le> x"
    unfolding x using bitlen_powi [OF a] bitlen_powi [OF b] b a
    by (intro frac_le) auto
  then have low: "2 powi (?e - 1) \<le> x" by (simp add: power_int_diff)
  show ?thesis using up low by (simp add: ilog2_def q Let_def)
qed

section \<open>Rounding\<close>

lemma powi2_pos [simp]: "0 < (2 :: rat) powi e"
  by simp

lemma fp_round_0 [simp]: "fp_round p emin 0 = 0"
  by (simp add: fp_round_def)

lemma fp_round_nonneg: "0 \<le> x \<Longrightarrow> 0 \<le> fp_round p emin x"
  by (auto simp: fp_round_def Let_def intro!: mult_nonneg_nonneg round_ne_nonneg)

text \<open>Values with at most \<open>p\<close> significant bits above the underflow threshold are exact.\<close>

lemma fp_round_exact:
  assumes "x = of_int n * 2 powi k" and "\<bar>n\<bar> < 2 ^ nat p" and "emin \<le> k" and "0 \<le> p"
  shows "fp_round p emin x = x"
proof (cases "x = 0")
  case False
  have "\<bar>x\<bar> = of_int \<bar>n\<bar> * 2 powi k" using assms(1) by (simp add: abs_mult)
  also have "\<dots> < 2 powi p * 2 powi k"
  proof (rule mult_strict_right_mono)
    have "(of_int \<bar>n\<bar> :: rat) < of_int (2 ^ nat p)" using assms(2) by (simp only: of_int_less_iff)
    then show "(of_int \<bar>n\<bar> :: rat) < 2 powi p" using assms(4) by (simp add: power_int_def)
  qed simp
  also have "\<dots> = 2 powi (p + k)" by (simp add: power_int_add)
  finally have up: "\<bar>x\<bar> < 2 powi (p + k)" .
  have "2 powi ilog2 \<bar>x\<bar> \<le> \<bar>x\<bar>" using ilog2_bounds [of "\<bar>x\<bar>"] False by simp
  then have "(2 :: rat) powi ilog2 \<bar>x\<bar> < 2 powi (p + k)" using up by simp
  then have "ilog2 \<bar>x\<bar> < p + k"
    using power_int_increasing [of "p + k" "ilog2 \<bar>x\<bar>" "2 :: rat"] by (intro not_le_imp_less notI) simp
  let ?e = "max emin (ilog2 \<bar>x\<bar> - p + 1)"
  have e: "?e \<le> k" using \<open>ilog2 \<bar>x\<bar> < p + k\<close> assms(3) by simp
  have "x * 2 powi (- ?e) = of_int n * 2 powi (k - ?e)"
    using assms(1) by (simp add: power_int_diff power_int_minus field_simps)
  also have "\<dots> = of_int (n * 2 ^ nat (k - ?e))" using e by (simp add: power_int_def)
  finally have m: "x * 2 powi (- ?e) = of_int (n * 2 ^ nat (k - ?e))" .
  then have "fp_round p emin x = x * 2 powi (- ?e) * 2 powi ?e"
    using False by (simp only: fp_round_def Let_def if_False round_ne_of_int)
  also have "\<dots> = x" by (simp add: power_int_minus)
  finally show ?thesis .
qed simp

text \<open>The rounding error is at most half a unit in the last place of the binade.\<close>

lemma fp_round_error:
  assumes "\<bar>x\<bar> < 2 powi E" and "emin \<le> E - p"
  shows "\<bar>fp_round p emin x - x\<bar> \<le> 2 powi (E - p - 1)"
proof (cases "x = 0")
  case False
  let ?e = "max emin (ilog2 \<bar>x\<bar> - p + 1)"
  let ?y = "x * 2 powi (- ?e)"
  have "2 powi ilog2 \<bar>x\<bar> \<le> \<bar>x\<bar>" using ilog2_bounds [of "\<bar>x\<bar>"] False by simp
  then have "(2 :: rat) powi ilog2 \<bar>x\<bar> < 2 powi E" using assms(1) by simp
  then have "ilog2 \<bar>x\<bar> < E"
    using power_int_increasing [of E "ilog2 \<bar>x\<bar>" "2 :: rat"] by (intro not_le_imp_less notI) simp
  then have e: "?e \<le> E - p" using assms(2) by simp
  have "fp_round p emin x - x = (of_int (round_ne ?y) - ?y) * 2 powi ?e"
    using False by (simp add: fp_round_def Let_def left_diff_distrib power_int_minus)
  then have "\<bar>fp_round p emin x - x\<bar> = \<bar>of_int (round_ne ?y) - ?y\<bar> * 2 powi ?e"
    by (simp add: abs_mult)
  also have "\<dots> \<le> (1 / 2) * 2 powi ?e"
  proof (rule mult_right_mono)
    show "\<bar>of_int (round_ne ?y) - ?y\<bar> \<le> 1 / 2" using round_ne_bounds [of ?y] by linarith
  qed simp
  also have "\<dots> \<le> (1 / 2) * 2 powi (E - p)"
    using e by (intro mult_left_mono power_int_increasing) auto
  also have "\<dots> = 2 powi (E - p - 1)" by (simp add: power_int_diff)
  finally show ?thesis .
qed simp

lemma r32_0 [simp]: "r32 0 = 0" and r64_0 [simp]: "r64 0 = 0"
  by (simp_all add: r32_def r64_def)

lemma r32_nonneg: "0 \<le> x \<Longrightarrow> 0 \<le> r32 x" and r64_nonneg: "0 \<le> x \<Longrightarrow> 0 \<le> r64 x"
  by (simp_all add: r32_def r64_def fp_round_nonneg)

lemma r32_int: "\<bar>n\<bar> < 2 ^ 24 \<Longrightarrow> r32 (of_int n) = of_int n"
  unfolding r32_def by (rule fp_round_exact [where k = 0]) simp_all

lemma r32_half: "\<bar>n\<bar> < 2 ^ 24 \<Longrightarrow> r32 (of_int n / 2) = of_int n / 2"
  unfolding r32_def by (rule fp_round_exact [where k = "-1" and n = n]) (simp_all add: power_int_minus)

lemma r64_int: "\<bar>n\<bar> < 2 ^ 53 \<Longrightarrow> r64 (of_int n) = of_int n"
  unfolding r64_def by (rule fp_round_exact [where k = 0]) simp_all

lemma fadd_0 [simp]: "fadd 0 0 = 0"
  by (simp add: fadd_def)

lemma fadd_nonneg: "0 \<le> a \<Longrightarrow> 0 \<le> b \<Longrightarrow> 0 \<le> fadd a b"
  by (simp add: fadd_def r32_nonneg)

end
