(* ===== verification/Osd.thy ===== *)
theory Osd
  imports Float32
begin

text \<open>
  Ordered-statistics decoding of (174, K) linear codes: \<open>osd_decode_n174\<close> of
  \<open>gm/cuda/OsdCore.cc\<close>, with the FT8 generator built by \<open>build_generator\<close> of
  \<open>gm/cuda/FT8Osd.cc\<close>.  The generator matrix is the flat byte array \<open>gen\<close> of the C++ call.

  The lemmas show that the decoder fails exactly when the generator is rank deficient, that
  what it returns is always a codeword with its soft distance, that no tested candidate is
  closer, and that an error-free word is decoded to itself at distance 0.
\<close>

section \<open>Bit rows\<close>

definition osd_N :: nat where "osd_N = 174"
definition K_MAX :: nat where "K_MAX = 91"
definition osd_WORDS :: nat where "osd_WORDS = 3"

record Bits =
  bw :: "u64 list"

definition bits_empty :: Bits where
  "bits_empty = \<lparr>bw = replicate osd_WORDS 0\<rparr>"

definition bits_get :: "Bits \<Rightarrow> nat \<Rightarrow> bool" where
  "bits_get b i = bit (bw b ! (i div 64)) (i mod 64)"

definition bits_set :: "nat \<Rightarrow> Bits \<Rightarrow> Bits" where
  "bits_set i b = b\<lparr>bw := (bw b)[i div 64 := (bw b ! (i div 64)) OR push_bit (i mod 64) 1]\<rparr>"

definition xorRow :: "Bits \<Rightarrow> Bits \<Rightarrow> Bits" where
  "xorRow b p = \<lparr>bw = [bw b ! 0 XOR bw p ! 0, bw b ! 1 XOR bw p ! 1, bw b ! 2 XOR bw p ! 2]\<rparr>"

section \<open>The decoder\<close>

definition osd_perm :: "f32 list \<Rightarrow> nat list" where
  "osd_perm llr = sort_key (\<lambda>a. - \<bar>llr ! a\<bar>) [0..<osd_N]"

definition osd_row :: "nat list \<Rightarrow> u8 list \<Rightarrow> nat \<Rightarrow> Bits" where
  "osd_row perm gen r =
     foldl (\<lambda>b c. if gen ! (r * osd_N + perm ! c) \<noteq> 0 then bits_set c b else b) bits_empty [0..<osd_N]"

definition osd_rows :: "nat list \<Rightarrow> nat \<Rightarrow> u8 list \<Rightarrow> Bits list" where
  "osd_rows perm K gen = map (osd_row perm gen) [0..<K]"

definition list_swap :: "nat \<Rightarrow> nat \<Rightarrow> 'a list \<Rightarrow> 'a list" where
  "list_swap i j xs = xs[i := xs ! j, j := xs ! i]"

text \<open>The elimination loop; row \<open>rank\<close> is not changed by it.\<close>

definition eliminate :: "nat \<Rightarrow> nat \<Rightarrow> Bits list \<Rightarrow> Bits list" where
  "eliminate rank col rows =
     foldl (\<lambda>rs r. if r \<noteq> rank \<and> bits_get (rs ! r) col then rs[r := xorRow (rs ! r) (rs ! rank)] else rs)
       rows [0..<length rows]"

text \<open>One column of the reduction; \<open>rank\<close> is the number of pivots found.\<close>

definition rref_col :: "nat \<Rightarrow> Bits list \<times> nat list \<Rightarrow> nat \<Rightarrow> Bits list \<times> nat list" where
  "rref_col K st col =
     (let (rows, pivot_col) = st; rank = length pivot_col
      in if rank < K
         then (case find (\<lambda>r. bits_get (rows ! r) col) [rank..<K] of
                 None \<Rightarrow> (rows, pivot_col)
               | Some sel \<Rightarrow> (eliminate rank col (list_swap rank sel rows), pivot_col @ [col]))
         else (rows, pivot_col))"

definition rref :: "nat \<Rightarrow> Bits list \<Rightarrow> Bits list \<times> nat list" where
  "rref K rows = foldl (rref_col K) (rows, []) [0..<osd_N]"

definition osd_hard :: "f32 list \<Rightarrow> nat list \<Rightarrow> nat \<Rightarrow> bool" where
  "osd_hard llr perm c = (0 < llr ! (perm ! c))"

definition osd_encode :: "Bits list \<Rightarrow> bool list \<Rightarrow> Bits" where
  "osd_encode rows yv = foldl (\<lambda>out i. if yv ! i then xorRow out (rows ! i) else out) bits_empty [0..<length rows]"

definition softDist :: "bool list \<Rightarrow> f32 list \<Rightarrow> Bits \<Rightarrow> f32" where
  "softDist hdv rel c = foldl (\<lambda>d p. if bits_get c p \<noteq> hdv ! p then fadd d (rel ! p) else d) 0 [0..<osd_N]"

definition flip :: "nat \<Rightarrow> bool list \<Rightarrow> bool list" where
  "flip i y = y[i := \<not> y ! i]"

text \<open>One test pattern: keep the better of the best so far and this candidate.\<close>

definition osd_try :: "bool list \<Rightarrow> f32 list \<Rightarrow> Bits list \<Rightarrow> Bits \<times> f32 \<Rightarrow> bool list \<Rightarrow> Bits \<times> f32" where
  "osd_try hdv rel rows st yt =
     (let c = osd_encode rows yt; d = softDist hdv rel c
      in if d < snd st then (c, d) else st)"

definition osd_order1 :: "bool list \<Rightarrow> f32 list \<Rightarrow> Bits list \<Rightarrow> bool list \<Rightarrow> Bits \<times> f32 \<Rightarrow> Bits \<times> f32" where
  "osd_order1 hdv rel rows y st =
     foldl (\<lambda>st i. osd_try hdv rel rows st (flip i y)) st [0..<length rows]"

definition osd_order2 :: "bool list \<Rightarrow> f32 list \<Rightarrow> Bits list \<Rightarrow> bool list \<Rightarrow> Bits \<times> f32 \<Rightarrow> Bits \<times> f32" where
  "osd_order2 hdv rel rows y st =
     foldl (\<lambda>st i. foldl (\<lambda>st j. osd_try hdv rel rows st (flip j (flip i y))) st [i + 1..<length rows])
       st [0..<length rows]"

definition osd_unpermute :: "nat list \<Rightarrow> Bits \<Rightarrow> u8 list" where
  "osd_unpermute perm best =
     foldl (\<lambda>xhat c. xhat[perm ! c := byte_of_bool (bits_get best c)]) (replicate osd_N 0) [0..<osd_N]"

text \<open>\<open>None\<close> is the return value \<open>false\<close>.\<close>

definition osd_decode_n174 :: "f32 list \<Rightarrow> nat \<Rightarrow> u8 list \<Rightarrow> int \<Rightarrow> (u8 list \<times> f32) option" where
  "osd_decode_n174 llr K gen order =
     (if K < 1 \<or> K_MAX < K then None
      else let order = (if order < 0 then 0 else order);
               order = (if order > 2 then 2 else order);
               perm = osd_perm llr;
               (rows, pivot_col) = rref K (osd_rows perm K gen)
           in if length pivot_col < K then None
              else let y = map (\<lambda>i. osd_hard llr perm (pivot_col ! i)) [0..<K];
                       rel = map (\<lambda>c. \<bar>llr ! (perm ! c)\<bar>) [0..<osd_N];
                       hdv = map (osd_hard llr perm) [0..<osd_N];
                       best = osd_encode rows y;
                       st = (best, softDist hdv rel best);
                       st = (if order \<ge> 1 then osd_order1 hdv rel rows y st else st);
                       st = (if order \<ge> 2 then osd_order2 hdv rel rows y st else st)
                   in Some (osd_unpermute perm (fst st), snd st))"

text \<open>
  The systematic FT8 generator: the packed parity table \<open>kFTX_LDPC_generator\<close> (83 rows of 12
  bytes, in \<open>ft8_lib\<close>) is the argument \<open>ldpc\<close>.
\<close>

definition FTX_LDPC_K :: nat where "FTX_LDPC_K = 91"
definition FTX_LDPC_M :: nat where "FTX_LDPC_M = 83"

definition ft8_gen_row :: "(nat \<Rightarrow> nat \<Rightarrow> u8) \<Rightarrow> nat \<Rightarrow> u8 list" where
  "ft8_gen_row ldpc m =
     foldl (\<lambda>row i. row[FTX_LDPC_K + i := drop_bit (7 - (m AND 7)) (ldpc i (m div 8)) AND 1])
       ((replicate osd_N 0)[m := 1]) [0..<FTX_LDPC_M]"

definition build_generator :: "(nat \<Rightarrow> nat \<Rightarrow> u8) \<Rightarrow> u8 list" where
  "build_generator ldpc = concat (map (ft8_gen_row ldpc) [0..<FTX_LDPC_K])"

definition ft8_osd_decode :: "(nat \<Rightarrow> nat \<Rightarrow> u8) \<Rightarrow> f32 list \<Rightarrow> int \<Rightarrow> (u8 list \<times> f32) option" where
  "ft8_osd_decode ldpc llr order = osd_decode_n174 llr FTX_LDPC_K (build_generator ldpc) order"

text \<open>The JS8 generator table \<open>g_js8_gen\<close> (87 rows of 174 bytes) is the argument \<open>js8_gen\<close>.\<close>

definition js8_osd_decode :: "u8 list \<Rightarrow> f32 list \<Rightarrow> int \<Rightarrow> (u8 list \<times> f32) option" where
  "js8_osd_decode js8_gen llr order = osd_decode_n174 llr 87 js8_gen order"

section \<open>Parity sums\<close>

definition par :: "nat \<Rightarrow> (nat \<Rightarrow> bool) \<Rightarrow> bool" where
  "par K f = odd (\<Sum>r<K. of_bool (f r) :: nat)"

lemma par_0 [simp]: "par 0 f = False"
  by (simp add: par_def)

lemma par_Suc [simp]: "par (Suc K) f = (par K f \<noteq> f K)"
  by (simp add: par_def)

lemma par_cong: "(\<And>r. r < K \<Longrightarrow> f r = g r) \<Longrightarrow> par K f = par K g"
  by (induction K) simp_all

lemma par_False [simp]: "par K (\<lambda>r. False) = False"
  by (induction K) simp_all

lemma par_neq: "par K (\<lambda>r. f r \<noteq> g r) = (par K f \<noteq> par K g)"
  by (induction K) auto

lemma par_conj: "par K (\<lambda>r. f r \<and> c) = (par K f \<and> c)"
  by (cases c) simp_all

lemma par_single: "par K (\<lambda>r. r = i \<and> f r) = (i < K \<and> f i)"
  by (induction K) (auto simp: less_Suc_eq)

definition swp :: "nat \<Rightarrow> nat \<Rightarrow> nat \<Rightarrow> nat" where
  "swp i j r = (if r = i then j else if r = j then i else r)"

lemma swp_swp [simp]: "swp i j (swp i j r) = r"
  by (simp add: swp_def)

lemma par_swap_step:
  assumes "i < K" and "j < K"
  shows "par K (\<lambda>r. f (swp i j r)) = par K f"
proof -
  have "(\<Sum>r<K. of_bool (f (swp i j r)) :: nat) = (\<Sum>r<K. of_bool (f r))"
    by (rule sum.reindex_bij_witness [of _ "swp i j" "swp i j"])
      (use assms in \<open>auto simp: swp_def\<close>)
  then show ?thesis by (simp add: par_def)
qed

section \<open>Row spaces over GF(2)\<close>

text \<open>A matrix is its entry function; \<open>comb\<close> is the sum of the rows selected by \<open>ms\<close>.\<close>

definition comb :: "nat \<Rightarrow> (nat \<Rightarrow> nat \<Rightarrow> bool) \<Rightarrow> (nat \<Rightarrow> bool) \<Rightarrow> nat \<Rightarrow> bool" where
  "comb K A ms p = par K (\<lambda>r. ms r \<and> A r p)"

definition some_row :: "nat \<Rightarrow> (nat \<Rightarrow> bool) \<Rightarrow> bool" where
  "some_row K ms = (\<exists>r<K. ms r)"

definition indep :: "nat \<Rightarrow> (nat \<Rightarrow> nat \<Rightarrow> bool) \<Rightarrow> bool" where
  "indep K A = (\<forall>ms. some_row K ms \<longrightarrow> (\<exists>p<osd_N. comb K A ms p))"

text \<open>Every combination of the rows of \<open>A\<close> is one of \<open>B\<close>, nonempty ones of nonempty ones.\<close>

definition rows_into :: "nat \<Rightarrow> (nat \<Rightarrow> nat \<Rightarrow> bool) \<Rightarrow> (nat \<Rightarrow> nat \<Rightarrow> bool) \<Rightarrow> bool" where
  "rows_into K A B = (\<forall>ms. \<exists>ms'. (\<forall>p<osd_N. comb K A ms p = comb K B ms' p) \<and>
     (some_row K ms \<longrightarrow> some_row K ms'))"

lemma rows_into_refl: "rows_into K A A"
  unfolding rows_into_def by blast

lemma rows_into_trans:
  assumes "rows_into K A B" and "rows_into K B C" shows "rows_into K A C"
  unfolding rows_into_def
proof
  fix ms
  obtain ms' where 1: "\<forall>p<osd_N. comb K A ms p = comb K B ms' p" "some_row K ms \<longrightarrow> some_row K ms'"
    using assms(1) unfolding rows_into_def by blast
  obtain ms2 where "\<forall>p<osd_N. comb K B ms' p = comb K C ms2 p" "some_row K ms' \<longrightarrow> some_row K ms2"
    using assms(2) unfolding rows_into_def by blast
  with 1 show "\<exists>ms'. (\<forall>p<osd_N. comb K A ms p = comb K C ms' p) \<and> (some_row K ms \<longrightarrow> some_row K ms')"
    by (intro exI [of _ ms2]) simp
qed

lemma rows_into_indep: "rows_into K A B \<Longrightarrow> indep K B \<Longrightarrow> indep K A"
  unfolding rows_into_def indep_def by metis

lemma rows_into_cong: "(\<And>r p. r < K \<Longrightarrow> p < osd_N \<Longrightarrow> A r p = B r p) \<Longrightarrow> rows_into K A B"
  unfolding rows_into_def comb_def by (intro allI exI conjI impI par_cong) auto

text \<open>Exchanging two rows.\<close>

lemma rows_into_swap:
  assumes "i < K" and "j < K"
  shows "rows_into K (\<lambda>r. A (swp i j r)) A"
  unfolding rows_into_def
proof (intro allI exI conjI impI)
  fix ms p
  show "comb K (\<lambda>r. A (swp i j r)) ms p = comb K A (\<lambda>r. ms (swp i j r)) p"
    using par_swap_step [OF assms, of "\<lambda>r. ms (swp i j r) \<and> A r p"]
    by (simp add: comb_def)
next
  fix ms assume "some_row K ms"
  then obtain r where "r < K" "ms r" unfolding some_row_def by blast
  then show "some_row K (\<lambda>r. ms (swp i j r))"
    unfolding some_row_def using assms by (intro exI [of _ "swp i j r"]) (simp, simp add: swp_def)
qed

text \<open>Adding row \<open>k\<close> to the rows selected by \<open>b\<close>.\<close>

definition add_row :: "nat \<Rightarrow> (nat \<Rightarrow> bool) \<Rightarrow> (nat \<Rightarrow> nat \<Rightarrow> bool) \<Rightarrow> nat \<Rightarrow> nat \<Rightarrow> bool" where
  "add_row k b A r p = (A r p \<noteq> (r \<noteq> k \<and> b r \<and> A k p))"

lemma comb_add_row:
  assumes "k < K"
  shows "comb K (add_row k b A) ms p
    = comb K A (ms(k := (ms k \<noteq> par K (\<lambda>r. ms r \<and> r \<noteq> k \<and> b r)))) p"
proof -
  let ?c = "par K (\<lambda>r. ms r \<and> r \<noteq> k \<and> b r)"
  have "comb K (add_row k b A) ms p
      = par K (\<lambda>r. (ms r \<and> A r p) \<noteq> ((ms r \<and> r \<noteq> k \<and> b r) \<and> A k p))"
    unfolding comb_def add_row_def by (rule par_cong) auto
  also have "\<dots> = (par K (\<lambda>r. ms r \<and> A r p) \<noteq> (?c \<and> A k p))"
    unfolding par_neq par_conj ..
  also have "\<dots> = par K (\<lambda>r. (ms r \<and> A r p) \<noteq> (r = k \<and> (?c \<and> A k p)))"
    unfolding par_neq par_single using assms by blast
  also have "\<dots> = comb K A (ms(k := (ms k \<noteq> ?c))) p"
    unfolding comb_def by (rule par_cong) auto
  finally show ?thesis .
qed

lemma rows_into_add_row:
  assumes "k < K" shows "rows_into K (add_row k b A) A"
  unfolding rows_into_def
proof (intro allI exI conjI impI)
  fix ms p
  show "comb K (add_row k b A) ms p = comb K A (ms(k := (ms k \<noteq> par K (\<lambda>r. ms r \<and> r \<noteq> k \<and> b r)))) p"
    by (rule comb_add_row [OF assms])
next
  fix ms assume some: "some_row K ms"
  show "some_row K (ms(k := (ms k \<noteq> par K (\<lambda>r. ms r \<and> r \<noteq> k \<and> b r))))"
  proof (cases "\<exists>r<K. r \<noteq> k \<and> ms r")
    case True
    then obtain r where "r < K" "r \<noteq> k" "ms r" by blast
    then show ?thesis unfolding some_row_def by (intro exI [of _ r]) simp
  next
    case False
    then have "ms k" using some unfolding some_row_def by metis
    moreover have "par K (\<lambda>r. ms r \<and> r \<noteq> k \<and> b r) = par K (\<lambda>r. False)"
      using False by (intro par_cong) auto
    ultimately show ?thesis unfolding some_row_def using assms by (intro exI [of _ k]) simp
  qed
qed

lemma add_row_twice: "add_row k b (add_row k b A) = A"
  by (rule ext)+ (auto simp: add_row_def)

lemma rows_from_add_row: "k < K \<Longrightarrow> rows_into K A (add_row k b A)"
  using rows_into_add_row [of k K b "add_row k b A"] by (simp add: add_row_twice)

section \<open>The bit-packed rows\<close>

definition bits_wf :: "Bits \<Rightarrow> bool" where
  "bits_wf b = (length (bw b) = 3)"

lemma bits_wf_empty [simp]: "bits_wf bits_empty"
  by (simp add: bits_wf_def bits_empty_def osd_WORDS_def)

lemma bits_wf_set [simp]: "bits_wf b \<Longrightarrow> bits_wf (bits_set i b)"
  by (simp add: bits_wf_def bits_set_def)

lemma bits_wf_xor [simp]: "bits_wf (xorRow a b)"
  by (simp add: bits_wf_def xorRow_def)

lemma get_empty [simp]: "i < osd_N \<Longrightarrow> bits_get bits_empty i = False"
  by (simp add: bits_get_def bits_empty_def osd_WORDS_def osd_N_def less_mult_imp_div_less)

lemma get_set:
  assumes "bits_wf b" and "i < osd_N" and "j < osd_N"
  shows "bits_get (bits_set i b) j = (j = i \<or> bits_get b j)"
proof -
  have d: "i div 64 < 3" using assms(2) by (simp add: osd_N_def less_mult_imp_div_less)
  have m: "i mod 64 < 64" by simp
  have e: "j = i" if "j div 64 = i div 64" "j mod 64 = i mod 64" using that by (metis div_mult_mod_eq)
  show ?thesis
    using assms(1) d m e by (auto simp: bits_get_def bits_set_def bits_wf_def nth_list_update bit_simps)
qed

lemma less_3_cases: "n < 3 \<Longrightarrow> n = 0 \<or> n = 1 \<or> n = (2 :: nat)"
  by auto

lemma get_xor: "j < osd_N \<Longrightarrow> bits_get (xorRow a b) j = (bits_get a j \<noteq> bits_get b j)"
proof -
  assume "j < osd_N"
  then have "j div 64 < 3" by (simp add: osd_N_def less_mult_imp_div_less)
  then show ?thesis
    using less_3_cases [of "j div 64"] by (auto simp: bits_get_def xorRow_def bit_xor_iff numeral_2_eq_2)
qed

text \<open>The matrix of a list of rows.\<close>

definition mat :: "Bits list \<Rightarrow> nat \<Rightarrow> nat \<Rightarrow> bool" where
  "mat rows r p = bits_get (rows ! r) p"

lemma fold_set_inv:
  assumes "\<forall>c\<in>set cs. c < osd_N" and "bits_wf b"
  shows "bits_wf (foldl (\<lambda>b c. if P c then bits_set c b else b) b cs) \<and>
     (\<forall>p<osd_N. bits_get (foldl (\<lambda>b c. if P c then bits_set c b else b) b cs) p
        = (bits_get b p \<or> (p \<in> set cs \<and> P p)))"
  using assms
proof (induction cs arbitrary: b)
  case (Cons c cs)
  show ?case using Cons.IH [of "if P c then bits_set c b else b"] Cons.prems by (auto simp: get_set)
qed simp

lemma get_osd_row:
  "p < osd_N \<Longrightarrow> bits_get (osd_row perm gen r) p = (gen ! (r * osd_N + perm ! p) \<noteq> 0)"
  using fold_set_inv [of "[0..<osd_N]" bits_empty "\<lambda>c. gen ! (r * osd_N + perm ! c) \<noteq> 0"]
  by (simp add: osd_row_def)

text \<open>Elimination, row by row.\<close>

lemma eliminate_eq:
  assumes "rank < length rows"
  shows "eliminate rank col rows =
    map (\<lambda>r. if r \<noteq> rank \<and> mat rows r col then xorRow (rows ! r) (rows ! rank) else rows ! r)
      [0..<length rows]"
proof -
  let ?step = "\<lambda>rs r. if r \<noteq> rank \<and> bits_get (rs ! r) col then rs[r := xorRow (rs ! r) (rs ! rank)] else rs"
  let ?row = "\<lambda>r. if r \<noteq> rank \<and> mat rows r col then xorRow (rows ! r) (rows ! rank) else rows ! r"
  have "foldl ?step rows [0..<n] = map ?row [0..<n] @ drop n rows" if "n \<le> length rows" for n
    using that
  proof (induction n)
    case (Suc n)
    have ih: "foldl ?step rows [0..<n] = map ?row [0..<n] @ drop n rows" using Suc by simp
    have d: "drop n rows = rows ! n # drop (Suc n) rows" using Suc.prems by (simp add: Cons_nth_drop_Suc)
    have r: "(map ?row [0..<n] @ drop n rows) ! rank = rows ! rank"
      using assms Suc.prems by (cases "rank < n") (simp_all add: nth_append)
    have n: "(map ?row [0..<n] @ drop n rows) ! n = rows ! n"
      using Suc.prems by (simp add: nth_append)
    show ?case
      using n r by (simp add: ih mat_def d list_update_append)
  qed simp
  from this [of "length rows"] show ?thesis by (simp add: eliminate_def)
qed

lemma length_eliminate [simp]: "rank < length rows \<Longrightarrow> length (eliminate rank col rows) = length rows"
  by (simp add: eliminate_eq)

lemma mat_eliminate:
  "rank < length rows \<Longrightarrow> r < length rows \<Longrightarrow> p < osd_N \<Longrightarrow>
     mat (eliminate rank col rows) r p = add_row rank (\<lambda>r. mat rows r col) (mat rows) r p"
  by (simp add: eliminate_eq mat_def add_row_def get_xor)

lemma length_list_swap [simp]: "length (list_swap i j xs) = length xs"
  by (simp add: list_swap_def)

lemma mat_swap:
  "i < length rows \<Longrightarrow> j < length rows \<Longrightarrow> r < length rows \<Longrightarrow>
     mat (list_swap i j rows) r = mat rows (swp i j r)"
  by (rule ext) (auto simp: mat_def list_swap_def swp_def nth_list_update)

section \<open>The reduction\<close>

text \<open>The state after the first \<open>c\<close> columns; \<open>rows0\<close> is the matrix the reduction started from.\<close>

definition rref_inv :: "nat \<Rightarrow> Bits list \<Rightarrow> nat \<Rightarrow> Bits list \<times> nat list \<Rightarrow> bool" where
  "rref_inv K rows0 c st =
     (let (rows, piv) = st
      in length rows = K \<and> length piv \<le> K \<and> (\<forall>i<length piv. piv ! i < c) \<and>
         rows_into K (mat rows) (mat rows0) \<and> rows_into K (mat rows0) (mat rows) \<and>
         (\<forall>i<length piv. \<forall>r<K. mat rows r (piv ! i) = (r = i)) \<and>
         (\<forall>r<K. \<forall>p<c. length piv \<le> r \<longrightarrow> length piv < K \<longrightarrow> \<not> mat rows r p))"

lemma rref_inv_start: "length rows = K \<Longrightarrow> rref_inv K rows 0 (rows, [])"
  by (simp add: rref_inv_def rows_into_refl)

lemma find_upt_Some:
  "find P [a..<b] = Some x \<Longrightarrow> P x \<and> a \<le> x \<and> x < b"
  by (auto simp: find_Some_iff)

lemma find_upt_None: "find P [a..<b] = None \<Longrightarrow> a \<le> x \<Longrightarrow> x < b \<Longrightarrow> \<not> P x"
  by (simp add: find_None_iff)

lemma rref_inv_step:
  assumes inv: "rref_inv K rows0 c st" and c: "c < osd_N"
  shows "rref_inv K rows0 (Suc c) (rref_col K st c)"
proof -
  obtain rows piv where st: "st = (rows, piv)" by (cases st)
  let ?k = "length piv"
  note I = inv [unfolded rref_inv_def st Let_def prod.case]
  have len: "length rows = K" using I by blast
  show ?thesis
  proof (cases "?k < K")
    case False
    then show ?thesis using I by (auto simp: rref_inv_def rref_col_def st Let_def less_Suc_eq)
  next
    case True
    show ?thesis
    proof (cases "find (\<lambda>r. bits_get (rows ! r) c) [?k..<K]")
      case None
      then have "\<not> mat rows r c" if "?k \<le> r" "r < K" for r
        using find_upt_None [OF None that] by (simp add: mat_def)
      then show ?thesis
        using I True None by (auto simp: rref_inv_def rref_col_def st Let_def less_Suc_eq)
    next
      case (Some sel)
      then have sel: "bits_get (rows ! sel) c" "?k \<le> sel" "sel < K"
        using find_upt_Some [OF Some] by auto
      define rows1 where "rows1 = list_swap ?k sel rows"
      define rows2 where "rows2 = eliminate ?k c rows1"
      have col: "rref_col K st c = (rows2, piv @ [c])"
        using True Some by (simp add: rref_col_def st rows1_def rows2_def Let_def)
      have len1: "length rows1 = K" and len2: "length rows2 = K"
        using True len by (simp_all add: rows1_def rows2_def)
      have m1: "mat rows1 r = mat rows (swp ?k sel r)" if "r < K" for r
        unfolding rows1_def using that True sel len by (intro mat_swap) simp_all
      have m2: "mat rows2 r p = (mat rows1 r p \<noteq> (r \<noteq> ?k \<and> mat rows1 r c \<and> mat rows1 ?k p))"
        if "r < K" "p < osd_N" for r p
        unfolding rows2_def using that True len1 by (subst mat_eliminate) (simp_all add: add_row_def)
      have e: "mat rows2 r p = add_row ?k (\<lambda>r. mat rows1 r c) (mat rows1) r p" if "r < K" "p < osd_N" for r p
        unfolding rows2_def using that True len1 by (intro mat_eliminate) simp_all
      have into: "rows_into K (mat rows2) (mat rows1)"
        using rows_into_trans [OF rows_into_cong rows_into_add_row [OF True]] e by blast
      have into': "rows_into K (mat rows1) (mat rows2)"
        using rows_into_trans [OF rows_from_add_row [OF True] rows_into_cong] e by blast
      have into1: "rows_into K (mat rows1) (mat rows)" "rows_into K (mat rows) (mat rows1)"
      proof -
        show "rows_into K (mat rows1) (mat rows)"
          by (rule rows_into_trans [OF rows_into_cong rows_into_swap [OF True sel(3)]]) (simp add: m1)
        have "rows_into K (\<lambda>r. mat rows1 (swp ?k sel r)) (mat rows1)"
          by (rule rows_into_swap [OF True sel(3)])
        moreover have "swp ?k sel r < K" if "r < K" for r using that True sel by (simp add: swp_def)
        ultimately show "rows_into K (mat rows) (mat rows1)"
          by (intro rows_into_trans [OF rows_into_cong, of K "mat rows" "\<lambda>r. mat rows1 (swp ?k sel r)"])
            (simp_all add: m1)
      qed
      have low: "\<not> mat rows1 r p" if "?k \<le> r" "r < K" "p < c" for r p
        using that I True sel by (auto simp: m1 swp_def)
      have k1: "mat rows1 ?k c" using sel True by (simp add: m1 swp_def mat_def)
      have piv1: "mat rows1 r (piv ! i) = (r = i)" if "i < ?k" "r < K" for i r
        using that I True sel by (auto simp: m1 swp_def)
      have pc: "piv ! i < c" if "i < ?k" for i using that I by blast
      have P: "mat rows2 r ((piv @ [c]) ! i) = (r = i)" if "i < Suc ?k" "r < K" for i r
      proof (cases "i < ?k")
        case True': True
        then have "\<not> mat rows1 ?k (piv ! i)" using low [of ?k "piv ! i"] True pc by simp
        then show ?thesis
          using True' that pc [OF True'] c piv1 [OF True' that(2)] by (simp add: nth_append m2)
      next
        case False
        then have "i = ?k" using that by simp
        then show ?thesis using that c k1 by (auto simp: m2)
      qed
      have Z: "\<not> mat rows2 r p" if "r < K" "p < Suc c" "Suc ?k \<le> r" for r p
        using that c low [of r p] low [of ?k p] k1 True by (cases "p = c") (auto simp: m2)
      show ?thesis
        unfolding rref_inv_def col Let_def prod.case
        using len2 True P Z pc I into into' into1
        by (auto simp: nth_append less_Suc_eq intro: rows_into_trans)
    qed
  qed
qed

lemma rref_inv_end:
  assumes "length rows = K" shows "rref_inv K rows osd_N (rref K rows)"
proof -
  have "rref_inv K rows n (foldl (rref_col K) (rows, []) [0..<n])" if "n \<le> osd_N" for n
    using that by (induction n) (simp_all add: rref_inv_start assms rref_inv_step)
  then show ?thesis unfolding rref_def by blast
qed

section \<open>The code, the column permutation, and candidates\<close>

text \<open>The generator in natural column order, its code, and the soft distance of a word.\<close>

definition gmat :: "u8 list \<Rightarrow> nat \<Rightarrow> nat \<Rightarrow> bool" where
  "gmat gen r p = (gen ! (r * osd_N + p) \<noteq> 0)"

definition osd_code :: "nat \<Rightarrow> u8 list \<Rightarrow> u8 list set" where
  "osd_code K gen = {xs. length xs = osd_N \<and>
     (\<exists>ms. \<forall>p<osd_N. xs ! p = byte_of_bool (comb K (gmat gen) ms p))}"

definition full_rank :: "nat \<Rightarrow> u8 list \<Rightarrow> bool" where
  "full_rank K gen = indep K (gmat gen)"

definition word_dist :: "f32 list \<Rightarrow> u8 list \<Rightarrow> f32" where
  "word_dist llr xs =
     foldl (\<lambda>d q. if (xs ! q \<noteq> 0) \<noteq> (0 < llr ! q) then fadd d \<bar>llr ! q\<bar> else d) 0 (osd_perm llr)"

lemma byte_of_bool_neq_0 [simp]: "(byte_of_bool b \<noteq> 0) = b"
  by (simp add: byte_of_bool_def)

lemma length_osd_perm [simp]: "length (osd_perm llr) = osd_N"
  by (simp add: osd_perm_def)

lemma set_osd_perm [simp]: "set (osd_perm llr) = {0..<osd_N}"
  by (simp add: osd_perm_def)

lemma distinct_osd_perm [simp]: "distinct (osd_perm llr)"
  by (simp add: osd_perm_def)

lemma osd_perm_less [simp]: "c < osd_N \<Longrightarrow> osd_perm llr ! c < osd_N"
  using nth_mem [of c "osd_perm llr"] by simp

lemma osd_perm_onto: "q < osd_N \<Longrightarrow> \<exists>c<osd_N. osd_perm llr ! c = q"
  by (metis atLeastLessThan_iff in_set_conv_nth le0 length_osd_perm set_osd_perm)

lemma osd_perm_inj: "c < osd_N \<Longrightarrow> d < osd_N \<Longrightarrow> osd_perm llr ! c = osd_perm llr ! d \<longleftrightarrow> c = d"
  by (simp add: nth_eq_iff_index_eq)

lemma osd_perm_all: "(\<forall>c<osd_N. P (osd_perm llr ! c)) \<longleftrightarrow> (\<forall>q<osd_N. P q)"
  by (metis osd_perm_less osd_perm_onto)

lemma length_osd_rows [simp]: "length (osd_rows perm K gen) = K"
  by (simp add: osd_rows_def)

lemma comb_osd_rows:
  "p < osd_N \<Longrightarrow> comb K (mat (osd_rows perm K gen)) ms p = comb K (gmat gen) ms (perm ! p)"
  unfolding comb_def by (rule par_cong) (simp add: mat_def osd_rows_def get_osd_row gmat_def)

lemma indep_osd_rows: "indep K (mat (osd_rows (osd_perm llr) K gen)) = full_rank K gen"
proof -
  have "(\<exists>p<osd_N. comb K (mat (osd_rows (osd_perm llr) K gen)) ms p) = (\<exists>p<osd_N. comb K (gmat gen) ms p)"
    for ms
    using osd_perm_all [of "\<lambda>q. \<not> comb K (gmat gen) ms q" llr] by (auto simp: comb_osd_rows)
  then show ?thesis by (simp add: indep_def full_rank_def)
qed

lemma get_osd_encode:
  assumes "p < osd_N"
  shows "bits_get (osd_encode rows yv) p = comb (length rows) (mat rows) (\<lambda>i. yv ! i) p"
proof -
  have "bits_get (foldl (\<lambda>out i. if yv ! i then xorRow out (rows ! i) else out) bits_empty [0..<n]) p
      = par n (\<lambda>i. yv ! i \<and> mat rows i p)" for n
    by (induction n) (auto simp: assms get_xor mat_def)
  then show ?thesis by (simp add: osd_encode_def comb_def)
qed

lemma unpermute_aux:
  assumes "n \<le> osd_N" and "length perm = osd_N" and "distinct perm" and "\<forall>c<osd_N. perm ! c < osd_N"
  shows "length (foldl (\<lambda>xhat c. xhat[perm ! c := f c]) (replicate osd_N 0) [0..<n]) = osd_N \<and>
    (\<forall>c<n. foldl (\<lambda>xhat c. xhat[perm ! c := f c]) (replicate osd_N 0) [0..<n] ! (perm ! c) = f c)"
  using assms by (induction n) (auto simp: less_Suc_eq nth_list_update nth_eq_iff_index_eq)

lemma length_unpermute [simp]: "length (osd_unpermute (osd_perm llr) b) = osd_N"
  using unpermute_aux [of osd_N "osd_perm llr" "\<lambda>c. byte_of_bool (bits_get b c)"]
  by (simp add: osd_unpermute_def)

lemma unpermute_nth:
  "c < osd_N \<Longrightarrow> osd_unpermute (osd_perm llr) b ! (osd_perm llr ! c) = byte_of_bool (bits_get b c)"
  using unpermute_aux [of osd_N "osd_perm llr" "\<lambda>c. byte_of_bool (bits_get b c)"]
  by (simp add: osd_unpermute_def)

text \<open>The soft distance of a candidate is the soft distance of the word it stands for.\<close>

definition osd_hd :: "f32 list \<Rightarrow> bool list" where
  "osd_hd llr = map (osd_hard llr (osd_perm llr)) [0..<osd_N]"

definition osd_rel :: "f32 list \<Rightarrow> f32 list" where
  "osd_rel llr = map (\<lambda>c. \<bar>llr ! (osd_perm llr ! c)\<bar>) [0..<osd_N]"

lemma softDist_word:
  assumes "\<forall>c<osd_N. bits_get b c = (xs ! (osd_perm llr ! c) \<noteq> 0)"
  shows "softDist (osd_hd llr) (osd_rel llr) b = word_dist llr xs"
proof -
  let ?f = "\<lambda>d q. if (xs ! q \<noteq> 0) \<noteq> (0 < llr ! q) then fadd d \<bar>llr ! q\<bar> else d"
  have "word_dist llr xs = foldl ?f 0 (map ((!) (osd_perm llr)) [0..<osd_N])"
    unfolding word_dist_def using map_nth [of "osd_perm llr"]
    by (intro arg_cong [where f = "foldl ?f 0"]) simp
  also have "\<dots> = foldl (\<lambda>d c. ?f d (osd_perm llr ! c)) 0 [0..<osd_N]"
    by (simp add: foldl_map)
  also have "\<dots> = softDist (osd_hd llr) (osd_rel llr) b"
    unfolding softDist_def by (rule foldl_cong) (simp_all add: assms osd_hd_def osd_rel_def osd_hard_def)
  finally show ?thesis by simp
qed

lemma softDist_unpermute:
  "softDist (osd_hd llr) (osd_rel llr) b = word_dist llr (osd_unpermute (osd_perm llr) b)"
  by (rule softDist_word) (simp add: unpermute_nth)

section \<open>The search\<close>

definition osd_patterns :: "int \<Rightarrow> bool list \<Rightarrow> nat \<Rightarrow> bool list list" where
  "osd_patterns order y K =
     (if order \<ge> 1 then map (\<lambda>i. flip i y) [0..<K] else []) @
     (if order \<ge> 2 then concat (map (\<lambda>i. map (\<lambda>j. flip j (flip i y)) [i + 1..<K]) [0..<K]) else [])"

lemma foldl_concat_map: "foldl f st (concat (map g xs)) = foldl (\<lambda>st x. foldl f st (g x)) st xs"
  by (induction xs arbitrary: st) simp_all

lemma osd_search_eq:
  "(let st1 = (if order \<ge> 1 then osd_order1 hdv rel rows y st else st)
    in if order \<ge> 2 then osd_order2 hdv rel rows y st1 else st1)
   = foldl (osd_try hdv rel rows) st (osd_patterns order y (length rows))"
  by (simp add: osd_patterns_def osd_order1_def osd_order2_def foldl_concat_map foldl_map)

lemma osd_try_le:
  "snd (osd_try hdv rel rows st yt) \<le> snd st"
  "snd (osd_try hdv rel rows st yt) \<le> softDist hdv rel (osd_encode rows yt)"
  by (simp_all add: osd_try_def Let_def)

lemma osd_fold_le: "snd (foldl (osd_try hdv rel rows) st pats) \<le> snd st"
proof (induction pats arbitrary: st)
  case (Cons yt pats)
  show ?case using order_trans [OF Cons.IH osd_try_le(1)] by simp
qed simp

lemma osd_fold_min:
  "yt \<in> set pats \<Longrightarrow>
     snd (foldl (osd_try hdv rel rows) st pats) \<le> softDist hdv rel (osd_encode rows yt)"
proof (induction pats arbitrary: st)
  case (Cons z pats)
  show ?case
  proof (cases "yt = z")
    case True
    then show ?thesis using order_trans [OF osd_fold_le osd_try_le(2)] by simp
  qed (use Cons in simp)
qed simp

lemma osd_fold_cand:
  assumes "fst st = osd_encode rows y" and "snd st = softDist hdv rel (fst st)"
  shows "\<exists>yt. fst (foldl (osd_try hdv rel rows) st pats) = osd_encode rows yt \<and>
     snd (foldl (osd_try hdv rel rows) st pats) = softDist hdv rel (osd_encode rows yt)"
  using assms
proof (induction pats arbitrary: st y)
  case (Cons yt pats)
  show ?case
    using Cons.IH [of "osd_try hdv rel rows st yt" yt] Cons.IH [of st y] Cons.prems
    by (auto simp: osd_try_def Let_def)
qed auto

section \<open>The decoder\<close>

text \<open>The reduced rows, the pivot columns and the hard decisions there, for a call.\<close>

definition osd_mrb :: "f32 list \<Rightarrow> nat \<Rightarrow> u8 list \<Rightarrow> Bits list \<times> nat list" where
  "osd_mrb llr K gen = rref K (osd_rows (osd_perm llr) K gen)"

definition osd_y :: "f32 list \<Rightarrow> nat \<Rightarrow> u8 list \<Rightarrow> bool list" where
  "osd_y llr K gen = map (\<lambda>i. osd_hard llr (osd_perm llr) (snd (osd_mrb llr K gen) ! i)) [0..<K]"

definition clamp_order :: "int \<Rightarrow> int" where
  "clamp_order order = min 2 (max 0 order)"

lemma osd_mrb_inv: "rref_inv K (osd_rows (osd_perm llr) K gen) osd_N (osd_mrb llr K gen)"
  unfolding osd_mrb_def by (rule rref_inv_end) simp

lemma length_osd_mrb [simp]: "length (fst (osd_mrb llr K gen)) = K"
  using osd_mrb_inv [of K llr gen] by (simp add: rref_inv_def split: prod.splits)

lemma osd_pivot_less: "i < length (snd (osd_mrb llr K gen)) \<Longrightarrow> snd (osd_mrb llr K gen) ! i < osd_N"
  using osd_mrb_inv [of K llr gen] by (simp add: rref_inv_def split: prod.splits)

lemma osd_pivot_unit:
  "i < length (snd (osd_mrb llr K gen)) \<Longrightarrow> r < K \<Longrightarrow>
     mat (fst (osd_mrb llr K gen)) r (snd (osd_mrb llr K gen) ! i) = (r = i)"
  using osd_mrb_inv [of K llr gen] by (simp add: rref_inv_def split: prod.splits)

text \<open>The candidate of a pattern and its distance; the whole search as one fold.\<close>

definition osd_search :: "f32 list \<Rightarrow> nat \<Rightarrow> u8 list \<Rightarrow> int \<Rightarrow> Bits \<times> f32" where
  "osd_search llr K gen order =
     (let rows = fst (osd_mrb llr K gen); y = osd_y llr K gen
      in foldl (osd_try (osd_hd llr) (osd_rel llr) rows)
           (osd_encode rows y, softDist (osd_hd llr) (osd_rel llr) (osd_encode rows y))
           (osd_patterns (clamp_order order) y K))"

lemma osd_decode_eq:
  "osd_decode_n174 llr K gen order =
    (if K < 1 \<or> K_MAX < K \<or> length (snd (osd_mrb llr K gen)) < K then None
     else Some (osd_unpermute (osd_perm llr) (fst (osd_search llr K gen order)),
                snd (osd_search llr K gen order)))"
proof -
  obtain rows piv where mrb: "osd_mrb llr K gen = (rows, piv)" by fastforce
  have len: "length rows = K" using length_osd_mrb [of llr K gen] mrb by simp
  have clamp: "(let ord = (if order < 0 then 0 else order) in if ord > 2 then 2 else ord) = clamp_order order"
    by (simp add: clamp_order_def Let_def)
  have y: "map (\<lambda>i. osd_hard llr (osd_perm llr) (piv ! i)) [0..<K] = osd_y llr K gen"
    by (simp add: osd_y_def mrb)
  note search = osd_search_eq [of "clamp_order order" "osd_hd llr" "osd_rel llr" rows "osd_y llr K gen",
      unfolded Let_def len]
  show ?thesis
    unfolding osd_decode_n174_def osd_search_def Let_def clamp [unfolded Let_def]
      osd_mrb_def [symmetric] mrb osd_hd_def [symmetric] osd_rel_def [symmetric]
      prod.case y fst_conv snd_conv search
    by simp
qed

lemma osd_full_rank: "full_rank K gen \<longleftrightarrow> \<not> length (snd (osd_mrb llr K gen)) < K"
proof -
  obtain rows piv where mrb: "osd_mrb llr K gen = (rows, piv)" by fastforce
  note I = osd_mrb_inv [of K llr gen, unfolded mrb rref_inv_def Let_def prod.case]
  have eqv: "indep K (mat rows) \<longleftrightarrow> full_rank K gen"
    using I rows_into_indep indep_osd_rows by metis
  have "indep K (mat rows)" if "length piv = K"
    unfolding indep_def
  proof (intro allI impI)
    fix ms assume "some_row K ms"
    then obtain i where i: "i < K" "ms i" unfolding some_row_def by blast
    have "comb K (mat rows) ms (piv ! i) = par K (\<lambda>r. r = i \<and> ms r)"
      unfolding comb_def using I that i(1) by (intro par_cong) auto
    then show "\<exists>p<osd_N. comb K (mat rows) ms p"
      using i that I by (intro exI [of _ "piv ! i"]) (simp add: par_single)
  qed
  moreover have "\<not> indep K (mat rows)" if "length piv < K"
  proof -
    have "\<not> comb K (mat rows) (\<lambda>r. r = length piv) p" if "p < osd_N" for p
      using I that \<open>length piv < K\<close> unfolding comb_def by (simp add: par_single)
    moreover have "some_row K (\<lambda>r. r = length piv)" using that by (simp add: some_row_def)
    ultimately show ?thesis unfolding indep_def by blast
  qed
  moreover have "length piv \<le> K" using I by blast
  ultimately show ?thesis using eqv mrb by (metis le_neq_implies_less less_irrefl snd_conv)
qed

lemma osd_pivots_full: "full_rank K gen \<Longrightarrow> length (snd (osd_mrb llr K gen)) = K"
  using osd_full_rank [of K gen llr] osd_mrb_inv [of K llr gen]
  by (auto simp: rref_inv_def split: prod.splits)

text \<open>
  C31. The decoder returns false exactly when the dimension is out of range or the generator's
  rows are linearly dependent.
\<close>

theorem osd_decode_None_iff:
  "osd_decode_n174 llr K gen order = None \<longleftrightarrow> \<not> (1 \<le> K \<and> K \<le> 91 \<and> full_rank K gen)"
  using osd_full_rank [of K gen llr] by (auto simp: osd_decode_eq K_MAX_def)

lemma comb_reduced:
  "\<exists>ms'. \<forall>p<osd_N. comb K (mat (fst (osd_mrb llr K gen))) ms p
     = comb K (gmat gen) ms' (osd_perm llr ! p)"
  "\<exists>ms'. \<forall>p<osd_N. comb K (gmat gen) ms (osd_perm llr ! p)
     = comb K (mat (fst (osd_mrb llr K gen))) ms' p"
proof -
  let ?R = "mat (fst (osd_mrb llr K gen))" and ?G = "mat (osd_rows (osd_perm llr) K gen)"
  have "rows_into K ?R ?G" "rows_into K ?G ?R"
    using osd_mrb_inv [of K llr gen] by (auto simp: rref_inv_def split: prod.splits)
  then obtain ms1 ms2 where "\<forall>p<osd_N. comb K ?R ms p = comb K ?G ms1 p"
    "\<forall>p<osd_N. comb K ?G ms p = comb K ?R ms2 p"
    unfolding rows_into_def by blast
  then show "\<exists>ms'. \<forall>p<osd_N. comb K ?R ms p = comb K (gmat gen) ms' (osd_perm llr ! p)"
    and "\<exists>ms'. \<forall>p<osd_N. comb K (gmat gen) ms (osd_perm llr ! p) = comb K ?R ms' p"
    by (auto simp: comb_osd_rows)
qed

lemma osd_sound:
  assumes "osd_decode_n174 llr K gen order = Some (xhat, d)"
  shows "xhat \<in> osd_code K gen \<and> d = word_dist llr xhat"
proof -
  let ?rows = "fst (osd_mrb llr K gen)" and ?y = "osd_y llr K gen"
  define st where "st = osd_search llr K gen order"
  have res: "xhat = osd_unpermute (osd_perm llr) (fst st)" "d = snd st"
    using assms by (auto simp: osd_decode_eq st_def split: if_splits)
  obtain yt where st: "fst st = osd_encode ?rows yt"
    "snd st = softDist (osd_hd llr) (osd_rel llr) (fst st)"
    using osd_fold_cand [of "(osd_encode ?rows ?y, softDist (osd_hd llr) (osd_rel llr) (osd_encode ?rows ?y))"
        ?rows ?y "osd_hd llr" "osd_rel llr" "osd_patterns (clamp_order order) ?y K"]
    by (auto simp: st_def osd_search_def Let_def)
  obtain ms where ms: "\<forall>p<osd_N. comb K (mat ?rows) (\<lambda>i. yt ! i) p = comb K (gmat gen) ms (osd_perm llr ! p)"
    using comb_reduced(1) by blast
  have "xhat ! (osd_perm llr ! c) = byte_of_bool (comb K (gmat gen) ms (osd_perm llr ! c))" if "c < osd_N" for c
    using that ms by (simp add: res st unpermute_nth get_osd_encode)
  then have "\<forall>p<osd_N. xhat ! p = byte_of_bool (comb K (gmat gen) ms p)"
    using osd_perm_all [of "\<lambda>p. xhat ! p = byte_of_bool (comb K (gmat gen) ms p)" llr] by blast
  then show ?thesis
    using st(2) softDist_unpermute by (auto simp: osd_code_def res)
qed

text \<open>
  C30. What the decoder returns is a codeword of the generator, of 174 entries, and the reported
  soft distance is the soft distance of that codeword.
\<close>

theorem osd_decode_sound:
  assumes "osd_decode_n174 llr K gen order = Some (xhat, d)"
  shows "xhat \<in> osd_code K gen \<and> d = word_dist llr xhat"
  using assms by (rule osd_sound)

section \<open>Optimality over the tested patterns\<close>

text \<open>
  The pivot positions where a word differs from the hard decisions of the received word: the
  errors the search has to undo.
\<close>

definition mrb_errors :: "f32 list \<Rightarrow> nat \<Rightarrow> u8 list \<Rightarrow> u8 list \<Rightarrow> nat set" where
  "mrb_errors llr K gen xs =
     {i. i < K \<and> (let q = osd_perm llr ! (snd (osd_mrb llr K gen) ! i) in (xs ! q \<noteq> 0) \<noteq> (0 < llr ! q))}"

lemma small_set_cases:
  assumes "finite E" and "card E \<le> 2"
  shows "E = {} \<or> (\<exists>i. E = {i}) \<or> (\<exists>i j. E = {i, j} \<and> i < (j :: nat))"
proof -
  have "card E = 0 \<or> card E = 1 \<or> card E = 2" using assms(2) by linarith
  moreover have "\<exists>i j. E = {i, j} \<and> i < j" if "card E = 2"
    using that unfolding card_2_iff by (metis insert_commute linorder_neqE_nat)
  ultimately show ?thesis using assms(1) by (auto simp: card_1_singleton_iff)
qed

text \<open>Each pattern of at most \<open>order\<close> flips is tested.\<close>

lemma osd_patterns_cover:
  assumes "E \<subseteq> {0..<K}" and "int (card E) \<le> order" and "order \<le> 2" and "length y = K"
  shows "map (\<lambda>i. y ! i \<noteq> (i \<in> E)) [0..<K] \<in> insert y (set (osd_patterns order y K))"
proof -
  have fin: "finite E" using assms(1) finite_subset by blast
  have flip1: "map (\<lambda>k. y ! k \<noteq> (k = i)) [0..<K] = flip i y" if "i < K" for i
    using that assms(4) by (intro nth_equalityI) (auto simp: flip_def nth_list_update)
  have flip2: "map (\<lambda>k. y ! k \<noteq> (k = i \<or> k = j)) [0..<K] = flip j (flip i y)" if "i < j" "j < K" for i j
    using that assms(4) by (intro nth_equalityI) (auto simp: flip_def nth_list_update)
  have "card E \<le> 2" using assms(2,3) by simp
  with small_set_cases [OF fin] consider "E = {}" | i where "E = {i}" | i j where "E = {i, j}" "i < j" by blast
  then show ?thesis
  proof cases
    case 1
    then show ?thesis using assms(4) map_nth [of y] by simp
  next
    case (2 i)
    then have "i < K" "1 \<le> order" using assms(1,2) by auto
    then show ?thesis using 2 flip1 by (auto simp: osd_patterns_def)
  next
    case (3 i j)
    then have "j < K" "2 \<le> order" using assms(1,2) by auto
    then have "flip j (flip i y) \<in> set (osd_patterns order y K)"
      using 3 by (auto simp: osd_patterns_def intro!: bexI [of _ i])
    then show ?thesis using 3 flip2 [OF 3(2) \<open>j < K\<close>] by simp
  qed
qed

text \<open>The codeword with given pivot bits is the candidate of that pattern.\<close>

lemma osd_candidate:
  assumes "xs \<in> osd_code K gen" and "length (snd (osd_mrb llr K gen)) = K" and "length yt = K"
    and "\<forall>i<K. yt ! i = (xs ! (osd_perm llr ! (snd (osd_mrb llr K gen) ! i)) \<noteq> 0)"
  shows "softDist (osd_hd llr) (osd_rel llr) (osd_encode (fst (osd_mrb llr K gen)) yt) = word_dist llr xs"
    and "osd_unpermute (osd_perm llr) (osd_encode (fst (osd_mrb llr K gen)) yt) = xs"
proof -
  let ?R = "fst (osd_mrb llr K gen)" and ?piv = "snd (osd_mrb llr K gen)"
  obtain ms0 where xs: "length xs = osd_N" "\<forall>p<osd_N. xs ! p = byte_of_bool (comb K (gmat gen) ms0 p)"
    using assms(1) unfolding osd_code_def by blast
  obtain ms where ms: "\<forall>p<osd_N. comb K (gmat gen) ms0 (osd_perm llr ! p) = comb K (mat ?R) ms p"
    using comb_reduced(2) by blast
  have "yt ! i = ms i" if "i < K" for i
  proof -
    have "yt ! i = comb K (mat ?R) ms (?piv ! i)"
      using that assms(2,4) ms xs osd_pivot_less [of i llr K gen] by simp
    also have "\<dots> = par K (\<lambda>r. r = i \<and> ms r)"
      unfolding comb_def using osd_pivot_unit [of i llr K gen] that assms(2) by (intro par_cong) auto
    finally show ?thesis using that by (simp add: par_single)
  qed
  then have "comb K (mat ?R) (\<lambda>i. yt ! i) p = comb K (mat ?R) ms p" for p
    unfolding comb_def by (intro par_cong) simp
  then have bits: "\<forall>c<osd_N. bits_get (osd_encode ?R yt) c = (xs ! (osd_perm llr ! c) \<noteq> 0)"
    using ms xs by (simp add: get_osd_encode)
  then show "softDist (osd_hd llr) (osd_rel llr) (osd_encode ?R yt) = word_dist llr xs"
    by (rule softDist_word)
  have "\<forall>c<osd_N. osd_unpermute (osd_perm llr) (osd_encode ?R yt) ! (osd_perm llr ! c) = xs ! (osd_perm llr ! c)"
    using bits xs by (simp add: unpermute_nth)
  then show "osd_unpermute (osd_perm llr) (osd_encode ?R yt) = xs"
    using xs osd_perm_all [of "\<lambda>q. osd_unpermute (osd_perm llr) (osd_encode ?R yt) ! q = xs ! q" llr]
    by (intro nth_equalityI) simp_all
qed

lemma osd_search_covers:
  assumes "xs \<in> osd_code K gen" and "length (snd (osd_mrb llr K gen)) = K"
    and "int (card (mrb_errors llr K gen xs)) \<le> clamp_order order"
  shows "snd (osd_search llr K gen order) \<le> word_dist llr xs"
proof -
  let ?R = "fst (osd_mrb llr K gen)" and ?y = "osd_y llr K gen" and ?E = "mrb_errors llr K gen xs"
  let ?yt = "map (\<lambda>i. ?y ! i \<noteq> (i \<in> ?E)) [0..<K]"
  have "?yt \<in> insert ?y (set (osd_patterns (clamp_order order) ?y K))"
    using assms(3) by (intro osd_patterns_cover) (auto simp: mrb_errors_def clamp_order_def osd_y_def)
  then have "snd (osd_search llr K gen order) \<le> softDist (osd_hd llr) (osd_rel llr) (osd_encode ?R ?yt)"
    using osd_fold_le [of "osd_hd llr" "osd_rel llr" ?R "(osd_encode ?R ?y, softDist (osd_hd llr) (osd_rel llr) (osd_encode ?R ?y))"]
      osd_fold_min [of ?yt _ "osd_hd llr" "osd_rel llr" ?R]
    unfolding osd_search_def Let_def by fastforce
  also have "\<dots> = word_dist llr xs"
    by (rule osd_candidate(1) [OF assms(1,2)]) (auto simp: mrb_errors_def osd_y_def osd_hard_def Let_def)
  finally show ?thesis .
qed

text \<open>
  C8. No codeword that differs from the hard decisions in at most \<open>order\<close> (clamped to 0, 1, 2)
  most-reliable basis positions is closer, in soft distance, than the codeword returned.
\<close>

theorem osd_decode_optimal:
  assumes "osd_decode_n174 llr K gen order = Some (xhat, d)" and "xs \<in> osd_code K gen"
    and "int (card (mrb_errors llr K gen xs)) \<le> min 2 (max 0 order)"
  shows "d \<le> word_dist llr xs"
proof -
  have "full_rank K gen" using assms(1) osd_decode_eq osd_full_rank by (metis option.distinct(1))
  then have "length (snd (osd_mrb llr K gen)) = K" by (rule osd_pivots_full)
  then show ?thesis
    using osd_search_covers [OF assms(2)] assms(1,3) by (auto simp: osd_decode_eq clamp_order_def split: if_splits)
qed

section \<open>Error-free words\<close>

lemma softDist_nonneg: "0 \<le> softDist hdv (osd_rel llr) c"
proof -
  have "0 \<le> foldl (\<lambda>d p. if bits_get c p \<noteq> hdv ! p then fadd d (osd_rel llr ! p) else d) 0 [0..<osd_N]"
    by (rule foldl_inv [where P = "\<lambda>d. 0 \<le> d"]) (auto simp: osd_rel_def intro: fadd_nonneg)
  then show ?thesis by (simp add: softDist_def)
qed

lemma osd_fold_zero:
  assumes "snd st = 0" and "\<And>c. 0 \<le> softDist hdv rel c"
  shows "foldl (osd_try hdv rel rows) st pats = st"
proof -
  have "\<not> softDist hdv rel c < 0" for c using assms(2) by (simp add: not_less)
  then show ?thesis using assms(1) by (induction pats) (simp_all add: osd_try_def Let_def)
qed

lemma word_dist_error_free:
  assumes "\<forall>p<osd_N. (xs ! p \<noteq> 0) = (0 < llr ! p)" shows "word_dist llr xs = 0"
proof -
  have "foldl (\<lambda>d q. if (xs ! q \<noteq> 0) \<noteq> (0 < llr ! q) then fadd d \<bar>llr ! q\<bar> else d) 0 qs = 0"
    if "set qs \<subseteq> {0..<osd_N}" for qs
    using that assms by (induction qs) auto
  then show ?thesis by (simp add: word_dist_def)
qed

lemma osd_error_free:
  assumes "1 \<le> K" and "K \<le> 91" and "full_rank K gen" and "xs \<in> osd_code K gen"
    and hard: "\<forall>p<174. (0 < llr ! p) = (xs ! p \<noteq> 0)"
  shows "osd_decode_n174 llr K gen order = Some (xs, 0)"
proof -
  have len: "length (snd (osd_mrb llr K gen)) = K"
    using assms(3) by (rule osd_pivots_full)
  have y: "\<forall>i<K. osd_y llr K gen ! i = (xs ! (osd_perm llr ! (snd (osd_mrb llr K gen) ! i)) \<noteq> 0)"
    using hard len osd_pivot_less [of _ llr K gen] osd_perm_less [of _ llr]
    by (simp add: osd_y_def osd_hard_def osd_N_def)
  have "length (osd_y llr K gen) = K" by (simp add: osd_y_def)
  note cand = osd_candidate [OF assms(4) len this y]
  have "word_dist llr xs = 0"
    by (rule word_dist_error_free) (use hard in \<open>simp add: osd_N_def\<close>)
  with cand(1) have d0: "softDist (osd_hd llr) (osd_rel llr) (osd_encode (fst (osd_mrb llr K gen)) (osd_y llr K gen)) = 0"
    by simp
  have "osd_search llr K gen order = (osd_encode (fst (osd_mrb llr K gen)) (osd_y llr K gen), 0)"
    unfolding osd_search_def Let_def d0 by (rule osd_fold_zero) (simp_all add: softDist_nonneg)
  then show ?thesis
    using assms(1,2) len cand(2) by (simp add: osd_decode_eq K_MAX_def)
qed

text \<open>
  A received word whose hard decisions already form a codeword is decoded to that codeword,
  at distance 0, for every order.
\<close>

theorem osd_decode_error_free:
  assumes "1 \<le> K" and "K \<le> 91" and "full_rank K gen" and "xs \<in> osd_code K gen"
    and "\<forall>p<174. (0 < llr ! p) = (xs ! p \<noteq> 0)"
  shows "osd_decode_n174 llr K gen order = Some (xs, 0)"
  using assms by (rule osd_error_free)

text \<open>A concrete code for the witnesses: the repetition code of length 174.\<close>

definition rep_gen :: "u8 list" where "rep_gen = replicate 174 1"

lemma rep_full_rank: "full_rank 1 rep_gen"
  unfolding full_rank_def indep_def
proof (intro allI impI)
  fix ms assume "some_row 1 ms"
  then show "\<exists>p<osd_N. comb 1 (gmat rep_gen) ms p"
    by (intro exI [of _ 0]) (simp add: some_row_def osd_N_def comb_def gmat_def rep_gen_def)
qed

lemma rep_codeword: "rep_gen \<in> osd_code 1 rep_gen"
  unfolding osd_code_def
  by (intro CollectI conjI exI [of _ "\<lambda>r. True"])
    (simp_all add: rep_gen_def osd_N_def comb_def gmat_def byte_of_bool_def)

lemma rep_decode: "osd_decode_n174 (replicate 174 1) 1 rep_gen 2 = Some (rep_gen, 0)"
  by (rule osd_error_free [OF _ _ rep_full_rank rep_codeword]) (simp_all add: rep_gen_def)

theorem osd_decode_error_free_witness:
  "osd_decode_n174 (replicate 174 3) 1 rep_gen 1 = Some (rep_gen, 0)"
  by (rule osd_decode_error_free [OF _ _ rep_full_rank rep_codeword]) (simp_all add: rep_gen_def)

theorem osd_decode_sound_witness:
  "rep_gen \<in> osd_code 1 rep_gen \<and> 0 = word_dist (replicate 174 1) rep_gen"
  by (rule osd_decode_sound [OF rep_decode])

theorem osd_decode_optimal_witness: "(0 :: rat) \<le> word_dist (replicate 174 1) rep_gen"
proof (rule osd_decode_optimal [OF rep_decode rep_codeword])
  have "mrb_errors (replicate 174 1) 1 rep_gen rep_gen = {}"
    using osd_pivot_less [of 0 "replicate 174 1" 1 rep_gen] osd_full_rank [of 1 rep_gen "replicate 174 1"]
      rep_full_rank osd_perm_less [of _ "replicate 174 1"]
    by (auto simp: mrb_errors_def rep_gen_def osd_N_def Let_def)
  then show "int (card (mrb_errors (replicate 174 1) 1 rep_gen rep_gen)) \<le> min 2 (max 0 2)" by simp
qed

section \<open>The FT8 generator\<close>

lemma length_ft8_gen_row [simp]: "length (ft8_gen_row ldpc m) = osd_N"
proof -
  have "length (foldl (\<lambda>row i. row[FTX_LDPC_K + i := f i]) xs is) = length xs"
    for f :: "nat \<Rightarrow> u8" and xs and "is" :: "nat list"
    by (induction "is" arbitrary: xs) simp_all
  then show ?thesis by (simp add: ft8_gen_row_def)
qed

lemma ft8_gen_row_id: "m < 91 \<Longrightarrow> p < 91 \<Longrightarrow> ft8_gen_row ldpc m ! p = (if p = m then 1 else 0)"
proof -
  assume "m < 91" "p < 91"
  moreover have "foldl (\<lambda>row i. row[FTX_LDPC_K + i := f i]) xs is ! p = xs ! p"
    for f :: "nat \<Rightarrow> u8" and xs and "is" :: "nat list"
    using \<open>p < 91\<close> by (induction "is" arbitrary: xs) (simp_all add: FTX_LDPC_K_def)
  ultimately show ?thesis by (simp add: ft8_gen_row_def osd_N_def nth_list_update)
qed

lemma ft8_full_rank: "full_rank FTX_LDPC_K (build_generator ldpc)"
  unfolding full_rank_def indep_def
proof (intro allI impI)
  fix ms assume "some_row FTX_LDPC_K ms"
  then obtain i where i: "i < 91" "ms i" by (auto simp: some_row_def FTX_LDPC_K_def)
  have "gmat (build_generator ldpc) r i = (r = i)" if "r < 91" for r
    unfolding gmat_def build_generator_def FTX_LDPC_K_def
    using that i(1) nth_concat_rows [of 91 "ft8_gen_row ldpc" osd_N r i] ft8_gen_row_id [of r i ldpc]
    by (simp add: osd_N_def)
  then have "comb FTX_LDPC_K (gmat (build_generator ldpc)) ms i = par 91 (\<lambda>r. r = i \<and> ms r)"
    unfolding comb_def FTX_LDPC_K_def by (intro par_cong) auto
  then show "\<exists>p<osd_N. comb FTX_LDPC_K (gmat (build_generator ldpc)) ms p"
    using i by (intro exI [of _ i]) (simp add: par_single osd_N_def)
qed

text \<open>
  With the systematic generator built from any packed parity table, FT8 ordered-statistics
  decoding always returns a codeword of that generator (the rank test never fails).
\<close>

theorem ft8_osd_decode_total:
  "\<exists>xhat d. ft8_osd_decode ldpc llr order = Some (xhat, d) \<and> xhat \<in> osd_code 91 (build_generator ldpc)"
proof -
  have "length (snd (osd_mrb llr FTX_LDPC_K (build_generator ldpc))) = FTX_LDPC_K"
    using ft8_full_rank by (rule osd_pivots_full)
  then obtain xhat d where "ft8_osd_decode ldpc llr order = Some (xhat, d)"
    by (simp add: ft8_osd_decode_def osd_decode_eq FTX_LDPC_K_def K_MAX_def)
  then show ?thesis
    using osd_sound [of llr FTX_LDPC_K "build_generator ldpc" order xhat d]
    by (simp add: ft8_osd_decode_def FTX_LDPC_K_def)
qed

end
