(* ===== verification/BandMap.thy ===== *)
theory BandMap
  imports Float32
begin

text \<open>
  The band layout and the conversion of composite FFT bins to radio frequency
  (\<open>gm/hf/hf_bands.h\<close>, \<open>gm/hf/cw_bands.h\<close>, \<open>gm/hf/band_map.cc\<close>).  The HF channelizer packs the
  FT8/JS8 windows of the wideband spectrum side by side into one composite spectrum; these
  functions go back from a bin of the composite to the band and the frequency.  Floats and
  doubles are rounded as IEEE 754 prescribes; the \<open>static bool\<close> guard of \<open>init_band_map\<close> only
  avoids recomputing a constant table, which is a constant here.
\<close>

section \<open>Band tables\<close>

record hf_band =
  wb_start :: u32
  wb_end :: u32
  bw :: u32
  hf_name :: string
  ft8_dial_bin :: u32
  js8_dial_bin :: u32

definition hfb :: "u32 \<Rightarrow> u32 \<Rightarrow> u32 \<Rightarrow> string \<Rightarrow> u32 \<Rightarrow> u32 \<Rightarrow> hf_band" where
  "hfb s e b n f j =
     \<lparr>wb_start = s, wb_end = e, bw = b, hf_name = n, ft8_dial_bin = f, js8_dial_bin = j\<rparr>"

definition kHFBands :: "hf_band list" where
  "kHFBands =
    [hfb 18390 18460 70 ''160m'' 18400 18420,
     hfb 35720 35820 100 ''80m'' 35730 35780,
     hfb 53560 53740 180 ''60m'' 53570 53570,
     hfb 70680 70820 140 ''40m'' 70740 70780,
     hfb 71090 71160 70 ''40m-2'' 71120 71120,
     hfb 101290 101420 130 ''30m'' 101360 101300,
     hfb 140700 141000 300 ''20m'' 140740 140780,
     hfb 180700 181130 430 ''17m'' 181000 181040,
     hfb 210720 210950 230 ''15m'' 210740 210780,
     hfb 249140 249310 170 ''12m'' 249150 249220,
     hfb 280730 281000 270 ''10m'' 280740 280780,
     hfb 503110 503200 90 ''6m'' 503130 503180]"

definition kNumHFBands :: nat where "kNumHFBands = length kHFBands"

record cw_band =
  cw_start :: u32
  cw_end :: u32
  cw_bw :: u32
  cw_name :: string

definition cwb :: "u32 \<Rightarrow> u32 \<Rightarrow> u32 \<Rightarrow> string \<Rightarrow> cw_band" where
  "cwb s e b n = \<lparr>cw_start = s, cw_end = e, cw_bw = b, cw_name = n\<rparr>"

definition kCWBands :: "cw_band list" where
  "kCWBands =
    [cwb 18000 18400 400 ''160m'',
     cwb 35000 35600 600 ''80m'',
     cwb 70000 70500 500 ''40m'',
     cwb 101000 101300 300 ''30m'',
     cwb 140000 140700 700 ''20m'',
     cwb 180680 180980 300 ''17m'',
     cwb 210000 210900 900 ''15m'',
     cwb 248900 249200 300 ''12m'',
     cwb 280000 280700 700 ''10m'']"

definition kNumCWBands :: nat where "kNumCWBands = length kCWBands"

definition kCWCompositeFFT :: u32 where "kCWCompositeFFT = 8192"

section \<open>The band map\<close>

definition kIfftSize :: int where "kIfftSize = 4096"
definition kFt8FftSize :: int where "kFt8FftSize = 65536"
definition kWidebandFftSize :: int where "kWidebandFftSize = 1400000"
definition kWbSampleRate :: f32 where "kWbSampleRate = 140000000"

record band_slot =
  ifft_start :: int
  ifft_end :: int
  bs_wb_start :: int

fun fill_band_map :: "int \<Rightarrow> hf_band list \<Rightarrow> band_slot list" where
  "fill_band_map offset [] = []"
| "fill_band_map offset (b # bs) =
     \<lparr>ifft_start = offset, ifft_end = offset + sint (bw b), bs_wb_start = sint (wb_start b)\<rparr>
       # fill_band_map (offset + sint (bw b)) bs"

definition kBandMap :: "band_slot list" where "kBandMap = fill_band_map 0 kHFBands"

text \<open>\<open>roundf\<close> rounds halfway cases away from zero.\<close>

definition roundf :: "f32 \<Rightarrow> int" where
  "roundf x = (if x < 0 then - \<lfloor>- x + 1 / 2\<rfloor> else \<lfloor>x + 1 / 2\<rfloor>)"

definition band_map_ifft_bin :: "int \<Rightarrow> int \<Rightarrow> int" where
  "band_map_ifft_bin freq_offset rfft_size =
     (let b = roundf (fdiv (fmul (r32 (of_int freq_offset)) (r32 (of_int kIfftSize))) (r32 (of_int rfft_size)))
      in if b < 0 then b + kIfftSize else b)"

text \<open>The loops over \<open>kBandMap\<close> stop at the first slot that holds the bin.\<close>

fun find_slot :: "int \<Rightarrow> band_slot list \<Rightarrow> (nat \<times> band_slot) option" where
  "find_slot b [] = None"
| "find_slot b (s # ss) =
     (if ifft_start s \<le> b \<and> b < ifft_end s then Some (0, s)
      else map_option (\<lambda>(i, t). (Suc i, t)) (find_slot b ss))"

definition composite_bin_to_rf_hz :: "int \<Rightarrow> int \<Rightarrow> f32" where
  "composite_bin_to_rf_hz freq_offset rfft_size =
     (let pos0 = ddiv (dmul (r64 (of_int freq_offset)) (r64 (of_int kIfftSize))) (r64 (of_int rfft_size));
          bin0 = \<lfloor>pos0\<rfloor>;
          (ifft_bin, ifft_pos) = (if bin0 < 0 then (bin0 + kIfftSize, dadd pos0 (r64 (of_int kIfftSize)))
                                  else (bin0, pos0))
      in case find_slot ifft_bin kBandMap of
           Some (_, s) \<Rightarrow>
             (let wb_pos = dadd (of_int (bs_wb_start s)) (dsub ifft_pos (of_int (ifft_start s)))
              in r32 (ddiv (dmul wb_pos kWbSampleRate) (of_int kWidebandFftSize)))
         | None \<Rightarrow> r32 (of_int freq_offset))"

definition composite_bin_to_band_idx :: "int \<Rightarrow> int \<Rightarrow> int" where
  "composite_bin_to_band_idx freq_offset rfft_size =
     (case find_slot (band_map_ifft_bin freq_offset rfft_size) kBandMap of
        Some (i, _) \<Rightarrow> int i
      | None \<Rightarrow> -1)"

section \<open>The packed table\<close>

definition bslot :: "int \<Rightarrow> int \<Rightarrow> int \<Rightarrow> band_slot" where
  "bslot s e w = \<lparr>ifft_start = s, ifft_end = e, bs_wb_start = w\<rparr>"

lemma kBandMap_table:
  "kBandMap =
     [bslot 0 70 18390, bslot 70 170 35720, bslot 170 350 53560, bslot 350 490 70680,
      bslot 490 560 71090, bslot 560 690 101290, bslot 690 990 140700, bslot 990 1420 180700,
      bslot 1420 1650 210720, bslot 1650 1820 249140, bslot 1820 2090 280730, bslot 2090 2180 503110]"
  by code_simp

lemma bslot_sel [simp]:
  "ifft_start (bslot s e w) = s" "ifft_end (bslot s e w) = e" "bs_wb_start (bslot s e w) = w"
  by (simp_all add: bslot_def)

lemma length_kBandMap [simp]: "length kBandMap = 12"
  by (simp add: kBandMap_table)

definition packed :: "band_slot list \<Rightarrow> bool" where
  "packed ss \<longleftrightarrow> sorted_wrt (\<lambda>s t. ifft_end s \<le> ifft_start t) ss"

lemma kBandMap_packed: "packed kBandMap"
  by (simp add: packed_def kBandMap_table)

lemma find_slot_packed:
  assumes "packed ss" and "i < length ss" and "ifft_start (ss ! i) \<le> b" and "b < ifft_end (ss ! i)"
  shows "find_slot b ss = Some (i, ss ! i)"
  using assms
proof (induction ss arbitrary: i)
  case (Cons s ss)
  show ?case
  proof (cases i)
    case 0
    then show ?thesis using Cons.prems by simp
  next
    case (Suc j)
    then have "ifft_end s \<le> ifft_start (ss ! j)" using Cons.prems by (simp add: packed_def)
    then have "\<not> b < ifft_end s" using Cons.prems(3) Suc by simp
    then show ?thesis using Cons Suc by (simp add: packed_def)
  qed
qed simp

lemma kBandMap_slot:
  assumes "i < 12"
  shows "0 \<le> ifft_start (kBandMap ! i)" and "ifft_start (kBandMap ! i) < ifft_end (kBandMap ! i)"
    and "ifft_end (kBandMap ! i) \<le> 2180" and "0 \<le> bs_wb_start (kBandMap ! i)"
    and "bs_wb_start (kBandMap ! i) + (ifft_end (kBandMap ! i) - ifft_start (kBandMap ! i)) \<le> 503200"
proof -
  have "\<forall>s\<in>set kBandMap. 0 \<le> ifft_start s \<and> ifft_start s < ifft_end s \<and> ifft_end s \<le> 2180 \<and>
          0 \<le> bs_wb_start s \<and> bs_wb_start s + (ifft_end s - ifft_start s) \<le> 503200"
    by (simp add: kBandMap_table)
  then show "0 \<le> ifft_start (kBandMap ! i)" "ifft_start (kBandMap ! i) < ifft_end (kBandMap ! i)"
    "ifft_end (kBandMap ! i) \<le> 2180" "0 \<le> bs_wb_start (kBandMap ! i)"
    "bs_wb_start (kBandMap ! i) + (ifft_end (kBandMap ! i) - ifft_start (kBandMap ! i)) \<le> 503200"
    using assms by (metis length_kBandMap nth_mem)+
qed

lemma kBandMap_next: "i < 11 \<Longrightarrow> ifft_start (kBandMap ! Suc i) = ifft_end (kBandMap ! i)"
  by (auto simp: kBandMap_table less_Suc_eq numeral_eq_Suc)

lemma kBandMap_covers:
  assumes "0 \<le> b" and "b < 2180"
  shows "\<exists>i<12. ifft_start (kBandMap ! i) \<le> b \<and> b < ifft_end (kBandMap ! i)"
proof -
  have "\<exists>s\<in>set kBandMap. ifft_start s \<le> b \<and> b < ifft_end s"
    using assms by (simp add: kBandMap_table) linarith
  then show ?thesis by (metis in_set_conv_nth length_kBandMap)
qed
section \<open>The normal grid: 65536 points, 6.25 Hz per bin\<close>

lemma r64_sixteenth:
  assumes "\<bar>k\<bar> < 2 ^ 53" shows "r64 (of_int k / 16) = of_int k / 16"
  unfolding r64_def
proof (rule fp_round_exact [where n = k and k = "-4"])
  show "(of_int k / 16 :: rat) = of_int k * 2 powi - 4"
    by (simp add: power_int_def field_simps)
qed (use assms in simp_all)

lemma ifft_pos_normal:
  assumes "\<bar>fo\<bar> < 2 ^ 31"
  shows "ddiv (dmul (r64 (of_int fo)) (r64 (of_int kIfftSize))) (r64 (of_int 65536)) = of_int fo / 16"
proof -
  have "dmul (r64 (of_int fo)) (r64 (of_int kIfftSize)) = r64 (of_int (fo * 4096))"
    using assms r64_int [of fo] r64_int [of 4096] by (simp add: dmul_def kIfftSize_def)
  also have "\<dots> = of_int (fo * 4096)" using assms by (intro r64_int) simp
  finally show ?thesis using assms r64_sixteenth [of fo] r64_int [of 65536] by (simp add: ddiv_def)
qed

lemma floor_sixteenth: "\<lfloor>(of_int fo :: rat) / 16\<rfloor> = fo div 16"
  using floor_divide_of_int_eq [of fo 16] by simp

lemma rf_of_sixteenths:
  assumes "0 \<le> k" and "k < 2 ^ 23"
  shows "ddiv (dmul (of_int k / 16) kWbSampleRate) (of_int kWidebandFftSize) = of_int (25 * k) / 4"
proof -
  have "dmul (of_int k / 16) kWbSampleRate = r64 (of_int (8750000 * k))"
    by (simp add: dmul_def kWbSampleRate_def)
  also have "\<dots> = of_int (8750000 * k)" using assms by (intro r64_int) simp
  finally have "ddiv (dmul (of_int k / 16) kWbSampleRate) (of_int kWidebandFftSize)
      = r64 (of_int (100 * k) / 16)"
    by (simp add: ddiv_def kWidebandFftSize_def)
  also have "\<dots> = of_int (100 * k) / 16" using assms by (intro r64_sixteenth) simp
  finally show ?thesis by simp
qed

text \<open>The exact frequency of composite bin \<open>fo\<close> in slot \<open>s\<close>, in Hz.\<close>

definition slot_hz :: "band_slot \<Rightarrow> int \<Rightarrow> rat" where
  "slot_hz s fo = 100 * of_int (bs_wb_start s) + of_int (fo - 16 * ifft_start s) * 25 / 4"

lemma rf_hz_normal:
  assumes i: "i < 12"
    and lo: "16 * ifft_start (kBandMap ! i) \<le> fo" and hi: "fo < 16 * ifft_end (kBandMap ! i)"
  shows "composite_bin_to_rf_hz fo 65536 = r32 (slot_hz (kBandMap ! i) fo)"
proof -
  let ?s = "kBandMap ! i"
  note b = kBandMap_slot [OF i]
  have fo: "0 \<le> fo" "fo < 34880" using b lo hi by linarith+
  have bin: "ifft_start ?s \<le> fo div 16" "fo div 16 < ifft_end ?s" "0 \<le> fo div 16" using lo hi fo by auto
  have find: "find_slot (fo div 16) kBandMap = Some (i, ?s)"
    by (rule find_slot_packed) (use i bin kBandMap_packed in auto)
  define k where "k = 16 * bs_wb_start ?s + (fo - 16 * ifft_start ?s)"
  have "k \<le> 16 * 503200" "0 \<le> k" using b lo hi unfolding k_def by linarith+
  then have k: "0 \<le> k" "k < 2 ^ 23" by simp_all
  have sub: "dsub (of_int fo / 16) (of_int (ifft_start ?s)) = of_int (fo - 16 * ifft_start ?s) / 16"
    unfolding dsub_def using r64_sixteenth [of "fo - 16 * ifft_start ?s"] b lo hi
    by (simp add: diff_divide_distrib)
  have add: "dadd (of_int (bs_wb_start ?s)) (of_int (fo - 16 * ifft_start ?s) / 16) = of_int k / 16"
  proof -
    have "(of_int (bs_wb_start ?s) :: rat) + of_int (fo - 16 * ifft_start ?s) / 16 = of_int k / 16"
      by (simp add: k_def field_simps)
    moreover have "r64 (of_int k / 16) = of_int k / 16" using k by (intro r64_sixteenth) simp
    ultimately show ?thesis unfolding dadd_def by (simp only:)
  qed
  have "composite_bin_to_rf_hz fo 65536
      = r32 (ddiv (dmul (of_int k / 16) kWbSampleRate) (of_int kWidebandFftSize))"
  proof -
    have pos: "ddiv (dmul (r64 (of_int fo)) (r64 (of_int kIfftSize))) (r64 (of_int 65536)) = of_int fo / 16"
      by (rule ifft_pos_normal) (use fo in simp)
    have nn: "\<not> fo div 16 < 0" using bin(3) by simp
    show ?thesis
      by (simp only: composite_bin_to_rf_hz_def Let_def pos floor_sixteenth nn if_False prod.case find
          option.case sub add)
  qed
  also have "\<dots> = r32 (of_int (25 * k) / 4)" by (simp only: rf_of_sixteenths [OF k])
  also have "of_int (25 * k) / 4 = slot_hz ?s fo"
    by (simp add: slot_hz_def k_def field_simps)
  finally show ?thesis .
qed

lemma slot_hz_range:
  assumes "i < 12" and "16 * ifft_start (kBandMap ! i) \<le> fo" and "fo < 16 * ifft_end (kBandMap ! i)"
  shows "0 \<le> slot_hz (kBandMap ! i) fo" and "slot_hz (kBandMap ! i) fo < 50320000"
proof -
  note b = kBandMap_slot [OF assms(1)]
  have e: "slot_hz (kBandMap ! i) fo
      = of_int (400 * bs_wb_start (kBandMap ! i) + 25 * (fo - 16 * ifft_start (kBandMap ! i))) / 4"
    by (simp add: slot_hz_def field_simps)
  have ar: "0 \<le> 400 * w + 25 * (f - 16 * s) \<and> 400 * w + 25 * (f - 16 * s) < 201280000"
    if "0 \<le> w" "w + (e - s) \<le> 503200" "16 * s \<le> f" "f < 16 * e" for w e s f :: int
    using that by (intro conjI) simp_all
  have "0 \<le> 400 * bs_wb_start (kBandMap ! i) + 25 * (fo - 16 * ifft_start (kBandMap ! i))"
    "400 * bs_wb_start (kBandMap ! i) + 25 * (fo - 16 * ifft_start (kBandMap ! i)) < 201280000"
    using ar [OF b(4,5) assms(2,3)] by blast+
  then show "0 \<le> slot_hz (kBandMap ! i) fo" "slot_hz (kBandMap ! i) fo < 50320000"
    unfolding e by (simp_all del: of_int_add of_int_mult of_int_diff add: divide_less_eq)
qed

text \<open>
  On the normal grid every composite bin below 34880 = 16 * 2180 lies in exactly one band
  window, and \<open>composite_bin_to_rf_hz\<close> returns the frequency of that bin within the band, 6.25 Hz
  per bin from the start of the window, with an error of at most 2 Hz (the rounding of the result
  to \<open>float\<close>: the double computation before it is exact).
\<close>

theorem rf_hz_in_band:
  assumes "0 \<le> fo" and "fo < 34880"
  shows "\<exists>!i. i < 12 \<and> 16 * ifft_start (kBandMap ! i) \<le> fo \<and> fo < 16 * ifft_end (kBandMap ! i) \<and>
           \<bar>composite_bin_to_rf_hz fo 65536 - slot_hz (kBandMap ! i) fo\<bar> \<le> 2"
proof -
  obtain i where i: "i < 12" "ifft_start (kBandMap ! i) \<le> fo div 16" "fo div 16 < ifft_end (kBandMap ! i)"
    using kBandMap_covers [of "fo div 16"] assms by fastforce
  then have w: "16 * ifft_start (kBandMap ! i) \<le> fo" "fo < 16 * ifft_end (kBandMap ! i)" by linarith+
  have "\<bar>r32 (slot_hz (kBandMap ! i) fo) - slot_hz (kBandMap ! i) fo\<bar> \<le> 2 powi (26 - 24 - 1)"
    unfolding r32_def using slot_hz_range [OF i(1) w] by (intro fp_round_error) simp_all
  then have "\<bar>composite_bin_to_rf_hz fo 65536 - slot_hz (kBandMap ! i) fo\<bar> \<le> 2"
    using rf_hz_normal [OF i(1) w] by simp
  moreover have "j = i" if "j < 12" "16 * ifft_start (kBandMap ! j) \<le> fo" "fo < 16 * ifft_end (kBandMap ! j)" for j
  proof -
    have "find_slot (fo div 16) kBandMap = Some (j, kBandMap ! j)"
      by (rule find_slot_packed) (use that kBandMap_packed in auto)
    moreover have "find_slot (fo div 16) kBandMap = Some (i, kBandMap ! i)"
      by (rule find_slot_packed) (use i kBandMap_packed in auto)
    ultimately show ?thesis by simp
  qed
  ultimately show ?thesis using i(1) w by blast
qed

theorem rf_hz_in_band_witness:
  "\<exists>!i. i < 12 \<and> 16 * ifft_start (kBandMap ! i) \<le> 12345 \<and> 12345 < 16 * ifft_end (kBandMap ! i) \<and>
     \<bar>composite_bin_to_rf_hz 12345 65536 - slot_hz (kBandMap ! i) 12345\<bar> \<le> 2"
  by (rule rf_hz_in_band) simp_all

lemma ifft_bin_normal:
  assumes "0 \<le> fo" and "fo < 65536"
  shows "band_map_ifft_bin fo 65536 = (fo + 8) div 16"
proof -
  have "fmul (r32 (of_int fo)) (r32 (of_int kIfftSize)) = of_int (fo * 4096)"
  proof -
    have "r32 (of_int fo * 2 powi 12) = of_int fo * 2 powi 12"
      unfolding r32_def by (rule fp_round_exact [OF refl]) (use assms in simp_all)
    then show ?thesis using r32_int [of fo] r32_int [of 4096] assms by (simp add: fmul_def kIfftSize_def)
  qed
  moreover have "r32 (of_int fo / 16) = of_int fo / 16"
    unfolding r32_def
  proof (rule fp_round_exact [where n = fo and k = "-4"])
    show "(of_int fo / 16 :: rat) = of_int fo * 2 powi - 4" by (simp add: power_int_def field_simps)
  qed (use assms in simp_all)
  ultimately have "fdiv (fmul (r32 (of_int fo)) (r32 (of_int kIfftSize))) (r32 (of_int 65536)) = of_int fo / 16"
    using r32_int [of 65536] by (simp add: fdiv_def)
  moreover have "roundf (of_int fo / 16) = (fo + 8) div 16"
  proof -
    have "(of_int fo :: rat) / 16 + 1 / 2 = of_int (fo + 8) / of_int 16" by (simp add: field_simps)
    then show ?thesis using assms floor_divide_of_int_eq [of "fo + 8" 16, where 'a = rat]
      by (simp only: roundf_def of_int_numeral) simp
  qed
  moreover have "\<not> (fo + 8) div 16 < 0" using assms by simp
  ultimately show ?thesis by (simp only: band_map_ifft_bin_def Let_def if_False)
qed

text \<open>
  \<open>composite_bin_to_band_idx\<close> rounds to the nearest composite bin where
  \<open>composite_bin_to_rf_hz\<close> takes the floor.  In the window of band \<open>i\<close> it returns \<open>i\<close>, except for
  the last eight FFT bins (50 Hz): there it names the next window, or none for the last band,
  although the frequency reported for the same bin is in band \<open>i\<close>.
\<close>

theorem band_idx_rounds_up:
  assumes i: "i < 12"
    and lo: "16 * ifft_start (kBandMap ! i) \<le> fo" and hi: "fo < 16 * ifft_end (kBandMap ! i)"
  shows "composite_bin_to_band_idx fo 65536 =
           (if fo < 16 * ifft_end (kBandMap ! i) - 8 then int i else if i = 11 then -1 else int (Suc i))"
proof -
  note b = kBandMap_slot [OF i]
  have bin: "band_map_ifft_bin fo 65536 = (fo + 8) div 16"
    by (rule ifft_bin_normal) (use b lo hi in linarith)+
  show ?thesis
  proof (cases "fo < 16 * ifft_end (kBandMap ! i) - 8")
    case True
    have "find_slot ((fo + 8) div 16) kBandMap = Some (i, kBandMap ! i)"
      by (rule find_slot_packed) (use i lo True kBandMap_packed in auto)
    then show ?thesis using True by (simp add: composite_bin_to_band_idx_def bin)
  next
    case False
    then have q: "(fo + 8) div 16 = ifft_end (kBandMap ! i)" using hi by linarith
    show ?thesis
    proof (cases "i = 11")
      case True
      then have "ifft_end (kBandMap ! i) = 2180" by (simp add: kBandMap_table)
      then have "find_slot ((fo + 8) div 16) kBandMap = None" unfolding q by (simp add: kBandMap_table)
      then show ?thesis using True False by (simp add: composite_bin_to_band_idx_def bin)
    next
      case ne: False
      then have si: "Suc i < 12" "i < 11" using i by auto
      have "find_slot ((fo + 8) div 16) kBandMap = Some (Suc i, kBandMap ! Suc i)"
        by (rule find_slot_packed)
          (use si q kBandMap_packed kBandMap_next [OF si(2)] kBandMap_slot(2) [OF si(1)] in auto)
      then show ?thesis using ne False by (simp add: composite_bin_to_band_idx_def bin)
    qed
  qed
qed

theorem band_idx_rounds_up_witness:
  "composite_bin_to_band_idx 1119 65536 = 1 \<and> \<bar>composite_bin_to_rf_hz 1119 65536 - 1845993.75\<bar> \<le> 2"
proof
  show "composite_bin_to_band_idx 1119 65536 = 1"
    using band_idx_rounds_up [of 0 1119] by (simp add: kBandMap_table)
  have "\<bar>r32 (slot_hz (kBandMap ! 0) 1119) - slot_hz (kBandMap ! 0) 1119\<bar> \<le> 2 powi (26 - 24 - 1)"
    unfolding r32_def using slot_hz_range [of 0 1119] by (intro fp_round_error) (simp_all add: kBandMap_table)
  then show "\<bar>composite_bin_to_rf_hz 1119 65536 - 1845993.75\<bar> \<le> 2"
    using rf_hz_normal [of 0 1119] by (simp add: kBandMap_table slot_hz_def)
qed

end
