(* ===== verification/Ft8Hash.thy ===== *)
theory Ft8Hash
  imports Prelude
begin

text \<open>
  The callsign hash table of \<open>gm/hf/ft8.cc\<close>: \<open>hashtable_init\<close>, \<open>hashtable_cleanup\<close>,
  \<open>hashtable_add\<close> and \<open>hashtable_lookup\<close>, an open-addressing table of 2048 slots probed
  linearly.  A slot holds a callsign (a C string of at most 11 characters, empty when the slot
  is free) and a 32-bit word: the 22-bit hash, with the age of the entry in the top byte.

  The lemmas show that additions keep every stored callsign reachable by its 22-bit hash, that
  the size counter is exact, and what goes wrong: a cleanup can cut a probe chain, and the
  12-bit and 10-bit look-ups start at a slot unrelated to where the entry was stored.
\<close>

section \<open>Definitions\<close>

definition HT_SIZE :: nat where "HT_SIZE = 2048"

record ht_slot =
  callsign :: string
  hash :: u32

record hashtable =
  slots :: "ht_slot list"
  ht_count :: int

datatype hash_type = HASH_22_BITS | HASH_12_BITS | HASH_10_BITS

definition empty_slot :: ht_slot where
  "empty_slot = \<lparr>callsign = [], hash = 0\<rparr>"

definition hashtable_init :: hashtable where
  "hashtable_init = \<lparr>slots = replicate HT_SIZE empty_slot, ht_count = 0\<rparr>"

definition mask22 :: u32 where "mask22 = 0x3FFFFF"

text \<open>One slot of the cleanup loop.\<close>

definition slot_age :: "ht_slot \<Rightarrow> u8" where
  "slot_age s = ucast (drop_bit 24 (hash s))"

definition slot_expired :: "u8 \<Rightarrow> ht_slot \<Rightarrow> bool" where
  "slot_expired max_age s = (callsign s \<noteq> [] \<and> max_age \<le> slot_age s)"

definition cleanup_slot :: "u8 \<Rightarrow> ht_slot \<Rightarrow> ht_slot" where
  "cleanup_slot max_age s =
     (if callsign s \<noteq> []
      then if max_age \<le> slot_age s then s\<lparr>callsign := [], hash := 0\<rparr>
           else s\<lparr>hash := push_bit 24 (ucast (slot_age s) + 1) OR (hash s AND mask22)\<rparr>
      else s)"

definition hashtable_cleanup :: "u8 \<Rightarrow> hashtable \<Rightarrow> hashtable" where
  "hashtable_cleanup max_age ht =
     foldl (\<lambda>ht i. let s = slots ht ! i
                  in ht\<lparr>slots := (slots ht)[i := cleanup_slot max_age s],
                        ht_count := (if slot_expired max_age s then ht_count ht - 1 else ht_count ht)\<rparr>)
       ht [0..<HT_SIZE]"

text \<open>The bounded probe of \<open>hashtable_add\<close>: whether it hit the same entry, and where it stopped.\<close>

fun add_probe :: "ht_slot list \<Rightarrow> string \<Rightarrow> u32 \<Rightarrow> nat \<Rightarrow> nat \<Rightarrow> bool \<times> nat" where
  "add_probe ss cs h 0 i = (False, i)"
| "add_probe ss cs h (Suc n) i =
     (if callsign (ss ! i) = [] then (False, i)
      else if hash (ss ! i) AND mask22 = h \<and> callsign (ss ! i) = cs then (True, i)
      else add_probe ss cs h n ((i + 1) mod HT_SIZE))"

definition hashtable_add :: "string \<Rightarrow> u32 \<Rightarrow> hashtable \<Rightarrow> hashtable" where
  "hashtable_add cs h ht =
     (let (hit, i) = add_probe (slots ht) cs h HT_SIZE (unat h mod HT_SIZE)
      in if hit then ht\<lparr>slots := (slots ht)[i := (slots ht ! i)\<lparr>hash := hash (slots ht ! i) AND mask22\<rparr>]\<rparr>
         else if callsign (slots ht ! i) \<noteq> [] then ht
         else ht\<lparr>slots := (slots ht)[i := \<lparr>callsign = take 11 cs, hash = h\<rparr>],
                 ht_count := ht_count ht + 1\<rparr>)"

definition hash_shift :: "hash_type \<Rightarrow> nat" where
  "hash_shift t = (case t of HASH_22_BITS \<Rightarrow> 0 | HASH_12_BITS \<Rightarrow> 10 | HASH_10_BITS \<Rightarrow> 12)"

text \<open>\<open>None\<close> is the return value \<open>false\<close>.\<close>

fun lookup_probe :: "ht_slot list \<Rightarrow> nat \<Rightarrow> u32 \<Rightarrow> nat \<Rightarrow> nat \<Rightarrow> string option" where
  "lookup_probe ss shift h 0 i = None"
| "lookup_probe ss shift h (Suc n) i =
     (if callsign (ss ! i) = [] then None
      else if drop_bit shift (hash (ss ! i) AND mask22) = h then Some (callsign (ss ! i))
      else lookup_probe ss shift h n ((i + 1) mod HT_SIZE))"

definition hashtable_lookup :: "hash_type \<Rightarrow> u32 \<Rightarrow> hashtable \<Rightarrow> string option" where
  "hashtable_lookup t h ht =
     lookup_probe (slots ht) (hash_shift t) h HT_SIZE (unat (push_bit (hash_shift t) h) mod HT_SIZE)"

section \<open>Probing\<close>

lemma HT_SIZE_pos [simp]: "0 < HT_SIZE"
  by (simp add: HT_SIZE_def)

definition probe_at :: "nat \<Rightarrow> nat \<Rightarrow> nat" where
  "probe_at i k = (i + k) mod HT_SIZE"

lemma probe_at_less [simp]: "probe_at i k < HT_SIZE"
  by (simp add: probe_at_def)

lemma probe_at_Suc: "probe_at (Suc i mod HT_SIZE) k = probe_at i (Suc k)"
  by (simp add: probe_at_def mod_add_left_eq)

lemma probe_at_0 [simp]: "i < HT_SIZE \<Longrightarrow> probe_at i 0 = i"
  by (simp add: probe_at_def)

lemma probe_onto: "i < HT_SIZE \<Longrightarrow> j < HT_SIZE \<Longrightarrow> \<exists>k<HT_SIZE. probe_at i k = j"
proof -
  assume ij: "i < HT_SIZE" "j < HT_SIZE"
  show ?thesis
  proof (cases "i \<le> j")
    case True
    then show ?thesis using ij by (intro exI [of _ "j - i"]) (simp add: probe_at_def)
  next
    case False
    then show ?thesis using ij by (intro exI [of _ "j + HT_SIZE - i"]) (simp add: probe_at_def)
  qed
qed

text \<open>What the add probe does: it passes occupied slots that do not match.\<close>

lemma add_probe_spec:
  assumes "add_probe ss cs h n i = (hit, j)" and "i < HT_SIZE"
  shows "\<exists>k\<le>n. j = probe_at i k \<and>
    (\<forall>l<k. callsign (ss ! probe_at i l) \<noteq> [] \<and>
       \<not> (hash (ss ! probe_at i l) AND mask22 = h \<and> callsign (ss ! probe_at i l) = cs)) \<and>
    (hit \<longrightarrow> k < n \<and> hash (ss ! j) AND mask22 = h \<and> callsign (ss ! j) = cs \<and> cs \<noteq> []) \<and>
    (\<not> hit \<longrightarrow> k < n \<longrightarrow> callsign (ss ! j) = [])"
  using assms
proof (induction n arbitrary: i)
  case 0
  then show ?case by (intro exI [of _ 0]) simp
next
  case (Suc n)
  let ?s = "ss ! i" and ?i = "(i + 1) mod HT_SIZE"
  consider (free) "callsign ?s = []"
    | (hit) "callsign ?s \<noteq> []" "hash ?s AND mask22 = h \<and> callsign ?s = cs"
    | (pass) "callsign ?s \<noteq> []" "\<not> (hash ?s AND mask22 = h \<and> callsign ?s = cs)" by blast
  then show ?case
  proof cases
    case pass
    then have "add_probe ss cs h n ?i = (hit, j)" using Suc.prems by auto
    from Suc.IH [OF this] obtain k where k: "k \<le> n" "j = probe_at ?i k"
      "\<forall>l<k. callsign (ss ! probe_at ?i l) \<noteq> [] \<and>
        \<not> (hash (ss ! probe_at ?i l) AND mask22 = h \<and> callsign (ss ! probe_at ?i l) = cs)"
      "hit \<longrightarrow> k < n \<and> hash (ss ! j) AND mask22 = h \<and> callsign (ss ! j) = cs \<and> cs \<noteq> []"
      "\<not> hit \<longrightarrow> k < n \<longrightarrow> callsign (ss ! j) = []" by auto
    have "callsign (ss ! probe_at i l) \<noteq> [] \<and>
        \<not> (hash (ss ! probe_at i l) AND mask22 = h \<and> callsign (ss ! probe_at i l) = cs)" if "l < Suc k" for l
      using that k(3) pass Suc.prems(2) by (cases l) (auto simp: probe_at_Suc)
    then show ?thesis using k Suc.prems(2) by (intro exI [of _ "Suc k"]) (auto simp: probe_at_Suc)
  qed (use Suc.prems in \<open>intro exI [of _ 0], auto\<close>)+
qed

lemma lookup_probe_Some:
  assumes "i < HT_SIZE" and "k < n"
    and "\<forall>l\<le>k. callsign (ss ! probe_at i l) \<noteq> []"
    and "drop_bit shift (hash (ss ! probe_at i k) AND mask22) = h"
  shows "\<exists>l\<le>k. lookup_probe ss shift h n i = Some (callsign (ss ! probe_at i l)) \<and>
     drop_bit shift (hash (ss ! probe_at i l) AND mask22) = h"
  using assms
proof (induction n arbitrary: i k)
  case (Suc n)
  have occ: "callsign (ss ! i) \<noteq> []" using Suc.prems(1,3) by (metis le0 probe_at_0)
  show ?case
  proof (cases "drop_bit shift (hash (ss ! i) AND mask22) = h")
    case True
    then show ?thesis using occ Suc.prems(1) by (intro exI [of _ 0]) simp
  next
    case False
    then have "k \<noteq> 0" using Suc.prems(1,4) by (metis probe_at_0)
    then obtain k' where k: "k = Suc k'" by (cases k) auto
    have "\<exists>l\<le>k'. lookup_probe ss shift h n ((i + 1) mod HT_SIZE)
          = Some (callsign (ss ! probe_at ((i + 1) mod HT_SIZE) l)) \<and>
        drop_bit shift (hash (ss ! probe_at ((i + 1) mod HT_SIZE) l) AND mask22) = h"
      using Suc.prems k by (intro Suc.IH) (auto simp: probe_at_Suc)
    then obtain l where l: "l \<le> k'" "lookup_probe ss shift h n ((i + 1) mod HT_SIZE) = Some (callsign (ss ! probe_at i (Suc l)))"
      "drop_bit shift (hash (ss ! probe_at i (Suc l)) AND mask22) = h" by (auto simp: probe_at_Suc)
    then show ?thesis using occ False k by (intro exI [of _ "Suc l"]) auto
  qed
qed simp

section \<open>The table invariant\<close>

text \<open>
  Every slot on the probe path from an entry's home slot to the entry is occupied; the stored
  strings have at most 11 characters; the counter is the number of occupied slots.
\<close>

definition occupied :: "ht_slot list \<Rightarrow> nat \<Rightarrow> bool" where
  "occupied ss i = (callsign (ss ! i) \<noteq> [])"

definition home :: "ht_slot \<Rightarrow> nat" where
  "home s = unat (hash s AND mask22) mod HT_SIZE"

definition reachable_slots :: "ht_slot list \<Rightarrow> bool" where
  "reachable_slots ss \<longleftrightarrow>
     (\<forall>i<HT_SIZE. occupied ss i \<longrightarrow>
        (\<exists>k<HT_SIZE. probe_at (home (ss ! i)) k = i \<and> (\<forall>l\<le>k. occupied ss (probe_at (home (ss ! i)) l))))"

definition count_ok :: "hashtable \<Rightarrow> bool" where
  "count_ok ht \<longleftrightarrow> length (slots ht) = HT_SIZE \<and>
     ht_count ht = int (card {i. i < HT_SIZE \<and> occupied (slots ht) i}) \<and>
     (\<forall>s\<in>set (slots ht). length (callsign s) \<le> 11)"

lemma home_less [simp]: "home s < HT_SIZE"
  by (simp add: home_def)

lemma mask22_twice: "h AND mask22 AND mask22 = h AND mask22"
  by (simp add: and.assoc)

lemma unat_mask22: "h AND mask22 = h \<Longrightarrow> unat (h AND mask22) = unat h"
  by simp

text \<open>What an addition changes: nothing, the age of one entry, or one free slot.\<close>

lemma hashtable_add_cases:
  assumes "h AND mask22 = h" and "cs \<noteq> []"
  obtains (refresh) k where "k < HT_SIZE"
      "\<forall>l\<le>k. occupied (slots ht) (probe_at (unat h mod HT_SIZE) l)"
      "hash (slots ht ! probe_at (unat h mod HT_SIZE) k) AND mask22 = h"
      "callsign (slots ht ! probe_at (unat h mod HT_SIZE) k) = cs"
      "hashtable_add cs h ht = ht\<lparr>slots := (slots ht)[probe_at (unat h mod HT_SIZE) k :=
          (slots ht ! probe_at (unat h mod HT_SIZE) k)\<lparr>hash := h\<rparr>]\<rparr>"
    | (full) "hashtable_add cs h ht = ht" "\<forall>i<HT_SIZE. occupied (slots ht) i"
    | (new) k where "k < HT_SIZE"
      "\<forall>l<k. occupied (slots ht) (probe_at (unat h mod HT_SIZE) l)"
      "\<not> occupied (slots ht) (probe_at (unat h mod HT_SIZE) k)"
      "hashtable_add cs h ht = ht\<lparr>slots := (slots ht)[probe_at (unat h mod HT_SIZE) k :=
          \<lparr>callsign = take 11 cs, hash = h\<rparr>], ht_count := ht_count ht + 1\<rparr>"
proof -
  let ?i = "unat h mod HT_SIZE"
  obtain hit j where p: "add_probe (slots ht) cs h HT_SIZE ?i = (hit, j)" by fastforce
  obtain k where k: "k \<le> HT_SIZE" "j = probe_at ?i k"
    "\<forall>l<k. occupied (slots ht) (probe_at ?i l)"
    "hit \<longrightarrow> k < HT_SIZE \<and> hash (slots ht ! j) AND mask22 = h \<and> callsign (slots ht ! j) = cs"
    "\<not> hit \<longrightarrow> k < HT_SIZE \<longrightarrow> \<not> occupied (slots ht) j"
    using add_probe_spec [OF p] by (auto simp: occupied_def)
  have add: "hashtable_add cs h ht =
     (if hit then ht\<lparr>slots := (slots ht)[j := (slots ht ! j)\<lparr>hash := hash (slots ht ! j) AND mask22\<rparr>]\<rparr>
      else if occupied (slots ht) j then ht
      else ht\<lparr>slots := (slots ht)[j := \<lparr>callsign = take 11 cs, hash = h\<rparr>], ht_count := ht_count ht + 1\<rparr>)"
    by (simp add: hashtable_add_def p occupied_def)
  show ?thesis
  proof (cases hit)
    case True
    then show ?thesis
      using k add assms(2) by (intro refresh [of k]) (auto simp: occupied_def le_less)
  next
    case nohit: False
    show ?thesis
    proof (cases "k < HT_SIZE")
      case True
      then show ?thesis using k nohit add by (intro new [of k]) auto
    next
      case False
      then have kk: "k = HT_SIZE" using k(1) by simp
      have all: "\<forall>i<HT_SIZE. occupied (slots ht) i"
        using k(3) kk probe_onto [of ?i] by (metis HT_SIZE_pos mod_less_divisor)
      then show ?thesis using nohit add k(2) by (intro full) auto
    qed
  qed
qed

lemma count_ok_init: "count_ok hashtable_init"
  by (simp add: count_ok_def hashtable_init_def occupied_def empty_slot_def)

lemma reachable_init: "reachable_slots (slots hashtable_init)"
  by (simp add: reachable_slots_def hashtable_init_def occupied_def empty_slot_def)

lemma occupied_update:
  "i < length ss \<Longrightarrow> occupied (ss[i := s]) j = (if j = i then callsign s \<noteq> [] else occupied ss j)"
  by (simp add: occupied_def)

lemma reachable_add:
  assumes "reachable_slots (slots ht)" and "length (slots ht) = HT_SIZE"
    and "h AND mask22 = h" and "cs \<noteq> []"
  shows "reachable_slots (slots (hashtable_add cs h ht))"
  using assms(3,4)
proof (cases rule: hashtable_add_cases [of h cs ht])
  case (refresh k)
  let ?j = "probe_at (unat h mod HT_SIZE) k"
  have "occupied (slots (hashtable_add cs h ht)) i = occupied (slots ht) i" for i
    using refresh assms(2,4) by (cases "i = ?j") (simp_all add: occupied_def)
  moreover have "home (slots (hashtable_add cs h ht) ! i) = home (slots ht ! i)" for i
    using refresh assms(2,3) by (cases "i = ?j") (auto simp: home_def)
  ultimately show ?thesis using assms(1) by (simp add: reachable_slots_def)
next
  case full
  then show ?thesis using assms(1) by simp
next
  case (new k)
  let ?j = "probe_at (unat h mod HT_SIZE) k"
  have occ: "occupied (slots (hashtable_add cs h ht)) i = (i = ?j \<or> occupied (slots ht) i)" for i
    using new assms(2,4) by (auto simp: occupied_update)
  have slot: "slots (hashtable_add cs h ht) ! i = (if i = ?j then \<lparr>callsign = take 11 cs, hash = h\<rparr> else slots ht ! i)" for i
    using new assms(2) by simp
  show ?thesis
    unfolding reachable_slots_def
  proof (intro allI impI)
    fix i assume i: "i < HT_SIZE" "occupied (slots (hashtable_add cs h ht)) i"
    show "\<exists>k<HT_SIZE. probe_at (home (slots (hashtable_add cs h ht) ! i)) k = i \<and>
       (\<forall>l\<le>k. occupied (slots (hashtable_add cs h ht)) (probe_at (home (slots (hashtable_add cs h ht) ! i)) l))"
    proof (cases "i = ?j")
      case True
      have "home (slots (hashtable_add cs h ht) ! i) = unat h mod HT_SIZE"
        using True assms(3) by (simp add: slot home_def)
      then show ?thesis using True new(1,2) by (intro exI [of _ k]) (auto simp: occ le_less)
    next
      case False
      then obtain k' where "k' < HT_SIZE" "probe_at (home (slots ht ! i)) k' = i"
        "\<forall>l\<le>k'. occupied (slots ht) (probe_at (home (slots ht ! i)) l)"
        using assms(1) i by (auto simp: reachable_slots_def occ)
      then show ?thesis using False by (intro exI [of _ k']) (auto simp: occ slot)
    qed
  qed
qed

text \<open>Look-up by 22-bit hash finds an entry exactly when one is stored.\<close>

lemma lookup22_home: "hashtable_lookup HASH_22_BITS g ht = lookup_probe (slots ht) 0 g HT_SIZE (unat g mod HT_SIZE)"
  by (simp add: hashtable_lookup_def hash_shift_def)

lemma lookup_probe_entry:
  "lookup_probe ss shift h n i = Some s \<Longrightarrow> i < HT_SIZE \<Longrightarrow>
     \<exists>j<HT_SIZE. occupied ss j \<and> callsign (ss ! j) = s \<and> drop_bit shift (hash (ss ! j) AND mask22) = h"
proof (induction n arbitrary: i)
  case (Suc n)
  then show ?case by (auto simp: occupied_def split: if_splits)
qed simp

lemma lookup22_found:
  assumes "reachable_slots (slots ht)" and "i < HT_SIZE" and "occupied (slots ht) i"
    and "hash (slots ht ! i) AND mask22 = g"
  shows "\<exists>s. hashtable_lookup HASH_22_BITS g ht = Some s"
proof -
  have home: "home (slots ht ! i) = unat g mod HT_SIZE" using assms(4) by (simp add: home_def)
  obtain k where k: "k < HT_SIZE" "probe_at (unat g mod HT_SIZE) k = i"
    "\<forall>l\<le>k. occupied (slots ht) (probe_at (unat g mod HT_SIZE) l)"
    using assms(1,2,3) unfolding reachable_slots_def home [symmetric] by blast
  show ?thesis
    using lookup_probe_Some [of "unat g mod HT_SIZE" k HT_SIZE "slots ht" 0 g] k assms(4)
    by (auto simp: lookup22_home occupied_def)
qed

section \<open>The interface the message decoder relies on\<close>

text \<open>
  The decoder of \<open>ft8_lib\<close> is handed two callbacks, \<open>save_hash\<close> and \<open>lookup_hash\<close>.  What it
  expects of them, for 22-bit hashes: a callsign saved in a table with room is found, saving
  another one loses none, and what is found was saved under that hash.
\<close>

locale callsign_store =
  fixes store_inv :: "'t \<Rightarrow> bool"
    and entry :: "'t \<Rightarrow> string \<Rightarrow> u32 \<Rightarrow> bool"
    and has_room :: "'t \<Rightarrow> bool"
    and save :: "string \<Rightarrow> u32 \<Rightarrow> 't \<Rightarrow> 't"
    and find_call :: "u32 \<Rightarrow> 't \<Rightarrow> string option"
    and valid :: "string \<Rightarrow> u32 \<Rightarrow> bool"
  assumes inv_save: "store_inv t \<Longrightarrow> valid cs h \<Longrightarrow> store_inv (save cs h t)"
    and save_entry: "store_inv t \<Longrightarrow> valid cs h \<Longrightarrow> has_room t \<Longrightarrow> entry (save cs h t) cs h"
    and save_keep: "store_inv t \<Longrightarrow> valid cs h \<Longrightarrow> entry t s g \<Longrightarrow> entry (save cs h t) s g"
    and save_only: "store_inv t \<Longrightarrow> valid cs h \<Longrightarrow> entry (save cs h t) s g \<Longrightarrow> entry t s g \<or> (s = cs \<and> g = h)"
    and found: "store_inv t \<Longrightarrow> entry t s g \<Longrightarrow> \<exists>s'. find_call g t = Some s'"
    and found_entry: "store_inv t \<Longrightarrow> find_call g t = Some s' \<Longrightarrow> entry t s' g"
begin

definition save_all :: "(string \<times> u32) list \<Rightarrow> 't \<Rightarrow> 't" where
  "save_all ops t = foldl (\<lambda>t (cs, h). save cs h t) t ops"

lemma save_all_snoc: "save_all (ops @ [(cs, h)]) t = save cs h (save_all ops t)"
  by (simp add: save_all_def)

lemma save_all_inv:
  "store_inv t \<Longrightarrow> \<forall>(cs, h)\<in>set ops. valid cs h \<Longrightarrow> store_inv (save_all ops t)"
  by (induction ops rule: rev_induct) (auto simp: save_all_def inv_save)

lemma save_all_only:
  "store_inv t \<Longrightarrow> \<forall>(cs, h)\<in>set ops. valid cs h \<Longrightarrow> entry (save_all ops t) s g \<Longrightarrow>
     entry t s g \<or> (s, g) \<in> set ops"
proof (induction ops rule: rev_induct)
  case (snoc op ops)
  obtain cs h where op: "op = (cs, h)" by (cases op)
  have "store_inv (save_all ops t)" using snoc.prems by (intro save_all_inv) auto
  then show ?case
    using snoc save_only [of "save_all ops t" cs h s g] by (auto simp: op save_all_snoc)
qed (simp add: save_all_def)

lemma save_all_entry:
  assumes "store_inv t" and "\<forall>(cs, h)\<in>set ops. valid cs h"
    and "\<forall>n<length ops. has_room (save_all (take n ops) t)" and "(cs, h) \<in> set ops"
  shows "entry (save_all ops t) cs h"
  using assms
proof (induction ops rule: rev_induct)
  case (snoc op ops)
  obtain cs' h' where op: "op = (cs', h')" by (cases op)
  have inv: "store_inv (save_all ops t)" using snoc.prems by (intro save_all_inv) auto
  have room: "has_room (save_all ops t)" using snoc.prems(3) by (auto dest: spec [of _ "length ops"])
  have valid: "valid cs' h'" using snoc.prems(2) op by auto
  show ?case
  proof (cases "(cs, h) = (cs', h')")
    case True
    then show ?thesis using save_entry [OF inv valid room] by (simp add: op save_all_snoc)
  next
    case False
    then have "(cs, h) \<in> set ops" using snoc.prems(4) op by auto
    moreover have "\<forall>n<length ops. has_room (save_all (take n ops) t)"
      using snoc.prems(3) by (auto dest: spec [of _ "_ :: nat"] simp: less_SucI)
    ultimately have "entry (save_all ops t) cs h" using snoc by auto
    then show ?thesis using save_keep [OF inv valid] by (simp add: op save_all_snoc)
  qed
qed simp

lemma save_all_found:
  assumes "store_inv t" and "\<forall>(cs, h)\<in>set ops. valid cs h"
    and "\<forall>n<length ops. has_room (save_all (take n ops) t)" and "(cs, h) \<in> set ops"
    and "\<And>s g. \<not> entry t s g"
  shows "\<exists>s. find_call h (save_all ops t) = Some s \<and> (s, h) \<in> set ops"
proof -
  have inv: "store_inv (save_all ops t)" by (rule save_all_inv [OF assms(1,2)])
  obtain s where s: "find_call h (save_all ops t) = Some s"
    using found [OF inv save_all_entry [OF assms(1-4)]] by blast
  then have "entry (save_all ops t) s h" by (rule found_entry [OF inv])
  then show ?thesis using s save_all_only [OF assms(1,2)] assms(5) by blast
qed

end

section \<open>The table provides it\<close>

definition ht_valid :: "string \<Rightarrow> u32 \<Rightarrow> bool" where
  "ht_valid cs h \<longleftrightarrow> cs \<noteq> [] \<and> length cs \<le> 11 \<and> h AND mask22 = h"

definition ht_entry :: "hashtable \<Rightarrow> string \<Rightarrow> u32 \<Rightarrow> bool" where
  "ht_entry ht cs h \<longleftrightarrow>
     (\<exists>i<HT_SIZE. occupied (slots ht) i \<and> callsign (slots ht ! i) = cs \<and> hash (slots ht ! i) AND mask22 = h)"

definition ht_room :: "hashtable \<Rightarrow> bool" where
  "ht_room ht \<longleftrightarrow> (\<exists>i<HT_SIZE. \<not> occupied (slots ht) i)"

definition ht_reach :: "hashtable \<Rightarrow> bool" where
  "ht_reach ht \<longleftrightarrow> reachable_slots (slots ht) \<and> length (slots ht) = HT_SIZE"

lemma length_slots_add: "length (slots (hashtable_add cs h ht)) = length (slots ht)"
  by (simp add: hashtable_add_def split: prod.split)

lemma ht_entry_add:
  assumes "ht_reach ht" and "ht_valid cs h"
  shows "ht_entry (hashtable_add cs h ht) s g \<longleftrightarrow>
    ht_entry ht s g \<or> (ht_room ht \<and> s = cs \<and> g = h)"
proof -
  have v: "h AND mask22 = h" "cs \<noteq> []" "take 11 cs = cs" and len: "length (slots ht) = HT_SIZE"
    using assms by (simp_all add: ht_valid_def ht_reach_def)
  from v(1,2) show ?thesis
  proof (cases rule: hashtable_add_cases [of h cs ht])
    case (refresh k)
    let ?j = "probe_at (unat h mod HT_SIZE) k"
    have "(occupied (slots (hashtable_add cs h ht)) i \<and> callsign (slots (hashtable_add cs h ht) ! i) = s \<and>
        hash (slots (hashtable_add cs h ht) ! i) AND mask22 = g) =
      (occupied (slots ht) i \<and> callsign (slots ht ! i) = s \<and> hash (slots ht ! i) AND mask22 = g)" for i
      using refresh len v(1) by (cases "i = ?j") (simp_all add: occupied_def)
    then have "ht_entry (hashtable_add cs h ht) s g = ht_entry ht s g" by (simp add: ht_entry_def)
    moreover have "ht_entry ht cs h"
      unfolding ht_entry_def using refresh by (intro exI [of _ ?j]) simp
    ultimately show ?thesis by blast
  next
    case full
    then show ?thesis by (auto simp: ht_room_def)
  next
    case (new k)
    let ?j = "probe_at (unat h mod HT_SIZE) k"
    have "(occupied (slots (hashtable_add cs h ht)) i \<and> callsign (slots (hashtable_add cs h ht) ! i) = s \<and>
        hash (slots (hashtable_add cs h ht) ! i) AND mask22 = g) =
      (if i = ?j then s = cs \<and> g = h
       else occupied (slots ht) i \<and> callsign (slots ht ! i) = s \<and> hash (slots ht ! i) AND mask22 = g)" for i
      using new len v by (cases "i = ?j") (auto simp: occupied_def)
    then have "ht_entry (hashtable_add cs h ht) s g \<longleftrightarrow>
        (\<exists>i<HT_SIZE. if i = ?j then s = cs \<and> g = h
           else occupied (slots ht) i \<and> callsign (slots ht ! i) = s \<and> hash (slots ht ! i) AND mask22 = g)"
      by (simp add: ht_entry_def)
    also have "\<dots> \<longleftrightarrow> ht_entry ht s g \<or> (s = cs \<and> g = h)"
      unfolding ht_entry_def using new(3) probe_at_less by (metis (full_types))
    finally show ?thesis using new(3) by (auto simp: ht_room_def intro: probe_at_less)
  qed
qed

interpretation ft8_store: callsign_store ht_reach ht_entry ht_room hashtable_add
  "hashtable_lookup HASH_22_BITS" ht_valid
proof
  fix t cs h s g s'
  assume inv: "ht_reach t"
  show "ht_valid cs h \<Longrightarrow> ht_reach (hashtable_add cs h t)"
    using inv by (simp add: ht_reach_def ht_valid_def reachable_add length_slots_add)
  show "ht_valid cs h \<Longrightarrow> ht_room t \<Longrightarrow> ht_entry (hashtable_add cs h t) cs h"
    and "ht_valid cs h \<Longrightarrow> ht_entry t s g \<Longrightarrow> ht_entry (hashtable_add cs h t) s g"
    and "ht_valid cs h \<Longrightarrow> ht_entry (hashtable_add cs h t) s g \<Longrightarrow> ht_entry t s g \<or> (s = cs \<and> g = h)"
    using inv by (auto simp: ht_entry_add)
  show "ht_entry t s g \<Longrightarrow> \<exists>s'. hashtable_lookup HASH_22_BITS g t = Some s'"
    using inv lookup22_found [of t] by (auto simp: ht_entry_def ht_reach_def)
  show "hashtable_lookup HASH_22_BITS g t = Some s' \<Longrightarrow> ht_entry t s' g"
    using lookup_probe_entry [of "slots t" 0 g HT_SIZE "unat g mod HT_SIZE" s']
    by (auto simp: lookup22_home ht_entry_def)
qed

lemma count_ok_add:
  assumes "count_ok ht" and "h AND mask22 = h" and "cs \<noteq> []"
  shows "count_ok (hashtable_add cs h ht) \<and> ht_count (hashtable_add cs h ht) \<le> ht_count ht + 1"
  using assms(2,3)
proof (cases rule: hashtable_add_cases [of h cs ht])
  case (refresh k)
  let ?j = "probe_at (unat h mod HT_SIZE) k"
  have len: "length (slots ht) = HT_SIZE" using assms(1) by (simp add: count_ok_def)
  have "occupied (slots (hashtable_add cs h ht)) i = occupied (slots ht) i" for i
    using refresh len by (cases "i = ?j") (simp_all add: occupied_def)
  moreover have "\<forall>s\<in>set (slots (hashtable_add cs h ht)). length (callsign s) \<le> 11"
    using refresh assms(1) len
    by (auto simp: count_ok_def dest!: set_update_subset_insert [THEN subsetD] intro: nth_mem)
  ultimately show ?thesis using assms(1) refresh(5) by (simp add: count_ok_def length_slots_add)
next
  case full
  then show ?thesis using assms(1) by simp
next
  case (new k)
  let ?j = "probe_at (unat h mod HT_SIZE) k"
  have len: "length (slots ht) = HT_SIZE" using assms(1) by (simp add: count_ok_def)
  have "{i. i < HT_SIZE \<and> occupied (slots (hashtable_add cs h ht)) i}
      = insert ?j {i. i < HT_SIZE \<and> occupied (slots ht) i}"
    using new len assms(3) by (auto simp: occupied_update)
  moreover have "?j \<notin> {i. i < HT_SIZE \<and> occupied (slots ht) i}" using new(3) by simp
  moreover have "\<forall>s\<in>set (slots (hashtable_add cs h ht)). length (callsign s) \<le> 11"
    using new assms(1) by (auto simp: count_ok_def dest!: set_update_subset_insert [THEN subsetD])
  ultimately show ?thesis using assms(1) new(4) by (simp add: count_ok_def length_slots_add)
qed

section \<open>Cleanup\<close>

lemma cleanup_prefix:
  assumes "n \<le> HT_SIZE" and "length (slots ht) = HT_SIZE"
  shows "foldl (\<lambda>ht i. let s = slots ht ! i
       in ht\<lparr>slots := (slots ht)[i := cleanup_slot a s],
             ht_count := (if slot_expired a s then ht_count ht - 1 else ht_count ht)\<rparr>) ht [0..<n]
    = \<lparr>slots = map (cleanup_slot a) (take n (slots ht)) @ drop n (slots ht),
       ht_count = ht_count ht - int (card {i. i < n \<and> slot_expired a (slots ht ! i)})\<rparr>"
  using assms(1)
proof (induction n)
  case (Suc n)
  have n: "n < length (slots ht)" using Suc.prems assms(2) by simp
  have nth: "(map (cleanup_slot a) (take n (slots ht)) @ drop n (slots ht)) ! n = slots ht ! n"
    using n by (simp add: nth_append)
  have upd: "(map (cleanup_slot a) (take n (slots ht)) @ drop n (slots ht))[n := x]
      = map (cleanup_slot a) (take n (slots ht)) @ x # drop (Suc n) (slots ht)" for x
    using n by (simp add: list_update_append Cons_nth_drop_Suc [symmetric])
  have "{i. i < Suc n \<and> slot_expired a (slots ht ! i)}
      = (if slot_expired a (slots ht ! n) then insert n {i. i < n \<and> slot_expired a (slots ht ! i)}
         else {i. i < n \<and> slot_expired a (slots ht ! i)})"
    by (auto simp: less_Suc_eq)
  then show ?case
    using Suc n by (simp add: Let_def nth upd take_Suc_conv_app_nth)
qed simp

lemma hashtable_cleanup_eq:
  assumes "length (slots ht) = HT_SIZE"
  shows "hashtable_cleanup a ht = \<lparr>slots = map (cleanup_slot a) (slots ht),
     ht_count = ht_count ht - int (card {i. i < HT_SIZE \<and> slot_expired a (slots ht ! i)})\<rparr>"
  using cleanup_prefix [OF order_refl assms, of a] assms by (simp add: hashtable_cleanup_def)

lemma occupied_cleanup:
  "i < length ss \<Longrightarrow> occupied (map (cleanup_slot a) ss) i \<longleftrightarrow> occupied ss i \<and> \<not> slot_expired a (ss ! i)"
  by (auto simp: occupied_def cleanup_slot_def slot_expired_def)

lemma count_ok_cleanup:
  assumes "count_ok ht" shows "count_ok (hashtable_cleanup a ht)"
proof -
  have len: "length (slots ht) = HT_SIZE" using assms by (simp add: count_ok_def)
  let ?O = "{i. i < HT_SIZE \<and> occupied (slots ht) i}" and ?X = "{i. i < HT_SIZE \<and> slot_expired a (slots ht ! i)}"
  have sub: "?X \<subseteq> ?O" by (auto simp: slot_expired_def occupied_def)
  have "{i. i < HT_SIZE \<and> occupied (map (cleanup_slot a) (slots ht)) i} = ?O - ?X"
    using len by (auto simp: occupied_cleanup)
  then have "card {i. i < HT_SIZE \<and> occupied (map (cleanup_slot a) (slots ht)) i} = card ?O - card ?X"
    using sub by (simp add: card_Diff_subset)
  moreover have "card ?X \<le> card ?O" using sub by (simp add: card_mono)
  moreover have "length (callsign (cleanup_slot a s)) \<le> length (callsign s)" for s
    by (simp add: cleanup_slot_def)
  ultimately show ?thesis
    using assms len by (auto simp: count_ok_def hashtable_cleanup_eq intro: order_trans)
qed

section \<open>Properties\<close>

text \<open>
  C38. Callsigns added to a fresh table, at most 2048 of them, are all found again by their
  22-bit hash: every look-up of a saved hash returns a callsign that was saved under it.
\<close>

theorem hashtable_saved_found:
  assumes "length ops \<le> 2048" and "\<forall>(cs, h)\<in>set ops. ht_valid cs h" and "(cs, h) \<in> set ops"
  shows "\<exists>s. hashtable_lookup HASH_22_BITS h (foldl (\<lambda>t (cs, h). hashtable_add cs h t) hashtable_init ops) = Some s
     \<and> (s, h) \<in> set ops"
proof -
  have cnt: "count_ok (ft8_store.save_all xs hashtable_init) \<and>
      ht_count (ft8_store.save_all xs hashtable_init) \<le> int (length xs)"
    if "\<forall>(cs, h)\<in>set xs. ht_valid cs h" for xs
    using that
  proof (induction xs rule: rev_induct)
    case Nil
    then show ?case using count_ok_init by (simp add: ft8_store.save_all_def hashtable_init_def)
  next
    case (snoc op xs)
    obtain cs h where op: "op = (cs, h)" by (cases op)
    then show ?case
      using snoc count_ok_add [of "ft8_store.save_all xs hashtable_init" h cs]
      by (auto simp: ft8_store.save_all_snoc ht_valid_def)
  qed
  have room: "\<forall>n<length ops. ht_room (ft8_store.save_all (take n ops) hashtable_init)"
  proof (intro allI impI, rule ccontr)
    fix n assume n: "n < length ops" and full: "\<not> ht_room (ft8_store.save_all (take n ops) hashtable_init)"
    let ?t = "ft8_store.save_all (take n ops) hashtable_init"
    have "count_ok ?t \<and> ht_count ?t \<le> int n"
      using cnt [of "take n ops"] assms(2) n set_take_subset [of n ops] by fastforce
    moreover have "{i. i < HT_SIZE \<and> occupied (slots ?t) i} = {..<HT_SIZE}"
      using full by (auto simp: ht_room_def)
    ultimately have "int HT_SIZE \<le> int n" by (simp add: count_ok_def)
    then show False using n assms(1) by (simp add: HT_SIZE_def)
  qed
  have "ht_reach hashtable_init" using reachable_init by (simp add: ht_reach_def hashtable_init_def)
  moreover have "\<not> ht_entry hashtable_init s g" for s g
    by (auto simp: ht_entry_def hashtable_init_def occupied_def empty_slot_def)
  ultimately show ?thesis
    using ft8_store.save_all_found [OF _ assms(2) room assms(3)] by (simp add: ft8_store.save_all_def)
qed

theorem hashtable_saved_found_witness:
  "\<exists>s. hashtable_lookup HASH_22_BITS 2053
     (foldl (\<lambda>t (cs, h). hashtable_add cs h t) hashtable_init [(''K1ABC'', 5), (''W9XYZ'', 2053)]) = Some s
   \<and> (s, 2053) \<in> set [(''K1ABC'', 5), (''W9XYZ'', 2053 :: u32)]"
  by (rule hashtable_saved_found) (simp_all add: ht_valid_def mask22_def)

text \<open>Any mixture of additions and cleanups.\<close>

datatype ht_op = AddCall string u32 | Cleanup u8

fun ht_apply :: "hashtable \<Rightarrow> ht_op \<Rightarrow> hashtable" where
  "ht_apply ht (AddCall cs h) = hashtable_add cs h ht"
| "ht_apply ht (Cleanup a) = hashtable_cleanup a ht"

fun ht_op_ok :: "ht_op \<Rightarrow> bool" where
  "ht_op_ok (AddCall cs h) = ht_valid cs h"
| "ht_op_ok (Cleanup a) = True"

text \<open>
  After any sequence of additions and cleanups the size counter equals the number of
  occupied slots, the table has 2048 slots, and every stored callsign fits its 12 bytes.
\<close>

theorem hashtable_count_exact:
  assumes "list_all ht_op_ok ops"
  shows "count_ok (foldl ht_apply hashtable_init ops)"
  using assms
proof (induction ops rule: rev_induct)
  case (snoc op ops)
  then show ?case
    by (cases op) (auto simp: ht_valid_def count_ok_add count_ok_cleanup)
qed (simp add: count_ok_init)

theorem hashtable_count_exact_witness:
  "count_ok (foldl ht_apply hashtable_init [AddCall ''K1ABC'' 5, Cleanup 10, AddCall ''W9XYZ'' 2053])"
  by (rule hashtable_count_exact) (simp add: ht_valid_def mask22_def)

section \<open>Two ways to lose a callsign\<close>

lemma add_probe_free: "callsign (ss ! i) = [] \<Longrightarrow> add_probe ss cs h n i = (False, i)"
  by (cases n) simp_all

lemma lookup_probe_free: "callsign (ss ! i) = [] \<Longrightarrow> lookup_probe ss shift h n i = None"
  by (cases n) simp_all

lemma init_slot: "i < HT_SIZE \<Longrightarrow> slots hashtable_init ! i = empty_slot"
  by (simp add: hashtable_init_def)

lemma add_first:
  assumes "length cs \<le> 11"
  shows "slots (hashtable_add cs h hashtable_init)
    = (replicate HT_SIZE empty_slot)[unat h mod HT_SIZE := \<lparr>callsign = cs, hash = h\<rparr>]"
proof -
  have "callsign (slots hashtable_init ! (unat h mod HT_SIZE)) = []"
    by (simp add: init_slot empty_slot_def)
  then show ?thesis
    using assms by (simp add: hashtable_add_def add_probe_free) (simp add: hashtable_init_def)
qed

lemma lookup_single:
  assumes "j < HT_SIZE" and "start < HT_SIZE" and "cs \<noteq> []"
    and "drop_bit shift (h AND mask22) = g"
  shows "lookup_probe ((replicate HT_SIZE empty_slot)[j := \<lparr>callsign = cs, hash = h\<rparr>]) shift g HT_SIZE start
    = (if start = j then Some cs else None)"
proof (cases "start = j")
  case True
  have "HT_SIZE = Suc 2047" by (simp add: HT_SIZE_def)
  then obtain n where "HT_SIZE = Suc n" by blast
  then show ?thesis using True assms by (metis (no_types, lifting) ht_slot.select_convs(1,2) length_replicate
    lookup_probe.simps(2) nth_list_update_eq)
next
  case False
  then show ?thesis using assms by (intro lookup_probe_free [THEN trans]) (simp_all add: empty_slot_def)
qed

text \<open>
  A callsign stored alone in the table is found by its 12-bit hash only if the low 10 bits
  of its 22-bit hash are zero, and by its 10-bit hash only if the low 11 bits are: the short
  look-ups start probing at a slot that does not depend on where the entry was stored.
\<close>

theorem hashtable_short_lookup:
  assumes "ht_valid cs h"
  shows "hashtable_lookup HASH_12_BITS (drop_bit 10 h) (hashtable_add cs h hashtable_init)
      = (if unat h mod 1024 = 0 then Some cs else None)
    \<and> hashtable_lookup HASH_10_BITS (drop_bit 12 h) (hashtable_add cs h hashtable_init)
      = (if unat h mod 2048 = 0 then Some cs else None)"
proof -
  have v: "cs \<noteq> []" "length cs \<le> 11" "h AND mask22 = h" using assms by (simp_all add: ht_valid_def)
  have h: "unat h < 2 ^ 22"
  proof (rule unat_less_of_bits)
    fix k assume "bit h k"
    then have "bit (mask22 :: u32) k" using v(3) by (metis bit_and_iff)
    moreover have "(mask22 :: u32) = mask 22" by (simp add: mask22_def mask_eq_exp_minus_1)
    ultimately have "bit (mask 22 :: u32) k" by (rule subst [rotated])
    then show "k < 22" unfolding bit_mask_iff by simp
  qed
  have s: "unat (push_bit n (drop_bit n h)) = unat h div 2 ^ n * 2 ^ n" if "n \<le> 22" for n
  proof -
    have "unat h div 2 ^ n * 2 ^ n \<le> unat h" by (rule div_times_less_eq_dividend)
    also have "unat h < 2 ^ 32" using h by (rule less_trans) simp
    finally have "unat h div 2 ^ n * 2 ^ n < 2 ^ 32" .
    moreover have "unat (push_bit n (drop_bit n h)) = take_bit 32 (push_bit n (drop_bit n (unat h)))"
      by (simp only: unsigned_push_bit_eq unsigned_drop_bit_eq) (simp add: take_bit_push_bit drop_bit_take_bit)
    ultimately show ?thesis
      by (simp only: push_bit_eq_mult drop_bit_eq_div take_bit_nat_eq_self)
  qed
  have d: "drop_bit n (h AND mask22) = drop_bit n h" for n using v(3) by simp
  have "unat h mod 2048 = 1024 * (unat h div 1024 mod 2) + unat h mod 1024"
    and "unat h div 1024 * 1024 mod 2048 = 1024 * (unat h div 1024 mod 2)"
    using mod_mult2_eq [of "unat h" 1024 2] mult_mod_right [of 1024 "unat h div 1024" 2]
    by (simp_all add: mult.commute)
  then have "(unat h div 1024 * 1024) mod 2048 = unat h mod 2048 \<longleftrightarrow> unat h mod 1024 = 0" by simp
  moreover have "(unat h div 4096 * 4096) mod 2048 = (unat h div 4096 * 2 * 2048) mod 2048" by simp
  then have "(unat h div 4096 * 4096) mod 2048 = unat h mod 2048 \<longleftrightarrow> unat h mod 2048 = 0"
    by (simp only: mod_mult_self2_is_0) auto
  ultimately have "(unat h div 1024 * 1024) mod 2048 = unat h mod 2048 \<longleftrightarrow> unat h mod 1024 = 0"
    and "(unat h div 4096 * 4096) mod 2048 = unat h mod 2048 \<longleftrightarrow> unat h mod 2048 = 0" by blast+
  then show ?thesis
    using lookup_single [OF _ _ v(1) d] s [of 10] s [of 12]
    by (simp add: hashtable_lookup_def hash_shift_def add_first [OF v(2)] HT_SIZE_def)
qed

theorem hashtable_short_lookup_witness:
  "hashtable_lookup HASH_12_BITS (drop_bit 10 5) (hashtable_add ''K1ABC'' 5 hashtable_init) = None
   \<and> hashtable_lookup HASH_10_BITS (drop_bit 12 5) (hashtable_add ''K1ABC'' 5 hashtable_init) = None"
  using hashtable_short_lookup [of "''K1ABC''" 5] by (simp add: ht_valid_def mask22_def)

text \<open>Cleanup of one slot of a table, and of a slot several times.\<close>

lemma cleanup_nth:
  "length (slots ht) = HT_SIZE \<Longrightarrow> i < HT_SIZE \<Longrightarrow> slots (hashtable_cleanup a ht) ! i = cleanup_slot a (slots ht ! i)"
  by (simp add: hashtable_cleanup_eq)

lemma length_cleanup: "length (slots ht) = HT_SIZE \<Longrightarrow> length (slots (hashtable_cleanup a ht)) = HT_SIZE"
  by (simp add: hashtable_cleanup_eq)

lemma cleanup_times:
  "length (slots ht) = HT_SIZE \<Longrightarrow> i < HT_SIZE \<Longrightarrow>
     slots (foldl ht_apply ht (replicate n (Cleanup a))) ! i = (cleanup_slot a ^^ n) (slots ht ! i) \<and>
     length (slots (foldl ht_apply ht (replicate n (Cleanup a)))) = HT_SIZE"
  by (induction n arbitrary: ht) (simp_all add: cleanup_nth length_cleanup funpow_swap1)

text \<open>The ages one by one.\<close>

lemma age_k1abc:
  "cleanup_slot 10 \<lparr>callsign = ''K1ABC'', hash = 0x5\<rparr> = \<lparr>callsign = ''K1ABC'', hash = 0x1000005\<rparr>"
  "cleanup_slot 10 \<lparr>callsign = ''K1ABC'', hash = 0x1000005\<rparr> = \<lparr>callsign = ''K1ABC'', hash = 0x2000005\<rparr>"
  "cleanup_slot 10 \<lparr>callsign = ''K1ABC'', hash = 0x2000005\<rparr> = \<lparr>callsign = ''K1ABC'', hash = 0x3000005\<rparr>"
  "cleanup_slot 10 \<lparr>callsign = ''K1ABC'', hash = 0x3000005\<rparr> = \<lparr>callsign = ''K1ABC'', hash = 0x4000005\<rparr>"
  "cleanup_slot 10 \<lparr>callsign = ''K1ABC'', hash = 0x4000005\<rparr> = \<lparr>callsign = ''K1ABC'', hash = 0x5000005\<rparr>"
  "cleanup_slot 10 \<lparr>callsign = ''K1ABC'', hash = 0x5000005\<rparr> = \<lparr>callsign = ''K1ABC'', hash = 0x6000005\<rparr>"
  "cleanup_slot 10 \<lparr>callsign = ''K1ABC'', hash = 0x6000005\<rparr> = \<lparr>callsign = ''K1ABC'', hash = 0x7000005\<rparr>"
  "cleanup_slot 10 \<lparr>callsign = ''K1ABC'', hash = 0x7000005\<rparr> = \<lparr>callsign = ''K1ABC'', hash = 0x8000005\<rparr>"
  "cleanup_slot 10 \<lparr>callsign = ''K1ABC'', hash = 0x8000005\<rparr> = \<lparr>callsign = ''K1ABC'', hash = 0x9000005\<rparr>"
  "cleanup_slot 10 \<lparr>callsign = ''K1ABC'', hash = 0x9000005\<rparr> = \<lparr>callsign = ''K1ABC'', hash = 0xa000005\<rparr>"
  by code_simp+

lemma age_w9xyz:
  "cleanup_slot 10 \<lparr>callsign = ''W9XYZ'', hash = 0x805\<rparr> = \<lparr>callsign = ''W9XYZ'', hash = 0x1000805\<rparr>"
  "cleanup_slot 10 \<lparr>callsign = ''W9XYZ'', hash = 0x1000805\<rparr> = \<lparr>callsign = ''W9XYZ'', hash = 0x2000805\<rparr>"
  "cleanup_slot 10 \<lparr>callsign = ''W9XYZ'', hash = 0x2000805\<rparr> = \<lparr>callsign = ''W9XYZ'', hash = 0x3000805\<rparr>"
  "cleanup_slot 10 \<lparr>callsign = ''W9XYZ'', hash = 0x3000805\<rparr> = \<lparr>callsign = ''W9XYZ'', hash = 0x4000805\<rparr>"
  "cleanup_slot 10 \<lparr>callsign = ''W9XYZ'', hash = 0x4000805\<rparr> = \<lparr>callsign = ''W9XYZ'', hash = 0x5000805\<rparr>"
  "cleanup_slot 10 \<lparr>callsign = ''W9XYZ'', hash = 0x5000805\<rparr> = \<lparr>callsign = ''W9XYZ'', hash = 0x6000805\<rparr>"
  "cleanup_slot 10 \<lparr>callsign = ''W9XYZ'', hash = 0x6000805\<rparr> = \<lparr>callsign = ''W9XYZ'', hash = 0x7000805\<rparr>"
  "cleanup_slot 10 \<lparr>callsign = ''W9XYZ'', hash = 0x7000805\<rparr> = \<lparr>callsign = ''W9XYZ'', hash = 0x8000805\<rparr>"
  "cleanup_slot 10 \<lparr>callsign = ''W9XYZ'', hash = 0x8000805\<rparr> = \<lparr>callsign = ''W9XYZ'', hash = 0x9000805\<rparr>"
  "cleanup_slot 10 \<lparr>callsign = ''W9XYZ'', hash = 0x9000805\<rparr> = \<lparr>callsign = ''W9XYZ'', hash = 0xa000805\<rparr>"
  by code_simp+

lemma funpow_10: "(f ^^ 10) x = f (f (f (f (f (f (f (f (f (f x)))))))))"
  by (simp add: eval_nat_numeral)

lemma aged_slots:
  "(cleanup_slot 10 ^^ 10) \<lparr>callsign = ''K1ABC'', hash = 0x5\<rparr> = \<lparr>callsign = ''K1ABC'', hash = 0xA000005\<rparr>"
  "(cleanup_slot 10 ^^ 10) \<lparr>callsign = ''W9XYZ'', hash = 0x805\<rparr> = \<lparr>callsign = ''W9XYZ'', hash = 0xA000805\<rparr>"
  unfolding funpow_10 age_k1abc age_w9xyz by simp_all

definition cut_ops :: "ht_op list" where
  "cut_ops = [AddCall ''K1ABC'' 5, AddCall ''W9XYZ'' 2053] @ replicate 10 (Cleanup 10)
     @ [AddCall ''W9XYZ'' 2053, Cleanup 10]"

text \<open>
  A cleanup can make a live entry unreachable: \<open>W9XYZ\<close> was pushed to slot 6 by \<open>K1ABC\<close>
  in slot 5; after ten cleanups \<open>W9XYZ\<close> is heard again, and the next cleanup frees slot 5 only.
  The entry is still in the table, but its look-up stops at the freed slot.
\<close>

theorem hashtable_cleanup_cuts_chain:
  "ht_entry (foldl ht_apply hashtable_init cut_ops) ''W9XYZ'' 2053
   \<and> hashtable_lookup HASH_22_BITS 2053 (foldl ht_apply hashtable_init cut_ops) = None"
proof -
  have "HT_SIZE = Suc (Suc 2046)" by (simp add: HT_SIZE_def)
  then obtain n where S: "HT_SIZE = Suc (Suc n)" by blast
  define t1 where "t1 = hashtable_add ''W9XYZ'' 2053 (hashtable_add ''K1ABC'' 5 hashtable_init)"
  define t2 where "t2 = foldl ht_apply t1 (replicate 10 (Cleanup 10))"
  define t3 where "t3 = hashtable_add ''W9XYZ'' 2053 t2"
  have ss: "slots (hashtable_add ''K1ABC'' 5 hashtable_init)
      = (replicate HT_SIZE empty_slot)[5 := \<lparr>callsign = ''K1ABC'', hash = 5\<rparr>]"
    using add_first [of "''K1ABC''" 5] by (simp add: HT_SIZE_def)
  have p1: "add_probe ((replicate HT_SIZE empty_slot)[5 := \<lparr>callsign = ''K1ABC'', hash = 5\<rparr>]) ''W9XYZ'' 2053
      (Suc (Suc m)) 5 = (False, 6)" for m
    by (simp add: HT_SIZE_def empty_slot_def mask22_def)
  have t1: "slots t1 = (replicate HT_SIZE empty_slot)
      [5 := \<lparr>callsign = ''K1ABC'', hash = 5\<rparr>, 6 := \<lparr>callsign = ''W9XYZ'', hash = 2053\<rparr>]"
    unfolding t1_def hashtable_add_def [of "''W9XYZ''"] ss
    using p1 [of n] by (simp flip: S) (simp add: HT_SIZE_def empty_slot_def)
  have t2: "slots t2 ! 5 = \<lparr>callsign = ''K1ABC'', hash = 0xA000005\<rparr>"
    "slots t2 ! 6 = \<lparr>callsign = ''W9XYZ'', hash = 0xA000805\<rparr>" "length (slots t2) = HT_SIZE"
    using cleanup_times [of t1 5 10 10] cleanup_times [of t1 6 10 10] t1 aged_slots
    by (simp_all add: t2_def HT_SIZE_def)
  have p2: "add_probe (slots t2) ''W9XYZ'' 2053 (Suc (Suc m)) 5 = (True, 6)" for m
    by (simp add: t2 HT_SIZE_def mask22_def)
  have t3: "slots t3 = (slots t2)[6 := \<lparr>callsign = ''W9XYZ'', hash = 0x805\<rparr>]"
    unfolding t3_def hashtable_add_def using p2 [of n] t2 by (simp flip: S) (simp add: HT_SIZE_def mask22_def)
  have t: "foldl ht_apply hashtable_init cut_ops = hashtable_cleanup 10 t3"
    by (simp add: cut_ops_def t3_def t2_def t1_def)
  have l3: "length (slots t3) = HT_SIZE" using t2 t3 by simp
  have s5: "slots (hashtable_cleanup 10 t3) ! 5 = \<lparr>callsign = [], hash = 0\<rparr>"
    and s6: "slots (hashtable_cleanup 10 t3) ! 6 = \<lparr>callsign = ''W9XYZ'', hash = 0x1000805\<rparr>"
    using cleanup_nth [OF l3, of 5 10] cleanup_nth [OF l3, of 6 10] t2 t3
    by (simp_all add: HT_SIZE_def cleanup_slot_def slot_age_def mask22_def)
  have "ht_entry (hashtable_cleanup 10 t3) ''W9XYZ'' 2053"
    unfolding ht_entry_def occupied_def using s6 by (intro exI [of _ 6]) (simp add: HT_SIZE_def mask22_def)
  moreover have "hashtable_lookup HASH_22_BITS 2053 (hashtable_cleanup 10 t3) = None"
    unfolding lookup22_home by (rule lookup_probe_free) (simp add: HT_SIZE_def s5)
  ultimately show ?thesis by (simp only: t)
qed

end
