(* ===== verification/ParallelFor.thy ===== *)
theory ParallelFor
  imports Prelude
begin

text \<open>
  \<open>parallel_for\<close> of \<open>gm/hf/ft8.cc\<close>: a pool of threads that take the next index from an atomic
  counter and run the body on it, each body writing only the element of its own index.  The pool
  is a step relation (any thread may take the next step); the results show that every schedule
  ends, that no two threads ever work on the same index, and that the array at the join is that
  of the serial loop.  The counter does not wrap: it stays below the count plus the number of
  threads.
\<close>

section \<open>The pool\<close>

text \<open>A thread is about to fetch an index, runs the body on one, or has left its loop.\<close>

datatype worker = Fetching | Running nat | Finished

record 'r pool =
  next_index :: nat
  workers :: "worker list"
  results :: "'r list"

inductive pool_step :: "nat \<Rightarrow> (nat \<Rightarrow> 'r) \<Rightarrow> 'r pool \<Rightarrow> 'r pool \<Rightarrow> bool"
  for count :: nat and body :: "nat \<Rightarrow> 'r" where
  fetch: "t < length (workers p) \<Longrightarrow> workers p ! t = Fetching \<Longrightarrow>
     pool_step count body p
       (p\<lparr>next_index := next_index p + 1,
          workers := (workers p)[t := if next_index p < count then Running (next_index p) else Finished]\<rparr>)"
| exec: "t < length (workers p) \<Longrightarrow> workers p ! t = Running j \<Longrightarrow>
     pool_step count body p
       (p\<lparr>results := (results p)[j := body j], workers := (workers p)[t := Fetching]\<rparr>)"

inductive_cases pool_stepE: "pool_step count body p q"

definition pool_start :: "nat \<Rightarrow> 'r list \<Rightarrow> 'r pool" where
  "pool_start n init = \<lparr>next_index = 0, workers = replicate n Fetching, results = init\<rparr>"

definition pool_joined :: "'r pool \<Rightarrow> bool" where
  "pool_joined p \<longleftrightarrow> (\<forall>w\<in>set (workers p). w = Finished)"

definition clamp_threads :: "int \<Rightarrow> nat \<Rightarrow> nat" where
  "clamp_threads nthreads count = nat (max 1 (min nthreads (int count)))"

definition serial_for :: "nat \<Rightarrow> (nat \<Rightarrow> 'r) \<Rightarrow> 'r list \<Rightarrow> 'r list" where
  "serial_for count body init = foldl (\<lambda>rs i. rs[i := body i]) init [0..<count]"

text \<open>The array \<open>init\<close> can be left as \<open>res\<close> by \<open>parallel_for\<close>.\<close>

definition parallel_for :: "nat \<Rightarrow> int \<Rightarrow> (nat \<Rightarrow> 'r) \<Rightarrow> 'r list \<Rightarrow> 'r list \<Rightarrow> bool" where
  "parallel_for count nthreads body init res \<longleftrightarrow>
     (if count = 0 then res = init
      else let n = clamp_threads nthreads count
           in if n = 1 then res = serial_for count body init
              else \<exists>p. (pool_step count body)\<^sup>*\<^sup>* (pool_start n init) p \<and> pool_joined p \<and> res = results p)"

section \<open>The serial loop\<close>

lemma serial_for_length [simp]: "length (serial_for count body init) = length init"
proof -
  have "length (foldl (\<lambda>rs i. rs[i := body i]) init xs) = length init" for xs
    by (induction xs arbitrary: init) simp_all
  then show ?thesis by (simp add: serial_for_def)
qed

lemma serial_for_nth:
  "i < length init \<Longrightarrow> serial_for count body init ! i = (if i < count then body i else init ! i)"
proof (induction count)
  case (Suc c)
  have "serial_for (Suc c) body init = (serial_for c body init)[c := body c]" by (simp add: serial_for_def)
  then show ?case using Suc by (auto simp: nth_list_update less_Suc_eq)
qed (simp add: serial_for_def)

lemma serial_for_eq: "length init = count \<Longrightarrow> serial_for count body init = map body [0..<count]"
  by (rule nth_equalityI) (simp_all add: serial_for_nth)

section \<open>Invariant\<close>

text \<open>The indices the threads work on.\<close>

fun running :: "worker list \<Rightarrow> nat list" where
  "running [] = []"
| "running (Running j # ws) = j # running ws"
| "running (_ # ws) = running ws"

lemma running_append [simp]: "running (xs @ ys) = running xs @ running ys"
  by (induction xs rule: running.induct) simp_all

lemma set_running: "j \<in> set (running ws) \<longleftrightarrow> Running j \<in> set ws"
  by (induction ws rule: running.induct) auto

definition pool_inv :: "nat \<Rightarrow> (nat \<Rightarrow> 'r) \<Rightarrow> 'r pool \<Rightarrow> bool" where
  "pool_inv count body p \<longleftrightarrow>
     length (results p) = count \<and>
     distinct (running (workers p)) \<and>
     (\<forall>j\<in>set (running (workers p)). j < next_index p \<and> j < count) \<and>
     (\<forall>j<count. j < next_index p \<longrightarrow> Running j \<notin> set (workers p) \<longrightarrow> results p ! j = body j) \<and>
     (Finished \<in> set (workers p) \<longrightarrow> count \<le> next_index p)"

lemma split_at_index: "t < length ws \<Longrightarrow> ws ! t = w \<Longrightarrow> \<exists>xs ys. ws = xs @ w # ys \<and> length xs = t"
  by (metis id_take_nth_drop length_take min.absorb4)

lemma pool_inv_step:
  assumes "pool_inv count body p" and "pool_step count body p q"
  shows "pool_inv count body q"
  using assms(2)
proof (cases rule: pool_step.cases)
  case (fetch t)
  obtain xs ys where ws: "workers p = xs @ Fetching # ys" "length xs = t"
    using split_at_index [OF fetch(2,3)] by blast
  show ?thesis
    using assms(1) fetch(1) ws
    by (auto simp: pool_inv_def set_running less_Suc_eq; fastforce simp: set_running)
next
  case (exec t j)
  obtain xs ys where ws: "workers p = xs @ Running j # ys" "length xs = t"
    using split_at_index [OF exec(2,3)] by blast
  show ?thesis
    using assms(1) exec(1) ws
    by (auto simp: pool_inv_def set_running nth_list_update)
qed

lemma pool_inv_start:
  assumes "length init = count" shows "pool_inv count body (pool_start n init)"
proof -
  have "running (replicate n Fetching) = []" by (induction n) simp_all
  then show ?thesis using assms by (auto simp: pool_inv_def pool_start_def)
qed

lemma pool_inv_reachable:
  assumes "length init = count" and "(pool_step count body)\<^sup>*\<^sup>* (pool_start n init) p"
  shows "pool_inv count body p \<and> length (workers p) = n"
  using assms(2)
proof (induction rule: rtranclp_induct)
  case base
  then show ?case using pool_inv_start [OF assms(1)] by (simp add: pool_start_def)
next
  case (step p q)
  have "length (workers q) = length (workers p)" using step.hyps(2) by (cases rule: pool_step.cases) auto
  then show ?case using step.IH pool_inv_step [OF _ step.hyps(2)] by simp
qed

section \<open>Termination\<close>

fun worker_cost :: "worker \<Rightarrow> nat" where
  "worker_cost Fetching = 1"
| "worker_cost (Running _) = 2"
| "worker_cost Finished = 0"

definition pool_cost :: "nat \<Rightarrow> 'r pool \<Rightarrow> nat" where
  "pool_cost count p = 3 * (count - next_index p) + sum_list (map worker_cost (workers p))"

lemma pool_step_decreases: "pool_step count body p q \<Longrightarrow> pool_cost count q < pool_cost count p"
proof (induction rule: pool_step.induct)
  case (fetch t p)
  then obtain xs ys where "workers p = xs @ Fetching # ys" "length xs = t"
    using split_at_index [OF fetch] by blast
  then show ?case by (auto simp: pool_cost_def)
next
  case (exec t p j)
  then obtain xs ys where "workers p = xs @ Running j # ys" "length xs = t"
    using split_at_index [OF exec] by blast
  then show ?case by (auto simp: pool_cost_def)
qed

lemma pool_progress: "\<not> pool_joined p \<Longrightarrow> \<exists>q. pool_step count body p q"
proof -
  assume "\<not> pool_joined p"
  then obtain t where t: "t < length (workers p)" "workers p ! t \<noteq> Finished"
    by (auto simp: pool_joined_def in_set_conv_nth)
  then show ?thesis by (cases "workers p ! t") (auto intro: exI pool_step.fetch pool_step.exec)
qed

lemma pool_joins: "\<exists>q. (pool_step count body)\<^sup>*\<^sup>* p q \<and> pool_joined q"
proof (induction "pool_cost count p" arbitrary: p rule: less_induct)
  case less
  show ?case
  proof (cases "pool_joined p")
    case False
    then obtain q where "pool_step count body p q" using pool_progress by blast
    then show ?thesis using less [OF pool_step_decreases] by (meson converse_rtranclp_into_rtranclp)
  qed blast
qed

section \<open>Properties\<close>

lemma pool_joined_results:
  assumes "pool_inv count body p" and "pool_joined p" and "workers p \<noteq> []"
  shows "results p = map body [0..<count]"
proof (rule nth_equalityI)
  show "length (results p) = length (map body [0..<count])" using assms(1) by (simp add: pool_inv_def)
  fix j assume "j < length (results p)"
  then have "j < count" using assms(1) by (simp add: pool_inv_def)
  moreover have "Finished \<in> set (workers p)" "Running j \<notin> set (workers p)"
    using assms(2,3) by (auto simp: pool_joined_def) (metis list.set_intros(1) neq_Nil_conv)
  ultimately show "results p ! j = map body [0..<count] ! j" using assms(1) by (simp add: pool_inv_def)
qed

lemma clamp_threads_pos: "0 < clamp_threads nthreads count"
  by (simp add: clamp_threads_def)

text \<open>
  C19. Whatever the number of threads and whatever their interleaving, \<open>parallel_for\<close> leaves
  the array of the serial loop, and it always can finish: the arrays it may leave are exactly
  \<open>map body [0..<count]\<close>.
\<close>

theorem parallel_for_serial:
  assumes "length init = count"
  shows "parallel_for count nthreads body init res \<longleftrightarrow> res = map body [0..<count]"
proof (cases "count = 0 \<or> clamp_threads nthreads count = 1")
  case True
  then show ?thesis using assms by (auto simp: parallel_for_def Let_def serial_for_eq)
next
  case False
  let ?n = "clamp_threads nthreads count"
  have val: "results p = map body [0..<count]"
    if "(pool_step count body)\<^sup>*\<^sup>* (pool_start ?n init) p" "pool_joined p" for p
  proof -
    have "pool_inv count body p" "length (workers p) = ?n" using pool_inv_reachable [OF assms that(1)] by auto
    then show ?thesis using that(2) clamp_threads_pos [of nthreads count] pool_joined_results by force
  qed
  obtain q where "(pool_step count body)\<^sup>*\<^sup>* (pool_start ?n init) q" "pool_joined q"
    using pool_joins by blast
  then show ?thesis using False val by (auto simp: parallel_for_def Let_def)
qed

theorem parallel_for_serial_witness: "parallel_for 3 2 (\<lambda>i. i * i) [0, 0, 0] [0, 1, 4 :: nat]"
  using parallel_for_serial [of "[0, 0, 0]" 3 2 "\<lambda>i. i * i" "[0, 1, 4]"] by (simp add: upt_rec numeral_eq_Suc)

text \<open>
  No data race and no unbounded pool: in every reachable state the threads run the body on
  pairwise different indices, all taken from the counter and below the count, and every step of
  any thread lowers a bound of \<open>3 * count\<close> plus the number of threads.
\<close>

theorem parallel_for_race_free:
  assumes "length init = count" and "(pool_step count body)\<^sup>*\<^sup>* (pool_start n init) p"
  shows "distinct (running (workers p)) \<and> set (running (workers p)) \<subseteq> {..<count} \<and>
         (\<forall>q. pool_step count body p q \<longrightarrow> pool_cost count q < pool_cost count p) \<and>
         pool_cost count (pool_start n init) = 3 * count + n"
proof -
  have "sum_list (map worker_cost (replicate n Fetching)) = n" by (induction n) simp_all
  then show ?thesis
    using pool_inv_reachable [OF assms] pool_step_decreases [of count body]
    by (auto simp: pool_inv_def pool_cost_def pool_start_def)
qed

theorem parallel_for_race_free_witness:
  "distinct (running [Running 0, Running 1]) \<and> set (running [Running 0, Running 1]) \<subseteq> {..<2}"
proof -
  let ?step = "pool_step 2 (\<lambda>i. i)"
  let ?p = "\<lparr>next_index = 1, workers = [Running 0, Fetching], results = [9, 9 :: nat]\<rparr>"
  let ?q = "\<lparr>next_index = 2, workers = [Running 0, Running 1], results = [9, 9 :: nat]\<rparr>"
  have "?step (pool_start 2 [9, 9]) ?p"
    using pool_step.fetch [of 0 "pool_start 2 [9, 9]" 2 "\<lambda>i. i"]
    by (simp add: pool_start_def numeral_2_eq_2)
  moreover have "?step ?p ?q"
    using pool_step.fetch [of 1 ?p 2 "\<lambda>i. i"] by (simp add: numeral_2_eq_2)
  ultimately have "?step\<^sup>*\<^sup>* (pool_start 2 [9, 9]) ?q" by (meson r_into_rtranclp rtranclp_trans)
  from parallel_for_race_free [OF _ this] show ?thesis by simp
qed

end
