(* ===== verification/Ft8Decode.thy ===== *)
theory Ft8Decode
  imports Osd BandMap Ft8Hash ParallelFor "HOL-Library.AList" "HOL-Library.Multiset" "HOL-Library.Sublist"
begin

text \<open>
  The FT8 host decoder of \<open>gm/hf/ft8.cc\<close>: \<open>decodeAndPublishContinuous\<close> on the candidates of one
  scan (top-K selection, belief propagation, ordered-statistics fallback, refine queue), the
  15-second window of spots, and one round of the refine worker.  The vendored C library
  \<open>ft8_lib\<close> is a parameter (\<open>ft8_lib\<close>), and so are the orders the C++ library leaves open
  (\<open>cpp_orders\<close>: \<open>std::nth_element\<close>, \<open>std::sort\<close> on ties, the iteration order of
  \<open>std::unordered_map\<close>), with \<open>orders_ok\<close> stating what they guarantee.  What leaves the
  component (ZeroMQ messages, dictionary entries, LLR captures) is appended to lists of the state.
\<close>

section \<open>Parameters\<close>

record 'msg ft8_lib =
  ftx_decode_from_llr :: "f32 list \<Rightarrow> int \<Rightarrow> 'msg option"
  ftx_decode_from_bits :: "u8 list \<Rightarrow> 'msg option"
  ftx_message_decode :: "'msg \<Rightarrow> hashtable \<Rightarrow> string option \<times> hashtable"
  FT8_SYMBOL_PERIOD :: f32
  kFTX_LDPC_generator :: "nat \<Rightarrow> nat \<Rightarrow> u8"

record window_spot =
  ws_snr :: f32
  ws_freq_hz :: f32
  ws_unix_time :: f64
  ws_time_offset :: f32

record cpp_orders =
  nth_element_desc :: "(nat \<Rightarrow> int) \<Rightarrow> nat \<Rightarrow> nat list \<Rightarrow> nat list"
  sort_desc :: "(nat \<Rightarrow> int) \<Rightarrow> nat list \<Rightarrow> nat list"
  bin_order :: "(int \<times> nat) list \<Rightarrow> (int \<times> nat) list"
  window_order :: "(string \<times> window_spot) list \<Rightarrow> (string \<times> window_spot) list"

definition orders_ok :: "cpp_orders \<Rightarrow> bool" where
  "orders_ok C \<longleftrightarrow>
     (\<forall>f k xs. k < length xs \<longrightarrow>
        mset (nth_element_desc C f k xs) = mset xs \<and>
        (\<forall>x\<in>set (take k (nth_element_desc C f k xs)).
           \<forall>y\<in>set (drop k (nth_element_desc C f k xs)). f y \<le> f x)) \<and>
     (\<forall>f xs. mset (sort_desc C f xs) = mset xs \<and> sorted_wrt (\<lambda>x y. f y \<le> f x) (sort_desc C f xs)) \<and>
     (\<forall>xs. mset (bin_order C xs) = mset xs) \<and>
     (\<forall>xs. mset (window_order C xs) = mset xs)"

section \<open>State\<close>

definition kLDPC_iterations :: int where "kLDPC_iterations = 25"
definition kContTopKCandidates :: nat where "kContTopKCandidates = 4096"
definition kRefineMaxPerCycle :: int where "kRefineMaxPerCycle = 2"
definition kRefineQueueMax :: nat where "kRefineQueueMax = 32"
definition CONT_CAND_MAX :: u32 where "CONT_CAND_MAX = 100000"
definition FT8_TIME_OSR :: int where "FT8_TIME_OSR = 4"
definition FTX_LDPC_N :: nat where "FTX_LDPC_N = 174"

record refine_job =
  rj_fo :: int
  rj_to :: int
  rj_ts :: int
  rj_snap_start :: u64
  rj_score :: int
  rj_timestamp :: f64

record spot_json =
  sj_call :: string
  sj_freq :: f32
  sj_snr :: f32
  sj_unix :: f64
  sj_offset :: f32
  sj_mode :: "string option"

record capture_line =
  cl_mode :: string
  cl_status :: string
  cl_llr :: "f32 list"
  cl_fo :: int
  cl_to :: int
  cl_ts :: int
  cl_score :: int
  cl_freq :: f32
  cl_snr :: f32
  cl_unix :: f64
  cl_text :: "string option"
  cl_osd_dist :: "f32 option"

text \<open>One slot of the scan pipeline, as the callback sees it (\<open>ContScanResult\<close>).\<close>

record scan_result =
  sr_count :: u32
  sr_fo :: "int list"
  sr_to :: "u8 list"
  sr_ts :: "u8 list"
  sr_score :: "int list"
  sr_log174 :: "f32 list"
  sr_timestamp :: f64
  sr_snap_start :: u64

record ft8 =
  zmq_port :: int
  ws_client :: bool
  capture_enabled :: bool
  window_buf :: "(string \<times> window_spot) list"
  window_start :: f64
  osd_enable :: bool
  osd_order :: int
  osd_score_floor :: f32
  osd_max_per_cycle :: int
  osd_soft_thresh :: f32
  decode_threads :: int
  refine_enable :: bool
  refine_q :: "refine_job list"
  refine_run :: bool
  refine_decode_cnt :: int
  cand_report_t0 :: f64
  cand_sum :: u64
  cand_peak :: u32
  cand_scans :: int
  cand_sat :: int
  scan_table :: hashtable
  refine_table :: hashtable
  zmq_out :: "(string \<times> spot_json) list"
  ws_out :: "(string \<times> spot_json \<times> int) list"
  captures :: "capture_line list"

section \<open>Publishing\<close>

definition key_char :: "char \<Rightarrow> char" where
  "key_char c = (if c = CHR ''/'' then CHR ''-'' else c)"

text \<open>\<open>ws_throws\<close> says whether the dictionary client throws on the entry.\<close>

definition publishDecoded ::
  "(string \<Rightarrow> bool) \<Rightarrow> string \<Rightarrow> f32 \<Rightarrow> f32 \<Rightarrow> f64 \<Rightarrow> f32 \<Rightarrow> ft8 \<Rightarrow> ft8" where
  "publishDecoded ws_throws call freq_hz snr unix_time time_offset s =
     (let v = \<lparr>sj_call = call, sj_freq = freq_hz, sj_snr = snr, sj_unix = unix_time,
               sj_offset = time_offset, sj_mode = None\<rparr>;
          s = (if 0 < zmq_port s then s\<lparr>zmq_out := zmq_out s @ [(''ft8/decode'', v)]\<rparr> else s);
          key = ''granolasdr:ft8:heard:'' @ List.map key_char call
      in if ws_client s then
           if ws_throws key then s\<lparr>ws_client := False\<rparr>
           else s\<lparr>ws_out := ws_out s @ [(key, v\<lparr>sj_mode := Some ''FT8''\<rparr>, 900000)]\<rparr>
         else s)"

definition flushWindow :: "cpp_orders \<Rightarrow> (string \<Rightarrow> bool) \<Rightarrow> f64 \<Rightarrow> ft8 \<Rightarrow> ft8" where
  "flushWindow C ws_throws now s =
     (let buf = window_buf s;
          s = s\<lparr>window_buf := [], window_start := now\<rparr>;
          s = foldl (\<lambda>s (call, w). publishDecoded ws_throws call (ws_freq_hz w) (ws_snr w)
                                      (ws_unix_time w) (ws_time_offset w) s)
                s (window_order C buf)
      in s\<lparr>scan_table := hashtable_cleanup 10 (scan_table s)\<rparr>)"

definition spot_snr :: "int \<Rightarrow> f32" where
  "spot_snr score = fsub (r32 (of_int score)) 26"

definition spot_time :: "'msg ft8_lib \<Rightarrow> int \<Rightarrow> int \<Rightarrow> f32" where
  "spot_time L to ts =
     fmul (fadd (r32 (of_int to)) (fdiv (r32 (of_int ts)) (r32 (of_int FT8_TIME_OSR)))) (FT8_SYMBOL_PERIOD L)"

definition publishSpot ::
  "'msg ft8_lib \<Rightarrow> string \<Rightarrow> int \<Rightarrow> int \<Rightarrow> int \<Rightarrow> int \<Rightarrow> f64 \<Rightarrow> ft8 \<Rightarrow> ft8" where
  "publishSpot L spot fo to ts score timestamp s =
     (let w = \<lparr>ws_snr = spot_snr score, ws_freq_hz = composite_bin_to_rf_hz fo 65536,
               ws_unix_time = timestamp, ws_time_offset = spot_time L to ts\<rparr>
      in case map_of (window_buf s) spot of
           None \<Rightarrow> s\<lparr>window_buf := AList.update spot w (window_buf s)\<rparr>
         | Some old \<Rightarrow>
             if ws_snr old < ws_snr w then s\<lparr>window_buf := AList.update spot w (window_buf s)\<rparr> else s)"

definition captureCand ::
  "string \<Rightarrow> f32 list \<Rightarrow> int \<Rightarrow> int \<Rightarrow> int \<Rightarrow> int \<Rightarrow> f64 \<Rightarrow> string option \<Rightarrow> f32 option \<Rightarrow> ft8 \<Rightarrow> ft8" where
  "captureCand status llr fo to ts score timestamp spot odist s =
     (if \<not> capture_enabled s then s
      else s\<lparr>captures := captures s @
        [\<lparr>cl_mode = ''FT8'', cl_status = status, cl_llr = take FTX_LDPC_N llr, cl_fo = fo, cl_to = to,
          cl_ts = ts, cl_score = score, cl_freq = composite_bin_to_rf_hz fo 65536,
          cl_snr = spot_snr score, cl_unix = timestamp, cl_text = spot, cl_osd_dist = odist\<rparr>]\<rparr>)"

section \<open>One scan\<close>

definition score_of :: "scan_result \<Rightarrow> nat \<Rightarrow> int" where "score_of r i = sr_score r ! i"
definition fo_of :: "scan_result \<Rightarrow> nat \<Rightarrow> int" where "fo_of r i = sr_fo r ! i"
definition to_of :: "scan_result \<Rightarrow> nat \<Rightarrow> int" where "to_of r i = uint (sr_to r ! i)"
definition ts_of :: "scan_result \<Rightarrow> nat \<Rightarrow> int" where "ts_of r i = uint (sr_ts r ! i)"

definition llr_of :: "scan_result \<Rightarrow> nat \<Rightarrow> f32 list" where
  "llr_of r i = take FTX_LDPC_N (drop (i * FTX_LDPC_N) (sr_log174 r))"

definition publish_cand :: "'msg ft8_lib \<Rightarrow> scan_result \<Rightarrow> nat \<Rightarrow> string \<Rightarrow> ft8 \<Rightarrow> ft8" where
  "publish_cand L r i spot s =
     publishSpot L spot (fo_of r i) (to_of r i) (ts_of r i) (score_of r i) (sr_timestamp r) s"

definition capture_cand ::
  "scan_result \<Rightarrow> nat \<Rightarrow> string \<Rightarrow> string option \<Rightarrow> f32 option \<Rightarrow> ft8 \<Rightarrow> ft8" where
  "capture_cand r i status spot odist s =
     captureCand status (llr_of r i) (fo_of r i) (to_of r i) (ts_of r i) (score_of r i) (sr_timestamp r) spot odist s"

text \<open>The candidate-load readout.\<close>

definition cand_report :: "scan_result \<Rightarrow> ft8 \<Rightarrow> ft8" where
  "cand_report r s =
     (let raw = sr_count r;
          s = s\<lparr>cand_scans := cand_scans s + 1, cand_sum := cand_sum s + ucast raw\<rparr>;
          s = (if cand_peak s < raw then s\<lparr>cand_peak := raw\<rparr> else s);
          s = (if CONT_CAND_MAX \<le> raw then s\<lparr>cand_sat := cand_sat s + 1\<rparr> else s);
          s = (if cand_report_t0 s = 0 then s\<lparr>cand_report_t0 := sr_timestamp r\<rparr> else s)
      in if 15 \<le> dsub (sr_timestamp r) (cand_report_t0 s)
         then s\<lparr>cand_report_t0 := sr_timestamp r, cand_sum := 0, cand_peak := 0, cand_scans := 0, cand_sat := 0\<rparr>
         else s)"

definition window_tick :: "cpp_orders \<Rightarrow> (string \<Rightarrow> bool) \<Rightarrow> f64 \<Rightarrow> ft8 \<Rightarrow> ft8" where
  "window_tick C ws_throws t s =
     (let s = (if window_start s = 0 then s\<lparr>window_start := t\<rparr> else s)
      in if 15 \<le> dsub t (window_start s) then flushWindow C ws_throws t s else s)"

definition decode_msg :: "'msg ft8_lib \<Rightarrow> 'msg \<Rightarrow> ft8 \<Rightarrow> string option \<times> ft8" where
  "decode_msg L m s =
     (let (spot, ht) = ftx_message_decode L m (scan_table s) in (spot, s\<lparr>scan_table := ht\<rparr>))"

definition scan_order :: "cpp_orders \<Rightarrow> scan_result \<Rightarrow> nat \<Rightarrow> nat list" where
  "scan_order C r n =
     (if kContTopKCandidates < n
      then take kContTopKCandidates (nth_element_desc C (score_of r) kContTopKCandidates [0..<n])
      else [0..<n])"

definition bp_results :: "'msg ft8_lib \<Rightarrow> scan_result \<Rightarrow> nat list \<Rightarrow> 'msg option list" where
  "bp_results L r ord = List.map (\<lambda>i. ftx_decode_from_llr L (llr_of r i) kLDPC_iterations) ord"

text \<open>A decoded candidate goes to the window, and to the capture if its bin is new.\<close>

definition accept_cand ::
  "'msg ft8_lib \<Rightarrow> scan_result \<Rightarrow> nat \<Rightarrow> string \<Rightarrow> f32 option \<Rightarrow> string \<Rightarrow> ft8 \<times> int set \<Rightarrow> ft8 \<times> int set" where
  "accept_cand L r i status odist spot = (\<lambda>(s, bins).
     let s = publish_cand L r i spot s;
         s = (if fo_of r i \<notin> bins then capture_cand r i status (Some spot) odist s else s)
     in (s, insert (fo_of r i) bins))"

definition pass1_cand ::
  "'msg ft8_lib \<Rightarrow> scan_result \<Rightarrow> (ft8 \<times> int set) \<times> nat list \<Rightarrow> nat \<times> 'msg option \<Rightarrow> (ft8 \<times> int set) \<times> nat list" where
  "pass1_cand L r = (\<lambda>((s, bins), osd_fail) (i, bp).
     case bp of
       Some m \<Rightarrow>
         (let (spot, s) = decode_msg L m s
          in case spot of
               Some spot \<Rightarrow> (accept_cand L r i ''pass'' None spot (s, bins), osd_fail)
             | None \<Rightarrow> ((s, bins), osd_fail))
     | None \<Rightarrow>
         if osd_enable s \<and> osd_score_floor s \<le> r32 (of_int (score_of r i))
         then ((s, bins), osd_fail @ [i]) else ((s, bins), osd_fail))"

definition best_step :: "scan_result \<Rightarrow> (int \<times> nat) list \<Rightarrow> nat \<Rightarrow> (int \<times> nat) list" where
  "best_step r best i =
     (case map_of best (fo_of r i) of
        None \<Rightarrow> AList.update (fo_of r i) i best
      | Some k \<Rightarrow> if score_of r k < score_of r i then AList.update (fo_of r i) i best else best)"

text \<open>\<open>None\<close>: \<open>resize\<close> with a negative cap, a size beyond \<open>max_size\<close>, throws \<open>std::length_error\<close>.\<close>

definition osd_cands :: "cpp_orders \<Rightarrow> scan_result \<Rightarrow> int \<Rightarrow> nat list \<Rightarrow> nat list option" where
  "osd_cands C r max_per_cycle osd_fail =
     (let cands = sort_desc C (score_of r) (List.map snd (bin_order C (foldl (best_step r) [] osd_fail)))
      in if max_per_cycle < int (length cands)
         then if max_per_cycle < 0 then None else Some (take (nat max_per_cycle) cands)
         else Some cands)"

text \<open>Accepted or not, the distance, and the codeword (of no meaning when not accepted).\<close>

definition osd_run :: "'msg ft8_lib \<Rightarrow> int \<Rightarrow> f32 \<Rightarrow> f32 list \<Rightarrow> bool \<times> f32 \<times> u8 list" where
  "osd_run L order soft_thresh llr =
     (case ft8_osd_decode (kFTX_LDPC_generator L) llr order of
        None \<Rightarrow> (False, 0, [])
      | Some (bits, odist) \<Rightarrow> (soft_thresh \<le> 0 \<or> odist \<le> soft_thresh, odist, bits))"

definition osd_results :: "'msg ft8_lib \<Rightarrow> scan_result \<Rightarrow> ft8 \<Rightarrow> nat list \<Rightarrow> (bool \<times> f32 \<times> u8 list) list" where
  "osd_results L r s cands = List.map (\<lambda>i. osd_run L (osd_order s) (osd_soft_thresh s) (llr_of r i)) cands"

definition job_of :: "scan_result \<Rightarrow> nat \<Rightarrow> refine_job" where
  "job_of r i = \<lparr>rj_fo = fo_of r i, rj_to = to_of r i, rj_ts = ts_of r i, rj_snap_start = sr_snap_start r,
                 rj_score = score_of r i, rj_timestamp = sr_timestamp r\<rparr>"

definition enqueue_job :: "refine_job \<Rightarrow> refine_job list \<Rightarrow> refine_job list" where
  "enqueue_job j q = (if kRefineQueueMax \<le> length q then drop 1 q else q) @ [j]"

text \<open>The codeword passes the CRC gate of \<open>ft8_lib\<close> and unpacks to a text.\<close>

definition osd_accept ::
  "'msg ft8_lib \<Rightarrow> scan_result \<Rightarrow> nat \<Rightarrow> bool \<Rightarrow> f32 \<Rightarrow> u8 list \<Rightarrow> ft8 \<times> int set \<Rightarrow> bool \<times> ft8 \<times> int set" where
  "osd_accept L r i ok odist plain174 = (\<lambda>(s, bins).
     case (if ok then ftx_decode_from_bits L plain174 else None) of
       None \<Rightarrow> (False, s, bins)
     | Some m \<Rightarrow>
         (let (spot, s) = decode_msg L m s
          in case spot of
               None \<Rightarrow> (False, s, bins)
             | Some spot \<Rightarrow> (True, accept_cand L r i ''osd'' (Some odist) spot (s, bins))))"

definition pass2_cand ::
  "'msg ft8_lib \<Rightarrow> scan_result \<Rightarrow> (ft8 \<times> int set) \<times> int \<Rightarrow> nat \<times> bool \<times> f32 \<times> u8 list \<Rightarrow> (ft8 \<times> int set) \<times> int" where
  "pass2_cand L r = (\<lambda>((s, bins), refine_used) (i, ok, odist, plain174).
     let (decoded, s, bins) = osd_accept L r i ok odist plain174 (s, bins);
         s = (if \<not> decoded \<and> fo_of r i \<notin> bins then capture_cand r i ''fail'' None (Some odist) s else s)
     in if \<not> decoded \<and> refine_enable s \<and> refine_used < kRefineMaxPerCycle
        then ((s\<lparr>refine_q := enqueue_job (job_of r i) (refine_q s)\<rparr>, bins), refine_used + 1)
        else ((s, bins), refine_used))"

definition decodeAndPublishContinuous ::
  "'msg ft8_lib \<Rightarrow> cpp_orders \<Rightarrow> (string \<Rightarrow> bool) \<Rightarrow> scan_result \<Rightarrow> ft8 \<Rightarrow> ft8 option" where
  "decodeAndPublishContinuous L C ws_throws r s =
     (let n = unat (min (sr_count r) CONT_CAND_MAX);
          s = cand_report r s
      in if n = 0 then Some s
         else let s = window_tick C ws_throws (sr_timestamp r) s;
                  ord = scan_order C r n;
                  ((s, bins), osd_fail) = foldl (pass1_cand L r) ((s, {}), []) (zip ord (bp_results L r ord))
              in if \<not> osd_enable s \<or> osd_fail = [] then Some s
                 else case osd_cands C r (osd_max_per_cycle s) osd_fail of
                        None \<Rightarrow> None
                      | Some cands \<Rightarrow>
                          Some (fst (fst (foldl (pass2_cand L r) ((s, bins), 0)
                                            (zip cands (osd_results L r s cands))))))"

section \<open>The refine worker and the configuration\<close>

text \<open>
  One round of the worker: \<open>None\<close> when it has to wait for a job or has been told to stop.
  \<open>refine\<close> is \<open>FT8Cuda::refineCandidate\<close>.
\<close>

definition refine_round ::
  "'msg ft8_lib \<Rightarrow> (int \<Rightarrow> int \<Rightarrow> u64 \<Rightarrow> f32 list option) \<Rightarrow> ft8 \<Rightarrow> ft8 option" where
  "refine_round L refine s =
     (if \<not> refine_run s then None
      else case refine_q s of
        [] \<Rightarrow> None
      | job # q \<Rightarrow>
          (let s = s\<lparr>refine_q := q\<rparr>
           in case refine (rj_fo job) (rj_to job) (rj_snap_start job) of
                None \<Rightarrow> Some s
              | Some rllr \<Rightarrow>
                  (let bp = ftx_decode_from_llr L rllr kLDPC_iterations;
                       (ok, rdist, plain174) =
                         (if bp = None \<and> osd_enable s then osd_run L (osd_order s) (osd_soft_thresh s) rllr
                          else (False, 0, []));
                       msg = (if bp \<noteq> None then bp
                              else if ok then ftx_decode_from_bits L plain174 else None)
                   in case msg of
                        None \<Rightarrow> Some s
                      | Some m \<Rightarrow>
                          (let (spot, ht) = ftx_message_decode L m (refine_table s);
                               cnt = refine_decode_cnt s + 1;
                               s = (if 128 \<le> cnt
                                    then s\<lparr>refine_decode_cnt := 0, refine_table := hashtable_cleanup 10 ht\<rparr>
                                    else s\<lparr>refine_decode_cnt := cnt, refine_table := ht\<rparr>)
                           in case spot of
                                None \<Rightarrow> Some s
                              | Some spot \<Rightarrow>
                                  Some (captureCand ''refine'' rllr (rj_fo job) (rj_to job) (rj_ts job)
                                     (rj_score job) (rj_timestamp job) (Some spot) (Some rdist)
                                     (publishSpot L spot (rj_fo job) (rj_to job) (rj_ts job) (rj_score job)
                                        (rj_timestamp job) s))))))"

definition setOsdConfig :: "bool \<Rightarrow> int \<Rightarrow> f32 \<Rightarrow> int \<Rightarrow> f32 \<Rightarrow> ft8 \<Rightarrow> ft8" where
  "setOsdConfig enable order score_floor max_per_cycle soft_thresh s =
     s\<lparr>osd_enable := enable, osd_order := order, osd_score_floor := score_floor,
       osd_max_per_cycle := max_per_cycle, osd_soft_thresh := soft_thresh\<rparr>"

definition setRefineEnabled :: "bool \<Rightarrow> ft8 \<Rightarrow> ft8" where
  "setRefineEnabled enable s =
     (if enable \<and> \<not> refine_run s then s\<lparr>refine_enable := enable, refine_run := True\<rparr>
      else s\<lparr>refine_enable := enable\<rparr>)"
section \<open>The parallel passes\<close>

text \<open>\<open>parallel_for\<close> on the thread pool computes the results the passes use.\<close>

lemma bp_results_parallel:
  assumes "length init = length ord"
  shows "parallel_for (length ord) (decode_threads s)
           (\<lambda>j. ftx_decode_from_llr L (llr_of r (ord ! j)) kLDPC_iterations) init res
         \<longleftrightarrow> res = bp_results L r ord"
proof -
  have "List.map (\<lambda>j. ftx_decode_from_llr L (llr_of r (ord ! j)) kLDPC_iterations) [0..<length ord]
      = bp_results L r ord"
    by (rule nth_equalityI) (simp_all add: bp_results_def)
  then show ?thesis using parallel_for_serial [OF assms] by metis
qed

lemma osd_results_parallel:
  assumes "length init = length cands"
  shows "parallel_for (length cands) (decode_threads s)
           (\<lambda>k. osd_run L (osd_order s) (osd_soft_thresh s) (llr_of r (cands ! k))) init res
         \<longleftrightarrow> res = osd_results L r s cands"
proof -
  have "List.map (\<lambda>k. osd_run L (osd_order s) (osd_soft_thresh s) (llr_of r (cands ! k))) [0..<length cands]
      = osd_results L r s cands"
    by (rule nth_equalityI) (simp_all add: osd_results_def)
  then show ?thesis using parallel_for_serial [OF assms] by metis
qed

section \<open>The window of spots\<close>

text \<open>A publication: text, bin, time offsets, score, timestamp.\<close>

type_synonym publication = "string \<times> int \<times> int \<times> int \<times> int \<times> f64"

definition publish_all :: "'msg ft8_lib \<Rightarrow> publication list \<Rightarrow> ft8 \<Rightarrow> ft8" where
  "publish_all L ps s = foldl (\<lambda>s (spot, fo, to, ts, score, t). publishSpot L spot fo to ts score t s) s ps"

definition spot_of :: "'msg ft8_lib \<Rightarrow> publication \<Rightarrow> window_spot" where
  "spot_of L = (\<lambda>(spot, fo, to, ts, score, t).
     \<lparr>ws_snr = spot_snr score, ws_freq_hz = composite_bin_to_rf_hz fo 65536,
      ws_unix_time = t, ws_time_offset = spot_time L to ts\<rparr>)"

lemma publishSpot_buf:
  "window_buf (publishSpot L spot fo to ts score t s) =
     (let w = spot_of L (spot, fo, to, ts, score, t)
      in if (\<forall>old. map_of (window_buf s) spot = Some old \<longrightarrow> ws_snr old < ws_snr w)
         then AList.update spot w (window_buf s) else window_buf s)"
  by (auto simp: publishSpot_def spot_of_def Let_def split: option.splits)

lemma publish_all_snoc:
  "publish_all L (ps @ [(spot, fo, to, ts, score, t)]) s = publishSpot L spot fo to ts score t (publish_all L ps s)"
  by (simp add: publish_all_def)

text \<open>What the window should hold for a text \<open>x\<close> after the publications \<open>ps\<close>.\<close>

definition best_spot :: "'msg ft8_lib \<Rightarrow> publication list \<Rightarrow> string \<Rightarrow> window_spot option \<Rightarrow> bool" where
  "best_spot L ps x wo \<longleftrightarrow>
     (case wo of
        None \<Rightarrow> x \<notin> fst ` set ps
      | Some w \<Rightarrow> (\<exists>p\<in>set ps. fst p = x \<and> w = spot_of L p) \<and>
                  (\<forall>p\<in>set ps. fst p = x \<longrightarrow> ws_snr (spot_of L p) \<le> ws_snr w))"

lemma best_spot_other: "fst p \<noteq> x \<Longrightarrow> best_spot L (ps @ [p]) x wo = best_spot L ps x wo"
  by (cases wo) (auto simp: best_spot_def)

lemma best_spot_first: "best_spot L ps (fst p) None \<Longrightarrow> best_spot L (ps @ [p]) (fst p) (Some (spot_of L p))"
proof -
  assume "best_spot L ps (fst p) None"
  then have "q = p" if "q \<in> set (ps @ [p])" "fst q = fst p" for q
    using that image_eqI [of "fst p" fst q "set ps"] by (auto simp: best_spot_def simp del: split_paired_all)
  then show ?thesis unfolding best_spot_def option.case by (metis in_set_conv_decomp order_refl)
qed

lemma best_spot_better:
  assumes "best_spot L ps (fst p) (Some old)" and "ws_snr old < ws_snr (spot_of L p)"
  shows "best_spot L (ps @ [p]) (fst p) (Some (spot_of L p))"
proof -
  have "ws_snr (spot_of L q) \<le> ws_snr (spot_of L p)" if "q \<in> set ps" "fst q = fst p" for q
    using assms that unfolding best_spot_def option.case by fastforce
  then show ?thesis by (auto simp: best_spot_def)
qed

lemma best_spot_worse:
  assumes "best_spot L ps (fst p) (Some old)" and "\<not> ws_snr old < ws_snr (spot_of L p)"
  shows "best_spot L (ps @ [p]) (fst p) (Some old)"
  using assms by (auto simp: best_spot_def)

lemma best_spot_step:
  assumes "\<And>x. best_spot L ps x (map_of buf x)"
  shows "best_spot L (ps @ [p]) x
    (map_of (if \<forall>old. map_of buf (fst p) = Some old \<longrightarrow> ws_snr old < ws_snr (spot_of L p)
             then AList.update (fst p) (spot_of L p) buf else buf) x)"
proof (cases "x = fst p")
  case False
  then show ?thesis using assms [of x] by (simp add: best_spot_other update_conv)
next
  case True
  then show ?thesis
    using assms [of x]
    by (cases "map_of buf x")
      (simp_all add: update_conv best_spot_first [of L ps p] best_spot_better [of L ps p]
        best_spot_worse [of L ps p])
qed

text \<open>
  Starting from an empty window, after any publications the window holds exactly one spot for
  each published text, and that spot is one of those published under the text, with a
  signal-to-noise ratio at least as high as every other one.
\<close>

theorem window_keeps_best:
  assumes "window_buf s = []"
  shows "distinct (List.map fst (window_buf (publish_all L ps s))) \<and>
         (\<forall>x. best_spot L ps x (map_of (window_buf (publish_all L ps s)) x))"
proof (induction ps rule: rev_induct)
  case Nil
  then show ?case using assms by (simp add: publish_all_def best_spot_def)
next
  case (snoc p ps)
  obtain spot fo to ts score t where p: "p = (spot, fo, to, ts, score, t)" by (cases p)
  have buf: "window_buf (publish_all L (ps @ [p]) s) =
      (let buf = window_buf (publish_all L ps s)
       in if \<forall>old. map_of buf (fst p) = Some old \<longrightarrow> ws_snr old < ws_snr (spot_of L p)
          then AList.update (fst p) (spot_of L p) buf else buf)"
    unfolding p publish_all_snoc publishSpot_buf Let_def fst_conv ..
  have "distinct (List.map fst (window_buf (publish_all L (ps @ [p]) s)))"
    unfolding buf Let_def using snoc by (simp add: distinct_update)
  moreover have "best_spot L (ps @ [p]) x (map_of (window_buf (publish_all L (ps @ [p]) s)) x)" for x
    unfolding buf Let_def by (rule best_spot_step) (use snoc in blast)
  ultimately show ?case by blast
qed

definition lib0 :: "unit ft8_lib" where
  "lib0 = \<lparr>ftx_decode_from_llr = (\<lambda>llr _. if llr = [] then None else if 0 \<le> hd llr then Some () else None),
           ftx_decode_from_bits = (\<lambda>bits. if odd (length bits) then None else Some ()),
           ftx_message_decode = (\<lambda>_ ht. (Some ''CQ K1ABC FN42'', ht)),
           FT8_SYMBOL_PERIOD = 0.16, kFTX_LDPC_generator = (\<lambda>_ _. 0)\<rparr>"

definition ft8_init :: ft8 where
  "ft8_init =
     \<lparr>zmq_port = 5580, ws_client = True, capture_enabled = False, window_buf = [], window_start = 0,
      osd_enable = False, osd_order = 2, osd_score_floor = 0, osd_max_per_cycle = 64, osd_soft_thresh = 0,
      decode_threads = 1, refine_enable = False, refine_q = [], refine_run = False, refine_decode_cnt = 0,
      cand_report_t0 = 0, cand_sum = 0, cand_peak = 0, cand_scans = 0, cand_sat = 0,
      scan_table = hashtable_init, refine_table = hashtable_init, zmq_out = [], ws_out = [], captures = []\<rparr>"

theorem window_keeps_best_witness:
  "distinct (List.map fst (window_buf
     (publish_all lib0 [(''a'', 100, 1, 2, 30, 5), (''a'', 101, 1, 2, 31, 6)] ft8_init)))"
  using window_keeps_best [of ft8_init lib0 "[(''a'', 100, 1, 2, 30, 5), (''a'', 101, 1, 2, 31, 6)]"]
  by (simp add: ft8_init_def)
section \<open>What a scan leaves alone\<close>

text \<open>The configuration and the refine queue of two states agree.\<close>

definition same_core :: "ft8 \<Rightarrow> ft8 \<Rightarrow> bool" where
  "same_core s s' \<longleftrightarrow>
     osd_enable s' = osd_enable s \<and> osd_order s' = osd_order s \<and> osd_score_floor s' = osd_score_floor s \<and>
     osd_max_per_cycle s' = osd_max_per_cycle s \<and> osd_soft_thresh s' = osd_soft_thresh s \<and>
     refine_enable s' = refine_enable s \<and> refine_q s' = refine_q s"

named_theorems core_intros \<open>operations that keep the configuration and the queue\<close>

lemma same_core_refl [simp, core_intros]: "same_core s s"
  by (simp add: same_core_def)

lemma same_core_trans [trans]: "same_core s t \<Longrightarrow> same_core t u \<Longrightarrow> same_core s u"
  by (simp add: same_core_def)

lemma same_core_foldl: "(\<And>s x. same_core s (f s x)) \<Longrightarrow> same_core s (foldl f s xs)"
  by (induction xs arbitrary: s) (auto intro: same_core_trans)

lemma same_core_publishDecoded [core_intros]: "same_core s (publishDecoded w c f n u t s)"
  by (simp add: publishDecoded_def Let_def same_core_def)

lemma same_core_flush [core_intros]: "same_core s (flushWindow C w now s)"
proof -
  let ?s = "s\<lparr>window_buf := [], window_start := now\<rparr>"
  have "same_core ?s (foldl (\<lambda>s (call, w'). publishDecoded w call (ws_freq_hz w') (ws_snr w')
                                      (ws_unix_time w') (ws_time_offset w') s) ?s xs)" for xs
    by (rule same_core_foldl) (auto intro: core_intros)
  then show ?thesis by (simp add: flushWindow_def Let_def same_core_def)
qed

lemma same_core_publishSpot [core_intros]: "same_core s (publishSpot L x fo to ts sc t s)"
  by (simp add: publishSpot_def Let_def same_core_def split: option.splits)

lemma same_core_capture [core_intros]: "same_core s (captureCand st llr fo to ts sc t x d s)"
  by (simp add: captureCand_def same_core_def)

lemma same_core_report [core_intros]: "same_core s (cand_report r s)"
  by (simp add: cand_report_def Let_def same_core_def)

lemma same_core_tick [core_intros]: "same_core s (window_tick C w t s)"
  unfolding window_tick_def Let_def
  using same_core_flush [of "s\<lparr>window_start := t\<rparr>" C w t] same_core_flush [of s C w t]
  by (auto simp: same_core_def)

lemma same_core_decode_msg [core_intros]: "same_core s (snd (decode_msg L m s))"
  by (simp add: decode_msg_def same_core_def split: prod.splits)

lemma same_core_accept [core_intros]: "same_core s (fst (accept_cand L r i st d x (s, bins)))"
  unfolding accept_cand_def Let_def publish_cand_def capture_cand_def
  by (auto intro: core_intros same_core_trans)

lemma same_core_pass1: "same_core (fst (fst a)) (fst (fst (pass1_cand L r a c)))"
proof -
  obtain s bins os i bp where a: "a = ((s, bins), os)" "c = (i, bp)" by (metis surj_pair)
  show ?thesis
  proof (cases bp)
    case None
    then show ?thesis by (simp add: pass1_cand_def a)
  next
    case (Some m)
    obtain spot t where dec: "decode_msg L m s = (spot, t)" by (cases "decode_msg L m s")
    then have "same_core s t" using same_core_decode_msg [of s L m] by simp
    moreover have "same_core t (fst (fst (pass1_cand L r a c)))"
      using same_core_accept [of t L r i "''pass''" None "the spot" bins]
      by (cases spot) (simp_all add: pass1_cand_def a Some dec)
    ultimately show ?thesis unfolding a fst_conv by (rule same_core_trans)
  qed
qed

lemma same_core_pass1_all: "same_core (fst (fst a)) (fst (fst (foldl (pass1_cand L r) a cs)))"
proof (induction cs arbitrary: a)
  case (Cons c cs)
  show ?case unfolding foldl.simps by (rule same_core_trans [OF same_core_pass1 Cons.IH])
qed simp

section \<open>The refine queue\<close>

lemma enqueue_length: "length q \<le> kRefineQueueMax \<Longrightarrow> length (enqueue_job j q) \<le> kRefineQueueMax"
  by (simp add: enqueue_job_def kRefineQueueMax_def)

lemma enqueue_suffix:
  "length q \<le> kRefineQueueMax \<Longrightarrow>
     enqueue_job j q = drop (length q + 1 - kRefineQueueMax) (q @ [j])"
  by (auto simp: enqueue_job_def kRefineQueueMax_def)

text \<open>Queueing several jobs keeps the newest ones.\<close>

definition enqueue_all :: "refine_job list \<Rightarrow> refine_job list \<Rightarrow> refine_job list" where
  "enqueue_all js q = foldl (\<lambda>q j. enqueue_job j q) q js"

lemma enqueue_all_suffix:
  "length q \<le> kRefineQueueMax \<Longrightarrow>
     enqueue_all js q = drop (length q + length js - kRefineQueueMax) (q @ js)"
proof (induction js rule: rev_induct)
  case Nil
  then show ?case by (simp add: enqueue_all_def)
next
  case (snoc j js)
  let ?q = "enqueue_all js q"
  have q: "?q = drop (length q + length js - kRefineQueueMax) (q @ js)" using snoc by simp
  have "enqueue_all (js @ [j]) q = enqueue_job j ?q" by (simp add: enqueue_all_def)
  also have "\<dots> = drop (length ?q + 1 - kRefineQueueMax) (?q @ [j])"
    by (rule enqueue_suffix) (use q snoc.prems in simp)
  also have "\<dots> = drop (length q + length (js @ [j]) - kRefineQueueMax) (q @ js @ [j])"
  proof (cases "length q + length js \<le> kRefineQueueMax")
    case True
    then show ?thesis unfolding q by simp
  next
    case False
    define n where "n = length q + length js - kRefineQueueMax"
    have "length ?q = kRefineQueueMax" using False unfolding q by simp
    moreover have "n \<le> length (q @ js)" by (simp add: n_def)
    then have "?q @ [j] = drop n ((q @ js) @ [j])" unfolding q n_def [symmetric] drop_append [of n "q @ js"] by simp
    ultimately have "drop (length ?q + 1 - kRefineQueueMax) (?q @ [j]) = drop 1 (drop n ((q @ js) @ [j]))" by simp
    also have "\<dots> = drop (Suc n) ((q @ js) @ [j])" by (simp only: drop_drop) simp
    also have "Suc n = length q + length (js @ [j]) - kRefineQueueMax" using False by (simp add: n_def)
    finally show ?thesis by simp
  qed
  finally show ?case .
qed

text \<open>One candidate of the second pass adds at most one job, and only while the cycle has room.\<close>

lemma osd_accept_core:
  assumes "osd_accept L r i ok d bits (s, bins) = (decoded, s', bins')"
  shows "same_core s s'"
proof (cases "if ok then ftx_decode_from_bits L bits else None")
  case None
  then show ?thesis using assms by (simp add: osd_accept_def)
next
  case (Some m)
  obtain spot t where dec: "decode_msg L m s = (spot, t)" by (cases "decode_msg L m s")
  then have "same_core s t" using same_core_decode_msg [of s L m] by simp
  moreover have "same_core t s'"
    using assms same_core_accept [of t L r i "''osd''" "Some d" "the spot" bins]
    by (cases spot) (simp_all add: osd_accept_def Some dec del: if_split)
  ultimately show ?thesis by (rule same_core_trans)
qed

lemma pass2_cand_queue:
  assumes "pass2_cand L r ((s, bins), used) (i, ok, d, bits) = ((s', bins'), used')"
  shows "(refine_q s' = refine_q s \<and> used' = used \<or>
          refine_q s' = enqueue_job (job_of r i) (refine_q s) \<and> used' = used + 1 \<and>
            used < kRefineMaxPerCycle \<and> refine_enable s) \<and>
         refine_enable s' = refine_enable s"
proof -
  obtain decoded s1 b1 where acc: "osd_accept L r i ok d bits (s, bins) = (decoded, s1, b1)"
    by (cases "osd_accept L r i ok d bits (s, bins)")
  have "same_core s s1" using acc by (rule osd_accept_core)
  moreover have "refine_q (capture_cand r i x y z t) = refine_q t"
    "refine_enable (capture_cand r i x y z t) = refine_enable t" for x y z t
    by (simp_all add: capture_cand_def captureCand_def)
  ultimately show ?thesis
    using assms by (auto simp: pass2_cand_def acc same_core_def Let_def split: if_splits)
qed
lemma pass2_all_queue:
  assumes "foldl (pass2_cand L r) ((s, bins), used) cs = ((s', bins'), used')"
  shows "\<exists>js. subseq js (List.map fst cs) \<and> refine_q s' = enqueue_all (List.map (job_of r) js) (refine_q s) \<and>
           used' = used + int (length js) \<and> (js \<noteq> [] \<longrightarrow> refine_enable s \<and> used' \<le> kRefineMaxPerCycle) \<and>
           refine_enable s' = refine_enable s"
  using assms
proof (induction cs arbitrary: s' bins' used' rule: rev_induct)
  case Nil
  then show ?case by (intro exI [of _ "[]"]) (simp add: enqueue_all_def)
next
  case (snoc c cs)
  obtain t tb tu where mid: "foldl (pass2_cand L r) ((s, bins), used) cs = ((t, tb), tu)" by (metis surj_pair)
  obtain js where js: "subseq js (List.map fst cs)" "refine_q t = enqueue_all (List.map (job_of r) js) (refine_q s)"
      "tu = used + int (length js)" "js \<noteq> [] \<longrightarrow> refine_enable s \<and> tu \<le> kRefineMaxPerCycle"
      "refine_enable t = refine_enable s"
    using snoc.IH [OF mid] by blast
  obtain i ok d bits where c: "c = (i, ok, d, bits)" by (cases c)
  have "pass2_cand L r ((t, tb), tu) (i, ok, d, bits) = ((s', bins'), used')" using snoc.prems mid c by simp
  from pass2_cand_queue [OF this] show ?case
  proof (elim conjE disjE)
    assume "refine_q s' = refine_q t" "used' = tu" "refine_enable s' = refine_enable t"
    then show ?case using js by (intro exI [of _ js]) (auto simp: c)
  next
    assume q: "refine_q s' = enqueue_job (job_of r i) (refine_q t)" "used' = tu + 1" "tu < kRefineMaxPerCycle"
      "refine_enable t" "refine_enable s' = refine_enable t"
    have "refine_q s' = enqueue_all (List.map (job_of r) (js @ [i])) (refine_q s)"
      using q js by (simp add: enqueue_all_def)
    moreover have "subseq (js @ [i]) (List.map fst (cs @ [c]))" using js(1) by (simp add: c)
    ultimately show ?case using q js by (intro exI [of _ "js @ [i]"]) simp
  qed
qed

text \<open>
  One scan adds at most two jobs to the refine queue, for candidates that the
  ordered-statistics pass tried and nobody decoded, in the order of that pass; the queue never
  holds more than 32 jobs, and what it drops is the oldest.  The scan always returns when the
  per-cycle cap is not negative.
\<close>

theorem scan_refine_jobs:
  assumes cap: "0 \<le> osd_max_per_cycle s" and len: "length (refine_q s) \<le> 32"
  shows "\<exists>s' js. decodeAndPublishContinuous L C ws_throws r s = Some s' \<and>
           length js \<le> 2 \<and> (js \<noteq> [] \<longrightarrow> refine_enable s \<and> osd_enable s) \<and>
           refine_q s' = drop (length (refine_q s) + length js - 32) (refine_q s @ List.map (job_of r) js) \<and>
           length (refine_q s') \<le> 32"
proof -
  let ?n = "unat (min (sr_count r) CONT_CAND_MAX)"
  let ?s1 = "window_tick C ws_throws (sr_timestamp r) (cand_report r s)"
  let ?ord = "scan_order C r ?n"
  obtain s2 bins osd_fail
    where p1: "foldl (pass1_cand L r) ((?s1, {}), []) (zip ?ord (bp_results L r ?ord)) = ((s2, bins), osd_fail)"
    by (metis surj_pair)
  have c1: "same_core s ?s1" by (rule same_core_trans [OF same_core_report same_core_tick])
  have c2: "same_core s s2"
    using same_core_trans [OF c1] same_core_pass1_all [of "((?s1, {}), [])" L r "zip ?ord (bp_results L r ?ord)"] p1
    by simp
  have no_osd: ?thesis if "decodeAndPublishContinuous L C ws_throws r s = Some t" "same_core s t" for t
    using that len by (intro exI [of _ t] exI [of _ "[]"]) (simp add: same_core_def)
  show ?thesis
  proof (cases "?n = 0 \<or> \<not> osd_enable s2 \<or> osd_fail = []")
    case True
    then show ?thesis
      using no_osd [of "cand_report r s"] no_osd [of s2] c2 p1 same_core_report [of s r]
      by (auto simp: decodeAndPublishContinuous_def Let_def)
  next
    case False
    then have n: "?n \<noteq> 0" and en: "osd_enable s2" and ne: "osd_fail \<noteq> []" by auto
    have "0 \<le> osd_max_per_cycle s2" using cap c2 by (simp add: same_core_def)
    then have "osd_cands C r (osd_max_per_cycle s2) osd_fail \<noteq> None" by (simp add: osd_cands_def Let_def)
    then obtain cands where cands: "osd_cands C r (osd_max_per_cycle s2) osd_fail = Some cands" by blast
    obtain s' b' u' where p2: "foldl (pass2_cand L r) ((s2, bins), 0) (zip cands (osd_results L r s2 cands)) = ((s', b'), u')"
      by (metis surj_pair)
    have res: "decodeAndPublishContinuous L C ws_throws r s = Some s'"
      using n en ne cands p1 p2 by (simp add: decodeAndPublishContinuous_def Let_def)
    obtain js where js: "refine_q s' = enqueue_all (List.map (job_of r) js) (refine_q s2)"
        "u' = int (length js)" "js \<noteq> [] \<longrightarrow> refine_enable s2 \<and> u' \<le> kRefineMaxPerCycle"
      using pass2_all_queue [OF p2] by auto
    have q: "refine_q s' = drop (length (refine_q s) + length js - 32) (refine_q s @ List.map (job_of r) js)"
      using js(1) c2 len enqueue_all_suffix [of "refine_q s" "List.map (job_of r) js"]
      by (simp add: same_core_def kRefineQueueMax_def)
    have "length js \<le> 2" using js(2,3) by (cases "js = []") (auto simp: kRefineMaxPerCycle_def)
    then show ?thesis
      using res q js(3) c2 en len by (intro exI [of _ s'] exI [of _ js]) (auto simp: same_core_def)
  qed
qed

definition orders0 :: cpp_orders where
  "orders0 = \<lparr>nth_element_desc = (\<lambda>f k xs. sort_key (\<lambda>x. - f x) xs), sort_desc = (\<lambda>f xs. sort_key (\<lambda>x. - f x) xs),
              bin_order = (\<lambda>xs. xs), window_order = (\<lambda>xs. xs)\<rparr>"

lemma orders0_ok: "orders_ok orders0"
proof -
  have srt: "sorted_wrt (\<lambda>x y. f y \<le> f x) (sort_key (\<lambda>x. - f x) xs)" for f :: "nat \<Rightarrow> int" and xs
  proof -
    have "sorted (List.map (\<lambda>x. - f x) (sort_key (\<lambda>x. - f x) xs))" by simp
    then show ?thesis unfolding sorted_map by (rule sorted_wrt_mono_rel [rotated]) simp
  qed
  have "f y \<le> f x" if "x \<in> set (take k zs)" "y \<in> set (drop k zs)" "sorted_wrt (\<lambda>x y. f y \<le> f x) zs"
    for f :: "nat \<Rightarrow> int" and zs k x y
    using that by (metis append_take_drop_id sorted_wrt_append)
  then show ?thesis using srt by (auto simp: orders_ok_def orders0_def)
qed

definition scan0 :: scan_result where
  "scan0 = \<lparr>sr_count = 1, sr_fo = [1119], sr_to = [3], sr_ts = [1], sr_score = [30],
            sr_log174 = replicate 174 (-1), sr_timestamp = 100, sr_snap_start = 7\<rparr>"

theorem scan_refine_jobs_witness:
  "\<exists>s'. decodeAndPublishContinuous lib0 orders0 (\<lambda>_. False) scan0 (setRefineEnabled True ft8_init) = Some s' \<and>
        length (refine_q s') \<le> 32"
  using scan_refine_jobs [of "setRefineEnabled True ft8_init" lib0 orders0 "\<lambda>_. False" scan0]
  by (auto simp: setRefineEnabled_def ft8_init_def)
section \<open>The gate of the ordered-statistics pass\<close>

text \<open>What the map of the best candidate per bin holds for bin \<open>b\<close> after the failures \<open>xs\<close>.\<close>

definition best_bin :: "scan_result \<Rightarrow> nat list \<Rightarrow> int \<Rightarrow> nat option \<Rightarrow> bool" where
  "best_bin r xs b io \<longleftrightarrow>
     (case io of
        None \<Rightarrow> b \<notin> fo_of r ` set xs
      | Some i \<Rightarrow> i \<in> set xs \<and> fo_of r i = b \<and> (\<forall>j\<in>set xs. fo_of r j = b \<longrightarrow> score_of r j \<le> score_of r i))"

lemma best_bin_fold:
  "distinct (List.map fst (foldl (best_step r) [] xs)) \<and> best_bin r xs b (map_of (foldl (best_step r) [] xs) b)"
proof (induction xs arbitrary: b rule: rev_induct)
  case Nil
  then show ?case by (simp add: best_bin_def)
next
  case (snoc x xs)
  define m where "m = foldl (best_step r) [] xs"
  have IH: "distinct (List.map fst m)" "best_bin r xs b (map_of m b)" using snoc by (auto simp: m_def)
  have "distinct (List.map fst (best_step r m x))"
    using IH(1) by (simp add: best_step_def distinct_update split: option.splits)
  moreover have "best_bin r (xs @ [x]) b (map_of (best_step r m x) b)"
    using IH(2) by (auto simp: best_step_def best_bin_def update_conv image_iff split: option.splits)
  ultimately show ?case by (simp add: m_def)
qed

text \<open>
  The candidates of the ordered-statistics pass are at most as many as the per-cycle cap,
  strongest first, one per frequency bin and the strongest of its bin among the failures; a
  failure whose bin is not represented was cut by the cap and is no stronger than any candidate
  that was kept.
\<close>

theorem osd_cands_gate:
  assumes C: "orders_ok C" and res: "osd_cands C r max_per_cycle osd_fail = Some cands"
  shows "int (length cands) \<le> max_per_cycle \<and> sorted_wrt (\<lambda>i j. score_of r j \<le> score_of r i) cands \<and>
         distinct (List.map (fo_of r) cands) \<and> set cands \<subseteq> set osd_fail \<and>
         (\<forall>i\<in>set cands. \<forall>j\<in>set osd_fail. fo_of r j = fo_of r i \<longrightarrow> score_of r j \<le> score_of r i) \<and>
         (\<forall>j\<in>set osd_fail. fo_of r j \<in> fo_of r ` set cands \<or>
            int (length cands) = max_per_cycle \<and> (\<forall>i\<in>set cands. score_of r j \<le> score_of r i))"
proof -
  let ?m = "foldl (best_step r) [] osd_fail"
  define cs where "cs = sort_desc C (score_of r) (List.map snd (bin_order C ?m))"
  have ms: "mset cs = mset (List.map snd ?m)" and srt: "sorted_wrt (\<lambda>i j. score_of r j \<le> score_of r i) cs"
  proof -
    have "mset (bin_order C ?m) = mset ?m" "mset cs = mset (List.map snd (bin_order C ?m))"
      "sorted_wrt (\<lambda>i j. score_of r j \<le> score_of r i) cs"
      using C by (simp_all add: orders_ok_def cs_def)
    then show "mset cs = mset (List.map snd ?m)" "sorted_wrt (\<lambda>i j. score_of r j \<le> score_of r i) cs"
      by (metis mset_map, blast)
  qed
  have dist_keys: "distinct (List.map fst ?m)" using best_bin_fold by blast
  have entry: "best_bin r osd_fail b (Some i)" if "(b, i) \<in> set ?m" for b i
    using best_bin_fold [of r osd_fail b] map_of_is_SomeI [OF dist_keys that] by simp
  have keys: "List.map (fo_of r) (List.map snd ?m) = List.map fst ?m"
    using entry by (fastforce simp: best_bin_def)
  have dist_cs: "distinct (List.map (fo_of r) cs)"
  proof -
    have "mset (List.map (fo_of r) cs) = mset (List.map (fo_of r) (List.map snd ?m))"
      using ms by (metis mset_map)
    then show ?thesis unfolding keys using dist_keys mset_eq_imp_distinct_iff by blast
  qed
  have in_cs: "i \<in> set cs \<longleftrightarrow> (\<exists>b. (b, i) \<in> set ?m)" for i
    using arg_cong [OF ms, of set_mset] by (auto simp: image_iff) force+
  have best: "i \<in> set osd_fail \<and> (\<forall>j\<in>set osd_fail. fo_of r j = fo_of r i \<longrightarrow> score_of r j \<le> score_of r i)"
    if "i \<in> set cs" for i
    using that entry by (auto simp: in_cs best_bin_def)
  have cover: "\<exists>i\<in>set cs. fo_of r i = fo_of r j" if "j \<in> set osd_fail" for j
  proof -
    have "map_of ?m (fo_of r j) \<noteq> None"
      using best_bin_fold [of r osd_fail "fo_of r j"] that by (auto simp: best_bin_def split: option.splits)
    then obtain i where "map_of ?m (fo_of r j) = Some i" by blast
    then have "(fo_of r j, i) \<in> set ?m" by (rule map_of_SomeD)
    then have "i \<in> set cs" "fo_of r i = fo_of r j" using in_cs entry unfolding best_bin_def option.case by blast+
    then show ?thesis by blast
  qed
  have cands: "cands = take (length cands) cs" "int (length cands) \<le> max_per_cycle"
    "length cands = length cs \<or> int (length cands) = max_per_cycle"
    using res by (auto simp: osd_cands_def cs_def [symmetric] Let_def split: if_splits)
  have sub: "set cands \<subseteq> set cs" using cands(1) by (metis set_take_subset)
  have rest: "score_of r k \<le> score_of r i" if "k \<in> set (drop (length cands) cs)" "i \<in> set cands" for i k
  proof -
    have "sorted_wrt (\<lambda>i j. score_of r j \<le> score_of r i) (take (length cands) cs @ drop (length cands) cs)"
      using srt by simp
    then show ?thesis using that cands(1) unfolding sorted_wrt_append by metis
  qed
  have cut: "fo_of r j \<in> fo_of r ` set cands \<or>
      int (length cands) = max_per_cycle \<and> (\<forall>i\<in>set cands. score_of r j \<le> score_of r i)"
    if j: "j \<in> set osd_fail" for j
  proof -
    obtain k where k: "k \<in> set cs" "fo_of r k = fo_of r j" using cover [OF j] by blast
    show ?thesis
    proof (cases "k \<in> set cands")
      case True
      then have "fo_of r j \<in> fo_of r ` set cands" using k(2) by (metis imageI)
      then show ?thesis ..
    next
      case False
      then have "k \<in> set (drop (length cands) cs)"
        using k(1) cands(1) by (metis Un_iff append_take_drop_id set_append)
      moreover from this have "length cands \<noteq> length cs" by auto
      moreover have "score_of r j \<le> score_of r k" using best [OF k(1)] j k(2) by simp
      ultimately show ?thesis using rest cands(3) order_trans by blast
    qed
  qed
  have "sorted_wrt (\<lambda>i j. score_of r j \<le> score_of r i) cands" "distinct (List.map (fo_of r) cands)"
    using srt dist_cs cands(1) by (metis sorted_wrt_take, metis distinct_take take_map)
  then show ?thesis using cands(2) sub best cut by blast
qed

theorem osd_cands_gate_witness:
  "\<exists>cands. osd_cands orders0 scan0 64 [0] = Some cands \<and> int (length cands) \<le> 64 \<and> set cands \<subseteq> {0}"
proof -
  have "osd_cands orders0 scan0 64 [0] \<noteq> None" by (simp add: osd_cands_def Let_def)
  then obtain cands where "osd_cands orders0 scan0 64 [0] = Some cands" by blast
  then show ?thesis using osd_cands_gate [OF orders0_ok] by fastforce
qed
section \<open>Where the spots come from\<close>

text \<open>
  Candidate \<open>i\<close> of the scan decodes to the text \<open>x\<close>: by belief propagation, or by
  ordered-statistics decoding within the distance gate and through the CRC gate.
\<close>

definition cand_decodes :: "'msg ft8_lib \<Rightarrow> scan_result \<Rightarrow> ft8 \<Rightarrow> nat \<Rightarrow> string \<Rightarrow> bool" where
  "cand_decodes L r s i x \<longleftrightarrow>
     (\<exists>m ht. fst (ftx_message_decode L m ht) = Some x \<and>
        (ftx_decode_from_llr L (llr_of r i) kLDPC_iterations = Some m \<or>
         osd_enable s \<and> (\<exists>bits d.
           ft8_osd_decode (kFTX_LDPC_generator L) (llr_of r i) (osd_order s) = Some (bits, d) \<and>
           (osd_soft_thresh s \<le> 0 \<or> d \<le> osd_soft_thresh s) \<and> ftx_decode_from_bits L bits = Some m)))"

definition cand_spot :: "'msg ft8_lib \<Rightarrow> scan_result \<Rightarrow> nat \<Rightarrow> string \<Rightarrow> window_spot" where
  "cand_spot L r i x = spot_of L (x, fo_of r i, to_of r i, ts_of r i, score_of r i, sr_timestamp r)"

definition window_from :: "'msg ft8_lib \<Rightarrow> scan_result \<Rightarrow> nat \<Rightarrow> ft8 \<Rightarrow> ft8 \<Rightarrow> bool" where
  "window_from L r n s t \<longleftrightarrow>
     (\<forall>(x, w)\<in>set (window_buf t). (x, w) \<in> set (window_buf s) \<or>
        (\<exists>i<n. cand_decodes L r s i x \<and> w = cand_spot L r i x))"

lemma window_fromI_buf: "window_from L r n s t \<Longrightarrow> window_buf u = window_buf t \<Longrightarrow> window_from L r n s u"
  by (simp add: window_from_def)

lemma set_update_subset: "set (AList.update k v xs) \<subseteq> insert (k, v) (set xs)"
  by (induction xs) auto

lemma decode_msg_buf: "window_buf (snd (decode_msg L m s)) = window_buf s"
  by (simp add: decode_msg_def split: prod.splits)

lemma capture_buf: "window_buf (capture_cand r i st x d s) = window_buf s"
  by (simp add: capture_cand_def captureCand_def)

lemma publishDecoded_buf: "window_buf (publishDecoded w c f n u t s) = window_buf s"
  by (simp add: publishDecoded_def Let_def)

lemma flush_empties: "window_buf (flushWindow C w now s) = []"
proof -
  have "window_buf (foldl (\<lambda>s (call, w'). publishDecoded w call (ws_freq_hz w') (ws_snr w')
                                      (ws_unix_time w') (ws_time_offset w') s) t xs) = window_buf t"
    for t and xs :: "(string \<times> window_spot) list"
    by (induction xs arbitrary: t) (auto simp: publishDecoded_buf)
  then show ?thesis by (simp add: flushWindow_def Let_def)
qed

lemma tick_buf: "window_buf (window_tick C w t s) = window_buf s \<or> window_buf (window_tick C w t s) = []"
  by (simp add: window_tick_def Let_def flush_empties)

lemma report_buf: "window_buf (cand_report r s) = window_buf s"
  by (simp add: cand_report_def Let_def)

lemma accept_window:
  assumes "window_from L r n s t" and "i < n" and "cand_decodes L r s i x"
  shows "window_from L r n s (fst (accept_cand L r i st d x (t, bins)))"
proof -
  have "set (window_buf (publish_cand L r i x t)) \<subseteq> insert (x, cand_spot L r i x) (set (window_buf t))"
    using set_update_subset [of x "cand_spot L r i x" "window_buf t"]
    unfolding publish_cand_def publishSpot_buf Let_def cand_spot_def by auto
  then have "window_from L r n s (publish_cand L r i x t)"
    using assms unfolding window_from_def by blast
  then show ?thesis
    by (auto simp: accept_cand_def Let_def intro: window_fromI_buf simp: capture_buf)
qed

lemma cand_decodes_core: "same_core s t \<Longrightarrow> cand_decodes L r t i x = cand_decodes L r s i x"
  by (simp add: same_core_def cand_decodes_def)

lemma pass1_window:
  assumes inv: "window_from L r n s (fst (fst a))" and c: "c \<in> set (zip ord (bp_results L r ord))"
    and ord: "set ord \<subseteq> {..<n}"
  shows "window_from L r n s (fst (fst (pass1_cand L r a c))) \<and>
         set (snd (pass1_cand L r a c)) \<subseteq> insert (fst c) (set (snd a))"
proof -
  obtain t bins os i bp where a: "a = ((t, bins), os)" "c = (i, bp)" by (metis surj_pair)
  have i: "i < n" and bp: "bp = ftx_decode_from_llr L (llr_of r i) kLDPC_iterations"
    using c ord by (auto simp: a bp_results_def)
  show ?thesis
  proof (cases bp)
    case None
    then show ?thesis using inv by (auto simp: pass1_cand_def a)
  next
    case (Some m)
    obtain spot u where dec: "decode_msg L m t = (spot, u)" by (cases "decode_msg L m t")
    have u: "window_from L r n s u"
      using inv decode_msg_buf [of L m t] dec by (auto simp: a intro: window_fromI_buf)
    show ?thesis
    proof (cases spot)
      case None
      then show ?thesis using u by (auto simp: pass1_cand_def a Some dec)
    next
      case x: (Some x)
      have "fst (ftx_message_decode L m (scan_table t)) = Some x"
        using dec x by (auto simp: decode_msg_def split: prod.splits)
      then have "cand_decodes L r s i x" using bp Some unfolding cand_decodes_def by metis
      then show ?thesis using accept_window [OF u i] by (auto simp: pass1_cand_def a Some dec x)
    qed
  qed
qed

lemma pass1_all_window:
  assumes "window_from L r n s t" and ord: "set ord \<subseteq> {..<n}" and "set cs \<subseteq> set (zip ord (bp_results L r ord))"
    and "foldl (pass1_cand L r) ((t, {}), []) cs = ((u, bins), os)"
  shows "window_from L r n s u \<and> set os \<subseteq> {..<n}"
  using assms(3,4)
proof (induction cs arbitrary: u bins os rule: rev_induct)
  case Nil
  then show ?case using assms(1) by simp
next
  case (snoc c cs)
  obtain v vb vo where mid: "foldl (pass1_cand L r) ((t, {}), []) cs = ((v, vb), vo)" by (metis surj_pair)
  have IH: "window_from L r n s v" "set vo \<subseteq> {..<n}" using snoc.IH [OF _ mid] snoc.prems(1) by auto
  have c: "c \<in> set (zip ord (bp_results L r ord))" using snoc.prems(1) by simp
  then have "fst c < n" using ord set_zip_leftD [of "fst c" "snd c"] by auto
  moreover have "pass1_cand L r ((v, vb), vo) c = ((u, bins), os)" using snoc.prems(2) mid by simp
  ultimately show ?case
    using pass1_window [of L r n s "((v, vb), vo)" c ord] IH c ord by auto
qed

lemma pass2_window:
  assumes inv: "window_from L r n s t" and core: "same_core s s2" and en: "osd_enable s" and i: "i < n"
    and run: "(ok, d, bits) = osd_run L (osd_order s2) (osd_soft_thresh s2) (llr_of r i)"
  shows "window_from L r n s (fst (fst (pass2_cand L r ((t, bins), used) (i, ok, d, bits))))"
proof -
  obtain decoded u b where acc: "osd_accept L r i ok d bits (t, bins) = (decoded, u, b)"
    by (cases "osd_accept L r i ok d bits (t, bins)")
  have "window_from L r n s u"
  proof (cases "if ok then ftx_decode_from_bits L bits else None")
    case None
    then show ?thesis using inv acc by (simp add: osd_accept_def)
  next
    case (Some m)
    then have ok: ok and m: "ftx_decode_from_bits L bits = Some m" by (auto split: if_splits)
    obtain spot v where dec: "decode_msg L m t = (spot, v)" by (cases "decode_msg L m t")
    have v: "window_from L r n s v"
      using inv decode_msg_buf [of L m t] dec by (auto intro: window_fromI_buf)
    show ?thesis
    proof (cases spot)
      case None
      then show ?thesis using v acc ok m dec by (simp add: osd_accept_def)
    next
      case x: (Some x)
      have "fst (ftx_message_decode L m (scan_table t)) = Some x"
        using dec x by (auto simp: decode_msg_def split: prod.splits)
      moreover have "ft8_osd_decode (kFTX_LDPC_generator L) (llr_of r i) (osd_order s) = Some (bits, d) \<and>
          (osd_soft_thresh s \<le> 0 \<or> d \<le> osd_soft_thresh s)"
        using run ok core by (auto simp: osd_run_def same_core_def split: option.splits)
      ultimately have "cand_decodes L r s i x" using m en unfolding cand_decodes_def by blast
      then have "window_from L r n s (fst (accept_cand L r i ''osd'' (Some d) x (v, bins)))"
        by (rule accept_window [OF v i])
      then show ?thesis using acc ok m dec x by (simp add: osd_accept_def)
    qed
  qed
  then show ?thesis
    by (auto simp: pass2_cand_def acc Let_def capture_buf intro: window_fromI_buf)
qed

lemma pass2_all_window:
  assumes "window_from L r n s t" and "same_core s s2" and "osd_enable s" and "set cands \<subseteq> {..<n}"
    and "set cs \<subseteq> set (zip cands (osd_results L r s2 cands))"
  shows "window_from L r n s (fst (fst (foldl (pass2_cand L r) ((t, b), used) cs)))"
  using assms(5)
proof (induction cs rule: rev_induct)
  case (snoc c cs)
  obtain v vb vu where mid: "foldl (pass2_cand L r) ((t, b), used) cs = ((v, vb), vu)" by (metis surj_pair)
  obtain i ok d bits where c: "c = (i, ok, d, bits)" by (cases c)
  have i: "i < n" and run: "(ok, d, bits) = osd_run L (osd_order s2) (osd_soft_thresh s2) (llr_of r i)"
    using snoc.prems assms(4) by (auto simp: c osd_results_def)
  have "window_from L r n s v" using snoc mid by simp
  from pass2_window [OF this assms(2,3) i run] show ?case by (simp add: mid c)
qed (use assms(1) in simp)

lemma scan_order_range: "orders_ok C \<Longrightarrow> set (scan_order C r n) \<subseteq> {..<n}"
proof -
  assume C: "orders_ok C"
  have "set (nth_element_desc C (score_of r) k [0..<n]) = {0..<n}" if "k < n" for k
  proof -
    have "mset (nth_element_desc C (score_of r) k [0..<n]) = mset [0..<n]"
      using C that by (simp add: orders_ok_def)
    then show ?thesis by (metis mset_eq_setD set_upt)
  qed
  then show ?thesis by (auto simp: scan_order_def dest!: in_set_takeD)
qed

lemma osd_cands_set:
  assumes C: "orders_ok C" and res: "osd_cands C r max_per_cycle osd_fail = Some cands"
  shows "set cands \<subseteq> set osd_fail"
proof -
  let ?m = "foldl (best_step r) [] osd_fail"
  have "set (sort_desc C (score_of r) (List.map snd (bin_order C ?m))) = snd ` set ?m"
    using C by (metis mset_eq_setD mset_map orders_ok_def set_map)
  moreover have "snd ` set ?m \<subseteq> set osd_fail"
  proof (rule subsetI, elim imageE)
    fix i p assume p: "i = snd p" "p \<in> set ?m"
    have "distinct (List.map fst ?m)" using best_bin_fold by blast
    then have "map_of ?m (fst p) = Some i" using p by (intro map_of_is_SomeI) simp_all
    moreover have "best_bin r osd_fail (fst p) (map_of ?m (fst p))" using best_bin_fold by blast
    ultimately show "i \<in> set osd_fail" by (simp only: best_bin_def option.case)
  qed
  moreover have "set cands \<subseteq> set (sort_desc C (score_of r) (List.map snd (bin_order C ?m)))"
    using res by (auto simp: osd_cands_def Let_def split: if_splits dest!: in_set_takeD)
  ultimately show ?thesis by blast
qed

lemma scan_returns:
  assumes "0 \<le> osd_max_per_cycle s" shows "decodeAndPublishContinuous L C ws_throws r s \<noteq> None"
proof -
  let ?n = "unat (min (sr_count r) CONT_CAND_MAX)"
  let ?s1 = "window_tick C ws_throws (sr_timestamp r) (cand_report r s)"
  let ?ord = "scan_order C r ?n"
  obtain s2 bins osd_fail
    where p1: "foldl (pass1_cand L r) ((?s1, {}), []) (zip ?ord (bp_results L r ?ord)) = ((s2, bins), osd_fail)"
    by (metis surj_pair)
  have "same_core s s2"
    using same_core_trans [OF same_core_trans [OF same_core_report same_core_tick]]
      same_core_pass1_all [of "((?s1, {}), [])" L r "zip ?ord (bp_results L r ?ord)"] p1
    by (metis fst_conv)
  then have "osd_cands C r (osd_max_per_cycle s2) osd_fail \<noteq> None"
    using assms by (simp add: osd_cands_def Let_def same_core_def)
  then show ?thesis using p1 by (auto simp: decodeAndPublishContinuous_def Let_def)
qed

text \<open>
  C10. Every spot in the window after a scan was there before, or comes from a candidate of this
  scan that decodes to its text by belief propagation or through the gates of the
  ordered-statistics pass, with the frequency, time and signal-to-noise ratio of that candidate.
\<close>

theorem scan_spot_provenance:
  assumes C: "orders_ok C" and res: "decodeAndPublishContinuous L C ws_throws r s = Some s'"
    and mem: "(x, w) \<in> set (window_buf s')"
  shows "(x, w) \<in> set (window_buf s) \<or>
         (\<exists>i<unat (min (sr_count r) CONT_CAND_MAX). cand_decodes L r s i x \<and> w = cand_spot L r i x)"
proof -
  let ?n = "unat (min (sr_count r) CONT_CAND_MAX)"
  let ?s1 = "window_tick C ws_throws (sr_timestamp r) (cand_report r s)"
  let ?ord = "scan_order C r ?n"
  obtain s2 bins osd_fail
    where p1: "foldl (pass1_cand L r) ((?s1, {}), []) (zip ?ord (bp_results L r ?ord)) = ((s2, bins), osd_fail)"
    by (metis surj_pair)
  have w0: "window_from L r ?n s (cand_report r s)" "window_from L r ?n s ?s1"
    using tick_buf [of C ws_throws "sr_timestamp r" "cand_report r s"] report_buf [of r s]
    by (auto simp: window_from_def)
  have w2: "window_from L r ?n s s2" and os: "set osd_fail \<subseteq> {..<?n}"
    using pass1_all_window [OF w0(2) scan_order_range [OF C] order_refl p1] by auto
  have core: "same_core s s2"
    using same_core_trans [OF same_core_trans [OF same_core_report same_core_tick]]
      same_core_pass1_all [of "((?s1, {}), [])" L r "zip ?ord (bp_results L r ?ord)"] p1
    by (metis fst_conv)
  have "window_from L r ?n s s'"
  proof (cases "?n = 0 \<or> \<not> osd_enable s2 \<or> osd_fail = []")
    case True
    then show ?thesis using res w0(1) w2 p1 by (auto simp: decodeAndPublishContinuous_def Let_def split: if_splits)
  next
    case False
    then obtain cands where cands: "osd_cands C r (osd_max_per_cycle s2) osd_fail = Some cands"
      and s': "s' = fst (fst (foldl (pass2_cand L r) ((s2, bins), 0) (zip cands (osd_results L r s2 cands))))"
      using res p1 by (auto simp: decodeAndPublishContinuous_def Let_def split: option.splits)
    have "set cands \<subseteq> {..<?n}" using osd_cands_set [OF C cands] os by blast
    moreover have "osd_enable s" using False core by (simp add: same_core_def)
    ultimately show ?thesis unfolding s' by (rule pass2_all_window [OF w2 core _ _ order_refl, rotated])
  qed
  then show ?thesis using mem by (auto simp: window_from_def)
qed

theorem scan_spot_provenance_witness:
  "\<exists>s'. decodeAndPublishContinuous lib0 orders0 (\<lambda>_. False) (scan0\<lparr>sr_log174 := replicate 174 1\<rparr>) ft8_init = Some s' \<and>
        fst ` set (window_buf s') \<subseteq> {''CQ K1ABC FN42''}"
proof -
  let ?r = "scan0\<lparr>sr_log174 := replicate 174 1\<rparr>"
  have "decodeAndPublishContinuous lib0 orders0 (\<lambda>_. False) ?r ft8_init \<noteq> None"
    by (rule scan_returns) (simp add: ft8_init_def)
  then obtain s' where s': "decodeAndPublishContinuous lib0 orders0 (\<lambda>_. False) ?r ft8_init = Some s'" by blast
  have "x = ''CQ K1ABC FN42''" if "(x, w) \<in> set (window_buf s')" for x w
    using scan_spot_provenance [OF orders0_ok s' that] by (auto simp: ft8_init_def cand_decodes_def lib0_def)
  then have "fst ` set (window_buf s') \<subseteq> {''CQ K1ABC FN42''}" by force
  then show ?thesis using s' by blast
qed

end
