(* ===== verification/FtxText.thy ===== *)
theory FtxText
  imports Prelude "HOL-Library.Sublist"
begin

text \<open>
  The text utilities of the bundled FT8 library (\<open>ft8_lib/ft8/text.c\<close>): trimming, tokens,
  two-digit numbers and the six character tables of the FT8 protocol.  A C string is the HOL
  string of the bytes before its terminating zero; a function that fills a caller's buffer
  returns the string it leaves there.  Characters compare by their byte value: the comparisons
  of the source are all against ASCII bounds from both sides, so the sign of \<open>char\<close> is immaterial.
\<close>

section \<open>Characters\<close>

definition ord :: "char \<Rightarrow> int" where "ord c = of_char c"
definition chr :: "int \<Rightarrow> char" where "chr n = char_of n"

definition to_upper :: "char \<Rightarrow> char" where
  "to_upper c = (if ord (CHR ''a'') \<le> ord c \<and> ord c \<le> ord (CHR ''z'')
                 then chr (ord c - ord (CHR ''a'') + ord (CHR ''A'')) else c)"

definition in_range :: "char \<Rightarrow> char \<Rightarrow> char \<Rightarrow> bool" where
  "in_range c lo hi \<longleftrightarrow> ord lo \<le> ord c \<and> ord c \<le> ord hi"

definition is_digit :: "char \<Rightarrow> bool" where
  "is_digit c \<longleftrightarrow> ord (CHR ''0'') \<le> ord c \<and> ord c \<le> ord (CHR ''9'')"

definition is_letter :: "char \<Rightarrow> bool" where
  "is_letter c \<longleftrightarrow> ord (CHR ''A'') \<le> ord c \<and> ord c \<le> ord (CHR ''Z'') \<or>
                  ord (CHR ''a'') \<le> ord c \<and> ord c \<le> ord (CHR ''z'')"

definition is_space :: "char \<Rightarrow> bool" where "is_space c \<longleftrightarrow> c = CHR '' ''"

section \<open>Strings\<close>

text \<open>Reading a string at an index: the terminating zero follows the last character.\<close>

definition char_at :: "string \<Rightarrow> nat \<Rightarrow> char" where
  "char_at s i = (if i < length s then s ! i else CHR 0x00)"

fun trim_front :: "string \<Rightarrow> string" where
  "trim_front [] = []"
| "trim_front (c # s) = (if c = CHR '' '' then trim_front s else c # s)"

text \<open>The loop runs from the last character back.\<close>

definition trim_back :: "string \<Rightarrow> string" where
  "trim_back s = rev (trim_front (rev s))"

definition trim :: "string \<Rightarrow> string" where "trim s = trim_back (trim_front s)"
definition trim_copy :: "string \<Rightarrow> string" where "trim_copy s = trim_back (trim_front s)"

definition starts_with :: "string \<Rightarrow> string \<Rightarrow> bool" where
  "starts_with s pre \<longleftrightarrow> take (length pre) s = pre"

definition ends_with :: "string \<Rightarrow> string \<Rightarrow> bool" where
  "ends_with s suf \<longleftrightarrow> length suf \<le> length s \<and> drop (length s - length suf) s = suf"

definition equals :: "string \<Rightarrow> string \<Rightarrow> bool" where "equals s t \<longleftrightarrow> s = t"

fun fmtmsg_loop :: "char \<Rightarrow> string \<Rightarrow> string" where
  "fmtmsg_loop last_out [] = []"
| "fmtmsg_loop last_out (c # s) =
     (if c \<noteq> CHR '' '' \<or> last_out \<noteq> CHR '' '' then to_upper c # fmtmsg_loop (to_upper c) s
      else fmtmsg_loop last_out s)"

definition fmtmsg :: "string \<Rightarrow> string" where "fmtmsg s = fmtmsg_loop (CHR 0x00) s"

definition append_string :: "string \<Rightarrow> string \<Rightarrow> string" where "append_string s tok = s @ tok"

text \<open>
  \<open>copy_token\<close>: the token buffer of the given length, filled up with zeros (a token that is too
  long leaves no zero), and the rest of the string.
\<close>

fun until_space :: "string \<Rightarrow> string \<times> string" where
  "until_space [] = ([], [])"
| "until_space (c # s) =
     (if c = CHR '' '' then ([], c # s) else let (t, r) = until_space s in (c # t, r))"

definition copy_token :: "nat \<Rightarrow> string \<Rightarrow> string \<times> string" where
  "copy_token len s =
     (let (t, rest) = until_space s
      in (take len t @ replicate (len - length t) (CHR 0x00), trim_front rest))"

text \<open>The string in a buffer ends at the first zero.\<close>

definition c_string :: "string \<Rightarrow> string" where "c_string buf = takeWhile (\<lambda>c. c \<noteq> CHR 0x00) buf"

fun digits_value :: "nat \<Rightarrow> int \<Rightarrow> string \<Rightarrow> int" where
  "digits_value 0 res s = res"
| "digits_value (Suc n) res [] = res"
| "digits_value (Suc n) res (c # s) =
     (if \<not> is_digit c then res else digits_value n (res * 10 + (ord c - ord (CHR ''0''))) s)"

definition dd_to_int :: "string \<Rightarrow> nat \<Rightarrow> int" where
  "dd_to_int s len =
     (if char_at s 0 = CHR ''-'' then - digits_value (len - 1) 0 (drop 1 s)
      else if char_at s 0 = CHR ''+'' then digits_value (len - 1) 0 (drop 1 s)
      else digits_value len 0 s)"

text \<open>The digits for the divisors \<open>10 ^ (n - 1)\<close> down to 1.\<close>

fun dd_digits :: "nat \<Rightarrow> int \<Rightarrow> string" where
  "dd_digits 0 v = []"
| "dd_digits (Suc n) v =
     (let d = v div 10 ^ n in chr (ord (CHR ''0'') + d) # dd_digits n (v - d * 10 ^ n))"

definition int_to_dd :: "int \<Rightarrow> nat \<Rightarrow> bool \<Rightarrow> string" where
  "int_to_dd v width full_sign =
     (if v < 0 then CHR ''-'' # dd_digits (max 1 width) (- v)
      else if full_sign then CHR ''+'' # dd_digits (max 1 width) v
      else dd_digits (max 1 width) v)"

section \<open>Character tables\<close>

datatype char_table = FULL | ALPHANUM_SPACE_SLASH | ALPHANUM_SPACE | LETTERS_SPACE | ALPHANUM | NUMERIC

definition charn :: "int \<Rightarrow> char_table \<Rightarrow> char" where
  "charn c t =
     (if t \<noteq> ALPHANUM \<and> t \<noteq> NUMERIC \<and> c = 0 then CHR '' ''
      else let c = (if t \<noteq> ALPHANUM \<and> t \<noteq> NUMERIC then c - 1 else c)
      in if t \<noteq> LETTERS_SPACE \<and> c < 10 then chr (ord (CHR ''0'') + c)
      else let c = (if t \<noteq> LETTERS_SPACE then c - 10 else c)
      in if t \<noteq> NUMERIC \<and> c < 26 then chr (ord (CHR ''A'') + c)
      else let c = (if t \<noteq> NUMERIC then c - 26 else c)
      in if t = FULL \<and> c < 5 then ''+-./?'' ! nat c
      else if t = ALPHANUM_SPACE_SLASH \<and> c = 0 then CHR ''/''
      else CHR ''_'')"

definition nchar :: "char \<Rightarrow> char_table \<Rightarrow> int" where
  "nchar c t =
     (let n0 = (if t \<noteq> ALPHANUM \<and> t \<noteq> NUMERIC then 1 else 0);
          n1 = (if t \<noteq> LETTERS_SPACE then n0 + 10 else n0);
          n2 = (if t \<noteq> NUMERIC then n1 + 26 else n1)
      in if t \<noteq> ALPHANUM \<and> t \<noteq> NUMERIC \<and> c = CHR '' '' then 0
      else if t \<noteq> LETTERS_SPACE \<and> ord (CHR ''0'') \<le> ord c \<and> ord c \<le> ord (CHR ''9'') then n0 + (ord c - ord (CHR ''0''))
      else if t \<noteq> NUMERIC \<and> ord (CHR ''A'') \<le> ord c \<and> ord c \<le> ord (CHR ''Z'') then n1 + (ord c - ord (CHR ''A''))
      else if t = FULL \<and> c = CHR ''+'' then n2
      else if t = FULL \<and> c = CHR ''-'' then n2 + 1
      else if t = FULL \<and> c = CHR ''.'' then n2 + 2
      else if t = FULL \<and> c = CHR ''/'' then n2 + 3
      else if t = FULL \<and> c = CHR ''?'' then n2 + 4
      else if t = ALPHANUM_SPACE_SLASH \<and> c = CHR ''/'' then n2
      else -1)"

fun table_size :: "char_table \<Rightarrow> int" where
  "table_size FULL = 42"
| "table_size ALPHANUM_SPACE_SLASH = 38"
| "table_size ALPHANUM_SPACE = 37"
| "table_size LETTERS_SPACE = 27"
| "table_size ALPHANUM = 36"
| "table_size NUMERIC = 10"

lemma chr_ord [simp]: "chr (ord c) = c"
  by (simp add: chr_def ord_def)

lemma ord_chr [simp]: "0 \<le> n \<Longrightarrow> n < 256 \<Longrightarrow> ord (chr n) = n"
  by (simp add: chr_def ord_def of_char_of)

lemma ord_range [simp]: "0 \<le> ord c" "ord c < 256"
proof -
  have "ord c = int (of_char c)" unfolding ord_def by (metis of_nat_of_char)
  then show "0 \<le> ord c" "ord c < 256" by simp_all
qed

lemma ord_inj: "ord c = ord d \<longleftrightarrow> c = d"
  by (metis chr_ord)

lemma ord_const:
  "ord (CHR ''0'') = 48" "ord (CHR ''9'') = 57" "ord (CHR ''A'') = 65" "ord (CHR ''Z'') = 90"
  "ord (CHR ''a'') = 97" "ord (CHR ''z'') = 122" "ord (CHR '' '') = 32" "ord (CHR ''R'') = 82"
  "ord (CHR ''+'') = 43" "ord (CHR ''-'') = 45" "ord (CHR ''.'') = 46" "ord (CHR ''/'') = 47" "ord (CHR ''?'') = 63"
  by (simp_all add: ord_def)

lemma charn_nchar: "0 \<le> nchar c t \<Longrightarrow> charn (nchar c t) t = c"
  by (cases t) (auto simp: nchar_def charn_def ord_const split: if_splits)

lemma nchar_less: "nchar c t < table_size t"
  by (cases t) (auto simp: nchar_def ord_const)

lemma full_tail:
  assumes "36 < n" and "n < 42" shows "n = 37 \<or> n = 38 \<or> n = 39 \<or> n = 40 \<or> n = (41 :: int)"
  using assms by presburger

lemma nchar_charn:
  assumes "0 \<le> n" and "n < table_size t" shows "nchar (charn n t) t = n"
proof (cases "t = FULL \<and> 36 < n")
  case True
  then show ?thesis
    using assms full_tail [of n] by (auto simp: charn_def nchar_def ord_const Let_def)
next
  case False
  then show ?thesis
    using assms by (cases t) (auto simp: charn_def nchar_def ord_const Let_def simp flip: ord_inj)
qed

lemma charn_not_nul: "0 \<le> n \<Longrightarrow> n < table_size t \<Longrightarrow> charn n t \<noteq> CHR 0x00"
proof
  assume "0 \<le> n" "n < table_size t" "charn n t = CHR 0x00"
  then have "nchar (CHR 0x00) t = n" using nchar_charn by metis
  moreover have "nchar (CHR 0x00) t = -1" by (cases t) (auto simp: nchar_def ord_def)
  ultimately show False using \<open>0 \<le> n\<close> by simp
qed

end
