(* ===== verification/FtxPack.thy ===== *)
theory FtxPack
  imports FtxText Ft8Hash
begin

text \<open>
  Packing and unpacking the fields of an FT8 message (\<open>ft8_lib/ft8/message.c\<close>, static functions):
  callsigns in 28 bits (special tokens, a 22-bit hash, or a standard callsign), in 58 bits, and
  the grid or report in 15 bits.  The callsign hash interface is a parameter over a state \<open>'h\<close>
  (\<open>None\<close> for a null pointer); \<open>Ft8Hash\<close> provides the one of the receiver.  A function that
  returns a negative code returns \<open>None\<close> here.
\<close>

definition MAX22 :: u32 where "MAX22 = 4194304"
definition NTOKENS :: u32 where "NTOKENS = 2063592"
definition MAXGRID4 :: u16 where "MAXGRID4 = 32400"

record 'h hash_if =
  lookup_hash :: "hash_type \<Rightarrow> u32 \<Rightarrow> 'h \<Rightarrow> string option"
  save_hash :: "string \<Rightarrow> u32 \<Rightarrow> 'h \<Rightarrow> 'h"

definition ft8_hash_if :: "hashtable hash_if" where
  "ft8_hash_if = \<lparr>lookup_hash = hashtable_lookup, save_hash = hashtable_add\<rparr>"

section \<open>Hashed callsigns\<close>

definition trim_brackets :: "string \<Rightarrow> nat \<Rightarrow> string \<times> bool" where
  "trim_brackets s len =
     (if char_at s 0 = CHR ''<'' \<and> char_at s (len - 1) = CHR ''>''
      then (take (len - 2) (drop 1 s), True) else (take len s, False))"

definition add_brackets :: "string \<Rightarrow> string" where
  "add_brackets s = CHR ''<'' # s @ ''>''"

text \<open>The first 11 characters as a number of base 38, blanks for missing ones.\<close>

fun hash_chars :: "nat \<Rightarrow> string \<Rightarrow> u64 \<Rightarrow> u64 option" where
  "hash_chars 0 s n58 = Some n58"
| "hash_chars (Suc k) [] n58 = hash_chars k [] (38 * n58)"
| "hash_chars (Suc k) (c # s) n58 =
     (let j = nchar c ALPHANUM_SPACE_SLASH
      in if j < 0 then None else hash_chars k s (38 * n58 + word_of_int j))"

definition hash22 :: "u64 \<Rightarrow> u32" where
  "hash22 n58 = ucast (drop_bit (64 - 22) (47055833459 * n58) AND 0x3FFFFF)"

text \<open>The 22-bit hash; the 12-bit and 10-bit hashes are its top bits.\<close>

definition save_callsign :: "'h hash_if option \<Rightarrow> string \<Rightarrow> 'h \<Rightarrow> (u32 \<times> 'h) option" where
  "save_callsign hi cs h =
     (case hash_chars 11 cs 0 of
        None \<Rightarrow> None
      | Some n58 \<Rightarrow>
          (let n22 = hash22 n58
           in Some (n22, case hi of None \<Rightarrow> h | Some i \<Rightarrow> save_hash i cs n22 h)))"

definition n12_of :: "u32 \<Rightarrow> u16" where "n12_of n22 = ucast (drop_bit 10 n22)"
definition n10_of :: "u32 \<Rightarrow> u16" where "n10_of n22 = ucast (drop_bit 12 n22)"

definition lookup_callsign :: "'h hash_if option \<Rightarrow> hash_type \<Rightarrow> u32 \<Rightarrow> 'h \<Rightarrow> bool \<times> string" where
  "lookup_callsign hi ty hs h =
     (case (case hi of None \<Rightarrow> None | Some i \<Rightarrow> lookup_hash i ty hs h) of
        None \<Rightarrow> (False, ''<...>'')
      | Some c11 \<Rightarrow> (True, add_brackets c11))"

section \<open>Callsigns in 28 bits\<close>

text \<open>\<open>memcpy\<close> into the six-character buffer.\<close>

definition put_at :: "nat \<Rightarrow> string \<Rightarrow> string \<Rightarrow> string" where
  "put_at pos src buf = take pos buf @ src @ drop (pos + length src) buf"

definition basecall_buf :: "string \<Rightarrow> nat \<Rightarrow> string" where
  "basecall_buf cs len =
     (let c6 = replicate 6 (CHR '' '')
      in if starts_with cs ''3DA0'' \<and> 4 < len \<and> len \<le> 7
         then put_at 3 (take (len - 4) (drop 4 cs)) (put_at 0 ''3D0'' c6)
         else if starts_with cs ''3X'' \<and> is_letter (char_at cs 2) \<and> len \<le> 7
         then put_at 1 (take (len - 2) (drop 2 cs)) (put_at 0 ''Q'' c6)
         else if is_digit (char_at cs 2) \<and> len \<le> 6 then put_at 0 (take len cs) c6
         else if is_digit (char_at cs 1) \<and> len \<le> 5 then put_at 1 (take len cs) c6
         else c6)"

definition pack_basecall :: "string \<Rightarrow> nat \<Rightarrow> int" where
  "pack_basecall cs len =
     (if 2 < len then
        (let c6 = basecall_buf cs len;
             i0 = nchar (c6 ! 0) ALPHANUM_SPACE;
             i1 = nchar (c6 ! 1) ALPHANUM;
             i2 = nchar (c6 ! 2) NUMERIC;
             i3 = nchar (c6 ! 3) LETTERS_SPACE;
             i4 = nchar (c6 ! 4) LETTERS_SPACE;
             i5 = nchar (c6 ! 5) LETTERS_SPACE
         in if 0 \<le> i0 \<and> 0 \<le> i1 \<and> 0 \<le> i2 \<and> 0 \<le> i3 \<and> 0 \<le> i4 \<and> 0 \<le> i5
            then ((((i0 * 36 + i1) * 10 + i2) * 27 + i3) * 27 + i4) * 27 + i5
            else -1)
      else -1)"

text \<open>The packed callsign (\<open>None\<close> on error) with its suffix flag, and the hash table.\<close>

definition pack28 :: "string \<Rightarrow> 'h hash_if option \<Rightarrow> 'h \<Rightarrow> (u32 \<times> u8) option \<times> 'h" where
  "pack28 cs hi h =
     (if equals cs ''DE'' then (Some (0, 0), h)
      else if equals cs ''QRZ'' then (Some (1, 0), h)
      else if equals cs ''CQ'' then (Some (2, 0), h)
      else if starts_with cs ''CQ_'' \<and> length cs < 8 then (None, h)
      else
        (let suffix = ends_with cs ''/P'' \<or> ends_with cs ''/R'';
             ip = (if suffix then 1 else 0);
             length_base = (if suffix then length cs - 2 else length cs);
             n28 = pack_basecall cs length_base
         in if 0 \<le> n28 then
              case save_callsign hi cs h of
                None \<Rightarrow> (None, h)
              | Some (_, h) \<Rightarrow> (Some (NTOKENS + MAX22 + word_of_int n28, ip), h)
            else if 3 \<le> length cs \<and> length cs \<le> 11 then
              case save_callsign hi cs h of
                None \<Rightarrow> (None, h)
              | Some (n22, h) \<Rightarrow> (Some (NTOKENS + n22, 0), h)
            else (None, h)))"

text \<open>The last \<open>k\<close> digits of base 27, most significant first.\<close>

fun letters27 :: "nat \<Rightarrow> u32 \<Rightarrow> string \<Rightarrow> string" where
  "letters27 0 n acc = acc"
| "letters27 (Suc k) n acc = letters27 k (n div 27) (charn (uint (n mod 27)) LETTERS_SPACE # acc)"

definition basecall_chars :: "u32 \<Rightarrow> string" where
  "basecall_chars n =
     (let c5 = charn (uint (n mod 27)) LETTERS_SPACE; n = n div 27;
          c4 = charn (uint (n mod 27)) LETTERS_SPACE; n = n div 27;
          c3 = charn (uint (n mod 27)) LETTERS_SPACE; n = n div 27;
          c2 = charn (uint (n mod 10)) NUMERIC; n = n div 10;
          c1 = charn (uint (n mod 36)) ALPHANUM; n = n div 36;
          c0 = charn (uint (n mod 37)) ALPHANUM_SPACE
      in [c0, c1, c2, c3, c4, c5])"

definition unpack_basecall :: "u32 \<Rightarrow> string" where
  "unpack_basecall n =
     (let callsign6 = basecall_chars n
      in if starts_with callsign6 ''3D0'' \<and> \<not> is_space (callsign6 ! 3)
         then ''3DA0'' @ trim_copy (drop 3 callsign6)
         else if callsign6 ! 0 = CHR ''Q'' \<and> is_letter (callsign6 ! 1)
         then ''3X'' @ trim_copy (drop 1 callsign6)
         else trim_copy callsign6)"

text \<open>
  \<open>Inr\<close> is success.  \<open>Inl\<close> is a negative return, with what the function leaves in \<open>result\<close>: nothing (the caller
  has made it the empty string), a callsign that is too short, or the callsign without its suffix.
\<close>

definition unpack28 :: "u32 \<Rightarrow> u8 \<Rightarrow> u8 \<Rightarrow> 'h hash_if option \<Rightarrow> 'h \<Rightarrow> (string + string) \<times> 'h" where
  "unpack28 n28 ip i3 hi h =
     (if n28 < NTOKENS then
        if n28 \<le> 2 then
          (Inr (if n28 = 0 then ''DE'' else if n28 = 1 then ''QRZ'' else ''CQ''), h)
        else if n28 \<le> 1002 then (Inr (''CQ '' @ int_to_dd (uint (n28 - 3)) 3 False), h)
        else if n28 \<le> 532443 then (Inr (''CQ '' @ trim_front (letters27 4 (n28 - 1003) '''')), h)
        else (Inl [], h)
      else
        (let n28 = n28 - NTOKENS
         in if n28 < MAX22 then (Inr (snd (lookup_callsign hi HASH_22_BITS n28 h)), h)
            else
              (let res = unpack_basecall (n28 - MAX22)
               in if length res < 3 then (Inl res, h)
                  else if ip \<noteq> 0 \<and> i3 \<noteq> 1 \<and> i3 \<noteq> 2 then (Inl res, h)
                  else
                    (let res = (if ip \<noteq> 0 then if i3 = 1 then res @ ''/R'' else res @ ''/P'' else res)
                     in (Inr res, case save_callsign hi res h of None \<Rightarrow> h | Some (_, h) \<Rightarrow> h)))))"

section \<open>Callsigns in 58 bits\<close>

fun pack58_loop :: "nat \<Rightarrow> string \<Rightarrow> u64 \<Rightarrow> (u64 \<times> string) option" where
  "pack58_loop 0 s res = Some (res, [])"
| "pack58_loop (Suc k) [] res = Some (res, [])"
| "pack58_loop (Suc k) (c # s) res =
     (if c = CHR ''<'' then Some (res, [])
      else let j = nchar c ALPHANUM_SPACE_SLASH
           in if j < 0 then None
              else map_option (\<lambda>(r, c11). (r, c # c11)) (pack58_loop k s (res * 38 + word_of_int j)))"

definition pack58 :: "'h hash_if option \<Rightarrow> string \<Rightarrow> 'h \<Rightarrow> u64 option \<times> 'h" where
  "pack58 hi cs h =
     (let src = (if char_at cs 0 = CHR ''<'' then drop 1 cs else cs)
      in case pack58_loop 11 src 0 of
           None \<Rightarrow> (None, h)
         | Some (res, c11) \<Rightarrow>
             (case save_callsign hi c11 h of None \<Rightarrow> (None, h) | Some (_, h) \<Rightarrow> (Some res, h)))"

fun unpack58_chars :: "nat \<Rightarrow> u64 \<Rightarrow> string \<Rightarrow> string" where
  "unpack58_chars 0 n58 acc = acc"
| "unpack58_chars (Suc k) n58 acc =
     unpack58_chars k (n58 div 38) (charn (uint (n58 mod 38)) ALPHANUM_SPACE_SLASH # acc)"

text \<open>The text, whether a callsign was saved, and the hash table.\<close>

definition unpack58 :: "u64 \<Rightarrow> 'h hash_if option \<Rightarrow> 'h \<Rightarrow> string \<times> bool \<times> 'h" where
  "unpack58 n58 hi h =
     (let cs = trim_copy (unpack58_chars 11 n58 '''')
      in if 3 \<le> length cs
         then case save_callsign hi cs h of None \<Rightarrow> (cs, False, h) | Some (_, h) \<Rightarrow> (cs, True, h)
         else (cs, False, h))"

section \<open>Grid or report in 15 bits and the R flag\<close>

definition packgrid :: "string \<Rightarrow> u16" where
  "packgrid grid4 =
     (if grid4 = [] then MAXGRID4 + 1
      else if equals grid4 ''RRR'' then MAXGRID4 + 2
      else if equals grid4 ''RR73'' then MAXGRID4 + 3
      else if equals grid4 ''73'' then MAXGRID4 + 4
      else if in_range (char_at grid4 0) (CHR ''A'') (CHR ''R'') \<and> in_range (char_at grid4 1) (CHR ''A'') (CHR ''R'') \<and>
              is_digit (char_at grid4 2) \<and> is_digit (char_at grid4 3)
      then
        (let g = word_of_int (ord (char_at grid4 0) - ord (CHR ''A''));
             g = g * 18 + word_of_int (ord (char_at grid4 1) - ord (CHR ''A''));
             g = g * 10 + word_of_int (ord (char_at grid4 2) - ord (CHR ''0''))
         in g * 10 + word_of_int (ord (char_at grid4 3) - ord (CHR ''0'')))
      else if char_at grid4 0 = CHR ''R''
      then (MAXGRID4 + word_of_int (35 + dd_to_int (drop 1 grid4) 3)) OR 0x8000
      else MAXGRID4 + word_of_int (35 + dd_to_int grid4 3))"

definition unpackgrid :: "u16 \<Rightarrow> u8 \<Rightarrow> string" where
  "unpackgrid igrid4 ir =
     (if igrid4 \<le> MAXGRID4 then
        (let n = igrid4;
             d3 = chr (ord (CHR ''0'') + uint (n mod 10)); n = n div 10;
             d2 = chr (ord (CHR ''0'') + uint (n mod 10)); n = n div 10;
             d1 = chr (ord (CHR ''A'') + uint (n mod 18)); n = n div 18;
             d0 = chr (ord (CHR ''A'') + uint (n mod 18))
         in (if 0 < ir then ''R '' else []) @ [d0, d1, d2, d3])
      else
        (let irpt = uint igrid4 - uint MAXGRID4
         in if irpt = 1 then []
            else if irpt = 2 then ''RRR''
            else if irpt = 3 then ''RR73''
            else if irpt = 4 then ''73''
            else (if 0 < ir then ''R'' else []) @ int_to_dd (irpt - 35) 2 True))"

section \<open>Trimming\<close>

lemma trim_front_spaces: "CHR '' '' \<notin> set s \<Longrightarrow> trim_front (replicate n (CHR '' '') @ s) = s"
  by (induction n) (cases s; auto)+

lemma trim_copy_pad:
  assumes "CHR '' '' \<notin> set s" and "s \<noteq> []"
  shows "trim_copy (replicate a (CHR '' '') @ s @ replicate b (CHR '' '')) = s"
proof -
  have front: "trim_front (replicate n (CHR '' '') @ t @ u) = t @ u" if "CHR '' '' \<notin> set t" "t \<noteq> []" for n t u
    using that by (induction n) (cases t; auto)+
  have "trim_copy (replicate a (CHR '' '') @ s @ replicate b (CHR '' ''))
      = rev (trim_front (replicate b (CHR '' '') @ rev s @ []))"
    using front [OF assms] by (simp add: trim_copy_def trim_back_def)
  also have "\<dots> = s" using front [of "rev s" b "[]"] assms by simp
  finally show ?thesis .
qed
section \<open>Standard callsigns\<close>

lemma radix_bound:
  fixes a b c :: int
  assumes "0 \<le> a" "a < A" "0 \<le> c" "c < b" shows "0 \<le> a * b + c \<and> a * b + c < A * b"
proof -
  have "(a + 1) * b \<le> A * b" using assms by (intro mult_right_mono) simp_all
  then show ?thesis using assms by (simp add: distrib_right)
qed

definition base_value :: "int \<Rightarrow> int \<Rightarrow> int \<Rightarrow> int \<Rightarrow> int \<Rightarrow> int \<Rightarrow> int" where
  "base_value i0 i1 i2 i3 i4 i5 = ((((i0 * 36 + i1) * 10 + i2) * 27 + i3) * 27 + i4) * 27 + i5"

lemma basecall_chars_value:
  assumes "0 \<le> i0" "i0 < 37" "0 \<le> i1" "i1 < 36" "0 \<le> i2" "i2 < 10"
    "0 \<le> i3" "i3 < 27" "0 \<le> i4" "i4 < 27" "0 \<le> i5" "i5 < 27"
  shows "basecall_chars (word_of_int (base_value i0 i1 i2 i3 i4 i5)) =
           [charn i0 ALPHANUM_SPACE, charn i1 ALPHANUM, charn i2 NUMERIC,
            charn i3 LETTERS_SPACE, charn i4 LETTERS_SPACE, charn i5 LETTERS_SPACE] \<and>
         0 \<le> base_value i0 i1 i2 i3 i4 i5 \<and> base_value i0 i1 i2 i3 i4 i5 < 262177560"
proof -
  define v1 where "v1 = i0 * 36 + i1"
  define v2 where "v2 = v1 * 10 + i2"
  define v3 where "v3 = v2 * 27 + i3"
  define v4 where "v4 = v3 * 27 + i4"
  define v5 where "v5 = v4 * 27 + i5"
  have v1: "0 \<le> v1" "v1 < 1332" using radix_bound [of i0 37 i1 36] assms by (simp_all add: v1_def)
  have v2: "0 \<le> v2" "v2 < 13320" using radix_bound [of v1 1332 i2 10] v1 assms by (simp_all add: v2_def)
  have v3: "0 \<le> v3" "v3 < 359640" using radix_bound [of v2 13320 i3 27] v2 assms by (simp_all add: v3_def)
  have v4: "0 \<le> v4" "v4 < 9710280" using radix_bound [of v3 359640 i4 27] v3 assms by (simp_all add: v4_def)
  have v5: "0 \<le> v5" "v5 < 262177560" using radix_bound [of v4 9710280 i5 27] v4 assms by (simp_all add: v5_def)
  have w27: "word_of_int 27 = (27 :: u32)" "word_of_int 10 = (10 :: u32)" "word_of_int 36 = (36 :: u32)"
      "word_of_int 37 = (37 :: u32)"
    by simp_all
  note rd = radix_word_div [where 'a = 32, of _ _ 27, unfolded w27] radix_word_div [where 'a = 32, of _ _ 10, unfolded w27]
    radix_word_div [where 'a = 32, of _ _ 36, unfolded w27]
  note rm = radix_word_mod [where 'a = 32, of _ _ 27, unfolded w27] radix_word_mod [where 'a = 32, of _ _ 10, unfolded w27]
    radix_word_mod [where 'a = 32, of _ _ 36, unfolded w27]
  have d: "(word_of_int v5 :: u32) div 27 = word_of_int v4" "uint ((word_of_int v5 :: u32) mod 27) = i5"
    "(word_of_int v4 :: u32) div 27 = word_of_int v3" "uint ((word_of_int v4 :: u32) mod 27) = i4"
    "(word_of_int v3 :: u32) div 27 = word_of_int v2" "uint ((word_of_int v3 :: u32) mod 27) = i3"
    "(word_of_int v2 :: u32) div 10 = word_of_int v1" "uint ((word_of_int v2 :: u32) mod 10) = i2"
    "(word_of_int v1 :: u32) div 36 = word_of_int i0" "uint ((word_of_int v1 :: u32) mod 36) = i1"
    unfolding v5_def v4_def v3_def v2_def v1_def
    by ((rule rd rm; use assms v1 v2 v3 v4 v5 in \<open>simp add: v5_def v4_def v3_def v2_def v1_def\<close>))+
  have e: "uint ((word_of_int i0 :: u32) mod 37) = i0"
    using radix_word_mod [where 'a = 32, of 0 i0 37] assms by simp
  have b: "base_value i0 i1 i2 i3 i4 i5 = v5"
    by (simp add: base_value_def v5_def v4_def v3_def v2_def v1_def)
  show ?thesis unfolding b basecall_chars_def Let_def d e using v5 by simp
qed

text \<open>Unpacking a packed buffer gives the characters of the buffer.\<close>

lemma pack_basecall_buf:
  assumes "0 \<le> pack_basecall cs len"
  shows "2 < len \<and> length (basecall_buf cs len) = 6 \<longrightarrow>
           basecall_chars (word_of_int (pack_basecall cs len)) = basecall_buf cs len \<and>
           pack_basecall cs len < 262177560"
proof (intro impI)
  assume len: "2 < len \<and> length (basecall_buf cs len) = 6"
  let ?c = "basecall_buf cs len"
  have nn: "0 \<le> nchar (?c ! 0) ALPHANUM_SPACE" "0 \<le> nchar (?c ! 1) ALPHANUM" "0 \<le> nchar (?c ! 2) NUMERIC"
    "0 \<le> nchar (?c ! 3) LETTERS_SPACE" "0 \<le> nchar (?c ! 4) LETTERS_SPACE" "0 \<le> nchar (?c ! 5) LETTERS_SPACE"
    using assms len by (simp_all add: pack_basecall_def Let_def split: if_splits)
  have p: "pack_basecall cs len = base_value (nchar (?c ! 0) ALPHANUM_SPACE) (nchar (?c ! 1) ALPHANUM)
      (nchar (?c ! 2) NUMERIC) (nchar (?c ! 3) LETTERS_SPACE) (nchar (?c ! 4) LETTERS_SPACE) (nchar (?c ! 5) LETTERS_SPACE)"
    using nn len by (simp add: pack_basecall_def Let_def base_value_def)
  have "[?c ! 0, ?c ! 1, ?c ! 2, ?c ! 3, ?c ! 4, ?c ! 5] = ?c"
    using len by (intro nth_equalityI) (auto simp: less_Suc_eq numeral_eq_Suc)
  then show "basecall_chars (word_of_int (pack_basecall cs len)) = ?c \<and> pack_basecall cs len < 262177560"
    unfolding p
    using basecall_chars_value [OF nn(1) _ nn(2) _ nn(3) _ nn(4) _ nn(5) _ nn(6)]
      nchar_less [of "?c ! 0" ALPHANUM_SPACE] nchar_less [of "?c ! 1" ALPHANUM] nchar_less [of "?c ! 2" NUMERIC]
      nchar_less [of "?c ! 3" LETTERS_SPACE] nchar_less [of "?c ! 4" LETTERS_SPACE] nchar_less [of "?c ! 5" LETTERS_SPACE]
    by (simp add: charn_nchar nn del: One_nat_def)
qed

lemma length_basecall_buf: "len \<le> length cs \<Longrightarrow> 2 < len \<Longrightarrow> length (basecall_buf cs len) = 6"
  by (auto simp: basecall_buf_def put_at_def Let_def)

text \<open>
  A callsign of upper-case letters and digits.  Calls that begin with \<open>Q\<close> and a letter, and longer ones that begin
  with \<open>3D0\<close>, are left out: the packed forms of Guinean and Swazi calls are taken from there.
\<close>

definition plain_call :: "string \<Rightarrow> bool" where
  "plain_call cs \<longleftrightarrow>
     (\<forall>c\<in>set cs. 0 \<le> nchar c ALPHANUM) \<and>
     \<not> (char_at cs 0 = CHR ''Q'' \<and> is_letter (char_at cs 1)) \<and>
     \<not> (starts_with cs ''3D0'' \<and> 3 < length cs)"

lemma plain_call_no_space: "plain_call cs \<Longrightarrow> CHR '' '' \<notin> set (take n (drop m cs))"
  by (auto simp: plain_call_def nchar_def ord_const dest!: in_set_takeD in_set_dropD)

text \<open>
  A standard callsign survives packing into 28 bits: \<open>pack_basecall\<close> followed by the unpacking
  code of \<open>unpack28\<close> returns the callsign, including the 3DA0 and 3X prefixes that are packed in a
  shortened form.  The packed number is below 37 * 36 * 10 * 27 ^ 3.
\<close>

lemma basecall_unpacks:
  assumes packs: "0 \<le> pack_basecall cs (length cs)" and plain: "plain_call cs"
  shows "unpack_basecall (word_of_int (pack_basecall cs (length cs))) = cs \<and>
         pack_basecall cs (length cs) < 262177560"
proof -
  let ?sp = "CHR '' ''"
  let ?b = "basecall_buf cs (length cs)"
  have len: "2 < length cs" using packs by (simp add: pack_basecall_def split: if_splits)
  have chars: "basecall_chars (word_of_int (pack_basecall cs (length cs))) = ?b"
    "pack_basecall cs (length cs) < 262177560"
    using pack_basecall_buf [OF packs] len length_basecall_buf [OF order_refl len] by auto
  have ns: "?sp \<notin> set (drop m cs)" for m using plain_call_no_space [OF plain, of "length cs" m] by simp
  have ns0: "?sp \<notin> set cs" using ns [of 0] by simp
  have ne: "cs \<noteq> []" using len by auto
  have ub: "unpack_basecall (word_of_int (pack_basecall cs (length cs))) =
     (if starts_with ?b ''3D0'' \<and> \<not> is_space (?b ! 3) then ''3DA0'' @ trim_copy (drop 3 ?b)
      else if ?b ! 0 = CHR ''Q'' \<and> is_letter (?b ! 1) then ''3X'' @ trim_copy (drop 1 ?b)
      else trim_copy ?b)"
    by (simp add: unpack_basecall_def chars Let_def)
  consider (swazi) "starts_with cs ''3DA0''" "4 < length cs" "length cs \<le> 7"
    | (guinea) "\<not> starts_with cs ''3DA0'' \<or> length cs \<le> 4" "starts_with cs ''3X''" "is_letter (char_at cs 2)" "length cs \<le> 7"
    | (digit2) "?b = cs @ replicate (6 - length cs) ?sp" "length cs \<le> 6"
    | (digit1) "?b = ?sp # cs @ replicate (5 - length cs) ?sp" "length cs \<le> 5"
    | (none) "?b = replicate 6 ?sp"
  proof -
    have tk: "take (length cs - m) (drop m cs) = drop m cs" "take (length cs) cs = cs" for m by simp_all
    have "?b = (if starts_with cs ''3DA0'' \<and> 4 < length cs \<and> length cs \<le> 7
         then put_at 3 (drop 4 cs) (put_at 0 ''3D0'' (replicate 6 ?sp))
         else if starts_with cs ''3X'' \<and> is_letter (char_at cs 2) \<and> length cs \<le> 7
         then put_at 1 (drop 2 cs) (put_at 0 ''Q'' (replicate 6 ?sp))
         else if is_digit (char_at cs 2) \<and> length cs \<le> 6 then put_at 0 cs (replicate 6 ?sp)
         else if is_digit (char_at cs 1) \<and> length cs \<le> 5 then put_at 1 cs (replicate 6 ?sp)
         else replicate 6 ?sp)" by (simp only: basecall_buf_def Let_def tk)
    note b = this
    show thesis
    proof (cases "starts_with cs ''3DA0'' \<and> 4 < length cs \<and> length cs \<le> 7")
      case True
      then show thesis using swazi by blast
    next
      case ns: False
      show thesis
      proof (cases "starts_with cs ''3X'' \<and> is_letter (char_at cs 2) \<and> length cs \<le> 7")
        case True
        then show thesis using guinea ns by fastforce
      next
        case ng: False
        show thesis
        proof (cases "is_digit (char_at cs 2) \<and> length cs \<le> 6")
          case True
          have "?b = put_at 0 cs (replicate 6 ?sp)" using b by (simp only: if_not_P [OF ns] if_not_P [OF ng] if_P [OF True])
          then show thesis using digit2 True by (simp add: put_at_def)
        next
          case nd: False
          show thesis
          proof (cases "is_digit (char_at cs 1) \<and> length cs \<le> 5")
            case True
            have "?b = put_at 1 cs (replicate 6 ?sp)"
              using b by (simp only: if_not_P [OF ns] if_not_P [OF ng] if_not_P [OF nd] if_P [OF True])
            then show thesis using digit1 True by (simp add: put_at_def)
          next
            case False
            have "?b = replicate 6 ?sp"
              using b by (simp only: if_not_P [OF ns] if_not_P [OF ng] if_not_P [OF nd] if_not_P [OF False])
            then show thesis by (rule none)
          qed
        qed
      qed
    qed
  qed
  then have "unpack_basecall (word_of_int (pack_basecall cs (length cs))) = cs"
  proof cases
    case swazi
    have "length cs = 5 \<or> length cs = 6 \<or> length cs = 7" using swazi by linarith
    then have b: "?b = ''3D0'' @ drop 4 cs @ replicate (7 - length cs) ?sp"
      using swazi(1) by (elim disjE) (simp_all add: basecall_buf_def Let_def put_at_def numeral_eq_Suc)
    have "?b ! 3 = cs ! 4" unfolding b using swazi by (simp add: nth_append)
    moreover have "cs ! 4 \<noteq> ?sp" using ns0 swazi by (metis nth_mem)
    ultimately have "unpack_basecall (word_of_int (pack_basecall cs (length cs))) = ''3DA0'' @ drop 4 cs"
      using trim_copy_pad [OF ns [of 4], of 0 "7 - length cs"] swazi
      by (simp add: ub b starts_with_def is_space_def)
    moreover have "take 4 cs = ''3DA0''" using swazi(1) by (simp add: starts_with_def numeral_eq_Suc)
    ultimately show ?thesis by (metis append_take_drop_id)
  next
    case guinea
    have b: "?b = ''Q'' @ drop 2 cs @ replicate (7 - length cs) ?sp"
    proof -
      have "?b = put_at 1 (take (length cs - 2) (drop 2 cs)) (put_at 0 ''Q'' (replicate 6 ?sp))"
        using guinea by (auto simp: basecall_buf_def Let_def)
      moreover have "length cs = 3 \<or> length cs = 4 \<or> length cs = 5 \<or> length cs = 6 \<or> length cs = 7"
        using guinea len by linarith
      ultimately show ?thesis by (elim disjE) (simp_all add: put_at_def numeral_eq_Suc)
    qed
    have "?b ! 1 = char_at cs 2" unfolding b using len by (simp add: nth_append char_at_def)
    then have "unpack_basecall (word_of_int (pack_basecall cs (length cs))) = ''3X'' @ drop 2 cs"
      using trim_copy_pad [OF ns [of 2], of 0 "7 - length cs"] guinea len
      by (simp add: ub b starts_with_def)
    moreover have "take 2 cs = ''3X''" using guinea(2) by (simp add: starts_with_def numeral_eq_Suc)
    ultimately show ?thesis by (metis append_take_drop_id)
  next
    case digit2
    have "\<not> (starts_with ?b ''3D0'' \<and> \<not> is_space (?b ! 3))"
      using plain len unfolding digit2(1) by (cases "length cs = 3") (auto simp: starts_with_def plain_call_def is_space_def nth_append)
    moreover have "?b ! 0 = char_at cs 0" "?b ! 1 = char_at cs 1"
      unfolding digit2(1) using len by (auto simp: nth_append char_at_def)
    ultimately show ?thesis
      using plain trim_copy_pad [OF ns0 ne, of 0 "6 - length cs"] len unfolding ub digit2(1) plain_call_def by auto
  next
    case digit1
    then show ?thesis
      using trim_copy_pad [OF ns0 ne, of 1 "5 - length cs"] len by (auto simp: ub starts_with_def)
  next
    case none
    then have "pack_basecall cs (length cs) = -1"
      using len by (simp add: pack_basecall_def nchar_def ord_const)
    then show ?thesis using packs by simp
  qed
  then show ?thesis using chars(2) by simp
qed
lemma plain_call_chars:
  assumes "plain_call cs" and "c \<in> set cs"
  shows "0 \<le> nchar c ALPHANUM_SPACE_SLASH" and "c \<noteq> CHR ''/''" and "c \<noteq> CHR ''_''"
proof -
  have "0 \<le> nchar c ALPHANUM" using assms by (simp add: plain_call_def)
  then show "0 \<le> nchar c ALPHANUM_SPACE_SLASH" "c \<noteq> CHR ''/''" "c \<noteq> CHR ''_''"
    by (auto simp: nchar_def ord_def split: if_splits)
qed

text \<open>What \<open>pack28\<close> and \<open>unpack28\<close> accept as the call of a standard message.\<close>

definition call_suffixes :: "string set" where "call_suffixes = {[], ''/P'', ''/R''}"

definition base_call :: "string \<Rightarrow> bool" where
  "base_call b \<longleftrightarrow> plain_call b \<and> 0 \<le> pack_basecall b (length b)"

lemma base_call_length: "base_call b \<Longrightarrow> 2 < length b"
  by (simp add: base_call_def pack_basecall_def split: if_splits)

lemma ends_with_suffix:
  assumes "base_call b" and "s \<in> call_suffixes" and "t \<in> {''/P'', ''/R''}"
  shows "ends_with (b @ s) t \<longleftrightarrow> s = t"
proof (cases "s = []")
  case True
  have "CHR ''/'' \<notin> set b" using plain_call_chars(2) assms(1) by (auto simp: base_call_def)
  then have "drop n b \<noteq> t" for n using assms(3) in_set_dropD [of "CHR ''/''" n b] by auto
  then show ?thesis using True assms(3) by (auto simp: ends_with_def)
next
  case False
  then show ?thesis using assms(2,3) by (auto simp: ends_with_def call_suffixes_def)
qed

lemma starts_with_append: "length pre \<le> length b \<Longrightarrow> starts_with (b @ s) pre = starts_with b pre"
  by (simp add: starts_with_def)

lemma pack_basecall_suffix:
  assumes "base_call b" shows "pack_basecall (b @ s) (length b) = pack_basecall b (length b)"
proof -
  have l: "2 < length b" using base_call_length [OF assms] .
  then have ca: "char_at (b @ s) 2 = char_at b 2" "char_at (b @ s) 1 = char_at b 1"
    by (simp_all add: char_at_def nth_append)
  have sw: "starts_with (b @ s) ''3X'' = starts_with b ''3X''"
    using l by (intro starts_with_append) simp
  have sw2: "starts_with (b @ s) ''3DA0'' \<and> 4 < length b \<longleftrightarrow> starts_with b ''3DA0'' \<and> 4 < length b"
    using starts_with_append [of "''3DA0''" b s] by auto
  have "basecall_buf (b @ s) (length b) = basecall_buf b (length b)"
    unfolding basecall_buf_def ca sw using sw2 by (auto simp: Let_def)
  then show ?thesis by (simp add: pack_basecall_def)
qed

lemma hash_chars_total: "\<forall>c\<in>set s. 0 \<le> nchar c ALPHANUM_SPACE_SLASH \<Longrightarrow> hash_chars k s n \<noteq> None"
  by (induction k s n rule: hash_chars.induct) (auto simp: Let_def)

lemma save_call_total:
  assumes "base_call b" and "s \<in> call_suffixes" shows "\<exists>n h'. save_callsign hi (b @ s) h = Some (n, h')"
proof -
  have "0 \<le> nchar c ALPHANUM_SPACE_SLASH" if "c \<in> set (b @ s)" for c
  proof (cases "c \<in> set b")
    case True
    then show ?thesis using assms(1) plain_call_chars(1) by (auto simp: base_call_def)
  next
    case False
    then have "c = CHR ''/'' \<or> c = CHR ''P'' \<or> c = CHR ''R''" using that assms(2) by (auto simp: call_suffixes_def)
    moreover have "0 \<le> nchar (CHR ''/'') ALPHANUM_SPACE_SLASH" "0 \<le> nchar (CHR ''P'') ALPHANUM_SPACE_SLASH"
      "0 \<le> nchar (CHR ''R'') ALPHANUM_SPACE_SLASH"
      by code_simp+
    ultimately show ?thesis by blast
  qed
  then have "hash_chars 11 (b @ s) 0 \<noteq> None" by (intro hash_chars_total) blast
  then show ?thesis by (auto simp: save_callsign_def Let_def)
qed

text \<open>The special tokens are no packable callsigns.\<close>

lemma base_call_not_token:
  assumes "base_call b" and "s \<in> call_suffixes"
  shows "b @ s \<noteq> ''DE''" and "b @ s \<noteq> ''QRZ''" and "b @ s \<noteq> ''CQ''" and "\<not> starts_with (b @ s) ''CQ_''"
proof -
  note l = base_call_length [OF assms(1)]
  have "length (b @ s) \<noteq> 2" using l by simp
  then show "b @ s \<noteq> ''DE''" "b @ s \<noteq> ''CQ''" by (metis length_Cons list.size(3) numeral_2_eq_2)+
  have "b \<noteq> ''QRZ''"
  proof
    assume "b = ''QRZ''"
    moreover have "pack_basecall ''QRZ'' (length ''QRZ'') = -1" by code_simp
    ultimately show False using assms(1) by (simp add: base_call_def)
  qed
  moreover have "length (b @ s) \<noteq> 3" if "s \<noteq> []" using that assms(2) l by (auto simp: call_suffixes_def)
  ultimately show "b @ s \<noteq> ''QRZ''" by (cases "s = []") (auto simp del: length_append)
  have "char_at (b @ s) 2 \<noteq> CHR ''_''"
    using plain_call_chars(3) [of b "b ! 2"] assms(1) l by (simp add: base_call_def char_at_def nth_append)
  then show "\<not> starts_with (b @ s) ''CQ_''"
    using l by (auto simp: starts_with_def char_at_def numeral_eq_Suc take_Suc_conv_app_nth nth_append)
qed

lemma pack28_base:
  assumes "base_call b" and "s \<in> call_suffixes"
  shows "\<exists>h'. pack28 (b @ s) hi h =
           (Some (NTOKENS + MAX22 + word_of_int (pack_basecall b (length b)), if s = [] then 0 else 1), h')"
proof -
  obtain n h' where sv: "save_callsign hi (b @ s) h = Some (n, h')" using save_call_total [OF assms, of hi h] by blast
  have e: "ends_with (b @ s) ''/P'' \<or> ends_with (b @ s) ''/R'' \<longleftrightarrow> s \<noteq> []"
    using ends_with_suffix [OF assms] assms(2) by (auto simp: call_suffixes_def)
  have len: "(if s \<noteq> [] then length (b @ s) - 2 else length (b @ s)) = length b"
    using assms(2) by (auto simp: call_suffixes_def)
  have "0 \<le> pack_basecall b (length b)" using assms(1) by (simp add: base_call_def)
  then show ?thesis
    unfolding pack28_def equals_def Let_def e len pack_basecall_suffix [OF assms(1)]
    using base_call_not_token [OF assms] by (simp add: sv)
qed

lemma unpack28_base:
  assumes b: "base_call b" and s: "s \<in> call_suffixes"
    and i3: "s = ''/P'' \<longrightarrow> i3 = 2" "s = ''/R'' \<longrightarrow> i3 = 1"
  shows "\<exists>h'. unpack28 (NTOKENS + MAX22 + word_of_int (pack_basecall b (length b))) (if s = [] then 0 else 1) i3 hi h
            = (Inr (b @ s), h')"
proof -
  let ?n = "pack_basecall b (length b)"
  have n: "0 \<le> ?n" "?n < 262177560" "unpack_basecall (word_of_int ?n) = b"
    using b basecall_unpacks [of b] by (auto simp: base_call_def)
  have un: "uint (word_of_int ?n :: u32) = ?n" using n by (intro uint_word_of_int_small) simp_all
  have us: "uint (NTOKENS + MAX22 + word_of_int ?n) = 6257896 + ?n"
    using n un by (simp add: NTOKENS_def MAX22_def uint_word_arith_bintrs take_bit_int_eq_self_iff)
  have c1: "\<not> NTOKENS + MAX22 + word_of_int ?n < NTOKENS"
    unfolding word_less_alt us using n by (simp add: NTOKENS_def)
  have c2: "\<not> NTOKENS + MAX22 + word_of_int ?n - NTOKENS < MAX22"
  proof -
    have "uint (MAX22 + word_of_int ?n) = 4194304 + ?n"
      using n un by (simp add: MAX22_def uint_word_arith_bintrs take_bit_int_eq_self_iff)
    then show ?thesis unfolding word_less_alt using n by (simp add: MAX22_def)
  qed
  have c3: "NTOKENS + MAX22 + word_of_int ?n - NTOKENS - MAX22 = word_of_int ?n" by simp
  show ?thesis
    using c1 base_call_length [OF b] s i3 unfolding unpack28_def Let_def c3 n(3)
    by (simp only: if_not_P [OF c1] if_not_P [OF c2]) (auto simp: call_suffixes_def)
qed
section \<open>Grids and reports\<close>

text \<open>The third field of a standard message: a locator, a report, one of the fixed answers, or nothing.\<close>

definition is_locator :: "string \<Rightarrow> bool" where
  "is_locator g \<longleftrightarrow> length g = 4 \<and> in_range (g ! 0) (CHR ''A'') (CHR ''R'') \<and> in_range (g ! 1) (CHR ''A'') (CHR ''R'') \<and>
     is_digit (g ! 2) \<and> is_digit (g ! 3) \<and> g \<noteq> ''RR73''"

definition is_report :: "string \<Rightarrow> bool" where
  "is_report e \<longleftrightarrow> (\<exists>v. -30 \<le> v \<and> v \<le> 99 \<and> (e = int_to_dd v 2 True \<or> e = CHR ''R'' # int_to_dd v 2 True))"

definition std_extra :: "string \<Rightarrow> bool" where
  "std_extra e \<longleftrightarrow> e \<in> {[], ''RRR'', ''RR73'', ''73''} \<or> is_locator e \<or> is_report e"

text \<open>The field as it crosses the air: 15 bits and, above them, the R flag.\<close>

definition grid_field :: "u16 \<Rightarrow> string" where
  "grid_field g = unpackgrid (g AND 0x7FFF) (ucast (drop_bit 15 g))"

lemma low15:
  fixes w :: u16
  assumes "uint w < 32768"
  shows "drop_bit 15 w = 0" and "w AND 0x7FFF = w"
    and "drop_bit 15 (w OR 0x8000) = 1" and "(w OR 0x8000) AND 0x7FFF = w"
proof -
  have "take_bit 15 w = w"
    using assms by (simp add: word_uint_eq_iff unsigned_take_bit_eq take_bit_int_eq_self_iff)
  then have lt: "n < 15" if "bit w n" for n using that by (metis bit_take_bit_iff)
  have m: "(0x7FFF :: u16) = mask 15" by (simp add: mask_eq_exp_minus_1)
  have "(0x8000 :: u16) = push_bit 15 1" by simp
  then have b: "bit (0x8000 :: u16) n \<longleftrightarrow> n = 15" for n by (auto simp only: bit_push_bit_iff bit_1_iff) simp_all
  show "drop_bit 15 w = 0" by (rule bit_word_eqI) (auto simp: bit_drop_bit_eq dest: lt)
  show "w AND 0x7FFF = w" unfolding m by (rule bit_word_eqI) (auto simp: bit_and_iff bit_mask_iff dest: lt)
  show "drop_bit 15 (w OR 0x8000) = 1"
    by (rule bit_word_eqI; unfold bit_drop_bit_eq o_def bit_or_iff b bit_1_iff) (auto dest: lt)
  show "(w OR 0x8000) AND 0x7FFF = w"
    unfolding m by (rule bit_word_eqI; unfold bit_and_iff bit_or_iff bit_mask_iff b) (auto dest: lt)
qed

lemma locator_roundtrip: "is_locator g \<Longrightarrow> grid_field (packgrid g) = g"
proof -
  assume g: "is_locator g"
  then obtain c0 c1 c2 c3 where gs: "g = [c0, c1, c2, c3]"
    by (auto simp: is_locator_def length_Suc_conv numeral_eq_Suc)
  have r: "65 \<le> ord c0" "ord c0 \<le> 82" "65 \<le> ord c1" "ord c1 \<le> 82" "48 \<le> ord c2" "ord c2 \<le> 57" "48 \<le> ord c3" "ord c3 \<le> 57"
    using g by (simp_all add: is_locator_def gs in_range_def is_digit_def ord_const numeral_eq_Suc)
  define v1 where "v1 = (ord c0 - 65) * 18 + (ord c1 - 65)"
  define v2 where "v2 = v1 * 10 + (ord c2 - 48)"
  define v3 where "v3 = v2 * 10 + (ord c3 - 48)"
  have v1: "0 \<le> v1" "v1 < 324" using radix_bound [of "ord c0 - 65" 18 "ord c1 - 65" 18] r by (simp_all add: v1_def)
  have v2: "0 \<le> v2" "v2 < 3240" using radix_bound [of v1 324 "ord c2 - 48" 10] v1 r by (simp_all add: v2_def)
  have v3: "0 \<le> v3" "v3 < 32400" using radix_bound [of v2 3240 "ord c3 - 48" 10] v2 r by (simp_all add: v3_def)
  have "packgrid g = ((word_of_int (ord c0 - 65) * 18 + word_of_int (ord c1 - 65)) * 10 + word_of_int (ord c2 - 48)) * 10
      + word_of_int (ord c3 - 48)"
    using g by (auto simp: packgrid_def gs is_locator_def equals_def char_at_def ord_const Let_def numeral_eq_Suc)
  also have "\<dots> = word_of_int v3" by (simp add: v3_def v2_def v1_def)
  finally have p: "packgrid g = word_of_int v3" .
  have u: "uint (word_of_int v3 :: u16) = v3" using v3 by (intro uint_word_of_int_small) simp_all
  have d: "drop_bit 15 (word_of_int v3 :: u16) = 0" and a: "(word_of_int v3 :: u16) AND 0x7FFF = word_of_int v3"
    using low15 [of "word_of_int v3"] v3 unfolding u by simp_all
  have w: "(word_of_int 10 :: u16) = 10" "(word_of_int 18 :: u16) = 18" by simp_all
  note rd = radix_word_div [where 'a = 16, of _ _ 10, unfolded w] radix_word_div [where 'a = 16, of _ _ 18, unfolded w]
  note rm = radix_word_mod [where 'a = 16, of _ _ 10, unfolded w] radix_word_mod [where 'a = 16, of _ _ 18, unfolded w]
  have dg: "(word_of_int v3 :: u16) div 10 = word_of_int v2" "uint ((word_of_int v3 :: u16) mod 10) = ord c3 - 48"
    "(word_of_int v2 :: u16) div 10 = word_of_int v1" "uint ((word_of_int v2 :: u16) mod 10) = ord c2 - 48"
    "(word_of_int v1 :: u16) div 18 = word_of_int (ord c0 - 65)" "uint ((word_of_int v1 :: u16) mod 18) = ord c1 - 65"
    unfolding v3_def v2_def v1_def
    by ((rule rd rm; use r v1 v2 v3 in \<open>simp add: v3_def v2_def v1_def\<close>))+
  have e: "uint ((word_of_int (ord c0 - 65) :: u16) mod 18) = ord c0 - 65"
    using radix_word_mod [where 'a = 16, of 0 "ord c0 - 65" 18] r by simp
  have "word_of_int v3 \<le> MAXGRID4" unfolding word_le_def u using v3 by (simp add: MAXGRID4_def)
  then show ?thesis
    unfolding grid_field_def p d a unpackgrid_def Let_def dg e by (simp add: ord_const gs)
qed
lemma dd_digits2: "0 \<le> v \<Longrightarrow> v \<le> 99 \<Longrightarrow>
    dd_digits 2 v = [chr (48 + v div 10), chr (48 + v mod 10)] \<and>
    digits_value 2 0 (dd_digits 2 v) = v"
proof -
  assume v: "0 \<le> v" "v \<le> 99"
  have q: "0 \<le> v div 10" "v div 10 < 10" "0 \<le> v mod 10" "v mod 10 < 10" using v by auto
  have d: "dd_digits 2 v = [chr (48 + v div 10), chr (48 + v mod 10)]"
    by (simp add: numeral_2_eq_2 Let_def ord_const minus_div_mult_eq_mod)
  define a b where "a = v div 10" and "b = v mod 10"
  have "a * 10 + b = v" "0 \<le> a" "a \<le> 9" "0 \<le> b" "b \<le> 9" using q by (simp_all add: a_def b_def)
  then have "digits_value 2 0 [chr (48 + a), chr (48 + b)] = v"
    by (simp add: numeral_2_eq_2 is_digit_def ord_const)
  then show ?thesis using d by (simp add: a_def b_def)
qed

lemma report_string:
  assumes "-99 \<le> v" and "v \<le> 99"
  shows "\<exists>c d0 d1. int_to_dd v 2 True = [c, d1, d0] \<and> c \<in> {CHR ''+'', CHR ''-''} \<and>
           dd_to_int (int_to_dd v 2 True) 3 = v"
proof -
  have dd: "dd_digits 2 \<bar>v\<bar> = [chr (48 + \<bar>v\<bar> div 10), chr (48 + \<bar>v\<bar> mod 10)]" "digits_value 2 0 (dd_digits 2 \<bar>v\<bar>) = \<bar>v\<bar>"
    using dd_digits2 [of "\<bar>v\<bar>"] assms by (auto simp: abs_le_iff)
  show ?thesis
    using assms dd by (cases "v < 0") (auto simp: int_to_dd_def dd_to_int_def char_at_def simp del: dd_digits.simps digits_value.simps simp flip: numeral_2_eq_2)
qed

lemma report_pack:
  assumes v: "-30 \<le> v" "v \<le> 99"
  shows "packgrid (int_to_dd v 2 True) = word_of_int (32435 + v)"
    and "packgrid (CHR ''R'' # int_to_dd v 2 True) = word_of_int (32435 + v) OR 0x8000"
proof -
  obtain c d0 d1 where s: "int_to_dd v 2 True = [c, d1, d0]" "c \<in> {CHR ''+'', CHR ''-''}"
    "dd_to_int (int_to_dd v 2 True) 3 = v"
    using report_string [of v] v by auto
  have "dd_to_int [c, d1, d0] 3 = v" using s by simp
  then show "packgrid (int_to_dd v 2 True) = word_of_int (32435 + v)"
    "packgrid (CHR ''R'' # int_to_dd v 2 True) = word_of_int (32435 + v) OR 0x8000"
    using s(2) unfolding s(1)
    by (auto simp: packgrid_def equals_def char_at_def in_range_def ord_const MAXGRID4_def)
qed

lemma report_field:
  assumes v: "-30 \<le> v" "v \<le> 99"
  shows "grid_field (packgrid (int_to_dd v 2 True)) = int_to_dd v 2 True"
    and "grid_field (packgrid (CHR ''R'' # int_to_dd v 2 True)) = CHR ''R'' # int_to_dd v 2 True"
proof -
  define w :: u16 where "w = word_of_int (32435 + v)"
  have u: "uint w = 32435 + v" unfolding w_def using v by (intro uint_word_of_int_small) simp_all
  have "uint w < 32768" unfolding u using v by simp
  note bits = low15 [OF this]
  have gt: "\<not> w \<le> MAXGRID4" unfolding word_le_def u using v by (simp add: MAXGRID4_def)
  have ir: "uint w - uint MAXGRID4 = 35 + v" unfolding u by (simp add: MAXGRID4_def)
  show "grid_field (packgrid (int_to_dd v 2 True)) = int_to_dd v 2 True"
    using v unfolding report_pack [OF v] w_def [symmetric] grid_field_def unpackgrid_def Let_def bits by (simp add: gt ir)
  show "grid_field (packgrid (CHR ''R'' # int_to_dd v 2 True)) = CHR ''R'' # int_to_dd v 2 True"
    using v unfolding report_pack [OF v] w_def [symmetric] grid_field_def unpackgrid_def Let_def bits by (simp add: gt ir)
qed

lemma std_extra_roundtrip: "std_extra e \<Longrightarrow> grid_field (packgrid e) = e"
proof -
  have "grid_field (packgrid []) = []" "grid_field (packgrid ''RRR'') = ''RRR''"
    "grid_field (packgrid ''RR73'') = ''RR73''" "grid_field (packgrid ''73'') = ''73''"
    by code_simp+
  then show "std_extra e \<Longrightarrow> grid_field (packgrid e) = e"
    using locator_roundtrip report_field by (auto simp: std_extra_def is_report_def)
qed

end
