(* ===== verification/FtxMessage.thy ===== *)
theory FtxMessage
  imports FtxPack
begin

text \<open>
  FT8 messages (\<open>ft8_lib/ft8/message.c\<close>, exported functions): the 77-bit payload, its type, the
  encoders and decoders of standard and nonstandard messages, free text and telemetry.  A decoder
  returns the error code or the fields, with the callsign table it leaves; the text a decoder has
  written before an error is not modelled (the callers use it only when the code is OK).
\<close>

type_synonym payload = "u8 list"

record ftx_message =
  payload_of :: payload
  msg_hash :: u16

datatype message_type = FREE_TEXT | DXPEDITION | EU_VHF | ARRL_FD | TELEMETRY | CONTESTING | STANDARD
  | ARRL_RTTY | NONSTD_CALL | WWROF | UNKNOWN_TYPE

datatype ftx_error = ERROR_CALLSIGN1 | ERROR_CALLSIGN2 | ERROR_SUFFIX | ERROR_GRID | ERROR_TYPE

definition ftx_message_init :: ftx_message where
  "ftx_message_init = \<lparr>payload_of = replicate 10 0, msg_hash = 0\<rparr>"

definition get_i3 :: "payload \<Rightarrow> u8" where
  "get_i3 p = drop_bit 3 (p ! 9) AND 7"

definition get_n3 :: "payload \<Rightarrow> u8" where
  "get_n3 p = (push_bit 2 (p ! 8) AND 4) OR (drop_bit 6 (p ! 9) AND 3)"

definition get_type :: "payload \<Rightarrow> message_type" where
  "get_type p =
     (let i3 = get_i3 p; n3 = get_n3 p
      in if i3 = 0 then
           if n3 = 0 then FREE_TEXT else if n3 = 1 then DXPEDITION else if n3 = 2 then EU_VHF
           else if n3 = 3 \<or> n3 = 4 then ARRL_FD else if n3 = 5 then TELEMETRY else UNKNOWN_TYPE
         else if i3 = 1 \<or> i3 = 2 then STANDARD
         else if i3 = 3 then ARRL_RTTY
         else if i3 = 4 then NONSTD_CALL
         else if i3 = 5 then WWROF
         else UNKNOWN_TYPE)"

section \<open>Standard messages\<close>

text \<open>28 + 1, 28 + 1, 1 + 15 and 3 bits.\<close>

definition std_payload :: "u32 \<Rightarrow> u32 \<Rightarrow> u16 \<Rightarrow> u8 \<Rightarrow> payload" where
  "std_payload n29a n29b igrid4 i3 =
     [ucast (drop_bit 21 n29a),
      ucast (drop_bit 13 n29a),
      ucast (drop_bit 5 n29a),
      ucast (push_bit 3 n29a) OR ucast (drop_bit 26 n29b),
      ucast (drop_bit 18 n29b),
      ucast (drop_bit 10 n29b),
      ucast (drop_bit 2 n29b),
      ucast (push_bit 6 n29b) OR ucast (drop_bit 10 igrid4),
      ucast (drop_bit 2 igrid4),
      ucast (push_bit 6 igrid4) OR push_bit 3 i3]"

definition encode_std ::
  "'h hash_if option \<Rightarrow> string \<Rightarrow> string \<Rightarrow> string \<Rightarrow> 'h \<Rightarrow> (ftx_error + payload) \<times> 'h" where
  "encode_std hi call_to call_de extra h =
     (let (ra, h) = pack28 call_to hi h;
          (rb, h) = pack28 call_de hi h
      in case ra of
           None \<Rightarrow> (Inl ERROR_CALLSIGN1, h)
         | Some (n28a, ipa) \<Rightarrow>
             (case rb of
                None \<Rightarrow> (Inl ERROR_CALLSIGN2, h)
              | Some (n28b, ipb) \<Rightarrow>
                  (let p = (ends_with call_to ''/P'' \<or> ends_with call_de ''/P'')
                   in if p \<and> (ends_with call_to ''/R'' \<or> ends_with call_de ''/R'')
                      then (Inl ERROR_SUFFIX, h)
                      else
                        (let i3 = (if p then 2 else 1);
                             igrid4 = packgrid extra;
                             n29a = push_bit 1 n28a OR ucast ipa;
                             n29b = push_bit 1 n28b OR ucast ipb;
                             (n29a, i3) =
                               (if ends_with call_to ''/R'' then (n29a OR 1, i3)
                                else if ends_with call_to ''/P'' then (n29a OR 1, 2) else (n29a, i3))
                         in (Inr (std_payload n29a n29b igrid4 i3), h)))))"

definition std_n29a :: "payload \<Rightarrow> u32" where
  "std_n29a p = push_bit 21 (ucast (p ! 0)) OR push_bit 13 (ucast (p ! 1)) OR push_bit 5 (ucast (p ! 2)) OR
                ucast (drop_bit 3 (p ! 3))"

definition std_n29b :: "payload \<Rightarrow> u32" where
  "std_n29b p = push_bit 26 (ucast (p ! 3 AND 7)) OR push_bit 18 (ucast (p ! 4)) OR push_bit 10 (ucast (p ! 5)) OR
                push_bit 2 (ucast (p ! 6)) OR ucast (drop_bit 6 (p ! 7))"

definition std_ir :: "payload \<Rightarrow> u8" where
  "std_ir p = drop_bit 5 (p ! 7 AND 0x20)"

definition std_igrid4 :: "payload \<Rightarrow> u16" where
  "std_igrid4 p = push_bit 10 (ucast (p ! 7 AND 0x1F)) OR push_bit 2 (ucast (p ! 8)) OR ucast (drop_bit 6 (p ! 9))"

text \<open>The three fields; on an error, the error and what the fields hold by then.\<close>

definition decode_std ::
  "'h hash_if option \<Rightarrow> payload \<Rightarrow> 'h \<Rightarrow> (ftx_error \<times> string \<times> string \<times> string + string \<times> string \<times> string) \<times> 'h" where
  "decode_std hi p h =
     (let n29a = std_n29a p; n29b = std_n29b p; i3 = get_i3 p;
          (ra, h) = unpack28 (drop_bit 1 n29a) (ucast (n29a AND 1)) i3 hi h
      in case ra of
           Inl call_to \<Rightarrow> (Inl (ERROR_CALLSIGN1, call_to, [], []), h)
         | Inr call_to \<Rightarrow>
             (let (rb, h) = unpack28 (drop_bit 1 n29b) (ucast (n29b AND 1)) i3 hi h
              in case rb of
                   Inl call_de \<Rightarrow> (Inl (ERROR_CALLSIGN2, call_to, call_de, []), h)
                 | Inr call_de \<Rightarrow> (Inr (call_to, call_de, unpackgrid (std_igrid4 p) (std_ir p)), h)))"

section \<open>Messages with a nonstandard callsign\<close>

text \<open>12, 58, 1, 2, 1 and 3 bits.\<close>

definition nonstd_payload :: "u16 \<Rightarrow> u64 \<Rightarrow> u8 \<Rightarrow> u8 \<Rightarrow> u8 \<Rightarrow> u8 \<Rightarrow> payload" where
  "nonstd_payload n12 n58 iflip nrpt icq i3 =
     [ucast (drop_bit 4 n12),
      ucast (push_bit 4 n12) OR ucast (drop_bit 54 n58),
      ucast (drop_bit 46 n58),
      ucast (drop_bit 38 n58),
      ucast (drop_bit 30 n58),
      ucast (drop_bit 22 n58),
      ucast (drop_bit 14 n58),
      ucast (drop_bit 6 n58),
      ucast (push_bit 2 n58) OR push_bit 1 iflip OR drop_bit 1 nrpt,
      push_bit 7 nrpt OR push_bit 6 icq OR push_bit 3 i3]"

definition encode_nonstd ::
  "'h hash_if option \<Rightarrow> string \<Rightarrow> string \<Rightarrow> string \<Rightarrow> 'h \<Rightarrow> (ftx_error + payload) \<times> 'h" where
  "encode_nonstd hi call_to call_de extra h =
     (let icq = equals call_to ''CQ''
      in if \<not> icq \<and> length call_to < 3 then (Inl ERROR_CALLSIGN1, h)
      else if length call_de < 3 then (Inl ERROR_CALLSIGN2, h)
      else
        (let iflip = (\<not> icq \<and> char_at call_de 0 = CHR ''<'' \<and> char_at call_de (length call_to - 1) = CHR ''>'');
             call12 = (if iflip then call_de else call_to);
             call58 = (if icq then call_de else if iflip then call_to else call_de)
         in case (if icq then Some (0, h) else map_option (\<lambda>(n22, h). (n12_of n22, h)) (save_callsign hi call12 h)) of
              None \<Rightarrow> (Inl ERROR_CALLSIGN1, h)
            | Some (n12, h) \<Rightarrow>
                (let (r58, h) = pack58 hi call58 h
                 in case r58 of
                      None \<Rightarrow> (Inl ERROR_CALLSIGN2, h)
                    | Some n58 \<Rightarrow>
                        (let nrpt = (if icq then 0 else if equals extra ''RRR'' then 1
                                     else if equals extra ''RR73'' then 2 else if equals extra ''73'' then 3 else 0)
                         in (Inr (nonstd_payload n12 n58 (byte_of_bool iflip) nrpt (byte_of_bool icq) 4), h)))))"

definition nonstd_n12 :: "payload \<Rightarrow> u16" where
  "nonstd_n12 p = push_bit 4 (ucast (p ! 0)) OR ucast (drop_bit 4 (p ! 1))"

definition nonstd_n58 :: "payload \<Rightarrow> u64" where
  "nonstd_n58 p =
     push_bit 54 (ucast (p ! 1 AND 0x0F)) OR push_bit 46 (ucast (p ! 2)) OR push_bit 38 (ucast (p ! 3)) OR
     push_bit 30 (ucast (p ! 4)) OR push_bit 22 (ucast (p ! 5)) OR push_bit 14 (ucast (p ! 6)) OR
     push_bit 6 (ucast (p ! 7)) OR ucast (drop_bit 2 (p ! 8))"

definition decode_nonstd ::
  "'h hash_if option \<Rightarrow> payload \<Rightarrow> 'h \<Rightarrow> (ftx_error \<times> string \<times> string \<times> string + string \<times> string \<times> string) \<times> 'h" where
  "decode_nonstd hi p h =
     (let n12 = nonstd_n12 p; n58 = nonstd_n58 p;
          iflip = drop_bit 1 (p ! 8) AND 1;
          nrpt = push_bit 1 (p ! 8 AND 1) OR drop_bit 7 (p ! 9);
          icq = drop_bit 6 (p ! 9) AND 1;
          (call_decoded, _, h) = unpack58 n58 hi h;
          call_3 = snd (lookup_callsign hi HASH_12_BITS (ucast n12) h);
          call_1 = (if iflip \<noteq> 0 then call_decoded else call_3);
          call_2 = (if iflip \<noteq> 0 then call_3 else call_decoded);
          call_to = (if icq = 0 then call_1 else ''CQ'');
          extra = (if icq = 0 then
                     if nrpt = 1 then ''RRR'' else if nrpt = 2 then ''RR73'' else if nrpt = 3 then ''73'' else []
                   else [])
      in (Inr (call_to, call_2, extra), h))"

section \<open>Encoding a text\<close>

definition ftx_message_encode :: "'h hash_if option \<Rightarrow> string \<Rightarrow> 'h \<Rightarrow> (ftx_error + payload) \<times> 'h" where
  "ftx_message_encode hi message_text h =
     (let (b1, rest) = copy_token 12 message_text;
          (b2, rest) = copy_token 12 rest;
          (b3, rest) = copy_token 20 rest
      in if b1 ! 11 \<noteq> CHR 0x00 then (Inl ERROR_CALLSIGN1, h)
         else if b2 ! 11 \<noteq> CHR 0x00 then (Inl ERROR_CALLSIGN2, h)
         else if b3 ! 19 \<noteq> CHR 0x00 then (Inl ERROR_GRID, h)
         else
           (case encode_std hi (c_string b1) (c_string b2) (c_string b3) h of
              (Inr p, h) \<Rightarrow> (Inr p, h)
            | (Inl _, h) \<Rightarrow> encode_nonstd hi (c_string b1) (c_string b2) (c_string b3) h))"

section \<open>Free text and telemetry\<close>

text \<open>The 71 bits of the payload, shifted right by one bit.\<close>

fun shift_right1 :: "u8 \<Rightarrow> u8 list \<Rightarrow> u8 list" where
  "shift_right1 carry [] = []"
| "shift_right1 carry (b # bs) = (push_bit 7 carry OR drop_bit 1 b) # shift_right1 (b AND 1) bs"

definition decode_telemetry :: "payload \<Rightarrow> u8 list" where
  "decode_telemetry p = shift_right1 0 (take 9 p)"

text \<open>One long division of the big-endian byte string by 42.\<close>

fun div42 :: "u16 \<Rightarrow> u8 list \<Rightarrow> u8 list \<times> u16" where
  "div42 rm [] = ([], rm)"
| "div42 rm (b # bs) =
     (let rm = push_bit 8 rm OR ucast b;
          (qs, r) = div42 (rm mod 42) bs
      in (ucast (rm div 42) # qs, r))"

fun free_chars :: "nat \<Rightarrow> u8 list \<Rightarrow> string \<Rightarrow> string" where
  "free_chars 0 b71 acc = acc"
| "free_chars (Suc k) b71 acc =
     (let (q, r) = div42 0 b71 in free_chars k q (charn (uint r) FULL # acc))"

definition decode_free :: "payload \<Rightarrow> string" where
  "decode_free p = trim (free_chars 13 (decode_telemetry p) '''')"

definition hex_char :: "u8 \<Rightarrow> char" where
  "hex_char nibble =
     (if 9 < nibble then chr (uint nibble - 10 + ord (CHR ''A'')) else chr (uint nibble + ord (CHR ''0'')))"

definition decode_telemetry_hex :: "payload \<Rightarrow> string" where
  "decode_telemetry_hex p =
     concat (map (\<lambda>b. [hex_char (drop_bit 4 b), hex_char (b AND 0x0F)]) (decode_telemetry p))"

section \<open>Decoding a payload\<close>

definition join3 :: "string \<times> string \<times> string \<Rightarrow> string" where
  "join3 = (\<lambda>(f1, f2, f3).
     append_string (append_string (append_string (append_string f1 '' '') f2) '' '') f3)"

text \<open>
  The caller's buffer gets the joined fields in every case but that of an unknown type, also when the return code is an
  error: \<open>Inl\<close> is an error code with the text left in the buffer, \<open>Inr\<close> success with the text.
\<close>

definition joined ::
  "(ftx_error \<times> string \<times> string \<times> string + string \<times> string \<times> string) \<times> 'h \<Rightarrow> (ftx_error \<times> string + string) \<times> 'h" where
  "joined r = (case r of (Inl (e, fs), h) \<Rightarrow> (Inl (e, join3 fs), h) | (Inr fs, h) \<Rightarrow> (Inr (join3 fs), h))"

lemma joined_simps [simp]: "joined (Inr fs, h) = (Inr (join3 fs), h)" "joined (Inl (e, fs), h) = (Inl (e, join3 fs), h)"
  by (simp_all add: joined_def)

definition text_of :: "ftx_error \<times> string + string \<Rightarrow> string" where
  "text_of r = (case r of Inl (_, txt) \<Rightarrow> txt | Inr txt \<Rightarrow> txt)"

definition ftx_message_decode :: "'h hash_if option \<Rightarrow> payload \<Rightarrow> 'h \<Rightarrow> (ftx_error \<times> string + string) \<times> 'h" where
  "ftx_message_decode hi p h =
     (case get_type p of
        STANDARD \<Rightarrow> joined (decode_std hi p h)
      | NONSTD_CALL \<Rightarrow> joined (decode_nonstd hi p h)
      | FREE_TEXT \<Rightarrow> (Inr (decode_free p), h)
      | TELEMETRY \<Rightarrow> (Inr (decode_telemetry_hex p), h)
      | _ \<Rightarrow> (Inl (ERROR_TYPE, []), h))"

section \<open>The fields of a payload\<close>

lemma std_fields:
  assumes a: "unat a < 2 ^ 29" and b: "unat b < 2 ^ 29" and i: "unat i < 2 ^ 3"
  shows "std_n29a (std_payload a b g i) = a" and "std_n29b (std_payload a b g i) = b"
    and "std_igrid4 (std_payload a b g i) = g AND 0x7FFF" and "std_ir (std_payload a b g i) = ucast (drop_bit 15 g)"
    and "get_i3 (std_payload a b g i) = i AND 7"
proof -
  have hi: "\<not> bit a k" "\<not> bit b k" if "29 \<le> k" for k
    using that bit_lt_of_unat_lt [OF a, of k] bit_lt_of_unat_lt [OF b, of k] by auto
  have gb: "\<not> bit g k" if "16 \<le> k" for k using that bit_imp_le_length [of g k] by auto
  have ib: "\<not> bit i k" if "3 \<le> k" for k using that bit_lt_of_unat_lt [OF i, of k] by auto
  have "bit (std_n29a (std_payload a b g i)) n = bit a n" if "n < 32" for n
    unfolding std_n29a_def std_payload_def
    using lt32_cases [OF that] by (elim disjE; simp add: bit_simps hi gb)
  then show "std_n29a (std_payload a b g i) = a" by (intro bit_word_eqI) simp
  have "bit (std_n29b (std_payload a b g i)) n = bit b n" if "n < 32" for n
    unfolding std_n29b_def std_payload_def
    using lt32_cases [OF that] by (elim disjE; simp add: bit_simps hi gb)
  then show "std_n29b (std_payload a b g i) = b" by (intro bit_word_eqI) simp
  have "bit (std_igrid4 (std_payload a b g i)) n = bit (g AND 0x7FFF) n" if "n < 16" for n
    unfolding std_igrid4_def std_payload_def
    using lt16_cases [OF that] by (elim disjE; simp add: bit_simps hi gb ib)
  then show "std_igrid4 (std_payload a b g i) = g AND 0x7FFF" by (intro bit_word_eqI) simp
  have "bit (std_ir (std_payload a b g i)) n = bit (ucast (drop_bit 15 g) :: u8) n" if "n < 8" for n
    unfolding std_ir_def std_payload_def
    using lt8_cases [OF that] by (elim disjE; simp add: bit_simps hi gb)
  then show "std_ir (std_payload a b g i) = ucast (drop_bit 15 g)" by (intro bit_word_eqI) simp
  have "bit (get_i3 (std_payload a b g i)) n = bit (i AND 7) n" if "n < 8" for n
    unfolding get_i3_def std_payload_def
    using lt8_cases [OF that] by (elim disjE; simp add: bit_simps hi gb ib)
  then show "get_i3 (std_payload a b g i) = i AND 7" by (intro bit_word_eqI) simp
qed

lemma call_with_flag:
  assumes n: "unat (n :: u32) < 2 ^ 28" and ip: "ip = 0 \<or> ip = (1 :: u8)"
  shows "unat (push_bit 1 n OR ucast ip) < 2 ^ 29" and "drop_bit 1 (push_bit 1 n OR ucast ip) = n"
    and "ucast ((push_bit 1 n OR ucast ip) AND 1) = ip" and "ip = 1 \<Longrightarrow> (push_bit 1 n OR ucast ip) OR 1 = push_bit 1 n OR ucast ip"
proof -
  have hi: "\<not> bit n k" if "28 \<le> k" for k using that bit_lt_of_unat_lt [OF n, of k] by auto
  have ipb: "bit ip k \<longleftrightarrow> k = 0 \<and> ip = 1" for k using ip by (auto simp: bit_1_iff)
  have "k < 29" if "bit (push_bit 1 n OR ucast ip :: u32) k" for k
    using that bit_lt_of_unat_lt [OF n, of "k - 1"] unfolding bit_or_iff bit_push_bit_iff bit_ucast_iff ipb by auto
  then show "unat (push_bit 1 n OR ucast ip :: u32) < 2 ^ 29" by (rule unat_less_of_bits)
  have "bit (drop_bit 1 (push_bit 1 n OR ucast ip :: u32)) k = bit n k" if "k < 32" for k
    unfolding bit_drop_bit_eq o_apply bit_or_iff bit_push_bit_iff bit_ucast_iff ipb using that bit_lt_of_unat_lt [OF n, of k] by auto
  then show "drop_bit 1 (push_bit 1 n OR ucast ip) = n" by (intro bit_word_eqI) simp
  have "bit (ucast ((push_bit 1 n OR ucast ip :: u32) AND 1) :: u8) k = bit ip k" if "k < 8" for k
    unfolding bit_ucast_iff bit_or_iff bit_and_iff bit_push_bit_iff ipb bit_1_iff by auto
  then show "ucast ((push_bit 1 n OR ucast ip) AND 1) = ip" by (intro bit_word_eqI) simp
  show "(push_bit 1 n OR ucast ip) OR 1 = push_bit 1 n OR ucast ip" if "ip = 1"
    using that by simp
qed

section \<open>Standard messages survive transmission\<close>

definition std_call :: "string \<Rightarrow> bool" where
  "std_call c \<longleftrightarrow> c \<in> {''DE'', ''QRZ'', ''CQ''} \<or> (\<exists>b s. base_call b \<and> s \<in> call_suffixes \<and> c = b @ s)"

text \<open>The payload type that fits the suffix of a call.\<close>

definition fits_i3 :: "u8 \<Rightarrow> string \<Rightarrow> bool" where
  "fits_i3 i3 c \<longleftrightarrow> (ends_with c ''/P'' \<longrightarrow> i3 = 2) \<and> (ends_with c ''/R'' \<longrightarrow> i3 = 1)"

lemma std_call_packs:
  assumes "std_call c"
  shows "\<exists>n ip. (\<forall>(hi :: 'h hash_if option) h. \<exists>h'. pack28 c hi h = (Some (n, ip), h')) \<and>
           unat n < 2 ^ 28 \<and> (ip = 0 \<or> ip = 1) \<and> (ends_with c ''/P'' \<or> ends_with c ''/R'' \<longrightarrow> ip = 1) \<and>
           (\<forall>(hi :: 'h hash_if option) h i3. fits_i3 i3 c \<longrightarrow> (\<exists>h'. unpack28 n ip i3 hi h = (Inr c, h')))"
proof (cases "c \<in> {''DE'', ''QRZ'', ''CQ''}")
  case True
  then consider "c = ''DE''" | "c = ''QRZ''" | "c = ''CQ''" by blast
  then show ?thesis
  proof cases
    case 1
    then show ?thesis
      by (intro exI [of _ 0]) (simp add: pack28_def unpack28_def equals_def NTOKENS_def ends_with_def)
  next
    case 2
    then show ?thesis
      by (intro exI [of _ 1] exI [of _ 0]) (simp add: pack28_def unpack28_def equals_def NTOKENS_def ends_with_def)
  next
    case 3
    then show ?thesis
      by (intro exI [of _ 2] exI [of _ 0]) (simp add: pack28_def unpack28_def equals_def NTOKENS_def ends_with_def)
  qed
next
  case False
  then obtain b s where b: "base_call b" and s: "s \<in> call_suffixes" and c: "c = b @ s"
    using assms by (auto simp: std_call_def)
  let ?n = "NTOKENS + MAX22 + word_of_int (pack_basecall b (length b)) :: u32"
  have r: "0 \<le> pack_basecall b (length b)" "pack_basecall b (length b) < 262177560"
    using b basecall_unpacks [of b] by (auto simp: base_call_def)
  have "uint (word_of_int (pack_basecall b (length b)) :: u32) = pack_basecall b (length b)"
    using r by (intro uint_word_of_int_small) simp_all
  then have "uint ?n = 6257896 + pack_basecall b (length b)"
    using r by (simp add: NTOKENS_def MAX22_def uint_word_arith_bintrs take_bit_int_eq_self_iff)
  then have "nat (uint ?n) < 2 ^ 28" using r by simp
  then have "unat ?n < 2 ^ 28" by (simp only: nat_uint_eq)
  moreover have "\<exists>h'. unpack28 ?n (if s = [] then 0 else 1) i3 hi h = (Inr c, h')" if "fits_i3 i3 c"
    for i3 h and hi :: "'h hash_if option"
    unfolding c by (rule unpack28_base [OF b s]) (use that ends_with_suffix [OF b s] in \<open>auto simp: fits_i3_def c\<close>)
  moreover have "\<exists>h'. pack28 c hi h = (Some (?n, if s = [] then 0 else 1), h')" for h and hi :: "'h hash_if option"
    unfolding c by (rule pack28_base [OF b s])
  moreover have "ends_with c ''/P'' \<or> ends_with c ''/R'' \<longrightarrow> s \<noteq> []"
    using ends_with_suffix [OF b s] by (auto simp: c)
  ultimately show ?thesis
    by (intro exI [of _ ?n] exI [of _ "if s = [] then 0 else 1"] conjI allI impI) (blast | auto)+
qed

lemma get_type_std: "get_i3 p = 1 \<or> get_i3 p = 2 \<Longrightarrow> get_type p = STANDARD"
  unfolding get_type_def Let_def by (elim disjE) simp_all

lemma std_message_payload:
  fixes hi hi' :: "'h hash_if option"
  assumes to: "std_call call_to" and de: "std_call call_de" and ex: "std_extra extra"
    and suf: "\<not> ((ends_with call_to ''/P'' \<or> ends_with call_de ''/P'') \<and> (ends_with call_to ''/R'' \<or> ends_with call_de ''/R''))"
  shows "\<exists>a b g i3 h1 h2. encode_std hi call_to call_de extra h = (Inr (std_payload a b g i3), h1) \<and>
           (i3 = 1 \<or> i3 = 2) \<and> get_type (std_payload a b g i3) = STANDARD \<and>
           decode_std hi' (std_payload a b g i3) h' = (Inr (call_to, call_de, extra), h2)"
proof -
  obtain na ipa where A: "\<And>(hi :: 'h hash_if option) h. \<exists>h'. pack28 call_to hi h = (Some (na, ipa), h')"
      "unat na < 2 ^ 28" "ipa = 0 \<or> ipa = 1" "ends_with call_to ''/P'' \<or> ends_with call_to ''/R'' \<longrightarrow> ipa = 1"
      "\<And>(hi :: 'h hash_if option) h i3. fits_i3 i3 call_to \<Longrightarrow> \<exists>h'. unpack28 na ipa i3 hi h = (Inr call_to, h')"
    using std_call_packs [OF to, where 'h = 'h] by blast
  obtain nb ipb where B: "\<And>(hi :: 'h hash_if option) h. \<exists>h'. pack28 call_de hi h = (Some (nb, ipb), h')"
      "unat nb < 2 ^ 28" "ipb = 0 \<or> ipb = 1" "ends_with call_de ''/P'' \<or> ends_with call_de ''/R'' \<longrightarrow> ipb = 1"
      "\<And>(hi :: 'h hash_if option) h i3. fits_i3 i3 call_de \<Longrightarrow> \<exists>h'. unpack28 nb ipb i3 hi h = (Inr call_de, h')"
    using std_call_packs [OF de, where 'h = 'h] by blast
  let ?a = "push_bit 1 na OR ucast ipa" and ?b = "push_bit 1 nb OR ucast ipb"
  define i3 :: u8 where "i3 = (if ends_with call_to ''/P'' \<or> ends_with call_de ''/P'' then 2 else 1)"
  have i3: "unat i3 < 2 ^ 3" "i3 AND 7 = i3" "i3 = 1 \<or> i3 = 2" by (simp_all add: i3_def)
  have fits: "fits_i3 i3 call_to" "fits_i3 i3 call_de" using suf by (auto simp: fits_i3_def i3_def)
  let ?p = "std_payload ?a ?b (packgrid extra) i3"
  note fa = call_with_flag [OF A(2,3)] and fb = call_with_flag [OF B(2,3)]
  note fields = std_fields [OF fa(1) fb(1) i3(1)]
  obtain h1 where h1: "pack28 call_to hi h = (Some (na, ipa), h1)" using A(1) by blast
  obtain h2 where h2: "pack28 call_de hi h1 = (Some (nb, ipb), h2)" using B(1) by blast
  have "encode_std hi call_to call_de extra h = (Inr ?p, h2)"
    unfolding encode_std_def h1 h2 Let_def prod.case option.case
    using suf A(4) fa(4) by (auto simp: i3_def)
  moreover have "get_type ?p = STANDARD"
    by (rule get_type_std) (use i3(3) in \<open>simp only: fields(5) i3(2)\<close>)
  moreover obtain h3 where h3: "unpack28 na ipa i3 hi' h' = (Inr call_to, h3)" using A(5) fits by blast
  obtain h4 where h4: "unpack28 nb ipb i3 hi' h3 = (Inr call_de, h4)" using B(5) fits by blast
  have "unpackgrid (packgrid extra AND 0x7FFF) (ucast (drop_bit 15 (packgrid extra))) = extra"
    using std_extra_roundtrip [OF ex] by (simp add: grid_field_def)
  then have "decode_std hi' ?p h' = (Inr (call_to, call_de, extra), h4)"
    by (simp only: decode_std_def Let_def fields fa(2,3) fb(2,3) i3(2) h3 h4 prod.case sum.case)
  ultimately show ?thesis using i3(3) by blast
qed

text \<open>
  C6. Round trip of a standard message: two calls that are special tokens or standard callsigns,
  with or without /P or /R (but not both kinds), and a locator, report or fixed answer are encoded
  without error, and decoding the payload, with any callsign table, returns the same three fields.
\<close>

theorem std_message_roundtrip:
  fixes hi hi' :: "'h hash_if option"
  assumes to: "std_call call_to" and de: "std_call call_de" and ex: "std_extra extra"
    and suf: "\<not> ((ends_with call_to ''/P'' \<or> ends_with call_de ''/P'') \<and> (ends_with call_to ''/R'' \<or> ends_with call_de ''/R''))"
  shows "\<exists>p h1 h2. encode_std hi call_to call_de extra h = (Inr p, h1) \<and> get_type p = STANDARD \<and>
           decode_std hi' p h' = (Inr (call_to, call_de, extra), h2)"
  using std_message_payload [OF assms, where hi = hi and h = h and hi' = hi' and h' = h'] by blast

lemma base_call_witness: "base_call ''K1ABC''" "base_call ''3DA0XYZ''"
  unfolding base_call_def by code_simp+

theorem std_message_roundtrip_witness:
  "\<exists>p h1 h2. encode_std (Some ft8_hash_if) ''CQ'' ''K1ABC/P'' ''FN42'' hashtable_init = (Inr p, h1) \<and>
     get_type p = STANDARD \<and>
     decode_std (Some ft8_hash_if) p hashtable_init = (Inr (''CQ'', ''K1ABC/P'', ''FN42''), h2)"
proof (rule std_message_roundtrip)
  show "std_call ''CQ''" by (simp add: std_call_def)
  have "''K1ABC/P'' = ''K1ABC'' @ ''/P''" by simp
  then show "std_call ''K1ABC/P''" using base_call_witness(1) unfolding std_call_def call_suffixes_def by blast
  have "is_locator ''FN42''" by code_simp
  then show "std_extra ''FN42''" by (simp add: std_extra_def)
qed code_simp

section \<open>A decoded text fits its buffer\<close>

lemma length_trim_front: "length (trim_front s) \<le> length s"
  by (induction s) auto

lemma length_trim_back: "length (trim_back s) \<le> length s"
  using length_trim_front [of "rev s"] by (simp add: trim_back_def)

lemma length_trim: "length (trim s) \<le> length s"
  unfolding trim_def by (rule order_trans [OF length_trim_back length_trim_front])

lemma length_trim_copy: "length (trim_copy s) \<le> length s"
  unfolding trim_copy_def by (rule order_trans [OF length_trim_back length_trim_front])

lemma length_dd_digits [simp]: "length (dd_digits n v) = n"
  by (induction n arbitrary: v) (simp_all add: Let_def)

lemma length_letters27: "length (letters27 k n acc) = k + length acc"
  by (induction k n acc rule: letters27.induct) simp_all

lemma length_unpack58_chars: "length (unpack58_chars k n acc) = k + length acc"
  by (induction k n acc rule: unpack58_chars.induct) simp_all

lemma length_unpack_basecall: "length (unpack_basecall n) \<le> 7"
  using length_trim_copy [of "drop 3 (basecall_chars n)"] length_trim_copy [of "drop 1 (basecall_chars n)"]
    length_trim_copy [of "basecall_chars n"]
  by (auto simp: unpack_basecall_def Let_def basecall_chars_def)

lemma length_unpackgrid: "length (unpackgrid g ir) \<le> 6"
  by (auto simp: unpackgrid_def Let_def int_to_dd_def)

lemma hash22_masked: "hash22 n AND mask22 = hash22 n"
proof -
  have m: "bit (0x3FFFFF :: u64) k \<longleftrightarrow> k < 22" "bit (0x3FFFFF :: u32) k \<longleftrightarrow> k < 22" for k
    using bit_mask_iff [of 22 k, where 'a = u64] bit_mask_iff [of 22 k, where 'a = u32] bit_imp_le_length [of _ k]
    by (auto simp: mask_eq_exp_minus_1)
  show ?thesis
    unfolding hash22_def mask22_def by (rule bit_word_eqI) (simp only: bit_and_iff bit_ucast_iff m, blast)
qed

lemma nonstd_choice:
  assumes "(Inr (if P then if Q then s else t else ''CQ'', if Q then t else s,
       if P then if A then ''RRR'' else if B then ''RR73'' else if C then ''73'' else [] else []), h1) = (r, h')"
  shows "h' = h1 \<and> (\<exists>a b c. r = Inr (a, b, c) \<and>
           length a \<le> max 2 (max (length s) (length t)) \<and> length b \<le> max (length s) (length t) \<and> length c \<le> 6)"
  using assms by auto

text \<open>What the decoders need of the callsign table they are given.\<close>

locale bounded_store =
  fixes hi :: "'h hash_if" and store_ok :: "'h \<Rightarrow> bool"
  assumes lookup_short: "\<And>h ty g s. store_ok h \<Longrightarrow> lookup_hash hi ty g h = Some s \<Longrightarrow> length s \<le> 11"
    and save_ok: "\<And>h cs n. store_ok h \<Longrightarrow> cs \<noteq> [] \<Longrightarrow> n AND mask22 = n \<Longrightarrow> store_ok (save_hash hi cs n h)"
begin

lemma save_callsign_ok:
  "save_callsign (Some hi) cs h = Some (n, h') \<Longrightarrow> store_ok h \<Longrightarrow> cs = [] \<or> store_ok h'"
  by (auto simp: save_callsign_def Let_def hash22_masked intro!: save_ok split: option.splits)

lemma lookup_callsign_short: "store_ok h \<Longrightarrow> length (snd (lookup_callsign (Some hi) ty g h)) \<le> 13"
  by (auto simp: lookup_callsign_def add_brackets_def dest: lookup_short split: option.splits)

lemma unpack28_fits:
  assumes ok: "store_ok h" and u: "unpack28 n ip i3 (Some hi) h = (r, h')"
  shows "store_ok h' \<and> (\<forall>s. r = Inl s \<or> r = Inr s \<longrightarrow> length s \<le> 13)"
proof -
  have l27: "length (trim_front (letters27 4 m [])) \<le> 4" for m
    using length_trim_front [of "letters27 4 m []"] by (simp add: length_letters27)
  have dd: "length (int_to_dd (uint w) 3 False) = 3" for w :: u32
    by (simp add: int_to_dd_def)
  have ne: "res \<noteq> []" if "3 \<le> length res" for res :: string using that by auto
  show ?thesis
  proof (cases "n < NTOKENS + MAX22 \<and> n < NTOKENS \<or> n - NTOKENS < MAX22")
    case True
    then show ?thesis
      using u ok l27 [of "n - 1003"] dd [of "n - 3"] lookup_callsign_short [OF ok, of HASH_22_BITS "n - NTOKENS"]
      by (auto simp: unpack28_def Let_def split: if_splits)
  next
    case False
    then show ?thesis
      using u ok l27 [of "n - 1003"] dd [of "n - 3"] length_unpack_basecall [of "n - NTOKENS - MAX22"]
      by (auto simp: unpack28_def Let_def dest!: save_callsign_ok [OF _ ok] split: if_splits option.splits)
  qed
qed

lemma unpack58_fits:
  "store_ok h \<Longrightarrow> unpack58 n (Some hi) h = (s, b, h') \<Longrightarrow> store_ok h' \<and> length s \<le> 11"
  using length_trim_copy [of "unpack58_chars 11 n []"]
  by (auto simp: unpack58_def Let_def length_unpack58_chars dest!: save_callsign_ok split: if_splits option.splits)

text \<open>The fields of a result, error or not, fit their buffers.\<close>

definition fields_fit :: "string \<times> string \<times> string \<Rightarrow> bool" where
  "fields_fit = (\<lambda>(a, b, c). length a \<le> 13 \<and> length b \<le> 13 \<and> length c \<le> 6)"

definition result_fits :: "ftx_error \<times> string \<times> string \<times> string + string \<times> string \<times> string \<Rightarrow> bool" where
  "result_fits r = (case r of Inl (_, fs) \<Rightarrow> fields_fit fs | Inr fs \<Rightarrow> fields_fit fs)"

lemma decode_std_fits:
  assumes "store_ok h" and "decode_std (Some hi) p h = (r, h')"
  shows "store_ok h' \<and> result_fits r"
proof -
  let ?i = "get_i3 p"
  obtain ra h1 where a: "unpack28 (drop_bit 1 (std_n29a p)) (ucast (std_n29a p AND 1)) ?i (Some hi) h = (ra, h1)"
    by (metis prod.exhaust)
  obtain rb h2 where b: "unpack28 (drop_bit 1 (std_n29b p)) (ucast (std_n29b p AND 1)) ?i (Some hi) h1 = (rb, h2)"
    by (metis prod.exhaust)
  note fa = unpack28_fits [OF assms(1) a]
  then have "store_ok h1" by blast
  note fb = unpack28_fits [OF this b]
  show ?thesis
    using assms(2) fa fb length_unpackgrid [of "std_igrid4 p" "std_ir p"]
    unfolding decode_std_def Let_def a b prod.case by (cases ra; cases rb) (auto simp: result_fits_def fields_fit_def)
qed

lemma decode_nonstd_fits:
  assumes ok: "store_ok h" and d: "decode_nonstd (Some hi) p h = (r, h')"
  shows "store_ok h' \<and> result_fits r"
proof -
  obtain s b h1 where u: "unpack58 (nonstd_n58 p) (Some hi) h = (s, b, h1)" by (metis prod_cases3)
  have s: "store_ok h1" "length s \<le> 11" using unpack58_fits [OF ok u] by auto
  let ?t = "snd (lookup_callsign (Some hi) HASH_12_BITS (ucast (nonstd_n12 p)) h1)"
  have t: "length ?t \<le> 13" by (rule lookup_callsign_short [OF s(1)])
  have "h' = h1 \<and> (\<exists>a b c. r = Inr (a, b, c) \<and>
           length a \<le> max 2 (max (length s) (length ?t)) \<and> length b \<le> max (length s) (length ?t) \<and> length c \<le> 6)"
    by (rule nonstd_choice [OF d [unfolded decode_nonstd_def Let_def u prod.case]])
  then show ?thesis using s t by (auto simp: result_fits_def fields_fit_def)
qed

end

lemma length_shift_right1 [simp]: "length (shift_right1 c bs) = length bs"
  by (induction c bs rule: shift_right1.induct) simp_all

lemma length_free_chars: "length (free_chars k b acc) = k + length acc"
  by (induction k b acc rule: free_chars.induct) (simp_all split: prod.split)

lemma length_decode_free: "length (decode_free p) \<le> 13"
  using length_trim [of "free_chars 13 (decode_telemetry p) []"]
  by (simp add: decode_free_def length_free_chars)

lemma length_decode_telemetry_hex: "length p = 10 \<Longrightarrow> length (decode_telemetry_hex p) = 18"
  by (simp add: decode_telemetry_hex_def length_concat comp_def decode_telemetry_def sum_list_triv)

context bounded_store
begin

lemma join3_fits: "fields_fit fs \<Longrightarrow> length (join3 fs) \<le> 34"
  by (cases fs) (simp add: fields_fit_def join3_def append_string_def)

lemma joined_fits: "result_fits (fst r) \<Longrightarrow> joined r = (x, h') \<Longrightarrow> h' = snd r \<and> length (text_of x) \<le> 34"
  by (auto simp: joined_def result_fits_def text_of_def join3_fits split: prod.splits sum.splits)

lemma decode_fits:
  assumes ok: "store_ok h" and len: "length p = 10" and d: "ftx_message_decode (Some hi) p h = (r, h')"
  shows "store_ok h' \<and> length (text_of r) \<le> 34"
proof (cases "get_type p = STANDARD \<or> get_type p = NONSTD_CALL")
  case True
  then show ?thesis
    using d decode_std_fits [OF ok prod.collapse [symmetric]] decode_nonstd_fits [OF ok prod.collapse [symmetric]]
    unfolding ftx_message_decode_def by (elim disjE) (use joined_fits in fastforce)+
next
  case False
  then show ?thesis
    using d ok length_decode_free [of p] length_decode_telemetry_hex [OF len]
    by (auto simp: ftx_message_decode_def text_of_def split: message_type.splits)
qed

end

lemma lookup_in_table: "count_ok ht \<Longrightarrow> hashtable_lookup ty g ht = Some s \<Longrightarrow> length s \<le> 11"
  unfolding hashtable_lookup_def
  by (auto simp: count_ok_def dest!: lookup_probe_entry)

interpretation receiver: bounded_store ft8_hash_if count_ok
  by unfold_locales (auto simp: ft8_hash_if_def dest: lookup_in_table count_ok_add)

text \<open>
  C37. Decoding never overruns the caller's buffer, whatever it returns: from any state of the receiver's callsign
  table that satisfies its invariant, decoding any 10-byte payload leaves at most 34 characters in the buffer, with an
  error code as well as with success, so that with the terminating zero they fit
  \<open>char message[FTX_MAX_MESSAGE_LENGTH]\<close>; and the table still satisfies its invariant afterwards.
\<close>

theorem decode_text_fits:
  assumes "count_ok h" and "length p = 10" and "ftx_message_decode (Some ft8_hash_if) p h = (r, h')"
  shows "count_ok h' \<and> length (text_of r) \<le> 34"
  using assms by (rule receiver.decode_fits)

text \<open>A payload whose second call is too short: an error code, and yet a text in the buffer.\<close>

definition short_call_payload :: payload where
  "short_call_payload = std_payload 4 (2 * (NTOKENS + MAX22)) 0 1"

lemma short_call_error:
  "fst (ftx_message_decode (Some ft8_hash_if) short_call_payload hashtable_init) = Inl (ERROR_CALLSIGN2, ''CQ 00 '')"
proof -
  have "get_type short_call_payload = STANDARD" by code_simp
  moreover have "fst (decode_std (Some ft8_hash_if) short_call_payload h) = Inl (ERROR_CALLSIGN2, ''CQ'', ''00'', [])" for h
  proof -
    have "drop_bit 1 (std_n29a short_call_payload) = 2" "ucast (std_n29a short_call_payload AND 1) = (0 :: u8)"
      "drop_bit 1 (std_n29b short_call_payload) = NTOKENS + MAX22" "ucast (std_n29b short_call_payload AND 1) = (0 :: u8)"
      by code_simp+
    moreover have "unpack28 2 0 i3 hi h = (Inr ''CQ'', h)" for i3 hi and h :: "hashtable" by (simp add: unpack28_def NTOKENS_def)
    moreover have "unpack_basecall 0 = ''00''" by code_simp
    then have "unpack28 (NTOKENS + MAX22) 0 i3 hi h = (Inl ''00'', h)" for i3 hi and h :: "hashtable"
      by (simp add: unpack28_def NTOKENS_def MAX22_def Let_def)
    ultimately show ?thesis by (simp add: decode_std_def Let_def)
  qed
  then obtain h' where "decode_std (Some ft8_hash_if) short_call_payload hashtable_init = (Inl (ERROR_CALLSIGN2, ''CQ'', ''00'', []), h')"
    by (metis prod.collapse)
  ultimately show ?thesis by (simp add: ftx_message_decode_def joined_def join3_def append_string_def)
qed

theorem decode_text_fits_witness:
  "text_of (fst (ftx_message_decode (Some ft8_hash_if) short_call_payload hashtable_init)) = ''CQ 00 '' \<and>
   length (text_of (fst (ftx_message_decode (Some ft8_hash_if) short_call_payload hashtable_init))) \<le> 34"
  using decode_text_fits [OF count_ok_init, of short_call_payload, OF _ prod.collapse [symmetric]]
  unfolding short_call_error by (simp add: short_call_payload_def std_payload_def text_of_def)

end
