(* ===== verification/FtxNonstd.thy ===== *)
theory FtxNonstd
  imports FtxMessage
begin

text \<open>
  The 58-bit callsigns and the nonstandard messages of \<open>ft8_lib/ft8/message.c\<close>: what is sent
  survives the encoder and the decoder.
\<close>

section \<open>Callsigns in 58 bits\<close>

definition val38 :: "string \<Rightarrow> int" where
  "val38 s = foldl (\<lambda>r c. r * 38 + nchar c ALPHANUM_SPACE_SLASH) 0 s"

lemma val38_snoc [simp]: "val38 (s @ [c]) = val38 s * 38 + nchar c ALPHANUM_SPACE_SLASH" "val38 [] = 0"
  by (simp_all add: val38_def)

text \<open>Letters, digits and strokes: the characters of a callsign.\<close>

definition call_char :: "char \<Rightarrow> bool" where
  "call_char c \<longleftrightarrow> 0 < nchar c ALPHANUM_SPACE_SLASH"

lemma val38_bound: "\<forall>c\<in>set s. call_char c \<Longrightarrow> 0 \<le> val38 s \<and> val38 s < 38 ^ length s"
proof (induction s rule: rev_induct)
  case (snoc c s)
  then show ?case
    using radix_bound [of "val38 s" "38 ^ length s" "nchar c ALPHANUM_SPACE_SLASH" 38] nchar_less [of c ALPHANUM_SPACE_SLASH]
    by (simp add: call_char_def mult.commute)
qed simp

lemma val38_bound11: "\<forall>c\<in>set s. call_char c \<Longrightarrow> length s \<le> 11 \<Longrightarrow> 0 \<le> val38 s \<and> val38 s < 2 ^ 58"
  using val38_bound [of s] power_increasing [of "length s" 11 "38 :: int"] by auto

lemma pack58_loop_val:
  "\<forall>c\<in>set s. call_char c \<Longrightarrow> length s \<le> k \<Longrightarrow> pack58_loop k s (word_of_int r) =
     Some (word_of_int (foldl (\<lambda>r c. r * 38 + nchar c ALPHANUM_SPACE_SLASH) r s), s)"
proof (induction s arbitrary: k r)
  case Nil
  then show ?case by (cases k) simp_all
next
  case (Cons c s)
  then obtain k' where k: "k = Suc k'" by (cases k) auto
  have "c \<noteq> CHR ''<''" using Cons.prems(1) by (auto simp: call_char_def nchar_def ord_def)
  moreover have "word_of_int r * 38 + word_of_int (nchar c ALPHANUM_SPACE_SLASH) =
      (word_of_int (r * 38 + nchar c ALPHANUM_SPACE_SLASH) :: u64)" by simp
  ultimately show ?case using Cons.prems Cons.IH [of k'] unfolding k by (auto simp: call_char_def simp del: of_int_add of_int_mult)
qed

lemma unpack58_chars_val:
  "\<forall>c\<in>set s. call_char c \<Longrightarrow> length s \<le> k \<Longrightarrow> k \<le> 11 \<Longrightarrow>
     unpack58_chars k (word_of_int (val38 s)) acc = replicate (k - length s) (CHR '' '') @ s @ acc"
proof (induction k arbitrary: s acc)
  case (Suc k)
  have w: "(word_of_int 38 :: u64) = 38" by simp
  show ?case
  proof (cases s rule: rev_exhaust)
    case Nil
    have "charn 0 ALPHANUM_SPACE_SLASH = CHR '' ''" by (simp add: charn_def)
    then show ?thesis using Suc.IH [of "[]"] Suc.prems Nil by (simp add: replicate_append_same)
  next
    case (snoc s' c)
    let ?j = "nchar c ALPHANUM_SPACE_SLASH"
    have j: "0 < ?j" "?j < 38" using Suc.prems snoc nchar_less [of c ALPHANUM_SPACE_SLASH] by (auto simp: call_char_def)
    have b: "0 \<le> val38 s'" "val38 s' * 38 + ?j < 2 ^ 64"
      using val38_bound11 [of s'] val38_bound11 [of s] Suc.prems snoc by auto
    have d: "(word_of_int (val38 s' * 38 + ?j) :: u64) div 38 = word_of_int (val38 s')"
      "uint ((word_of_int (val38 s' * 38 + ?j) :: u64) mod 38) = ?j"
      using radix_word_div [where 'a = 64, of "val38 s'" ?j 38] radix_word_mod [where 'a = 64, of "val38 s'" ?j 38] b j
      unfolding w by simp_all
    then show ?thesis
      using Suc.IH [of s'] Suc.prems snoc j by (simp add: charn_nchar del: of_int_add of_int_mult)
  qed
qed simp

text \<open>Every callsign of up to 11 letters, digits and strokes survives packing into 58 bits.\<close>

definition slash_call :: "string \<Rightarrow> bool" where
  "slash_call c \<longleftrightarrow> 3 \<le> length c \<and> length c \<le> 11 \<and> (\<forall>x\<in>set c. call_char x)"

lemma slash_call_save:
  assumes "slash_call c" shows "\<exists>n h'. save_callsign hi c h = Some (n, h')"
proof -
  have "hash_chars 11 c 0 \<noteq> None" using assms by (intro hash_chars_total) (auto simp: slash_call_def call_char_def)
  then show ?thesis by (auto simp: save_callsign_def Let_def)
qed

lemma slash_call_first: "slash_call c \<Longrightarrow> char_at c 0 \<noteq> CHR ''<''"
proof -
  assume "slash_call c"
  then have "call_char (char_at c 0)" unfolding slash_call_def char_at_def by (cases c) auto
  then show ?thesis by (auto simp: call_char_def nchar_def ord_def)
qed

lemma pack58_call:
  assumes c: "slash_call c"
  shows "\<exists>h'. pack58 hi c h = (Some (word_of_int (val38 c)), h')"
proof -
  obtain n h' where "save_callsign hi c h = Some (n, h')" using slash_call_save [OF c, of hi h] by blast
  moreover have "pack58_loop 11 c (word_of_int 0) = Some (word_of_int (val38 c), c)"
    using c unfolding val38_def by (intro pack58_loop_val) (auto simp: slash_call_def)
  ultimately show ?thesis using slash_call_first [OF c] by (simp add: pack58_def)
qed

lemma unpack58_call:
  assumes c: "slash_call c"
  shows "\<exists>h'. unpack58 (word_of_int (val38 c)) hi h = (c, True, h')"
proof -
  obtain n h' where s: "save_callsign hi c h = Some (n, h')" using slash_call_save [OF c, of hi h] by blast
  have ns: "CHR '' '' \<notin> set c" and ne: "c \<noteq> []"
    using c by (auto simp: slash_call_def call_char_def nchar_def)
  have "trim_copy (unpack58_chars 11 (word_of_int (val38 c)) []) = c"
    using c trim_copy_pad [OF ns ne, of "11 - length c" 0] by (simp add: slash_call_def unpack58_chars_val)
  then show ?thesis using c s by (simp add: unpack58_def slash_call_def)
qed

lemma unat_less_58: "0 \<le> v \<Longrightarrow> v < 2 ^ 58 \<Longrightarrow> unat (word_of_int v :: u64) < 2 ^ 58"
proof -
  assume v: "0 \<le> v" "v < 2 ^ 58"
  then have "uint (word_of_int v :: u64) = v" by (intro uint_word_of_int_small) simp_all
  then have "nat (uint (word_of_int v :: u64)) < 2 ^ 58" using v by (simp add: nat_less_iff)
  then show ?thesis by (simp only: nat_uint_eq)
qed

lemma nonstd_fields:
  assumes n12: "unat n12 < 2 ^ 12" and n58: "unat n58 < 2 ^ 58"
    and fl: "iflip = 0 \<or> iflip = 1" and rp: "nrpt = 0 \<or> nrpt = 1 \<or> nrpt = 2 \<or> nrpt = 3" and cq: "icq = 0 \<or> icq = 1"
  defines "p \<equiv> nonstd_payload n12 n58 iflip nrpt icq 4"
  shows "nonstd_n12 p = n12" and "nonstd_n58 p = n58" and "drop_bit 1 (p ! 8) AND 1 = iflip"
    and "push_bit 1 (p ! 8 AND 1) OR drop_bit 7 (p ! 9) = nrpt" and "drop_bit 6 (p ! 9) AND 1 = icq"
    and "get_i3 p = 4"
proof -
  have hi: "\<not> bit n12 k" if "12 \<le> k" for k using that bit_lt_of_unat_lt [OF n12, of k] by auto
  have hj: "\<not> bit n58 k" if "58 \<le> k" for k using that bit_lt_of_unat_lt [OF n58, of k] by auto
  have fb: "bit iflip k \<longleftrightarrow> k = 0 \<and> iflip = 1" "bit icq k \<longleftrightarrow> k = 0 \<and> icq = 1" for k using fl cq by (auto simp: bit_1_iff)
  have rb: "\<not> bit nrpt k" if "2 \<le> k" for k using that rp bit_lt_of_unat_lt [of nrpt 2 k] by auto
  have f2: "bit (x * 2 :: u8) k \<longleftrightarrow> 1 \<le> k \<and> k < 8 \<and> bit x (k - 1)"
    "bit (4 * x :: u8) k \<longleftrightarrow> 2 \<le> k \<and> k < 8 \<and> bit x (k - 2)" for x k
    using bit_push_bit_iff [of 1 x k] bit_push_bit_iff [of 2 x k] by (auto simp: push_bit_eq_mult mult.commute dest: bit_imp_le_length)
  have b4: "bit (4 :: u8) k \<longleftrightarrow> k = 2" for k using bit_push_bit_iff [of 2 "1 :: u8" k] by (auto simp: bit_1_iff)
  have "bit (nonstd_n12 p) n = bit n12 n" if "n < 16" for n
    unfolding nonstd_n12_def p_def nonstd_payload_def
    using lt16_cases [OF that] by (elim disjE; simp add: bit_simps hi hj)
  then show "nonstd_n12 p = n12" by (intro bit_word_eqI) simp
  have "bit (nonstd_n58 p) n = bit n58 n" if "n < 64" for n
    unfolding nonstd_n58_def p_def nonstd_payload_def
    using lt64_cases [OF that] by (elim disjE; simp add: bit_simps hi hj fb f2 rb)
  then show "nonstd_n58 p = n58" by (intro bit_word_eqI) simp
  have "bit (drop_bit 1 (p ! 8) AND 1) n = bit iflip n" if "n < 8" for n
    unfolding p_def nonstd_payload_def
    using lt8_cases [OF that] by (elim disjE; simp add: bit_simps hi hj fb f2 rb)
  then show "drop_bit 1 (p ! 8) AND 1 = iflip" by (intro bit_word_eqI) simp
  have "bit (push_bit 1 (p ! 8 AND 1) OR drop_bit 7 (p ! 9)) n = bit nrpt n" if "n < 8" for n
    unfolding p_def nonstd_payload_def
    using lt8_cases [OF that] by (elim disjE; simp add: bit_simps hi hj fb f2 rb b4)
  then show "push_bit 1 (p ! 8 AND 1) OR drop_bit 7 (p ! 9) = nrpt" by (intro bit_word_eqI) simp
  have "bit (drop_bit 6 (p ! 9) AND 1) n = bit icq n" if "n < 8" for n
    unfolding p_def nonstd_payload_def
    using lt8_cases [OF that] by (elim disjE; simp add: bit_simps hi hj fb f2 rb b4)
  then show "drop_bit 6 (p ! 9) AND 1 = icq" by (intro bit_word_eqI) simp
  have "bit (get_i3 p) n = bit (4 :: u8) n" if "n < 8" for n
    unfolding get_i3_def p_def nonstd_payload_def
    using lt8_cases [OF that] by (elim disjE; simp add: bit_simps hi hj fb f2 rb b4)
  then show "get_i3 p = 4" by (intro bit_word_eqI) simp
qed

lemma get_type_nonstd: "get_i3 p = 4 \<Longrightarrow> get_type p = NONSTD_CALL"
  by (simp add: get_type_def)

lemma n12_of_bound: "n AND mask22 = n \<Longrightarrow> unat (n12_of n) < 2 ^ 12"
proof (rule unat_less_of_bits)
  fix k assume n: "n AND mask22 = n" and k: "bit (n12_of n) k"
  have "mask22 = mask 22" by (simp add: mask22_def mask_eq_exp_minus_1)
  then have "j < 22" if "bit n j" for j using that n by (metis bit_and_iff bit_mask_iff)
  then show "k < 12" using k by (fastforce simp: n12_of_def bit_simps)
qed

text \<open>The 12-bit hash of a callsign, and the answers a nonstandard message has codes for.\<close>

definition call_hash12 :: "string \<Rightarrow> u32" where
  "call_hash12 c = ucast (n12_of (hash22 (the (hash_chars 11 c 0))))"

lemma save_callsign_hash: "save_callsign hi c h = Some (n, h') \<Longrightarrow> call_hash12 c = ucast (n12_of n)"
  by (auto simp: save_callsign_def call_hash12_def Let_def split: option.splits)

definition nonstd_answers :: "string list" where
  "nonstd_answers = [[], ''RRR'', ''RR73'', ''73'']"

text \<open>
  C36. Round trip of a message with a nonstandard callsign: every callsign of 3 to 11 letters, digits
  and strokes is encoded after \<open>CQ\<close> or after another such call, with one of the fixed answers,
  and decoding returns it with the answer; the other call, of which only a 12-bit hash is sent, is
  shown as the receiver's table knows that hash.
\<close>

theorem nonstd_message_roundtrip:
  fixes hi hi' :: "'h hash_if option"
  assumes de: "slash_call call_de" and to: "call_to = ''CQ'' \<and> extra = [] \<or> slash_call call_to"
    and ex: "extra \<in> set nonstd_answers"
  shows "\<exists>p h1 h2. encode_nonstd hi call_to call_de extra h = (Inr p, h1) \<and> get_type p = NONSTD_CALL \<and>
           decode_nonstd hi' p h' =
             (Inr (if call_to = ''CQ'' then ''CQ'' else snd (lookup_callsign hi' HASH_12_BITS (call_hash12 call_to) h2),
                   call_de, extra), h2)"
proof -
  let ?v = "word_of_int (val38 call_de) :: u64"
  obtain h2 where u: "unpack58 ?v hi' h' = (call_de, True, h2)" using unpack58_call [OF de, of hi' h'] by blast
  have v: "unat ?v < 2 ^ 58" using de val38_bound11 [of call_de] by (intro unat_less_58) (auto simp: slash_call_def)
  have len: "\<not> length call_de < 3" using de by (simp add: slash_call_def)
  have lt: "char_at call_de 0 \<noteq> CHR ''<''" by (rule slash_call_first [OF de])
  show ?thesis
  proof (cases "call_to = ''CQ''")
    case True
    obtain h1 where pk: "pack58 hi call_de h = (Some ?v, h1)" using pack58_call [OF de, of hi h] by blast
    let ?p = "nonstd_payload 0 ?v 0 0 1 4"
    have z: "unat (0 :: u16) < 2 ^ 12" by simp
    have z2: "(0 :: u8) = 0 \<or> (0 :: u8) = 1" "(1 :: u8) = 0 \<or> (1 :: u8) = 1"
      "(0 :: u8) = 0 \<or> (0 :: u8) = 1 \<or> (0 :: u8) = 2 \<or> (0 :: u8) = 3" by simp_all
    note f = nonstd_fields [OF z v z2(1,3,2)]
    have "encode_nonstd hi call_to call_de extra h = (Inr ?p, h1)"
      using True len pk by (simp add: encode_nonstd_def equals_def byte_of_bool_def)
    moreover have "get_type ?p = NONSTD_CALL" by (rule get_type_nonstd) (simp add: f)
    moreover have "decode_nonstd hi' ?p h' = (Inr (''CQ'', call_de, extra), h2)"
      using True to unfolding decode_nonstd_def Let_def f u by (simp add: slash_call_def)
    ultimately show ?thesis using True by auto
  next
    case False
    then have tc: "slash_call call_to" using to by blast
    obtain n22 h3 where sv: "save_callsign hi call_to h = Some (n22, h3)" using slash_call_save [OF tc, of hi h] by blast
    obtain h1 where pk: "pack58 hi call_de h3 = (Some ?v, h1)" using pack58_call [OF de, of hi h3] by blast
    define nrpt :: u8 where "nrpt = (if extra = ''RRR'' then 1 else if extra = ''RR73'' then 2 else if extra = ''73'' then 3 else 0)"
    have n22: "n22 AND mask22 = n22" using sv hash22_masked by (auto simp: save_callsign_def Let_def split: option.splits)
    have n12: "unat (n12_of n22) < 2 ^ 12" by (rule n12_of_bound [OF n22])
    let ?p = "nonstd_payload (n12_of n22) ?v 0 nrpt 0 4"
    have rp: "nrpt = 0 \<or> nrpt = 1 \<or> nrpt = 2 \<or> nrpt = 3" by (simp add: nrpt_def)
    have z: "(0 :: u8) = 0 \<or> (0 :: u8) = 1" by simp
    note f = nonstd_fields [OF n12 v z rp z]
    have e: "(if nrpt = 1 then ''RRR'' else if nrpt = 2 then ''RR73'' else if nrpt = 3 then ''73'' else []) = extra"
      using ex by (auto simp: nonstd_answers_def nrpt_def)
    have "encode_nonstd hi call_to call_de extra h = (Inr ?p, h1)"
      using False len lt pk sv tc unfolding encode_nonstd_def Let_def equals_def slash_call_def nrpt_def
      by (simp add: byte_of_bool_def)
    moreover have "get_type ?p = NONSTD_CALL" by (rule get_type_nonstd) (simp add: f)
    moreover have "decode_nonstd hi' ?p h' =
        (Inr (snd (lookup_callsign hi' HASH_12_BITS (ucast (n12_of n22)) h2), call_de, extra), h2)"
      unfolding decode_nonstd_def Let_def f u by (simp add: e)
    ultimately show ?thesis using False save_callsign_hash [OF sv] by auto
  qed
qed

theorem nonstd_message_roundtrip_witness:
  "\<exists>p h1 h2. encode_nonstd (Some ft8_hash_if) ''CQ'' ''PJ4/KA1ABC'' [] hashtable_init = (Inr p, h1) \<and>
     get_type p = NONSTD_CALL \<and>
     decode_nonstd (Some ft8_hash_if) p hashtable_init = (Inr (''CQ'', ''PJ4/KA1ABC'', []), h2)"
proof -
  have "slash_call ''PJ4/KA1ABC''" unfolding slash_call_def call_char_def by code_simp
  from nonstd_message_roundtrip [OF this, of "''CQ''" "[]" "Some ft8_hash_if" hashtable_init "Some ft8_hash_if" hashtable_init]
  show ?thesis by (simp add: nonstd_answers_def)
qed

section \<open>Callsigns in brackets\<close>

lemma hash_chars_bracket: "hash_chars (Suc k) (CHR ''<'' # s) n = None"
  by (simp add: nchar_def ord_def)

lemma save_bracket: "save_callsign hi (CHR ''<'' # s) h = None"
  using hash_chars_bracket [of 10 s 0] by (simp add: save_callsign_def del: hash_chars.simps)

lemma nchar_bracket: "nchar (CHR ''<'') t = -1"
  by (cases t) (auto simp: nchar_def ord_def)

lemma pack_basecall_bracket: "pack_basecall (CHR ''<'' # s) n = -1"
proof -
  have sp: "nchar (CHR '' '') ALPHANUM = -1" by code_simp
  have "nchar (basecall_buf (CHR ''<'' # s) n ! 0) ALPHANUM_SPACE < 0 \<or> nchar (basecall_buf (CHR ''<'' # s) n ! 1) ALPHANUM < 0" if "2 < n"
    using that sp by (cases n) (auto simp: basecall_buf_def Let_def starts_with_def put_at_def nchar_bracket nth_append)
  then show ?thesis by (auto simp: pack_basecall_def Let_def)
qed

lemma pack28_bracket: "\<exists>h'. pack28 (CHR ''<'' # s) hi h = (None, h')"
  by (auto simp: pack28_def equals_def Let_def pack_basecall_bracket save_bracket)

lemma encode_std_bracket: "\<exists>h'. encode_std hi (CHR ''<'' # s) c e h = (Inl ERROR_CALLSIGN1, h')"
  using pack28_bracket [of s hi h] by (auto simp: encode_std_def Let_def split: prod.split)

lemma encode_nonstd_bracket: "\<exists>e' h'. encode_nonstd hi (CHR ''<'' # s) c e h = (Inl e', h')"
proof (cases "c \<noteq> [] \<and> hd c = CHR ''<''")
  case True
  then obtain c' where "c = CHR ''<'' # c'" by (cases c) auto
  then show ?thesis by (auto simp: encode_nonstd_def Let_def equals_def save_bracket)
next
  case False
  then have "char_at c 0 \<noteq> CHR ''<''" by (cases c) (auto simp: char_at_def)
  then show ?thesis by (auto simp: encode_nonstd_def Let_def equals_def save_bracket)
qed

lemma copy_token_first: "c \<noteq> CHR '' '' \<Longrightarrow> \<exists>t r. copy_token (Suc n) (c # s) = (c # t, r)"
  by (auto simp: copy_token_def split: prod.split)

text \<open>
  A message whose first callsign stands in brackets is never encoded: \<open>ftx_message_encode\<close>
  returns an error code for every text that begins with \<open><\<close>.  (The bracket is no character of the
  hash alphabet, so \<open>save_callsign\<close> refuses it in both encoders.)
\<close>

theorem bracketed_call_rejected: "\<exists>e h'. ftx_message_encode hi (CHR ''<'' # s) h = (Inl e, h')"
proof -
  obtain t1 r1 where 1: "copy_token 12 (CHR ''<'' # s) = (CHR ''<'' # t1, r1)"
    using copy_token_first [of "CHR ''<''" 11 s] by auto
  obtain b2 r2 where 2: "copy_token 12 r1 = (b2, r2)" by fastforce
  obtain b3 r3 where 3: "copy_token 20 r2 = (b3, r3)" by fastforce
  have cs: "c_string (CHR ''<'' # t1) = CHR ''<'' # c_string t1" by (simp add: c_string_def)
  obtain h' where s: "encode_std hi (CHR ''<'' # c_string t1) (c_string b2) (c_string b3) h = (Inl ERROR_CALLSIGN1, h')"
    using encode_std_bracket [of hi "c_string t1" "c_string b2" "c_string b3" h] by blast
  show ?thesis
    using encode_nonstd_bracket [of hi "c_string t1" "c_string b2" "c_string b3" h']
    by (simp add: ftx_message_encode_def 1 2 3 cs s)
qed

end
