(* ===== verification/FtxCrc.thy ===== *)
theory FtxCrc
  imports Prelude
begin

text \<open>
  The CRC-14 of the bundled FT8 library (\<open>ft8_lib/ft8/crc.c\<close>) and the packing of bit arrays
  (\<open>pack_bits\<close> of \<open>ft8_lib/ft8/decode.c\<close>).  The lemmas show that the byte-wise loop computes the
  bit-serial CRC, that it is linear and that a burst of up to 14 wrong bits changes it.
\<close>

definition FT8_CRC_POLYNOMIAL :: u16 where "FT8_CRC_POLYNOMIAL = 0x2757"
definition FT8_CRC_WIDTH :: nat where "FT8_CRC_WIDTH = 14"
definition TOPBIT :: u16 where "TOPBIT = push_bit (FT8_CRC_WIDTH - 1) 1"

text \<open>One iteration of the loop of \<open>ftx_compute_crc\<close>: the remainder and the byte index.\<close>

definition crc_step :: "u8 list \<Rightarrow> u16 \<times> nat \<Rightarrow> nat \<Rightarrow> u16 \<times> nat" where
  "crc_step message st idx_bit =
     (let (rm, idx_byte) = st;
          (rm, idx_byte) =
            (if idx_bit mod 8 = 0
             then (rm XOR push_bit (FT8_CRC_WIDTH - 8) (ucast (message ! idx_byte)), idx_byte + 1)
             else (rm, idx_byte))
      in (if rm AND TOPBIT \<noteq> 0 then push_bit 1 rm XOR FT8_CRC_POLYNOMIAL else push_bit 1 rm, idx_byte))"

definition ftx_compute_crc :: "u8 list \<Rightarrow> nat \<Rightarrow> u16" where
  "ftx_compute_crc message num_bits =
     fst (foldl (crc_step message) (0, 0) [0..<num_bits]) AND (push_bit 1 TOPBIT - 1)"

definition ftx_extract_crc :: "u8 list \<Rightarrow> u16" where
  "ftx_extract_crc a91 =
     push_bit 11 (ucast (a91 ! 9 AND 7)) OR push_bit 3 (ucast (a91 ! 10)) OR ucast (drop_bit 5 (a91 ! 11))"

text \<open>The 77 bits of the payload with five zero bits after them.\<close>

definition clear_crc :: "u8 list \<Rightarrow> u8 list" where
  "clear_crc a91 = a91[9 := a91 ! 9 AND 0xF8, 10 := 0]"

text \<open>\<open>a91\<close> is the caller's array of 12 bytes.\<close>

definition ftx_add_crc :: "u8 list \<Rightarrow> u8 list \<Rightarrow> u8 list" where
  "ftx_add_crc payload a91 =
     (let a91 = clear_crc (take 10 payload @ drop 10 a91);
          checksum = ftx_compute_crc a91 (96 - 14)
      in a91[9 := a91 ! 9 OR ucast (drop_bit 11 checksum),
             10 := ucast (drop_bit 3 checksum),
             11 := ucast (push_bit 5 checksum)])"

definition pack_bits_step :: "u8 list \<Rightarrow> u8 list \<times> u8 \<times> nat \<Rightarrow> nat \<Rightarrow> u8 list \<times> u8 \<times> nat" where
  "pack_bits_step bit_array st i =
     (let (packed, mask, byte_idx) = st;
          packed = (if bit_array ! i \<noteq> 0 then packed[byte_idx := packed ! byte_idx OR mask] else packed);
          mask = drop_bit 1 mask
      in if mask = 0 then (packed, 0x80, byte_idx + 1) else (packed, mask, byte_idx))"

definition pack_bits :: "u8 list \<Rightarrow> nat \<Rightarrow> u8 list" where
  "pack_bits bit_array num_bits =
     fst (foldl (pack_bits_step bit_array) (replicate ((num_bits + 7) div 8) 0, 0x80, 0) [0..<num_bits])"

section \<open>The bits of a byte array\<close>

text \<open>Bit \<open>i\<close> of a byte string, most significant bit of each byte first.\<close>

definition msg_bit :: "u8 list \<Rightarrow> nat \<Rightarrow> bool" where
  "msg_bit msg i = bit (msg ! (i div 8)) (7 - i mod 8)"

definition msg_bits :: "u8 list \<Rightarrow> nat \<Rightarrow> bool list" where
  "msg_bits msg n = map (msg_bit msg) [0..<n]"

lemma length_msg_bits [simp]: "length (msg_bits msg n) = n"
  by (simp add: msg_bits_def)

lemma nth_msg_bits [simp]: "i < n \<Longrightarrow> msg_bits msg n ! i = msg_bit msg i"
  by (simp add: msg_bits_def)

lemma byte_eqI:
  assumes "\<And>k. k < 8 \<Longrightarrow> bit (x :: u8) (7 - k) = bit y (7 - k)" shows "x = y"
proof (rule bit_word_eqI)
  fix n assume "n < LENGTH(8)"
  then show "bit x n = bit y n" using assms [of "7 - n"] by simp
qed

lemma msg_bit_byte: "k < 8 \<Longrightarrow> msg_bit msg (8 * j + k) = bit (msg ! j) (7 - k)"
  by (simp add: msg_bit_def)

lemma bytes_eqI:
  assumes "length xs = length ys" and "\<And>i. i < 8 * length xs \<Longrightarrow> msg_bit xs i = msg_bit ys i"
  shows "xs = ys"
proof (rule nth_equalityI [OF assms(1)])
  fix j assume j: "j < length xs"
  show "xs ! j = ys ! j"
    by (rule byte_eqI) (use j assms(2) msg_bit_byte [of _ xs j] msg_bit_byte [of _ ys j] in auto)
qed

text \<open>The moving mask and byte index of the packing loops.\<close>

definition mask_at :: "nat \<Rightarrow> u8" where "mask_at i = push_bit (7 - i mod 8) 1"

lemma bit_mask_at: "k < 8 \<Longrightarrow> bit (mask_at i) (7 - k) \<longleftrightarrow> k = i mod 8"
proof -
  assume k: "k < 8"
  have "i mod 8 < 8" by simp
  then show ?thesis using k unfolding mask_at_def bit_push_bit_iff bit_1_iff by auto
qed

lemma mask_at_0: "mask_at 0 = 0x80"
  by (simp add: mask_at_def)

lemma mask_at_Suc:
  "drop_bit 1 (mask_at i) = (if i mod 8 = 7 then 0 else mask_at (Suc i))"
proof -
  have "drop_bit 1 (push_bit (7 - n) (1 :: u8)) = (if n = 7 then 0 else push_bit (7 - Suc n) 1)" if "n < 8" for n
    using lt8_cases [OF that] by (elim disjE) simp_all
  then show ?thesis by (simp add: mask_at_def mod_Suc)
qed

lemma mask_at_nonzero: "mask_at i \<noteq> 0"
  using bit_mask_at [of "i mod 8" i] by auto

lemma mask_at_wrap: "i mod 8 = 7 \<Longrightarrow> mask_at (Suc i) = 0x80"
  by (simp add: mask_at_def mod_Suc)

text \<open>What a loop that moves through the bits of an array keeps: mask and index follow the counter.\<close>

lemma next_mask:
  "(if drop_bit 1 (mask_at i) = 0 then (0x80, i div 8 + 1) else (drop_bit 1 (mask_at i), i div 8))
     = (mask_at (Suc i), Suc i div 8)"
  unfolding mask_at_Suc by (simp add: mask_at_nonzero mask_at_wrap div_Suc mod_Suc)

lemma msg_bit_set:
  assumes "n div 8 < length p"
  shows "msg_bit (p[n div 8 := p ! (n div 8) OR mask_at n]) i \<longleftrightarrow> msg_bit p i \<or> i = n"
proof -
  have "i div 8 = n div 8 \<Longrightarrow> i mod 8 = n mod 8 \<longleftrightarrow> i = n" by (metis div_mult_mod_eq)
  moreover have "bit (mask_at n) (7 - i mod 8) \<longleftrightarrow> i mod 8 = n mod 8" using bit_mask_at [of "i mod 8" n] by simp
  ultimately show ?thesis using assms unfolding msg_bit_def by (auto simp: nth_list_update bit_or_iff)
qed

lemma pack_bits_loop:
  "n \<le> 8 * m \<Longrightarrow> \<exists>p. foldl (pack_bits_step b) (replicate m 0, 0x80, 0) [0..<n] = (p, mask_at n, n div 8) \<and>
     length p = m \<and> (\<forall>i<8 * m. msg_bit p i \<longleftrightarrow> i < n \<and> b ! i \<noteq> 0)"
proof (induction n)
  case 0
  show ?case by (auto simp: mask_at_0 msg_bit_def)
next
  case (Suc n)
  then obtain p where p: "foldl (pack_bits_step b) (replicate m 0, 0x80, 0) [0..<n] = (p, mask_at n, n div 8)"
    "length p = m" "\<And>i. i < 8 * m \<Longrightarrow> msg_bit p i \<longleftrightarrow> i < n \<and> b ! i \<noteq> 0"
    by auto
  let ?p = "if b ! n \<noteq> 0 then p[n div 8 := p ! (n div 8) OR mask_at n] else p"
  have "pack_bits_step b (p, mask_at n, n div 8) n = (?p, mask_at (Suc n), Suc n div 8)"
    using next_mask [of n] by (auto simp: pack_bits_step_def Let_def split: if_splits)
  moreover have "msg_bit ?p i \<longleftrightarrow> i < Suc n \<and> b ! i \<noteq> 0" if i: "i < 8 * m" for i
  proof -
    have nm: "n div 8 < length p" using Suc.prems p(2) by auto
    note msg_bit_set [OF nm]
    then show ?thesis using p(3) [OF i] by (auto simp: less_Suc_eq)
  qed
  ultimately show ?case using p by (auto intro!: exI [of _ ?p])
qed

lemma length_pack_bits [simp]: "length (pack_bits b n) = (n + 7) div 8"
  and msg_bit_pack_bits: "i < 8 * ((n + 7) div 8) \<Longrightarrow> msg_bit (pack_bits b n) i \<longleftrightarrow> i < n \<and> b ! i \<noteq> 0"
proof -
  have "n \<le> 8 * ((n + 7) div 8)" by presburger
  note l = pack_bits_loop [OF this, of b]
  show "length (pack_bits b n) = (n + 7) div 8" using l by (auto simp: pack_bits_def)
  show "i < 8 * ((n + 7) div 8) \<Longrightarrow> msg_bit (pack_bits b n) i \<longleftrightarrow> i < n \<and> b ! i \<noteq> 0"
    using l by (auto simp: pack_bits_def)
qed

section \<open>The bit-serial CRC\<close>

text \<open>One message bit into the 14-bit register.\<close>

definition crc14_bit :: "u16 \<Rightarrow> bool \<Rightarrow> u16" where
  "crc14_bit r b = take_bit 14 (push_bit 1 r) XOR (if bit r 13 \<noteq> b then FT8_CRC_POLYNOMIAL else 0)"

definition crc14 :: "bool list \<Rightarrow> u16" where
  "crc14 bs = foldl crc14_bit 0 bs"

lemma crc14_simps [simp]: "crc14 [] = 0" "crc14 (bs @ [b]) = crc14_bit (crc14 bs) b"
  by (simp_all add: crc14_def)

lemma poly_low: "take_bit 14 FT8_CRC_POLYNOMIAL = FT8_CRC_POLYNOMIAL"
  by (simp add: FT8_CRC_POLYNOMIAL_def)

lemma top_test: "rm AND TOPBIT \<noteq> 0 \<longleftrightarrow> bit rm 13"
proof -
  have "rm AND TOPBIT = (if bit rm 13 then TOPBIT else 0)"
    by (rule bit_word_eqI) (auto simp: TOPBIT_def FT8_CRC_WIDTH_def bit_and_iff bit_push_bit_iff bit_1_iff simp del: push_bit_of_1)
  moreover have "TOPBIT \<noteq> 0" by (simp add: TOPBIT_def FT8_CRC_WIDTH_def)
  ultimately show ?thesis by simp
qed

text \<open>The part of the current byte that has been added to the register ahead of its turn.\<close>

definition pending :: "u8 list \<Rightarrow> nat \<Rightarrow> u16" where
  "pending msg n = (if n mod 8 = 0 then 0 else take_bit 14 (push_bit (6 + n mod 8) (ucast (msg ! (n div 8)))))"

lemma byte_count: "(n + 7) div 8 = (if n mod 8 = 0 then n div 8 else Suc (n div 8))" "(Suc n + 7) div 8 = Suc (n div 8)"
proof -
  have "(n + 7) div 8 = (n mod 8 + 7 + (n div 8) * 8) div 8" by (metis add.commute add.assoc mod_div_mult_eq)
  also have "\<dots> = n div 8 + (n mod 8 + 7) div 8" by (rule div_mult_self1) simp
  also have "(n mod 8 + 7) div 8 = (if n mod 8 = 0 then 0 else 1)"
    using lt8_cases [of "n mod 8"] mod_less_divisor [of 8 n] by auto
  finally show "(n + 7) div 8 = (if n mod 8 = 0 then n div 8 else Suc (n div 8))" by simp
  show "(Suc n + 7) div 8 = Suc (n div 8)" by simp
qed

lemma crc_step_serial:
  assumes "take_bit 14 rm = r XOR pending msg n" and "idx = (n + 7) div 8" and "take_bit 14 r = r"
  shows "\<exists>rm'. crc_step msg (rm, idx) n = (rm', (Suc n + 7) div 8) \<and>
           take_bit 14 rm' = crc14_bit r (msg_bit msg n) XOR pending msg (Suc n)"
proof -
  let ?d = "ucast (msg ! (n div 8)) :: u16"
  let ?x = "if n mod 8 = 0 then rm XOR push_bit 6 ?d else rm"
  let ?rm = "if bit ?x 13 then push_bit 1 ?x XOR FT8_CRC_POLYNOMIAL else push_bit 1 ?x"
  have k: "n mod 8 < 8" by simp
  have x: "take_bit 14 ?x = r XOR take_bit 14 (push_bit (6 + n mod 8) ?d)"
    using assms(1) by (auto simp: pending_def take_bit_xor)
  have b13: "bit ?x 13 \<longleftrightarrow> bit r 13 \<noteq> msg_bit msg n"
  proof -
    have "bit ?x 13 = bit (take_bit 14 ?x) 13" by (simp add: bit_take_bit_iff)
    also have "\<dots> \<longleftrightarrow> bit r 13 \<noteq> bit (msg ! (n div 8)) (7 - n mod 8)"
      unfolding x bit_xor_iff bit_take_bit_iff bit_push_bit_iff bit_ucast_iff using k by auto
    finally show ?thesis by (simp add: msg_bit_def)
  qed
  have sh: "take_bit 14 (push_bit 1 ?x) = take_bit 14 (push_bit 1 r) XOR take_bit 14 (push_bit (7 + n mod 8) ?d)"
  proof -
    have "take_bit 14 (push_bit 1 ?x) = take_bit 14 (push_bit 1 (take_bit 14 ?x))"
      by (rule bit_word_eqI) (auto simp: bit_take_bit_iff bit_push_bit_iff simp del: push_bit_Suc)
    then show ?thesis unfolding x
      by (auto simp: push_bit_xor take_bit_xor push_bit_take_bit take_bit_take_bit min_def)
  qed
  have pd: "take_bit 14 (push_bit (7 + n mod 8) ?d) = pending msg (Suc n)"
  proof (cases "n mod 8 = 7")
    case True
    then have "take_bit 14 (push_bit (7 + n mod 8) ?d) = 0" by (simp add: take_bit_push_bit)
    then show ?thesis using True by (simp add: pending_def mod_Suc)
  next
    case False
    then show ?thesis by (simp add: pending_def mod_Suc div_Suc add.commute)
  qed
  have w: "FT8_CRC_WIDTH - 8 = 6" by (simp add: FT8_CRC_WIDTH_def)
  have ix: "(if n mod 8 = 0 then idx + 1 else idx) = (Suc n + 7) div 8" and n0: "n mod 8 = 0 \<Longrightarrow> idx = n div 8"
    unfolding assms(2) byte_count(2) byte_count(1) [of n] by simp_all
  have "crc_step msg (rm, idx) n = (?rm, (Suc n + 7) div 8)"
  proof (cases "n mod 8 = 0")
    case True
    then show ?thesis unfolding crc_step_def Let_def prod.case w top_test using ix n0 by (simp only: refl if_True prod.case)
  next
    case False
    then show ?thesis unfolding crc_step_def Let_def prod.case w top_test using ix by (simp only: if_False prod.case)
  qed
  moreover have "take_bit 14 ?rm = take_bit 14 (push_bit 1 ?x) XOR (if bit ?x 13 then FT8_CRC_POLYNOMIAL else 0)"
    by (simp add: take_bit_xor poly_low)
  then have "take_bit 14 ?rm = crc14_bit r (msg_bit msg n) XOR pending msg (Suc n)"
    unfolding sh pd b13 crc14_bit_def by (simp add: ac_simps)
  ultimately show ?thesis by blast
qed

lemma crc14_low: "take_bit 14 (crc14 bs) = crc14 bs"
  by (induction bs rule: rev_induct) (simp_all add: crc14_bit_def take_bit_xor poly_low)

lemma ftx_compute_crc_pending: "ftx_compute_crc msg n = crc14 (msg_bits msg n) XOR pending msg n"
proof -
  have "\<exists>rm. foldl (crc_step msg) (0, 0) [0..<n] = (rm, (n + 7) div 8) \<and>
      take_bit 14 rm = crc14 (msg_bits msg n) XOR pending msg n"
  proof (induction n)
    case 0
    show ?case by (simp add: msg_bits_def pending_def)
  next
    case (Suc n)
    then obtain rm where rm: "foldl (crc_step msg) (0, 0) [0..<n] = (rm, (n + 7) div 8)"
      "take_bit 14 rm = crc14 (msg_bits msg n) XOR pending msg n" by blast
    have "msg_bits msg (Suc n) = msg_bits msg n @ [msg_bit msg n]" by (simp add: msg_bits_def)
    then show ?case using crc_step_serial [OF rm(2) refl crc14_low] rm(1) by simp
  qed
  then obtain rm where rm: "foldl (crc_step msg) (0, 0) [0..<n] = (rm, (n + 7) div 8)"
      "take_bit 14 rm = crc14 (msg_bits msg n) XOR pending msg n" by blast
  have "push_bit 1 TOPBIT - 1 = mask 14"
    by (simp add: TOPBIT_def FT8_CRC_WIDTH_def mask_eq_exp_minus_1)
  then have "ftx_compute_crc msg n = take_bit 14 rm"
    unfolding ftx_compute_crc_def rm(1) fst_conv by (simp only: take_bit_eq_mask)
  then show ?thesis using rm(2) by simp
qed

text \<open>With zeros after the last bit, up to the end of its byte, the loop computes the bit-serial CRC.\<close>

lemma ftx_compute_crc_serial:
  assumes "n mod 8 = 0 \<or> msg ! (n div 8) AND mask (8 - n mod 8) = 0"
  shows "ftx_compute_crc msg n = crc14 (msg_bits msg n)"
proof -
  have "pending msg n = 0"
  proof (cases "n mod 8 = 0")
    case False
    then have z: "bit (msg ! (n div 8) AND mask (8 - n mod 8)) k = False" for k using assms by simp
    have "\<not> bit (pending msg n) j" for j
      using z [of "j - (6 + n mod 8)"] False
      unfolding pending_def bit_and_iff bit_mask_iff by (auto simp: bit_take_bit_iff bit_push_bit_iff bit_ucast_iff)
    then show ?thesis by (simp add: bit_eq_iff)
  qed (simp add: pending_def)
  then show ?thesis by (simp add: ftx_compute_crc_pending)
qed

section \<open>Linearity and bursts\<close>

lemma crc14_bit_xor: "crc14_bit (r XOR s) (a \<noteq> b) = crc14_bit r a XOR crc14_bit s b"
proof -
  have "push_bit 1 (r XOR s) = push_bit 1 r XOR push_bit 1 s" by (rule push_bit_xor)
  then show ?thesis by (auto simp: crc14_bit_def bit_xor_iff take_bit_xor ac_simps simp del: push_bit_Suc)
qed

lemma crc14_fold_xor:
  "length xs = length ys \<Longrightarrow>
     foldl crc14_bit (r XOR s) (map2 (\<noteq>) xs ys) = foldl crc14_bit r xs XOR foldl crc14_bit s ys"
  by (induction xs ys arbitrary: r s rule: list_induct2) (simp_all add: crc14_bit_xor [simplified])

lemma crc14_xor: "length xs = length ys \<Longrightarrow> crc14 (map2 (\<noteq>) xs ys) = crc14 xs XOR crc14 ys"
  using crc14_fold_xor [of xs ys 0 0] by (simp add: crc14_def)

lemma crc14_bit_zero [simp]: "crc14_bit 0 False = 0"
  by (simp add: crc14_bit_def)

lemma crc14_leading [simp]: "crc14 (replicate n False @ bs) = crc14 bs"
  by (induction n) (simp_all add: crc14_def)

text \<open>The register shifts out a nonzero value only when it held one.\<close>

lemma crc14_bit_eq_0: "take_bit 14 r = r \<Longrightarrow> crc14_bit r False = 0 \<Longrightarrow> r = 0"
proof -
  assume r: "take_bit 14 r = r" and z: "crc14_bit r False = 0"
  have "bit (crc14_bit r False) 0 \<longleftrightarrow> bit r 13"
    by (auto simp: crc14_bit_def bit_xor_iff bit_take_bit_iff bit_push_bit_iff FT8_CRC_POLYNOMIAL_def simp del: push_bit_Suc bit_0)
  then have b13: "\<not> bit r 13" using z by simp
  then have "take_bit 14 (push_bit 1 r) = 0" using z by (simp add: crc14_bit_def)
  then have "\<not> bit (take_bit 14 (push_bit 1 r)) (Suc k)" for k by simp
  then have "\<not> bit r k" if "k < 13" for k using that by (auto simp: bit_take_bit_iff bit_push_bit_iff simp del: push_bit_Suc)
  moreover have "\<not> bit r k" if "13 < k" for k
  proof -
    have "\<not> bit (take_bit 14 r) k" using that by (simp add: bit_take_bit_iff)
    then show ?thesis by (simp only: r not_False_eq_True)
  qed
  ultimately have "\<not> bit r k" for k using b13 by (metis nat_neq_iff)
  then show ?thesis by (simp add: bit_eq_iff)
qed

lemma crc14_fold_low: "take_bit 14 r = r \<Longrightarrow> take_bit 14 (foldl crc14_bit r bs) = foldl crc14_bit r bs"
  by (induction bs arbitrary: r) (simp_all add: crc14_bit_def take_bit_xor poly_low)

lemma crc14_zeros_eq_0:
  "take_bit 14 r = r \<Longrightarrow> foldl crc14_bit r (replicate n False) = 0 \<Longrightarrow> r = 0"
proof (induction n arbitrary: r)
  case (Suc n)
  have "take_bit 14 (crc14_bit r False) = crc14_bit r False"
    using crc14_fold_low [OF Suc.prems(1), of "[False]"] by simp
  then have "crc14_bit r False = 0" using Suc by simp
  then show ?case using Suc.prems(1) by (rule crc14_bit_eq_0 [rotated])
qed simp

text \<open>Up to 14 bits fed to an empty register act like their image at its top, shifted out.\<close>

definition top_bits :: "bool list \<Rightarrow> u16" where
  "top_bits bs = foldr (\<lambda>b w. drop_bit 1 w XOR (if b then TOPBIT else 0)) bs 0"

lemma bit_top_bits: "bit (top_bits bs) n \<longleftrightarrow> n < 14 \<and> 13 - n < length bs \<and> bs ! (13 - n)"
proof (induction bs arbitrary: n)
  case (Cons b bs)
  have t: "bit TOPBIT n \<longleftrightarrow> n = 13"
    by (auto simp: TOPBIT_def FT8_CRC_WIDTH_def bit_push_bit_iff bit_1_iff simp del: push_bit_of_1)
  have "bit (top_bits (b # bs)) n \<longleftrightarrow> bit (top_bits bs) (Suc n) \<noteq> (b \<and> n = 13)"
    using t by (auto simp: top_bits_def bit_xor_iff bit_drop_bit_eq)
  also have "\<dots> \<longleftrightarrow> n < 14 \<and> 13 - n < length (b # bs) \<and> (b # bs) ! (13 - n)"
  proof (cases "n < 13")
    case True
    then have "13 - n = Suc (13 - Suc n)" by simp
    then show ?thesis using True Cons.IH [of "Suc n"] by simp
  next
    case False
    then show ?thesis using Cons.IH [of "Suc n"] by (cases "n = 13") auto
  qed
  finally show ?case .
qed (simp add: top_bits_def)

lemma top_bits_low [simp]: "take_bit 14 (top_bits bs) = top_bits bs"
  by (rule bit_word_eqI) (auto simp: bit_take_bit_iff bit_top_bits)

lemma top_bits_eq_0: "length bs \<le> 14 \<Longrightarrow> top_bits bs = 0 \<Longrightarrow> True \<notin> set bs"
proof
  assume "length bs \<le> 14" "top_bits bs = 0" "True \<in> set bs"
  then obtain i where "i < length bs" "bs ! i" by (metis in_set_conv_nth)
  then have "bit (top_bits bs) (13 - i)" using \<open>length bs \<le> 14\<close> by (simp add: bit_top_bits)
  then show False using \<open>top_bits bs = 0\<close> by simp
qed

lemma crc14_bit_top_bits: "crc14_bit r b = crc14_bit (r XOR (if b then TOPBIT else 0)) False"
proof -
  have t: "bit TOPBIT 13" "take_bit 14 (push_bit 1 TOPBIT) = 0"
    by (simp_all add: TOPBIT_def FT8_CRC_WIDTH_def)
  have "push_bit 1 (r XOR TOPBIT) = push_bit 1 r XOR push_bit 1 TOPBIT" by (rule push_bit_xor)
  then have "crc14_bit (r XOR TOPBIT) False = crc14_bit r True"
    using t by (simp add: crc14_bit_def take_bit_xor bit_xor_iff del: push_bit_Suc)
  then show ?thesis by simp
qed

lemma crc14_short:
  assumes "length bs \<le> 14" and "take_bit 14 r = r"
  shows "foldl crc14_bit r bs = foldl crc14_bit (r XOR top_bits bs) (replicate (length bs) False)"
  using assms
proof (induction bs arbitrary: r)
  case (Cons b bs)
  let ?t = "if b then TOPBIT else 0"
  have low: "take_bit 14 ?t = ?t" by (simp add: TOPBIT_def FT8_CRC_WIDTH_def)
  have c: "crc14_bit (r XOR ?t) False XOR top_bits bs = crc14_bit (r XOR ?t XOR drop_bit 1 (top_bits bs)) False"
  proof -
    have z: "\<not> bit (top_bits bs) 0" using Cons.prems(1) unfolding bit_top_bits by simp
    have d: "take_bit 14 (push_bit 1 (drop_bit 1 (top_bits bs))) = top_bits bs"
    proof (rule bit_word_eqI)
      fix n
      show "bit (take_bit 14 (push_bit 1 (drop_bit 1 (top_bits bs)))) n = bit (top_bits bs) n"
        unfolding bit_take_bit_iff bit_push_bit_iff bit_drop_bit_eq o_apply
        using z bit_top_bits [of bs n] by (cases n) auto
    qed
    have "\<not> bit (drop_bit 1 (top_bits bs)) 13" by (simp add: bit_drop_bit_eq bit_top_bits)
    then have "crc14_bit (drop_bit 1 (top_bits bs)) False = top_bits bs" using d by (simp add: crc14_bit_def)
    then show ?thesis
      using crc14_bit_xor [of "r XOR ?t" "drop_bit 1 (top_bits bs)" False False] by (simp only: simp_thms xor.assoc)
  qed
  have "foldl crc14_bit r (b # bs) = foldl crc14_bit (crc14_bit (r XOR ?t) False) bs"
    using crc14_bit_top_bits [of r b] by simp
  also have "\<dots> = foldl crc14_bit (crc14_bit (r XOR ?t) False XOR top_bits bs) (replicate (length bs) False)"
    using Cons.prems low crc14_fold_low [of "r XOR ?t" "[False]"] by (intro Cons.IH) (simp_all add: take_bit_xor)
  also have "\<dots> = foldl crc14_bit (r XOR top_bits (b # bs)) (replicate (length (b # bs)) False)"
    unfolding c by (simp add: top_bits_def ac_simps)
  finally show ?case .
qed (simp add: top_bits_def)

text \<open>
  Two bit strings that agree outside a window of 14 bits and have the same CRC are equal.
\<close>

lemma crc14_burst:
  assumes "length xs = length ys" and "length xs \<le> 14" and "crc14 (us @ xs @ vs) = crc14 (us @ ys @ vs)"
  shows "xs = ys"
proof -
  let ?e = "map2 (\<noteq>) xs ys"
  have len: "length ?e \<le> 14" using assms by simp
  have m: "map2 (\<noteq>) zs zs = replicate (length zs) False" for zs :: "bool list"
    by (induction zs) simp_all
  have "crc14 (map2 (\<noteq>) (us @ xs @ vs) (us @ ys @ vs)) = 0"
    using assms by (subst crc14_xor) simp_all
  then have "crc14 (replicate (length us) False @ ?e @ replicate (length vs) False) = 0"
    using assms(1) by (simp add: m [simplified])
  then have "foldl crc14_bit (crc14 ?e) (replicate (length vs) False) = 0"
    by (simp only: crc14_leading) (simp add: crc14_def)
  then have "crc14 ?e = 0" by (rule crc14_zeros_eq_0 [OF crc14_low])
  then have "foldl crc14_bit (top_bits ?e) (replicate (length ?e) False) = 0"
    using crc14_short [OF len, of 0] unfolding crc14_def by simp
  then have "top_bits ?e = 0" by (rule crc14_zeros_eq_0 [OF top_bits_low])
  then have "True \<notin> set ?e" by (rule top_bits_eq_0 [OF len])
  then have "\<forall>i<length xs. xs ! i = ys ! i" using assms(1) by (force simp: set_conv_nth)
  then show ?thesis using assms(1) by (intro nth_equalityI) auto
qed

section \<open>Adding and extracting the CRC\<close>

text \<open>The 96-bit string the check runs over: the payload, five zeros, and the CRC field.\<close>

definition payload77 :: "u8 list \<Rightarrow> bool list" where
  "payload77 a91 = msg_bits a91 77"

definition crc_of_payload :: "bool list \<Rightarrow> u16" where
  "crc_of_payload bs = crc14 (bs @ replicate 5 False)"

lemma bit_0xF8: "bit (0xF8 :: u8) n \<longleftrightarrow> 3 \<le> n \<and> n < 8"
proof -
  have "bit (0xF8 :: u8) n \<longleftrightarrow> 3 \<le> n \<and> n < 8" if "n < 8"
    using lt8_cases [OF that] by (elim disjE) simp_all
  then show ?thesis using bit_imp_le_length [of "0xF8 :: u8" n] by (cases "n < 8") auto
qed

lemma msg_bit_clear_crc:
  assumes "11 \<le> length a" and "i < 88" shows "msg_bit (clear_crc a) i \<longleftrightarrow> i < 77 \<and> msg_bit a i"
proof -
  have k: "7 - i mod 8 < 8" by simp
  consider "i div 8 < 9" | "i div 8 = 9" | "i div 8 = 10" using assms(2) by linarith
  then show ?thesis
  proof cases
    case 1
    then have "i < 77" by linarith
    then show ?thesis using 1 by (simp add: msg_bit_def clear_crc_def)
  next
    case 2
    then have "i < 77 \<longleftrightarrow> i mod 8 < 5" using mult_div_mod_eq [of 8 i] by linarith
    then have "bit (0xF8 :: u8) (7 - i mod 8) \<longleftrightarrow> i < 77" unfolding bit_0xF8 using k by auto
    then show ?thesis using 2 assms(1) unfolding msg_bit_def clear_crc_def by (auto simp: bit_and_iff)
  next
    case 3
    then have "\<not> i < 77" by linarith
    then show ?thesis using 3 assms(1) by (simp add: msg_bit_def clear_crc_def)
  qed
qed

lemma crc_cleared:
  assumes "11 \<le> length a" shows "ftx_compute_crc (clear_crc a) 82 = crc_of_payload (payload77 a)"
proof -
  have "clear_crc a ! (82 div 8) = 0" using assms by (simp add: clear_crc_def)
  then have "ftx_compute_crc (clear_crc a) 82 = crc14 (msg_bits (clear_crc a) 82)"
    by (intro ftx_compute_crc_serial) simp
  also have "msg_bits (clear_crc a) 82 = payload77 a @ replicate 5 False"
    by (rule nth_equalityI) (auto simp: payload77_def nth_append msg_bit_clear_crc [OF assms])
  finally show ?thesis by (simp add: crc_of_payload_def)
qed

text \<open>The CRC field is bits 77 to 90, most significant first.\<close>

lemma bit_extract_crc: "bit (ftx_extract_crc a) n \<longleftrightarrow> n < 14 \<and> msg_bit a (90 - n)"
proof (cases "n < 16")
  case True
  have b7: "bit (7 :: u8) k \<longleftrightarrow> k < 3" for k
    using bit_mask_iff [of 3 k, where 'a = u8] bit_imp_le_length [of "7 :: u8" k] by (auto simp: mask_eq_exp_minus_1)
  have len: "\<not> bit (a ! j) k" if "8 \<le> k" for j k using that bit_imp_le_length [of "a ! j" k] by auto
  show ?thesis
    using lt16_cases [OF True] unfolding ftx_extract_crc_def msg_bit_def
    by (elim disjE; simp add: bit_or_iff bit_push_bit_iff bit_ucast_iff bit_and_iff bit_drop_bit_eq b7 len)
next
  case False
  then show ?thesis using bit_imp_le_length [of "ftx_extract_crc a" n] by auto
qed

lemma extract_crc_eq_iff:
  "ftx_extract_crc a = c \<longleftrightarrow> take_bit 14 c = c \<and> (\<forall>n<14. msg_bit a (90 - n) = bit c n)"
proof
  assume c: "ftx_extract_crc a = c"
  then have b: "bit c n \<longleftrightarrow> n < 14 \<and> msg_bit a (90 - n)" for n by (simp add: bit_extract_crc flip: c)
  have "take_bit 14 c = c" by (rule bit_word_eqI) (use b in \<open>auto simp only: bit_take_bit_iff\<close>)
  then show "take_bit 14 c = c \<and> (\<forall>n<14. msg_bit a (90 - n) = bit c n)" using b by blast
next
  assume c: "take_bit 14 c = c \<and> (\<forall>n<14. msg_bit a (90 - n) = bit c n)"
  then have "bit c n \<Longrightarrow> n < 14" for n using bit_lt_of_take_bit by blast
  with c have "bit (ftx_extract_crc a) n = bit c n" for n using bit_extract_crc [of a n] by blast
  then show "ftx_extract_crc a = c" by (intro bit_word_eqI) blast
qed

lemma crc_of_payload_low: "take_bit 14 (crc_of_payload bs) = crc_of_payload bs"
  by (simp add: crc_of_payload_def crc14_low)

text \<open>The bits \<open>ftx_add_crc\<close> leaves in its array.\<close>

lemma msg_bit_add_crc:
  assumes p: "length payload = 10" and a: "length a91 = 12" and i: "i < 96"
  shows "msg_bit (ftx_add_crc payload a91) i \<longleftrightarrow>
           (if i < 77 then msg_bit payload i
            else i < 91 \<and> bit (crc_of_payload (msg_bits payload 77)) (90 - i))"
proof -
  let ?a = "take 10 payload @ drop 10 a91" and ?c = "crc_of_payload (msg_bits payload 77)"
  have len: "length ?a = 12" using p a by simp
  have pa: "msg_bit ?a i = msg_bit payload i" if "i < 77" for i
  proof -
    have "i div 8 < 10" using that by linarith
    then show ?thesis using p by (simp add: msg_bit_def nth_append)
  qed
  have c: "ftx_compute_crc (clear_crc ?a) 82 = ?c"
  proof -
    have "payload77 ?a = msg_bits payload 77" by (rule nth_equalityI) (simp_all add: payload77_def pa)
    then show ?thesis using crc_cleared [of ?a] len by simp
  qed
  let ?b = "clear_crc ?a"
  have ac: "ftx_add_crc payload a91 = ?b[9 := ?b ! 9 OR ucast (drop_bit 11 ?c), 10 := ucast (drop_bit 3 ?c), 11 := ucast (push_bit 5 ?c)]"
    using c by (simp add: ftx_add_crc_def Let_def)
  have lb: "length ?b = 12" using len by (simp add: clear_crc_def)
  have hi: "\<not> bit ?c k" if "14 \<le> k" for k
    using that bit_lt_of_take_bit [OF crc_of_payload_low [of "msg_bits payload 77"], of k] by auto
  consider "i < 72" | "72 \<le> i" "i < 80" | "80 \<le> i" "i < 88" | "88 \<le> i" using i by linarith
  then show ?thesis
  proof cases
    case 1
    then have "i div 8 < 9" by linarith
    then have "msg_bit (ftx_add_crc payload a91) i = msg_bit ?b i" unfolding ac msg_bit_def by simp
    then show ?thesis using 1 msg_bit_clear_crc [of ?a i] len pa [of i] by simp
  next
    case 2
    then have d: "i div 8 = 9" by linarith
    then have e: "i = 72 + i mod 8" using mult_div_mod_eq [of 8 i] by simp
    define k where "k = i mod 8"
    have k: "i = 72 + k" "k < 8" "i div 8 = 9" "i mod 8 = k"
      unfolding k_def by (rule e, simp, rule d, rule refl)
    have "msg_bit (ftx_add_crc payload a91) i \<longleftrightarrow> msg_bit ?b i \<or> bit (drop_bit 11 ?c) (7 - k)"
      using k(2) lb unfolding ac msg_bit_def k(3,4) by (simp add: bit_or_iff bit_ucast_iff)
    moreover have "bit (drop_bit 11 ?c) (7 - k) \<longleftrightarrow> 5 \<le> k \<and> bit ?c (18 - k)"
    proof (cases "5 \<le> k")
      case False
      then have "14 \<le> 18 - k" by simp
      then show ?thesis using hi False k(2) by (simp add: bit_drop_bit_eq)
    qed (use k in \<open>simp add: bit_drop_bit_eq\<close>)
    ultimately show ?thesis using k msg_bit_clear_crc [of ?a i] len pa [of i] by (cases "k < 5") auto
  next
    case 3
    then have d: "i div 8 = 10" by linarith
    then have e: "i = 80 + i mod 8" using mult_div_mod_eq [of 8 i] by simp
    define k where "k = i mod 8"
    have k: "i = 80 + k" "k < 8" "i div 8 = 10" "i mod 8 = k"
      unfolding k_def by (rule e, simp, rule d, rule refl)
    have "bit (ucast (drop_bit 3 ?c) :: u8) (7 - k) = bit ?c (90 - i)"
      using k by (simp add: bit_ucast_iff bit_drop_bit_eq)
    then show ?thesis using 3 lb unfolding ac msg_bit_def k(3,4) by simp
  next
    case 4
    then have d: "i div 8 = 11" using i by linarith
    then have e: "i = 88 + i mod 8" using mult_div_mod_eq [of 8 i] by simp
    define k where "k = i mod 8"
    have k: "i = 88 + k" "k < 8" "i div 8 = 11" "i mod 8 = k"
      unfolding k_def by (rule e, simp, rule d, rule refl)
    have "bit (ucast (push_bit 5 ?c) :: u8) (7 - k) \<longleftrightarrow> i < 91 \<and> bit ?c (90 - i)"
      using k by (auto simp: bit_ucast_iff bit_push_bit_iff)
    then show ?thesis using 4 lb unfolding ac msg_bit_def k(3,4) by simp
  qed
qed

end
