(* ===== verification/FtxEncode.thy ===== *)
theory FtxEncode
  imports FtxCrc FtxTables Osd
begin

text \<open>
  The FT8 and FT4 transmitter of the bundled library (\<open>ft8_lib/ft8/encode.c\<close>): payload, CRC-14,
  LDPC parity bits, Gray-coded tones with the Costas synchronisation blocks.  The lemmas give the
  174 bits of the codeword and show that every parity check of \<open>kFTX_LDPC_Nm\<close> holds for it.
\<close>

definition FTX_LDPC_N_BYTES :: nat where "FTX_LDPC_N_BYTES = (174 + 7) div 8"
definition FTX_LDPC_K_BYTES :: nat where "FTX_LDPC_K_BYTES = (FTX_LDPC_K + 7) div 8"
definition FT8_NN :: nat where "FT8_NN = 79"
definition FT4_NN :: nat where "FT4_NN = 105"

definition parity8 :: "u8 \<Rightarrow> u8" where
  "parity8 x =
     (let x = x XOR drop_bit 4 x; x = x XOR drop_bit 2 x; x = x XOR drop_bit 1 x in x mod 2)"

definition dot_parity :: "u8 list \<Rightarrow> u8 list \<Rightarrow> u8" where
  "dot_parity message row =
     foldl (\<lambda>nsum j. nsum XOR parity8 (message ! j AND row ! j)) 0 [0..<FTX_LDPC_K_BYTES]"

text \<open>One checksum bit: the codeword, the mask and the index of the next bit.\<close>

definition enc_step :: "u8 list \<Rightarrow> u8 list \<times> u8 \<times> nat \<Rightarrow> nat \<Rightarrow> u8 list \<times> u8 \<times> nat" where
  "enc_step message st i =
     (let (codeword, col_mask, col_idx) = st;
          nsum = dot_parity message (kFTX_LDPC_generator ! i);
          codeword = (if nsum mod 2 \<noteq> 0 then codeword[col_idx := codeword ! col_idx OR col_mask] else codeword);
          col_mask = drop_bit 1 col_mask
      in if col_mask = 0 then (codeword, 0x80, col_idx + 1) else (codeword, col_mask, col_idx))"

definition encode174 :: "u8 list \<Rightarrow> u8 list" where
  "encode174 message =
     fst (foldl (enc_step message)
            (map (\<lambda>j. if j < FTX_LDPC_K_BYTES then message ! j else 0) [0..<FTX_LDPC_N_BYTES],
             drop_bit (FTX_LDPC_K mod 8) 0x80, FTX_LDPC_K_BYTES - 1)
            [0..<FTX_LDPC_M])"

text \<open>Reading the codeword bit by bit: the bit under the mask, and the next mask and byte index.\<close>

definition next_bit :: "u8 list \<Rightarrow> u8 \<times> nat \<Rightarrow> bool \<times> u8 \<times> nat" where
  "next_bit codeword st =
     (let (mask, i_byte) = st; b = (codeword ! i_byte AND mask \<noteq> 0); mask = drop_bit 1 mask
      in (b, if mask = 0 then (0x80, i_byte + 1) else (mask, i_byte)))"

definition ft8_tone_step :: "u8 list \<Rightarrow> u8 list \<times> u8 \<times> nat \<Rightarrow> nat \<Rightarrow> u8 list \<times> u8 \<times> nat" where
  "ft8_tone_step codeword st i_tone =
     (let (tones, pos) = st
      in if i_tone < 7 then (tones @ [kFT8_Costas_pattern ! i_tone], pos)
         else if 36 \<le> i_tone \<and> i_tone < 43 then (tones @ [kFT8_Costas_pattern ! (i_tone - 36)], pos)
         else if 72 \<le> i_tone \<and> i_tone < 79 then (tones @ [kFT8_Costas_pattern ! (i_tone - 72)], pos)
         else
           (let (b2, pos) = next_bit codeword pos;
                (b1, pos) = next_bit codeword pos;
                (b0, pos) = next_bit codeword pos;
                bits3 = (if b2 then 4 else 0) OR (if b1 then 2 else 0) OR (if b0 then 1 else 0 :: nat)
            in (tones @ [kFT8_Gray_map ! bits3], pos)))"

text \<open>The arrays \<open>a91\<close> and \<open>codeword\<close> are uninitialised locals that are filled completely.\<close>

definition ft8_codeword :: "u8 list \<Rightarrow> u8 list" where
  "ft8_codeword payload = encode174 (ftx_add_crc payload (replicate FTX_LDPC_K_BYTES 0))"

definition ft8_encode :: "u8 list \<Rightarrow> u8 list" where
  "ft8_encode payload = fst (foldl (ft8_tone_step (ft8_codeword payload)) ([], 0x80, 0) [0..<FT8_NN])"

definition ft4_scramble :: "u8 list \<Rightarrow> u8 list" where
  "ft4_scramble payload = map (\<lambda>i. payload ! i XOR kFT4_XOR_sequence ! i) [0..<10]"

definition ft4_tone_step :: "u8 list \<Rightarrow> u8 list \<times> u8 \<times> nat \<Rightarrow> nat \<Rightarrow> u8 list \<times> u8 \<times> nat" where
  "ft4_tone_step codeword st i_tone =
     (let (tones, pos) = st
      in if i_tone = 0 \<or> i_tone = 104 then (tones @ [0], pos)
         else if 1 \<le> i_tone \<and> i_tone < 5 then (tones @ [kFT4_Costas_pattern ! 0 ! (i_tone - 1)], pos)
         else if 34 \<le> i_tone \<and> i_tone < 38 then (tones @ [kFT4_Costas_pattern ! 1 ! (i_tone - 34)], pos)
         else if 67 \<le> i_tone \<and> i_tone < 71 then (tones @ [kFT4_Costas_pattern ! 2 ! (i_tone - 67)], pos)
         else if 100 \<le> i_tone \<and> i_tone < 104 then (tones @ [kFT4_Costas_pattern ! 3 ! (i_tone - 100)], pos)
         else
           (let (b1, pos) = next_bit codeword pos;
                (b0, pos) = next_bit codeword pos;
                bits2 = (if b1 then 2 else 0) OR (if b0 then 1 else 0 :: nat)
            in (tones @ [kFT4_Gray_map ! bits2], pos)))"

definition ft4_encode :: "u8 list \<Rightarrow> u8 list" where
  "ft4_encode payload =
     fst (foldl (ft4_tone_step (ft8_codeword (ft4_scramble payload))) ([], 0x80, 0) [0..<FT4_NN])"

section \<open>Parity of masked bytes\<close>

lemma parity8_par: "parity8 x = (if par 8 (bit x) then 1 else 0)"
proof -
  define x1 where "x1 = x XOR drop_bit 4 x"
  define x2 where "x2 = x1 XOR drop_bit 2 x1"
  define x3 where "x3 = x2 XOR drop_bit 1 x2"
  have b: "bit x1 n = (bit x n \<noteq> bit x (4 + n))" "bit x2 n = (bit x1 n \<noteq> bit x1 (2 + n))"
    "bit x3 n = (bit x2 n \<noteq> bit x2 (1 + n))" for n
    by (simp_all only: x1_def x2_def x3_def bit_xor_iff bit_drop_bit_eq o_apply)
  have p8: "par 8 f = (((((((f 0 \<noteq> f 1) \<noteq> f 2) \<noteq> f 3) \<noteq> f 4) \<noteq> f 5) \<noteq> f 6) \<noteq> f 7)" for f
    by (simp add: eval_nat_numeral)
  have ac: "(((a \<noteq> e) \<noteq> (c \<noteq> g)) \<noteq> ((b \<noteq> f) \<noteq> (d \<noteq> h))) = (((((((a \<noteq> b) \<noteq> c) \<noteq> d) \<noteq> e) \<noteq> f) \<noteq> g) \<noteq> h)"
    for a b c d e f g h by (cases a; cases b; cases c; cases d; cases e; cases f; cases g; simp)
  have "bit x3 0 = par 8 (bit x)"
    unfolding b p8 by (simp only: add_0_right numeral_plus_numeral add_num_simps numeral_plus_one one_plus_numeral ac)
  then have "odd x3 = par 8 (bit x)" by (simp add: bit_0)
  moreover have "parity8 x = x3 mod 2" by (simp add: parity8_def Let_def x1_def x2_def x3_def)
  ultimately show ?thesis by (simp add: mod_2_eq_odd)
qed

lemma par_add: "par (m + k) f = (par m f \<noteq> par k (\<lambda>i. f (m + i)))"
  by (induction k) auto

lemma par_blocks: "par (8 * n) f = par n (\<lambda>j. par 8 (\<lambda>k. f (8 * j + k)))"
proof (induction n)
  case (Suc n)
  have "par (8 * Suc n) f = (par (8 * n) f \<noteq> par 8 (\<lambda>i. f (8 * n + i)))"
    using par_add [of "8 * n" 8 f] by (simp add: add.commute)
  then show ?case using Suc by simp
qed simp

lemma par_rev8: "par 8 (\<lambda>k. f (7 - k)) = par 8 f"
  unfolding par_def by (intro arg_cong [where f = odd] sum.reindex_bij_witness [of _ "\<lambda>k. 7 - k" "\<lambda>k. 7 - k"]) auto

lemma dot_parity_par:
  "dot_parity message row = (if par 96 (\<lambda>i. msg_bit message i \<and> msg_bit row i) then 1 else 0)"
proof -
  have f: "foldl (\<lambda>s j. s XOR (if P j then 1 else 0)) 0 [0..<n] = (if par n P then 1 else 0 :: u8)" for P n
    by (induction n) auto
  have "par 8 (bit (message ! j AND row ! j)) = par 8 (\<lambda>k. msg_bit message (8 * j + k) \<and> msg_bit row (8 * j + k))" for j
    using par_rev8 [of "bit (message ! j AND row ! j)"]
    by (simp add: bit_and_iff msg_bit_byte cong: par_cong)
  then have "par 12 (\<lambda>j. par 8 (bit (message ! j AND row ! j))) = par (8 * 12) (\<lambda>i. msg_bit message i \<and> msg_bit row i)"
    unfolding par_blocks by simp
  then show ?thesis
    unfolding dot_parity_def parity8_par f FTX_LDPC_K_BYTES_def FTX_LDPC_K_def by simp
qed

section \<open>The codeword\<close>

text \<open>The checksum bit \<open>i\<close> of a message.\<close>

definition checksum_bit :: "u8 list \<Rightarrow> nat \<Rightarrow> bool" where
  "checksum_bit message i = par 96 (\<lambda>k. msg_bit message k \<and> msg_bit (kFTX_LDPC_generator ! i) k)"

lemma enc_loop:
  "n \<le> 83 \<Longrightarrow> length c = 22 \<Longrightarrow> \<exists>d. foldl (enc_step m) (c, mask_at 91, 91 div 8) [0..<n] = (d, mask_at (91 + n), (91 + n) div 8) \<and>
     length d = 22 \<and> (\<forall>p. msg_bit d p \<longleftrightarrow> msg_bit c p \<or> (91 \<le> p \<and> p < 91 + n \<and> checksum_bit m (p - 91)))"
proof (induction n)
  case (Suc n)
  then obtain d where d: "foldl (enc_step m) (c, mask_at 91, 91 div 8) [0..<n] = (d, mask_at (91 + n), (91 + n) div 8)"
    "length d = 22" "\<And>p. msg_bit d p \<longleftrightarrow> msg_bit c p \<or> (91 \<le> p \<and> p < 91 + n \<and> checksum_bit m (p - 91))"
    by auto
  let ?j = "(91 + n) div 8"
  let ?d = "if checksum_bit m n then d[?j := d ! ?j OR mask_at (91 + n)] else d"
  have nsum: "dot_parity m (kFTX_LDPC_generator ! n) mod 2 \<noteq> 0 \<longleftrightarrow> checksum_bit m n"
    by (simp add: dot_parity_par checksum_bit_def)
  have "enc_step m (d, mask_at (91 + n), ?j) n = (?d, mask_at (91 + Suc n), (91 + Suc n) div 8)"
    unfolding enc_step_def Let_def prod.case nsum using next_mask [of "91 + n"] by (simp split: if_splits)
  moreover have "?j < length d" using d(2) Suc.prems(1) by simp
  then have "msg_bit ?d p \<longleftrightarrow> msg_bit c p \<or> (91 \<le> p \<and> p < 91 + Suc n \<and> checksum_bit m (p - 91))" for p
  proof -
    have "p < 91 + Suc n \<longleftrightarrow> p < 91 + n \<or> p = 91 + n" by auto
    then show ?thesis using d(3) [of p] \<open>?j < length d\<close> by (auto simp: msg_bit_set simp del: add_Suc_right)
  qed
  ultimately show ?case using d by (auto intro!: exI [of _ ?d])
qed auto

lemma length_encode174 [simp]: "length (encode174 m) = 22"
  and msg_bit_encode174: "p < 176 \<Longrightarrow> msg_bit (encode174 m) p \<longleftrightarrow>
        p < 96 \<and> msg_bit m p \<or> 91 \<le> p \<and> p < 174 \<and> checksum_bit m (p - 91)"
proof -
  let ?c = "map (\<lambda>j. if j < FTX_LDPC_K_BYTES then m ! j else 0) [0..<FTX_LDPC_N_BYTES]"
  have c: "length ?c = 22" by (simp add: FTX_LDPC_N_BYTES_def)
  have st: "drop_bit (FTX_LDPC_K mod 8) 0x80 = mask_at 91" "FTX_LDPC_K_BYTES - 1 = 91 div 8"
    by (simp_all add: FTX_LDPC_K_def FTX_LDPC_K_BYTES_def mask_at_def)
  obtain d where d: "foldl (enc_step m) (?c, mask_at 91, 91 div 8) [0..<83] = (d, mask_at (91 + 83), (91 + 83) div 8)"
     "length d = 22" "\<And>p. msg_bit d p \<longleftrightarrow> msg_bit ?c p \<or> (91 \<le> p \<and> p < 91 + 83 \<and> checksum_bit m (p - 91))"
    using enc_loop [of 83 ?c m] c by auto
  have e: "encode174 m = d" unfolding encode174_def st FTX_LDPC_M_def d by simp
  show "length (encode174 m) = 22" using e d by simp
  have "msg_bit ?c p \<longleftrightarrow> p < 96 \<and> msg_bit m p" if "p < 176"
  proof -
    have "p div 8 < 22" "p div 8 < 12 \<longleftrightarrow> p < 96" using that by linarith+
    then show ?thesis by (simp add: msg_bit_def FTX_LDPC_N_BYTES_def FTX_LDPC_K_BYTES_def FTX_LDPC_K_def del: upt_Suc upt_rec_numeral)
  qed
  then show "p < 176 \<Longrightarrow> msg_bit (encode174 m) p \<longleftrightarrow>
      p < 96 \<and> msg_bit m p \<or> 91 \<le> p \<and> p < 174 \<and> checksum_bit m (p - 91)"
    using e d(3) [of p] by auto
qed

section \<open>Every parity check holds\<close>

text \<open>A generator row read as bits and as a 96-bit number.\<close>

lemma bit_bytes_int:
  "i < 8 * length bs \<Longrightarrow> bit (bytes_int bs) (8 * length bs - 1 - i) \<longleftrightarrow> msg_bit bs i"
proof (induction bs rule: rev_induct)
  case (snoc b bs)
  have e: "bytes_int (bs @ [b]) = push_bit 8 (bytes_int bs) OR uint b"
  proof -
    have "uint b < 2 ^ 8" using uint_lt2p [of b] by simp
    then have "take_bit 8 (uint b) = uint b" by (simp add: take_bit_int_eq_self_iff)
    then have "bit (push_bit 8 (bytes_int bs)) n \<Longrightarrow> \<not> bit (uint b) n" for n
      by (metis bit_push_bit_iff bit_take_bit_iff not_less)
    then have "push_bit 8 (bytes_int bs) + uint b = push_bit 8 (bytes_int bs) OR uint b"
      by (intro disjunctive_add) blast
    then show ?thesis by (simp add: bytes_int_def push_bit_eq_mult)
  qed
  have hi: "\<not> bit (uint b) k" if "8 \<le> k" for k using that bit_imp_le_length [of b k] by (auto simp: bit_uint_iff)
  show ?case
  proof (cases "i < 8 * length bs")
    case True
    then have "8 * length (bs @ [b]) - 1 - i = 8 + (8 * length bs - 1 - i)" by simp
    moreover have "bit (bytes_int (bs @ [b])) (8 + (8 * length bs - 1 - i)) = bit (bytes_int bs) (8 * length bs - 1 - i)"
      unfolding e bit_or_iff bit_push_bit_iff using hi [of "8 + (8 * length bs - 1 - i)"] by simp
    moreover have "i div 8 < length bs" using True by linarith
    ultimately show ?thesis using snoc True by (simp add: msg_bit_def nth_append)
  next
    case False
    define k where "k = i - 8 * length bs"
    have k: "i = 8 * length bs + k" "k < 8" using False snoc.prems by (auto simp: k_def)
    have "bit (bytes_int (bs @ [b])) (7 - k) = bit b (7 - k)"
      unfolding e bit_or_iff bit_push_bit_iff using k(2) by (auto simp: bit_uint_iff)
    moreover have "8 * length (bs @ [b]) - 1 - i = 7 - k" unfolding k(1) by simp
    moreover have "msg_bit (bs @ [b]) (8 * length bs + k) = bit b (7 - k)"
      using msg_bit_byte [of k "bs @ [b]" "length bs"] k(2) by simp
    ultimately show ?thesis unfolding k(1) by simp
  qed
qed simp

lemma bit_gen_int: "i < 83 \<Longrightarrow> k < 96 \<Longrightarrow> bit (gen_ints ! i) (95 - k) = msg_bit (kFTX_LDPC_generator ! i) k"
proof -
  assume i: "i < 83" and k: "k < 96"
  have "length (kFTX_LDPC_generator ! i) = 12" using i length_tables(1) generator_rows_12 by (metis nth_mem)
  then show ?thesis
    using bit_bytes_int [of k "kFTX_LDPC_generator ! i"] k i length_tables(1) by (simp flip: gen_ints_eq)
qed

lemma checksum_ext:
  assumes "i < 83" shows "checksum_bit m i = par 96 (\<lambda>k. msg_bit m k \<and> bit (ext_col (i + 92)) (95 - k))"
  unfolding checksum_bit_def by (rule par_cong) (simp add: ext_col_def bit_gen_int assms)

text \<open>Bit \<open>j - 1\<close> of the codeword is the product of the message with column \<open>j\<close>.\<close>

definition clean91 :: "u8 list \<Rightarrow> bool" where
  "clean91 m \<longleftrightarrow> length m = 12 \<and> (\<forall>k<96. 91 \<le> k \<longrightarrow> \<not> msg_bit m k)"

lemma encode174_ext:
  assumes m: "clean91 m" and j: "1 \<le> j" "j \<le> 174"
  shows "msg_bit (encode174 m) (j - 1) = par 96 (\<lambda>k. msg_bit m k \<and> bit (ext_col j) (95 - k))"
proof (cases "j \<le> 91")
  case True
  have "par 96 (\<lambda>k. msg_bit m k \<and> bit (ext_col j) (95 - k)) = par 96 (\<lambda>k. k = j - 1 \<and> msg_bit m k)"
    using True j by (intro par_cong) (auto simp: ext_col_def bit_exp_iff)
  also have "\<dots> = msg_bit m (j - 1)" using True j by (simp add: par_single)
  finally have "par 96 (\<lambda>k. msg_bit m k \<and> bit (ext_col j) (95 - k)) = msg_bit m (j - 1)" .
  moreover have "\<not> 91 \<le> j - 1" "j - 1 < 96" using True by simp_all
  ultimately show ?thesis by (simp add: msg_bit_encode174)
next
  case False
  then have e: "j - 1 - 91 + 92 = j" "j - 1 - 91 < 83" using j by simp_all
  have "p < 96 \<Longrightarrow> 91 \<le> p \<Longrightarrow> \<not> msg_bit m p" for p using m by (simp add: clean91_def)
  then have "msg_bit (encode174 m) (j - 1) = checksum_bit m (j - 1 - 91)"
    using False j by (auto simp: msg_bit_encode174)
  then show ?thesis using checksum_ext [OF e(2), of m] unfolding e(1) by simp
qed

text \<open>The exclusive or of the bits a check names.\<close>

definition row_odd :: "(nat \<Rightarrow> bool) \<Rightarrow> nat list \<Rightarrow> bool" where
  "row_odd x ns = foldr (\<lambda>j b. x (j - 1) \<noteq> b) ns False"

lemma row_odd_encode174:
  "clean91 m \<Longrightarrow> \<forall>j\<in>set ns. 1 \<le> j \<and> j \<le> 174 \<Longrightarrow>
     row_odd (msg_bit (encode174 m)) ns = par 96 (\<lambda>k. msg_bit m k \<and> bit (row_sum ns) (95 - k))"
proof (induction ns)
  case (Cons j ns)
  have "par 96 (\<lambda>k. msg_bit m k \<and> bit (row_sum (j # ns)) (95 - k)) =
      par 96 (\<lambda>k. (msg_bit m k \<and> bit (ext_col j) (95 - k)) \<noteq> (msg_bit m k \<and> bit (row_sum ns) (95 - k)))"
    by (rule par_cong) (auto simp: row_sum_def bit_xor_iff)
  then show ?case
    using Cons encode174_ext [OF Cons.prems(1), of j] unfolding par_neq by (simp add: row_odd_def)
qed (simp add: row_odd_def row_sum_def)

lemma encode174_checks: "clean91 m \<Longrightarrow> r < 83 \<Longrightarrow> \<not> row_odd (msg_bit (encode174 m)) (check_row r)"
  using row_odd_encode174 [of m "check_row r"] check_row_props [of r] by simp

lemma clean_add_crc: "length payload = 10 \<Longrightarrow> clean91 (ftx_add_crc payload (replicate 12 0))"
  unfolding clean91_def by (auto simp: msg_bit_add_crc) (simp add: ftx_add_crc_def clear_crc_def Let_def)

section \<open>The tones\<close>

lemma next_bit_at: "next_bit codeword (mask_at n, n div 8) = (msg_bit codeword n, mask_at (Suc n), Suc n div 8)"
proof -
  have "codeword ! (n div 8) AND mask_at n = (if msg_bit codeword n then mask_at n else 0)"
  proof (rule byte_eqI)
    fix k assume "k < (8 :: nat)"
    then show "bit (codeword ! (n div 8) AND mask_at n) (7 - k) = bit (if msg_bit codeword n then mask_at n else 0) (7 - k)"
      using bit_mask_at [of k n] by (auto simp: bit_and_iff msg_bit_def)
  qed
  then have "codeword ! (n div 8) AND mask_at n \<noteq> 0 \<longleftrightarrow> msg_bit codeword n" by (simp add: mask_at_nonzero)
  then show ?thesis
    unfolding next_bit_def Let_def prod.case using next_mask [of n] by simp
qed

text \<open>The number of data symbols before symbol \<open>i\<close>, and the value of a data symbol.\<close>

definition ft8_data_before :: "nat \<Rightarrow> nat" where
  "ft8_data_before i = (if i \<le> 7 then 0 else if i \<le> 36 then i - 7 else if i \<le> 43 then 29 else if i \<le> 72 then i - 14 else 58)"

definition bits3 :: "(nat \<Rightarrow> bool) \<Rightarrow> nat \<Rightarrow> nat" where
  "bits3 x n = (if x n then 4 else 0) + (if x (n + 1) then 2 else 0) + (if x (n + 2) then 1 else 0)"

definition ft8_tone :: "(nat \<Rightarrow> bool) \<Rightarrow> nat \<Rightarrow> u8" where
  "ft8_tone x i =
     (if i < 7 then kFT8_Costas_pattern ! i
      else if 36 \<le> i \<and> i < 43 then kFT8_Costas_pattern ! (i - 36)
      else if 72 \<le> i then kFT8_Costas_pattern ! (i - 72)
      else kFT8_Gray_map ! bits3 x (3 * ft8_data_before i))"

lemma bits3_or:
  "((if a then 4 else 0) OR (if b then 2 else 0) OR (if c then 1 else 0) :: nat) =
     (if a then 4 else 0) + (if b then 2 else 0) + (if c then 1 else 0)"
  by (cases a; cases b; cases c) simp_all

lemma ft8_tones_loop:
  "n \<le> 79 \<Longrightarrow> foldl (ft8_tone_step cw) ([], 0x80, 0) [0..<n] =
     (map (ft8_tone (msg_bit cw)) [0..<n], mask_at (3 * ft8_data_before n), 3 * ft8_data_before n div 8)"
proof (induction n)
  case 0
  show ?case by (simp add: ft8_data_before_def mask_at_0)
next
  case (Suc n)
  let ?d = "3 * ft8_data_before n" and ?ts = "map (ft8_tone (msg_bit cw)) [0..<n]"
  have "ft8_tone_step cw (?ts, mask_at ?d, ?d div 8) n =
      (?ts @ [ft8_tone (msg_bit cw) n], mask_at (3 * ft8_data_before (Suc n)), 3 * ft8_data_before (Suc n) div 8)"
  proof (cases "n < 7 \<or> 36 \<le> n \<and> n < 43 \<or> 72 \<le> n")
    case True
    then have "ft8_data_before (Suc n) = ft8_data_before n" by (auto simp: ft8_data_before_def)
    then show ?thesis using True Suc.prems by (auto simp: ft8_tone_step_def ft8_tone_def)
  next
    case False
    then have d: "ft8_data_before (Suc n) = Suc (ft8_data_before n)" by (auto simp: ft8_data_before_def)
    have d3: "3 * Suc k = Suc (Suc (Suc (3 * k)))" for k :: nat by simp
    have tone: "ft8_tone (msg_bit cw) n = kFT8_Gray_map ! bits3 (msg_bit cw) ?d" using False by (auto simp: ft8_tone_def)
    have n: "(n < 7) = False" "(36 \<le> n \<and> n < 43) = False" "(72 \<le> n \<and> n < 79) = False" using False by auto
    show ?thesis
      unfolding ft8_tone_step_def prod.case Let_def n if_False next_bit_at bits3_or tone d d3
      by (simp add: bits3_def)
  qed
  then show ?case using Suc by simp
qed

lemma ft8_encode_tones: "ft8_encode payload = map (ft8_tone (msg_bit (ft8_codeword payload))) [0..<79]"
  using ft8_tones_loop [of 79 "ft8_codeword payload"] by (simp add: ft8_encode_def FT8_NN_def)

definition ft4_data_before :: "nat \<Rightarrow> nat" where
  "ft4_data_before i =
     (if i \<le> 5 then 0 else if i \<le> 34 then i - 5 else if i \<le> 38 then 29 else if i \<le> 67 then i - 9
      else if i \<le> 71 then 58 else if i \<le> 100 then i - 13 else 87)"

definition bits2 :: "(nat \<Rightarrow> bool) \<Rightarrow> nat \<Rightarrow> nat" where
  "bits2 x n = (if x n then 2 else 0) + (if x (n + 1) then 1 else 0)"

definition ft4_tone :: "(nat \<Rightarrow> bool) \<Rightarrow> nat \<Rightarrow> u8" where
  "ft4_tone x i =
     (if i = 0 \<or> i = 104 then 0
      else if i < 5 then kFT4_Costas_pattern ! 0 ! (i - 1)
      else if 34 \<le> i \<and> i < 38 then kFT4_Costas_pattern ! 1 ! (i - 34)
      else if 67 \<le> i \<and> i < 71 then kFT4_Costas_pattern ! 2 ! (i - 67)
      else if 100 \<le> i then kFT4_Costas_pattern ! 3 ! (i - 100)
      else kFT4_Gray_map ! bits2 x (2 * ft4_data_before i))"

lemma bits2_or:
  "((if a then 2 else 0) OR (if b then 1 else 0) :: nat) = (if a then 2 else 0) + (if b then 1 else 0)"
  by (cases a; cases b) simp_all

lemma ft4_tones_loop:
  "n \<le> 105 \<Longrightarrow> foldl (ft4_tone_step cw) ([], 0x80, 0) [0..<n] =
     (map (ft4_tone (msg_bit cw)) [0..<n], mask_at (2 * ft4_data_before n), 2 * ft4_data_before n div 8)"
proof (induction n)
  case 0
  show ?case by (simp add: ft4_data_before_def mask_at_0)
next
  case (Suc n)
  let ?d = "2 * ft4_data_before n" and ?ts = "map (ft4_tone (msg_bit cw)) [0..<n]"
  have "ft4_tone_step cw (?ts, mask_at ?d, ?d div 8) n =
      (?ts @ [ft4_tone (msg_bit cw) n], mask_at (2 * ft4_data_before (Suc n)), 2 * ft4_data_before (Suc n) div 8)"
  proof (cases "n < 5 \<or> 34 \<le> n \<and> n < 38 \<or> 67 \<le> n \<and> n < 71 \<or> 100 \<le> n")
    case True
    then have "ft4_data_before (Suc n) = ft4_data_before n" by (auto simp: ft4_data_before_def)
    then show ?thesis using True Suc.prems by (auto simp: ft4_tone_step_def ft4_tone_def)
  next
    case False
    then have d: "ft4_data_before (Suc n) = Suc (ft4_data_before n)" by (auto simp: ft4_data_before_def)
    have d2: "2 * Suc k = Suc (Suc (2 * k))" for k :: nat by simp
    have tone: "ft4_tone (msg_bit cw) n = kFT4_Gray_map ! bits2 (msg_bit cw) ?d" using False by (auto simp: ft4_tone_def)
    have n: "(n = 0 \<or> n = 104) = False" "(1 \<le> n \<and> n < 5) = False" "(34 \<le> n \<and> n < 38) = False"
      "(67 \<le> n \<and> n < 71) = False" "(100 \<le> n \<and> n < 104) = False" using False by auto
    show ?thesis
      unfolding ft4_tone_step_def prod.case Let_def n if_False next_bit_at bits2_or tone d d2
      by (simp add: bits2_def)
  qed
  then show ?case using Suc by simp
qed

lemma ft4_encode_tones:
  "ft4_encode payload = map (ft4_tone (msg_bit (ft8_codeword (ft4_scramble payload)))) [0..<105]"
  using ft4_tones_loop [of 105 "ft8_codeword (ft4_scramble payload)"] by (simp add: ft4_encode_def FT4_NN_def)

section \<open>Properties\<close>

text \<open>
  The codeword the FT8 encoder sends: its first 77 bits are those of the payload, the next 14
  are the CRC-14 of the payload, and all 83 parity checks of the table \<open>kFTX_LDPC_Nm\<close> hold.
\<close>

theorem ft8_codeword_valid:
  assumes "length payload = 10"
  shows "(\<forall>i<77. msg_bit (ft8_codeword payload) i = msg_bit payload i) \<and>
         (\<forall>i<14. msg_bit (ft8_codeword payload) (77 + i) = bit (crc_of_payload (msg_bits payload 77)) (13 - i)) \<and>
         (\<forall>r<83. \<not> row_odd (msg_bit (ft8_codeword payload)) (check_row r))"
proof -
  let ?a = "ftx_add_crc payload (replicate 12 0)"
  have e: "ft8_codeword payload = encode174 ?a" by (simp add: ft8_codeword_def FTX_LDPC_K_BYTES_def FTX_LDPC_K_def)
  have "\<forall>r<83. \<not> row_odd (msg_bit (encode174 ?a)) (check_row r)"
    using encode174_checks [OF clean_add_crc [OF assms]] by blast
  moreover have "msg_bit (encode174 ?a) i = msg_bit ?a i" if "i < 91" for i using that by (simp add: msg_bit_encode174)
  moreover have "msg_bit ?a i = msg_bit payload i" if "i < 77" for i
    using that assms by (simp add: msg_bit_add_crc)
  moreover have "msg_bit ?a (77 + i) = bit (crc_of_payload (msg_bits payload 77)) (13 - i)" if "i < 14" for i
    using that assms by (simp add: msg_bit_add_crc)
  ultimately show ?thesis unfolding e by simp
qed

theorem ft8_codeword_valid_witness:
  "\<not> row_odd (msg_bit (ft8_codeword (replicate 10 1))) (check_row 82) \<and> msg_bit (ft8_codeword (replicate 10 1)) 7"
proof -
  have "msg_bit (ft8_codeword (replicate 10 1)) 7 = msg_bit (replicate 10 1) 7" using ft8_codeword_valid [of "replicate 10 1"] by simp
  moreover have "msg_bit (replicate 10 1) 7" by (simp add: msg_bit_def)
  moreover have "\<not> row_odd (msg_bit (ft8_codeword (replicate 10 1))) (check_row 82)" using ft8_codeword_valid [of "replicate 10 1"] by simp
  ultimately show ?thesis by blast
qed

end
