(* ===== verification/LdpcTables.thy ===== *)
theory LdpcTables
  imports Osd
begin

text \<open>
  The parity-check tables of the two (174, K) LDPC codes, from \<open>gm/cuda/FT8LdpcCuda.cu\<close> and
  \<open>gm/cuda/JS8LdpcCuda.cu\<close>, and the JS8 generator of \<open>gm/cuda/JS8Generator.h\<close>.  Row \<open>i\<close> of a
  \<open>check_var_j\<close> table lists the variables of check \<open>i\<close> (\<open>-1\<close> pads rows of degree below 7);
  row \<open>n\<close> of a \<open>var_adj\<close> table lists the three edges (check, slot) of variable \<open>n\<close>.

  The lemmas check the tables against each other in the kernel: the two edge tables of each
  code are inverse to each other, and every row of the JS8 generator satisfies all parity checks.
\<close>

section \<open>Tables\<close>

definition ft8_check_var_j :: "int list list" where
  "ft8_check_var_j =
    [[3, 30, 58, 90, 91, 95, 152], [4, 31, 59, 92, 114, 145, -1],
     [5, 23, 60, 93, 121, 150, -1], [6, 32, 61, 94, 95, 142, -1], [7, 24, 62, 82, 92, 95, 147],
     [5, 31, 63, 96, 125, 137, -1], [4, 33, 64, 77, 97, 106, 153],
     [8, 34, 65, 98, 138, 145, -1], [9, 35, 66, 99, 106, 125, -1],
     [10, 36, 66, 86, 100, 138, 157], [11, 37, 67, 101, 104, 154, -1],
     [12, 38, 68, 102, 148, 161, -1], [7, 39, 69, 81, 103, 113, 144],
     [13, 40, 70, 87, 101, 122, 155], [14, 41, 58, 105, 122, 158, -1],
     [0, 32, 71, 105, 106, 156, -1], [15, 42, 72, 107, 140, 159, -1],
     [16, 36, 73, 80, 108, 130, 153], [10, 43, 74, 109, 120, 165, -1],
     [44, 54, 63, 110, 129, 160, 172], [7, 45, 70, 111, 118, 165, -1],
     [17, 35, 75, 88, 112, 113, 142], [18, 37, 76, 103, 115, 162, -1],
     [19, 46, 69, 91, 137, 164, -1], [1, 47, 73, 112, 127, 159, -1],
     [20, 44, 77, 82, 116, 120, 150], [21, 46, 57, 117, 126, 163, -1],
     [15, 38, 61, 111, 133, 157, -1], [22, 42, 78, 119, 130, 144, -1],
     [18, 34, 58, 72, 109, 124, 160], [19, 35, 62, 93, 135, 160, -1],
     [13, 30, 78, 97, 131, 163, -1], [2, 43, 79, 123, 126, 168, -1],
     [18, 45, 80, 116, 134, 166, -1], [6, 48, 57, 89, 99, 104, 167],
     [11, 49, 60, 117, 118, 143, -1], [12, 50, 63, 113, 117, 156, -1],
     [23, 51, 75, 128, 147, 148, -1], [24, 52, 68, 89, 100, 129, 155],
     [19, 45, 64, 79, 119, 139, 169], [20, 53, 76, 99, 139, 170, -1],
     [34, 81, 132, 141, 170, 173, -1], [13, 29, 82, 112, 124, 169, -1],
     [3, 28, 67, 119, 133, 172, -1], [0, 3, 51, 56, 85, 135, 151],
     [25, 50, 55, 90, 121, 136, 167], [51, 83, 109, 114, 144, 167, -1],
     [6, 49, 80, 98, 131, 172, -1], [22, 54, 66, 94, 171, 173, -1],
     [25, 40, 76, 108, 140, 147, -1], [1, 26, 40, 60, 61, 114, 132],
     [26, 39, 55, 123, 124, 125, -1], [17, 48, 54, 123, 140, 166, -1],
     [5, 32, 84, 107, 115, 155, -1], [27, 47, 69, 84, 104, 128, 157],
     [8, 53, 62, 130, 146, 154, -1], [21, 52, 67, 108, 120, 173, -1],
     [2, 12, 47, 77, 94, 122, -1], [30, 68, 132, 149, 154, 168, -1],
     [11, 42, 65, 88, 96, 134, 158], [4, 38, 74, 101, 135, 166, -1],
     [1, 53, 85, 100, 134, 163, -1], [14, 55, 86, 107, 118, 170, -1],
     [9, 43, 81, 90, 110, 143, 148], [22, 33, 70, 93, 126, 152, -1],
     [10, 48, 87, 91, 141, 156, -1], [28, 33, 86, 96, 146, 161, -1],
     [29, 49, 59, 85, 136, 141, 161], [9, 52, 65, 83, 111, 127, 164],
     [21, 56, 84, 92, 139, 158, -1], [27, 31, 71, 102, 131, 165, -1],
     [27, 28, 83, 87, 116, 142, 149], [0, 25, 44, 79, 127, 146, -1],
     [16, 26, 88, 102, 115, 152, -1], [50, 56, 97, 162, 164, 171, -1],
     [20, 36, 72, 137, 151, 168, -1], [15, 46, 75, 129, 136, 153, -1],
     [2, 23, 29, 71, 103, 138, -1], [8, 39, 89, 105, 133, 150, -1],
     [14, 57, 59, 73, 110, 149, 162], [17, 41, 78, 143, 145, 151, -1],
     [24, 37, 64, 98, 121, 159, -1], [16, 41, 74, 128, 169, 171, -1]]"

definition ft8_check_deg :: "nat list" where
  "ft8_check_deg =
    [7, 6, 6, 6, 7, 6, 7, 6, 6, 7, 6, 6, 7, 7, 6, 6, 6, 7, 6, 7, 6, 7, 6, 6, 6, 7, 6, 6, 6, 7,
     6, 6, 6, 6, 7, 6, 6, 6, 7, 7, 6, 6, 6, 6, 7, 7, 6, 6, 6, 6, 7, 6, 6, 6, 7, 6, 6, 6, 6, 7,
     6, 6, 6, 7, 6, 6, 6, 7, 7, 6, 6, 7, 6, 6, 6, 6, 6, 6, 6, 7, 6, 6, 6]"

definition ft8_var_adj :: "(nat \<times> nat) list list" where
  "ft8_var_adj =
    [[(15, 0), (44, 0), (72, 0)], [(24, 0), (50, 0), (61, 0)], [(32, 0), (57, 0), (77, 0)],
     [(0, 0), (43, 0), (44, 1)], [(1, 0), (6, 0), (60, 0)], [(2, 0), (5, 0), (53, 0)],
     [(3, 0), (34, 0), (47, 0)], [(4, 0), (12, 0), (20, 0)], [(7, 0), (55, 0), (78, 0)],
     [(8, 0), (63, 0), (68, 0)], [(9, 0), (18, 0), (65, 0)], [(10, 0), (35, 0), (59, 0)],
     [(11, 0), (36, 0), (57, 1)], [(13, 0), (31, 0), (42, 0)], [(14, 0), (62, 0), (79, 0)],
     [(16, 0), (27, 0), (76, 0)], [(17, 0), (73, 0), (82, 0)], [(21, 0), (52, 0), (80, 0)],
     [(22, 0), (29, 0), (33, 0)], [(23, 0), (30, 0), (39, 0)], [(25, 0), (40, 0), (75, 0)],
     [(26, 0), (56, 0), (69, 0)], [(28, 0), (48, 0), (64, 0)], [(2, 1), (37, 0), (77, 1)],
     [(4, 1), (38, 0), (81, 0)], [(45, 0), (49, 0), (72, 1)], [(50, 1), (51, 0), (73, 1)],
     [(54, 0), (70, 0), (71, 0)], [(43, 1), (66, 0), (71, 1)], [(42, 1), (67, 0), (77, 2)],
     [(0, 1), (31, 1), (58, 0)], [(1, 1), (5, 1), (70, 1)], [(3, 1), (15, 1), (53, 1)],
     [(6, 1), (64, 1), (66, 1)], [(7, 1), (29, 1), (41, 0)], [(8, 1), (21, 1), (30, 1)],
     [(9, 1), (17, 1), (75, 1)], [(10, 1), (22, 1), (81, 1)], [(11, 1), (27, 1), (60, 1)],
     [(12, 1), (51, 1), (78, 1)], [(13, 1), (49, 1), (50, 2)], [(14, 1), (80, 1), (82, 1)],
     [(16, 1), (28, 1), (59, 1)], [(18, 1), (32, 1), (63, 1)], [(19, 0), (25, 1), (72, 2)],
     [(20, 1), (33, 1), (39, 1)], [(23, 1), (26, 1), (76, 1)], [(24, 1), (54, 1), (57, 2)],
     [(34, 1), (52, 1), (65, 1)], [(35, 1), (47, 1), (67, 1)], [(36, 1), (45, 1), (74, 0)],
     [(37, 1), (44, 2), (46, 0)], [(38, 1), (56, 1), (68, 1)], [(40, 1), (55, 1), (61, 1)],
     [(19, 1), (48, 1), (52, 2)], [(45, 2), (51, 2), (62, 1)], [(44, 3), (69, 1), (74, 1)],
     [(26, 2), (34, 2), (79, 1)], [(0, 2), (14, 2), (29, 2)], [(1, 2), (67, 2), (79, 2)],
     [(2, 2), (35, 2), (50, 3)], [(3, 2), (27, 2), (50, 4)], [(4, 2), (30, 2), (55, 2)],
     [(5, 2), (19, 2), (36, 2)], [(6, 2), (39, 2), (81, 2)], [(7, 2), (59, 2), (68, 2)],
     [(8, 2), (9, 2), (48, 2)], [(10, 2), (43, 2), (56, 2)], [(11, 2), (38, 2), (58, 1)],
     [(12, 2), (23, 2), (54, 2)], [(13, 2), (20, 2), (64, 2)], [(15, 2), (70, 2), (77, 3)],
     [(16, 2), (29, 3), (75, 2)], [(17, 2), (24, 2), (79, 3)], [(18, 2), (60, 2), (82, 2)],
     [(21, 2), (37, 2), (76, 2)], [(22, 2), (40, 2), (49, 2)], [(6, 3), (25, 2), (57, 3)],
     [(28, 2), (31, 2), (80, 2)], [(32, 2), (39, 3), (72, 3)], [(17, 3), (33, 2), (47, 2)],
     [(12, 3), (41, 1), (63, 2)], [(4, 3), (25, 3), (42, 2)], [(46, 1), (68, 3), (71, 2)],
     [(53, 2), (54, 3), (69, 2)], [(44, 4), (61, 2), (67, 3)], [(9, 3), (62, 2), (66, 2)],
     [(13, 3), (65, 2), (71, 3)], [(21, 3), (59, 3), (73, 2)], [(34, 3), (38, 3), (78, 2)],
     [(0, 3), (45, 3), (63, 3)], [(0, 4), (23, 3), (65, 3)], [(1, 3), (4, 4), (69, 3)],
     [(2, 3), (30, 3), (64, 3)], [(3, 3), (48, 3), (57, 4)], [(0, 5), (3, 4), (4, 5)],
     [(5, 3), (59, 4), (66, 3)], [(6, 4), (31, 3), (74, 2)], [(7, 3), (47, 3), (81, 3)],
     [(8, 3), (34, 4), (40, 3)], [(9, 4), (38, 4), (61, 3)], [(10, 3), (13, 4), (60, 3)],
     [(11, 3), (70, 3), (73, 3)], [(12, 4), (22, 3), (77, 4)], [(10, 4), (34, 5), (54, 4)],
     [(14, 3), (15, 3), (78, 3)], [(6, 5), (8, 4), (15, 4)], [(16, 3), (53, 3), (62, 3)],
     [(17, 4), (49, 3), (56, 3)], [(18, 3), (29, 4), (46, 2)], [(19, 3), (63, 4), (79, 4)],
     [(20, 3), (27, 3), (68, 4)], [(21, 4), (24, 3), (42, 3)], [(12, 5), (21, 5), (36, 3)],
     [(1, 4), (46, 3), (50, 5)], [(22, 4), (53, 4), (73, 4)], [(25, 4), (33, 3), (71, 4)],
     [(26, 3), (35, 3), (36, 4)], [(20, 4), (35, 4), (62, 4)], [(28, 3), (39, 4), (43, 3)],
     [(18, 4), (25, 5), (56, 4)], [(2, 4), (45, 4), (81, 4)], [(13, 5), (14, 4), (57, 5)],
     [(32, 3), (51, 3), (52, 3)], [(29, 5), (42, 4), (51, 4)], [(5, 4), (8, 5), (51, 5)],
     [(26, 4), (32, 4), (64, 4)], [(24, 4), (68, 5), (72, 4)], [(37, 3), (54, 5), (82, 3)],
     [(19, 4), (38, 5), (76, 3)], [(17, 5), (28, 4), (55, 3)], [(31, 4), (47, 4), (70, 4)],
     [(41, 2), (50, 6), (58, 2)], [(27, 4), (43, 4), (78, 4)], [(33, 4), (59, 5), (61, 4)],
     [(30, 4), (44, 5), (60, 4)], [(45, 5), (67, 4), (76, 4)], [(5, 5), (23, 4), (75, 3)],
     [(7, 4), (9, 5), (77, 5)], [(39, 5), (40, 4), (69, 4)], [(16, 4), (49, 4), (52, 4)],
     [(41, 3), (65, 4), (67, 5)], [(3, 5), (21, 6), (71, 5)], [(35, 5), (63, 5), (80, 3)],
     [(12, 6), (28, 5), (46, 4)], [(1, 5), (7, 5), (80, 4)], [(55, 4), (66, 4), (72, 5)],
     [(4, 6), (37, 4), (49, 5)], [(11, 4), (37, 5), (63, 6)], [(58, 3), (71, 6), (79, 5)],
     [(2, 5), (25, 6), (78, 5)], [(44, 6), (75, 4), (80, 5)], [(0, 6), (64, 5), (73, 5)],
     [(6, 6), (17, 6), (76, 5)], [(10, 5), (55, 5), (58, 4)], [(13, 6), (38, 6), (53, 5)],
     [(15, 5), (36, 5), (65, 5)], [(9, 6), (27, 5), (54, 6)], [(14, 5), (59, 6), (69, 5)],
     [(16, 5), (24, 5), (81, 5)], [(19, 5), (29, 6), (30, 5)], [(11, 5), (66, 5), (67, 6)],
     [(22, 5), (74, 3), (79, 6)], [(26, 5), (31, 5), (61, 5)], [(23, 5), (68, 6), (74, 4)],
     [(18, 5), (20, 5), (70, 5)], [(33, 5), (52, 5), (60, 5)], [(34, 6), (45, 6), (46, 5)],
     [(32, 5), (58, 5), (75, 5)], [(39, 6), (42, 5), (82, 4)], [(40, 5), (41, 4), (62, 5)],
     [(48, 4), (74, 5), (82, 5)], [(19, 6), (43, 5), (47, 5)], [(41, 5), (48, 5), (56, 5)]]"

definition js8_check_var_j :: "int list list" where
  "js8_check_var_j =
    [[0, 29, 59, 88, 117, 146, -1], [1, 30, 60, 89, 118, 146, -1],
     [2, 31, 61, 90, 119, 147, -1], [3, 32, 62, 91, 120, 148, -1],
     [1, 33, 63, 92, 121, 149, -1], [4, 32, 64, 93, 122, 147, -1],
     [5, 33, 65, 94, 123, 150, -1], [6, 34, 66, 95, 119, 151, -1],
     [7, 35, 67, 96, 124, 152, -1], [8, 36, 68, 97, 125, 151, -1],
     [9, 37, 69, 98, 126, 153, -1], [10, 38, 70, 99, 125, 154, -1],
     [11, 39, 60, 100, 127, 144, -1], [9, 32, 59, 94, 127, 155, -1],
     [12, 40, 71, 96, 125, 156, -1], [12, 41, 72, 89, 128, 155, -1],
     [13, 38, 73, 98, 129, 157, -1], [14, 42, 74, 101, 130, 158, -1],
     [15, 42, 70, 102, 117, 159, -1], [16, 43, 75, 97, 129, 155, -1],
     [17, 44, 59, 95, 131, 160, -1], [18, 45, 72, 82, 132, 161, -1],
     [11, 37, 76, 101, 133, 162, -1], [18, 46, 77, 103, 134, 146, -1],
     [0, 31, 76, 104, 135, 163, -1], [19, 47, 72, 105, 122, 162, -1],
     [20, 40, 78, 106, 136, 164, -1], [21, 41, 65, 107, 137, 151, -1],
     [17, 41, 79, 108, 138, 153, -1], [22, 48, 80, 109, 134, 165, -1],
     [15, 49, 81, 90, 128, 157, -1], [2, 47, 62, 106, 123, 166, -1],
     [5, 50, 66, 110, 133, 154, -1], [23, 34, 76, 99, 121, 161, -1],
     [19, 44, 75, 111, 139, 156, -1], [20, 35, 63, 91, 129, 158, -1],
     [7, 51, 82, 110, 117, 165, -1], [20, 52, 83, 112, 137, 167, -1],
     [24, 50, 78, 88, 121, 157, -1], [21, 43, 74, 106, 132, 154, 171],
     [8, 53, 83, 89, 140, 168, -1], [21, 53, 84, 109, 135, 160, -1],
     [7, 36, 64, 101, 128, 169, -1], [18, 38, 84, 113, 138, 149, -1],
     [25, 54, 70, 92, 141, 166, -1], [26, 55, 64, 95, 132, 159, 173],
     [27, 30, 85, 99, 116, 170, -1], [27, 51, 69, 103, 131, 143, -1],
     [23, 56, 67, 94, 136, 141, -1], [6, 29, 71, 109, 142, 150, -1],
     [3, 50, 75, 114, 126, 167, -1], [15, 44, 86, 113, 124, 171, -1],
     [14, 29, 85, 114, 122, 149, -1], [22, 45, 63, 90, 143, 172, -1],
     [22, 34, 74, 112, 144, 152, -1], [13, 40, 86, 107, 116, 148, 169],
     [24, 39, 84, 93, 123, 158, -1], [24, 57, 68, 115, 142, 173, -1],
     [28, 42, 60, 115, 131, 161, -1], [14, 57, 87, 111, 120, 163, -1],
     [3, 58, 71, 113, 118, 162, 172], [26, 46, 85, 97, 133, 152, -1],
     [4, 43, 77, 108, 140, -1, -1], [9, 45, 68, 102, 135, 164, -1],
     [8, 49, 58, 92, 127, 163, -1], [13, 56, 57, 108, 119, 165, -1],
     [16, 54, 61, 115, 124, 153, -1], [2, 53, 69, 100, 139, 169, -1],
     [0, 35, 81, 107, 126, 173, -1], [4, 52, 80, 104, 139, -1, -1],
     [28, 52, 66, 98, 141, 172, -1], [17, 48, 73, 96, 114, 166, -1],
     [1, 56, 62, 102, 137, 156, -1], [25, 37, 78, 111, 134, 170, -1],
     [10, 51, 65, 87, 118, 147, -1], [19, 39, 67, 116, 140, 159, -1],
     [10, 47, 80, 88, 145, 168, -1], [28, 46, 79, 91, 145, 171, -1],
     [5, 31, 86, 103, 144, 168, -1], [26, 33, 73, 105, 130, 164, -1],
     [11, 55, 83, 87, 138, -1, -1], [12, 55, 61, 110, 145, 170, -1],
     [25, 36, 79, 104, 143, 150, -1], [16, 30, 81, 112, 120, 160, -1],
     [27, 48, 58, 93, 136, -1, -1], [6, 54, 82, 100, 130, 167, -1],
     [23, 49, 77, 105, 142, 148, -1]]"

definition js8_check_deg :: "nat list" where
  "js8_check_deg =
    [6, 6, 6, 6, 6, 6, 6, 6, 6, 6, 6, 6, 6, 6, 6, 6, 6, 6, 6, 6, 6, 6, 6, 6, 6, 6, 6, 6, 6, 6,
     6, 6, 6, 6, 6, 6, 6, 6, 6, 7, 6, 6, 6, 6, 6, 7, 6, 6, 6, 6, 6, 6, 6, 6, 6, 7, 6, 6, 6, 6,
     7, 6, 5, 6, 6, 6, 6, 6, 6, 5, 6, 6, 6, 6, 6, 6, 6, 6, 6, 6, 5, 6, 6, 6, 5, 6, 6]"

definition js8_var_adj :: "(nat \<times> nat) list list" where
  "js8_var_adj =
    [[(0, 0), (24, 0), (68, 0)], [(1, 0), (4, 0), (72, 0)], [(2, 0), (31, 0), (67, 0)],
     [(3, 0), (50, 0), (60, 0)], [(5, 0), (62, 0), (69, 0)], [(6, 0), (32, 0), (78, 0)],
     [(7, 0), (49, 0), (85, 0)], [(8, 0), (36, 0), (42, 0)], [(9, 0), (40, 0), (64, 0)],
     [(10, 0), (13, 0), (63, 0)], [(11, 0), (74, 0), (76, 0)], [(12, 0), (22, 0), (80, 0)],
     [(14, 0), (15, 0), (81, 0)], [(16, 0), (55, 0), (65, 0)], [(17, 0), (52, 0), (59, 0)],
     [(18, 0), (30, 0), (51, 0)], [(19, 0), (66, 0), (83, 0)], [(20, 0), (28, 0), (71, 0)],
     [(21, 0), (23, 0), (43, 0)], [(25, 0), (34, 0), (75, 0)], [(26, 0), (35, 0), (37, 0)],
     [(27, 0), (39, 0), (41, 0)], [(29, 0), (53, 0), (54, 0)], [(33, 0), (48, 0), (86, 0)],
     [(38, 0), (56, 0), (57, 0)], [(44, 0), (73, 0), (82, 0)], [(45, 0), (61, 0), (79, 0)],
     [(46, 0), (47, 0), (84, 0)], [(58, 0), (70, 0), (77, 0)], [(0, 1), (49, 1), (52, 1)],
     [(1, 1), (46, 1), (83, 1)], [(2, 1), (24, 1), (78, 1)], [(3, 1), (5, 1), (13, 1)],
     [(4, 1), (6, 1), (79, 1)], [(7, 1), (33, 1), (54, 1)], [(8, 1), (35, 1), (68, 1)],
     [(9, 1), (42, 1), (82, 1)], [(10, 1), (22, 1), (73, 1)], [(11, 1), (16, 1), (43, 1)],
     [(12, 1), (56, 1), (75, 1)], [(14, 1), (26, 1), (55, 1)], [(15, 1), (27, 1), (28, 1)],
     [(17, 1), (18, 1), (58, 1)], [(19, 1), (39, 1), (62, 1)], [(20, 1), (34, 1), (51, 1)],
     [(21, 1), (53, 1), (63, 1)], [(23, 1), (61, 1), (77, 1)], [(25, 1), (31, 1), (76, 1)],
     [(29, 1), (71, 1), (84, 1)], [(30, 1), (64, 1), (86, 1)], [(32, 1), (38, 1), (50, 1)],
     [(36, 1), (47, 1), (74, 1)], [(37, 1), (69, 1), (70, 1)], [(40, 1), (41, 1), (67, 1)],
     [(44, 1), (66, 1), (85, 1)], [(45, 1), (80, 1), (81, 1)], [(48, 1), (65, 1), (72, 1)],
     [(57, 1), (59, 1), (65, 2)], [(60, 1), (64, 2), (84, 2)], [(0, 2), (13, 2), (20, 2)],
     [(1, 2), (12, 2), (58, 2)], [(2, 2), (66, 2), (81, 2)], [(3, 2), (31, 2), (72, 2)],
     [(4, 2), (35, 2), (53, 2)], [(5, 2), (42, 2), (45, 2)], [(6, 2), (27, 2), (74, 2)],
     [(7, 2), (32, 2), (70, 2)], [(8, 2), (48, 2), (75, 2)], [(9, 2), (57, 2), (63, 2)],
     [(10, 2), (47, 2), (67, 2)], [(11, 2), (18, 2), (44, 2)], [(14, 2), (49, 2), (60, 2)],
     [(15, 2), (21, 2), (25, 2)], [(16, 2), (71, 2), (79, 2)], [(17, 2), (39, 2), (54, 2)],
     [(19, 2), (34, 2), (50, 2)], [(22, 2), (24, 2), (33, 2)], [(23, 2), (62, 2), (86, 2)],
     [(26, 2), (38, 2), (73, 2)], [(28, 2), (77, 2), (82, 2)], [(29, 2), (69, 2), (76, 2)],
     [(30, 2), (68, 2), (83, 2)], [(21, 3), (36, 2), (85, 2)], [(37, 2), (40, 2), (80, 2)],
     [(41, 2), (43, 2), (56, 2)], [(46, 2), (52, 2), (61, 2)], [(51, 2), (55, 2), (78, 2)],
     [(59, 2), (74, 3), (80, 3)], [(0, 3), (38, 3), (76, 3)], [(1, 3), (15, 3), (40, 3)],
     [(2, 3), (30, 3), (53, 3)], [(3, 3), (35, 3), (77, 3)], [(4, 3), (44, 3), (64, 3)],
     [(5, 3), (56, 3), (84, 3)], [(6, 3), (13, 3), (48, 3)], [(7, 3), (20, 3), (45, 3)],
     [(8, 3), (14, 3), (71, 3)], [(9, 3), (19, 3), (61, 3)], [(10, 3), (16, 3), (70, 3)],
     [(11, 3), (33, 3), (46, 3)], [(12, 3), (67, 3), (85, 3)], [(17, 3), (22, 3), (42, 3)],
     [(18, 3), (63, 3), (72, 3)], [(23, 3), (47, 3), (78, 3)], [(24, 3), (69, 3), (82, 3)],
     [(25, 3), (79, 3), (86, 3)], [(26, 3), (31, 3), (39, 3)], [(27, 3), (55, 3), (68, 3)],
     [(28, 3), (62, 3), (65, 3)], [(29, 3), (41, 3), (49, 3)], [(32, 3), (36, 3), (81, 3)],
     [(34, 3), (59, 3), (73, 3)], [(37, 3), (54, 3), (83, 3)], [(43, 3), (51, 3), (60, 3)],
     [(50, 3), (52, 3), (71, 4)], [(57, 3), (58, 3), (66, 3)], [(46, 4), (55, 4), (75, 3)],
     [(0, 4), (18, 4), (36, 4)], [(1, 4), (60, 4), (74, 4)], [(2, 4), (7, 4), (65, 4)],
     [(3, 4), (59, 4), (83, 4)], [(4, 4), (33, 4), (38, 4)], [(5, 4), (25, 4), (52, 4)],
     [(6, 4), (31, 4), (56, 4)], [(8, 4), (51, 4), (66, 4)], [(9, 4), (11, 4), (14, 4)],
     [(10, 4), (50, 4), (68, 4)], [(12, 4), (13, 4), (64, 4)], [(15, 4), (30, 4), (42, 4)],
     [(16, 4), (19, 4), (35, 4)], [(17, 4), (79, 4), (85, 4)], [(20, 4), (47, 4), (58, 4)],
     [(21, 4), (39, 4), (45, 4)], [(22, 4), (32, 4), (61, 4)], [(23, 4), (29, 4), (73, 4)],
     [(24, 4), (41, 4), (63, 4)], [(26, 4), (48, 4), (84, 4)], [(27, 4), (37, 4), (72, 4)],
     [(28, 4), (43, 4), (80, 4)], [(34, 4), (67, 4), (69, 4)], [(40, 4), (62, 4), (75, 4)],
     [(44, 4), (48, 5), (70, 4)], [(49, 4), (57, 4), (86, 4)], [(47, 5), (53, 4), (82, 4)],
     [(12, 5), (54, 4), (78, 4)], [(76, 4), (77, 4), (81, 4)], [(0, 5), (1, 5), (23, 5)],
     [(2, 5), (5, 5), (74, 5)], [(3, 5), (55, 5), (86, 5)], [(4, 5), (43, 5), (52, 5)],
     [(6, 5), (49, 5), (82, 5)], [(7, 5), (9, 5), (27, 5)], [(8, 5), (54, 5), (61, 5)],
     [(10, 5), (28, 5), (66, 5)], [(11, 5), (32, 5), (39, 5)], [(13, 5), (15, 5), (19, 5)],
     [(14, 5), (34, 5), (72, 5)], [(16, 5), (30, 5), (38, 5)], [(17, 5), (35, 5), (56, 5)],
     [(18, 5), (45, 5), (75, 5)], [(20, 5), (41, 5), (83, 5)], [(21, 5), (33, 5), (58, 5)],
     [(22, 5), (25, 5), (60, 5)], [(24, 5), (59, 5), (64, 5)], [(26, 5), (63, 5), (79, 5)],
     [(29, 5), (36, 5), (65, 5)], [(31, 5), (44, 5), (71, 5)], [(37, 5), (50, 5), (85, 5)],
     [(40, 5), (76, 5), (78, 5)], [(42, 5), (55, 6), (67, 5)], [(46, 5), (73, 5), (81, 5)],
     [(39, 6), (51, 5), (77, 5)], [(53, 5), (60, 6), (70, 5)], [(45, 6), (57, 5), (68, 5)]]"

definition js8_gen_rows0 :: "int list" where
  "js8_gen_rows0 =
    [0x8a44ee53bd2b0f5f1b0c54000000000000000000000, 0xe97dda121f37b990889842000000000000000000000,
     0x23412874b70369a4c3372a9000000000000000000000,
     0x14516dd86559b0aa603e5a8800000000000000000000,
     0x1bc126bbb28f41650e88af8400000000000000000000,
     0x147d32726482376b2306f28200000000000000000000,
     0x3ed1444d6c4d702a611c298100000000000000000000,
     0x33c77f169c481eec307fc28080000000000000000000,
     0x363bd1aa9baf625cb026d70040000000000000000000, 0xe9a9dcd9e4c90bff3a4720020000000000000000000,
     0x2fcf85a63e5e6f9540d2458010000000000000000000,
     0x2d2395f67ebcc25c6d95a70008000000000000000000,
     0x38fae9b213c3e93f1cfe190004000000000000000000,
     0x15bea82e6ed53a33755b750002000000000000000000,
     0x3e497244fd145aac19b8888001000000000000000000,
     0x2f3f3ce720dffa21134a158000800000000000000000,
     0x26767813f793960350d5050000400000000000000000,
     0x11a90668487da8eb52fd640000200000000000000000,
     0x2895caec04e75add0dcf210000100000000000000000,
     0x1a2aebe0c33494f0618aef8000080000000000000000,
     0x219d8c70943bb71e4df2ff8000040000000000000000, 0x125f8ffdd4c391bd316afc8000020000000000000000]"

definition js8_gen_rows1 :: "int list" where
  "js8_gen_rows1 =
    [0xef4acd954769eb4fb6ad68000010000000000000000, 0x14021dcec5badbc9c59abc8000008000000000000000,
     0x13f86691c912987576a7ed0000004000000000000000,
     0x10fc93e31f8112361018fe0000002000000000000000,
     0x23cb49beab47eb6697f61c8000001000000000000000,
     0x3ee823a59d850049b312ae0000000800000000000000,
     0x108c360ba3c14d04eb14cf0000000400000000000000, 0xaf1be17048878552b85fc0000000200000000000000,
     0x1c3c3fae81d8874dc23ca00000000100000000000000, 0xf4455ef2ba550cf1fd4eb8000000080000000000000,
     0x2ad6e1229c83fcde79ff230000000040000000000000,
     0x2ed4775d26d61a798bb28b0000000020000000000000,
     0x333aae761be7b4f6683a3d8000000010000000000000, 0x5aefbfed212f433e8ce8e0000000008000000000000,
     0x98189e2d560b41a5d5a9b0000000004000000000000, 0x8fc05599f0b51475488190000000002000000000000,
     0x263ae056030ac6fca2271d0000000001000000000000,
     0x1c58a334205dd57b64a1d50000000000800000000000,
     0x1b56663d7e4e02ce8b6a990000000000400000000000, 0x62fd775e69c34970466be8000000000200000000000,
     0x26feced41456fb74fbdacb0000000000100000000000, 0x2c65a01af513669e7334658000000000080000000000]"

definition js8_gen_rows2 :: "int list" where
  "js8_gen_rows2 =
    [0x36d1842c0d656016e05ea90000000000040000000000,
     0x155eea3aa1fd3af87411698000000000020000000000,
     0x283d02952fe107e9ac422b0000000000010000000000,
     0x2560ca6307385f309162628000000000008000000000, 0x98a2ed84c91f9c81454d40000000000004000000000,
     0x30201bdea398d304e1ba300000000000002000000000,
     0x28cfd4b475449a5cf9fd698000000000001000000000,
     0x1a992879d3924ba43a27078000000000000800000000,
     0x3eaae510ad13d53547cf490000000000000400000000,
     0x1c1514acee42da286f13748000000000000200000000,
     0x25cee01f9e25dcfac2ab808000000000000100000000,
     0x3f86a3c62022d53f582f3d8000000000000080000000,
     0x1213fb6e3ce36dd29dad7d0000000000000040000000,
     0x3e4b34ba72b1f3ee16059e0000000000000020000000,
     0x339e9fc2cb4cbafd72e4d30000000000000010000000,
     0x18fdbd8b6c5e9690e3b3368000000000000008000000,
     0x29e37e883b80acecc5e6d48000000000000004000000,
     0x20d848c3e84187c32580378000000000000002000000,
     0x368ec46ea0caac740873380000000000000001000000,
     0x3e8a087f07d12883ff53610000000000000000800000, 0xd4945080214b3e99cb56c8000000000000000400000,
     0x22a1e4a5d658be5378354c8000000000000000200000]"

definition js8_gen_rows3 :: "int list" where
  "js8_gen_rows3 =
    [0x1bb2843f86bbf5357c91ba8000000000000000100000,
     0x32d084b0d0b3b7fd3d79d78000000000000000080000, 0x19e204054c137094d523e0000000000000000040000,
     0x9daba8ddb48edf646a6c60000000000000000020000, 0x75e41acb7b89c4a4209f28000000000000000010000,
     0xb1bf61f8250da1f33d5808000000000000000008000, 0x3c334d0f665572626555678000000000000000004000,
     0x1b9b3578cc23b96170cf28000000000000000002000, 0xab4cc90f4b4ae3adffedd8000000000000000001000,
     0x36674b5a37a6976611a6000000000000000000000800,
     0x2897d33b277e99a1ae15040000000000000000000400, 0xeb8e723069e2c7dad307e0000000000000000000200,
     0xdb1a7dd98de887fc3a1ce8000000000000000000100, 0x4d34cd3df01bacf964bf0000000000000000000080,
     0x9b122cef4ed4aba6ffd88000000000000000000040, 0x1455cc9fce6ae9d5cb529a0000000000000000000020,
     0x283c76c6cf017c860c84cc8000000000000000000010,
     0x11466bc7e04ade4df46ea30000000000000000000008,
     0x26321c39a9ca1a420afb550000000000000000000004,
     0x26bffd5db4aeb9d25f22e00000000000000000000002, 0x34905c76cc2d63c5c54df68000000000000000000001]"

definition js8_gen_rows :: "int list" where
  "js8_gen_rows = js8_gen_rows0 @ js8_gen_rows1 @ js8_gen_rows2 @ js8_gen_rows3"

text \<open>A generator row is written as one 174-bit number, first column most significant.\<close>

definition bits_msb :: "nat \<Rightarrow> int \<Rightarrow> bool list" where
  "bits_msb n v = map (\<lambda>i. bit v (n - 1 - i)) [0..<n]"

definition g_js8_gen :: "u8 list" where
  "g_js8_gen = concat (map (\<lambda>v. map byte_of_bool (bits_msb 174 v)) js8_gen_rows)"

section \<open>Evaluation\<close>

text \<open>Table look-ups are evaluated without normalising the table itself.\<close>

lemma nth_weak_cong: "i = j \<Longrightarrow> xs ! i = xs ! j"
  by simp

fun all_rows :: "(nat \<Rightarrow> 'a \<Rightarrow> bool) \<Rightarrow> nat \<Rightarrow> 'a list \<Rightarrow> bool" where
  "all_rows P n [] = True"
| "all_rows P n (x # xs) = (P n x \<and> all_rows P (Suc n) xs)"

lemma all_rows_iff: "all_rows P n xs \<longleftrightarrow> (\<forall>i<length xs. P (n + i) (xs ! i))"
proof (induction xs arbitrary: n)
  case (Cons x xs)
  then show ?case by (auto simp: nth_Cons' less_Suc_eq_0_disj)
qed simp

lemma all_rows_weak_cong: "n = m \<Longrightarrow> all_rows P n xs = all_rows P m xs"
  by simp

lemmas ft8_cv_nth = ft8_check_var_j_def [THEN arg_cong, of "\<lambda>t. t ! i" for i]
lemmas ft8_deg_nth = ft8_check_deg_def [THEN arg_cong, of "\<lambda>t. t ! i" for i]
lemmas ft8_va_nth = ft8_var_adj_def [THEN arg_cong, of "\<lambda>t. t ! i" for i]
lemmas js8_cv_nth = js8_check_var_j_def [THEN arg_cong, of "\<lambda>t. t ! i" for i]
lemmas js8_deg_nth = js8_check_deg_def [THEN arg_cong, of "\<lambda>t. t ! i" for i]
lemmas js8_va_nth = js8_var_adj_def [THEN arg_cong, of "\<lambda>t. t ! i" for i]

text \<open>The inner look-up, whose row has to be evaluated first.\<close>

definition slot :: "'a list \<Rightarrow> nat \<Rightarrow> 'a" where
  "slot row k = row ! k"

lemma slot_Cons [simp]: "slot (x # xs) 0 = x" "slot (x # xs) (Suc k) = slot xs k"
  "slot (x # xs) (numeral n) = slot xs (pred_numeral n)"
  by (simp_all add: slot_def)

section \<open>The edge tables are inverse to each other\<close>

text \<open>Each edge listed for a variable is the slot of its check that holds the variable.\<close>

definition var_row_ok :: "int list list \<Rightarrow> nat list \<Rightarrow> nat \<Rightarrow> (nat \<times> nat) list \<Rightarrow> bool" where
  "var_row_ok cv deg n row \<longleftrightarrow>
     length row = 3 \<and> distinct (map fst row) \<and>
     list_all (\<lambda>(m, k). m < length deg \<and> k < deg ! m \<and> slot (cv ! m) k = int n) row"

definition tables_ok :: "int list list \<Rightarrow> nat list \<Rightarrow> (nat \<times> nat) list list \<Rightarrow> bool" where
  "tables_ok cv deg va \<longleftrightarrow>
     length deg = length cv \<and> length va = 174 \<and> sum_list deg = 522 \<and>
     list_all (\<lambda>row. length row = 7) cv \<and> list_all (\<lambda>d. d \<le> 7) deg \<and>
     all_rows (var_row_ok cv deg) 0 va"

lemma tables_edge:
  assumes "tables_ok cv deg va" and "n < 174" and "(m, k) \<in> set (va ! n)"
  shows "m < length cv \<and> k < deg ! m \<and> cv ! m ! k = int n"
proof -
  have "var_row_ok cv deg n (va ! n)"
    using assms(1,2) all_rows_iff [of "var_row_ok cv deg" 0 va] by (simp add: tables_ok_def)
  then show ?thesis
    using assms(1,3) by (auto simp: var_row_ok_def list_all_iff slot_def tables_ok_def)
qed

text \<open>The converse follows by counting: 522 edges for 522 slots.\<close>

lemma tables_slot:
  assumes ok: "tables_ok cv deg va" and "m < length cv" and "k < deg ! m"
  shows "\<exists>n<174. cv ! m ! k = int n \<and> (m, k) \<in> set (va ! n)"
proof -
  let ?S = "Sigma {..<length cv} (\<lambda>m. {..<deg ! m})"
  let ?e = "\<lambda>(n, j). va ! n ! j"
  let ?D = "{..<174 :: nat} \<times> {..<3 :: nat}"
  have row: "length (va ! n) = 3 \<and> distinct (map fst (va ! n))" if "n < 174" for n
    using ok that all_rows_iff [of "var_row_ok cv deg" 0 va] by (simp add: tables_ok_def var_row_ok_def)
  have edge: "?e x \<in> ?S \<and> cv ! fst (?e x) ! snd (?e x) = int (fst x)" if x: "x \<in> ?D" for x
  proof -
    have "?e x \<in> set (va ! fst x)" using x row by (auto intro!: nth_mem)
    moreover obtain m' k' where "?e x = (m', k')" by fastforce
    ultimately show ?thesis using x tables_edge [OF ok, of "fst x" m' k'] by auto
  qed
  have "inj_on ?e ?D"
  proof (rule inj_onI)
    fix x y assume xy: "x \<in> ?D" "y \<in> ?D" and eq: "?e x = ?e y"
    then have n: "fst x = fst y" using edge [OF xy(1)] edge [OF xy(2)] by simp
    then have "map fst (va ! fst x) ! snd x = map fst (va ! fst x) ! snd y"
      using eq xy row by (auto simp: split_beta)
    then have "snd x = snd y" using row [of "fst x"] xy nth_eq_iff_index_eq by fastforce
    with n show "x = y" by (simp add: prod_eq_iff)
  qed
  then have "card (?e ` ?D) = 522" by (simp add: card_image)
  moreover have "card ?S = 522"
    using ok by (auto simp: tables_ok_def sum_list_sum_nth atLeast0LessThan)
  moreover have "?e ` ?D \<subseteq> ?S" using edge by blast
  ultimately have "?e ` ?D = ?S" by (intro card_subset_eq) simp_all
  moreover have "(m, k) \<in> ?S" using assms(2,3) by simp
  ultimately obtain x where x: "x \<in> ?D" "?e x = (m, k)" by (metis (no_types, lifting) imageE)
  then have "(m, k) \<in> set (va ! fst x)" using row [of "fst x"] nth_mem [of "snd x" "va ! fst x"]
    by (auto simp: split_beta)
  then show ?thesis using edge [OF x(1)] x by (intro exI [of _ "fst x"]) auto
qed

lemma ft8_length_deg: "length ft8_check_deg = 83"
  by (simp add: ft8_check_deg_def)

lemma ft8_length_cv: "length ft8_check_var_j = 83"
  by (simp add: ft8_check_var_j_def)

definition ft8_var_row_ok :: "nat \<Rightarrow> (nat \<times> nat) list \<Rightarrow> bool" where
  "ft8_var_row_ok = var_row_ok ft8_check_var_j ft8_check_deg"

lemma ft8_var_row_eval: "ft8_var_row_ok n row \<longleftrightarrow> length row = 3 \<and> distinct (map fst row) \<and>
   list_all (\<lambda>(m, k). m < 83 \<and> k < ft8_check_deg ! m \<and> slot (ft8_check_var_j ! m) k = int n) row"
  by (simp add: ft8_var_row_ok_def var_row_ok_def ft8_length_deg)

lemma ft8_vars_ok: "all_rows ft8_var_row_ok 0 ft8_var_adj"
  unfolding ft8_var_adj_def
  by (simp add: ft8_var_row_eval ft8_cv_nth ft8_deg_nth cong: nth_weak_cong all_rows_weak_cong)

lemma ft8_tables_ok: "tables_ok ft8_check_var_j ft8_check_deg ft8_var_adj"
proof -
  have "sum_list ft8_check_deg = 522" "list_all (\<lambda>d. d \<le> 7) ft8_check_deg"
    by (simp_all add: ft8_check_deg_def)
  moreover have "list_all (\<lambda>row. length row = 7) ft8_check_var_j" by (simp add: ft8_check_var_j_def)
  moreover have "length ft8_var_adj = 174" by (simp add: ft8_var_adj_def)
  ultimately show ?thesis
    using ft8_vars_ok by (simp add: tables_ok_def ft8_length_deg ft8_length_cv ft8_var_row_ok_def)
qed

lemma js8_length_deg: "length js8_check_deg = 87"
  by (simp add: js8_check_deg_def)

lemma js8_length_cv: "length js8_check_var_j = 87"
  by (simp add: js8_check_var_j_def)

definition js8_var_row_ok :: "nat \<Rightarrow> (nat \<times> nat) list \<Rightarrow> bool" where
  "js8_var_row_ok = var_row_ok js8_check_var_j js8_check_deg"

lemma js8_var_row_eval: "js8_var_row_ok n row \<longleftrightarrow> length row = 3 \<and> distinct (map fst row) \<and>
   list_all (\<lambda>(m, k). m < 87 \<and> k < js8_check_deg ! m \<and> slot (js8_check_var_j ! m) k = int n) row"
  by (simp add: js8_var_row_ok_def var_row_ok_def js8_length_deg)

lemma js8_vars_ok: "all_rows js8_var_row_ok 0 js8_var_adj"
  unfolding js8_var_adj_def
  by (simp add: js8_var_row_eval js8_cv_nth js8_deg_nth cong: nth_weak_cong all_rows_weak_cong)

lemma js8_tables_ok: "tables_ok js8_check_var_j js8_check_deg js8_var_adj"
proof -
  have "sum_list js8_check_deg = 522" "list_all (\<lambda>d. d \<le> 7) js8_check_deg"
    by (simp_all add: js8_check_deg_def)
  moreover have "list_all (\<lambda>row. length row = 7) js8_check_var_j" by (simp add: js8_check_var_j_def)
  moreover have "length js8_var_adj = 174" by (simp add: js8_var_adj_def)
  ultimately show ?thesis
    using js8_vars_ok by (simp add: tables_ok_def js8_length_deg js8_length_cv js8_var_row_ok_def)
qed

section \<open>Syndromes\<close>

lemma par_card: "par K f = odd (card {r. r < K \<and> f r})"
proof -
  have "(\<Sum>r<K. of_bool (f r) :: nat) = card {r. r < K \<and> f r}"
    by (induction K) (auto simp: less_Suc_eq Collect_disj_eq Collect_conv_if conj_disj_distribR
        intro: card_insert_disjoint [symmetric] simp flip: insert_is_Un)
  then show ?thesis by (simp add: par_def)
qed

lemma par_Suc_front: "par (Suc K) f = (f 0 \<noteq> par K (\<lambda>p. f (Suc p)))"
  by (induction K) auto

text \<open>The parity of check \<open>i\<close> over a word \<open>x\<close>, slot by slot as the decoders compute it.\<close>

definition check_parity :: "int list list \<Rightarrow> nat list \<Rightarrow> (nat \<Rightarrow> bool) \<Rightarrow> nat \<Rightarrow> bool" where
  "check_parity cv deg x i = par (deg ! i) (\<lambda>k. x (nat (cv ! i ! k)))"

lemma check_parity_columns:
  assumes ok: "tables_ok cv deg va" and i: "i < length cv"
  shows "check_parity cv deg x i = par 174 (\<lambda>p. x p \<and> i \<in> fst ` set (va ! p))"
proof -
  let ?v = "\<lambda>k. nat (cv ! i ! k)"
  have slot: "?v k < 174 \<and> (i, k) \<in> set (va ! ?v k)" if "k < deg ! i" for k
    using tables_slot [OF ok i that] by auto
  have uniq: "k = k'" if "n < 174" "(i, k) \<in> set (va ! n)" "(i, k') \<in> set (va ! n)" for n k k'
  proof -
    have "distinct (map fst (va ! n))"
      using ok that(1) all_rows_iff [of "var_row_ok cv deg" 0 va] by (simp add: tables_ok_def var_row_ok_def)
    then show ?thesis using that by (meson eq_key_imp_eq_value)
  qed
  have "bij_betw ?v {k. k < deg ! i \<and> x (?v k)} {p. p < 174 \<and> x p \<and> i \<in> fst ` set (va ! p)}"
  proof (rule bij_betw_imageI)
    show "inj_on ?v {k. k < deg ! i \<and> x (?v k)}"
      using slot uniq by (intro inj_onI) (metis (no_types, lifting) mem_Collect_eq)
    show "?v ` {k. k < deg ! i \<and> x (?v k)} = {p. p < 174 \<and> x p \<and> i \<in> fst ` set (va ! p)}"
    proof (intro equalityI subsetI)
      fix p assume p: "p \<in> {p. p < 174 \<and> x p \<and> i \<in> fst ` set (va ! p)}"
      then obtain k where k: "(i, k) \<in> set (va ! p)" by auto
      then have "k < deg ! i \<and> cv ! i ! k = int p" using tables_edge [OF ok, of p i k] p by simp
      then show "p \<in> ?v ` {k. k < deg ! i \<and> x (?v k)}" using p by (intro image_eqI [of _ _ k]) auto
    qed (use slot in \<open>force\<close>)
  qed
  then show ?thesis
    unfolding check_parity_def par_card by (simp add: bij_betw_same_card)
qed

text \<open>The checks of a variable as the bits of a number, and the syndrome of a word as their sum.\<close>

definition check_mask :: "(nat \<times> nat) list \<Rightarrow> int" where
  "check_mask row = foldr (\<lambda>(m, k) a. set_bit m a) row 0"

lemma bit_check_mask: "bit (check_mask row) i \<longleftrightarrow> i \<in> fst ` set row"
  by (induction row) (auto simp: check_mask_def bit_set_bit_iff)

fun syn_num :: "num \<Rightarrow> int list \<Rightarrow> int" where
  "syn_num n [] = 0"
| "syn_num num.One (h # hs) = h"
| "syn_num (num.Bit0 n) (h # hs) = syn_num n hs"
| "syn_num (num.Bit1 n) (h # hs) = h XOR syn_num n hs"

lemma syn_num_weak_cong: "n = m \<Longrightarrow> syn_num n hs = syn_num m hs"
  by simp

lemma bit_syn_num: "bit (syn_num n hs) i = par (length hs) (\<lambda>p. bit (numeral n :: int) p \<and> bit (hs ! p) i)"
proof (induction n hs rule: syn_num.induct)
  case (2 h hs)
  then show ?case by (simp add: par_Suc_front bit_1_iff del: par_Suc)
next
  case (3 n h hs)
  then show ?case by (simp add: par_Suc_front bit_numeral_Bit0_Suc_iff del: par_Suc)
next
  case (4 n h hs)
  then show ?case by (simp add: par_Suc_front bit_numeral_Bit1_Suc_iff bit_xor_iff del: par_Suc)
qed simp

text \<open>The column masks of the JS8 code, last column first.\<close>

definition js8_masks_rev :: "int list" where
  "js8_masks_rev =
    [0x100200200000000000, 0x401020000000000000, 0x20000008008000000000,
     0x202000000400000000000, 0x80080040000000000, 0x50000000010000000000,
     0x2000000004002000000000, 0x800000100080000000, 0x20000001020000000,
     0x80008000000004000000, 0x10800000001000000, 0x1000000002400000, 0x400000200200000,
     0x800000000020000100000, 0x8000000200000040000, 0x100000800020000, 0x4040010000,
     0x1000000000400004000, 0x8a000, 0x8100000800, 0x40000000010000400, 0x2040000000000100,
     0x8000280, 0x400000002000000000040, 0x10080000000010, 0x4000000080000000000008,
     0x4000000000000000024, 0x800003, 0x230000000000000000000, 0x40000040000000001000,
     0x400000020800000000000, 0x4000000202000000000000, 0x400001100000000000,
     0x8004000010000000000, 0x280000000400000000, 0x100000000080010000000,
     0x1000000002008000000, 0x1000000001000004000000, 0x8000020001000000,
     0x2000000000020800000, 0x2000000100400000, 0x208000200000, 0x400800000100000,
     0x2080000000000000020000, 0x800090000, 0x40040008000, 0x10000000000003000,
     0x100004000000000400, 0x4a00, 0x40008000000000100, 0x100000080000040, 0x10000002000020,
     0x4200000010, 0x800000800000000000008, 0x20000000000000084, 0x4001000000000000002,
     0x1000040001, 0x8000080400000000000, 0x40600000000000000, 0x800014000000000000,
     0x1008080000000000, 0x800000040002000000000, 0x2000800000400000000,
     0x200000000001100000000, 0x2020020000000, 0x24000000010000000, 0x100080000008000000,
     0x8084000000, 0x4080000000000002000000, 0x400200000000001000000, 0x40000000800000800000,
     0x1008000000000040000, 0x40000420000, 0x2000080000000000001000, 0x400200000800,
     0x400000000000010400, 0x2000000000080200, 0x800000000000004100, 0x200000100080,
     0x1000000002040, 0x1000000100000000000020, 0x10000100000000010, 0x20000000000800000008,
     0x20000040000004, 0x10000008002, 0x10000000004000000001, 0x104000800000000000000,
     0x40000088000000000000, 0x2010400000000000, 0x1000a0000000000, 0x100000000012000000000,
     0x2000000000001000200000, 0x800100000000040000000, 0x10200000000020000000,
     0x420000000000010000000, 0x2000000004004000000, 0x4000004000000000800000, 0x201400000,
     0x4000400080000, 0x40008000020000, 0x80800000000000010000, 0x2208000, 0x1002000000004000,
     0x100000040800, 0x80000800000000400, 0x8200000000000200, 0x8000001000000000100,
     0x400000000100000080, 0x4000000000008000040, 0x240000000020, 0x20000800000010,
     0x1000000000080000008, 0x200040000000000000004, 0x400000000001002, 0x102001,
     0x1000011000000000000000, 0x20a00000000000000, 0x1020001000000000000,
     0x300000000200000000000, 0x2000040000100000000000, 0x80000030000000000,
     0x600000002000000000, 0x4000000801000000000, 0x4004100000000, 0x4000010000000040000000,
     0x1000800000000020000000, 0x10000000000082000000, 0x20002000000000800000,
     0x8020000000200000, 0x8000400100000, 0x4000008000080000, 0x400000000060000, 0x18008000,
     0x80000004004000, 0x8000100000000001000, 0x80000010800, 0x2000000000000400400,
     0x400000000040000000200, 0x100000000800000100, 0x40000200000080, 0x80000000000000000050,
     0x2028, 0x40000000000001000004, 0x800000000400000000002, 0x12000000000001,
     0x20400400000000000000, 0x1000000000c00000000000, 0x80002000200000000000,
     0x402000000100000000000, 0x300004000000000, 0x4000000001000200000000, 0x60000020000000,
     0x28008000000, 0x2804000000, 0x8000000000402000000, 0x80000a00000, 0x800000000010100000,
     0x800040000000000080000, 0x8000040040000, 0x810000000020000, 0x20080000000010000,
     0x20000000000000000c000, 0x100000000000000401000, 0x14000000000000000800,
     0x8000000000002400, 0x10000010000000200, 0x41000000100, 0x2000000002000000000080,
     0x40000000000100000040, 0x204000000000000020, 0x1004000000000008, 0x80000000080000004,
     0x1000000000000000012, 0x100000000001000001]"

definition js8_row_ok :: "int \<Rightarrow> bool" where
  "js8_row_ok v = (\<exists>n. v = numeral n \<and> syn_num n js8_masks_rev = 0)"

lemma js8_row_ok_numeral: "js8_row_ok (numeral n) \<longleftrightarrow> syn_num n js8_masks_rev = 0"
  by (simp add: js8_row_ok_def)

lemma js8_masks_rev_eq: "js8_masks_rev = rev (map check_mask js8_var_adj)"
  by (simp add: js8_masks_rev_def js8_var_adj_def check_mask_def set_bit_eq)

lemmas syn_js8_masks = js8_masks_rev_def [THEN arg_cong, of "syn_num n" for n]

fun all_js8_ok :: "int list \<Rightarrow> bool" where
  "all_js8_ok [] = True"
| "all_js8_ok (v # vs) = (js8_row_ok v \<and> all_js8_ok vs)"

lemma all_js8_weak_cong: "all_js8_ok vs = all_js8_ok vs"
  by simp

lemma js8_gen_ok0: "all_js8_ok js8_gen_rows0"
  unfolding js8_gen_rows0_def
  by (simp add: js8_row_ok_numeral syn_js8_masks cong: syn_num_weak_cong all_js8_weak_cong)

lemma js8_gen_ok1: "all_js8_ok js8_gen_rows1"
  unfolding js8_gen_rows1_def
  by (simp add: js8_row_ok_numeral syn_js8_masks cong: syn_num_weak_cong all_js8_weak_cong)

lemma js8_gen_ok2: "all_js8_ok js8_gen_rows2"
  unfolding js8_gen_rows2_def
  by (simp add: js8_row_ok_numeral syn_js8_masks cong: syn_num_weak_cong all_js8_weak_cong)

lemma js8_gen_ok3: "all_js8_ok js8_gen_rows3"
  unfolding js8_gen_rows3_def
  by (simp add: js8_row_ok_numeral syn_js8_masks cong: syn_num_weak_cong all_js8_weak_cong)

lemma all_js8_ok_iff: "all_js8_ok vs \<longleftrightarrow> (\<forall>v\<in>set vs. js8_row_ok v)"
  by (induction vs) simp_all

lemma js8_gen_ok: "v \<in> set js8_gen_rows \<Longrightarrow> js8_row_ok v"
  using js8_gen_ok0 js8_gen_ok1 js8_gen_ok2 js8_gen_ok3
  unfolding js8_gen_rows_def all_js8_ok_iff by auto

lemma length_js8_gen_rows: "length js8_gen_rows = 87"
  by (simp add: js8_gen_rows_def js8_gen_rows0_def js8_gen_rows1_def js8_gen_rows2_def js8_gen_rows3_def)

section \<open>The JS8 generator\<close>

text \<open>Columns 87 to 173 are the identity.\<close>

definition sys_ok :: "nat \<Rightarrow> int \<Rightarrow> bool" where
  "sys_ok r v = (take_bit 87 v = 2 ^ (86 - r))"

lemma js8_gen_sys:
  "all_rows sys_ok 0 js8_gen_rows0" "all_rows sys_ok 22 js8_gen_rows1"
  "all_rows sys_ok 44 js8_gen_rows2" "all_rows sys_ok 66 js8_gen_rows3"
  unfolding js8_gen_rows0_def js8_gen_rows1_def js8_gen_rows2_def js8_gen_rows3_def
  by (simp_all add: sys_ok_def cong: all_rows_weak_cong)

lemma all_rows_append: "all_rows P n (xs @ ys) \<longleftrightarrow> all_rows P n xs \<and> all_rows P (n + length xs) ys"
  by (induction xs arbitrary: n) simp_all

lemma js8_gen_systematic: "r < 87 \<Longrightarrow> take_bit 87 (js8_gen_rows ! r) = 2 ^ (86 - r)"
proof -
  assume r: "r < 87"
  have "length js8_gen_rows0 = 22" "length js8_gen_rows1 = 22" "length js8_gen_rows2 = 22"
    by (simp_all add: js8_gen_rows0_def js8_gen_rows1_def js8_gen_rows2_def)
  then have "all_rows sys_ok 0 js8_gen_rows"
    using js8_gen_sys by (simp add: js8_gen_rows_def all_rows_append)
  then show ?thesis using r by (simp add: all_rows_iff length_js8_gen_rows sys_ok_def)
qed

lemma g_js8_gen_nth:
  "r < 87 \<Longrightarrow> p < 174 \<Longrightarrow> gmat g_js8_gen r p = bit (js8_gen_rows ! r) (173 - p)"
proof -
  assume rp: "r < 87" "p < 174"
  have "g_js8_gen = concat (map (\<lambda>i. map byte_of_bool (bits_msb 174 (js8_gen_rows ! i))) [0..<87])"
    unfolding g_js8_gen_def using map_nth [of js8_gen_rows]
    by (metis (no_types, lifting) length_js8_gen_rows map_map comp_apply map_cong)
  then have "g_js8_gen ! (r * 174 + p) = map byte_of_bool (bits_msb 174 (js8_gen_rows ! r)) ! p"
    using nth_concat_rows [of 87 "\<lambda>i. map byte_of_bool (bits_msb 174 (js8_gen_rows ! i))" 174 r p] rp
    by (simp add: bits_msb_def)
  then show ?thesis using rp by (simp add: gmat_def osd_N_def bits_msb_def)
qed

lemma js8_full_rank: "full_rank 87 g_js8_gen"
  unfolding full_rank_def indep_def
proof (intro allI impI)
  fix ms assume "some_row 87 ms"
  then obtain i where i: "i < 87" "ms i" unfolding some_row_def by blast
  have "gmat g_js8_gen r (87 + i) = (r = i)" if "r < 87" for r
  proof -
    have "gmat g_js8_gen r (87 + i) = bit (take_bit 87 (js8_gen_rows ! r)) (86 - i)"
      using that i(1) by (simp add: g_js8_gen_nth bit_take_bit_iff)
    then show ?thesis using that i(1) by (auto simp: js8_gen_systematic bit_exp_iff)
  qed
  then have "comb 87 (gmat g_js8_gen) ms (87 + i) = par 87 (\<lambda>r. r = i \<and> ms r)"
    unfolding comb_def by (intro par_cong) auto
  then show "\<exists>p<osd_N. comb 87 (gmat g_js8_gen) ms p"
    using i by (intro exI [of _ "87 + i"]) (simp add: par_single osd_N_def)
qed

lemma length_js8_var_adj: "length js8_var_adj = 174"
  using js8_tables_ok by (simp add: tables_ok_def)

text \<open>Every generator row satisfies every parity check, and so does every word of its code.\<close>

lemma js8_gen_row_checks:
  assumes "r < 87" and "i < 87"
  shows "\<not> check_parity js8_check_var_j js8_check_deg (gmat g_js8_gen r) i"
proof -
  have "js8_row_ok (js8_gen_rows ! r)"
    using assms(1) by (intro js8_gen_ok nth_mem) (simp add: length_js8_gen_rows)
  then obtain n where n: "js8_gen_rows ! r = numeral n" "syn_num n js8_masks_rev = 0"
    unfolding js8_row_ok_def by blast
  have "length js8_masks_rev = 174" by (simp add: js8_masks_rev_eq length_js8_var_adj)
  then have "\<not> par 174 (\<lambda>p. bit (js8_gen_rows ! r) p \<and> bit (js8_masks_rev ! p) i)"
    using bit_syn_num [of n js8_masks_rev i] n by simp
  moreover have "par 174 (\<lambda>p. bit (js8_gen_rows ! r) p \<and> bit (js8_masks_rev ! p) i)
      = par 174 (\<lambda>p. bit (js8_gen_rows ! r) p \<and> i \<in> fst ` set (js8_var_adj ! (173 - p)))"
    by (intro par_cong) (simp add: js8_masks_rev_eq length_js8_var_adj rev_nth bit_check_mask)
  ultimately have "\<not> par 174 (\<lambda>p. bit (js8_gen_rows ! r) p \<and> i \<in> fst ` set (js8_var_adj ! (173 - p)))"
    by simp
  moreover have "par 174 (\<lambda>p. bit (js8_gen_rows ! r) p \<and> i \<in> fst ` set (js8_var_adj ! (173 - p)))
      = par 174 (\<lambda>p. bit (js8_gen_rows ! r) (173 - p) \<and> i \<in> fst ` set (js8_var_adj ! p))"
    unfolding par_def
    by (intro arg_cong [where f = odd] sum.reindex_bij_witness [of _ "\<lambda>p. 173 - p" "\<lambda>p. 173 - p"]) auto
  moreover have "\<dots> = par 174 (\<lambda>p. gmat g_js8_gen r p \<and> i \<in> fst ` set (js8_var_adj ! p))"
    using assms(1) by (intro par_cong) (simp add: g_js8_gen_nth)
  ultimately show ?thesis
    using check_parity_columns [OF js8_tables_ok, of i "gmat g_js8_gen r"] assms(2) by (simp add: js8_length_cv)
qed

lemma check_parity_comb:
  "check_parity cv deg (comb K A ms) i = par K (\<lambda>r. ms r \<and> check_parity cv deg (A r) i)"
proof -
  have "par D (\<lambda>k. par K (\<lambda>r. ms r \<and> A r (v k))) = par K (\<lambda>r. ms r \<and> par D (\<lambda>k. A r (v k)))" for D v
  proof (induction D)
    case (Suc D)
    show ?case
      unfolding par_Suc Suc.IH by (simp only: par_neq [symmetric]) (rule par_cong, blast)
  qed simp
  then show ?thesis unfolding check_parity_def comb_def .
qed

end
