(* ===== verification/Ldpc.thy ===== *)
theory Ldpc
  imports LdpcTables
begin

text \<open>
  The LDPC decoders: the flooded sum-product kernels \<open>sp_flooded_ft8_kernel\<close> and
  \<open>sp_flooded_js8_kernel\<close> (one GPU block per candidate, the phases separated by
  \<open>__syncthreads\<close>; within a phase every thread writes cells no other thread of the phase
  reads, so a phase is one map over the cells), their batch launchers, and the CPU decoder
  \<open>js8_ldpc_decode_cpu\<close>.  The library functions \<open>sqrtf\<close>, \<open>logf\<close>, \<open>tanhf\<close>, \<open>atanhf\<close> are the
  fields of \<open>fmath\<close>; sums and products are rounded one by one, without fused multiply-add.

  The lemmas show that a word reported with parity true satisfies every parity check and is
  not all zero, that every JS8 generator row and hence every ordered-statistics result is a
  word of the code, and what sign the check-node update gives to a message.
\<close>

record ldpc_code =
  check_var_j :: "int list list"
  check_deg :: "nat list"
  var_adj :: "(nat \<times> nat) list list"

definition ft8_code :: ldpc_code where
  "ft8_code = \<lparr>check_var_j = ft8_check_var_j, check_deg = ft8_check_deg, var_adj = ft8_var_adj\<rparr>"

definition js8_code :: ldpc_code where
  "js8_code = \<lparr>check_var_j = js8_check_var_j, check_deg = js8_check_deg, var_adj = js8_var_adj\<rparr>"

record fmath =
  m_sqrt :: "f32 \<Rightarrow> f32"
  m_log :: "f32 \<Rightarrow> f32"
  m_tanh :: "f32 \<Rightarrow> f32"
  m_atanh :: "f32 \<Rightarrow> f32"

definition D_MAX :: nat where "D_MAX = 7"
definition SP_MAX_ITER :: nat where "SP_MAX_ITER = 50"
definition BP_MAX_ITER :: nat where "BP_MAX_ITER = 25"

section \<open>The flooded sum-product kernel\<close>

text \<open>Normalisation to variance 24.\<close>

definition llr_sums :: "f32 list \<Rightarrow> f32 \<times> f32" where
  "llr_sums llr = foldl (\<lambda>(sum, sum2) v. (fadd sum v, fadd sum2 (fmul v v))) (0, 0) llr"

definition sp_scale :: "fmath \<Rightarrow> f32 list \<Rightarrow> f32" where
  "sp_scale fm llr =
     (let (sum, sum2) = llr_sums llr;
          inv_n = fdiv 1 174;
          var = fmul (fsub sum2 (fmul (fmul sum sum) inv_n)) inv_n
      in if var > r32 (1 / 1000000) then m_sqrt fm (fdiv 24 var) else 1)"

definition sp_phi :: "fmath \<Rightarrow> f32 \<Rightarrow> f32" where
  "sp_phi fm a = - m_log fm (m_tanh fm (fmul a (1 / 2)))"

definition sp_tiny :: f32 where "sp_tiny = r32 (1 / 1000000000)"

definition sp_sign :: "nat \<Rightarrow> f32" where
  "sp_sign neg_excl = (if neg_excl mod 2 = 0 then 1 else -1)"

text \<open>Phase 1, thread \<open>m\<close>: the messages of check \<open>m\<close>.\<close>

definition sp_v2c :: "ldpc_code \<Rightarrow> f32 list \<Rightarrow> f32 list \<Rightarrow> nat \<Rightarrow> nat \<Rightarrow> f32" where
  "sp_v2c code L c2v m k = fsub (L ! nat (check_var_j code ! m ! k)) (c2v ! (m * D_MAX + k))"

definition sp_neg_vals :: "ldpc_code \<Rightarrow> f32 list \<Rightarrow> f32 list \<Rightarrow> nat \<Rightarrow> nat list" where
  "sp_neg_vals code L c2v m = map (\<lambda>k. if sp_v2c code L c2v m k < 0 then 1 else 0) [0..<check_deg code ! m]"

definition sp_neg_excl :: "ldpc_code \<Rightarrow> f32 list \<Rightarrow> f32 list \<Rightarrow> nat \<Rightarrow> nat \<Rightarrow> nat" where
  "sp_neg_excl code L c2v m k =
     (let neg_vals = sp_neg_vals code L c2v m in foldl (+) 0 neg_vals - neg_vals ! k)"

definition sp_check_thread :: "ldpc_code \<Rightarrow> fmath \<Rightarrow> f32 list \<Rightarrow> f32 list \<Rightarrow> nat \<Rightarrow> f32 list" where
  "sp_check_thread code fm L c2v m =
     (let d = check_deg code ! m;
          v2c = map (sp_v2c code L c2v m) [0..<d];
          phi_vals = map (\<lambda>v. sp_phi fm (max \<bar>v\<bar> sp_tiny)) v2c;
          phi_total = foldl fadd 0 phi_vals
      in map (\<lambda>k. max (-20) (min 20 (fmul (sp_sign (sp_neg_excl code L c2v m k))
                 (sp_phi fm (max (fsub phi_total (phi_vals ! k)) sp_tiny))))) [0..<d])"

definition sp_phase1 :: "ldpc_code \<Rightarrow> fmath \<Rightarrow> f32 list \<Rightarrow> f32 list \<Rightarrow> f32 list" where
  "sp_phase1 code fm L c2v =
     concat (map (\<lambda>m. let new = sp_check_thread code fm L c2v m
                      in new @ drop (length new) (take D_MAX (drop (m * D_MAX) c2v)))
       [0..<length (check_var_j code)])"

text \<open>Phase 2, thread \<open>n\<close>: the total of variable \<open>n\<close>.\<close>

definition sp_phase2 :: "ldpc_code \<Rightarrow> f32 list \<Rightarrow> f32 \<Rightarrow> f32 list \<Rightarrow> f32 list" where
  "sp_phase2 code llr scale c2v =
     map (\<lambda>n. let edge = (\<lambda>e. let (m, k) = var_adj code ! n ! e in c2v ! (m * D_MAX + k))
              in fadd (fadd (fadd (fmul (llr ! n) scale) (edge 0)) (edge 1)) (edge 2)) [0..<osd_N]"

text \<open>Phase 3: hard-decision parity with the all-zeros guard.\<close>

definition sp_row_sum :: "ldpc_code \<Rightarrow> f32 list \<Rightarrow> nat \<Rightarrow> nat" where
  "sp_row_sum code L i =
     foldl (\<lambda>s k. s + (if 0 < L ! nat (check_var_j code ! i ! k) then 1 else 0)) 0 [0..<check_deg code ! i]"

definition sp_phase3 :: "ldpc_code \<Rightarrow> f32 list \<Rightarrow> bool" where
  "sp_phase3 code L =
     (let plain_sum = foldl (\<lambda>s j. s + (if 0 < L ! j then 1 else 0)) (0 :: nat) [0..<osd_N]
      in 0 < plain_sum \<and>
         list_all (\<lambda>i. sp_row_sum code L i mod 2 = 0) [0..<length (check_var_j code)])"

text \<open>The iteration, with the number of iterations left.\<close>

fun sp_loop :: "ldpc_code \<Rightarrow> fmath \<Rightarrow> f32 list \<Rightarrow> f32 \<Rightarrow> nat \<Rightarrow> f32 list \<Rightarrow> f32 list \<Rightarrow> f32 list \<times> bool" where
  "sp_loop code fm llr scale 0 L c2v = (L, False)"
| "sp_loop code fm llr scale (Suc it) L c2v =
     (let c2v' = sp_phase1 code fm L c2v;
          L' = sp_phase2 code llr scale c2v'
      in if sp_phase3 code L' then (L', True) else sp_loop code fm llr scale it L' c2v')"

definition hard_bits :: "f32 list \<Rightarrow> u8 list" where
  "hard_bits L = map (\<lambda>v. if 0 < v then 1 else 0) L"

definition sp_flooded_kernel :: "ldpc_code \<Rightarrow> fmath \<Rightarrow> nat \<Rightarrow> f32 list \<Rightarrow> u8 list \<times> bool" where
  "sp_flooded_kernel code fm max_iter llr =
     (let scale = sp_scale fm llr;
          L = map (\<lambda>v. fmul v scale) llr;
          c2v = replicate (length (check_var_j code) * D_MAX) 0;
          (L', ok) = sp_loop code fm llr scale max_iter L c2v
      in (hard_bits L', ok))"

definition sp_flooded_ft8_kernel :: "fmath \<Rightarrow> nat \<Rightarrow> f32 list \<Rightarrow> u8 list \<times> bool" where
  "sp_flooded_ft8_kernel = sp_flooded_kernel ft8_code"

definition sp_flooded_js8_kernel :: "fmath \<Rightarrow> nat \<Rightarrow> f32 list \<Rightarrow> u8 list \<times> bool" where
  "sp_flooded_js8_kernel = sp_flooded_kernel js8_code"

text \<open>
  The batch launchers overwrite one result per decoded candidate; the grid of the JS8 launcher
  has \<open>max_cands\<close> blocks, of which those at or beyond the device-side count return at once.
\<close>

definition store_results :: "nat \<Rightarrow> (nat \<Rightarrow> 'a) \<Rightarrow> 'a list \<Rightarrow> 'a list" where
  "store_results n f out = map (\<lambda>b. if b < n then f b else out ! b) [0..<length out]"

definition ft8_sp_flooded_decode_batch ::
  "fmath \<Rightarrow> nat \<Rightarrow> f32 list list \<Rightarrow> (u8 list \<times> bool) list \<Rightarrow> (u8 list \<times> bool) list" where
  "ft8_sp_flooded_decode_batch fm n_candidates log174 out =
     (if n_candidates = 0 then out
      else store_results n_candidates (\<lambda>b. sp_flooded_ft8_kernel fm SP_MAX_ITER (log174 ! b)) out)"

definition js8_sp_flooded_decode_batch ::
  "fmath \<Rightarrow> nat \<Rightarrow> nat \<Rightarrow> f32 list list \<Rightarrow> (u8 list \<times> bool) list \<Rightarrow> (u8 list \<times> bool) list" where
  "js8_sp_flooded_decode_batch fm cand_count max_cands log174 out =
     (if max_cands = 0 then out
      else store_results (min cand_count max_cands)
             (\<lambda>b. sp_flooded_js8_kernel fm SP_MAX_ITER (log174 ! b)) out)"

section \<open>The CPU decoder\<close>

definition cpu_eps :: f32 where "cpu_eps = r32 (1 / 10000000)"

definition cpu_total :: "f32 list \<Rightarrow> f32 list list \<Rightarrow> f32 list" where
  "cpu_total sx stov =
     map (\<lambda>n. foldl (\<lambda>tot e. let (m, k) = js8_var_adj ! n ! e in fadd tot (stov ! m ! k)) (sx ! n) [0..<3])
       [0..<osd_N]"

text \<open>The hard-decision check of the CPU decoder, by exclusive or.\<close>

definition cpu_row_p :: "f32 list \<Rightarrow> nat \<Rightarrow> bool" where
  "cpu_row_p stotal i =
     foldl (\<lambda>row_p k. row_p \<noteq> (0 < stotal ! nat (js8_check_var_j ! i ! k))) False [0..<js8_check_deg ! i]"

definition cpu_parity :: "f32 list \<Rightarrow> bool" where
  "cpu_parity stotal =
     (let ones = foldl (\<lambda>s n. s + (if 0 < stotal ! n then 1 else 0)) (0 :: nat) [0..<osd_N]
      in 0 < ones \<and> list_all (\<lambda>i. \<not> cpu_row_p stotal i) [0..<87])"

definition cpu_v2c :: "fmath \<Rightarrow> f32 list \<Rightarrow> f32 list list \<Rightarrow> f32 list list \<Rightarrow> f32 list list" where
  "cpu_v2c fm stotal stov stoc =
     foldl (\<lambda>stoc (n, e). let (ci, sk) = js8_var_adj ! n ! e; ext = fsub (stotal ! n) (stov ! ci ! sk)
               in stoc[ci := (stoc ! ci)[sk := m_tanh fm (fmul (- ext) (1 / 2))]])
       stoc (concat (map (\<lambda>n. map (Pair n) [0..<3]) [0..<osd_N]))"

fun prefix_products :: "f32 \<Rightarrow> f32 list \<Rightarrow> f32 list" where
  "prefix_products p [] = [p]"
| "prefix_products p (x # xs) = p # prefix_products (fmul p x) xs"

definition suffix_products :: "f32 list \<Rightarrow> f32 list" where
  "suffix_products xs = rev (prefix_products 1 (rev xs))"

definition cpu_c2v :: "fmath \<Rightarrow> f32 list list \<Rightarrow> f32 list list \<Rightarrow> f32 list list" where
  "cpu_c2v fm stoc stov =
     map (\<lambda>m. let d = js8_check_deg ! m;
                  pref = prefix_products 1 (take d (stoc ! m));
                  suf = suffix_products (take d (stoc ! m))
              in map (\<lambda>k. fmul (-2) (m_atanh fm (max (fadd (-1) cpu_eps)
                        (min (fsub 1 cpu_eps) (fmul (pref ! k) (suf ! (k + 1))))))) [0..<d]
                 @ drop d (stov ! m)) [0..<87]"

text \<open>The arrays \<open>stoc\<close> and \<open>stotal\<close> are uninitialised in the code: the arguments of that name.\<close>

fun cpu_loop :: "fmath \<Rightarrow> f32 list \<Rightarrow> nat \<Rightarrow> f32 list list \<Rightarrow> f32 list list \<Rightarrow> f32 list \<Rightarrow> bool \<times> u8 list" where
  "cpu_loop fm sx 0 stov stoc stotal = (False, hard_bits stotal)"
| "cpu_loop fm sx (Suc it) stov stoc stotal =
     (let stotal = cpu_total sx stov
      in if cpu_parity stotal then (True, hard_bits stotal)
         else let stoc = cpu_v2c fm stotal stov stoc
              in cpu_loop fm sx it (cpu_c2v fm stoc stov) stoc stotal)"

definition js8_ldpc_decode_cpu :: "fmath \<Rightarrow> f32 list list \<Rightarrow> f32 list \<Rightarrow> f32 list \<Rightarrow> bool \<times> u8 list" where
  "js8_ldpc_decode_cpu fm stoc stotal llr =
     (let scale = sp_scale fm llr
      in cpu_loop fm (map (\<lambda>v. fmul v scale) llr) BP_MAX_ITER (replicate 87 (replicate D_MAX 0)) stoc stotal)"

section \<open>Words of the code\<close>

text \<open>All checks even, read off the columns (variables) of the parity-check matrix.\<close>

definition ldpc_word :: "ldpc_code \<Rightarrow> u8 list \<Rightarrow> bool" where
  "ldpc_word code xs \<longleftrightarrow> length xs = 174 \<and>
     (\<forall>i<length (check_var_j code).
        even (card {p. p < 174 \<and> xs ! p \<noteq> 0 \<and> i \<in> fst ` set (var_adj code ! p)}))"

definition code_ok :: "ldpc_code \<Rightarrow> bool" where
  "code_ok code = tables_ok (check_var_j code) (check_deg code) (var_adj code)"

lemma ft8_code_ok [simp]: "code_ok ft8_code" and js8_code_ok [simp]: "code_ok js8_code"
  by (simp_all add: code_ok_def ft8_code_def js8_code_def ft8_tables_ok js8_tables_ok)

lemma ldpc_word_parity:
  assumes "code_ok code" and "length xs = 174"
  shows "ldpc_word code xs \<longleftrightarrow>
    (\<forall>i<length (check_var_j code). \<not> check_parity (check_var_j code) (check_deg code) (\<lambda>p. xs ! p \<noteq> 0) i)"
  using assms check_parity_columns [of "check_var_j code" "check_deg code" "var_adj code"]
  by (simp add: ldpc_word_def code_ok_def par_card)

lemma foldl_count: "foldl (\<lambda>s k. s + (if P k then 1 else 0)) (0 :: nat) [0..<n] = (\<Sum>k<n. of_bool (P k))"
  by (induction n) simp_all

lemma sp_row_sum_parity:
  "sp_row_sum code L i mod 2 = 0 \<longleftrightarrow> \<not> check_parity (check_var_j code) (check_deg code) (\<lambda>p. 0 < L ! p) i"
  by (simp add: sp_row_sum_def foldl_count check_parity_def par_def even_iff_mod_2_eq_zero)

lemma cpu_row_p_parity:
  "cpu_row_p stotal i = check_parity js8_check_var_j js8_check_deg (\<lambda>p. 0 < stotal ! p) i"
proof -
  have "foldl (\<lambda>b k. b \<noteq> P k) False [0..<n] = par n P" for P n by (induction n) simp_all
  then show ?thesis by (simp add: cpu_row_p_def check_parity_def)
qed

lemma check_parity_cong:
  assumes "code_ok code" and "i < length (check_var_j code)" and "\<And>p. p < 174 \<Longrightarrow> x p = y p"
  shows "check_parity (check_var_j code) (check_deg code) x i = check_parity (check_var_j code) (check_deg code) y i"
  using assms check_parity_columns [of "check_var_j code" "check_deg code" "var_adj code" i]
  by (simp add: code_ok_def cong: par_cong)

lemma sp_phase3_word:
  assumes "code_ok code" and "length L = 174"
  shows "sp_phase3 code L \<longleftrightarrow> ldpc_word code (hard_bits L) \<and> (\<exists>p<174. 0 < L ! p)"
proof -
  have "ldpc_word code (hard_bits L) \<longleftrightarrow>
      list_all (\<lambda>i. sp_row_sum code L i mod 2 = 0) [0..<length (check_var_j code)]"
    using assms check_parity_cong [OF assms(1), of _ "\<lambda>p. hard_bits L ! p \<noteq> 0" "\<lambda>p. 0 < L ! p"]
    by (auto simp: ldpc_word_parity sp_row_sum_parity list_all_iff hard_bits_def)
  moreover have "0 < (\<Sum>k<174. of_bool (0 < L ! k) :: nat) \<longleftrightarrow> (\<exists>p<174. 0 < L ! p)"
    by (auto simp: card_gt_0_iff)
  ultimately show ?thesis by (simp only: sp_phase3_def foldl_count Let_def osd_N_def) blast
qed

lemma cpu_parity_phase3: "cpu_parity stotal = sp_phase3 js8_code stotal"
  unfolding cpu_parity_def sp_phase3_def sp_row_sum_parity cpu_row_p_parity
  by (simp add: js8_code_def js8_length_cv list_all_iff)

section \<open>The parity gate\<close>

lemma sp_loop_True:
  "code_ok code \<Longrightarrow> sp_loop code fm llr scale it L c2v = (L', True) \<Longrightarrow>
     ldpc_word code (hard_bits L') \<and> (\<exists>p<174. hard_bits L' ! p \<noteq> 0)"
proof (induction it arbitrary: L c2v)
  case (Suc it)
  let ?L = "sp_phase2 code llr scale (sp_phase1 code fm L c2v)"
  have len: "length ?L = 174" by (simp add: sp_phase2_def osd_N_def)
  show ?case
  proof (cases "sp_phase3 code ?L")
    case True
    then have "L' = ?L" using Suc.prems by (simp add: Let_def)
    then show ?thesis using True sp_phase3_word [OF Suc.prems(1) len] len by (auto simp: hard_bits_def)
  next
    case False
    then show ?thesis using Suc by (simp add: Let_def)
  qed
qed simp

lemma cpu_loop_True:
  "cpu_loop fm sx it stov stoc stotal = (True, xs) \<Longrightarrow>
     ldpc_word js8_code xs \<and> (\<exists>p<174. xs ! p \<noteq> 0)"
proof (induction it arbitrary: stov stoc stotal)
  case (Suc it)
  let ?L = "cpu_total sx stov"
  have len: "length ?L = 174" by (simp add: cpu_total_def osd_N_def)
  show ?case
  proof (cases "cpu_parity ?L")
    case True
    then have "xs = hard_bits ?L" using Suc.prems by (simp add: Let_def)
    then show ?thesis
      using True sp_phase3_word [OF js8_code_ok len] len by (auto simp: hard_bits_def cpu_parity_phase3)
  next
    case False
    then show ?thesis using Suc.prems Suc.IH by (simp add: Let_def)
  qed
qed simp

text \<open>
  C35. A word that either GPU kernel reports with parity true has 174 bits, satisfies every
  parity check of its code (column by column), and is not the all-zero word.
\<close>

theorem sp_flooded_gate:
  assumes "code \<in> {ft8_code, js8_code}" and "sp_flooded_kernel code fm max_iter llr = (xs, True)"
  shows "ldpc_word code xs \<and> (\<exists>p<174. xs ! p \<noteq> 0)"
  using assms sp_loop_True [of code] by (auto simp: sp_flooded_kernel_def Let_def split: prod.splits)

text \<open>
  When the CPU decoder returns true, its word satisfies every parity check of the JS8 code
  and is not the all-zero word.
\<close>

theorem js8_cpu_gate:
  assumes "js8_ldpc_decode_cpu fm stoc stotal llr = (True, xs)"
  shows "ldpc_word js8_code xs \<and> (\<exists>p<174. xs ! p \<noteq> 0)"
  using assms by (auto simp: js8_ldpc_decode_cpu_def Let_def dest: cpu_loop_True)

text \<open>
  Two concrete runs: with a constant logarithm all messages are 0, and a word of the code comes
  back after one iteration.
\<close>

definition flat_math :: fmath where
  "flat_math = \<lparr>m_sqrt = (\<lambda>_. 1), m_log = (\<lambda>_. 0), m_tanh = (\<lambda>x. x), m_atanh = (\<lambda>_. 0)\<rparr>"

definition llr_of_bits :: "u8 list \<Rightarrow> f32 list" where
  "llr_of_bits xs = map (\<lambda>b. if b \<noteq> 0 then 1 else -1) xs"

lemma r32_unit [simp]: "r32 1 = 1" "r32 (-1) = -1"
  using r32_int [of 1] r32_int [of "-1"] by simp_all

lemma flat_scale [simp]: "sp_scale flat_math llr = 1"
  by (simp add: sp_scale_def flat_math_def Let_def split: prod.splits)

lemma flat_check_thread: "sp_check_thread code flat_math L c2v m = replicate (check_deg code ! m) 0"
proof -
  have "sp_phi flat_math x = 0" for x by (simp add: sp_phi_def flat_math_def)
  then show ?thesis by (simp add: sp_check_thread_def fmul_def map_replicate_const)
qed

lemma flat_phase1:
  assumes "code_ok code" and "M = length (check_var_j code)"
  shows "sp_phase1 code flat_math L (replicate (M * D_MAX) 0) = replicate (M * D_MAX) 0"
proof -
  have row: "(let new = sp_check_thread code flat_math L (replicate (M * D_MAX) 0) m
      in new @ drop (length new) (take D_MAX (drop (m * D_MAX) (replicate (M * D_MAX) 0)))) = replicate D_MAX 0"
    if "m < M" for m
  proof -
    have "check_deg code ! m \<le> 7"
      using assms that by (auto simp: code_ok_def tables_ok_def list_all_length)
    moreover have "D_MAX \<le> M * D_MAX - m * D_MAX"
      using that by (cases M) (auto simp: D_MAX_def)
    ultimately show ?thesis
      by (simp add: flat_check_thread D_MAX_def min_def replicate_add [symmetric])
  qed
  have "concat (map (\<lambda>m. replicate D_MAX (0 :: f32)) [0..<n]) = replicate (n * D_MAX) 0" for n
    by (induction n) (simp_all add: replicate_add [symmetric] add.commute)
  moreover have "sp_phase1 code flat_math L (replicate (M * D_MAX) 0)
      = concat (map (\<lambda>m. replicate D_MAX 0) [0..<M])"
    unfolding sp_phase1_def assms(2) [symmetric]
    by (intro arg_cong [where f = concat] map_cong refl row) simp
  ultimately show ?thesis by simp
qed

lemma zero_edge:
  assumes "code_ok code" and "n < 174" and "e < 3" and "var_adj code ! n ! e = (m, k)"
  shows "m < length (check_var_j code) \<and> k < D_MAX"
proof -
  have ok: "tables_ok (check_var_j code) (check_deg code) (var_adj code)" using assms(1) by (simp add: code_ok_def)
  then have "length (var_adj code ! n) = 3"
    using assms(2) all_rows_iff [of "var_row_ok (check_var_j code) (check_deg code)" 0 "var_adj code"]
    by (simp add: tables_ok_def var_row_ok_def)
  then have "(m, k) \<in> set (var_adj code ! n)" using assms(3,4) by (metis nth_mem)
  then have "m < length (check_var_j code) \<and> k < check_deg code ! m"
    using tables_edge [OF ok assms(2)] by blast
  moreover have "check_deg code ! m \<le> 7" using ok calculation by (auto simp: tables_ok_def list_all_length)
  ultimately show ?thesis by (simp add: D_MAX_def)
qed

lemma flat_phase2:
  assumes "code_ok code" and "length xs = 174" and "M = length (check_var_j code)"
  shows "sp_phase2 code (llr_of_bits xs) 1 (replicate (M * D_MAX) 0) = llr_of_bits xs"
proof (rule nth_equalityI)
  fix n assume "n < length (sp_phase2 code (llr_of_bits xs) 1 (replicate (M * D_MAX) 0))"
  then have n: "n < 174" by (simp add: sp_phase2_def osd_N_def)
  have "(let (m, k) = var_adj code ! n ! e in replicate (M * D_MAX) (0 :: f32) ! (m * D_MAX + k)) = 0"
    if "e < 3" for e
  proof -
    obtain m k where mk: "var_adj code ! n ! e = (m, k)" by fastforce
    then have "m < M \<and> k < D_MAX" using zero_edge [OF assms(1) n that mk] assms(3) by simp
    then have "m * D_MAX + k < M * D_MAX"
      using mult_le_mono1 [of "Suc m" M D_MAX] by simp
    then show ?thesis by (simp add: mk)
  qed
  from this [of 0] this [of 1] this [of 2]
  show "sp_phase2 code (llr_of_bits xs) 1 (replicate (M * D_MAX) 0) ! n = llr_of_bits xs ! n"
    using n assms(2) by (simp add: sp_phase2_def osd_N_def llr_of_bits_def fadd_def fmul_def)
qed (simp add: sp_phase2_def osd_N_def llr_of_bits_def assms(2))

lemma hard_llr_of_bits: "set xs \<subseteq> {0, 1} \<Longrightarrow> hard_bits (llr_of_bits xs) = xs"
  by (induction xs) (auto simp: hard_bits_def llr_of_bits_def)

lemma flat_kernel:
  assumes "code_ok code" and "ldpc_word code xs" and "set xs \<subseteq> {0, 1}" and "p < 174" and "xs ! p \<noteq> 0"
  shows "sp_flooded_kernel code flat_math (Suc it) (llr_of_bits xs) = (xs, True)"
proof -
  have len: "length xs = 174" using assms(2) by (simp add: ldpc_word_def)
  have "0 < llr_of_bits xs ! p" using assms(4,5) len by (simp add: llr_of_bits_def)
  then have "sp_phase3 code (llr_of_bits xs)"
    using sp_phase3_word [OF assms(1), of "llr_of_bits xs"] assms(2,4) hard_llr_of_bits [OF assms(3)] len
    by (auto simp: llr_of_bits_def)
  moreover have "map (\<lambda>v. fmul v 1) (llr_of_bits xs) = llr_of_bits xs"
    by (simp add: llr_of_bits_def fmul_def)
  ultimately show ?thesis
    by (simp add: sp_flooded_kernel_def Let_def flat_phase1 [OF assms(1) refl]
        flat_phase2 [OF assms(1) len refl] hard_llr_of_bits [OF assms(3)])
qed

lemma flat_cpu:
  assumes "ldpc_word js8_code xs" and "set xs \<subseteq> {0, 1}" and "p < 174" and "xs ! p \<noteq> 0"
  shows "js8_ldpc_decode_cpu flat_math stoc stotal (llr_of_bits xs) = (True, xs)"
proof -
  have len: "length xs = 174" using assms(1) by (simp add: ldpc_word_def)
  have "0 < llr_of_bits xs ! p" using assms(3,4) len by (simp add: llr_of_bits_def)
  then have "cpu_parity (llr_of_bits xs)"
    using sp_phase3_word [OF js8_code_ok, of "llr_of_bits xs"] assms(1,3) hard_llr_of_bits [OF assms(2)] len
    by (auto simp: llr_of_bits_def cpu_parity_phase3)
  moreover have "map (\<lambda>v. fmul v 1) (llr_of_bits xs) = llr_of_bits xs"
    by (simp add: llr_of_bits_def fmul_def)
  moreover have "cpu_total (llr_of_bits xs) (replicate 87 (replicate D_MAX 0)) = llr_of_bits xs"
  proof (rule nth_equalityI)
    fix n assume "n < length (cpu_total (llr_of_bits xs) (replicate 87 (replicate D_MAX 0)))"
    then have n: "n < 174" by (simp add: cpu_total_def osd_N_def)
    have z: "(let (m, k) = js8_var_adj ! n ! e in fadd t (replicate 87 (replicate D_MAX 0) ! m ! k)) = fadd t 0"
      if "e < 3" for e t
      using zero_edge [OF js8_code_ok n that] by (auto simp: js8_code_def js8_length_cv split: prod.splits)
    have "foldl (\<lambda>tot e. let (m, k) = js8_var_adj ! n ! e
        in fadd tot (replicate 87 (replicate D_MAX 0) ! m ! k)) t [0..<3] = fadd (fadd (fadd t 0) 0) 0" for t
      using z [of 0] z [of 1] z [of 2] by (simp add: upt_rec numeral_2_eq_2)
    then show "cpu_total (llr_of_bits xs) (replicate 87 (replicate D_MAX 0)) ! n = llr_of_bits xs ! n"
      using n len by (simp add: cpu_total_def osd_N_def llr_of_bits_def fadd_def)
  qed (simp add: cpu_total_def osd_N_def llr_of_bits_def len)
  ultimately show ?thesis
    by (simp add: js8_ldpc_decode_cpu_def BP_MAX_ITER_def numeral_eq_Suc hard_llr_of_bits [OF assms(2)] Let_def)
qed

section \<open>The JS8 code and its ordered-statistics decoder\<close>

lemma osd_code_js8_word:
  assumes "xs \<in> osd_code 87 g_js8_gen" shows "ldpc_word js8_code xs"
proof -
  obtain ms where len: "length xs = 174"
    and ms: "\<forall>p<174. xs ! p = byte_of_bool (comb 87 (gmat g_js8_gen) ms p)"
    using assms by (auto simp: osd_code_def osd_N_def)
  have "\<not> check_parity js8_check_var_j js8_check_deg (\<lambda>p. xs ! p \<noteq> 0) i" if i: "i < 87" for i
  proof -
    have "check_parity js8_check_var_j js8_check_deg (\<lambda>p. xs ! p \<noteq> 0) i
        = check_parity js8_check_var_j js8_check_deg (comb 87 (gmat g_js8_gen) ms) i"
      using check_parity_cong [OF js8_code_ok, of i "\<lambda>p. xs ! p \<noteq> 0" "comb 87 (gmat g_js8_gen) ms"] i ms
      by (simp add: js8_code_def js8_length_cv)
    also have "\<dots> = par 87 (\<lambda>r. ms r \<and> check_parity js8_check_var_j js8_check_deg (gmat g_js8_gen r) i)"
      by (rule check_parity_comb)
    also have "\<dots> = par 87 (\<lambda>r. False)"
      using js8_gen_row_checks i by (intro par_cong) simp
    finally show ?thesis by simp
  qed
  then show ?thesis
    using ldpc_word_parity [OF js8_code_ok len] by (simp add: js8_code_def js8_length_cv)
qed

text \<open>A concrete nonzero word: row 0 of the generator.\<close>

definition js8_row0 :: "u8 list" where
  "js8_row0 = map (\<lambda>p. byte_of_bool (gmat g_js8_gen 0 p)) [0..<174]"

lemma js8_row0_word: "ldpc_word js8_code js8_row0"
proof (rule osd_code_js8_word)
  have "comb 87 (gmat g_js8_gen) (\<lambda>r. r = 0) p = gmat g_js8_gen 0 p" for p
    unfolding comb_def par_single by simp
  then show "js8_row0 \<in> osd_code 87 g_js8_gen"
    unfolding osd_code_def js8_row0_def osd_N_def
    by (intro CollectI conjI exI [of _ "\<lambda>r. r = 0"]) simp_all
qed

lemma js8_row0_bits: "set js8_row0 \<subseteq> {0, 1}"
  by (auto simp: js8_row0_def byte_of_bool_def)

lemma js8_row0_nonzero: "js8_row0 ! 87 \<noteq> 0"
proof -
  have "gmat g_js8_gen 0 87 = bit (take_bit 87 (js8_gen_rows ! 0)) 86"
    by (simp add: g_js8_gen_nth bit_take_bit_iff)
  then show ?thesis by (simp add: js8_row0_def js8_gen_systematic bit_exp_iff)
qed

theorem sp_flooded_gate_witness:
  "ldpc_word js8_code js8_row0 \<and> (\<exists>p<174. js8_row0 ! p \<noteq> 0)"
proof (rule sp_flooded_gate)
  show "js8_code \<in> {ft8_code, js8_code}" by simp
  show "sp_flooded_kernel js8_code flat_math (Suc 0) (llr_of_bits js8_row0) = (js8_row0, True)"
    by (rule flat_kernel [OF js8_code_ok js8_row0_word js8_row0_bits _ js8_row0_nonzero]) simp
qed

theorem js8_cpu_gate_witness:
  "ldpc_word js8_code js8_row0 \<and> (\<exists>p<174. js8_row0 ! p \<noteq> 0)"
  by (rule js8_cpu_gate [of flat_math "[]" "[]" "llr_of_bits js8_row0"])
    (rule flat_cpu [OF js8_row0_word js8_row0_bits _ js8_row0_nonzero], simp)

text \<open>
  JS8 ordered-statistics decoding always returns a word, and that word satisfies every
  parity check of the LDPC tables: generator and check tables describe the same code.
\<close>

theorem js8_osd_parity:
  "\<exists>xhat d. js8_osd_decode g_js8_gen llr order = Some (xhat, d) \<and> ldpc_word js8_code xhat"
proof -
  obtain r where "js8_osd_decode g_js8_gen llr order = Some r"
    using js8_full_rank osd_pivots_full [of 87 g_js8_gen llr]
    by (simp add: js8_osd_decode_def osd_decode_eq K_MAX_def)
  moreover obtain xhat d where "r = (xhat, d)" by fastforce
  ultimately show ?thesis
    using osd_sound [of llr 87 g_js8_gen order xhat d] osd_code_js8_word
    by (auto simp: js8_osd_decode_def)
qed

text \<open>
  The two edge tables of each code describe the same graph: an entry of the variable table
  is exactly a slot in use of the check table that holds that variable.
\<close>

theorem ldpc_tables_inverse:
  assumes "code \<in> {ft8_code, js8_code}" and "n < 174"
  shows "(m, k) \<in> set (var_adj code ! n) \<longleftrightarrow>
    m < length (check_var_j code) \<and> k < check_deg code ! m \<and> check_var_j code ! m ! k = int n"
proof -
  have ok: "tables_ok (check_var_j code) (check_deg code) (var_adj code)"
    using assms(1) ft8_code_ok js8_code_ok by (auto simp: code_ok_def)
  show ?thesis
    using tables_edge [OF ok assms(2), of m k] tables_slot [OF ok, of m k] by auto
qed

theorem ldpc_tables_inverse_witness: "(49, 1) \<in> set (var_adj js8_code ! 29)"
proof -
  have "js8_code \<in> {ft8_code, js8_code}" "(29 :: nat) < 174" by simp_all
  moreover have "(49 :: nat) < length (check_var_j js8_code) \<and> (1 :: nat) < check_deg js8_code ! 49
      \<and> check_var_j js8_code ! 49 ! 1 = int 29"
    by (simp add: js8_code_def js8_check_var_j_def js8_check_deg_def)
  ultimately show ?thesis using ldpc_tables_inverse [of js8_code 29 49 1] by blast
qed

section \<open>The sign of a check message\<close>

text \<open>
  Log-likelihoods are positive for bit 1.  When the incoming messages of a check agree with bits
  \<open>b\<close> of even parity, the correct sign of the message on edge \<open>k\<close> is that of \<open>b ! k\<close>.
\<close>

lemma sp_neg_excl_eq:
  assumes "k < check_deg code ! m"
  shows "sp_neg_excl code L c2v m k
    = card {j. j < check_deg code ! m \<and> j \<noteq> k \<and> sp_v2c code L c2v m j < 0}"
proof -
  let ?d = "check_deg code ! m" and ?neg = "\<lambda>j. sp_v2c code L c2v m j < 0"
  let ?N = "{j. j < ?d \<and> ?neg j}" and ?E = "{j. j < ?d \<and> j \<noteq> k \<and> ?neg j}"
  have "foldl (+) 0 (sp_neg_vals code L c2v m) = card ?N"
  proof -
    have "foldl (+) 0 (map (\<lambda>j. if P j then 1 else 0) [0..<n]) = card {j. j < n \<and> P j}" for P and n :: nat
    proof (induction n)
      case (Suc n)
      have "{j. j < Suc n \<and> P j} = (if P n then insert n {j. j < n \<and> P j} else {j. j < n \<and> P j})"
        by (auto simp: less_Suc_eq)
      then show ?case using Suc by simp
    qed simp
    then show ?thesis by (simp add: sp_neg_vals_def)
  qed
  moreover have "?N = (if ?neg k then insert k ?E else ?E)" using assms by auto
  ultimately show ?thesis using assms by (simp add: sp_neg_excl_def sp_neg_vals_def)
qed

lemma sp_sign_cases: "sp_sign n = (if even n then 1 else -1)"
  by (simp add: sp_sign_def even_iff_mod_2_eq_zero)

text \<open>
  When the incoming messages of a check are nonzero and agree with bits \<open>b\<close> of even parity,
  the sign given to the outgoing message on edge \<open>k\<close> is that of \<open>b k\<close> for checks of even degree
  and the opposite one for checks of odd degree.
\<close>

theorem check_sign_by_degree:
  assumes "k < d" and "d = check_deg code ! m"
    and "\<forall>j<d. sp_v2c code L c2v m j \<noteq> 0 \<and> (0 < sp_v2c code L c2v m j) = b j"
    and "even (card {j. j < d \<and> b j})"
  shows "sp_sign (sp_neg_excl code L c2v m k) = (if b k = even d then 1 else -1)"
proof -
  let ?Z = "{j. j < d \<and> j \<noteq> k \<and> \<not> b j}" and ?O = "{j. j < d \<and> j \<noteq> k \<and> b j}"
  have "{j. j < d \<and> j \<noteq> k \<and> sp_v2c code L c2v m j < 0} = ?Z"
    using assms(3) by (auto simp: not_less order.order_iff_strict)
  then have neg: "sp_neg_excl code L c2v m k = card ?Z"
    using sp_neg_excl_eq [of k code m L c2v] assms(1,2) by simp
  have "{..<d} = insert k (?Z \<union> ?O)" using assms(1) by auto
  then have "card {..<d} = card (insert k (?Z \<union> ?O))" by simp
  also have "\<dots> = Suc (card (?Z \<union> ?O))" by (subst card_insert_disjoint) auto
  also have "card (?Z \<union> ?O) = card ?Z + card ?O" by (subst card_Un_disjoint) auto
  finally have "d = Suc (card ?Z + card ?O)" by simp
  then have "even d \<longleftrightarrow> odd (card ?Z + card ?O)" by presburger
  moreover have "{j. j < d \<and> b j} = (if b k then insert k ?O else ?O)" using assms(1) by auto
  then have "card {j. j < d \<and> b j} = card ?O + (if b k then 1 else 0)" by simp
  ultimately show ?thesis using assms(4) by (auto simp: sp_sign_cases neg split: if_splits)
qed

text \<open>
  All-zero codeword, degree-7 check 0 of FT8: every message says bit 0, the answer is positive.
\<close>

theorem check_sign_by_degree_witness:
  "sp_sign (sp_neg_excl ft8_code (replicate 174 (-1)) (replicate 581 0) 0 0) = 1"
proof -
  have d: "7 = check_deg ft8_code ! 0" by (simp add: ft8_code_def ft8_check_deg_def)
  have "sp_v2c ft8_code (replicate 174 (-1)) (replicate 581 0) 0 j = -1" if "j < 7" for j
  proof -
    have "nat (ft8_check_var_j ! 0 ! j) < 174"
      using tables_slot [OF ft8_tables_ok, of 0 j] that d by (auto simp: ft8_length_cv ft8_code_def)
    moreover have "r32 (-1) = -1" using r32_int [of "-1"] by simp
    ultimately show ?thesis using that by (simp add: sp_v2c_def ft8_code_def D_MAX_def fsub_def)
  qed
  then show ?thesis
    using check_sign_by_degree [OF _ d, of 0 "replicate 174 (-1)" "replicate 581 0" "\<lambda>_. False"] by simp
qed

end
