(* ===== verification/FtxLdpc.thy ===== *)
theory FtxLdpc
  imports FtxEncode Ldpc
begin

text \<open>
  The LDPC decoders of the bundled library (\<open>ft8_lib/ft8/ldpc.c\<close>): the parity check, the belief
  propagation decoder the receiver uses and the older sum-product decoder.  The lemmas relate the
  check to the parity tables of the GPU decoder and show what a reported success means.
\<close>

definition fast_tanh :: "f32 \<Rightarrow> f32" where
  "fast_tanh x =
     (if x < r32 (-497 / 100) then -1
      else if r32 (497 / 100) < x then 1
      else
        (let x2 = fmul x x;
             a = fmul x (fadd 945 (fmul x2 (fadd 105 x2)));
             b = fadd 945 (fmul x2 (fadd 420 (fmul x2 15)))
         in fdiv a b))"

definition fast_atanh :: "f32 \<Rightarrow> f32" where
  "fast_atanh x =
     (let x2 = fmul x x;
          a = fmul x (fadd 945 (fmul x2 (fadd (-735) (fmul x2 64))));
          b = fadd 945 (fmul x2 (fadd (-1050) (fmul x2 225)))
      in fdiv a b)"

text \<open>The number of failing checks.\<close>

definition check_xor :: "u8 list \<Rightarrow> nat \<Rightarrow> u8" where
  "check_xor codeword m =
     foldl (\<lambda>x i. x XOR codeword ! (kFTX_LDPC_Nm ! m ! i - 1)) 0 [0..<kFTX_LDPC_Num_rows ! m]"

definition ldpc_check :: "u8 list \<Rightarrow> nat" where
  "ldpc_check codeword = foldl (\<lambda>errors m. if check_xor codeword m \<noteq> 0 then errors + 1 else errors) 0 [0..<FTX_LDPC_M]"

section \<open>Belief propagation\<close>

text \<open>\<open>tov\<close> holds the messages to the bits, three for each; \<open>toc\<close> those to the checks.\<close>

definition bp_hard :: "f32 list \<Rightarrow> f32 list list \<Rightarrow> u8 list" where
  "bp_hard codeword tov =
     map (\<lambda>n. if 0 < fadd (fadd (fadd (codeword ! n) (tov ! n ! 0)) (tov ! n ! 1)) (tov ! n ! 2) then 1 else 0)
       [0..<osd_N]"

definition bp_toc :: "f32 list \<Rightarrow> f32 list list \<Rightarrow> f32 list list" where
  "bp_toc codeword tov =
     map (\<lambda>m. map (\<lambda>n_idx.
             let n = kFTX_LDPC_Nm ! m ! n_idx - 1;
                 Tnm = foldl (\<lambda>t m_idx. if kFTX_LDPC_Mn ! n ! m_idx - 1 \<noteq> m then fadd t (tov ! n ! m_idx) else t)
                         (codeword ! n) [0..<3]
             in fast_tanh (fdiv (- Tnm) 2)) [0..<kFTX_LDPC_Num_rows ! m])
       [0..<FTX_LDPC_M]"

definition bp_tov :: "f32 list list \<Rightarrow> f32 list list" where
  "bp_tov toc =
     map (\<lambda>n. map (\<lambda>m_idx.
             let m = kFTX_LDPC_Mn ! n ! m_idx - 1;
                 Tmn = foldl (\<lambda>t n_idx. if kFTX_LDPC_Nm ! m ! n_idx - 1 \<noteq> n then fmul t (toc ! m ! n_idx) else t)
                         1 [0..<kFTX_LDPC_Num_rows ! m]
             in fmul (-2) (fast_atanh Tmn)) [0..<3])
       [0..<osd_N]"

text \<open>The main loop: the word in the output array and the least number of errors seen.\<close>

fun bp_loop :: "f32 list \<Rightarrow> nat \<Rightarrow> f32 list list \<Rightarrow> u8 list \<Rightarrow> nat \<Rightarrow> u8 list \<times> nat" where
  "bp_loop codeword 0 tov plain min_errors = (plain, min_errors)"
| "bp_loop codeword (Suc it) tov plain min_errors =
     (let plain = bp_hard codeword tov;
          plain_sum = sum_list (map uint plain)
      in if plain_sum = 0 then (plain, min_errors)
         else
           (let errors = ldpc_check plain;
                min_errors' = (if errors < min_errors then errors else min_errors)
            in if errors < min_errors \<and> errors = 0 then (plain, min_errors')
               else bp_loop codeword it (bp_tov (bp_toc codeword tov)) plain min_errors'))"

text \<open>The output array \<open>plain\<close> is the caller's, uninitialised.\<close>

definition bp_decode :: "f32 list \<Rightarrow> int \<Rightarrow> u8 list \<Rightarrow> u8 list \<times> nat" where
  "bp_decode codeword max_iters plain =
     bp_loop codeword (nat max_iters) (replicate osd_N (replicate 3 0)) plain FTX_LDPC_M"

section \<open>The sum-product decoder\<close>

definition spd_e_row :: "f32 list \<Rightarrow> nat \<Rightarrow> f32 list \<Rightarrow> f32 list" where
  "spd_e_row m_row j e_row =
     foldl (\<lambda>e ii1. let i1 = kFTX_LDPC_Nm ! j ! ii1 - 1;
                        a = foldl (\<lambda>a ii2. let i2 = kFTX_LDPC_Nm ! j ! ii2 - 1
                                           in if i2 \<noteq> i1 then fmul a (fast_tanh (fdiv (- (m_row ! i2)) 2)) else a)
                              1 [0..<kFTX_LDPC_Num_rows ! j]
                    in e[i1 := fmul (-2) (fast_atanh a)])
       e_row [0..<kFTX_LDPC_Num_rows ! j]"

definition spd_hard :: "f32 list \<Rightarrow> f32 list list \<Rightarrow> u8 list" where
  "spd_hard codeword e =
     map (\<lambda>i. if 0 < foldl (\<lambda>l j. fadd l (e ! (kFTX_LDPC_Mn ! i ! j - 1) ! i)) (codeword ! i) [0..<3] then 1 else 0)
       [0..<osd_N]"

definition spd_m :: "f32 list \<Rightarrow> f32 list list \<Rightarrow> f32 list list \<Rightarrow> f32 list list" where
  "spd_m codeword e m =
     foldl (\<lambda>m (i, ji1).
         let j1 = kFTX_LDPC_Mn ! i ! ji1 - 1;
             l = foldl (\<lambda>l ji2. if ji1 \<noteq> ji2 then fadd l (e ! (kFTX_LDPC_Mn ! i ! ji2 - 1) ! i) else l) (codeword ! i) [0..<3]
         in m[j1 := (m ! j1)[i := l]])
       m (concat (map (\<lambda>i. map (Pair i) [0..<3]) [0..<osd_N]))"

fun spd_loop :: "f32 list \<Rightarrow> nat \<Rightarrow> f32 list list \<Rightarrow> f32 list list \<Rightarrow> u8 list \<Rightarrow> nat \<Rightarrow> u8 list \<times> nat" where
  "spd_loop codeword 0 m e plain min_errors = (plain, min_errors)"
| "spd_loop codeword (Suc it) m e plain min_errors =
     (let e = map (\<lambda>j. spd_e_row (m ! j) j (e ! j)) [0..<FTX_LDPC_M];
          plain = spd_hard codeword e;
          errors = ldpc_check plain;
          min_errors' = (if errors < min_errors then errors else min_errors)
      in if errors < min_errors \<and> errors = 0 then (plain, min_errors')
         else spd_loop codeword it (spd_m codeword e m) e plain min_errors')"

definition ldpc_decode :: "f32 list \<Rightarrow> int \<Rightarrow> u8 list \<Rightarrow> u8 list \<times> nat" where
  "ldpc_decode codeword max_iters plain =
     spd_loop codeword (nat max_iters) (replicate FTX_LDPC_M (take osd_N codeword))
       (replicate FTX_LDPC_M (replicate osd_N 0)) plain FTX_LDPC_M"

section \<open>The parity check and the tables of the GPU decoder\<close>

lemma gpu_tables:
  "map (map (\<lambda>j. nat (j + 1))) ft8_check_var_j = kFTX_LDPC_Nm" "ft8_check_deg = kFTX_LDPC_Num_rows"
  "map (map (\<lambda>(m, k). m + 1)) ft8_var_adj = kFTX_LDPC_Mn"
  by code_simp+

lemma foldl_count_le: "foldl (\<lambda>e m. if P m then e + 1 else e) (a :: nat) xs = a + length (filter P xs)"
  by (induction xs arbitrary: a) simp_all

lemma ldpc_check_0: "ldpc_check codeword = 0 \<longleftrightarrow> (\<forall>m<83. check_xor codeword m = 0)"
  unfolding ldpc_check_def foldl_count_le FTX_LDPC_M_def by (auto simp: filter_empty_conv)

lemma ldpc_check_le: "ldpc_check codeword \<le> 83"
  unfolding ldpc_check_def foldl_count_le FTX_LDPC_M_def
  using length_filter_le [of "\<lambda>m. check_xor codeword m \<noteq> 0" "[0..<83]"] by simp

lemma xor_bits_par:
  "\<forall>i<n. f i = 0 \<or> f i = (1 :: u8) \<Longrightarrow> foldl (\<lambda>x i. x XOR f i) 0 [0..<n] = (if par n (\<lambda>i. f i \<noteq> 0) then 1 else 0)"
  by (induction n) auto

lemma Nm_entry:
  assumes "m < 83" and "k < kFTX_LDPC_Num_rows ! m"
  shows "kFTX_LDPC_Nm ! m ! k - 1 = nat (ft8_check_var_j ! m ! k)" and "kFTX_LDPC_Nm ! m ! k - 1 < 174"
    and "1 \<le> kFTX_LDPC_Nm ! m ! k"
proof -
  have k: "k < length (check_row m)" using assms check_row_props(3) [of m] by simp
  have nth: "check_row m ! k = kFTX_LDPC_Nm ! m ! k" using k by (simp add: check_row_def)
  have e: "1 \<le> kFTX_LDPC_Nm ! m ! k \<and> kFTX_LDPC_Nm ! m ! k \<le> 174"
    using check_row_props(2) [of m] assms(1) nth_mem [OF k] unfolding nth by blast
  then show "kFTX_LDPC_Nm ! m ! k - 1 < 174" "1 \<le> kFTX_LDPC_Nm ! m ! k" by linarith+
  have lk: "k < length (ft8_check_var_j ! m)"
    using k assms(1) length_tables(3) unfolding check_row_def by (simp add: ft8_length_cv flip: gpu_tables(1))
  have "kFTX_LDPC_Nm ! m ! k = nat (ft8_check_var_j ! m ! k + 1)"
    using assms(1) lk unfolding gpu_tables(1) [symmetric] by (simp add: ft8_length_cv)
  then show "kFTX_LDPC_Nm ! m ! k - 1 = nat (ft8_check_var_j ! m ! k)" using e by (simp add: nat_add_distrib)
qed

lemma check_xor_parity:
  assumes "length xs = 174" and "set xs \<subseteq> {0, 1}" and m: "m < 83"
  shows "check_xor xs m = (if check_parity ft8_check_var_j ft8_check_deg (\<lambda>p. xs ! p \<noteq> 0) m then 1 else 0)"
proof -
  have "xs ! (kFTX_LDPC_Nm ! m ! i - 1) = 0 \<or> xs ! (kFTX_LDPC_Nm ! m ! i - 1) = 1"
    if "i < kFTX_LDPC_Num_rows ! m" for i
  proof -
    have "xs ! (kFTX_LDPC_Nm ! m ! i - 1) \<in> set xs" using Nm_entry(2) [OF m that] assms(1) by (intro nth_mem) simp
    then show ?thesis using assms(2) by blast
  qed
  then have "check_xor xs m = (if par (kFTX_LDPC_Num_rows ! m) (\<lambda>i. xs ! (kFTX_LDPC_Nm ! m ! i - 1) \<noteq> 0) then 1 else 0)"
    unfolding check_xor_def by (intro xor_bits_par) blast
  moreover have "par (kFTX_LDPC_Num_rows ! m) (\<lambda>i. xs ! (kFTX_LDPC_Nm ! m ! i - 1) \<noteq> 0) =
      par (kFTX_LDPC_Num_rows ! m) (\<lambda>k. xs ! nat (ft8_check_var_j ! m ! k) \<noteq> 0)"
    by (rule par_cong) (simp only: Nm_entry(1) [OF m])
  ultimately show ?thesis by (simp add: check_parity_def gpu_tables(2))
qed

lemma ldpc_check_word:
  assumes "length xs = 174" and "set xs \<subseteq> {0, 1}"
  shows "ldpc_check xs = 0 \<longleftrightarrow> ldpc_word ft8_code xs"
  unfolding ldpc_check_0 ldpc_word_parity [OF ft8_code_ok assms(1)]
  using check_xor_parity [OF assms] by (auto simp: ft8_code_def ft8_length_cv)

section \<open>What success means\<close>

lemma bp_hard_bits: "set (bp_hard codeword tov) \<subseteq> {0, 1}" "length (bp_hard codeword tov) = 174"
  by (auto simp: bp_hard_def osd_N_def)

lemma sum_zero_bits: "set xs \<subseteq> {0, 1 :: u8} \<Longrightarrow> sum_list (map uint xs) = 0 \<longleftrightarrow> (\<forall>x\<in>set xs. x = 0)"
proof (induction xs)
  case (Cons x xs)
  have "0 \<le> sum_list (map uint xs)" by (rule sum_list_nonneg) auto
  then show ?case using Cons uint_ge_0 [of x] by (auto simp: add_nonneg_eq_0_iff)
qed simp

lemma nonzero_word:
  assumes "set xs \<subseteq> {0, 1 :: u8}" and "length xs = 174" and "sum_list (map uint xs) \<noteq> 0"
  shows "\<exists>p<174. xs ! p \<noteq> 0"
  using assms sum_zero_bits [of xs] by (metis in_set_conv_nth)

lemma bp_loop_gate:
  "bp_loop codeword it tov plain me = (w, 0) \<Longrightarrow> 0 < me \<Longrightarrow> ldpc_word ft8_code w \<and> (\<exists>p<174. w ! p \<noteq> 0)"
proof (induction it arbitrary: tov plain me)
  case (Suc it)
  let ?w = "bp_hard codeword tov"
  show ?case
  proof (cases "sum_list (map uint ?w) \<noteq> 0 \<and> ldpc_check ?w = 0")
    case True
    then have "w = ?w" using Suc.prems by (auto simp: Let_def)
    then show ?thesis
      using True ldpc_check_word [OF bp_hard_bits(2,1)] nonzero_word [OF bp_hard_bits] by simp
  next
    case False
    then have "sum_list (map uint ?w) \<noteq> 0" "ldpc_check ?w \<noteq> 0" using Suc.prems by (auto simp: Let_def)
    then have "bp_loop codeword it (bp_tov (bp_toc codeword tov)) ?w (if ldpc_check ?w < me then ldpc_check ?w else me) = (w, 0)"
      using Suc.prems by (simp add: Let_def)
    then show ?thesis by (rule Suc.IH) (use Suc.prems \<open>ldpc_check ?w \<noteq> 0\<close> in simp)
  qed
qed simp

lemma bp_loop_errors: "snd (bp_loop codeword it tov plain me) \<le> me"
proof (induction it arbitrary: tov plain me)
  case (Suc it)
  have "snd (bp_loop codeword it (bp_tov (bp_toc codeword tov)) p (if e < me then e else me)) \<le> me" for p e
    by (rule order_trans [OF Suc]) simp
  then show ?case by (auto simp: Let_def)
qed simp

lemma spd_hard_bits: "set (spd_hard codeword e) \<subseteq> {0, 1}" "length (spd_hard codeword e) = 174"
  by (auto simp: spd_hard_def osd_N_def)

lemma spd_loop_gate:
  "spd_loop codeword it m e plain me = (w, 0) \<Longrightarrow> 0 < me \<Longrightarrow> ldpc_word ft8_code w"
proof (induction it arbitrary: m e plain me)
  case (Suc it)
  let ?e = "map (\<lambda>j. spd_e_row (m ! j) j (e ! j)) [0..<FTX_LDPC_M]"
  let ?w = "spd_hard codeword ?e"
  show ?case
  proof (cases "ldpc_check ?w = 0")
    case True
    then have "w = ?w" using Suc.prems by (auto simp: Let_def)
    then show ?thesis using True ldpc_check_word [OF spd_hard_bits(2,1)] by simp
  next
    case False
    then have "spd_loop codeword it (spd_m codeword ?e m) ?e ?w (if ldpc_check ?w < me then ldpc_check ?w else me) = (w, 0)"
      using Suc.prems by (simp add: Let_def)
    then show ?thesis by (rule Suc.IH) (use Suc.prems False in simp)
  qed
qed simp

lemma M_pos: "0 < FTX_LDPC_M"
  by (simp add: FTX_LDPC_M_def)

lemma three_zeros: "replicate 3 (0 :: f32) ! 0 = 0" "replicate 3 (0 :: f32) ! 1 = 0" "replicate 3 (0 :: f32) ! 2 = 0"
  by (simp_all add: numeral_eq_Suc)

lemma bp_hard_start:
  assumes "\<forall>x\<in>set codeword. r32 x = x" and "length codeword = 174"
  shows "bp_hard codeword (replicate osd_N (replicate 3 0)) = hard_bits codeword"
proof (rule nth_equalityI)
  fix n assume "n < length (bp_hard codeword (replicate osd_N (replicate 3 0)))"
  then have n: "n < 174" by (simp add: bp_hard_def osd_N_def)
  then have "r32 (codeword ! n) = codeword ! n" using assms nth_mem [of n codeword] by simp
  then show "bp_hard codeword (replicate osd_N (replicate 3 0)) ! n = hard_bits codeword ! n"
    using n assms by (simp add: bp_hard_def hard_bits_def osd_N_def fadd_def three_zeros del: upt_Suc)
qed (simp add: bp_hard_def hard_bits_def osd_N_def assms)

text \<open>
  C34. The belief-propagation decoder: zero errors are reported only for a word that satisfies every
  parity check of the GPU decoder's tables and is not all zero, never more than 83 errors are
  reported, and when the hard decisions of the inputs already are such a word, they are returned
  with zero errors in the first iteration.
\<close>

theorem bp_decode_correct:
  fixes codeword :: "f32 list" and max_iters :: int and plain :: "u8 list"
  defines "r \<equiv> bp_decode codeword max_iters plain"
  shows "(snd r = 0 \<longrightarrow> ldpc_word ft8_code (fst r) \<and> (\<exists>p<174. fst r ! p \<noteq> 0)) \<and> snd r \<le> 83 \<and>
         (0 < max_iters \<longrightarrow> (\<forall>x\<in>set codeword. r32 x = x) \<longrightarrow> ldpc_word ft8_code (hard_bits codeword) \<longrightarrow>
            (\<exists>p<174. hard_bits codeword ! p \<noteq> 0) \<longrightarrow> r = (hard_bits codeword, 0))"
proof (intro conjI impI)
  show "snd r \<le> 83"
    unfolding r_def bp_decode_def using bp_loop_errors [where me = FTX_LDPC_M] by (simp add: FTX_LDPC_M_def)
  have "ldpc_word ft8_code (fst r) \<and> (\<exists>p<174. fst r ! p \<noteq> 0)" if "snd r = 0"
    by (rule bp_loop_gate [OF _ M_pos]) (use that in \<open>simp add: r_def bp_decode_def prod_eq_iff\<close>)
  then show "snd r = 0 \<Longrightarrow> ldpc_word ft8_code (fst r)" "snd r = 0 \<Longrightarrow> \<exists>p<174. fst r ! p \<noteq> 0" by blast+
next
  assume it: "0 < max_iters" and f: "\<forall>x\<in>set codeword. r32 x = x" and w: "ldpc_word ft8_code (hard_bits codeword)"
    and nz: "\<exists>p<174. hard_bits codeword ! p \<noteq> 0"
  have len: "length (hard_bits codeword) = 174" using w by (simp add: ldpc_word_def)
  have bits: "set (hard_bits codeword) \<subseteq> {0, 1}" by (auto simp: hard_bits_def)
  have "ldpc_check (hard_bits codeword) = 0" using ldpc_check_word [OF len bits] w by simp
  moreover have "sum_list (map uint (hard_bits codeword)) \<noteq> 0"
    using sum_zero_bits [OF bits] nz len by (metis nth_mem)
  moreover obtain it where "nat max_iters = Suc it" using it by (metis gr0_implies_Suc zero_less_nat_eq)
  moreover have "length codeword = 174" using len by (simp add: hard_bits_def)
  ultimately show "r = (hard_bits codeword, 0)"
    using bp_hard_start [OF f] by (simp add: r_def bp_decode_def FTX_LDPC_M_def)
qed

text \<open>The older decoder likewise: zero errors only for a word that satisfies every parity check.\<close>

lemma ldpc_decode_gate: "ldpc_decode codeword max_iters plain = (w, 0) \<Longrightarrow> ldpc_word ft8_code w"
  unfolding ldpc_decode_def by (rule spd_loop_gate [OF _ M_pos])

section \<open>Encoded words\<close>

text \<open>The codeword of a payload as an array of bits.\<close>

definition codeword_bits :: "u8 list \<Rightarrow> u8 list" where
  "codeword_bits payload = map (\<lambda>i. byte_of_bool (msg_bit (ft8_codeword payload) i)) [0..<174]"

lemma row_odd_par: "row_odd x ns = par (length ns) (\<lambda>i. x (ns ! i - 1))"
  by (induction ns) (simp_all add: row_odd_def par_Suc_front del: par_Suc)

lemma codeword_bits_props [simp]:
  "length (codeword_bits payload) = 174" "set (codeword_bits payload) \<subseteq> {0, 1}"
  "p < 174 \<Longrightarrow> codeword_bits payload ! p = byte_of_bool (msg_bit (ft8_codeword payload) p)"
  by (auto simp: codeword_bits_def byte_of_bool_def)

lemma ldpc_word_rows:
  assumes "length w = 174"
  shows "ldpc_word ft8_code w \<longleftrightarrow> (\<forall>r<83. \<not> row_odd (\<lambda>p. w ! p \<noteq> 0) (check_row r))"
proof -
  let ?x = "\<lambda>p. w ! p \<noteq> 0"
  have "check_parity ft8_check_var_j ft8_check_deg ?x m = row_odd ?x (check_row m)" if m: "m < 83" for m
  proof -
    have l: "length (check_row m) = kFTX_LDPC_Num_rows ! m" by (rule check_row_props(3) [OF m])
    have "par (kFTX_LDPC_Num_rows ! m) (\<lambda>k. ?x (nat (ft8_check_var_j ! m ! k))) =
        par (kFTX_LDPC_Num_rows ! m) (\<lambda>i. ?x (check_row m ! i - 1))"
    proof (rule par_cong)
      fix k assume k: "k < kFTX_LDPC_Num_rows ! m"
      have "check_row m ! k = kFTX_LDPC_Nm ! m ! k" using k l by (simp add: check_row_def)
      then show "?x (nat (ft8_check_var_j ! m ! k)) = ?x (check_row m ! k - 1)" using Nm_entry(1) [OF m k] by simp
    qed
    then show ?thesis unfolding row_odd_par l by (simp add: check_parity_def gpu_tables(2))
  qed
  then show ?thesis
    unfolding ldpc_word_parity [OF ft8_code_ok assms] by (simp add: ft8_code_def ft8_length_cv)
qed

lemma row_odd_cong:
  "(\<And>p. p < 174 \<Longrightarrow> x p = y p) \<Longrightarrow> r < 83 \<Longrightarrow> row_odd x (check_row r) = row_odd y (check_row r)"
proof -
  assume e: "\<And>p. p < 174 \<Longrightarrow> x p = y p" and r: "r < 83"
  have "check_row r ! i - 1 < 174" if "i < length (check_row r)" for i
  proof -
    have "check_row r ! i \<in> set (check_row r)" by (rule nth_mem) fact
    then have "1 \<le> check_row r ! i \<and> check_row r ! i \<le> 174" using check_row_props(2) [OF r] by blast
    then show ?thesis by linarith
  qed
  then show ?thesis unfolding row_odd_par by (intro par_cong) (simp add: e)
qed

lemma codeword_word:
  assumes "length payload = 10" shows "ldpc_word ft8_code (codeword_bits payload)"
proof -
  have "\<not> row_odd (\<lambda>p. codeword_bits payload ! p \<noteq> 0) (check_row r)" if r: "r < 83" for r
  proof -
    have "row_odd (\<lambda>p. codeword_bits payload ! p \<noteq> 0) (check_row r) = row_odd (msg_bit (ft8_codeword payload)) (check_row r)"
      using r by (intro row_odd_cong) simp_all
    then show ?thesis
      using encode174_checks [OF clean_add_crc [OF assms] r] by (simp add: ft8_codeword_def FTX_LDPC_K_BYTES_def FTX_LDPC_K_def)
  qed
  then show ?thesis by (simp add: ldpc_word_rows)
qed

lemma codeword_nonzero:
  assumes "length payload = 10" and "i < 77" and "msg_bit payload i"
  shows "\<exists>p<174. codeword_bits payload ! p \<noteq> 0"
proof -
  have "msg_bit (ft8_codeword payload) i"
    using assms by (simp add: ft8_codeword_def FTX_LDPC_K_BYTES_def FTX_LDPC_K_def msg_bit_encode174 msg_bit_add_crc)
  then show ?thesis using assms(2) by (intro exI [of _ i]) simp
qed

theorem bp_decode_correct_witness:
  "bp_decode (llr_of_bits (codeword_bits (replicate 10 1))) 25 [] = (codeword_bits (replicate 10 1), 0)"
proof -
  let ?w = "codeword_bits (replicate 10 1)"
  have h: "hard_bits (llr_of_bits ?w) = ?w" by (rule hard_llr_of_bits) simp
  have "\<exists>p<174. ?w ! p \<noteq> 0" by (rule codeword_nonzero [of _ 7]) (simp_all add: msg_bit_def)
  moreover have "\<forall>x\<in>set (llr_of_bits ?w). r32 x = x" by (auto simp: llr_of_bits_def)
  ultimately show ?thesis
    using bp_decode_correct [of "llr_of_bits ?w" 25 "[]"] codeword_word [of "replicate 10 1"] by (simp add: h)
qed

end
