(* ===== verification/FtxHeap.thy ===== *)
theory FtxHeap
  imports Prelude "HOL-Library.Multiset"
begin

text \<open>
  The candidate heap of the bundled library (\<open>heapify_down\<close>, \<open>heapify_up\<close>, the insertion of
  \<open>ftx_find_candidates_range\<close> and the heapsort of \<open>ftx_find_candidates\<close> in
  \<open>ft8_lib/ft8/decode.c\<close>): a binary min-heap on the score in an array whose first \<open>heap_size\<close>
  entries are in use.  The lemmas show that the loops end, that they permute the array and restore
  the heap order, and hence that the search keeps the best candidates and returns them sorted.
\<close>

record ftx_candidate =
  cand_score :: int
  time_offset :: int
  freq_offset :: int
  time_sub :: nat
  freq_sub :: nat

definition swap_at :: "nat \<Rightarrow> nat \<Rightarrow> 'a list \<Rightarrow> 'a list" where
  "swap_at i j xs = xs[i := xs ! j, j := xs ! i]"

text \<open>The child to move down to: the smallest of the node and its two children.\<close>

definition smallest_of :: "ftx_candidate list \<Rightarrow> nat \<Rightarrow> nat \<Rightarrow> nat" where
  "smallest_of heap heap_size current =
     (let left = 2 * current + 1; right = left + 1;
          smallest = (if left < heap_size \<and> cand_score (heap ! left) < cand_score (heap ! current) then left else current)
      in if right < heap_size \<and> cand_score (heap ! right) < cand_score (heap ! smallest) then right else smallest)"

lemma smallest_of_cases:
  "smallest_of heap n c = c \<or> c < smallest_of heap n c \<and> smallest_of heap n c < n"
  by (auto simp: smallest_of_def Let_def)

function sift_down :: "ftx_candidate list \<Rightarrow> nat \<Rightarrow> nat \<Rightarrow> ftx_candidate list" where
  "sift_down heap heap_size current =
     (let smallest = smallest_of heap heap_size current
      in if smallest = current then heap else sift_down (swap_at smallest current heap) heap_size smallest)"
  by pat_completeness auto
termination
  by (relation "measure (\<lambda>(heap, n, c). n - c)") (use smallest_of_cases in \<open>fastforce+\<close>)

definition heapify_down :: "ftx_candidate list \<Rightarrow> nat \<Rightarrow> ftx_candidate list" where
  "heapify_down heap heap_size = sift_down heap heap_size 0"

function sift_up :: "ftx_candidate list \<Rightarrow> nat \<Rightarrow> ftx_candidate list" where
  "sift_up heap current =
     (if 0 < current then
        (let parent = (current - 1) div 2
         in if \<not> cand_score (heap ! current) < cand_score (heap ! parent) then heap
            else sift_up (swap_at parent current heap) parent)
      else heap)"
  by pat_completeness auto
termination
  by (relation "measure snd") auto

definition heapify_up :: "ftx_candidate list \<Rightarrow> nat \<Rightarrow> ftx_candidate list" where
  "heapify_up heap heap_size = sift_up heap (heap_size - 1)"

text \<open>
  One candidate of the search.  The array has \<open>num_candidates\<close> entries; the list holds the entries
  in use, so that its length is \<open>heap_size\<close>.
\<close>

definition keep_candidate :: "nat \<Rightarrow> int \<Rightarrow> ftx_candidate list \<Rightarrow> ftx_candidate \<Rightarrow> ftx_candidate list" where
  "keep_candidate num_candidates min_score heap c =
     (if cand_score c < min_score then heap
      else
        (let heap = (if length heap = num_candidates \<and> cand_score (heap ! 0) < cand_score c
                     then heapify_down (butlast (heap[0 := last heap])) (length heap - 1) else heap)
         in if length heap < num_candidates then heapify_up (heap @ [c]) (length heap + 1) else heap))"

definition best_candidates :: "nat \<Rightarrow> int \<Rightarrow> ftx_candidate list \<Rightarrow> ftx_candidate list" where
  "best_candidates num_candidates min_score cs = foldl (keep_candidate num_candidates min_score) [] cs"

text \<open>The heapsort: the unsorted part shrinks from the back.\<close>

fun sort_down :: "nat \<Rightarrow> ftx_candidate list \<Rightarrow> ftx_candidate list" where
  "sort_down len_unsorted heap =
     (if 1 < len_unsorted
      then sort_down (len_unsorted - 1) (heapify_down (swap_at (len_unsorted - 1) 0 heap) (len_unsorted - 1))
      else heap)"

declare sift_down.simps [simp del] sift_up.simps [simp del] sort_down.simps [simp del]

section \<open>Swapping\<close>

lemma length_swap_at [simp]: "length (swap_at i j xs) = length xs"
  by (simp add: swap_at_def)

lemma nth_swap_at: "i < length xs \<Longrightarrow> j < length xs \<Longrightarrow> k < length xs \<Longrightarrow>
    swap_at i j xs ! k = (if k = j then xs ! i else if k = i then xs ! j else xs ! k)"
  by (auto simp: swap_at_def nth_list_update)

lemma mset_swap_at [simp]: "i < length xs \<Longrightarrow> j < length xs \<Longrightarrow> mset (swap_at i j xs) = mset xs"
  unfolding swap_at_def by (rule mset_swap)

section \<open>The heap order\<close>

definition parent :: "nat \<Rightarrow> nat" where "parent i = (i - 1) div 2"

text \<open>Every node of the first \<open>n\<close> except, possibly, the children of \<open>c\<close> is at least its parent.\<close>

definition heap_except :: "nat \<Rightarrow> ftx_candidate list \<Rightarrow> nat \<Rightarrow> bool" where
  "heap_except n h c \<longleftrightarrow> (\<forall>i. 0 < i \<longrightarrow> i < n \<longrightarrow> parent i \<noteq> c \<longrightarrow> cand_score (h ! parent i) \<le> cand_score (h ! i)) \<and>
     (\<forall>i. 0 < i \<longrightarrow> i < n \<longrightarrow> parent i = c \<longrightarrow> 0 < c \<longrightarrow> cand_score (h ! parent c) \<le> cand_score (h ! i))"

definition is_heap :: "nat \<Rightarrow> ftx_candidate list \<Rightarrow> bool" where
  "is_heap n h \<longleftrightarrow> (\<forall>i. 0 < i \<longrightarrow> i < n \<longrightarrow> cand_score (h ! parent i) \<le> cand_score (h ! i))"

lemma parent_less [simp]: "0 < i \<Longrightarrow> parent i < i"
  by (simp add: parent_def)

lemma parent_child: "0 < i \<Longrightarrow> parent i = c \<longleftrightarrow> i = 2 * c + 1 \<or> i = 2 * c + 2"
  by (auto simp: parent_def)

lemma smallest_child:
  assumes "0 < i" and "i < n" and "parent i = c" shows "cand_score (h ! smallest_of h n c) \<le> cand_score (h ! i)"
  using assms(2) assms(3) [unfolded parent_child [OF assms(1)]] by (auto simp: smallest_of_def Let_def)

lemma smallest_lt:
  assumes "smallest_of h n c \<noteq> c"
  shows "cand_score (h ! smallest_of h n c) < cand_score (h ! c) \<and> parent (smallest_of h n c) = c \<and>
         c < smallest_of h n c \<and> smallest_of h n c < n"
  using assms by (auto simp: smallest_of_def Let_def parent_def split: if_splits)

lemma heap_except_swap:
  assumes h: "heap_except n h c" and n: "n \<le> length h" and s: "smallest_of h n c \<noteq> c"
  shows "heap_except n (swap_at (smallest_of h n c) c h) (smallest_of h n c)"
proof -
  let ?s = "smallest_of h n c" and ?h = "swap_at (smallest_of h n c) c h"
  note sl = smallest_lt [OF s]
  have nth: "?h ! k = (if k = c then h ! ?s else if k = ?s then h ! c else h ! k)" if "k < n" for k
    using that sl n by (simp add: nth_swap_at)
  show ?thesis
    unfolding heap_except_def
  proof (intro conjI allI impI)
    fix i assume i: "0 < i" "i < n" "parent i \<noteq> ?s"
    have pn: "parent i < n" using parent_less [OF i(1)] i(2) by linarith
    consider "i = c" | "i \<noteq> c" "parent i = c" | "i \<noteq> c" "parent i \<noteq> c" by blast
    then show "cand_score (?h ! parent i) \<le> cand_score (?h ! i)"
    proof cases
      case 1
      then have "parent i \<noteq> c" using parent_less [OF i(1)] by auto
      moreover have "cand_score (h ! parent c) \<le> cand_score (h ! ?s)"
        using h sl 1 i(1) unfolding heap_except_def by auto
      ultimately show ?thesis using 1 i(3) pn i(2) nth by simp
    next
      case 2
      then have "cand_score (h ! ?s) \<le> cand_score (h ! i)" using smallest_child [OF i(1,2)] by blast
      then show ?thesis using 2 i pn nth sl by (cases "i = ?s") auto
    next
      case 3
      then have "i \<noteq> ?s" using sl by blast
      then show ?thesis using 3 i pn nth h unfolding heap_except_def by auto
    qed
  next
    fix i assume i: "0 < i" "i < n" "parent i = ?s" "0 < ?s"
    have "i \<noteq> c" "i \<noteq> ?s" using parent_less [OF i(1)] i(3) sl by auto
    moreover have "cand_score (h ! ?s) \<le> cand_score (h ! i)"
      using h i s unfolding heap_except_def by metis
    moreover have "c < n" using sl by linarith
    ultimately show "cand_score (?h ! parent ?s) \<le> cand_score (?h ! i)"
      using nth i(2) sl by simp
  qed
qed

lemma sift_down_heap:
  "heap_except n h c \<Longrightarrow> n \<le> length h \<Longrightarrow> is_heap n (sift_down h n c)"
proof (induction h n c rule: sift_down.induct)
  case (1 h n c)
  show ?case
  proof (cases "smallest_of h n c = c")
    case True
    then have "sift_down h n c = h" by (simp add: sift_down.simps)
    moreover have "cand_score (h ! parent i) \<le> cand_score (h ! i)" if "0 < i" "i < n" for i
      using that 1(2) True smallest_child [OF that] unfolding heap_except_def by (metis)
    ultimately show ?thesis by (simp add: is_heap_def)
  next
    case False
    then show ?thesis
      using 1(1) [OF refl False] heap_except_swap [OF 1(2,3) False] 1(3) by (simp add: sift_down.simps [of h] Let_def)
  qed
qed

lemma sift_down_perm:
  "n \<le> length h \<Longrightarrow> c < length h \<Longrightarrow> length (sift_down h n c) = length h \<and> mset (sift_down h n c) = mset h \<and>
     (\<forall>k. n \<le> k \<longrightarrow> c < n \<longrightarrow> sift_down h n c ! k = h ! k)"
proof (induction h n c rule: sift_down.induct)
  case (1 h n c)
  show ?case
  proof (cases "smallest_of h n c = c")
    case True
    then show ?thesis by (simp add: sift_down.simps)
  next
    case False
    let ?s = "smallest_of h n c"
    note sl = smallest_lt [OF False]
    have "sift_down h n c = sift_down (swap_at ?s c h) n ?s" using False by (simp add: sift_down.simps [of h] Let_def)
    moreover have "swap_at ?s c h ! k = h ! k" if "n \<le> k" for k
      using that sl by (auto simp: swap_at_def)
    ultimately show ?thesis using 1(1) [OF refl False] 1(2,3) sl by auto
  qed
qed

text \<open>A heap in which only \<open>c\<close> may be below its parent.\<close>

definition heap_above :: "nat \<Rightarrow> ftx_candidate list \<Rightarrow> nat \<Rightarrow> bool" where
  "heap_above n h c \<longleftrightarrow> (\<forall>i. 0 < i \<longrightarrow> i < n \<longrightarrow> i \<noteq> c \<longrightarrow> cand_score (h ! parent i) \<le> cand_score (h ! i)) \<and>
     (\<forall>i. 0 < i \<longrightarrow> i < n \<longrightarrow> parent i = c \<longrightarrow> 0 < c \<longrightarrow> cand_score (h ! parent c) \<le> cand_score (h ! i))"

lemma heap_above_swap:
  assumes h: "heap_above n h c" and n: "n \<le> length h" and c: "0 < c" "c < n"
    and lt: "cand_score (h ! c) < cand_score (h ! parent c)"
  shows "heap_above n (swap_at (parent c) c h) (parent c)"
proof -
  let ?p = "parent c" and ?h = "swap_at (parent c) c h"
  have pc: "?p < c" using c by simp
  have nth: "?h ! k = (if k = c then h ! ?p else if k = ?p then h ! c else h ! k)" if "k < n" for k
  proof -
    have "?p < length h" "c < length h" "k < length h" using that pc c n by linarith+
    then show ?thesis by (simp add: nth_swap_at)
  qed
  show ?thesis
    unfolding heap_above_def
  proof (intro conjI allI impI)
    fix i assume i: "0 < i" "i < n" "i \<noteq> ?p"
    have pn: "parent i < n" using parent_less [OF i(1)] i(2) by linarith
    consider "i = c" | "i \<noteq> c" "parent i = c" | "i \<noteq> c" "parent i = ?p" | "i \<noteq> c" "parent i \<noteq> c" "parent i \<noteq> ?p" by blast
    then show "cand_score (?h ! parent i) \<le> cand_score (?h ! i)"
    proof cases
      case 1
      then show ?thesis using nth c pc lt by simp
    next
      case 2
      then show ?thesis using nth i pn h c(1) unfolding heap_above_def by auto
    next
      case 3
      then have "cand_score (h ! ?p) \<le> cand_score (h ! i)" using h i unfolding heap_above_def by metis
      then show ?thesis using 3 nth i pn pc lt by simp
    next
      case 4
      then show ?thesis using nth i pn h unfolding heap_above_def by auto
    qed
  next
    fix i assume i: "0 < i" "i < n" "parent i = ?p" "0 < ?p"
    have pp: "parent ?p < n" "parent ?p \<noteq> c" "parent ?p \<noteq> ?p" using parent_less [OF i(4)] pc c by linarith+
    have "?p < n" "?p \<noteq> c" using pc c by linarith+
    then have g: "cand_score (h ! parent ?p) \<le> cand_score (h ! ?p)" using h i(4) unfolding heap_above_def by blast
    have "i \<noteq> ?p" using parent_less [OF i(1)] i(3) by auto
    show "cand_score (?h ! parent ?p) \<le> cand_score (?h ! i)"
    proof (cases "i = c")
      case True
      then show ?thesis using nth pp i g by simp
    next
      case False
      then have "cand_score (h ! ?p) \<le> cand_score (h ! i)" using h i unfolding heap_above_def by metis
      then show ?thesis using nth [OF pp(1)] nth [OF i(2)] pp g False \<open>i \<noteq> ?p\<close> by simp
    qed
  qed
qed

lemma sift_up_heap:
  "heap_above n h c \<Longrightarrow> n \<le> length h \<Longrightarrow> c < n \<Longrightarrow> is_heap n (sift_up h c) \<and> length (sift_up h c) = length h \<and> mset (sift_up h c) = mset h"
proof (induction h c rule: sift_up.induct)
  case (1 h c)
  show ?case
  proof (cases "0 < c \<and> cand_score (h ! c) < cand_score (h ! parent c)")
    case True
    then have e: "sift_up h c = sift_up (swap_at (parent c) c h) (parent c)"
      by (simp add: sift_up.simps [of h] parent_def Let_def)
    have pc: "parent c < c" using True by simp
    show ?thesis
      using 1(1) [of "parent c"] heap_above_swap [OF 1(2,3)] True 1(3,4) pc unfolding e by (auto simp: parent_def)
  next
    case False
    then have e: "sift_up h c = h" by (auto simp: sift_up.simps [of h] parent_def Let_def)
    have "cand_score (h ! parent i) \<le> cand_score (h ! i)" if "0 < i" "i < n" for i
      using that 1(2) False unfolding heap_above_def by (cases "i = c") auto
    then show ?thesis by (simp add: e is_heap_def)
  qed
qed

section \<open>The best candidates\<close>

lemma heap_root_min: "is_heap n h \<Longrightarrow> i < n \<Longrightarrow> cand_score (h ! 0) \<le> cand_score (h ! i)"
proof (induction i rule: less_induct)
  case (less i)
  show ?case
  proof (cases "i = 0")
    case False
    then have p: "0 < i" "parent i < i" by simp_all
    then have "cand_score (h ! 0) \<le> cand_score (h ! parent i)" using less by simp
    also have "\<dots> \<le> cand_score (h ! i)" using less.prems p(1) unfolding is_heap_def by blast
    finally show ?thesis .
  qed simp
qed

lemma heapify_down_heap:
  assumes "is_heap (Suc n) h" and "n < length h" and "h' = h[0 := x]"
  shows "is_heap n (heapify_down h' n)" and "0 < n \<Longrightarrow> mset (heapify_down h' n) = mset h'"
    and "length (heapify_down h' n) = length h'" and "\<And>k. n \<le> k \<Longrightarrow> 0 < n \<Longrightarrow> heapify_down h' n ! k = h' ! k"
proof -
  have "heap_except n h' 0"
    using assms unfolding heap_except_def is_heap_def by (auto simp: nth_list_update parent_def)
  then show "is_heap n (heapify_down h' n)" unfolding heapify_down_def using assms by (intro sift_down_heap) simp_all
  have "0 < length h'" using assms by auto
  then show "0 < n \<Longrightarrow> mset (heapify_down h' n) = mset h'" "length (heapify_down h' n) = length h'"
    "\<And>k. n \<le> k \<Longrightarrow> 0 < n \<Longrightarrow> heapify_down h' n ! k = h' ! k"
    unfolding heapify_down_def using sift_down_perm [of n h' 0] assms by auto
qed

lemma heapify_up_heap:
  assumes "is_heap (length h) h"
  shows "is_heap (Suc (length h)) (heapify_up (h @ [c]) (Suc (length h)))"
    and "length (heapify_up (h @ [c]) (Suc (length h))) = Suc (length h)"
    and "mset (heapify_up (h @ [c]) (Suc (length h))) = add_mset c (mset h)"
proof -
  have "heap_above (Suc (length h)) (h @ [c]) (length h)"
    unfolding heap_above_def
  proof (intro conjI allI impI)
    fix i assume i: "0 < i" "i < Suc (length h)" "i \<noteq> length h"
    then have "parent i < length h" using parent_less [OF i(1)] by linarith
    then show "cand_score ((h @ [c]) ! parent i) \<le> cand_score ((h @ [c]) ! i)"
      using assms i unfolding is_heap_def by (simp add: nth_append)
  next
    fix i assume "0 < i" "i < Suc (length h)" "parent i = length h" "0 < length h"
    then show "cand_score ((h @ [c]) ! parent (length h)) \<le> cand_score ((h @ [c]) ! i)"
      using parent_less [of i] by linarith
  qed
  note s = sift_up_heap [OF this]
  show "is_heap (Suc (length h)) (heapify_up (h @ [c]) (Suc (length h)))"
    "length (heapify_up (h @ [c]) (Suc (length h))) = Suc (length h)"
    "mset (heapify_up (h @ [c]) (Suc (length h))) = add_mset c (mset h)"
    using s by (simp_all add: heapify_up_def)
qed

text \<open>What the search has kept of the candidates seen so far.\<close>

definition top_of :: "nat \<Rightarrow> ftx_candidate list \<Rightarrow> ftx_candidate multiset \<Rightarrow> bool" where
  "top_of N h seen \<longleftrightarrow> mset h \<subseteq># seen \<and> length h = min N (size seen) \<and>
     (\<forall>c. c \<in># seen - mset h \<longrightarrow> (\<forall>k\<in>set h. cand_score c \<le> cand_score k))"

definition passing :: "int \<Rightarrow> ftx_candidate list \<Rightarrow> ftx_candidate multiset" where
  "passing min_score cs = mset (filter (\<lambda>c. min_score \<le> cand_score c) cs)"

lemma top_of_mset: "mset h = mset h' \<Longrightarrow> top_of N h seen \<Longrightarrow> top_of N h' seen"
  unfolding top_of_def by (metis set_mset_mset size_mset)

lemma keep_candidate_top:
  assumes N: "0 < N" and h: "is_heap (length h) h" and t: "top_of N h seen" and c: "min_score \<le> cand_score c"
  shows "is_heap (length (keep_candidate N min_score h c)) (keep_candidate N min_score h c)"
    and "top_of N (keep_candidate N min_score h c) (add_mset c seen)"
proof -
  have sub: "mset h \<subseteq># seen" and len: "length h = min N (size seen)"
    and rest: "\<And>d k. d \<in># seen - mset h \<Longrightarrow> k \<in> set h \<Longrightarrow> cand_score d \<le> cand_score k"
    using t unfolding top_of_def by blast+
  consider (grow) "length h < N" | (replace) "length h = N" "cand_score (h ! 0) < cand_score c"
    | (drop) "length h = N" "cand_score c \<le> cand_score (h ! 0)"
    using len by linarith
  then have "is_heap (length (keep_candidate N min_score h c)) (keep_candidate N min_score h c) \<and>
      top_of N (keep_candidate N min_score h c) (add_mset c seen)"
  proof cases
    case grow
    then have e: "keep_candidate N min_score h c = heapify_up (h @ [c]) (Suc (length h))"
      using c by (simp add: keep_candidate_def)
    note u = heapify_up_heap [OF h, of c]
    have seen: "mset h = seen" using grow len sub by (metis min_def mset_subset_size nless_le size_mset subset_mset.le_imp_less_or_eq less_irrefl)
    have "top_of N (heapify_up (h @ [c]) (Suc (length h))) (add_mset c seen)"
      unfolding top_of_def u seen using grow seen by (auto simp: u simp flip: size_mset)
    then show ?thesis using u unfolding e by simp
  next
    case drop
    then have e: "keep_candidate N min_score h c = h" using c by (simp add: keep_candidate_def)
    have "cand_score d \<le> cand_score k" if d: "d \<in># add_mset c seen - mset h" and k: "k \<in> set h" for d k
    proof (cases "d \<in># seen - mset h")
      case False
      have "add_mset c seen - mset h = add_mset c (seen - mset h)" using subset_mset.add_diff_assoc2 [OF sub, of "{#c#}"] by simp
      then have "d = c" using d False by simp
      moreover obtain i where "i < length h" "k = h ! i" using k by (metis in_set_conv_nth)
      ultimately show ?thesis using drop heap_root_min [OF h] by fastforce
    qed (use rest k in blast)
    then have "top_of N h (add_mset c seen)"
      using sub len drop unfolding top_of_def by (auto intro: subset_mset.order_trans)
    then show ?thesis using h unfolding e by simp
  next
    case replace
    then obtain r t where ht: "h = r # t" using N by (cases h) auto
    let ?n = "length t"
    define bs where "bs = butlast (h[0 := last h])"
    have b: "length bs = ?n" "mset bs = mset t"
      unfolding bs_def using ht by (cases t rule: rev_cases; simp)+
    have "heap_except ?n bs 0"
    proof -
      have nth: "bs ! k = h ! k" if "0 < k" "k < ?n" for k
        using that ht by (cases k) (auto simp: nth_butlast bs_def)
      have "cand_score (bs ! parent i) \<le> cand_score (bs ! i)" if i: "0 < i" "i < ?n" "parent i \<noteq> 0" for i
      proof -
        have "i < length h" using i ht by simp
        then have "cand_score (h ! parent i) \<le> cand_score (h ! i)" using h i(1) unfolding is_heap_def by blast
        moreover have "bs ! i = h ! i" "bs ! parent i = h ! parent i"
          by (rule nth; use i parent_less [OF i(1)] in linarith)+
        ultimately show ?thesis by (simp only:)
      qed
      then show ?thesis unfolding heap_except_def by blast
    qed
    then have k: "is_heap ?n (heapify_down bs ?n)"
      unfolding heapify_down_def by (rule sift_down_heap) (simp only: b order_refl)
    have km: "mset (heapify_down bs ?n) = mset t \<and> length (heapify_down bs ?n) = ?n"
    proof (cases "t = []")
      case True
      then show ?thesis using ht by (simp add: bs_def heapify_down_def sift_down.simps smallest_of_def)
    next
      case False
      then show ?thesis using sift_down_perm [of ?n bs 0] b by (simp add: heapify_down_def)
    qed
    let ?k = "heapify_down bs ?n"
    have e: "keep_candidate N min_score h c = heapify_up (?k @ [c]) (Suc (length ?k))"
    proof -
      have c: "(cand_score c < min_score) = False" "(length h = N \<and> cand_score (h ! 0) < cand_score c) = True"
        "length h - 1 = ?n" "(length ?k < N) = True"
        using c replace ht km by simp_all
      show ?thesis unfolding keep_candidate_def Let_def c if_False if_True bs_def [symmetric] by simp
    qed
    have kh: "is_heap (length ?k) ?k" using k km by simp
    note u = heapify_up_heap [OF kh, of c]
    have root: "cand_score r \<le> cand_score x" if x: "x \<in> set t" for x
    proof -
      obtain j where "j < length t" "t ! j = x" using x unfolding in_set_conv_nth by blast
      then show ?thesis using heap_root_min [OF h, of "Suc j"] ht by simp
    qed
    have "mset t \<subseteq># mset h" unfolding ht by simp
    then have sub_t: "mset t \<subseteq># seen" using sub by (rule subset_mset.order_trans)
    have "seen = mset t + add_mset r (seen - mset h)"
      using subset_mset.add_diff_inverse [OF sub] unfolding ht by simp
    then have "seen - mset t = add_mset r (seen - mset h)" by (metis add_diff_cancel_left')
    then have "cand_score d \<le> cand_score x"
      if "d \<in># add_mset c seen - add_mset c (mset t)" "x \<in># add_mset c (mset t)" for d x
      using that root rest ht replace(2) by fastforce
    moreover define K where "K = heapify_up (?k @ [c]) (Suc (length ?k))"
    moreover have mk: "mset K = add_mset c (mset t)" using u(3) km by (simp add: K_def)
    moreover have "set K = set_mset (add_mset c (mset t))" using mk by (metis set_mset_mset)
    moreover have "length K = N" using u(2) km replace(1) ht by (simp add: K_def)
    moreover have "N \<le> size seen" using len replace(1) by simp
    ultimately have "top_of N K (add_mset c seen)"
      using sub_t unfolding top_of_def by auto
    then have "top_of N (keep_candidate N min_score h c) (add_mset c seen)" unfolding e K_def .
    then show ?thesis using u(1,2) unfolding e by simp
  qed
  then show "is_heap (length (keep_candidate N min_score h c)) (keep_candidate N min_score h c)"
    "top_of N (keep_candidate N min_score h c) (add_mset c seen)" by blast+
qed

lemma keep_below: "cand_score c < min_score \<Longrightarrow> keep_candidate N min_score h c = h"
  by (simp add: keep_candidate_def)

lemma best_candidates_top:
  assumes N: "0 < N"
  shows "is_heap (length (best_candidates N m cs)) (best_candidates N m cs) \<and> top_of N (best_candidates N m cs) (passing m cs)"
proof (induction cs rule: rev_induct)
  case Nil
  show ?case by (simp add: best_candidates_def is_heap_def top_of_def passing_def)
next
  case (snoc c cs)
  then have h: "is_heap (length (best_candidates N m cs)) (best_candidates N m cs)" "top_of N (best_candidates N m cs) (passing m cs)"
    by blast+
  show ?case
  proof (cases "m \<le> cand_score c")
    case True
    then have "passing m (cs @ [c]) = add_mset c (passing m cs)" by (simp add: passing_def)
    moreover have "best_candidates N m (cs @ [c]) = keep_candidate N m (best_candidates N m cs) c"
      by (simp add: best_candidates_def)
    ultimately show ?thesis using keep_candidate_top [OF N h True] by simp
  next
    case False
    then have "passing m (cs @ [c]) = passing m cs" by (simp add: passing_def)
    moreover have "best_candidates N m (cs @ [c]) = best_candidates N m cs"
      using False by (simp add: best_candidates_def keep_below)
    ultimately show ?thesis using h by simp
  qed
qed

section \<open>Heapsort\<close>

definition sort_inv :: "nat \<Rightarrow> ftx_candidate list \<Rightarrow> bool" where
  "sort_inv n h \<longleftrightarrow> n \<le> length h \<and> is_heap n h \<and>
     (\<forall>x\<in>set (take n h). \<forall>y\<in>set (drop n h). cand_score y \<le> cand_score x) \<and>
     sorted_wrt (\<lambda>x y. cand_score y \<le> cand_score x) (drop n h)"

lemma sort_step:
  assumes s: "sort_inv (Suc n) h" and n: "0 < n"
  defines "h' \<equiv> heapify_down (swap_at n 0 h) n"
  shows "sort_inv n h'" and "mset h' = mset h"
proof -
  have len: "n < length h" and hp: "is_heap (Suc n) h" using s by (auto simp: sort_inv_def)
  let ?g = "swap_at n 0 h"
  have g: "?g ! 0 = h ! n" "?g ! n = h ! 0" "\<And>i. 0 < i \<Longrightarrow> i \<noteq> n \<Longrightarrow> ?g ! i = h ! i" "length ?g = length h"
  proof -
    have "0 < length h" using len by linarith
    then show "?g ! 0 = h ! n" "?g ! n = h ! 0" "\<And>i. 0 < i \<Longrightarrow> i \<noteq> n \<Longrightarrow> ?g ! i = h ! i" "length ?g = length h"
      using len n by (simp_all add: swap_at_def nth_list_update)
  qed
  have "heap_except n ?g 0"
    unfolding heap_except_def
  proof (intro conjI allI impI)
    fix i assume i: "0 < i" "i < n" "parent i \<noteq> 0"
    then have "?g ! i = h ! i" "?g ! parent i = h ! parent i" using g(3) [of i] g(3) [of "parent i"] parent_less [OF i(1)] by auto
    then show "cand_score (?g ! parent i) \<le> cand_score (?g ! i)" using hp i unfolding is_heap_def by simp
  qed simp
  then have hp': "is_heap n h'" unfolding h'_def heapify_down_def using len g(4) by (intro sift_down_heap) simp_all
  have perm: "length h' = length h" "mset h' = mset ?g" "\<And>k. n \<le> k \<Longrightarrow> h' ! k = ?g ! k"
  proof -
    have "n \<le> length ?g" "0 < length ?g" using len g(4) by linarith+
    note p = sift_down_perm [OF this]
    have h': "h' = sift_down ?g n 0" by (simp add: h'_def heapify_down_def)
    show "length h' = length h" using p unfolding h' g(4) by blast
    show "mset h' = mset ?g" using p unfolding h' by blast
    show "h' ! k = ?g ! k" if "n \<le> k" for k using p that n unfolding h' by blast
  qed
  have mg: "mset ?g = mset h" using len by (intro mset_swap_at) auto
  show "mset h' = mset h" using perm(2) mg by simp
  have d: "drop n h' = h ! 0 # drop (Suc n) h"
  proof (rule nth_equalityI)
    fix i assume "i < length (drop n h')"
    then show "drop n h' ! i = (h ! 0 # drop (Suc n) h) ! i"
      using perm(1,3) g len by (cases i) auto
  qed (use perm(1) len in auto)
  have "mset (take n h') + mset (drop n h') = mset (take (Suc n) h) + mset (drop (Suc n) h)"
    using perm(2) mg by (metis append_take_drop_id mset_append)
  then have "add_mset (h ! 0) (mset (take n h')) = mset (take (Suc n) h)" unfolding d by simp
  then have "set_mset (mset (take n h')) \<subseteq> set_mset (mset (take (Suc n) h))" by (metis set_mset_add_mset_insert subset_insertI)
  then have sub: "set (take n h') \<subseteq> set (take (Suc n) h)" by simp
  have root: "cand_score (h ! 0) \<le> cand_score x" if x: "x \<in> set (take (Suc n) h)" for x
  proof -
    obtain i where "i < Suc n" "h ! i = x" using x len by (auto simp: in_set_conv_nth)
    then show ?thesis using heap_root_min [OF hp] by blast
  qed
  have z: "h ! 0 \<in> set (take (Suc n) h)" using len by (force simp: in_set_conv_nth)
  have "\<forall>x\<in>set (take (Suc n) h). \<forall>y\<in>set (drop (Suc n) h). cand_score y \<le> cand_score x"
    "sorted_wrt (\<lambda>x y. cand_score y \<le> cand_score x) (drop (Suc n) h)"
    using s by (auto simp: sort_inv_def)
  then show "sort_inv n h'"
    unfolding sort_inv_def d using hp' perm(1) len root sub z by auto
qed

lemma sort_down_sorts:
  "sort_inv n h \<Longrightarrow> sorted_wrt (\<lambda>x y. cand_score y \<le> cand_score x) (sort_down n h) \<and> mset (sort_down n h) = mset h"
proof (induction n arbitrary: h)
  case 0
  then show ?case by (simp add: sort_down.simps sort_inv_def)
next
  case (Suc n)
  show ?case
  proof (cases "0 < n")
    case True
    then have "sort_down (Suc n) h = sort_down n (heapify_down (swap_at n 0 h) n)" by (simp add: sort_down.simps [of "Suc n"])
    then show ?thesis using Suc.IH sort_step [OF Suc.prems True] by simp
  next
    case False
    then have e: "n = 0" by simp
    then obtain x t where "h = x # t" using Suc.prems by (cases h) (auto simp: sort_inv_def)
    then show ?thesis using Suc.prems e by (auto simp: sort_down.simps sort_inv_def)
  qed
qed

text \<open>The best candidates, sorted.\<close>

definition sorted_candidates :: "nat \<Rightarrow> int \<Rightarrow> ftx_candidate list \<Rightarrow> ftx_candidate list" where
  "sorted_candidates N m cs = (let h = best_candidates N m cs in sort_down (length h) h)"

lemma sorted_candidates_top:
  assumes "0 < N"
  shows "sorted_wrt (\<lambda>x y. cand_score y \<le> cand_score x) (sorted_candidates N m cs)"
    and "top_of N (sorted_candidates N m cs) (passing m cs)"
proof -
  let ?h = "best_candidates N m cs"
  have h: "is_heap (length ?h) ?h" "top_of N ?h (passing m cs)" using best_candidates_top [OF assms, of m cs] by blast+
  then have "sort_inv (length ?h) ?h" by (simp add: sort_inv_def)
  note s = sort_down_sorts [OF this]
  show "sorted_wrt (\<lambda>x y. cand_score y \<le> cand_score x) (sorted_candidates N m cs)"
    using s by (simp add: sorted_candidates_def Let_def)
  show "top_of N (sorted_candidates N m cs) (passing m cs)"
    unfolding sorted_candidates_def Let_def using s h(2) by (metis top_of_mset)
qed

end
