(* ===== verification/FtxDecode.thy ===== *)
theory FtxDecode
  imports FtxMessage FtxLdpc FtxHeap "HOL-Library.Signed_Division"
begin

text \<open>
  The FT8/FT4 decoder of the bundled library (\<open>ft8_lib/ft8/decode.c\<close>): synchronisation scores,
  candidate search, bit likelihoods of a candidate, their normalisation, and the three decoding
  entry points with the CRC gate.  The waterfall array is a function from the index, because
  candidates may start before its first block; the counters \<open>time_sub\<close> and \<open>freq_sub\<close> are bytes
  in the code, so the oversampling rates are taken to be below 256.
\<close>

datatype ftx_protocol = FT4 | FT8

record ftx_waterfall =
  max_blocks :: int
  num_blocks :: int
  num_bins :: int
  time_osr :: nat
  freq_osr :: nat
  mag :: "int \<Rightarrow> u8"
  block_stride :: int
  protocol :: ftx_protocol

definition wf_elem_mag :: "u8 \<Rightarrow> f32" where
  "wf_elem_mag x = fsub (fmul (of_int (uint x)) (1 / 2)) 120"

definition wf_elem_mag_int :: "u8 \<Rightarrow> int" where
  "wf_elem_mag_int x = uint x"

text \<open>The index of the candidate's first symbol.\<close>

definition get_cand_mag :: "ftx_waterfall \<Rightarrow> ftx_candidate \<Rightarrow> int" where
  "get_cand_mag wfl c =
     (let offset = time_offset c;
          offset = offset * int (time_osr wfl) + int (time_sub c);
          offset = offset * int (freq_osr wfl) + int (freq_sub c)
      in offset * num_bins wfl + freq_offset c)"

section \<open>Synchronisation scores\<close>

text \<open>
  The terms one synchronisation symbol adds to the score: the expected bin against its neighbours
  in frequency (\<open>hi_tone\<close> is the highest tone) and in time (\<open>n_sync\<close> symbols in the group).
\<close>

definition sync_terms :: "ftx_waterfall \<Rightarrow> int \<Rightarrow> nat \<Rightarrow> nat \<Rightarrow> int \<Rightarrow> nat \<Rightarrow> int \<Rightarrow> int list" where
  "sync_terms wfl p hi_tone n_sync sm k block_abs =
     (let w = (\<lambda>i. wf_elem_mag_int (mag wfl (p + i)))
      in (if 0 < sm then [w sm - w (sm - 1)] else [])
         @ (if sm < int hi_tone then [w sm - w (sm + 1)] else [])
         @ (if 0 < k \<and> 0 < block_abs then [w sm - w (sm - block_stride wfl)] else [])
         @ (if k + 1 < n_sync \<and> block_abs + 1 < num_blocks wfl then [w sm - w (sm + block_stride wfl)] else []))"

text \<open>One group of \<open>n_sync\<close> synchronisation symbols that starts at block \<open>base\<close>: the sum and the count.\<close>

fun sync_group ::
  "ftx_waterfall \<Rightarrow> ftx_candidate \<Rightarrow> nat \<Rightarrow> nat \<Rightarrow> int \<Rightarrow> u8 list \<Rightarrow> nat \<Rightarrow> int \<times> int \<Rightarrow> int \<times> int" where
  "sync_group wfl c hi_tone n_sync base [] k st = st"
| "sync_group wfl c hi_tone n_sync base (sm # sms) k (score, num_average) =
     (let block = base + int k; block_abs = time_offset c + block
      in if block_abs < 0 then sync_group wfl c hi_tone n_sync base sms (k + 1) (score, num_average)
         else if num_blocks wfl \<le> block_abs then (score, num_average)
         else
           (let ts = sync_terms wfl (get_cand_mag wfl c + block * block_stride wfl) hi_tone n_sync (uint sm) k block_abs
            in sync_group wfl c hi_tone n_sync base sms (k + 1) (score + sum_list ts, num_average + int (length ts))))"

definition mean_score :: "int \<times> int \<Rightarrow> int" where
  "mean_score st = (let (score, num_average) = st in if 0 < num_average then score sdiv num_average else score)"

definition ft8_sync_score :: "ftx_waterfall \<Rightarrow> ftx_candidate \<Rightarrow> int" where
  "ft8_sync_score wfl c =
     mean_score (foldl (\<lambda>st m. sync_group wfl c 7 7 (36 * int m) kFT8_Costas_pattern 0 st) (0, 0) [0..<3])"

definition ft4_sync_score :: "ftx_waterfall \<Rightarrow> ftx_candidate \<Rightarrow> int" where
  "ft4_sync_score wfl c =
     mean_score (foldl (\<lambda>st m. sync_group wfl c 3 4 (1 + 33 * int m) (kFT4_Costas_pattern ! m) 0 st) (0, 0) [0..<4])"

section \<open>Candidate search\<close>

text \<open>The candidates of the search in the order of its loops, with their scores.\<close>

definition num_tones :: "ftx_waterfall \<Rightarrow> int" where
  "num_tones wfl = (if protocol wfl = FT4 then 4 else 8)"

definition scored :: "ftx_waterfall \<Rightarrow> ftx_candidate \<Rightarrow> ftx_candidate" where
  "scored wfl c = c\<lparr>cand_score := (if protocol wfl = FT4 then ft4_sync_score wfl c else ft8_sync_score wfl c)\<rparr>"

definition search_space :: "ftx_waterfall \<Rightarrow> int \<Rightarrow> int \<Rightarrow> ftx_candidate list" where
  "search_space wfl freq_offset_start freq_offset_end =
     (let freq_end = (if freq_offset_end < 0 then num_bins wfl else freq_offset_end)
      in [scored wfl \<lparr>cand_score = 0, time_offset = int t, freq_offset = f, time_sub = ts, freq_sub = fs\<rparr>.
            ts \<leftarrow> [0..<time_osr wfl], fs \<leftarrow> [0..<freq_osr wfl], t \<leftarrow> [0..<30],
            f \<leftarrow> [freq_offset_start..min freq_end (num_bins wfl - num_tones wfl + 1) - 1]])"

definition ftx_find_candidates_range ::
  "ftx_waterfall \<Rightarrow> nat \<Rightarrow> int \<Rightarrow> int \<Rightarrow> int \<Rightarrow> ftx_candidate list" where
  "ftx_find_candidates_range wfl num_candidates min_score freq_offset_start freq_offset_end =
     best_candidates num_candidates min_score (search_space wfl freq_offset_start freq_offset_end)"

definition ftx_find_candidates :: "ftx_waterfall \<Rightarrow> nat \<Rightarrow> int \<Rightarrow> ftx_candidate list" where
  "ftx_find_candidates wfl num_candidates min_score =
     (let heap = ftx_find_candidates_range wfl num_candidates min_score 0 (-1) in sort_down (length heap) heap)"

section \<open>Likelihoods\<close>

definition max2 :: "f32 \<Rightarrow> f32 \<Rightarrow> f32" where "max2 a b = (if b \<le> a then a else b)"
definition max4 :: "f32 \<Rightarrow> f32 \<Rightarrow> f32 \<Rightarrow> f32 \<Rightarrow> f32" where "max4 a b c d = max2 (max2 a b) (max2 c d)"

text \<open>The log-likelihood ratios of the bits of one symbol; \<open>w i\<close> is the element of tone \<open>i\<close>.\<close>

definition ft4_extract_symbol :: "(int \<Rightarrow> u8) \<Rightarrow> f32 list" where
  "ft4_extract_symbol w =
     (let s2 = map (\<lambda>g. wf_elem_mag (w (uint g))) kFT4_Gray_map
      in [fsub (max2 (s2 ! 2) (s2 ! 3)) (max2 (s2 ! 0) (s2 ! 1)),
          fsub (max2 (s2 ! 1) (s2 ! 3)) (max2 (s2 ! 0) (s2 ! 2))])"

definition ft8_extract_symbol :: "(int \<Rightarrow> u8) \<Rightarrow> f32 list" where
  "ft8_extract_symbol w =
     (let s2 = map (\<lambda>g. wf_elem_mag (w (uint g))) kFT8_Gray_map
      in [fsub (max4 (s2 ! 4) (s2 ! 5) (s2 ! 6) (s2 ! 7)) (max4 (s2 ! 0) (s2 ! 1) (s2 ! 2) (s2 ! 3)),
          fsub (max4 (s2 ! 2) (s2 ! 3) (s2 ! 6) (s2 ! 7)) (max4 (s2 ! 0) (s2 ! 1) (s2 ! 4) (s2 ! 5)),
          fsub (max4 (s2 ! 1) (s2 ! 3) (s2 ! 5) (s2 ! 7)) (max4 (s2 ! 0) (s2 ! 2) (s2 ! 4) (s2 ! 6))])"

definition symbol_llr ::
  "ftx_waterfall \<Rightarrow> ftx_candidate \<Rightarrow> nat \<Rightarrow> ((int \<Rightarrow> u8) \<Rightarrow> f32 list) \<Rightarrow> nat \<Rightarrow> f32 list" where
  "symbol_llr wfl c sym_idx extract n_bits =
     (let block = time_offset c + int sym_idx
      in if block < 0 \<or> num_blocks wfl \<le> block then replicate n_bits 0
         else extract (\<lambda>i. mag wfl (get_cand_mag wfl c + int sym_idx * block_stride wfl + i)))"

definition ft4_extract_likelihood :: "ftx_waterfall \<Rightarrow> ftx_candidate \<Rightarrow> f32 list" where
  "ft4_extract_likelihood wfl c =
     concat (map (\<lambda>k. symbol_llr wfl c (k + (if k < 29 then 5 else if k < 58 then 9 else 13)) ft4_extract_symbol 2) [0..<87])"

definition ft8_extract_likelihood :: "ftx_waterfall \<Rightarrow> ftx_candidate \<Rightarrow> f32 list" where
  "ft8_extract_likelihood wfl c =
     concat (map (\<lambda>k. symbol_llr wfl c (k + (if k < 29 then 7 else 14)) ft8_extract_symbol 3) [0..<58])"

definition ftx_get_ft8_llr :: "ftx_waterfall \<Rightarrow> ftx_candidate \<Rightarrow> f32 list" where
  "ftx_get_ft8_llr wfl c = ft8_extract_likelihood wfl c"

definition ftx_normalize_logl :: "fmath \<Rightarrow> f32 list \<Rightarrow> f32 list" where
  "ftx_normalize_logl fm log174 =
     (let (sum, sum2) = llr_sums log174;
          inv_n = fdiv 1 174;
          variance = fmul (fsub sum2 (fmul (fmul sum sum) inv_n)) inv_n
      in if variance < r32 (1 / 1000000) then replicate osd_N 0
         else let norm_factor = m_sqrt fm (fdiv 24 variance) in map (\<lambda>x. fmul x norm_factor) log174)"

section \<open>Decoding\<close>

record decode_status =
  ldpc_errors :: int
  crc_extracted :: u16
  crc_calculated :: u16

text \<open>The CRC gate on decoded bits: the packed bits without the CRC field, and the CRC.\<close>

definition crc_gate :: "u8 list \<Rightarrow> decode_status \<Rightarrow> (u8 list \<times> u16) option \<times> decode_status" where
  "crc_gate plain174 status =
     (let a91 = pack_bits plain174 FTX_LDPC_K;
          status = status\<lparr>crc_extracted := ftx_extract_crc a91\<rparr>;
          a91 = clear_crc a91;
          status = status\<lparr>crc_calculated := ftx_compute_crc a91 (96 - 14)\<rparr>
      in (if crc_extracted status \<noteq> crc_calculated status then None else Some (a91, crc_calculated status), status))"

text \<open>Whether decoding succeeded, and the caller's message and status afterwards.\<close>

definition ftx_decode_from_bits ::
  "u8 list \<Rightarrow> ftx_message \<Rightarrow> decode_status \<Rightarrow> bool \<times> ftx_message \<times> decode_status" where
  "ftx_decode_from_bits plain174 message status =
     (case crc_gate plain174 (status\<lparr>ldpc_errors := 0\<rparr>) of
        (None, status) \<Rightarrow> (False, message, status)
      | (Some (a91, crc), status) \<Rightarrow> (True, \<lparr>payload_of = take 10 a91, msg_hash = crc\<rparr>, status))"

text \<open>\<open>plain0\<close> is the uninitialised local array \<open>plain174\<close>.\<close>

definition ftx_decode_from_llr ::
  "fmath \<Rightarrow> u8 list \<Rightarrow> f32 list \<Rightarrow> int \<Rightarrow> ftx_message \<Rightarrow> decode_status \<Rightarrow> bool \<times> ftx_message \<times> decode_status" where
  "ftx_decode_from_llr fm plain0 log174_in max_iterations message status =
     (let log174 = ftx_normalize_logl fm log174_in;
          (plain174, errors) = bp_decode log174 max_iterations plain0;
          status = status\<lparr>ldpc_errors := int errors\<rparr>
      in if 0 < errors then (False, message, status)
         else
           (case crc_gate plain174 status of
              (None, status) \<Rightarrow> (False, message, status)
            | (Some (a91, crc), status) \<Rightarrow> (True, \<lparr>payload_of = take 10 a91, msg_hash = crc\<rparr>, status)))"

definition ftx_decode_candidate ::
  "fmath \<Rightarrow> u8 list \<Rightarrow> ftx_waterfall \<Rightarrow> ftx_candidate \<Rightarrow> int \<Rightarrow> ftx_message \<Rightarrow> decode_status \<Rightarrow>
     bool \<times> ftx_message \<times> decode_status" where
  "ftx_decode_candidate fm plain0 wfl c max_iterations message status =
     (let log174 = (if protocol wfl = FT4 then ft4_extract_likelihood wfl c else ft8_extract_likelihood wfl c);
          log174 = ftx_normalize_logl fm log174;
          (plain174, errors) = bp_decode log174 max_iterations plain0;
          status = status\<lparr>ldpc_errors := int errors\<rparr>
      in if 0 < errors then (False, message, status)
         else
           (case crc_gate plain174 status of
              (None, status) \<Rightarrow> (False, message, status)
            | (Some (a91, crc), status) \<Rightarrow>
                (True,
                 \<lparr>payload_of = (if protocol wfl = FT4 then map (\<lambda>i. a91 ! i XOR kFT4_XOR_sequence ! i) [0..<10]
                               else take 10 a91),
                  msg_hash = crc\<rparr>, status)))"

end
