(* ===== verification/FtxCode.thy ===== *)
theory FtxCode
  imports FtxLdpc
begin

text \<open>
  The generator table of the FT8 encoder (\<open>encode.c\<close>) and the parity-check tables of the decoders
  (\<open>ldpc.c\<close>, \<open>FT8LdpcCuda.cu\<close>) define the same code: a word satisfies all 83 checks exactly when it
  is the word the encoder builds from its first 91 bits.  One direction is \<open>encode174_checks\<close>; for
  the other, \<open>parity_solution\<close> solves the checks for the 83 parity bits.  A word of the code with
  the right CRC field is then the codeword of its payload (\<open>word_of_payload\<close>).
\<close>

section \<open>Solving the checks for the parity bits\<close>

text \<open>Parity bit \<open>i\<close> of a word is the exclusive or of the results of the checks in \<open>parity_solution ! i\<close>.\<close>

definition parity_solution :: "int list" where
  "parity_solution =
    [7041213783313716212119827, 1588562893242329533033566, 1913931541516859648887520,
     4077142254231177350591405, 4741198973391380505789187, 8905703304306491844040823,
     9011446111495354702792085, 2362306100249696576975618, 1838353860788003676351213,
     3853677715155541469427076, 2276302820821116077099465, 9383611916902590648046931,
     6685977585582885868744766, 8781677750727404677729406, 9173994298099618849598204,
     9296536715069920090138020, 3950892386748282764899622, 6744370001823903550062699,
     1724516581775674923524678, 3919774107570138256181790, 8816840019600596184878752,
     9194643378155839799098285, 8687533868858009613290251, 6061589020351066968043488,
     2389416021595916192739138, 9010806295309512800495044, 8507884967002266109461587,
     8879710569208731142499012, 9637972513829210842172207, 1806267335684592043247138,
     9214136324538402243012866, 4077142110115989274735533, 4606802999339045876288452,
     7226702609637164459197837, 7507808637052088370974281, 9282981558286430765838577,
     4760682077209741269901741, 2211625079399153201400772, 1876338749604205542387680,
     6425005343812039627661338, 9445274186904355350425911, 6061589021476966874886112,
     2251572780833469097478426, 4326541406724413639606566, 6055033179757501983616299,
     1633749444376156393344913, 1700277588424740163573278, 6837093313034714515583038,
     6770420993096636789617935, 8687784965249930264178470, 7202781340651451330901579,
     853027769097644196376742, 386188158393662810058391, 3213122311184885681875765,
     5232147800309946580632508, 4765404443692610915115437, 3303752168065398466490189,
     4154735668473625999860873, 9370327150370899995809122, 7302572199984876510192614,
     6055033179739909797571883, 7522510717777697097267729, 928558015450278986817649,
     8016533861775763873317303, 3312017105069864370166372, 180436383835209032208216,
     7970245198512713063909306, 5789426115548716319005009, 5341430744220828019022336,
     5551112864006070318147531, 5651532660340063751518682, 5431700479366047713025916,
     775098609886501074908322, 5718874395840568862437133, 91270598120418677679204,
     5894445952334583406503138, 8192695420985604078593683, 5299532405819959618419509,
     2877595849515227677556256, 4972506431990204576636898, 9317499365303842552952292,
     7424178669371444082573877, 5942230359089059635627593]"

definition row_solution :: "nat list \<Rightarrow> int" where
  "row_solution ns = foldr (\<lambda>j v. if 91 < j then parity_solution ! (j - 92) XOR v else v) ns 0"

lemma row_solution_unit: "map (\<lambda>r. row_solution (check_row r)) [0..<83] = map (\<lambda>r. 2 ^ r) [0..<83]"
  by code_simp

lemma row_solution_eq: "r < 83 \<Longrightarrow> row_solution (check_row r) = 2 ^ r"
  using arg_cong [OF row_solution_unit, of "\<lambda>xs. xs ! r"] by simp

lemma row_odd_Cons: "row_odd d (j # ns) = (d (j - 1) \<noteq> row_odd d ns)"
  by (simp add: row_odd_def)

lemma row_odd_neq: "row_odd (\<lambda>k. x k \<noteq> y k) ns = (row_odd x ns \<noteq> row_odd y ns)"
  by (induction ns) (auto simp: row_odd_def)

lemma row_odd_solution:
  "\<forall>j\<in>set ns. 1 \<le> j \<Longrightarrow>
   row_odd (\<lambda>k. 91 \<le> k \<and> par 83 (\<lambda>r. bit (parity_solution ! (k - 91)) r \<and> y r)) ns =
   par 83 (\<lambda>r. bit (row_solution ns) r \<and> y r)"
proof (induction ns)
  case (Cons j ns)
  let ?d = "\<lambda>k. 91 \<le> k \<and> par 83 (\<lambda>r. bit (parity_solution ! (k - 91)) r \<and> y r)"
  have IH: "row_odd ?d ns = par 83 (\<lambda>r. bit (row_solution ns) r \<and> y r)" and j: "1 \<le> j" using Cons by simp_all
  show ?case
  proof (cases "91 < j")
    case True
    have "par 83 (\<lambda>r. bit (row_solution (j # ns)) r \<and> y r) =
        par 83 (\<lambda>r. (bit (parity_solution ! (j - 92)) r \<and> y r) \<noteq> (bit (row_solution ns) r \<and> y r))"
      using True by (intro par_cong) (auto simp: row_solution_def bit_xor_iff)
    moreover have "91 \<le> j - 1" "j - 1 - 91 = j - 92" using True by linarith+
    ultimately show ?thesis unfolding row_odd_Cons IH par_neq by (simp only: simp_thms)
  next
    case False
    then have "\<not> 91 \<le> j - 1" using j by linarith
    moreover have "row_solution (j # ns) = row_solution ns" using False by (simp add: row_solution_def)
    ultimately show ?thesis unfolding row_odd_Cons IH by (simp only: simp_thms)
  qed
qed (simp add: row_odd_def row_solution_def)

text \<open>
  The map from the 83 parity bits to the 83 check results is onto, so it is one to one.
\<close>

definition parity_part :: "bool list \<Rightarrow> nat \<Rightarrow> bool" where
  "parity_part xs k \<longleftrightarrow> 91 \<le> k \<and> k < 174 \<and> xs ! (k - 91)"

definition check_results :: "bool list \<Rightarrow> bool list" where
  "check_results xs = map (\<lambda>r. row_odd (parity_part xs) (check_row r)) [0..<83]"

lemma check_results_onto:
  assumes "length ys = 83" shows "\<exists>xs. length xs = 83 \<and> check_results xs = ys"
proof (intro exI conjI)
  let ?xs = "map (\<lambda>i. par 83 (\<lambda>r. bit (parity_solution ! i) r \<and> ys ! r)) [0..<83]"
  show "length ?xs = 83" by simp
  show "check_results ?xs = ys"
  proof (rule nth_equalityI)
    fix r assume "r < length (check_results ?xs)"
    then have r: "r < 83" by (simp add: check_results_def)
    have "row_odd (parity_part ?xs) (check_row r) =
        row_odd (\<lambda>k. 91 \<le> k \<and> par 83 (\<lambda>r. bit (parity_solution ! (k - 91)) r \<and> ys ! r)) (check_row r)"
      using r by (intro row_odd_cong) (auto simp: parity_part_def)
    also have "\<dots> = par 83 (\<lambda>s. bit (row_solution (check_row r)) s \<and> ys ! s)"
      using check_row_props(2) [OF r] by (intro row_odd_solution) blast
    also have "\<dots> = par 83 (\<lambda>s. s = r \<and> ys ! s)"
      unfolding row_solution_eq [OF r] by (intro par_cong) (auto simp: bit_exp_iff)
    finally show "check_results ?xs ! r = ys ! r" unfolding par_single using r by (simp add: check_results_def)
  qed (simp add: check_results_def assms)
qed

lemma check_results_inj: "inj_on check_results {xs. length xs = 83}"
proof (rule finite_surj_inj)
  have "finite {xs :: bool list. set xs \<subseteq> UNIV \<and> length xs = 83}" by (rule finite_lists_length_eq) simp
  then show "finite {xs :: bool list. length xs = 83}" by simp
  show "{xs. length xs = 83} \<subseteq> check_results ` {xs. length xs = 83}" using check_results_onto by blast
qed

lemma parity_bits_zero:
  assumes d: "\<forall>k<91. \<not> d k" and checks: "\<forall>r<83. \<not> row_odd d (check_row r)" and k: "k < 174"
  shows "\<not> d k"
proof (cases "k < 91")
  case False
  let ?xs = "map (\<lambda>i. d (91 + i)) [0..<83]" and ?z = "replicate 83 False"
  have "parity_part ?xs p = d p" if "p < 174" for p
  proof (cases "p < 91")
    case False
    then have "p - 91 < 83" "91 + (p - 91) = p" using that by linarith+
    then show ?thesis using False that by (simp add: parity_part_def)
  qed (use d in \<open>simp add: parity_part_def\<close>)
  then have "row_odd (parity_part ?xs) (check_row r) = row_odd d (check_row r)" if "r < 83" for r
    using that by (intro row_odd_cong)
  moreover have "row_odd (parity_part ?z) (check_row r) = row_odd (\<lambda>k. False) (check_row r)" if "r < 83" for r
    using that by (intro row_odd_cong) (auto simp: parity_part_def)
  moreover have "\<not> row_odd (\<lambda>k. False) ns" for ns by (induction ns) (simp_all add: row_odd_def)
  ultimately have "check_results ?xs = check_results ?z" using checks by (simp add: check_results_def)
  then have "?xs = ?z" by (rule inj_onD [OF check_results_inj]) simp_all
  then have "?xs ! (k - 91) = ?z ! (k - 91)" by (rule arg_cong)
  moreover have "k - 91 < 83" "91 + (k - 91) = k" using False k by linarith+
  ultimately show ?thesis by simp
qed (use d in blast)

text \<open>Two words that satisfy all checks and agree on their first 91 bits are equal.\<close>

lemma checks_determine_parity:
  assumes "\<forall>r<83. \<not> row_odd x (check_row r)" and "\<forall>r<83. \<not> row_odd y (check_row r)"
    and "\<forall>k<91. x k = y k" and "k < 174"
  shows "x k = y k"
proof -
  have "\<not> (x k \<noteq> y k)" by (rule parity_bits_zero) (use assms in \<open>simp_all add: row_odd_neq del: not_iff\<close>)
  then show ?thesis by simp
qed

section \<open>The code of the tables and the code of the encoder\<close>

lemma clean_pack_bits: "clean91 (pack_bits w 91)"
  by (auto simp: clean91_def msg_bit_pack_bits)

lemma checks_encoded:
  "length w = 174 \<Longrightarrow> ldpc_word ft8_code w \<longleftrightarrow> (\<forall>p<174. (w ! p \<noteq> 0) = msg_bit (encode174 (pack_bits w 91)) p)"
proof -
  assume len: "length w = 174"
  let ?x = "\<lambda>p. w ! p \<noteq> 0" and ?y = "msg_bit (encode174 (pack_bits w 91))"
  have y: "\<forall>r<83. \<not> row_odd ?y (check_row r)" using encode174_checks [OF clean_pack_bits] by blast
  have "?x k = ?y k" if "k < 91" for k using that by (simp add: msg_bit_encode174 msg_bit_pack_bits)
  then have "\<forall>p<174. ?x p = ?y p" if "\<forall>r<83. \<not> row_odd ?x (check_row r)"
    using checks_determine_parity [OF that y] by blast
  moreover have "\<forall>r<83. \<not> row_odd ?x (check_row r)" if "\<forall>p<174. ?x p = ?y p"
    using that y row_odd_cong [of ?x ?y] by blast
  ultimately show "ldpc_word ft8_code w \<longleftrightarrow> (\<forall>p<174. ?x p = ?y p)"
    unfolding ldpc_word_rows [OF len] by blast
qed

text \<open>
  C21. The parity-check tables and the generator table define the same (174,91) code: a word satisfies
  all 83 checks exactly when it is the encoder's output for its own first 91 bits.
\<close>

theorem checks_iff_encoded:
  "length w = 174 \<Longrightarrow> ldpc_word ft8_code w \<longleftrightarrow> (\<forall>p<174. (w ! p \<noteq> 0) = msg_bit (encode174 (pack_bits w 91)) p)"
  by (rule checks_encoded)

theorem checks_iff_encoded_witness:
  "ldpc_word ft8_code (replicate 174 0) \<longleftrightarrow> list_all (\<lambda>p. \<not> msg_bit (encode174 (pack_bits (replicate 174 0) 91)) p) [0..<174]"
  using checks_iff_encoded [of "replicate 174 0"] by (auto simp add: list_all_iff)

section \<open>Words that pass the CRC\<close>

text \<open>The payload of a decoded word and the test of its CRC field.\<close>

definition word_payload :: "u8 list \<Rightarrow> bool list" where
  "word_payload w = map (\<lambda>i. w ! i \<noteq> 0) [0..<77]"

definition crc_ok :: "u8 list \<Rightarrow> bool" where
  "crc_ok w \<longleftrightarrow> (\<forall>n<14. (w ! (90 - n) \<noteq> 0) = bit (crc_of_payload (word_payload w)) n)"

lemma payload77_pack: "payload77 (pack_bits w 91) = word_payload w"
  by (auto simp: payload77_def word_payload_def msg_bits_def msg_bit_pack_bits)

text \<open>A word of the code with the right CRC is the codeword of its payload.\<close>

lemma word_of_payload:
  assumes w: "ldpc_word ft8_code w" "set w \<subseteq> {0, 1}" and c: "crc_ok w"
    and p: "length p = 10" "\<forall>i<77. msg_bit p i = (w ! i \<noteq> 0)"
  shows "w = codeword_bits p"
proof -
  have len: "length w = 174" using w(1) by (simp add: ldpc_word_def)
  have pay: "msg_bits p 77 = word_payload w" using p(2) by (simp add: msg_bits_def word_payload_def)
  have "ftx_add_crc p (replicate 12 0) = pack_bits w 91"
  proof (rule bytes_eqI)
    fix i assume i: "i < 8 * length (ftx_add_crc p (replicate 12 0))"
    have "(w ! i \<noteq> 0) = bit (crc_of_payload (word_payload w)) (90 - i)" if "77 \<le> i" "i < 91"
      using c that unfolding crc_ok_def by (elim allE [of _ "90 - i"]) simp
    then show "msg_bit (ftx_add_crc p (replicate 12 0)) i = msg_bit (pack_bits w 91) i"
      using i p len clean_add_crc [OF p(1)]
      by (cases "i < 77"; cases "i < 91") (simp_all add: clean91_def msg_bit_add_crc msg_bit_pack_bits pay)
  qed (use clean_add_crc [OF p(1)] in \<open>simp add: clean91_def\<close>)
  then have e: "ft8_codeword p = encode174 (pack_bits w 91)"
    by (simp add: ft8_codeword_def FTX_LDPC_K_BYTES_def FTX_LDPC_K_def)
  show ?thesis
  proof (rule nth_equalityI)
    fix i assume i: "i < length w"
    then have "w ! i = 0 \<or> w ! i = 1" using w(2) nth_mem [of i w] by blast
    moreover have "(w ! i \<noteq> 0) = msg_bit (ft8_codeword p) i"
      using checks_encoded [OF len] w(1) i len unfolding e by simp
    ultimately show "w ! i = codeword_bits p ! i" using i len by (auto simp: byte_of_bool_def)
  qed (simp add: len)
qed

end
