(* ===== verification/FtxReceive.thy ===== *)
theory FtxReceive
  imports FtxDecode FtxCode
begin

text \<open>
  What the entry points of \<open>decode.c\<close> guarantee: the CRC gate, the words that are accepted
  (always the codeword of the returned payload), and the way back from the tones of the encoder
  (\<open>encode.c\<close>) through the waterfall to the payload.
\<close>

section \<open>The CRC gate\<close>

lemma crc_gate_eq:
  "crc_gate w st =
     (if crc_ok w then Some (clear_crc (pack_bits w 91), crc_of_payload (word_payload w)) else None,
      st\<lparr>crc_extracted := ftx_extract_crc (pack_bits w 91), crc_calculated := crc_of_payload (word_payload w)\<rparr>)"
proof -
  let ?a = "pack_bits w 91"
  have c: "ftx_compute_crc (clear_crc ?a) 82 = crc_of_payload (word_payload w)"
    using crc_cleared [of ?a] by (simp add: payload77_pack)
  have "ftx_extract_crc ?a = crc_of_payload (word_payload w) \<longleftrightarrow> crc_ok w"
    unfolding extract_crc_eq_iff crc_of_payload_low by (auto simp: crc_ok_def msg_bit_pack_bits)
  then show ?thesis by (simp add: crc_gate_def FTX_LDPC_K_def c Let_def)
qed

text \<open>The ten bytes that become the payload.\<close>

definition gate_payload :: "u8 list \<Rightarrow> u8 list" where
  "gate_payload w = take 10 (clear_crc (pack_bits w 91))"

lemma length_gate_payload [simp]: "length (gate_payload w) = 10"
  by (simp add: gate_payload_def clear_crc_def)

lemma msg_bit_gate_payload: "i < 80 \<Longrightarrow> msg_bit (gate_payload w) i \<longleftrightarrow> i < 77 \<and> w ! i \<noteq> 0"
proof -
  assume i: "i < 80"
  then have "msg_bit (gate_payload w) i = msg_bit (clear_crc (pack_bits w 91)) i"
    by (simp add: gate_payload_def msg_bit_def)
  then show ?thesis using i by (auto simp: msg_bit_clear_crc msg_bit_pack_bits)
qed

lemma msg_bits_gate_payload: "msg_bits (gate_payload w) 80 = word_payload w @ replicate 3 False"
proof (rule nth_equalityI)
  fix i assume "i < length (msg_bits (gate_payload w) 80)"
  then have "i < 80" by simp
  then show "msg_bits (gate_payload w) 80 ! i = (word_payload w @ replicate 3 False) ! i"
    by (simp add: msg_bit_gate_payload word_payload_def nth_append)
qed (simp add: word_payload_def)

text \<open>
  Decoding from bits succeeds exactly when bits 77 to 90 are the CRC of bits 0 to 76; then the
  payload is bits 0 to 76 (the last three bits of its ten bytes are zero) and the hash is the CRC.
  On failure the caller's message is untouched.
\<close>

theorem decode_from_bits_gate:
  "case FtxDecode.ftx_decode_from_bits w m st of (ok, m', st') \<Rightarrow>
     ok = crc_ok w \<and> ldpc_errors st' = 0 \<and> crc_calculated st' = crc_of_payload (word_payload w) \<and>
     (if ok then length (payload_of m') = 10 \<and> msg_bits (payload_of m') 80 = word_payload w @ replicate 3 False \<and>
                 msg_hash m' = crc_of_payload (word_payload w)
      else m' = m)"
  by (simp add: FtxDecode.ftx_decode_from_bits_def crc_gate_eq msg_bits_gate_payload flip: gate_payload_def)

section \<open>Accepted words\<close>

lemma bp_decode_word:
  assumes "bp_decode L n plain = (w, 0)"
  shows "ldpc_word ft8_code w" and "\<exists>p<174. w ! p \<noteq> 0" and "set w \<subseteq> {0, 1}"
proof -
  have l: "bp_loop L (nat n) (replicate osd_N (replicate 3 0)) plain FTX_LDPC_M = (w, 0)"
    using assms by (simp add: bp_decode_def)
  show "ldpc_word ft8_code w" "\<exists>p<174. w ! p \<noteq> 0" using bp_loop_gate [OF l M_pos] by blast+
  have "set w \<subseteq> {0, 1}" if "bp_loop L it tov plain me = (w, 0)" "0 < me" for it tov plain me
    using that
  proof (induction it arbitrary: tov plain me)
    case (Suc it)
    then show ?case using bp_hard_bits(1) [of L tov] by (auto simp: Let_def split: if_splits)
  qed simp
  then show "set w \<subseteq> {0, 1}" using l M_pos by blast
qed

text \<open>A word of the code that passes the gate is the codeword of the payload the gate returns.\<close>

lemma gate_word:
  assumes "ldpc_word ft8_code w" "set w \<subseteq> {0, 1}" "crc_ok w"
  shows "w = codeword_bits (gate_payload w)"
  using assms by (rule word_of_payload) (simp_all add: msg_bit_gate_payload)


text \<open>The normalised likelihoods of a candidate.\<close>

definition candidate_llr :: "fmath \<Rightarrow> ftx_waterfall \<Rightarrow> ftx_candidate \<Rightarrow> f32 list" where
  "candidate_llr fm wfl c =
     ftx_normalize_logl fm (if protocol wfl = FT4 then ft4_extract_likelihood wfl c else ft8_extract_likelihood wfl c)"

text \<open>
  C5. Whatever the waterfall, the candidate and the square root: when \<open>ftx_decode_candidate\<close>
  succeeds, the belief-propagation decoder ended on exactly the codeword that the encoder sends for
  the returned payload (for FT4 after the scrambling), the word is not all zero, and the hash is its
  CRC.  When it fails, the caller's message is untouched.
\<close>

theorem decode_candidate_sound:
  "case ftx_decode_candidate fm plain0 wfl c n m st of (ok, m', st') \<Rightarrow>
     if ok then
       length (payload_of m') = 10 \<and>
       (let sent = (if protocol wfl = FT4 then ft4_scramble (payload_of m') else payload_of m')
        in bp_decode (candidate_llr fm wfl c) n plain0 = (codeword_bits sent, 0) \<and>
           (\<exists>i<174. codeword_bits sent ! i \<noteq> 0) \<and> msg_hash m' = crc_of_payload (msg_bits sent 77))
     else m' = m"
proof -
  obtain ok m' st' where d: "ftx_decode_candidate fm plain0 wfl c n m st = (ok, m', st')" by (cases rule: prod_cases3)
  obtain w e where b: "bp_decode (candidate_llr fm wfl c) n plain0 = (w, e)" by (cases "bp_decode (candidate_llr fm wfl c) n plain0")
  have gate: "ok = (e = 0 \<and> crc_ok w) \<and>
      m' = (if ok then \<lparr>payload_of = (if protocol wfl = FT4 then map (\<lambda>i. clear_crc (pack_bits w 91) ! i XOR kFT4_XOR_sequence ! i) [0..<10]
                                      else gate_payload w), msg_hash = crc_of_payload (word_payload w)\<rparr> else m)"
    using d b unfolding ftx_decode_candidate_def candidate_llr_def
    by (auto simp: Let_def crc_gate_eq gate_payload_def split: if_splits)
  show ?thesis
  proof (cases ok)
    case True
    let ?sent = "if protocol wfl = FT4 then ft4_scramble (payload_of m') else payload_of m'"
    have w: "ldpc_word ft8_code w" "\<exists>p<174. w ! p \<noteq> 0" "set w \<subseteq> {0, 1}" and c: "crc_ok w" and e: "e = 0"
      using bp_decode_word [of "candidate_llr fm wfl c" n plain0 w] b gate True by auto
    have scr: "ft4_scramble (map (\<lambda>i. clear_crc (pack_bits w 91) ! i XOR kFT4_XOR_sequence ! i) [0..<10]) = gate_payload w"
      by (rule nth_equalityI) (simp_all add: ft4_scramble_def gate_payload_def clear_crc_def xor.assoc)
    then have sent: "?sent = gate_payload w" using gate True by simp
    have pay: "msg_bits (gate_payload w) 77 = word_payload w"
      by (simp add: msg_bits_def word_payload_def msg_bit_gate_payload)
    have cw: "codeword_bits (gate_payload w) = w" by (rule gate_word [OF w(1,3) c, symmetric])
    have m: "length (payload_of m') = 10" "msg_hash m' = crc_of_payload (word_payload w)" using gate True by simp_all
    show ?thesis
      unfolding d prod.case Let_def sent cw pay using b e w(2) m True by simp
  next
    case False
    then have "m' = m" using gate by (simp only: if_False)
    then show ?thesis using False d by simp
  qed
qed
section \<open>From the tones back to the bits\<close>

lemma byte_difference: "0 \<le> a \<Longrightarrow> a < 256 \<Longrightarrow> 0 \<le> b \<Longrightarrow> b < 256 \<Longrightarrow> \<bar>a - b\<bar> < (2 :: int) ^ 24"
  and byte_difference_255: "0 \<le> a \<Longrightarrow> a < 256 \<Longrightarrow> 0 \<le> b \<Longrightarrow> b < 256 \<Longrightarrow> \<bar>a - b\<bar> \<le> (255 :: int)"
  by simp_all

lemma wf_elem_mag_eq: "wf_elem_mag x = of_int (uint x - 240) / 2"
proof -
  have b: "0 \<le> uint x" "uint x < 256" using uint_bounded [of x] by simp_all
  have n: "\<bar>uint x\<bar> < 2 ^ 24" "\<bar>uint x - 240\<bar> < 2 ^ 24" using byte_difference [OF b, of 0] byte_difference [OF b, of 240] by simp_all
  have "fmul (of_int (uint x)) (1 / 2) = r32 (of_int (uint x) / 2)" by (simp add: fmul_def)
  also have "\<dots> = of_int (uint x) / 2" by (rule r32_half [OF n(1)])
  finally have m: "fmul (of_int (uint x)) (1 / 2) = of_int (uint x) / 2" .
  have "(of_int (uint x) / 2 - 120 :: rat) = of_int (uint x - 240) / 2" by simp
  then show ?thesis unfolding wf_elem_mag_def fsub_def m using r32_half [OF n(2)] by (simp only:)
qed

lemma half_le: "(of_int a / 2 :: rat) \<le> of_int b / 2 \<longleftrightarrow> a \<le> b"
  by simp

lemma mag_le: "wf_elem_mag x \<le> wf_elem_mag y \<longleftrightarrow> x \<le> y"
  unfolding wf_elem_mag_eq half_le word_le_def by arith

lemma max2_mag: "max2 (wf_elem_mag x) (wf_elem_mag y) = wf_elem_mag (max x y)"
  by (auto simp: max2_def mag_le max_def)

lemma max4_mag:
  "max4 (wf_elem_mag a) (wf_elem_mag b) (wf_elem_mag c) (wf_elem_mag d) = wf_elem_mag (max (max a b) (max c d))"
  by (simp add: max4_def max2_mag)

lemma fsub_mag: "fsub (wf_elem_mag x) (wf_elem_mag y) = of_int (uint x - uint y) / 2"
proof -
  have b: "0 \<le> uint x" "uint x < 256" "0 \<le> uint y" "uint y < 256"
    using uint_bounded [of x] uint_bounded [of y] by simp_all
  then have n: "\<bar>uint x - uint y\<bar> < 2 ^ 24" by (rule byte_difference)
  have "wf_elem_mag x - wf_elem_mag y = (of_int (uint x - uint y) / 2 :: rat)"
    unfolding wf_elem_mag_eq of_int_diff by (simp only: diff_divide_distrib)
  then show ?thesis unfolding fsub_def using r32_half [OF n] by (simp only:)
qed

text \<open>A likelihood is positive exactly when the louder tone is on the side of bit 1.\<close>

lemma llr_pos: "0 < fsub (wf_elem_mag x) (wf_elem_mag y) \<longleftrightarrow> y < x"
proof -
  have "(0 < (of_int (uint x - uint y) / 2 :: rat)) \<longleftrightarrow> 0 < uint x - uint y"
    by (simp only: zero_less_divide_iff of_int_0_less_iff) simp
  then show ?thesis unfolding fsub_mag word_less_def by arith
qed

text \<open>A nonzero multiple of one half, at most 127.5 in size.\<close>

definition half_llr :: "f32 \<Rightarrow> bool" where
  "half_llr l \<longleftrightarrow> (\<exists>h. l = of_int h / 2 \<and> \<bar>h\<bar> \<le> 255 \<and> h \<noteq> 0)"

lemma half_llr_mag: "x < y \<or> y < x \<Longrightarrow> half_llr (fsub (wf_elem_mag x) (wf_elem_mag y))"
proof -
  assume "x < y \<or> y < x"
  then have n: "uint x - uint y \<noteq> 0" unfolding word_less_def by linarith
  have b: "\<bar>uint x - uint y\<bar> \<le> 255"
    by (rule byte_difference_255) (use uint_bounded [of x] uint_bounded [of y] in simp_all)
  show ?thesis unfolding half_llr_def fsub_mag using n b by blast
qed

lemma ft8_symbol_signs:
  assumes "\<And>t. t < 8 \<Longrightarrow> t \<noteq> unat (kFT8_Gray_map ! bits3 x n) \<Longrightarrow> w (int t) < w (uint (kFT8_Gray_map ! bits3 x n))"
  shows "hard_bits (ft8_extract_symbol w) = map byte_of_bool [x n, x (n + 1), x (n + 2)]"
  using assms [of 0] assms [of 1] assms [of 2] assms [of 3] assms [of 4] assms [of 5] assms [of 6] assms [of 7]
  unfolding hard_bits_def ft8_extract_symbol_def Let_def
  by (cases "x n"; cases "x (n + 1)"; cases "x (n + 2)")
    (auto simp: bits3_def kFT8_Gray_map_def max4_mag llr_pos less_max_iff_disj byte_of_bool_def dest: order.asym)

lemma ft4_symbol_signs:
  assumes "\<And>t. t < 4 \<Longrightarrow> t \<noteq> unat (kFT4_Gray_map ! bits2 x n) \<Longrightarrow> w (int t) < w (uint (kFT4_Gray_map ! bits2 x n))"
  shows "hard_bits (ft4_extract_symbol w) = map byte_of_bool [x n, x (n + 1)]"
  using assms [of 0] assms [of 1] assms [of 2] assms [of 3]
  unfolding hard_bits_def ft4_extract_symbol_def Let_def
  by (cases "x n"; cases "x (n + 1)")
    (auto simp: bits2_def kFT4_Gray_map_def max2_mag llr_pos less_max_iff_disj byte_of_bool_def dest: order.asym)
lemma ft8_symbol_halves:
  assumes "\<And>t. t < 8 \<Longrightarrow> t \<noteq> unat (kFT8_Gray_map ! bits3 x n) \<Longrightarrow> w (int t) < w (uint (kFT8_Gray_map ! bits3 x n))"
  shows "\<forall>l\<in>set (ft8_extract_symbol w). half_llr l"
  using assms [of 0] assms [of 1] assms [of 2] assms [of 3] assms [of 4] assms [of 5] assms [of 6] assms [of 7]
  unfolding ft8_extract_symbol_def Let_def
  by (cases "x n"; cases "x (n + 1)"; cases "x (n + 2)")
    (auto simp: bits3_def kFT8_Gray_map_def max4_mag less_max_iff_disj intro!: half_llr_mag)

lemma ft4_symbol_halves:
  assumes "\<And>t. t < 4 \<Longrightarrow> t \<noteq> unat (kFT4_Gray_map ! bits2 x n) \<Longrightarrow> w (int t) < w (uint (kFT4_Gray_map ! bits2 x n))"
  shows "\<forall>l\<in>set (ft4_extract_symbol w). half_llr l"
  using assms [of 0] assms [of 1] assms [of 2] assms [of 3]
  unfolding ft4_extract_symbol_def Let_def
  by (cases "x n"; cases "x (n + 1)")
    (auto simp: bits2_def kFT4_Gray_map_def max2_mag less_max_iff_disj intro!: half_llr_mag)

section \<open>The waterfall of a transmission\<close>

text \<open>
  The element of tone \<open>t\<close> in symbol \<open>k\<close> of a candidate, and the condition that all symbols lie in
  the recorded blocks and in each the tone sent is strictly louder than the other \<open>n\<close> tones.
\<close>

definition tone_level :: "ftx_waterfall \<Rightarrow> ftx_candidate \<Rightarrow> nat \<Rightarrow> int \<Rightarrow> u8" where
  "tone_level wfl c k t = mag wfl (get_cand_mag wfl c + int k * block_stride wfl + t)"

definition shows_tones :: "ftx_waterfall \<Rightarrow> ftx_candidate \<Rightarrow> nat \<Rightarrow> u8 list \<Rightarrow> bool" where
  "shows_tones wfl c n tones \<longleftrightarrow>
     (\<forall>k<length tones. 0 \<le> time_offset c + int k \<and> time_offset c + int k < num_blocks wfl \<and>
        (\<forall>t<n. t \<noteq> unat (tones ! k) \<longrightarrow> tone_level wfl c k (int t) < tone_level wfl c k (uint (tones ! k))))"

lemma shows_tones_symbol:
  assumes "shows_tones wfl c n tones" and "k < length tones"
  shows "symbol_llr wfl c k ex b = ex (tone_level wfl c k)"
    and "\<And>t. t < n \<Longrightarrow> t \<noteq> unat (tones ! k) \<Longrightarrow> tone_level wfl c k (int t) < tone_level wfl c k (uint (tones ! k))"
proof -
  have "tone_level wfl c k = (\<lambda>i. mag wfl (get_cand_mag wfl c + int k * block_stride wfl + i))"
    by (simp add: fun_eq_iff tone_level_def)
  then show "symbol_llr wfl c k ex b = ex (tone_level wfl c k)"
    using assms by (auto simp: shows_tones_def symbol_llr_def Let_def)
qed (use assms in \<open>auto simp: shows_tones_def\<close>)

lemma hard_bits_concat: "hard_bits (concat Ls) = concat (map hard_bits Ls)"
  unfolding hard_bits_def by (rule map_concat)

lemma concat_triples: "concat (map (\<lambda>k. map f [3 * k, 3 * k + 1, 3 * k + 2]) [0..<n]) = map f [0..<3 * n]"
  by (induction n) (simp_all add: numeral_3_eq_3)

lemma concat_pairs: "concat (map (\<lambda>k. map f [2 * k, 2 * k + 1]) [0..<n]) = map f [0..<2 * n]"
  by (induction n) (simp_all add: numeral_2_eq_2)

lemma ft8_hard_bits:
  assumes "shows_tones wfl c 8 (ft8_encode p)"
  shows "hard_bits (ft8_extract_likelihood wfl c) = codeword_bits p"
    and "\<forall>l\<in>set (ft8_extract_likelihood wfl c). half_llr l"
proof -
  let ?x = "msg_bit (ft8_codeword p)"
  have sym: "hard_bits (symbol_llr wfl c (k + (if k < 29 then 7 else 14)) ft8_extract_symbol 3) =
      map (\<lambda>i. byte_of_bool (?x i)) [3 * k, 3 * k + 1, 3 * k + 2] \<and>
      (\<forall>l\<in>set (symbol_llr wfl c (k + (if k < 29 then 7 else 14)) ft8_extract_symbol 3). half_llr l)" if k: "k < 58" for k
  proof -
    let ?i = "k + (if k < 29 then 7 else 14)"
    have i: "?i < 79" using k by simp
    have tone: "ft8_encode p ! ?i = kFT8_Gray_map ! bits3 ?x (3 * k)"
      using i k by (simp add: ft8_encode_tones ft8_tone_def ft8_data_before_def)
    have l: "?i < length (ft8_encode p)" using i by (simp add: ft8_encode_tones)
    note s = shows_tones_symbol [OF assms l]
    have "hard_bits (ft8_extract_symbol (tone_level wfl c ?i)) = map byte_of_bool [?x (3 * k), ?x (3 * k + 1), ?x (3 * k + 2)]"
      by (rule ft8_symbol_signs) (rule s(2) [unfolded tone])
    moreover have "\<forall>l\<in>set (ft8_extract_symbol (tone_level wfl c ?i)). half_llr l"
      by (rule ft8_symbol_halves) (rule s(2) [unfolded tone])
    ultimately show ?thesis unfolding s(1) by simp
  qed
  have "hard_bits (ft8_extract_likelihood wfl c) =
      concat (map (\<lambda>k. hard_bits (symbol_llr wfl c (k + (if k < 29 then 7 else 14)) ft8_extract_symbol 3)) [0..<58])"
    by (simp add: ft8_extract_likelihood_def hard_bits_concat comp_def)
  also have "\<dots> = concat (map (\<lambda>k. map (\<lambda>i. byte_of_bool (?x i)) [3 * k, 3 * k + 1, 3 * k + 2]) [0..<58])"
    by (intro arg_cong [where f = concat] map_cong refl conjunct1 [OF sym]) simp
  finally show "hard_bits (ft8_extract_likelihood wfl c) = codeword_bits p"
    by (simp only: concat_triples codeword_bits_def) simp
  show "\<forall>l\<in>set (ft8_extract_likelihood wfl c). half_llr l"
    unfolding ft8_extract_likelihood_def using sym by auto
qed

lemma ft4_hard_bits:
  assumes "shows_tones wfl c 4 (ft4_encode p)"
  shows "hard_bits (ft4_extract_likelihood wfl c) = codeword_bits (ft4_scramble p)"
    and "\<forall>l\<in>set (ft4_extract_likelihood wfl c). half_llr l"
proof -
  let ?x = "msg_bit (ft8_codeword (ft4_scramble p))" and ?o = "\<lambda>k :: nat. if k < 29 then 5 else if k < 58 then 9 else 13 :: nat"
  have sym: "hard_bits (symbol_llr wfl c (k + ?o k) ft4_extract_symbol 2) =
      map (\<lambda>i. byte_of_bool (?x i)) [2 * k, 2 * k + 1] \<and>
      (\<forall>l\<in>set (symbol_llr wfl c (k + ?o k) ft4_extract_symbol 2). half_llr l)" if k: "k < 87" for k
  proof -
    have i: "k + ?o k < 105" using k by simp
    have tone: "ft4_encode p ! (k + ?o k) = kFT4_Gray_map ! bits2 ?x (2 * k)"
      using i k by (simp add: ft4_encode_tones ft4_tone_def ft4_data_before_def)
    have l: "k + ?o k < length (ft4_encode p)" using i by (simp add: ft4_encode_tones)
    note s = shows_tones_symbol [OF assms l]
    have "hard_bits (ft4_extract_symbol (tone_level wfl c (k + ?o k))) = map byte_of_bool [?x (2 * k), ?x (2 * k + 1)]"
      by (rule ft4_symbol_signs) (rule s(2) [unfolded tone])
    moreover have "\<forall>l\<in>set (ft4_extract_symbol (tone_level wfl c (k + ?o k))). half_llr l"
      by (rule ft4_symbol_halves) (rule s(2) [unfolded tone])
    ultimately show ?thesis unfolding s(1) by simp
  qed
  have "hard_bits (ft4_extract_likelihood wfl c) =
      concat (map (\<lambda>k. hard_bits (symbol_llr wfl c (k + ?o k) ft4_extract_symbol 2)) [0..<87])"
    by (simp add: ft4_extract_likelihood_def hard_bits_concat comp_def)
  also have "\<dots> = concat (map (\<lambda>k. map (\<lambda>i. byte_of_bool (?x i)) [2 * k, 2 * k + 1]) [0..<87])"
    by (intro arg_cong [where f = concat] map_cong refl conjunct1 [OF sym]) simp
  finally show "hard_bits (ft4_extract_likelihood wfl c) = codeword_bits (ft4_scramble p)"
    by (simp only: concat_pairs codeword_bits_def) simp
  show "\<forall>l\<in>set (ft4_extract_likelihood wfl c). half_llr l"
    unfolding ft4_extract_likelihood_def using sym by auto
qed


section \<open>Decoding a clean waterfall\<close>

lemma word_payload_codeword: "length p = 10 \<Longrightarrow> word_payload (codeword_bits p) = msg_bits p 77"
  by (simp add: word_payload_def msg_bits_def ft8_codeword_def FTX_LDPC_K_BYTES_def FTX_LDPC_K_def
      msg_bit_encode174 msg_bit_add_crc)

lemma crc_ok_codeword: "length p = 10 \<Longrightarrow> crc_ok (codeword_bits p)"
  unfolding crc_ok_def word_payload_codeword
proof (intro allI impI)
  fix n :: nat assume p: "length p = 10" and n: "n < 14"
  then have i: "\<not> 90 - n < 77" "90 - n < 91" "90 - (90 - n) = n" "90 - n < 174" "90 - n < 176" "90 - n < 96"
    "\<not> 91 \<le> 90 - n" by linarith+
  then show "(codeword_bits p ! (90 - n) \<noteq> 0) = bit (crc_of_payload (msg_bits p 77)) n"
    using p by (simp add: ft8_codeword_def FTX_LDPC_K_BYTES_def FTX_LDPC_K_def msg_bit_encode174 msg_bit_add_crc del: diff_is_0_eq)
qed

text \<open>
  From the tones back to the payload: if every symbol of a candidate lies in the recorded blocks
  and the tone that \<open>ft8_encode\<close> sends for a payload is strictly the loudest of the eight, the
  hard decisions of \<open>ftx_get_ft8_llr\<close> satisfy every parity check and \<open>ftx_decode_from_bits\<close>
  returns the 77 bits of that payload.
\<close>

theorem ft8_tones_roundtrip:
  assumes "length p = 10" and "shows_tones wfl c 8 (ft8_encode p)"
  shows "ldpc_word ft8_code (hard_bits (ftx_get_ft8_llr wfl c)) \<and>
         (case FtxDecode.ftx_decode_from_bits (hard_bits (ftx_get_ft8_llr wfl c)) m st of
            (ok, m', st') \<Rightarrow> ok \<and> msg_bits (payload_of m') 80 = msg_bits p 77 @ replicate 3 False)"
  using assms ft8_hard_bits(1) [OF assms(2)] codeword_word [OF assms(1)] crc_ok_codeword [OF assms(1)]
  by (simp add: ftx_get_ft8_llr_def FtxDecode.ftx_decode_from_bits_def crc_gate_eq msg_bits_gate_payload
      word_payload_codeword flip: gate_payload_def)

text \<open>A waterfall of one transmission: full scale on the tones sent, silence elsewhere.\<close>

definition tone_waterfall :: "ftx_protocol \<Rightarrow> u8 list \<Rightarrow> ftx_waterfall" where
  "tone_waterfall pr tones =
     \<lparr>max_blocks = int (length tones), num_blocks = int (length tones), num_bins = 8, time_osr = 1, freq_osr = 1,
      mag = (\<lambda>i. if 0 \<le> i \<and> i < 8 * int (length tones) \<and> i mod 8 = uint (tones ! nat (i div 8)) then 255 else 0),
      block_stride = 8, protocol = pr\<rparr>"

definition first_candidate :: ftx_candidate where
  "first_candidate = \<lparr>cand_score = 0, time_offset = 0, freq_offset = 0, time_sub = 0, freq_sub = 0\<rparr>"

lemma tone_waterfall_shows:
  assumes "\<forall>t\<in>set tones. t < 8" and "n \<le> 8"
  shows "shows_tones (tone_waterfall pr tones) first_candidate n tones"
proof -
  have lvl: "tone_level (tone_waterfall pr tones) first_candidate k t = (if t = uint (tones ! k) then 255 else 0)"
    if "k < length tones" "0 \<le> t" "t < 8" for k t
  proof -
    have "(int k * 8 + t) mod 8 = t" "(int k * 8 + t) div 8 = int k" using that by simp_all
    then show ?thesis
      using that by (simp add: tone_level_def tone_waterfall_def first_candidate_def get_cand_mag_def)
  qed
  have "0 \<le> uint (tones ! k)" "uint (tones ! k) < 8" if "k < length tones" for k
    using assms(1) nth_mem [OF that] by (auto simp: word_less_def)
  moreover have "int t \<noteq> uint (tones ! k)" if "t \<noteq> unat (tones ! k)" for t k
    using that by (metis nat_int unat_eq_nat_uint)
  moreover have "0 \<le> time_offset first_candidate + int k"
    "time_offset first_candidate + int k < num_blocks (tone_waterfall pr tones)" if "k < length tones" for k
    using that by (simp_all add: tone_waterfall_def first_candidate_def)
  ultimately show ?thesis unfolding shows_tones_def using assms(2) by (simp add: lvl)
qed

lemma ft8_tones_small: "\<forall>t\<in>set (ft8_encode p). t < 8"
proof -
  have c: "list_all (\<lambda>t. t < 8) kFT8_Costas_pattern" "list_all (\<lambda>t. t < 8) kFT8_Gray_map" by code_simp+
  have l: "length kFT8_Costas_pattern = 7" "length kFT8_Gray_map = 8" by code_simp+
  have b: "bits3 x n < 8" for x n by (simp add: bits3_def)
  have "ft8_tone x i < 8" if "i < 79" for x i
    using that c b unfolding list_all_length l by (auto simp: ft8_tone_def less_diff_conv2)
  then show ?thesis by (auto simp: ft8_encode_tones)
qed

theorem ft8_tones_roundtrip_witness:
  "fst (FtxDecode.ftx_decode_from_bits
          (hard_bits (ftx_get_ft8_llr (tone_waterfall FT8 (ft8_encode (replicate 10 1))) first_candidate))
          \<lparr>payload_of = [], msg_hash = 0\<rparr> \<lparr>ldpc_errors = 0, crc_extracted = 0, crc_calculated = 0\<rparr>)"
  using ft8_tones_roundtrip [OF _ tone_waterfall_shows [OF ft8_tones_small],
      of "replicate 10 1" FT8 "\<lparr>payload_of = [], msg_hash = 0\<rparr>" "\<lparr>ldpc_errors = 0, crc_extracted = 0, crc_calculated = 0\<rparr>"]
  by (simp add: case_prod_unfold)

end
