(* ===== verification/FloatOrder.thy ===== *)
theory FloatOrder
  imports Float32
begin

text \<open>
  Order properties of rounding: it is odd and monotone, and never crosses a power of two.  The
  threshold trackers of the CW decoder and the normalisation of the FT8 decoder rest on them.
\<close>

lemma round_ne_minus: "round_ne (- x) = - round_ne x"
proof (cases "x = of_int \<lfloor>x\<rfloor>")
  case True
  then show ?thesis using round_ne_of_int [of "\<lfloor>x\<rfloor>"] round_ne_of_int [of "- \<lfloor>x\<rfloor>"] by (metis of_int_minus)
next
  case False
  have "of_int \<lfloor>x\<rfloor> \<le> x" by (rule of_int_floor_le)
  then have lt: "of_int \<lfloor>x\<rfloor> < x" using False by linarith
  then have f: "\<lfloor>- x\<rfloor> = - \<lfloor>x\<rfloor> - 1" by linarith
  show ?thesis unfolding round_ne_def f Let_def by (auto simp: algebra_simps)
qed

lemma fp_round_minus: "fp_round p emin (- x) = - fp_round p emin x"
  by (simp add: fp_round_def Let_def round_ne_minus)

lemma ilog2_mono: "0 < x \<Longrightarrow> x \<le> y \<Longrightarrow> ilog2 x \<le> ilog2 y"
proof -
  assume x: "0 < x" and xy: "x \<le> y"
  have "2 powi ilog2 x \<le> x" "y < 2 powi (ilog2 y + 1)" using ilog2_bounds [of x] ilog2_bounds [of y] x xy by auto
  then have "(2 :: rat) powi ilog2 x < 2 powi (ilog2 y + 1)" using xy by linarith
  then have "ilog2 x < ilog2 y + 1"
    using power_int_increasing [of "ilog2 y + 1" "ilog2 x" "2 :: rat"] by (intro not_le_imp_less notI) simp
  then show ?thesis by simp
qed

lemma powi_shift: "e \<le> k \<Longrightarrow> (2 :: rat) powi k * 2 powi (- e) = of_int (2 ^ nat (k - e))"
proof -
  assume "e \<le> k"
  then have "(2 :: rat) powi (k - e) = of_int (2 ^ nat (k - e))" by (simp add: power_int_def)
  then show ?thesis by (simp add: power_int_diff power_int_minus field_simps)
qed

lemma powi_unshift: "e \<le> k \<Longrightarrow> of_int (2 ^ nat (k - e)) * (2 :: rat) powi e = 2 powi k"
  by (subst powi_shift [symmetric]) (simp_all add: power_int_minus)

text \<open>Rounding does not cross a power of two that the format has.\<close>

lemma fp_round_le_pow:
  assumes "0 < x" "x \<le> 2 powi k" "emin \<le> k" "1 \<le> p" shows "fp_round p emin x \<le> 2 powi k"
proof -
  let ?e = "max emin (ilog2 x - p + 1)"
  have "(2 :: rat) powi ilog2 x \<le> 2 powi k" using ilog2_bounds [OF assms(1)] assms(2) by linarith
  then have "ilog2 x \<le> k"
    using power_int_strict_increasing [of k "ilog2 x" "2 :: rat"] by (intro leI notI) simp
  then have e: "?e \<le> k" using assms(3,4) by simp
  have "x * 2 powi (- ?e) \<le> 2 powi k * 2 powi (- ?e)" using assms(2) by (intro mult_right_mono) simp_all
  then have "x * 2 powi (- ?e) \<le> of_int (2 ^ nat (k - ?e))" unfolding powi_shift [OF e] .
  then have "round_ne (x * 2 powi (- ?e)) \<le> 2 ^ nat (k - ?e)"
    using round_ne_mono [of "x * 2 powi (- ?e)" "of_int (2 ^ nat (k - ?e))"] unfolding round_ne_of_int by blast
  then have "(of_int (round_ne (x * 2 powi (- ?e))) :: rat) \<le> of_int (2 ^ nat (k - ?e))" by (simp only: of_int_le_iff)
  then have "of_int (round_ne (x * 2 powi (- ?e))) * 2 powi ?e \<le> of_int (2 ^ nat (k - ?e)) * (2 :: rat) powi ?e"
    by (intro mult_right_mono) simp_all
  then show ?thesis unfolding powi_unshift [OF e] using assms(1) by (simp add: fp_round_def Let_def)
qed

lemma fp_round_ge_pow:
  assumes "2 powi k \<le> x" "emin \<le> k" "1 \<le> p" shows "2 powi k \<le> fp_round p emin x"
proof -
  have x: "0 < x" using assms(1) powi2_pos [of k] by linarith
  let ?e = "max emin (ilog2 x - p + 1)" and ?j = "max k (max emin (ilog2 x - p + 1))"
  have "(2 :: rat) powi k < 2 powi (ilog2 x + 1)" using ilog2_bounds [OF x] assms(1) by linarith
  then have kl: "k \<le> ilog2 x"
    using power_int_increasing [of "ilog2 x + 1" k "2 :: rat"] by (intro leI notI) simp
  then have e: "?e \<le> ilog2 x" using assms(2,3) by simp
  have "2 powi ilog2 x * 2 powi (- ?e) \<le> x * 2 powi (- ?e)" using ilog2_bounds [OF x] by (intro mult_right_mono) simp_all
  then have "of_int (2 ^ nat (ilog2 x - ?e)) \<le> x * 2 powi (- ?e)" unfolding powi_shift [OF e] .
  then have "2 ^ nat (ilog2 x - ?e) \<le> round_ne (x * 2 powi (- ?e))"
    using round_ne_mono [of "of_int (2 ^ nat (ilog2 x - ?e))" "x * 2 powi (- ?e)"] unfolding round_ne_of_int by blast
  then have "(of_int (2 ^ nat (ilog2 x - ?e)) :: rat) \<le> of_int (round_ne (x * 2 powi (- ?e)))" by (simp only: of_int_le_iff)
  then have "of_int (2 ^ nat (ilog2 x - ?e)) * (2 :: rat) powi ?e \<le> of_int (round_ne (x * 2 powi (- ?e))) * 2 powi ?e"
    by (intro mult_right_mono) simp_all
  then have "2 powi ilog2 x \<le> fp_round p emin x"
    unfolding powi_unshift [OF e] using x by (simp add: fp_round_def Let_def)
  moreover have "(2 :: rat) powi k \<le> 2 powi ilog2 x" using kl by (intro power_int_increasing) simp_all
  ultimately show ?thesis by linarith
qed

lemma fp_round_mono_pos:
  assumes "0 < x" "x \<le> y" "1 \<le> p" shows "fp_round p emin x \<le> fp_round p emin y"
proof (cases "max emin (ilog2 x - p + 1) = max emin (ilog2 y - p + 1)")
  case True
  let ?e = "max emin (ilog2 y - p + 1)"
  have "round_ne (x * 2 powi (- ?e)) \<le> round_ne (y * 2 powi (- ?e))"
    using assms(2) by (intro round_ne_mono mult_right_mono) simp_all
  then have "(of_int (round_ne (x * 2 powi (- ?e))) :: rat) * 2 powi ?e \<le> of_int (round_ne (y * 2 powi (- ?e))) * 2 powi ?e"
    by (intro mult_right_mono) simp_all
  then show ?thesis using assms True by (simp add: fp_round_def Let_def)
next
  case False
  have l: "ilog2 x \<le> ilog2 y" by (rule ilog2_mono) fact+
  then have k: "emin \<le> ilog2 y" "ilog2 x + 1 \<le> ilog2 y" using False assms(3) by (auto simp: max_def split: if_splits)
  have "x \<le> 2 powi (ilog2 x + 1)" using ilog2_bounds [OF assms(1)] by simp
  also have "\<dots> \<le> 2 powi ilog2 y" using k(2) by (intro power_int_increasing) simp_all
  finally have "fp_round p emin x \<le> 2 powi ilog2 y" using assms k(1) by (intro fp_round_le_pow)
  also have "\<dots> \<le> fp_round p emin y"
    using ilog2_bounds [of y] assms k(1) by (intro fp_round_ge_pow) auto
  finally show ?thesis .
qed

lemma fp_round_nonpos: "x \<le> 0 \<Longrightarrow> fp_round p emin x \<le> 0"
  using fp_round_nonneg [of "- x" p emin] by (simp add: fp_round_minus)

lemma fp_round_mono:
  assumes "x \<le> y" "1 \<le> p" shows "fp_round p emin x \<le> fp_round p emin y"
proof -
  consider "0 < x" | "x \<le> 0" "0 \<le> y" | "y < 0" by linarith
  then show ?thesis
  proof cases
    case 2
    then show ?thesis using fp_round_nonpos [of x p emin] fp_round_nonneg [of y p emin] by linarith
  next
    case 3
    then have "fp_round p emin (- y) \<le> fp_round p emin (- x)" using assms by (intro fp_round_mono_pos) simp_all
    then show ?thesis by (simp add: fp_round_minus)
  qed (use assms in \<open>intro fp_round_mono_pos\<close>)
qed

lemma r32_mono: "x \<le> y \<Longrightarrow> r32 x \<le> r32 y"
  unfolding r32_def by (rule fp_round_mono) simp_all

lemma r64_mono: "x \<le> y \<Longrightarrow> r64 x \<le> r64 y"
  unfolding r64_def by (rule fp_round_mono) simp_all

lemma r32_minus: "r32 (- x) = - r32 x"
  unfolding r32_def by (rule fp_round_minus)

text \<open>A rounded number rounds to itself.\<close>

lemma fp_round_idem:
  assumes "1 \<le> p" shows "fp_round p emin (fp_round p emin x) = fp_round p emin x"
proof (cases "x = 0")
  case False
  define e n where "e = max emin (ilog2 \<bar>x\<bar> - p + 1)" and "n = round_ne (x * 2 powi (- e))"
  have y: "fp_round p emin x = of_int n * 2 powi e" using False by (simp add: fp_round_def Let_def e_def n_def)
  have "\<bar>x\<bar> < 2 powi (ilog2 \<bar>x\<bar> + 1)" using ilog2_bounds [of "\<bar>x\<bar>"] False by simp
  also have "\<dots> \<le> 2 powi (e + p)" by (intro power_int_increasing) (simp_all add: e_def)
  finally have "\<bar>x\<bar> * 2 powi (- e) \<le> 2 powi (e + p) * 2 powi (- e)" by (intro mult_right_mono) simp_all
  then have "\<bar>x * 2 powi (- e)\<bar> \<le> of_int (2 ^ nat p)"
    using assms powi_shift [of e "e + p"] by (simp add: abs_mult)
  then have "x * 2 powi (- e) \<le> of_int (2 ^ nat p)" "of_int (- (2 ^ nat p)) \<le> x * 2 powi (- e)" by (simp_all add: abs_le_iff)
  then have b: "n \<le> 2 ^ nat p" "- (2 ^ nat p) \<le> n"
    unfolding n_def using round_ne_mono round_ne_of_int by metis+
  show ?thesis
  proof (cases "\<bar>n\<bar> < 2 ^ nat p")
    case True
    then show ?thesis unfolding y using assms by (intro fp_round_exact) (auto simp: e_def)
  next
    case False
    moreover have "(0 :: int) < 2 ^ nat p" by simp
    ultimately have n: "n = sgn n * 2 ^ nat p" using b by (cases n "0 :: int" rule: linorder_cases) auto
    have "of_int n * (2 :: rat) powi e = of_int (sgn n) * (of_int (2 ^ nat p) * 2 powi e)"
      by (subst n) (simp only: of_int_mult mult.assoc)
    also have "of_int (2 ^ nat p) * (2 :: rat) powi e = 2 powi (e + p)" using powi_unshift [of e "e + p"] assms by simp
    finally have "of_int n * (2 :: rat) powi e = of_int (sgn n) * 2 powi (e + p)" .
    then show ?thesis unfolding y using assms by (intro fp_round_exact [where n = "sgn n" and k = "e + p"]) (auto simp: e_def sgn_if)
  qed
qed simp

lemma r32_idem [simp]: "r32 (r32 x) = r32 x"
  unfolding r32_def by (rule fp_round_idem) simp

end
