(* ===== verification/FtxClean.thy ===== *)
theory FtxClean
  imports FtxReceive FloatOrder
begin

text \<open>
  A clean transmission is decoded: when in every symbol of a candidate the tone that \<open>encode.c\<close>
  sends is the loudest, \<open>decode.c\<close> returns the payload.  The likelihoods are exact half integers,
  their sums are exact, so the normalisation finds a variance far above its threshold and keeps
  every sign; the belief-propagation decoder then stops in its first iteration.
\<close>

section \<open>Rounding facts\<close>

text \<open>The relative error of rounding a normal number.\<close>

lemma r32_rel:
  assumes "2 powi (- 100) \<le> x" shows "r32 x \<le> x * (1 + 1 / 2 ^ 24)" and "x * (1 - 1 / 2 ^ 24) \<le> r32 x"
proof -
  have x: "0 < x" using assms powi2_pos [of "- 100"] by linarith
  let ?l = "ilog2 x"
  note b = ilog2_bounds [OF x]
  have "(2 :: rat) powi (- 100) < 2 powi (?l + 1)" using assms b by linarith
  then have l: "- 100 < ?l + 1"
    using power_int_increasing [of "?l + 1" "- 100" "2 :: rat"] by (intro not_le_imp_less notI) simp
  have "\<bar>r32 x - x\<bar> \<le> 2 powi (?l + 1 - 24 - 1)"
    unfolding r32_def using b l x by (intro fp_round_error) simp_all
  also have "(2 :: rat) powi (?l + 1 - 24 - 1) = 2 powi ?l / 2 ^ 24"
    by (simp add: power_int_diff)
  also have "\<dots> \<le> x / 2 ^ 24" using b by (intro divide_right_mono) simp_all
  finally have "\<bar>r32 x - x\<bar> \<le> x / 2 ^ 24" .
  then have "r32 x - x \<le> x / 2 ^ 24" "x - r32 x \<le> x / 2 ^ 24" by linarith+
  then show "r32 x \<le> x * (1 + 1 / 2 ^ 24)" "x * (1 - 1 / 2 ^ 24) \<le> r32 x" by (simp_all add: field_simps)
qed

lemma r32_ge_pow: "2 powi k \<le> x \<Longrightarrow> - 149 \<le> k \<Longrightarrow> 2 powi k \<le> r32 x"
  unfolding r32_def by (rule fp_round_ge_pow) simp_all

lemma r32_le_pow: "0 < x \<Longrightarrow> x \<le> 2 powi k \<Longrightarrow> - 149 \<le> k \<Longrightarrow> r32 x \<le> 2 powi k"
  unfolding r32_def by (rule fp_round_le_pow) simp_all
section \<open>Exact sums of half integers\<close>

definition halves :: "int list \<Rightarrow> f32 list" where
  "halves hs = map (\<lambda>h. of_int h / 2) hs"

definition sq_sum :: "int list \<Rightarrow> int" where
  "sq_sum hs = (\<Sum>h\<leftarrow>hs. h * h)"

lemma sq_sum_simps [simp]:
  "sq_sum [] = 0" "sq_sum (h # hs) = h * h + sq_sum hs" "sq_sum (xs @ ys) = sq_sum xs + sq_sum ys"
  by (simp_all add: sq_sum_def)

lemma small_sums:
  assumes "\<forall>h\<in>set hs. \<bar>h\<bar> \<le> 255" and "length hs \<le> 174"
  shows "\<bar>sum_list hs\<bar> \<le> 44370" and "0 \<le> sq_sum hs" and "sq_sum hs \<le> 11314350"
proof -
  have "\<bar>sum_list hs\<bar> \<le> 255 * int (length hs) \<and> 0 \<le> sq_sum hs \<and> sq_sum hs \<le> 65025 * int (length hs)"
    using assms(1)
  proof (induction hs)
    case (Cons h hs)
    have "\<bar>h\<bar> * \<bar>h\<bar> \<le> 255 * 255" using Cons.prems by (intro mult_mono) simp_all
    then have "h * h \<le> 65025" by (simp flip: abs_mult)
    moreover have "0 \<le> h * h" by simp
    moreover have "\<bar>h\<bar> \<le> 255" "\<bar>h + sum_list hs\<bar> \<le> \<bar>h\<bar> + \<bar>sum_list hs\<bar>" using Cons.prems by simp_all
    ultimately show ?case using Cons by (simp add: algebra_simps)
  qed simp
  then show "\<bar>sum_list hs\<bar> \<le> 44370" "0 \<le> sq_sum hs" "sq_sum hs \<le> 11314350" using assms(2) by linarith+
qed

lemma r32_quarter: "\<bar>n\<bar> < 2 ^ 24 \<Longrightarrow> r32 (of_int n / 4) = of_int n / 4"
  unfolding r32_def by (rule fp_round_exact [where k = "-2" and n = n]) (simp_all add: power_int_minus)

lemma llr_sums_halves:
  assumes "\<forall>h\<in>set hs. \<bar>h\<bar> \<le> 255" and "length hs \<le> 174"
  shows "llr_sums (halves hs) = (of_int (sum_list hs) / 2, of_int (sq_sum hs) / 4)"
  using assms
proof (induction hs rule: rev_induct)
  case (snoc h hs)
  have IH: "llr_sums (halves hs) = (of_int (sum_list hs) / 2, of_int (sq_sum hs) / 4)" using snoc by simp
  have b: "\<bar>h\<bar> \<le> 255" using snoc.prems by simp
  have "\<bar>h\<bar> * \<bar>h\<bar> \<le> 255 * 255" using b by (intro mult_mono) simp_all
  then have "\<bar>h * h\<bar> < 2 ^ 24" by (simp add: abs_mult)
  then have sq: "fmul (of_int h / 2) (of_int h / 2) = of_int (h * h) / 4"
    using r32_quarter [of "h * h"] by (simp add: fmul_def)
  note t = small_sums [OF snoc.prems]
  have "\<bar>sum_list (hs @ [h])\<bar> < 2 ^ 24" "\<bar>sq_sum (hs @ [h])\<bar> < 2 ^ 24" using t by simp_all
  note r = r32_half [OF this(1)] r32_quarter [OF this(2)]
  have "fadd (of_int (sum_list hs) / 2) (of_int h / 2) = of_int (sum_list (hs @ [h])) / 2"
    using r(1) by (simp add: fadd_def add_divide_distrib)
  moreover have "fadd (of_int (sq_sum hs) / 4) (of_int (h * h) / 4) = of_int (sq_sum (hs @ [h])) / 4"
    using r(2) by (simp add: fadd_def add_divide_distrib)
  moreover have "llr_sums (halves (hs @ [h])) =
      (fadd (of_int (sum_list hs) / 2) (of_int h / 2), fadd (of_int (sq_sum hs) / 4) (fmul (of_int h / 2) (of_int h / 2)))"
    using IH by (simp add: llr_sums_def halves_def)
  ultimately show ?case unfolding sq by simp
qed (simp add: llr_sums_def halves_def)

section \<open>The variance\<close>

lemma square_of_sum: "sum_list hs * sum_list hs \<le> int (length hs) * sq_sum hs"
proof (induction hs)
  case (Cons x hs)
  let ?n = "int (length hs)" and ?s = "sum_list hs" and ?q = "sq_sum hs"
  have "2 * x * ?s \<le> ?n * x * x + ?q"
  proof (cases "?n = 0")
    case False
    have "0 \<le> (?n * x - ?s) * (?n * x - ?s)" by simp
    then have "?n * (2 * x * ?s) \<le> ?n * (?n * x * x) + ?s * ?s" by (simp add: algebra_simps)
    also have "\<dots> \<le> ?n * (?n * x * x + ?q)" using Cons by (simp add: distrib_left)
    finally show ?thesis using False by (simp add: mult_le_cancel_left)
  qed simp
  then show ?case using Cons by (simp add: algebra_simps)
qed simp

text \<open>One element on the other side of zero keeps the variance up.\<close>

lemma spread:
  assumes "length hs = 174" and "h \<in> set hs" and "h * sum_list hs \<le> 0" and "h \<noteq> 0"
  shows "(\<bar>sum_list hs\<bar> + 1) * (\<bar>sum_list hs\<bar> + 1) + 173 \<le> 173 * sq_sum hs"
proof -
  let ?s = "sum_list hs"
  obtain as bs where hs: "hs = as @ h # bs" using assms(2) by (meson split_list)
  let ?os = "as @ bs"
  have o: "length ?os = 173" "sum_list ?os = ?s - h" "sq_sum ?os = sq_sum hs - h * h" using hs assms(1) by simp_all
  have "(?s - h) * (?s - h) \<le> 173 * (sq_sum hs - h * h)" using square_of_sum [of ?os] unfolding o by simp
  moreover have "(\<bar>?s\<bar> + 1) * (\<bar>?s\<bar> + 1) \<le> \<bar>?s - h\<bar> * \<bar>?s - h\<bar>"
  proof -
    have "\<bar>?s\<bar> + 1 \<le> \<bar>?s - h\<bar>"
    proof (cases "0 < h")
      case True
      then have "?s \<le> 0" using assms(3) by (simp add: mult_le_0_iff)
      then show ?thesis using True by simp
    next
      case False
      then have h: "h < 0" using assms(4) by simp
      then have "0 \<le> ?s" using assms(3) by (simp add: mult_le_0_iff)
      then show ?thesis using h by simp
    qed
    then show ?thesis by (intro mult_mono) simp_all
  qed
  moreover have "1 \<le> h * h" using assms(4) by (metis int_one_le_iff_zero_less not_real_square_gt_zero zero_less_mult_iff linorder_neqE_linordered_idom)
  ultimately show ?thesis by (simp add: algebra_simps)
qed
text \<open>The variance \<open>ftx_normalize_logl\<close> computes from the two sums.\<close>

definition float_variance :: "f32 \<Rightarrow> f32 \<Rightarrow> f32" where
  "float_variance sm sm2 = (let inv_n = fdiv 1 174 in fmul (fsub sm2 (fmul (fmul sm sm) inv_n)) inv_n)"

lemma inv_n_bounds: "2 powi (- 8) \<le> fdiv 1 174" "fdiv 1 174 \<le> 2 powi (- 7)" "fdiv 1 174 \<le> 1 / 174 * (1 + 1 / 2 ^ 24)"
proof -
  show "2 powi (- 8) \<le> fdiv 1 174" unfolding fdiv_def by (rule r32_ge_pow) (simp_all add: power_int_minus)
  show "fdiv 1 174 \<le> 2 powi (- 7)" unfolding fdiv_def by (rule r32_le_pow) (simp_all add: power_int_minus)
  have "(2 :: rat) powi (- 100) \<le> 2 powi (- 8)" by (rule power_int_increasing) simp_all
  also have "\<dots> \<le> 1 / 174" by (simp add: power_int_minus)
  finally show "fdiv 1 174 \<le> 1 / 174 * (1 + 1 / 2 ^ 24)" unfolding fdiv_def by (rule r32_rel(1))
qed

lemma powi_small: "2 powi (- 20) \<le> x \<Longrightarrow> (2 :: rat) powi (- 100) \<le> x"
  using power_int_increasing [of "- 100" "- 20" "2 :: rat"] by simp

lemma mean_square_bound:
  fixes S :: int
  shows "0 \<le> fmul (fmul (of_int S / 2) (of_int S / 2)) (fdiv 1 174)"
    and "fmul (fmul (of_int S / 2) (of_int S / 2)) (fdiv 1 174) \<le> of_int (S * S) / 692"
proof -
  let ?i = "fdiv 1 174" and ?c = "1 + 1 / 2 ^ 24 :: rat"
  have i: "0 \<le> ?i" using inv_n_bounds(1) powi2_pos [of "- 8"] by linarith
  have sq: "of_int S / 2 * (of_int S / 2) = (of_int (S * S) / 4 :: rat)" by simp
  define y where "y = r32 (of_int (S * S) / 4)"
  have y0: "0 \<le> y" unfolding y_def by (intro r32_nonneg) simp
  have e: "fmul (fmul (of_int S / 2) (of_int S / 2)) ?i = r32 (y * ?i)" unfolding fmul_def sq y_def ..
  show "0 \<le> fmul (fmul (of_int S / 2) (of_int S / 2)) ?i" unfolding e using y0 i by (intro r32_nonneg) simp
  show "fmul (fmul (of_int S / 2) (of_int S / 2)) ?i \<le> of_int (S * S) / 692"
  proof (cases "S = 0")
    case True
    then show ?thesis by (simp add: fmul_def)
  next
    case False
    then have "1 \<le> S * S" by (metis int_one_le_iff_zero_less not_real_square_gt_zero zero_less_mult_iff linorder_neqE_linordered_idom)
    then have s1: "(1 :: rat) \<le> of_int (S * S)" by (metis of_int_1 of_int_le_iff)
    then have q: "2 powi (- 2) \<le> (of_int (S * S) / 4 :: rat)" by (simp add: power_int_minus)
    then have yu: "y \<le> of_int (S * S) / 4 * ?c"
      unfolding y_def using power_int_increasing [of "- 20" "- 2" "2 :: rat"] by (intro r32_rel(1) powi_small) simp
    have yl: "2 powi (- 2) \<le> y" unfolding y_def by (rule r32_ge_pow [OF q]) simp
    have "2 powi (- 2) * 2 powi (- 8) \<le> y * ?i" using yl inv_n_bounds(1) y0 by (intro mult_mono) simp_all
    then have "2 powi (- 20) \<le> y * ?i" by (simp add: power_int_minus)
    then have "r32 (y * ?i) \<le> y * ?i * ?c" by (intro r32_rel(1) powi_small)
    also have "y * ?i \<le> (of_int (S * S) / 4 * ?c) * (1 / 174 * ?c)"
      using yu inv_n_bounds(3) y0 i s1 by (intro mult_mono) simp_all
    then have "y * ?i * ?c \<le> (of_int (S * S) / 4 * ?c) * (1 / 174 * ?c) * ?c" by (intro mult_right_mono) simp_all
    also have "\<dots> = of_int (S * S) / 696 * (?c * ?c * ?c)" by simp
    also have "\<dots> \<le> of_int (S * S) / 696 * (696 / 692)" using s1 by (intro mult_left_mono) simp_all
    also have "\<dots> = of_int (S * S) / 692" by simp
    finally show ?thesis unfolding e .
  qed
qed

lemma variance_bounds:
  assumes "\<forall>h\<in>set hs. \<bar>h\<bar> \<le> 255" and "length hs = 174" and "h \<in> set hs" and "h * sum_list hs \<le> 0" and "h \<noteq> 0"
  defines "v \<equiv> float_variance (of_int (sum_list hs) / 2) (of_int (sq_sum hs) / 4)"
  shows "2 powi (- 10) \<le> v" and "v \<le> 2 powi 15"
proof -
  let ?S = "sum_list hs" and ?Q = "sq_sum hs"
  define T where "T = fmul (fmul (of_int ?S / 2) (of_int ?S / 2)) (fdiv 1 174)"
  define D where "D = fsub (of_int ?Q / 4) T"
  note T = mean_square_bound [of ?S, folded T_def]
  note i = inv_n_bounds
  have i0: "0 \<le> fdiv 1 174" using i(1) powi2_pos [of "- 8"] by linarith
  have "?S * ?S \<le> (\<bar>?S\<bar> + 1) * (\<bar>?S\<bar> + 1)" by (simp add: algebra_simps flip: abs_mult)
  then have "?S * ?S + 173 \<le> 173 * ?Q" using spread [OF assms(2-5)] by linarith
  then have "(of_int (?S * ?S + 173) :: rat) \<le> of_int (173 * ?Q)" by (simp only: of_int_le_iff)
  then have "(of_int (?S * ?S) :: rat) / 692 + 1 / 4 \<le> of_int ?Q / 4" by simp
  then have low: "1 / 4 \<le> of_int ?Q / 4 - T" using T(2) by linarith
  have "?Q \<le> 11314350" using small_sums [OF assms(1)] assms(2) by simp
  then have "(of_int ?Q :: rat) \<le> of_int 11314350" by (simp only: of_int_le_iff)
  then have up: "of_int ?Q / 4 - T \<le> 2 powi 22" using T(1) by simp
  have D1: "2 powi (- 2) \<le> D"
    unfolding D_def fsub_def by (rule r32_ge_pow) (use low in \<open>simp_all add: power_int_minus\<close>)
  have D2: "D \<le> 2 powi 22"
    unfolding D_def fsub_def by (rule r32_le_pow) (use low up in simp_all)
  note D = D1 D2
  have v: "v = r32 (D * fdiv 1 174)" 
    unfolding v_def float_variance_def Let_def T_def [symmetric] D_def [symmetric] by (rule fmul_def)
  have d0: "0 < D" using D(1) powi2_pos [of "- 2"] by linarith
  have "2 powi (- 2) * 2 powi (- 8) \<le> D * fdiv 1 174" using D(1) i(1) d0 by (intro mult_mono) simp_all
  then have l: "2 powi (- 10) \<le> D * fdiv 1 174" by (simp add: power_int_minus)
  then show "2 powi (- 10) \<le> v" unfolding v by (rule r32_ge_pow) simp
  have "D * fdiv 1 174 \<le> 2 powi 22 * 2 powi (- 7)" using D(2) i(2) i0 by (intro mult_mono) simp_all
  then have "D * fdiv 1 174 \<le> 2 powi 15" by (simp add: power_int_minus)
  moreover have "0 < D * fdiv 1 174" using l powi2_pos [of "- 10"] by linarith
  ultimately show "v \<le> 2 powi 15" unfolding v by (intro r32_le_pow) simp_all
qed

section \<open>Normalisation keeps the signs\<close>

text \<open>The one property of \<open>sqrtf\<close> that is used.\<close>

definition sqrt_ok :: "fmath \<Rightarrow> bool" where
  "sqrt_ok fm \<longleftrightarrow> (\<forall>x. 2 powi (- 11) \<le> x \<longrightarrow> 2 powi (- 6) \<le> m_sqrt fm x)"

lemma normalize_signs:
  assumes "\<forall>h\<in>set hs. \<bar>h\<bar> \<le> 255 \<and> h \<noteq> 0" and "length hs = 174" and "\<exists>h\<in>set hs. 0 < h" and "\<exists>h\<in>set hs. h < 0"
    and "sqrt_ok fm"
  shows "hard_bits (ftx_normalize_logl fm (halves hs)) = hard_bits (halves hs)"
    and "\<forall>x\<in>set (ftx_normalize_logl fm (halves hs)). r32 x = x"
proof -
  let ?v = "float_variance (of_int (sum_list hs) / 2) (of_int (sq_sum hs) / 4)"
  have b: "\<forall>h\<in>set hs. \<bar>h\<bar> \<le> 255" using assms(1) by blast
  obtain h where "h \<in> set hs" "h * sum_list hs \<le> 0" "h \<noteq> 0"
    using assms(3,4) by (cases "0 \<le> sum_list hs") (auto simp: mult_le_0_iff)
  note v = variance_bounds [OF b assms(2) this]
  define nf where "nf = m_sqrt fm (fdiv 24 ?v)"
  have v0: "0 < ?v" using v(1) powi2_pos [of "- 10"] by linarith
  have "24 / 2 powi 15 \<le> 24 / ?v" using v(2) v0 by (intro divide_left_mono) simp_all
  then have "2 powi (- 11) \<le> 24 / ?v" by (simp add: power_int_minus)
  then have "2 powi (- 11) \<le> fdiv 24 ?v" unfolding fdiv_def by (rule r32_ge_pow) simp
  then have nf: "2 powi (- 6) \<le> nf" using assms(5) unfolding nf_def sqrt_ok_def by blast
  then have nf0: "0 < nf" using powi2_pos [of "- 6"] by linarith
  have "r32 (1 / 1000000) \<le> 2 powi (- 19)" by (rule r32_le_pow) (simp_all add: power_int_minus)
  also have "\<dots> \<le> 2 powi (- 10)" by (rule power_int_increasing) simp_all
  finally have "\<not> ?v < r32 (1 / 1000000)" using v(1) by linarith
  then have n: "ftx_normalize_logl fm (halves hs) = map (\<lambda>x. fmul x nf) (halves hs)"
    using llr_sums_halves [OF b] assms(2)
    by (simp add: ftx_normalize_logl_def Let_def float_variance_def nf_def)
  have "0 < fmul (of_int h / 2) nf \<longleftrightarrow> 0 < h" if h: "h \<in> set hs" for h
  proof (cases "0 < h")
    case True
    then have "(1 :: rat) \<le> of_int h" by (metis int_one_le_iff_zero_less of_int_1 of_int_le_iff)
    then have "(1 / 2) * 2 powi (- 6) \<le> of_int h / 2 * nf" using nf by (intro mult_mono) simp_all
    then have "2 powi (- 7) \<le> fmul (of_int h / 2) nf"
      unfolding fmul_def by (intro r32_ge_pow) (simp_all add: power_int_minus)
    then show ?thesis using True powi2_pos [of "- 7"] by linarith
  next
    case False
    then have "0 \<le> - (of_int h / 2 * nf)" using nf0 by (simp add: mult_le_0_iff)
    then have "r32 (of_int h / 2 * nf) \<le> 0" using r32_nonneg r32_minus by (metis minus_minus neg_0_le_iff_le)
    then show ?thesis using False by (simp add: fmul_def)
  qed
  then show "hard_bits (ftx_normalize_logl fm (halves hs)) = hard_bits (halves hs)"
    unfolding n by (simp add: hard_bits_def halves_def)
  show "\<forall>x\<in>set (ftx_normalize_logl fm (halves hs)). r32 x = x" unfolding n by (auto simp: fmul_def)
qed
section \<open>Clean candidates are decoded\<close>

lemma halves_of_llr: "\<forall>l\<in>set L. half_llr l \<Longrightarrow> \<exists>hs. L = halves hs \<and> (\<forall>h\<in>set hs. \<bar>h\<bar> \<le> 255 \<and> h \<noteq> 0)"
proof (induction L)
  case (Cons l L)
  then obtain hs h where "L = halves hs" "\<forall>h\<in>set hs. \<bar>h\<bar> \<le> 255 \<and> h \<noteq> 0" "l = of_int h / 2" "\<bar>h\<bar> \<le> 255" "h \<noteq> 0"
    by (auto simp: half_llr_def)
  then show ?case by (intro exI [of _ "h # hs"]) (simp add: halves_def)
qed (simp add: halves_def)

text \<open>No codeword is all ones: check 0 names seven bits.\<close>

lemma codeword_has_zero:
  assumes "ldpc_word ft8_code w" shows "\<exists>p<174. w ! p = 0"
proof (rule ccontr)
  assume "\<not> (\<exists>p<174. w ! p = 0)"
  then have ones: "(w ! p \<noteq> 0) = True" if "p < 174" for p using that by simp
  have len: "length w = 174" using assms by (simp add: ldpc_word_def)
  have "row_odd (\<lambda>p. w ! p \<noteq> 0) (check_row 0) = row_odd (\<lambda>p. True) (check_row 0)"
    by (rule row_odd_cong) (use ones in blast, simp)
  moreover have "row_odd (\<lambda>p. True) (check_row 0)" by code_simp
  ultimately show False using assms unfolding ldpc_word_rows [OF len] by auto
qed

lemma hard_bits_halves: "hard_bits (halves hs) = map (\<lambda>h. if 0 < h then 1 else 0) hs"
  by (simp add: hard_bits_def halves_def)

lemma clean_bp:
  assumes L: "\<forall>l\<in>set L. half_llr l" and h: "hard_bits L = codeword_bits p" and p: "length p = 10"
    and nz: "\<exists>i<77. msg_bit p i" and s: "sqrt_ok fm" and n: "0 < n"
  shows "bp_decode (ftx_normalize_logl fm L) n plain = (codeword_bits p, 0)"
proof -
  obtain hs where hs: "L = halves hs" "\<forall>h\<in>set hs. \<bar>h\<bar> \<le> 255 \<and> h \<noteq> 0" using halves_of_llr [OF L] by blast
  have w: "ldpc_word ft8_code (codeword_bits p)" by (rule codeword_word [OF p])
  obtain i where i: "i < 174" "codeword_bits p ! i \<noteq> 0" using codeword_nonzero [OF p] nz by blast
  obtain j where j: "j < 174" "codeword_bits p ! j = 0" using codeword_has_zero [OF w] by blast
  have bits: "map (\<lambda>h. if 0 < h then 1 else 0) hs = codeword_bits p" using h hs(1) by (simp add: hard_bits_halves)
  have len: "length hs = 174" using arg_cong [OF bits, of length] by simp
  have "0 < hs ! i" using arg_cong [OF bits, of "\<lambda>xs. xs ! i"] i len by (simp add: byte_of_bool_def split: if_splits)
  moreover have "\<not> 0 < hs ! j" using arg_cong [OF bits, of "\<lambda>xs. xs ! j"] j len by (simp split: if_splits)
  moreover have "hs ! i \<in> set hs" "hs ! j \<in> set hs" using i j len by simp_all
  ultimately have "\<exists>h\<in>set hs. 0 < h" "\<exists>h\<in>set hs. h < 0" using hs(2) by (blast, force)
  note norm = normalize_signs [OF hs(2) len this s, folded hs(1)]
  obtain it where it: "nat n = Suc it" using n by (metis gr0_implies_Suc zero_less_nat_eq)
  have lc: "length (ftx_normalize_logl fm L) = 174"
    using arg_cong [OF norm(1), of length] arg_cong [OF h, of length] by (simp add: hard_bits_def)
  have hb: "bp_hard (ftx_normalize_logl fm L) (replicate osd_N (replicate 3 0)) = codeword_bits p"
    using bp_hard_start [OF norm(2) lc] norm(1) h by simp
  have "ldpc_check (codeword_bits p) = 0" using ldpc_check_word [of "codeword_bits p"] w by simp
  moreover have "sum_list (map uint (codeword_bits p)) \<noteq> 0"
    using sum_zero_bits [of "codeword_bits p"] i by (metis codeword_bits_props(1,2) nth_mem)
  ultimately show ?thesis by (simp add: bp_decode_def it hb FTX_LDPC_M_def)
qed

text \<open>The bits the encoder protects: the payload, for FT4 after the scrambling.\<close>

definition sent_bits :: "ftx_waterfall \<Rightarrow> u8 list \<Rightarrow> u8 list" where
  "sent_bits wfl p = (if protocol wfl = FT4 then ft4_scramble p else p)"

definition clean_candidate :: "ftx_waterfall \<Rightarrow> ftx_candidate \<Rightarrow> u8 list \<Rightarrow> bool" where
  "clean_candidate wfl c p \<longleftrightarrow>
     (if protocol wfl = FT4 then shows_tones wfl c 4 (ft4_encode p) else shows_tones wfl c 8 (ft8_encode p))"

lemma clean_candidate_result:
  assumes p: "length p = 10" and s: "sqrt_ok fm" and n: "0 < n" and c: "clean_candidate wfl c p"
    and nz: "\<exists>i<77. msg_bit (sent_bits wfl p) i"
  shows "\<exists>crc st'. ftx_decode_candidate fm plain0 wfl c n m st =
           (True, \<lparr>payload_of = sent_bits wfl (gate_payload (codeword_bits (sent_bits wfl p))), msg_hash = crc\<rparr>, st')"
proof -
  let ?sent = "sent_bits wfl p"
  let ?L = "if protocol wfl = FT4 then ft4_extract_likelihood wfl c else ft8_extract_likelihood wfl c"
  have sl: "length ?sent = 10" using p by (simp add: sent_bits_def ft4_scramble_def)
  have "hard_bits ?L = codeword_bits ?sent" "\<forall>l\<in>set ?L. half_llr l"
    using c ft8_hard_bits [of wfl c p] ft4_hard_bits [of wfl c p]
    by (auto simp: sent_bits_def clean_candidate_def split: if_splits)
  then have bp: "bp_decode (ftx_normalize_logl fm ?L) n plain0 = (codeword_bits ?sent, 0)"
    using s n nz sl by (intro clean_bp)
  have ok: "crc_ok (codeword_bits ?sent)" by (rule crc_ok_codeword [OF sl])
  have x: "map (\<lambda>i. clear_crc (pack_bits w 91) ! i XOR kFT4_XOR_sequence ! i) [0..<10] = ft4_scramble (gate_payload w)" for w
    by (simp add: ft4_scramble_def gate_payload_def)
  show ?thesis
    using bp ok x unfolding ftx_decode_candidate_def
    by (simp add: Let_def crc_gate_eq sent_bits_def split: if_splits flip: gate_payload_def)
qed

lemma gate_codeword_bit:
  assumes "length p = 10" and "i < 77" shows "msg_bit (gate_payload (codeword_bits p)) i = msg_bit p i"
  using assms(2) arg_cong [OF word_payload_codeword [OF assms(1)], of "\<lambda>xs. xs ! i"]
  by (simp add: msg_bit_gate_payload word_payload_def del: codeword_bits_props(3))

lemma ft4_scramble_bit: "i < 77 \<Longrightarrow> msg_bit (ft4_scramble p) i = (msg_bit p i \<noteq> msg_bit kFT4_XOR_sequence i)"
proof -
  assume "i < 77"
  then have "i div 8 < 10" by linarith
  then show ?thesis by (simp add: msg_bit_def bit_xor_iff ft4_scramble_def)
qed

text \<open>
  C4. Every clean transmission is decoded: if \<open>sqrtf\<close> is at least \<open>2 ^ -6\<close> from \<open>2 ^ -11\<close> on, the
  loudest tones of a candidate are those of \<open>ft8_encode p\<close> (for FT4: \<open>ft4_encode p\<close>) and the encoded
  bits are not all zero, then \<open>ftx_decode_candidate\<close> succeeds with any positive number of iterations
  and returns the 77 bits of \<open>p\<close>.
\<close>

theorem clean_candidate_decoded:
  assumes "length p = 10" and "sqrt_ok fm" and "0 < n" and "clean_candidate wfl c p"
    and "\<exists>i<77. msg_bit (sent_bits wfl p) i"
  shows "case ftx_decode_candidate fm plain0 wfl c n m st of
           (ok, m', st') \<Rightarrow> ok \<and> msg_bits (payload_of m') 77 = msg_bits p 77"
proof -
  let ?sent = "sent_bits wfl p"
  have sl: "length ?sent = 10" using assms(1) by (simp add: sent_bits_def ft4_scramble_def)
  have "msg_bit (sent_bits wfl (gate_payload (codeword_bits ?sent))) i = msg_bit p i" if "i < 77" for i
    using gate_codeword_bit [OF sl that] that by (auto simp: sent_bits_def ft4_scramble_bit split: if_splits)
  then show ?thesis using clean_candidate_result [OF assms, of plain0 m st] by (auto simp: msg_bits_def)
qed

definition sqrt_one :: fmath where
  "sqrt_one = \<lparr>m_sqrt = (\<lambda>x. 1), m_log = id, m_tanh = id, m_atanh = id\<rparr>"

theorem clean_candidate_decoded_witness:
  "fst (ftx_decode_candidate sqrt_one [] (tone_waterfall FT8 (ft8_encode (replicate 10 1))) first_candidate 1
          \<lparr>payload_of = [], msg_hash = 0\<rparr> \<lparr>ldpc_errors = 0, crc_extracted = 0, crc_calculated = 0\<rparr>)"
proof -
  let ?w = "tone_waterfall FT8 (ft8_encode (replicate 10 1))"
  have w: "shows_tones ?w first_candidate 8 (ft8_encode (replicate 10 1))" by (rule tone_waterfall_shows [OF ft8_tones_small]) simp
  have pr: "protocol ?w = FT8" by (simp add: tone_waterfall_def)
  then have c: "clean_candidate ?w first_candidate (replicate 10 1)" using w by (simp add: clean_candidate_def)
  have s: "sqrt_ok sqrt_one" by (simp add: sqrt_ok_def sqrt_one_def power_int_minus)
  have b: "\<exists>i<77. msg_bit (replicate 10 1) i" by (rule exI [of _ 7]) (simp add: msg_bit_def)
  show ?thesis
    using clean_candidate_decoded [of "replicate 10 1" sqrt_one 1 ?w first_candidate "[]"] c s b
    by (simp add: sent_bits_def pr case_prod_unfold)
qed

end
