(* ===== verification/CwMorse.thy ===== *)
theory CwMorse
  imports FloatOrder Ldpc
begin

text \<open>
  The Morse decoder (\<open>gm/hf/cw_morse.cc\<close>).  A \<open>CwMorse\<close> object is a record; \<open>push\<close> feeds one
  envelope sample through the threshold trackers, \<open>edge\<close> turns key samples into runs, \<open>onMark\<close> and
  \<open>onSpace\<close> turn runs into symbols and text.  \<open>decode_envelope\<close> is the offline decoder \<open>decode\<close>.
  Floats are rationals rounded after each operation; samples are finite.
\<close>

section \<open>The Morse table\<close>

definition morseTable :: "(string \<times> char) list" where
  "morseTable =
    [(''.-'', CHR ''A''), (''-...'', CHR ''B''), (''-.-.'', CHR ''C''), (''-..'', CHR ''D''), (''.'', CHR ''E''),
     (''..-.'', CHR ''F''), (''--.'', CHR ''G''), (''....'', CHR ''H''), (''..'', CHR ''I''), (''.---'', CHR ''J''),
     (''-.-'', CHR ''K''), (''.-..'', CHR ''L''), (''--'', CHR ''M''), (''-.'', CHR ''N''), (''---'', CHR ''O''),
     (''.--.'', CHR ''P''), (''--.-'', CHR ''Q''), (''.-.'', CHR ''R''), (''...'', CHR ''S''), (''-'', CHR ''T''),
     (''..-'', CHR ''U''), (''...-'', CHR ''V''), (''.--'', CHR ''W''), (''-..-'', CHR ''X''), (''-.--'', CHR ''Y''),
     (''--..'', CHR ''Z''),
     (''-----'', CHR ''0''), (''.----'', CHR ''1''), (''..---'', CHR ''2''), (''...--'', CHR ''3''), (''....-'', CHR ''4''),
     (''.....'', CHR ''5''), (''-....'', CHR ''6''), (''--...'', CHR ''7''), (''---..'', CHR ''8''), (''----.'', CHR ''9''),
     (''-..-.'', CHR ''/''), (''-...-'', CHR ''=''), (''.-.-.'', CHR ''+''), (''-....-'', CHR ''-''),
     (''.-.-.-'', CHR ''.''), (''--..--'', CHR '',''), (''..--..'', CHR ''?'')]"

section \<open>The streaming decoder\<close>

record cw =
  hop_ms :: f32
  init_dit_ms :: f32
  dit_ms :: f32
  nf :: f32
  pk :: f32
  have_env :: bool
  key :: bool
  run_len :: nat
  started :: bool
  symbol :: string
  cw_text :: string

definition cw_reset :: "cw \<Rightarrow> cw" where
  "cw_reset s = s\<lparr>dit_ms := init_dit_ms s, nf := 0, pk := 0, have_env := False, key := False, run_len := 0,
                   started := False, symbol := [], cw_text := []\<rparr>"

definition cw_new :: "f32 \<Rightarrow> f32 \<Rightarrow> cw" where
  "cw_new hop init_wpm =
     cw_reset \<lparr>hop_ms = hop, init_dit_ms = fdiv 1200 init_wpm, dit_ms = 0, nf = 0, pk = 0, have_env = False,
               key = False, run_len = 0, started = False, symbol = [], cw_text = []\<rparr>"

definition symbolToChar :: "cw \<Rightarrow> char option" where
  "symbolToChar s = map_of morseTable (symbol s)"

definition flushSymbol :: "bool \<Rightarrow> cw \<Rightarrow> cw" where
  "flushSymbol add_word_space s =
     (let s1 = (case symbolToChar s of None \<Rightarrow> s | Some c \<Rightarrow> s\<lparr>cw_text := cw_text s @ [c]\<rparr>);
          s2 = s1\<lparr>symbol := []\<rparr>
      in if add_word_space then s2\<lparr>cw_text := cw_text s2 @ '' ''\<rparr> else s2)"

definition onMark :: "f32 \<Rightarrow> cw \<Rightarrow> cw" where
  "onMark ms s =
     (if ms \<le> 0 then s
      else
        (let is_dit = (ms < fmul 2 (dit_ms s));
             target = (if is_dit then ms else fdiv ms 3);
             dit = fadd (dit_ms s) (fmul (fsub target (dit_ms s)) (r32 (15 / 100)));
             dit = (if dit < 15 then 15 else dit);
             dit = (if 240 < dit then 240 else dit)
         in s\<lparr>symbol := symbol s @ (if is_dit then ''.'' else ''-''), dit_ms := dit\<rparr>))"

definition onSpace :: "f32 \<Rightarrow> cw \<Rightarrow> cw" where
  "onSpace ms s =
     (if symbol s = [] then s
      else if ms < fmul (r32 (173 / 100)) (dit_ms s) then s
      else if ms < fmul (r32 (458 / 100)) (dit_ms s) then flushSymbol False s
      else flushSymbol True s)"

definition run_ms :: "cw \<Rightarrow> f32" where
  "run_ms s = fmul (r32 (of_nat (run_len s))) (hop_ms s)"

definition edge :: "bool \<Rightarrow> cw \<Rightarrow> cw" where
  "edge key_now s =
     (if key_now \<noteq> key s then
        (let ms = run_ms s;
             s = (if key s then onMark ms s else if started s then onSpace ms s else s);
             s = s\<lparr>key := key_now, run_len := 1\<rparr>
         in if key s then s\<lparr>started := True\<rparr> else s)
      else s\<lparr>run_len := run_len s + 1\<rparr>)"

definition push :: "f32 \<Rightarrow> cw \<Rightarrow> cw" where
  "push x s =
     (let s = (if \<not> have_env s then s\<lparr>nf := x, pk := x, have_env := True\<rparr> else s);
          s = s\<lparr>nf := (if x < nf s then fadd (nf s) (fmul (fsub x (nf s)) (1 / 4))
                        else fadd (nf s) (fmul (fsub x (nf s)) (r32 (5 / 10000))))\<rparr>;
          s = s\<lparr>pk := (if pk s < x then fadd (pk s) (fmul (fsub x (pk s)) (1 / 2))
                        else fadd (pk s) (fmul (fsub x (pk s)) (r32 (1 / 1000))))\<rparr>;
          span = fsub (pk s) (nf s);
          next = (if fmul (1 / 4) (pk s) < span \<and> r32 (1 / 1000000) < span then
                    (let t_hi = fadd (nf s) (fmul (r32 (6 / 10)) span);
                         t_lo = fadd (nf s) (fmul (r32 (4 / 10)) span)
                     in if \<not> key s \<and> t_hi \<le> x then True else if key s \<and> x \<le> t_lo then False else key s)
                  else key s)
      in edge next s)"

definition cw_flush :: "cw \<Rightarrow> cw" where
  "cw_flush s =
     (let s = (if key s \<and> 0 < run_len s then (onMark (run_ms s) s)\<lparr>key := False, run_len := 0\<rparr> else s)
      in flushSymbol False s)"

definition cw_take :: "cw \<Rightarrow> string \<times> cw" where
  "cw_take s = (cw_text s, s\<lparr>cw_text := []\<rparr>)"

definition cw_wpm :: "cw \<Rightarrow> f32" where
  "cw_wpm s = fdiv 1200 (dit_ms s)"

section \<open>The offline decoder\<close>

definition fmax2 :: "f32 \<Rightarrow> f32 \<Rightarrow> f32" where "fmax2 a b = (if a < b then b else a)"

definition list_lo :: "f32 list \<Rightarrow> f32" where "list_lo xs = foldl (\<lambda>lo x. if x < lo then x else lo) (hd xs) (tl xs)"
definition list_hi :: "f32 list \<Rightarrow> f32" where "list_hi xs = foldl (\<lambda>hi x. if hi < x then x else hi) (hd xs) (tl xs)"

text \<open>The moving average: a running sum in double precision and the number of its terms.\<close>

definition smooth_start :: "f32 list \<Rightarrow> f64 \<times> int" where
  "smooth_start env =
     foldl (\<lambda>(acc, cnt) i. if i < int (length env) then (dadd acc (env ! nat (max i 0)), cnt + 1) else (acc, cnt))
       (0, 0) [-2..2]"

fun smooth_loop :: "f32 list \<Rightarrow> nat \<Rightarrow> nat \<Rightarrow> f64 \<times> int \<Rightarrow> f32 list" where
  "smooth_loop env i 0 st = []"
| "smooth_loop env i (Suc k) (acc, cnt) =
     (let out = int i - 2; inn = i + 3;
          (acc1, cnt1) = (if inn < length env then (dadd acc (env ! inn), cnt + 1) else (acc, cnt));
          (acc2, cnt2) = (if 0 \<le> out then (dsub acc1 (env ! nat out), cnt1 - 1) else (acc1, cnt1))
      in r32 (ddiv acc (of_int cnt)) # smooth_loop env (i + 1) k (acc2, cnt2))"

definition smooth :: "f32 list \<Rightarrow> f32 list" where
  "smooth env = smooth_loop env 0 (length env) (smooth_start env)"

text \<open>The peak hold of the AGC, run forward and backward.\<close>

fun peak_hold :: "f32 \<Rightarrow> f32 list \<Rightarrow> f32 list" where
  "peak_hold p [] = []"
| "peak_hold p (x # xs) = (let p = fmax2 x (fmul p (r32 (99 / 100))) in p # peak_hold p xs)"

definition agc :: "f32 list \<Rightarrow> f32 list option" where
  "agc s =
     (let gmax = list_hi s
      in if \<not> 0 < gmax then None
         else
           (let flr = fmul (r32 (15 / 100)) gmax;
                fwd = peak_hold (hd s) s;
                bwd = rev (peak_hold (last s) (rev s));
                pf = map2 (\<lambda>f b. if f < b then b else f) fwd bwd
            in Some (map2 (\<lambda>x p. fdiv x (fmax2 p flr)) s pf)))"

text \<open>Otsu's threshold.\<close>

definition hist_idx :: "f32 \<Rightarrow> f32 \<Rightarrow> f32 \<Rightarrow> nat" where
  "hist_idx lo scale x =
     (let idx = trunc (fmul (fsub x lo) scale) in if idx < 0 then 0 else if 256 \<le> idx then 255 else nat idx)"

definition histogram :: "f32 \<Rightarrow> f32 \<Rightarrow> f32 list \<Rightarrow> int list" where
  "histogram lo scale xs =
     foldl (\<lambda>h x. h[hist_idx lo scale x := h ! hist_idx lo scale x + 1]) (replicate 256 0) xs"

fun otsu_loop :: "int list \<Rightarrow> int \<Rightarrow> f64 \<Rightarrow> nat list \<Rightarrow> f64 \<times> int \<times> f64 \<times> nat \<Rightarrow> nat" where
  "otsu_loop hist tot sm [] (sumB, wB, best, thrB) = thrB"
| "otsu_loop hist tot sm (b # bs) (sumB, wB, best, thrB) =
     (let wB = wB + hist ! b
      in if wB = 0 then otsu_loop hist tot sm bs (sumB, wB, best, thrB)
         else
           (let wF = tot - wB
            in if wF = 0 then thrB
               else
                 (let sumB = dadd sumB (dmul (of_nat b) (of_int (hist ! b)));
                      mB = ddiv sumB (of_int wB);
                      mF = ddiv (dsub sm sumB) (of_int wF);
                      d = dsub mB mF;
                      v = dmul (dmul (dmul (of_int wB) (of_int wF)) d) d
                  in if best < v then otsu_loop hist tot sm bs (sumB, wB, v, b)
                     else otsu_loop hist tot sm bs (sumB, wB, best, thrB))))"

definition otsu :: "f32 list \<Rightarrow> f32" where
  "otsu xs =
     (let lo = list_lo xs; hi = list_hi xs
      in if \<not> r32 (1 / 10 ^ 9) \<le> fsub hi lo then fadd hi 1
         else
           (let scale = fdiv 255 (fsub hi lo);
                hist = histogram lo scale xs;
                sm = foldl (\<lambda>s b. dadd s (dmul (of_nat b) (of_int (hist ! b)))) 0 [0..<256];
                thrB = otsu_loop hist (int (length xs)) sm [0..<256] (0, 0, -1, 0)
            in fadd lo (fdiv (fadd (of_nat thrB) (1 / 2)) scale)))"

text \<open>Threshold with hysteresis: the runs of the key with their durations, the leading space dropped.\<close>

type_synonym cw_run = "bool \<times> f32"

definition run_step ::
  "f32 \<Rightarrow> f32 \<Rightarrow> f32 \<Rightarrow> bool \<times> nat \<times> bool \<times> cw_run list \<Rightarrow> f32 \<Rightarrow> bool \<times> nat \<times> bool \<times> cw_run list" where
  "run_step hop t_hi t_lo st x =
     (let (k, run, seen_mark, runs) = st;
          next = (if t_hi \<le> x then True else if x \<le> t_lo then False else k)
      in if next \<noteq> k
         then (next, 1, seen_mark \<or> k,
               if k \<or> seen_mark then runs @ [(k, fmul (r32 (of_nat run)) hop)] else runs)
         else (k, run + 1, seen_mark, runs))"

definition key_runs :: "f32 \<Rightarrow> f32 list \<Rightarrow> cw_run list" where
  "key_runs hop e =
     (let lo = list_lo e; hi = list_hi e;
          thr = otsu e;
          hyst = fmul (r32 (8 / 100)) (fsub hi lo);
          (k, run, seen_mark, runs) = foldl (run_step hop (fadd thr hyst) (fsub thr hyst)) (False, 0, False, []) e
      in if k \<and> 0 < run then runs @ [(True, fmul (r32 (of_nat run)) hop)] else runs)"

text \<open>Short runs inside are merged into the run before them.\<close>

definition merge_at :: "nat \<Rightarrow> cw_run list \<Rightarrow> cw_run list" where
  "merge_at i runs =
     take (i - 1) runs
     @ [(fst (runs ! (i - 1)), fadd (snd (runs ! (i - 1))) (fadd (snd (runs ! i)) (snd (runs ! (i + 1)))))]
     @ drop (i + 2) runs"

function deglitch_from :: "f32 \<Rightarrow> nat \<Rightarrow> cw_run list \<Rightarrow> cw_run list" where
  "deglitch_from glitch i runs =
     (if 1 \<le> i \<and> i + 1 < length runs
      then if snd (runs ! i) < glitch then deglitch_from glitch i (merge_at i runs)
           else deglitch_from glitch (i + 1) runs
      else runs)"
  by pat_completeness auto
termination
  by (relation "measure (\<lambda>(glitch, i, runs). length runs - i)") (auto simp: merge_at_def)

declare deglitch_from.simps [simp del]

definition deglitch :: "f32 \<Rightarrow> cw_run list \<Rightarrow> cw_run list" where
  "deglitch glitch runs =
     (let runs = dropWhile (\<lambda>r. snd r < glitch) runs;
          runs = deglitch_from glitch 1 runs
      in rev (dropWhile (\<lambda>r. snd r < glitch) (rev runs)))"

text \<open>Two-means clustering of the mark durations, at most 20 rounds.\<close>

definition two_means_step :: "f32 list \<Rightarrow> f32 \<times> f32 \<Rightarrow> f32 \<times> f32" where
  "two_means_step marks c =
     (let (c1, c2) = c;
          mid = fmul (1 / 2) (fadd c1 c2);
          low = filter (\<lambda>m. m \<le> mid) marks;
          high = filter (\<lambda>m. \<not> m \<le> mid) marks
      in (if low \<noteq> [] then r32 (ddiv (foldl dadd 0 low) (of_nat (length low))) else c1,
          if high \<noteq> [] then r32 (ddiv (foldl dadd 0 high) (of_nat (length high))) else c2))"

fun two_means :: "nat \<Rightarrow> f32 list \<Rightarrow> f32 \<times> f32 \<Rightarrow> f32 \<times> f32" where
  "two_means 0 marks c = c"
| "two_means (Suc k) marks c = (if fst c < snd c then two_means k marks (two_means_step marks c) else c)"

definition replay_run :: "f32 \<Rightarrow> cw \<Rightarrow> cw_run \<Rightarrow> cw" where
  "replay_run mark_split s r =
     (if fst r then s\<lparr>symbol := symbol s @ (if snd r < mark_split then ''.'' else ''-'')\<rparr> else onSpace (snd r) s)"

definition replay :: "fmath \<Rightarrow> cw_run list \<Rightarrow> f32 list \<Rightarrow> cw \<Rightarrow> cw" where
  "replay fm runs marks s =
     (let (c1, c2) = two_means 20 marks (list_lo marks, list_hi marks);
          split = (fmul (r32 (18 / 10)) c1 < c2);
          s = s\<lparr>dit_ms := (if split then c1 else fmul (1 / 2) (fadd c1 c2))\<rparr>;
          mark_split = (if split then m_sqrt fm (fmul c1 c2) else 10 ^ 9)
      in flushSymbol False (foldl (replay_run mark_split) s (dropWhile (\<lambda>r. \<not> fst r) runs)))"

text \<open>The text and the object afterwards.\<close>

definition decode_envelope :: "fmath \<Rightarrow> f32 list \<Rightarrow> cw \<Rightarrow> string \<times> cw" where
  "decode_envelope fm env s =
     (let s = cw_reset s
      in if env = [] then ([], s)
         else
           (case agc (smooth env) of
              None \<Rightarrow> ([], s)
            | Some e \<Rightarrow>
                (let runs = key_runs (hop_ms s) e
                 in if runs = [] then ([], s)
                    else
                      (let runs = deglitch (fmul (5 / 2) (hop_ms s)) runs;
                           marks = map snd (filter fst runs)
                       in if runs = [] \<or> marks = [] then ([], s)
                          else cw_take (replay fm runs marks s)))))"
section \<open>Facts about the table\<close>

definition morse_code :: "char \<Rightarrow> string" where
  "morse_code c = the (map_of (map (\<lambda>(s, c). (c, s)) morseTable) c)"

definition morse_chars :: "char list" where
  "morse_chars = map snd morseTable"

lemma morseTable_codes:
  "list_all (\<lambda>c. map_of morseTable (morse_code c) = Some c \<and> morse_code c \<noteq> [] \<and> set (morse_code c) \<subseteq> {CHR ''.'', CHR ''-''})
     morse_chars"
  by code_simp

lemma morse_code_props:
  assumes "c \<in> set morse_chars"
  shows "map_of morseTable (morse_code c) = Some c" "morse_code c \<noteq> []" "set (morse_code c) \<subseteq> {CHR ''.'', CHR ''-''}"
  using morseTable_codes assms by (auto simp: list_all_iff)

section \<open>Keying a text\<close>

text \<open>
  A transmission as marks with the gap after each: whether the mark is a dah, and the gap in
  samples.  With a unit of \<open>u\<close> samples a dit is \<open>u\<close> samples and a dah \<open>3 * u\<close>; a gap of less than
  1.5 units separates elements, 2 to 4 units separate characters, 5 units or more separate words.
\<close>

type_synonym keying = "(bool \<times> nat) list"

definition key_samples :: "nat \<Rightarrow> keying \<Rightarrow> bool list" where
  "key_samples u xs = concat (map (\<lambda>(dah, g). replicate (if dah then 3 * u else u) True @ replicate g False) xs)"

definition element_gap :: "nat \<Rightarrow> nat \<Rightarrow> bool" where "element_gap u g \<longleftrightarrow> 0 < g \<and> 2 * g < 3 * u"
definition char_gap :: "nat \<Rightarrow> nat \<Rightarrow> bool" where "char_gap u g \<longleftrightarrow> 2 * u \<le> g \<and> g < 4 * u"
definition word_gap :: "nat \<Rightarrow> nat \<Rightarrow> bool" where "word_gap u g \<longleftrightarrow> 5 * u \<le> g"

text \<open>The marks of one character, with element gaps inside and the gap \<open>g\<close> at the end.\<close>

definition keys_char :: "nat \<Rightarrow> char \<Rightarrow> nat list \<Rightarrow> nat \<Rightarrow> keying \<Rightarrow> bool" where
  "keys_char u c gs g xs \<longleftrightarrow>
     c \<in> set morse_chars \<and> length gs + 1 = length (morse_code c) \<and> (\<forall>g\<in>set gs. element_gap u g) \<and>
     xs = zip (map (\<lambda>e. e = CHR ''-'') (morse_code c)) (gs @ [g])"

inductive keys_text :: "nat \<Rightarrow> string \<Rightarrow> keying \<Rightarrow> bool" for u where
  last: "keys_char u c gs g xs \<Longrightarrow> keys_text u [c] xs"
| char: "keys_char u c gs g xs \<Longrightarrow> char_gap u g \<Longrightarrow> keys_text u t ys \<Longrightarrow> keys_text u (c # t) (xs @ ys)"
| word: "keys_char u c gs g xs \<Longrightarrow> word_gap u g \<Longrightarrow> keys_text u t ys \<Longrightarrow> keys_text u (c # CHR '' '' # t) (xs @ ys)"

definition feed :: "bool list \<Rightarrow> cw \<Rightarrow> cw" where
  "feed ks s = foldl (\<lambda>s k. edge k s) s ks"

lemma feed_append: "feed (ks @ ls) s = feed ls (feed ks s)"
  by (simp add: feed_def)

lemma feed_same: "feed (replicate n (key s)) s = s\<lparr>run_len := run_len s + n\<rparr>"
proof (induction n arbitrary: s)
  case (Suc n)
  have "feed (replicate (Suc n) (key s)) s = feed (replicate n (key (edge (key s) s))) (edge (key s) s)"
    by (simp add: feed_def edge_def)
  then show ?case using Suc.IH [of "edge (key s) s"] by (simp add: edge_def)
qed (simp add: feed_def)

lemma feed_change:
  assumes "k \<noteq> key s" and "0 < n"
  shows "feed (replicate n k) s = (edge k s)\<lparr>run_len := n\<rparr>"
proof -
  obtain m where n: "n = Suc m" using assms(2) by (cases n) auto
  have "key (edge k s) = k" "run_len (edge k s) = 1" using assms(1) by (simp_all add: edge_def Let_def)
  then have "feed (replicate m k) (edge k s) = (edge k s)\<lparr>run_len := 1 + m\<rparr>" using feed_same [of m "edge k s"] by simp
  then show ?thesis by (simp add: feed_def n)
qed

section \<open>Exact timing\<close>

text \<open>A whole number of milliseconds is exact, and so are the comparisons with multiples of it.\<close>

lemma r32_nat: "n < 2 ^ 24 \<Longrightarrow> r32 (of_nat n) = of_nat n"
  using r32_int [of "int n"] by simp

lemma gap_limits:
  assumes "0 < D" and "D \<le> 240"
  shows "of_nat (3 * D) / 2 \<le> fmul (r32 (173 / 100)) (of_nat D)" and "fmul (r32 (173 / 100)) (of_nat D) \<le> of_nat (2 * D)"
    and "of_nat (4 * D) \<le> fmul (r32 (458 / 100)) (of_nat D)" and "fmul (r32 (458 / 100)) (of_nat D) \<le> of_nat (5 * D)"
proof -
  have half: "r32 (of_nat k / 2) = of_nat k / 2" if "k < 2 ^ 24" for k
    unfolding r32_def by (rule fp_round_exact [where n = "int k" and k = "-1"]) (use that in \<open>simp_all add: power_int_minus\<close>)
  have "r32 (of_nat 3 / 2) \<le> r32 (173 / 100)" "r32 (173 / 100) \<le> r32 (of_nat 2)"
    "r32 (of_nat 4) \<le> r32 (458 / 100)" "r32 (458 / 100) \<le> r32 (of_nat 5)" by (rule r32_mono; simp)+
  then have c: "3 / 2 \<le> r32 (173 / 100)" "r32 (173 / 100) \<le> 2" "4 \<le> r32 (458 / 100)" "r32 (458 / 100) \<le> 5"
    using half [of 3] r32_nat [of 2] r32_nat [of 4] r32_nat [of 5] by simp_all
  have d: "(0 :: rat) \<le> of_nat D" by simp
  have "r32 (of_nat (3 * D) / 2) \<le> fmul (r32 (173 / 100)) (of_nat D)"
    unfolding fmul_def using mult_right_mono [OF c(1) d] by (intro r32_mono) simp
  then show "of_nat (3 * D) / 2 \<le> fmul (r32 (173 / 100)) (of_nat D)" using half [of "3 * D"] assms by simp
  have "fmul (r32 (173 / 100)) (of_nat D) \<le> r32 (of_nat (2 * D))"
    unfolding fmul_def using mult_right_mono [OF c(2) d] by (intro r32_mono) simp
  then show "fmul (r32 (173 / 100)) (of_nat D) \<le> of_nat (2 * D)" using r32_nat [of "2 * D"] assms by simp
  have "r32 (of_nat (4 * D)) \<le> fmul (r32 (458 / 100)) (of_nat D)"
    unfolding fmul_def using mult_right_mono [OF c(3) d] by (intro r32_mono) simp
  then show "of_nat (4 * D) \<le> fmul (r32 (458 / 100)) (of_nat D)" using r32_nat [of "4 * D"] assms by simp
  have "fmul (r32 (458 / 100)) (of_nat D) \<le> r32 (of_nat (5 * D))"
    unfolding fmul_def using mult_right_mono [OF c(4) d] by (intro r32_mono) simp
  then show "fmul (r32 (458 / 100)) (of_nat D) \<le> of_nat (5 * D)" using r32_nat [of "5 * D"] assms by simp
qed

section \<open>Decoding a keyed text\<close>

text \<open>The pending gap is handled when the next mark starts.\<close>

definition settle :: "cw \<Rightarrow> cw" where
  "settle s = (if started s then onSpace (run_ms s) s else s)"

lemma onSpace_keeps: "dit_ms (onSpace ms s) = dit_ms s" "hop_ms (onSpace ms s) = hop_ms s" "key (onSpace ms s) = key s"
  by (simp_all add: onSpace_def flushSymbol_def Let_def split: option.splits)

lemma settle_keeps: "dit_ms (settle s) = dit_ms s" "hop_ms (settle s) = hop_ms s" "key (settle s) = key s"
  by (simp_all add: settle_def onSpace_keeps)

lemma feed_mark:
  assumes "\<not> key s" and "0 < m"
  shows "feed (replicate m True) s = (settle s)\<lparr>key := True, run_len := m, started := True\<rparr>"
  using feed_change [of True s m] assms by (simp add: edge_def settle_def Let_def)

lemma onMark_keeps:
  "hop_ms (onMark ms s) = hop_ms s" "cw_text (onMark ms s) = cw_text s" "started (onMark ms s) = started s"
  by (simp_all add: onMark_def Let_def)

lemma feed_gap:
  assumes "key s" and "0 < g"
  shows "feed (replicate g False) s = (onMark (run_ms s) s)\<lparr>key := False, run_len := g\<rparr>"
  using feed_change [of False s g] assms by (simp add: edge_def Let_def)

text \<open>A hop of \<open>h\<close> milliseconds and a unit of \<open>u\<close> hops, within the speeds the decoder tracks.\<close>

definition speed_ok :: "nat \<Rightarrow> nat \<Rightarrow> bool" where
  "speed_ok u h \<longleftrightarrow> 0 < h \<and> 15 \<le> u * h \<and> u * h \<le> 240"

lemma speed_okD:
  assumes "speed_ok u h"
  shows "0 < h" "0 < u" "15 \<le> u * h" "u * h \<le> 240"
  using assms by (auto simp: speed_ok_def intro!: gr0I)

definition ready :: "nat \<Rightarrow> nat \<Rightarrow> cw \<Rightarrow> bool" where
  "ready u h s \<longleftrightarrow> hop_ms s = of_nat h \<and> dit_ms s = of_nat (u * h)"

lemma run_ms_exact:
  assumes "0 < h" and "hop_ms s = of_nat h" and "run_len s * h < 2 ^ 24"
  shows "run_ms s = of_nat (run_len s * h)"
proof -
  have "run_len s \<le> run_len s * h" using assms(1) by simp
  then have "run_len s < 2 ^ 24" using assms(3) by linarith
  then show ?thesis using r32_nat [of "run_len s"] r32_nat [of "run_len s * h"] assms by (simp add: run_ms_def fmul_def)
qed

lemma mark_exact:
  assumes "speed_ok u h" and "ready u h s" and "run_len s = (if dah then 3 * u else u)"
  shows "onMark (run_ms s) s = s\<lparr>symbol := symbol s @ (if dah then ''-'' else ''.'')\<rparr>"
proof -
  define D where "D = u * h"
  have D: "15 \<le> D" "D \<le> 240" "0 < D" using speed_okD [OF assms(1)] by (simp_all add: D_def)
  have "run_len s * h = (if dah then 3 * D else D)" using assms(3) by (simp add: D_def)
  moreover have "(if dah then 3 * D else D) < 2 ^ 24" using D(2) by auto
  ultimately have ms: "run_ms s = of_nat (if dah then 3 * D else D)"
    using run_ms_exact [of h s] assms(2) speed_okD(1) [OF assms(1)] by (simp only: ready_def)
  have r: "r32 (of_nat D) = of_nat D" "r32 (of_nat (2 * D)) = of_nat (2 * D)" "r32 0 = 0"
    using r32_nat [of D] r32_nat [of "2 * D"] r32_nat [of 0] D by simp_all
  have dit: "dit_ms s = of_nat D" using assms by (simp add: ready_def D_def)
  have b: "(15 :: rat) \<le> of_nat D" "(of_nat D :: rat) \<le> 240" "(0 :: rat) < of_nat D"
    using D by simp_all
  have two: "fmul 2 (of_nat D) = 2 * of_nat D" using r(2) by (simp add: fmul_def)
  have e: "s\<lparr>dit_ms := of_nat D\<rparr> = s" using dit by simp
  show ?thesis
    unfolding onMark_def ms dit
    using b r two e dit by (simp add: Let_def fdiv_def fsub_def fmul_def fadd_def)
qed

lemma settle_gap:
  assumes ok: "speed_ok u h" and s: "ready u h s" "started s" "run_len s * h < 2 ^ 24"
  shows "element_gap u (run_len s) \<Longrightarrow> settle s = s"
    and "char_gap u (run_len s) \<Longrightarrow> symbol s \<noteq> [] \<Longrightarrow> settle s = flushSymbol False s"
    and "word_gap u (run_len s) \<Longrightarrow> symbol s \<noteq> [] \<Longrightarrow> settle s = flushSymbol True s"
proof -
  define D where "D = u * h"
  define G where "G = run_len s * h"
  have D: "0 < D" "D \<le> 240" using speed_okD [OF ok] by (simp_all add: D_def)
  have ms: "run_ms s = of_nat G" using run_ms_exact [of h s] s speed_okD(1) [OF ok] by (simp only: ready_def G_def)
  have dit: "dit_ms s = of_nat D" using s by (simp add: ready_def D_def)
  note lim = gap_limits [OF D]
  {
    assume "element_gap u (run_len s)"
    then have "(2 * run_len s) * h < (3 * u) * h" using speed_okD(1) [OF ok] by (simp add: element_gap_def)
    then have "2 * G < 3 * D" by (simp add: G_def D_def mult.assoc)
    then have "(of_nat (2 * G) :: rat) < of_nat (3 * D)" by (simp only: of_nat_less_iff)
    then have "(of_nat G :: rat) < fmul (r32 (173 / 100)) (of_nat D)" using lim(1) by simp
    then show "settle s = s" by (simp add: settle_def onSpace_def ms dit)
  next
    assume g: "char_gap u (run_len s)" and sy: "symbol s \<noteq> []"
    have "(2 * u) * h \<le> run_len s * h" "run_len s * h < (4 * u) * h"
      using g speed_okD(1) [OF ok] unfolding char_gap_def by (blast intro: mult_le_mono1, simp)
    then have "2 * D \<le> G" "G < 4 * D" by (simp_all add: G_def D_def mult.assoc)
    then have "(of_nat (2 * D) :: rat) \<le> of_nat G" "(of_nat G :: rat) < of_nat (4 * D)"
      by (simp_all only: of_nat_less_iff of_nat_le_iff)
    then have "\<not> (of_nat G :: rat) < fmul (r32 (173 / 100)) (of_nat D)" "(of_nat G :: rat) < fmul (r32 (458 / 100)) (of_nat D)"
      using lim(2,3) by simp_all
    then show "settle s = flushSymbol False s" using s(2) sy by (simp add: settle_def onSpace_def ms dit)
  next
    assume g: "word_gap u (run_len s)" and sy: "symbol s \<noteq> []"
    have "(5 * u) * h \<le> run_len s * h" using g unfolding word_gap_def by (blast intro: mult_le_mono1)
    then have "5 * D \<le> G" by (simp add: G_def D_def mult.assoc)
    then have "(of_nat (5 * D) :: rat) \<le> of_nat G" by (simp only: of_nat_le_iff)
    moreover have "(of_nat (2 * D) :: rat) \<le> of_nat (5 * D)" by (simp only: of_nat_le_iff)
    ultimately have "\<not> (of_nat G :: rat) < fmul (r32 (173 / 100)) (of_nat D)" "\<not> (of_nat G :: rat) < fmul (r32 (458 / 100)) (of_nat D)"
      using lim(2,4) by linarith+
    then show "settle s = flushSymbol True s" using s(2) sy by (simp add: settle_def onSpace_def ms dit)
  }
qed

lemma ready_settle: "ready u h (settle s) = ready u h s"
  by (simp add: ready_def settle_keeps)

definition mark_len :: "nat \<Rightarrow> bool \<Rightarrow> nat" where "mark_len u dah = (if dah then 3 * u else u)"
definition mark_sym :: "bool \<Rightarrow> char" where "mark_sym dah = (if dah then CHR ''-'' else CHR ''.'')"

lemma mark_fed:
  assumes "speed_ok u h" and "ready u h s" and "\<not> key s"
  shows "feed (replicate (mark_len u dah) True) s = (settle s)\<lparr>key := True, run_len := mark_len u dah, started := True\<rparr>"
    and "0 < g \<Longrightarrow> feed (replicate (mark_len u dah) True @ replicate g False) s
      = (settle s)\<lparr>symbol := symbol (settle s) @ [mark_sym dah], key := False, run_len := g, started := True\<rparr>"
proof -
  have "0 < mark_len u dah" using speed_okD(2) [OF assms(1)] by (simp add: mark_len_def)
  then show f: "feed (replicate (mark_len u dah) True) s = (settle s)\<lparr>key := True, run_len := mark_len u dah, started := True\<rparr>"
    by (rule feed_mark [OF assms(3)])
  define s1 where "s1 = (settle s)\<lparr>key := True, run_len := mark_len u dah, started := True\<rparr>"
  have r: "ready u h s1" using assms(2) by (simp add: s1_def ready_def settle_keeps)
  assume "0 < g"
  then have "feed (replicate g False) s1 = (onMark (run_ms s1) s1)\<lparr>key := False, run_len := g\<rparr>"
    by (intro feed_gap) (simp_all add: s1_def)
  also have "onMark (run_ms s1) s1 = s1\<lparr>symbol := symbol s1 @ [mark_sym dah]\<rparr>"
    using mark_exact [OF assms(1) r, of dah] by (simp add: s1_def mark_len_def mark_sym_def)
  finally show "feed (replicate (mark_len u dah) True @ replicate g False) s
      = (settle s)\<lparr>symbol := symbol (settle s) @ [mark_sym dah], key := False, run_len := g, started := True\<rparr>"
    unfolding feed_append f s1_def by simp
qed

lemma key_samples_Cons:
  "key_samples u ((e, g) # xs) = replicate (mark_len u e) True @ replicate g False @ key_samples u xs"
  by (simp add: key_samples_def mark_len_def)

lemma key_samples_Nil: "key_samples u [] = []"
  by (simp add: key_samples_def)

lemma cw_flush_text:
  "cw_text (cw_flush s) = cw_text (flushSymbol False (if key s \<and> 0 < run_len s then onMark (run_ms s) s else s))"
  by (cases "key s \<and> 0 < run_len s") (auto simp: cw_flush_def flushSymbol_def symbolToChar_def Let_def split: option.splits)

lemma key_samples_append: "key_samples u (xs @ ys) = key_samples u xs @ key_samples u ys"
  by (simp add: key_samples_def)

lemma element_gap_small:
  assumes "speed_ok u h" and "element_gap u g"
  shows "g * h < 2 ^ 24"
proof -
  have "(2 * g) * h < (3 * u) * h" using assms speed_okD(1) [OF assms(1)] by (simp add: element_gap_def)
  then have "2 * (g * h) < 3 * (u * h)" by (simp only: mult.assoc)
  then have "g * h < 1000" using speed_okD(4) [OF assms(1)] by linarith
  then show ?thesis by simp
qed

lemma element_fed:
  fixes e :: bool
  assumes "speed_ok u h" and "ready u h s" and "\<not> key s" and "element_gap u g"
  defines "s' \<equiv> (settle s)\<lparr>symbol := symbol (settle s) @ [mark_sym e], key := False, run_len := g, started := True\<rparr>"
  shows "feed (key_samples u ((e, g) # xs)) s = feed (key_samples u xs) s'" and "settle s' = s'"
    and "ready u h s'" and "\<not> key s'"
proof -
  have g: "0 < g" "g * h < 2 ^ 24" using assms(4) element_gap_small [OF assms(1,4)] by (simp_all add: element_gap_def)
  show "feed (key_samples u ((e, g) # xs)) s = feed (key_samples u xs) s'"
    using mark_fed(2) [OF assms(1-3) g(1), of e] unfolding key_samples_Cons append_assoc [symmetric] feed_append s'_def by simp
  show r: "ready u h s'" using assms(2) by (simp add: s'_def ready_def settle_keeps)
  show "\<not> key s'" by (simp add: s'_def)
  show "settle s' = s'"
    by (rule settle_gap(1) [OF assms(1) r]) (use assms(4) g in \<open>simp_all add: s'_def\<close>)
qed

lemma char_fed:
  assumes "speed_ok u h" and "length gs + 1 = length es" and "\<forall>g\<in>set gs. element_gap u g"
    and "ready u h s" and "\<not> key s" and "0 < g"
  shows "feed (key_samples u (zip es (gs @ [g]))) s
    = (settle s)\<lparr>symbol := symbol (settle s) @ map mark_sym es, key := False, run_len := g, started := True\<rparr>"
  using assms(2-)
proof (induction gs arbitrary: es s)
  case Nil
  then obtain e where "es = [e]" by (cases es) auto
  then show ?case using mark_fed(2) [OF assms(1) Nil(3,4,5)] by (simp add: key_samples_Cons key_samples_Nil)
next
  case (Cons g1 gs)
  then obtain e es' where es: "es = e # es'" by (cases es) auto
  have g1: "element_gap u g1" using Cons.prems(2) by simp
  note el = element_fed [OF assms(1) Cons.prems(3,4) g1, of e]
  show ?case using Cons.IH [OF _ _ el(3,4) Cons.prems(5), of es'] el(2) Cons.prems(1,2)
    by (simp add: es el(1))
qed

lemma char_flushed:
  assumes "speed_ok u h" and "length gs + 1 = length es" and "\<forall>g\<in>set gs. element_gap u g"
    and "ready u h s" and "\<not> key s"
  shows "cw_text (cw_flush (feed (key_samples u (zip es (gs @ [g]))) s))
    = cw_text (flushSymbol False ((settle s)\<lparr>symbol := symbol (settle s) @ map mark_sym es\<rparr>))"
  using assms(2-)
proof (induction gs arbitrary: es s)
  case Nil
  then obtain e where es: "es = [e]" by (cases es) auto
  show ?case
  proof (cases g)
    case 0
    define s1 where "s1 = (settle s)\<lparr>key := True, run_len := mark_len u e, started := True\<rparr>"
    have f: "feed (key_samples u (zip es ([] @ [g]))) s = s1"
      using mark_fed(1) [OF assms(1) Nil(3,4), of e] by (simp add: es 0 key_samples_Cons key_samples_Nil s1_def)
    have r: "ready u h s1" using Nil(3) by (simp add: s1_def ready_def settle_keeps)
    have "onMark (run_ms s1) s1 = s1\<lparr>symbol := symbol s1 @ [mark_sym e]\<rparr>"
      using mark_exact [OF assms(1) r, of e] by (simp add: s1_def mark_len_def mark_sym_def)
    moreover have "key s1" "0 < run_len s1" using speed_okD(2) [OF assms(1)] by (simp_all add: s1_def mark_len_def)
    ultimately have "cw_text (cw_flush s1) = cw_text (flushSymbol False (s1\<lparr>symbol := symbol s1 @ [mark_sym e]\<rparr>))"
      by (simp add: cw_flush_text)
    then show ?thesis unfolding f by (simp add: es flushSymbol_def symbolToChar_def s1_def Let_def split: option.splits)
  next
    case (Suc n)
    then have f: "feed (key_samples u (zip es ([] @ [g]))) s
      = (settle s)\<lparr>symbol := symbol (settle s) @ [mark_sym e], key := False, run_len := g, started := True\<rparr>"
      using mark_fed(2) [OF assms(1) Nil(3,4), of g e] by (simp add: es key_samples_Cons key_samples_Nil)
    show ?thesis unfolding f by (simp add: es cw_flush_text flushSymbol_def symbolToChar_def Let_def split: option.splits)
  qed
next
  case (Cons g1 gs)
  then obtain e es' where es: "es = e # es'" by (cases es) auto
  have g1: "element_gap u g1" using Cons.prems(2) by simp
  note el = element_fed [OF assms(1) Cons.prems(3,4) g1, of e]
  show ?case using Cons.IH [OF _ _ el(3,4), of es'] el(2) Cons.prems(1,2)
    by (simp add: es el(1) flushSymbol_def symbolToChar_def Let_def split: option.splits)
qed

lemma code_marks:
  assumes "keys_char u c gs g xs"
  shows "map mark_sym (map (\<lambda>e. e = CHR ''-'') (morse_code c)) = morse_code c" and "(e, g') \<in> set xs \<Longrightarrow> g' \<in> set gs \<or> g' = g"
    and "g \<in> snd ` set xs" and "map_of morseTable (morse_code c) = Some c" and "morse_code c \<noteq> []"
proof -
  note c = morse_code_props [of c]
  have "c \<in> set morse_chars" using assms by (simp add: keys_char_def)
  note c = c [OF this]
  show "map_of morseTable (morse_code c) = Some c" "morse_code c \<noteq> []" by (rule c(1), rule c(2))
  show "map mark_sym (map (\<lambda>e. e = CHR ''-'') (morse_code c)) = morse_code c"
    using c(3) unfolding map_map by (intro map_idI) (auto simp: mark_sym_def)
  show "(e, g') \<in> set xs \<Longrightarrow> g' \<in> set gs \<or> g' = g"
    using assms by (auto simp: keys_char_def dest!: set_zip_rightD)
  have "snd ` set xs = set (gs @ [g])" using assms by (simp add: keys_char_def flip: set_map)
  then show "g \<in> snd ` set xs" by simp
qed

lemma flushSymbol_known:
  "map_of morseTable (symbol s) = Some c \<Longrightarrow>
    flushSymbol w s = s\<lparr>cw_text := cw_text s @ (if w then [c, CHR '' ''] else [c]), symbol := []\<rparr>"
  by (simp add: flushSymbol_def symbolToChar_def Let_def)

definition gaps_short :: "nat \<Rightarrow> keying \<Rightarrow> bool" where
  "gaps_short h xs \<longleftrightarrow> (\<forall>(e, g)\<in>set xs. g * h < 2 ^ 24)"

lemma char_settled:
  assumes "speed_ok u h" and "keys_char u c gs g xs" and "if w then word_gap u g else char_gap u g" and "gaps_short h xs"
    and "ready u h s" and "\<not> key s" and "symbol (settle s) = []"
  defines "s1 \<equiv> feed (key_samples u xs) s"
  shows "ready u h s1" and "\<not> key s1" and "symbol (settle s1) = []"
    and "cw_text (settle s1) = cw_text (settle s) @ (if w then [c, CHR '' ''] else [c])"
proof -
  note m = code_marks [OF assms(2)]
  define es where "es = map (\<lambda>e. e = CHR ''-'') (morse_code c)"
  have k: "length gs + 1 = length es" "\<forall>g\<in>set gs. element_gap u g" "xs = zip es (gs @ [g])"
    using assms(2) by (simp_all add: keys_char_def es_def)
  have "0 < g" using assms(3) speed_okD(2) [OF assms(1)] by (auto simp: word_gap_def char_gap_def split: if_splits)
  then have s1: "s1 = (settle s)\<lparr>symbol := morse_code c, key := False, run_len := g, started := True\<rparr>"
    using char_fed [OF assms(1) k(1,2) assms(5,6)] m(1) assms(7) by (simp add: k(3) s1_def flip: es_def)
  have g: "g * h < 2 ^ 24" using m(3) assms(4) by (auto simp: gaps_short_def)
  show r: "ready u h s1" "\<not> key s1" using assms(5) by (simp_all add: s1 ready_def settle_keeps)
  have "settle s1 = flushSymbol w s1"
    using settle_gap(2,3) [OF assms(1) r(1)] assms(3) g m(5) by (cases w) (simp_all add: s1)
  then have st: "settle s1 = s1\<lparr>cw_text := cw_text s1 @ (if w then [c, CHR '' ''] else [c]), symbol := []\<rparr>"
    using m(4) by (simp add: flushSymbol_known s1)
  show "symbol (settle s1) = []" by (simp add: st)
  show "cw_text (settle s1) = cw_text (settle s) @ (if w then [c, CHR '' ''] else [c])"
    unfolding st by (simp add: s1)
qed

lemma gaps_short_append: "gaps_short h (xs @ ys) \<longleftrightarrow> gaps_short h xs \<and> gaps_short h ys"
  by (auto simp: gaps_short_def)

lemma keys_flushed:
  assumes "speed_ok u h" and "keys_text u t xs" and "gaps_short h xs"
    and "ready u h s" and "\<not> key s" and "symbol (settle s) = []"
  shows "cw_text (cw_flush (feed (key_samples u xs) s)) = cw_text (settle s) @ t"
  using assms(2-)
proof (induction arbitrary: s)
  case (last c gs g xs)
  note m = code_marks [OF last.hyps]
  define es where "es = map (\<lambda>e. e = CHR ''-'') (morse_code c)"
  have k: "length gs + 1 = length es" "\<forall>g\<in>set gs. element_gap u g" "xs = zip es (gs @ [g])"
    using last.hyps by (simp_all add: keys_char_def es_def)
  show ?case
    using char_flushed [OF assms(1) k(1,2) last.prems(2,3), of g] m(1,4) last.prems(4)
    by (simp add: k(3) flushSymbol_known flip: es_def)
next
  case (char c gs g xs t ys)
  note one = char_settled [where w = False, OF assms(1) char.hyps(1) _ _ char.prems(2-4)]
  show ?case using char.IH [OF _ one(1-3)] one(4) char.hyps(2) char.prems(1)
    by (simp add: key_samples_append feed_append gaps_short_append)
next
  case (word c gs g xs t ys)
  note one = char_settled [where w = True, OF assms(1) word.hyps(1) _ _ word.prems(2-4)]
  show ?case using word.IH [OF _ one(1-3)] one(4) word.hyps(2) word.prems(1)
    by (simp add: key_samples_append feed_append gaps_short_append)
qed

text \<open>
  C18. Whoever keys a text at the speed the decoder was set to gets that text back: after any silence,
  the marks of the text's characters, with element gaps below 1.5 units, character gaps of 2 to 4
  units and word gaps of at least 5 units, decode to exactly the text, whether or not silence
  follows the last mark.  The unit is a whole number of hops of \<open>h\<close> milliseconds.
\<close>

theorem keyed_text_decoded:
  assumes "speed_ok u h" and "fdiv 1200 wpm = of_nat (u * h)"
    and "keys_text u t xs" and "gaps_short h xs"
  shows "fst (cw_take (cw_flush (feed (replicate n False @ key_samples u xs) (cw_new (of_nat h) wpm)))) = t"
proof -
  define s where "s = feed (replicate n False) (cw_new (of_nat h) wpm)"
  have "s = (cw_new (of_nat h) wpm)\<lparr>run_len := n\<rparr>"
    using feed_same [of n "cw_new (of_nat h) wpm"] by (simp add: s_def cw_new_def cw_reset_def)
  then have s: "ready u h s" "\<not> key s" "settle s = s" "symbol s = []" "cw_text s = []"
    using assms(2) by (simp_all add: cw_new_def cw_reset_def ready_def settle_def)
  show ?thesis using keys_flushed [OF assms(1,3,4) s(1,2)] s(3-5)
    by (simp add: feed_append cw_take_def flip: s_def)
qed

text \<open>At 20 words per minute with 10 ms hops, the text \<open>E TA\<close> with unequal gaps.\<close>

theorem keyed_text_decoded_witness:
  "fst (cw_take (cw_flush (feed (replicate 9 False @ key_samples 6 [(False, 40), (True, 17), (False, 7), (True, 0)])
      (cw_new (of_nat 10) 20)))) = ''E TA''"
proof (rule keyed_text_decoded)
  show "speed_ok 6 10" by (simp add: speed_ok_def)
  show "fdiv 1200 20 = of_nat (6 * 10)" using r32_nat [of 60] by (simp add: fdiv_def)
  have a: "keys_char 6 CHR ''A'' [7] 0 [(False, 7), (True, 0)]" and t: "keys_char 6 CHR ''T'' [] 17 [(True, 17)]"
    and e: "keys_char 6 CHR ''E'' [] 40 [(False, 40)]"
    by (simp_all add: keys_char_def morse_chars_def morse_code_def morseTable_def element_gap_def)
  have "keys_text 6 (CHR ''E'' # CHR '' '' # CHR ''T'' # [CHR ''A'']) ([(False, 40)] @ [(True, 17)] @ [(False, 7), (True, 0)])"
    by (rule keys_text.word [OF e _ keys_text.char [OF t _ keys_text.last [OF a]]]) (simp_all add: word_gap_def char_gap_def)
  then show "keys_text 6 ''E TA'' [(False, 40), (True, 17), (False, 7), (True, 0)]" by simp
  show "gaps_short 10 [(False, 40), (True, 17), (False, 7), (True, 0)]" by (simp add: gaps_short_def)
qed

section \<open>The state invariant\<close>

text \<open>A client's calls, in any order.\<close>

datatype cw_op = Push f32 | Flush | Take

fun cw_apply :: "cw_op \<Rightarrow> cw \<Rightarrow> cw" where
  "cw_apply (Push x) s = push x s"
| "cw_apply Flush s = cw_flush s"
| "cw_apply Take s = snd (cw_take s)"

definition wf_cw :: "cw \<Rightarrow> bool" where
  "wf_cw s \<longleftrightarrow>
     set (cw_text s) \<subseteq> set (CHR '' '' # morse_chars) \<and> set (symbol s) \<subseteq> {CHR ''.'', CHR ''-''} \<and>
     (dit_ms s = init_dit_ms s \<or> 15 \<le> dit_ms s \<and> dit_ms s \<le> 240)"

lemma symbolToChar_known: "symbolToChar s = Some c \<Longrightarrow> c \<in> set morse_chars"
  unfolding symbolToChar_def morse_chars_def by (drule map_of_SomeD) force

lemma wf_flushSymbol: "wf_cw s \<Longrightarrow> wf_cw (flushSymbol w s)"
  by (cases "symbolToChar s") (simp_all add: wf_cw_def flushSymbol_def symbolToChar_known Let_def subset_insertI2)

lemma wf_onSpace: "wf_cw s \<Longrightarrow> wf_cw (onSpace ms s)"
  by (simp add: onSpace_def wf_flushSymbol)

lemma wf_onMark: "wf_cw s \<Longrightarrow> wf_cw (onMark ms s)"
  by (auto simp: wf_cw_def onMark_def Let_def)

lemma wf_fields:
  "wf_cw (s\<lparr>key := k, run_len := n\<rparr>) = wf_cw s" "wf_cw (s\<lparr>key := k\<rparr>) = wf_cw s" "wf_cw (s\<lparr>run_len := n\<rparr>) = wf_cw s"
  "wf_cw (s\<lparr>started := b\<rparr>) = wf_cw s" "wf_cw (s\<lparr>nf := x\<rparr>) = wf_cw s" "wf_cw (s\<lparr>pk := x\<rparr>) = wf_cw s"
  "wf_cw (s\<lparr>nf := x, pk := y, have_env := b\<rparr>) = wf_cw s"
  by (simp_all add: wf_cw_def)

lemma wf_edge: "wf_cw s \<Longrightarrow> wf_cw (edge k s)"
  by (simp add: edge_def Let_def wf_onMark wf_onSpace wf_fields)

lemma wf_push: "wf_cw s \<Longrightarrow> wf_cw (push x s)"
  by (simp add: push_def Let_def wf_edge wf_fields)

lemma wf_apply: "wf_cw s \<Longrightarrow> wf_cw (cw_apply op s)"
proof (cases op)
  case Take
  then show "wf_cw s \<Longrightarrow> wf_cw (cw_apply op s)" by (simp add: cw_take_def wf_cw_def)
qed (simp_all add: wf_push cw_flush_def Let_def wf_flushSymbol wf_onMark wf_fields)

lemma wf_new: "wf_cw (cw_new hop wpm)"
  by (simp add: wf_cw_def cw_new_def cw_reset_def)

text \<open>
  C40. Whatever samples are pushed and however flushes and drains are interleaved, the decoder's text
  holds only characters of the Morse table and spaces, the pending symbol only dots and dashes, and
  the unit length is either the one the constructor set or between 15 and 240 ms.
\<close>

theorem cw_type_invariant: "wf_cw (fold cw_apply ops (cw_new hop wpm))"
  using wf_new [of hop wpm] by (induction ops arbitrary: hop wpm rule: rev_induct) (simp_all add: wf_apply)

section \<open>Short runs are absorbed\<close>

definition alternating :: "cw_run list \<Rightarrow> bool" where
  "alternating runs \<longleftrightarrow> successively (\<lambda>r s. fst r \<noteq> fst s) runs"

lemma alternating_append:
  "alternating (xs @ ys) \<longleftrightarrow> alternating xs \<and> alternating ys \<and> (xs \<noteq> [] \<and> ys \<noteq> [] \<longrightarrow> fst (last xs) \<noteq> fst (hd ys))"
  by (auto simp: alternating_def successively_append_iff)

lemma fmul_nonneg: "0 \<le> a \<Longrightarrow> 0 \<le> b \<Longrightarrow> 0 \<le> fmul a b"
  by (simp add: fmul_def r32_nonneg)

lemma run_step_inv:
  assumes "alternating runs" and "runs \<noteq> [] \<longrightarrow> fst (last runs) \<noteq> k" and "\<not> k \<and> \<not> seen_mark \<longrightarrow> runs = []"
    and "\<forall>r\<in>set runs. 0 \<le> snd r" and "0 \<le> hop"
  shows "case run_step hop hi lo (k, n, seen_mark, runs) x of (k', n', seen_mark', runs') \<Rightarrow>
    alternating runs' \<and> (runs' \<noteq> [] \<longrightarrow> fst (last runs') \<noteq> k') \<and> (\<not> k' \<and> \<not> seen_mark' \<longrightarrow> runs' = []) \<and> (\<forall>r\<in>set runs'. 0 \<le> snd r)"
  using assms fmul_nonneg [OF r32_nonneg [OF of_nat_0_le_iff] assms(5), of n]
  by (auto simp: run_step_def Let_def alternating_append) (auto simp: alternating_def)

lemma key_runs_props:
  assumes "0 \<le> hop"
  shows "alternating (key_runs hop e)" and "\<forall>r\<in>set (key_runs hop e). 0 \<le> snd r"
proof -
  define I where "I st = (case st of (k, n :: nat, seen_mark, runs) \<Rightarrow>
    alternating runs \<and> (runs \<noteq> [] \<longrightarrow> fst (last runs) \<noteq> k) \<and> (\<not> k \<and> \<not> seen_mark \<longrightarrow> runs = []) \<and> (\<forall>r\<in>set runs. 0 \<le> snd r))"
    for st :: "bool \<times> nat \<times> bool \<times> cw_run list"
  have step: "I (run_step hop hi lo st x)" if "I st" for st hi lo x
  proof -
    obtain k n sm runs where st: "st = (k, n, sm, runs)" by (cases st)
    show ?thesis using run_step_inv [of runs k sm hop hi lo n x] that assms by (simp add: I_def st)
  qed
  have "I (foldl (run_step hop hi lo) st xs)" if "I st" for st hi lo xs
    using that by (induction xs arbitrary: st) (simp_all add: step)
  then have I: "I (foldl (run_step hop hi lo) (False, 0, False, []) e)" for hi lo
    by (simp add: I_def alternating_def)
  define hyst where "hyst = fmul (r32 (8 / 100)) (fsub (list_hi e) (list_lo e))"
  obtain k n sm runs where st: "foldl (run_step hop (fadd (otsu e) hyst) (fsub (otsu e) hyst)) (False, 0, False, []) e = (k, n, sm, runs)"
    by (cases "foldl (run_step hop (fadd (otsu e) hyst) (fsub (otsu e) hyst)) (False, 0, False, []) e") auto
  have i: "alternating runs" "runs \<noteq> [] \<longrightarrow> fst (last runs) \<noteq> k" "\<forall>r\<in>set runs. 0 \<le> snd r"
    using I [of "fadd (otsu e) hyst" "fsub (otsu e) hyst"] unfolding st by (simp_all add: I_def)
  have eq: "key_runs hop e = (if k \<and> 0 < n then runs @ [(True, fmul (r32 (of_nat n)) hop)] else runs)"
    unfolding key_runs_def Let_def hyst_def [symmetric] st by simp
  show "alternating (key_runs hop e)"
    unfolding eq using i(1,2) by (simp add: alternating_append) (simp add: alternating_def)
  show "\<forall>r\<in>set (key_runs hop e). 0 \<le> snd r"
    unfolding eq using i(3) fmul_nonneg [OF r32_nonneg [OF of_nat_0_le_iff] assms] by auto
qed

lemma merge_at_split:
  assumes "runs = xs @ a # b # c # ys" and "i = length xs + 1"
  shows "merge_at i runs = xs @ (fst a, fadd (snd a) (fadd (snd b) (snd c))) # ys"
  using assms by (simp add: merge_at_def nth_append)

lemma split_at:
  assumes "1 \<le> i" and "i + 1 < length runs"
  obtains xs a b c ys where "runs = xs @ a # b # c # ys" and "i = length xs + 1"
proof -
  have "runs = take (i - 1) runs @ runs ! (i - 1) # runs ! i # runs ! (i + 1) # drop (i + 2) runs"
    using assms id_take_nth_drop [of "i - 1" runs] Cons_nth_drop_Suc [of i runs] Cons_nth_drop_Suc [of "i + 1" runs] by simp
  moreover have "i = length (take (i - 1) runs) + 1" using assms by simp
  ultimately show thesis by (rule that)
qed

lemma fadd_ge: "r32 g = g \<Longrightarrow> g \<le> a \<Longrightarrow> 0 \<le> b \<Longrightarrow> g \<le> fadd a b"
  unfolding fadd_def using r32_mono [of g "a + b"] by simp

definition long_runs :: "f32 \<Rightarrow> cw_run list \<Rightarrow> bool" where
  "long_runs glitch runs \<longleftrightarrow> list_all (\<lambda>r. glitch \<le> snd r) runs"

lemma deglitch_from_inv:
  assumes "r32 glitch = glitch" and "1 \<le> i" and "alternating runs" and "\<forall>r\<in>set runs. 0 \<le> snd r" and "long_runs glitch (take i runs)"
  shows "alternating (deglitch_from glitch i runs) \<and> long_runs glitch (butlast (deglitch_from glitch i runs))"
  using assms
proof (induction glitch i runs rule: deglitch_from.induct)
  case (1 glitch i runs)
  show ?case
  proof (cases "i + 1 < length runs")
    case False
    then have "set (butlast runs) \<subseteq> set (take i runs)"
      unfolding butlast_conv_take by (intro set_take_subset_set_take) simp
    then have "long_runs glitch (butlast runs)"
      using 1(7) by (auto simp: long_runs_def list_all_iff)
    then show ?thesis using False 1(5) by (subst (1 2) deglitch_from.simps) simp
  next
    case True
    show ?thesis
    proof (cases "snd (runs ! i) < glitch")
      case short: True
      obtain xs a b c ys where r: "runs = xs @ a # b # c # ys" and i: "i = length xs + 1"
        using split_at [OF 1(4) True] by blast
      define m where "m = (fst a, fadd (snd a) (fadd (snd b) (snd c)))"
      have me: "merge_at i runs = xs @ m # ys" using merge_at_split [OF r i] by (simp add: m_def)
      have nn: "0 \<le> snd a" "0 \<le> snd b" "0 \<le> snd c" "\<forall>r\<in>set (xs @ ys). 0 \<le> snd r" using 1(6) by (auto simp: r)
      have "long_runs glitch (xs @ [a])" using 1(7) by (simp add: r i)
      then have "long_runs glitch (take i (xs @ m # ys))"
        using fadd_ge [OF 1(3) _ fadd_nonneg [OF nn(2,3)]] by (simp add: i long_runs_def m_def)
      moreover have "alternating (xs @ m # ys)"
        using 1(5) unfolding r by (cases ys) (auto simp: alternating_append alternating_def m_def successively_append_iff)
      moreover have "\<forall>r\<in>set (xs @ m # ys). 0 \<le> snd r"
        using nn fadd_nonneg [OF nn(1) fadd_nonneg [OF nn(2,3)]] by (auto simp: m_def)
      ultimately show ?thesis
        using 1(1) [OF _ short 1(3,4)] 1(4) True short by (subst (1 2) deglitch_from.simps) (simp add: me)
    next
      case long: False
      have "take (i + 1) runs = take i runs @ [runs ! i]" using True by (simp add: take_Suc_conv_app_nth)
      then have "long_runs glitch (take (i + 1) runs)" using 1(7) long by (simp add: long_runs_def)
      then show ?thesis
        using 1(2) [OF _ long 1(3)] 1(4,5,6) True long by (subst (1 2) deglitch_from.simps) simp
    qed
  qed
qed

lemma alternating_suffix: "alternating (xs @ ys) \<Longrightarrow> alternating ys"
  by (simp add: alternating_append)

lemma alternating_prefix: "alternating (xs @ ys) \<Longrightarrow> alternating xs"
  by (simp add: alternating_append)

lemma drop_front: "\<exists>ys. xs = ys @ dropWhile P xs"
  by (rule exI [of _ "takeWhile P xs"]) simp

lemma drop_back: "\<exists>ys. xs = rev (dropWhile P (rev xs)) @ ys"
  by (rule exI [of _ "rev (takeWhile P (rev xs))"]) (simp flip: rev_append)

lemma drop_back_long:
  "long_runs g (butlast xs) \<Longrightarrow> long_runs g (rev (dropWhile (\<lambda>r. snd r < g) (rev xs)))"
proof (cases xs rule: rev_cases)
  case (snoc zs z)
  assume "long_runs g (butlast xs)"
  then have z: "long_runs g zs" by (simp add: snoc)
  then have "dropWhile (\<lambda>r. snd r < g) (rev zs) = rev zs"
    unfolding dropWhile_eq_self_iff
    by (cases zs rule: rev_cases) (auto simp: long_runs_def not_less)
  then show ?thesis using z by (simp add: snoc long_runs_def)
qed (simp add: long_runs_def)

lemma deglitch_props:
  assumes "r32 glitch = glitch" and "alternating runs" and "\<forall>r\<in>set runs. 0 \<le> snd r"
  shows "alternating (deglitch glitch runs)" and "long_runs glitch (deglitch glitch runs)"
proof -
  define rs where "rs = dropWhile (\<lambda>r. snd r < glitch) runs"
  have "alternating rs" unfolding rs_def using drop_front assms(2) alternating_suffix by metis
  moreover have "\<forall>r\<in>set rs. 0 \<le> snd r" using assms(3) set_dropWhileD unfolding rs_def by metis
  moreover have "long_runs glitch (take 1 rs)"
    using hd_dropWhile [of "\<lambda>r. snd r < glitch" runs, folded rs_def] by (cases rs) (simp_all add: long_runs_def not_less)
  ultimately have "alternating (deglitch_from glitch 1 rs)" "long_runs glitch (butlast (deglitch_from glitch 1 rs))"
    using deglitch_from_inv [OF assms(1)] by simp_all
  then show "alternating (deglitch glitch runs)" "long_runs glitch (deglitch glitch runs)"
    unfolding deglitch_def Let_def rs_def [symmetric]
    using drop_back alternating_prefix drop_back_long by metis+
qed

text \<open>
  The runs the offline decoder classifies, after short runs are absorbed, still alternate between
  mark and space, and every one of them lasts at least two and a half hops, whatever the envelope.
\<close>

theorem deglitched_runs:
  fixes e :: "f32 list"
  assumes "0 \<le> hop"
  defines "runs \<equiv> deglitch (fmul (5 / 2) hop) (key_runs hop e)"
  shows "alternating runs \<and> long_runs (fmul (5 / 2) hop) runs"
  unfolding runs_def using deglitch_props [OF _ key_runs_props [OF assms(1)]] by (simp add: fmul_def)

theorem deglitched_runs_witness:
  "alternating (deglitch (fmul (5 / 2) 5) (key_runs 5 [0, 1, 1, 1, 0, 1, 1, 1, 0])) \<and>
   long_runs (fmul (5 / 2) 5) (deglitch (fmul (5 / 2) 5) (key_runs 5 [0, 1, 1, 1, 0, 1, 1, 1, 0]))"
  by (rule deglitched_runs) simp

section \<open>What the moving average computes\<close>

text \<open>The window of five samples around \<open>i\<close>, cut at both ends: its sum and its number of samples.\<close>

definition win_lo :: "nat \<Rightarrow> nat" where "win_lo i = i - 2"
definition win_hi :: "nat \<Rightarrow> nat \<Rightarrow> nat" where "win_hi n i = min n (i + 3)"
definition win_sum :: "int list \<Rightarrow> nat \<Rightarrow> int" where "win_sum zs i = sum ((!) zs) {win_lo i..<win_hi (length zs) i}"
definition win_cnt :: "nat \<Rightarrow> nat \<Rightarrow> int" where "win_cnt n i = int (win_hi n i) - int (win_lo i)"

lemma part_sum_le:
  fixes zs :: "int list"
  assumes "b \<le> length zs"
  shows "\<bar>sum ((!) zs) {a..<b}\<bar> \<le> sum_list (map abs zs)"
proof -
  have "\<bar>sum ((!) zs) {a..<b}\<bar> \<le> (\<Sum>j = a..<b. \<bar>zs ! j\<bar>)"
    using sum_abs [of "(!) zs" "{a..<b}"] by simp
  also have "\<dots> \<le> (\<Sum>j = 0..<length zs. \<bar>zs ! j\<bar>)" using assms by (intro sum_mono2) auto
  also have "\<dots> = sum_list (map abs zs)" by (simp add: sum_list_sum_nth)
  finally show ?thesis .
qed

lemma win_enter:
  assumes "i < length zs"
  shows "sum ((!) zs) {win_lo i..<win_hi (length zs) (i + 1)} = win_sum zs i + (if i + 3 < length zs then zs ! (i + 3) else 0)"
proof (cases "i + 3 < length zs")
  case True
  then have "win_hi (length zs) (i + 1) = Suc (i + 3)" "win_hi (length zs) i = i + 3" by (simp_all add: win_hi_def)
  moreover have "win_lo i \<le> i + 3" by (simp add: win_lo_def)
  ultimately show ?thesis using True sum.atLeastLessThan_Suc [of "win_lo i" "i + 3" "(!) zs"] by (simp only: win_sum_def if_True)
qed (simp add: win_sum_def win_hi_def)

lemma win_leave:
  assumes "i < length zs"
  shows "win_sum zs (i + 1) = sum ((!) zs) {win_lo i..<win_hi (length zs) (i + 1)} - (if 2 \<le> i then zs ! (i - 2) else 0)"
proof (cases "2 \<le> i")
  case True
  then have "win_lo (i + 1) = Suc (i - 2)" "win_lo i = i - 2" by (simp_all add: win_lo_def)
  moreover have "i - 2 < win_hi (length zs) (i + 1)" using assms by (simp add: win_hi_def)
  ultimately show ?thesis using True by (simp add: win_sum_def sum.atLeast_Suc_lessThan)
qed (simp add: win_sum_def win_lo_def)

lemma smooth_loop_step:
  assumes "(if i + 3 < length env then (dadd acc (env ! (i + 3)), cnt + 1) else (acc, cnt)) = (a1, c1)"
    and "(if 2 \<le> i then (dsub a1 (env ! (i - 2)), c1 - 1) else (a1, c1)) = st"
  shows "smooth_loop env i (Suc k) (acc, cnt) = r32 (ddiv acc (of_int cnt)) # smooth_loop env (i + 1) k st"
proof -
  have "0 \<le> int i - 2 \<longleftrightarrow> 2 \<le> i" "nat (int i - 2) = i - 2" by simp_all
  then show ?thesis unfolding smooth_loop.simps Let_def assms(1) [simplified] using assms by auto
qed

lemma smooth_loop_windows:
  assumes "3 * sum_list (map abs zs) < 2 ^ 53" and "i + k = length zs" and "zs \<noteq> []"
  shows "smooth_loop (map of_int zs) i k (of_int (2 * zs ! 0 + win_sum zs i), 2 + win_cnt (length zs) i)
    = map (\<lambda>j. r32 (ddiv (of_int (2 * zs ! 0 + win_sum zs j)) (of_int (2 + win_cnt (length zs) j)))) [i..<length zs]"
  using assms(2)
proof (induction k arbitrary: i)
  case (Suc k)
  define n where "n = length zs"
  have i: "i < n" using Suc.prems by (simp add: n_def)
  define acc cnt where "acc = 2 * zs ! 0 + win_sum zs i" and "cnt = 2 + win_cnt n i"
  define mid where "mid = 2 * zs ! 0 + sum ((!) zs) {win_lo i..<win_hi n (i + 1)}"
  have b0: "\<bar>2 * zs ! 0\<bar> \<le> 2 * sum_list (map abs zs)"
    using part_sum_le [of 1 zs 0] assms(3) by (cases zs) simp_all
  have small: "\<bar>2 * zs ! 0 + sum ((!) zs) {a..<win_hi n b}\<bar> < 2 ^ 53" for a b
    using part_sum_le [of "win_hi n b" zs a] b0 assms(1) by (simp add: win_hi_def n_def)
  have one: "(if i + 3 < n then (dadd (of_int acc) (map of_int zs ! (i + 3)), cnt + 1) else (of_int acc, cnt))
    = (of_int mid, 2 + int (win_hi n (i + 1)) - int (win_lo i))"
    using win_enter [of i zs] i r64_int [OF small [of "win_lo i" "i + 1"]]
    by (auto simp: acc_def cnt_def mid_def dadd_def win_cnt_def win_hi_def algebra_simps simp flip: n_def)
  have two: "(if 2 \<le> i then (dsub (of_int mid) (map of_int zs ! (i - 2)), 2 + int (win_hi n (i + 1)) - int (win_lo i) - 1)
      else (of_int mid, 2 + int (win_hi n (i + 1)) - int (win_lo i)))
    = (of_int (2 * zs ! 0 + win_sum zs (i + 1)), 2 + win_cnt n (i + 1))"
  proof -
    have new: "r64 (of_int (2 * zs ! 0 + win_sum zs (i + 1))) = of_int (2 * zs ! 0 + win_sum zs (i + 1))"
      using r64_int [OF small [of "win_lo (i + 1)" "i + 1"]] by (simp only: win_sum_def n_def)
    have "mid - (if 2 \<le> i then zs ! (i - 2) else 0) = 2 * zs ! 0 + win_sum zs (i + 1)"
      using win_leave [of i zs] i by (simp add: mid_def n_def)
    then show ?thesis using new i
      by (auto simp: dsub_def win_cnt_def win_lo_def n_def simp flip: of_int_diff)
  qed
  have "[i..<n] = i # [i + 1..<n]" using i by (simp add: upt_rec)
  moreover have "smooth_loop (map of_int zs) i (Suc k) (of_int acc, cnt)
    = r32 (ddiv (of_int acc) (of_int cnt))
      # smooth_loop (map of_int zs) (i + 1) k (of_int (2 * zs ! 0 + win_sum zs (i + 1)), 2 + win_cnt n (i + 1))"
    using one two by (intro smooth_loop_step) (simp_all add: n_def)
  ultimately show ?case
    using Suc.IH [of "i + 1"] Suc.prems unfolding n_def [symmetric] acc_def [symmetric] cnt_def [symmetric]
    by (simp add: acc_def cnt_def)
qed simp

lemma smooth_start_window:
  assumes "3 * sum_list (map abs zs) < 2 ^ 53" and "zs \<noteq> []"
  shows "smooth_start (map of_int zs) = (of_int (2 * zs ! 0 + win_sum zs 0), 2 + win_cnt (length zs) 0)"
proof -
  define n where "n = length zs"
  have b: "\<bar>sum ((!) zs) {a..<b}\<bar> \<le> sum_list (map abs zs)" if "b \<le> n" for a b
    using part_sum_le that by (simp add: n_def)
  have n: "0 < n" using assms(2) by (simp add: n_def)
  have b0: "\<bar>zs ! 0\<bar> \<le> sum_list (map abs zs)" using b [of 1 0] n by simp
  have e: "dadd (of_int k) (of_int m) = of_int (k + m)" if "\<bar>k + m\<bar> < 2 ^ 53" for k m
    using r64_int [OF that] by (simp add: dadd_def)
  have s: "sum ((!) zs) {0..<2} = zs ! 0 + zs ! 1" "sum ((!) zs) {0..<3} = zs ! 0 + zs ! 1 + zs ! 2"
    by (simp_all add: numeral_eq_Suc)
  have r: "dadd 0 (of_int (zs ! 0)) = of_int (zs ! 0)" "dadd (of_int (zs ! 0)) (of_int (zs ! 0)) = of_int (2 * zs ! 0)"
    "dadd (of_int (2 * zs ! 0)) (of_int (zs ! 0)) = of_int (3 * zs ! 0)"
    using e [of 0 "zs ! 0"] e [of "zs ! 0" "zs ! 0"] e [of "2 * zs ! 0" "zs ! 0"] b0 assms(1) by simp_all
  have r2: "dadd (of_int (3 * zs ! 0)) (of_int (zs ! 1)) = of_int (3 * zs ! 0 + zs ! 1)" if "1 < n"
    using e [of "3 * zs ! 0" "zs ! 1"] b [of 2 0] b0 assms(1) that by (simp add: s)
  have r3: "dadd (of_int (3 * zs ! 0 + zs ! 1)) (of_int (zs ! 2)) = of_int (3 * zs ! 0 + zs ! 1 + zs ! 2)" if "2 < n"
    using e [of "3 * zs ! 0 + zs ! 1" "zs ! 2"] b [of 3 0] b0 assms(1) that by (simp add: s)
  have five: "[-2..2] = [-2, -1, 0, 1, 2 :: int]" by (simp add: upto_rec1)
  have env: "map rat_of_int zs ! i = of_int (zs ! i)" if "i < n" for i using that by (simp add: n_def)
  consider "n = 1" | "n = 2" | "3 \<le> n" using n by linarith
  then show ?thesis
  proof cases
    case 1
    then show ?thesis using r env [of 0] s n
      unfolding smooth_start_def five by (simp add: win_sum_def win_cnt_def win_lo_def win_hi_def flip: n_def)
  next
    case 2
    then show ?thesis using r r2 env [of 0] env [of 1] s n
      unfolding smooth_start_def five by (simp add: win_sum_def win_cnt_def win_lo_def win_hi_def flip: n_def)
  next
    case 3
    then show ?thesis using r r2 r3 env [of 0] env [of 1] env [of 2] s n
      unfolding smooth_start_def five by (simp add: win_sum_def win_cnt_def win_lo_def win_hi_def flip: n_def)
  qed
qed

text \<open>
  What the five-sample moving average of the offline decoder computes: on an envelope of whole
  numbers, output \<open>i\<close> is the mean of the samples \<open>i - 2 .. i + 2\<close> inside the envelope together with
  two more copies of the first sample.  The copies, added for the positions before the start, never
  leave the sum, so every output, however late, is pulled towards the first sample.
\<close>

theorem smooth_keeps_first_sample:
  assumes "3 * sum_list (map abs zs) < 2 ^ 53"
  shows "smooth (map of_int zs)
    = map (\<lambda>i. r32 (ddiv (of_int (2 * zs ! 0 + win_sum zs i)) (of_int (2 + win_cnt (length zs) i)))) [0..<length zs]"
proof (cases "zs = []")
  case False
  show ?thesis
    using smooth_loop_windows [OF assms _ False, of 0 "length zs"] smooth_start_window [OF assms False]
    by (simp add: smooth_def)
qed (simp add: smooth_def)

text \<open>A first sample of 7 and silence after it: the average never returns to 0.\<close>

theorem smooth_keeps_first_sample_witness:
  "smooth (map of_int [7, 0, 0, 0, 0, 0, 0, 0, 0]) ! 5 = 2"
proof -
  have "smooth (map of_int [7, 0, 0, 0, 0, 0, 0, 0, 0]) ! 5 = r32 (ddiv 14 7)"
    by (subst smooth_keeps_first_sample) (simp_all add: win_sum_def win_cnt_def win_lo_def win_hi_def numeral_eq_Suc)
  moreover have "ddiv 14 7 = 2" using r64_int [of 2] by (simp add: ddiv_def)
  moreover have "r32 2 = 2" using r32_int [of 2] by simp
  ultimately show ?thesis by simp
qed

end
