(* ===== verification/CwTracker.thy ===== *)
theory CwTracker
  imports Float32 "HOL-Library.AList" "HOL-Library.Sublist" "HOL-Library.Char_ord" "HOL-Library.Multiset"
begin

text \<open>
  The carrier tracker of the CW skimmer (\<open>gm/hf/cw_track.cc\<close>, \<open>gm/hf/cw_track.h\<close>).  A tracker is
  its configuration and a list of tracks; \<open>tracker_step\<close> advances it by one detection window:
  gate, peaks, association, expiry, and decoding with confirmation.  The order in which
  \<open>std::sort\<close> leaves equal peaks and in which an \<open>unordered_set\<close> is traversed are the parameters
  \<open>srt\<close> and \<open>enum\<close>; the decoder, its speed and the frequency of a bin are the functions the caller
  passes.  Slot counters are 64-bit words.
\<close>

section \<open>Callsigns\<close>

text \<open>The comparisons of \<open>std::string\<close> bytes with the ranges of capital letters and of digits.\<close>

definition is_upper :: "char \<Rightarrow> bool" where "is_upper c \<longleftrightarrow> CHR ''A'' \<le> c \<and> c \<le> CHR ''Z''"
definition is_dig :: "char \<Rightarrow> bool" where "is_dig c \<longleftrightarrow> CHR ''0'' \<le> c \<and> c \<le> CHR ''9''"

definition last_digit :: "string \<Rightarrow> int" where
  "last_digit s = foldl (\<lambda>l i. if is_dig (s ! i) then int i else l) (-1) [0..<length s]"

definition looksLikeCall :: "string \<Rightarrow> bool" where
  "looksLikeCall s =
     (let n = int (length s)
      in if n < 3 \<or> 8 < n then False
         else if \<not> list_all (\<lambda>c. is_upper c \<or> is_dig c) s then False
         else
           (let lastDigit = last_digit s
            in if lastDigit < 1 \<or> 3 < lastDigit then False
               else if \<not> is_upper (s ! 0) then False
               else
                 (let suffix = n - 1 - lastDigit
                  in if suffix < 1 \<or> 4 < suffix then False
                     else list_all is_upper (drop (nat lastDigit + 1) s))))"

definition call_prefixes :: "string list" where
  "call_prefixes = [''CQ'', ''QRZ'', ''TEST'', ''DX'']"

fun extract_from :: "string list \<Rightarrow> string \<Rightarrow> string" where
  "extract_from [] tok = (if looksLikeCall tok then tok else [])"
| "extract_from (p # ps) tok =
     (if length p < length tok \<and> prefix p tok \<and> looksLikeCall (drop (length p) tok) then drop (length p) tok
      else extract_from ps tok)"

definition extractCall :: "string \<Rightarrow> string" where
  "extractCall tok = extract_from call_prefixes tok"

text \<open>Levenshtein distance at most one: the count of substitutions, and the alignment with one deletion.\<close>

fun subst_loop :: "string \<Rightarrow> string \<Rightarrow> int \<Rightarrow> bool" where
  "subst_loop (x # xs) (y # ys) diff =
     (if x \<noteq> y then (if 1 < diff + 1 then False else subst_loop xs ys (diff + 1)) else subst_loop xs ys diff)"
| "subst_loop _ _ diff = True"

fun align_loop :: "string \<Rightarrow> string \<Rightarrow> bool \<Rightarrow> bool" where
  "align_loop (x # xs) (y # ys) skipped =
     (if x = y then align_loop xs ys skipped else if skipped then False else align_loop (x # xs) ys True)"
| "align_loop _ _ skipped = True"

definition editDistLE1 :: "string \<Rightarrow> string \<Rightarrow> bool" where
  "editDistLE1 a b =
     (let la = int (length a); lb = int (length b)
      in if 1 < \<bar>la - lb\<bar> then False
         else if la = lb then subst_loop a b 0
         else if la < lb then align_loop a b False else align_loop b a False)"

lemma rest_shorter: "xs \<noteq> [] \<Longrightarrow> length (dropWhile P xs) - Suc 0 < length xs"
  using length_dropWhile_le [of P xs] by (cases xs) auto

function tokens :: "string \<Rightarrow> string list" where
  "tokens txt =
     (if txt = [] then []
      else
        (let tok = takeWhile (\<lambda>c. c \<noteq> CHR '' '') txt;
             rest = drop 1 (dropWhile (\<lambda>c. c \<noteq> CHR '' '') txt)
         in if tok \<noteq> [] then tok # tokens rest else tokens rest))"
  by pat_completeness auto
termination
  by (relation "measure length") (simp_all add: rest_shorter)

declare tokens.simps [simp del]

section \<open>The tracker\<close>

record cw_config =
  snr_thresh :: f32
  adapt_k :: f32
  drift_bins :: int
  merge_bins :: int
  confirm :: int
  ttl_slots :: u64

record callstat =
  cs_count :: int
  cs_last_wi :: u64
  cs_cq :: bool

record track =
  tbin :: int
  snr_ema :: f32
  born_wi :: u64
  last_wi :: u64
  call_cnt :: "(string \<times> callstat) list"
  emitted :: "string list"

record cwspot =
  spot_hz :: f64
  spot_wpm :: f32
  spot_snr :: f32
  spot_call :: string
  spot_cq :: bool

type_synonym peak = "int \<times> f32"

text \<open>What the caller passes for one window.\<close>

record window =
  w_wi :: u64
  w_snr :: "f32 list"
  w_decode :: "int \<Rightarrow> string"
  w_wpm :: "int \<Rightarrow> f32"
  w_hz :: "int \<Rightarrow> f64"

definition snr_gate :: "cw_config \<Rightarrow> f32 list \<Rightarrow> f32" where
  "snr_gate cfg snr =
     (if 0 < adapt_k cfg \<and> 8 < length snr
      then (let m = fmul (adapt_k cfg) (sort snr ! (length snr div 2)) in if snr_thresh cfg < m then m else snr_thresh cfg)
      else snr_thresh cfg)"

definition is_peak :: "f32 \<Rightarrow> f32 list \<Rightarrow> nat \<Rightarrow> bool" where
  "is_peak gate snr b =
     (if snr ! b < gate then False
      else if snr ! b < snr ! (b - 1) \<or> snr ! b < snr ! (b + 1) \<or> snr ! b < snr ! (b - 2) \<or> snr ! b < snr ! (b + 2) then False
      else True)"

definition find_peaks :: "f32 \<Rightarrow> f32 list \<Rightarrow> peak list" where
  "find_peaks gate snr = map (\<lambda>b. (int b, snr ! b)) (filter (is_peak gate snr) [2..<length snr - 2])"

text \<open>The nearest unclaimed track in drift range, the first of the nearest.\<close>

definition best_track :: "cw_config \<Rightarrow> track list \<Rightarrow> bool list \<Rightarrow> int \<Rightarrow> int" where
  "best_track cfg ts claimed b =
     fst (foldl (\<lambda>(best, bestd) t.
        if claimed ! t then (best, bestd)
        else (let d = \<bar>tbin (ts ! t) - b\<bar>
              in if d \<le> drift_bins cfg \<and> d < bestd then (int t, d) else (best, bestd)))
       (-1, drift_bins cfg + 1) [0..<length ts])"

definition associate :: "cw_config \<Rightarrow> u64 \<Rightarrow> track list \<times> bool list \<Rightarrow> peak \<Rightarrow> track list \<times> bool list" where
  "associate cfg wi st p =
     (let (ts, claimed) = st;
          best = best_track cfg ts claimed (fst p)
      in if 0 \<le> best
         then (let k = nat best; t = ts ! k
               in (ts[k := t\<lparr>tbin := fst p, snr_ema := fadd (fmul (r32 (7 / 10)) (snr_ema t)) (fmul (r32 (3 / 10)) (snd p)),
                            last_wi := wi\<rparr>],
                   claimed[k := True]))
         else if list_ex (\<lambda>t. \<bar>tbin t - fst p\<bar> \<le> merge_bins cfg) ts then (ts, claimed)
         else (ts @ [\<lparr>tbin = fst p, snr_ema = snd p, born_wi = wi, last_wi = wi, call_cnt = [], emitted = []\<rparr>],
               claimed @ [True]))"

definition expire :: "cw_config \<Rightarrow> u64 \<Rightarrow> track list \<Rightarrow> track list" where
  "expire cfg wi ts = filter (\<lambda>t. \<not> ttl_slots cfg < wi - last_wi t) ts"

text \<open>The calls in a window's text, in order, and whether it calls CQ.\<close>

fun scan_tokens :: "string list \<Rightarrow> string list \<times> bool \<Rightarrow> string list \<times> bool" where
  "scan_tokens [] st = st"
| "scan_tokens (tok # toks) (calls, cq) =
     (if tok = ''CQ'' \<or> tok = ''QRZ'' then scan_tokens toks (calls, True)
      else
        (let call = extractCall tok
         in if call = [] then scan_tokens toks (calls, cq)
            else scan_tokens toks
                   (calls @ [call], cq \<or> call \<noteq> tok \<and> (prefix ''CQ'' tok \<or> prefix ''QRZ'' tok))))"

definition call_stat :: "track \<Rightarrow> string \<Rightarrow> callstat" where
  "call_stat t call =
     (case map_of (call_cnt t) call of None \<Rightarrow> \<lparr>cs_count = 0, cs_last_wi = 0, cs_cq = False\<rparr> | Some cs \<Rightarrow> cs)"

definition count_call :: "u64 \<Rightarrow> bool \<Rightarrow> track \<Rightarrow> string \<Rightarrow> track" where
  "count_call wi window_cq t call =
     (let cs = call_stat t call;
          cs = cs\<lparr>cs_count := cs_count cs + 1, cs_last_wi := wi, cs_cq := window_cq \<or> cs_cq cs\<rparr>
      in t\<lparr>call_cnt := AList.update call cs (call_cnt t)\<rparr>)"

definition dominant :: "cw_config \<Rightarrow> u64 \<Rightarrow> track \<Rightarrow> int" where
  "dominant cfg wi t =
     foldl (\<lambda>best kv. if wi - cs_last_wi (snd kv) \<le> ttl_slots cfg div 4 then max best (cs_count (snd kv)) else best)
       0 (call_cnt t)"

definition is_variant :: "string \<Rightarrow> string \<Rightarrow> bool" where
  "is_variant call e \<longleftrightarrow> strict_prefix call e \<or> editDistLE1 e call"

definition emit_call ::
  "cw_config \<Rightarrow> window \<Rightarrow> f64 \<Rightarrow> track \<times> cwspot list \<Rightarrow> string \<Rightarrow> track \<times> cwspot list" where
  "emit_call cfg w hz st call =
     (let (t, spots) = st; mine = cs_count (call_stat t call)
      in if mine < confirm cfg \<or> call \<in> set (emitted t) then (t, spots)
         else if mine * 2 < dominant cfg (w_wi w) t then (t, spots)
         else if list_ex (is_variant call) (emitted t) then (t, spots)
         else (t\<lparr>emitted := emitted t @ [call]\<rparr>,
               spots @ [\<lparr>spot_hz = hz, spot_wpm = w_wpm w (tbin t), spot_snr = snr_ema t, spot_call = call,
                         spot_cq = cs_cq (call_stat t call)\<rparr>]))"

definition decode_track :: "cw_config \<Rightarrow> (string list \<Rightarrow> string list) \<Rightarrow> window \<Rightarrow> track \<Rightarrow> track \<times> cwspot list" where
  "decode_track cfg enum w t =
     (if last_wi t \<noteq> w_wi w then (t, [])
      else
        (let hz = w_hz w (tbin t)
         in if hz \<le> 0 then (t, [])
            else
              (let (calls, window_cq) = scan_tokens (tokens (w_decode w (tbin t))) ([], False);
                   seen_now = enum calls;
                   t = foldl (count_call (w_wi w) window_cq) t seen_now
               in foldl (emit_call cfg w hz) (t, []) seen_now)))"

definition tracker_step ::
  "(peak list \<Rightarrow> peak list) \<Rightarrow> (string list \<Rightarrow> string list) \<Rightarrow> cw_config \<Rightarrow> window \<Rightarrow> track list \<Rightarrow> track list \<times> cwspot list" where
  "tracker_step srt enum cfg w ts =
     (let peaks = srt (find_peaks (snr_gate cfg (w_snr w)) (w_snr w));
          ts = fst (foldl (associate cfg (w_wi w)) (ts, replicate (length ts) False) peaks);
          ts = expire cfg (w_wi w) ts;
          res = map (decode_track cfg enum w) ts
      in (map fst res, concat (map snd res)))"

section \<open>The shape of a callsign\<close>

lemma upper_not_dig: "is_upper c \<Longrightarrow> \<not> is_dig c"
proof
  assume "is_upper c" and "is_dig c"
  then have "CHR ''A'' \<le> CHR ''9''" unfolding is_upper_def is_dig_def by (blast intro: order_trans)
  then show False by simp
qed

lemma last_digit_snoc: "last_digit (s @ [c]) = (if is_dig c then int (length s) else last_digit s)"
proof -
  have "foldl (\<lambda>l i. if is_dig ((s @ [c]) ! i) then int i else l) (-1) [0..<length s] = last_digit s"
    unfolding last_digit_def by (rule foldl_cong) (simp_all add: nth_append)
  then show ?thesis by (simp add: last_digit_def)
qed

lemma last_digit_at: "is_dig d \<Longrightarrow> list_all is_upper q \<Longrightarrow> last_digit (p @ d # q) = int (length p)"
proof (induction q rule: rev_induct)
  case (snoc c q)
  then show ?case using last_digit_snoc [of "p @ d # q" c] upper_not_dig by auto
qed (simp add: last_digit_snoc)

lemma last_digit_split:
  "0 \<le> last_digit s \<Longrightarrow> \<exists>p d q. s = p @ d # q \<and> is_dig d \<and> last_digit s = int (length p)"
proof (induction s rule: rev_induct)
  case (snoc c s)
  show ?case
  proof (cases "is_dig c")
    case False
    then obtain p d q where "s = p @ d # q" "is_dig d" "last_digit s = int (length p)"
      using snoc by (auto simp: last_digit_snoc)
    then show ?thesis using False by (intro exI [of _ p] exI [of _ d] exI [of _ "q @ [c]"]) (simp add: last_digit_snoc [of "p @ d # q" c, simplified])
  qed (use last_digit_snoc in auto)
qed (simp add: last_digit_def)

text \<open>A prefix of one to three letters or digits that starts with a letter, a digit, one to four letters.\<close>

definition call_shape :: "string \<Rightarrow> char \<Rightarrow> string \<Rightarrow> bool" where
  "call_shape p d q \<longleftrightarrow>
     1 \<le> length p \<and> length p \<le> 3 \<and> is_upper (hd p) \<and> list_all (\<lambda>c. is_upper c \<or> is_dig c) p \<and> is_dig d \<and>
     1 \<le> length q \<and> length q \<le> 4 \<and> list_all is_upper q"

text \<open>
  The callsign check accepts exactly the strings of the documented shape: a prefix of one to three
  letters or digits beginning with a letter, an area digit, and a suffix of one to four letters.
\<close>

theorem looksLikeCall_shape: "looksLikeCall s \<longleftrightarrow> (\<exists>p d q. s = p @ d # q \<and> call_shape p d q)"
proof
  assume l: "looksLikeCall s"
  then have ld: "1 \<le> last_digit s" "last_digit s \<le> 3" by (auto simp: looksLikeCall_def Let_def split: if_splits)
  then obtain p d q where s: "s = p @ d # q" "is_dig d" "last_digit s = int (length p)" using last_digit_split [of s] by auto
  have n: "nat (1 + int k) = Suc k" for k by simp
  have "call_shape p d q"
    using l ld s(2,3) unfolding s(1)
    by (cases p) (auto simp: looksLikeCall_def call_shape_def Let_def n Suc_le_eq split: if_splits)
  then show "\<exists>p d q. s = p @ d # q \<and> call_shape p d q" using s by blast
next
  assume "\<exists>p d q. s = p @ d # q \<and> call_shape p d q"
  then obtain p d q where s: "s = p @ d # q" and sh: "call_shape p d q" by blast
  have ld: "last_digit (p @ d # q) = int (length p)" using sh by (intro last_digit_at) (simp_all add: call_shape_def)
  have "list_all (\<lambda>c. is_upper c \<or> is_dig c) q" using sh by (auto simp: call_shape_def list_all_iff)
  moreover have "(p @ d # q) ! 0 = hd p" using sh by (cases p) (auto simp: call_shape_def)
  ultimately show "looksLikeCall s" using sh by (auto simp add: s looksLikeCall_def Let_def ld call_shape_def)
qed

lemma extract_from_call: "extract_from ps tok \<noteq> [] \<Longrightarrow> looksLikeCall (extract_from ps tok)"
  by (induction ps tok rule: extract_from.induct) (auto split: if_splits)

lemma extractCall_valid: "extractCall tok \<noteq> [] \<Longrightarrow> looksLikeCall (extractCall tok)"
  unfolding extractCall_def by (rule extract_from_call)

section \<open>Near-miss respellings\<close>

text \<open>One edit: nothing, a substitution, an insertion or a deletion.\<close>

inductive one_edit :: "string \<Rightarrow> string \<Rightarrow> bool" where
  same: "one_edit a a"
| subst: "one_edit (u @ c # v) (u @ d # v)"
| insert: "one_edit (u @ v) (u @ c # v)"
| delete: "one_edit (u @ c # v) (u @ v)"

lemma subst_loop_1: "length a = length b \<Longrightarrow> subst_loop a b 1 \<longleftrightarrow> a = b"
  by (induction a b rule: list_induct2) auto

lemma subst_loop_0: "length a = length b \<Longrightarrow> subst_loop a b 0 \<longleftrightarrow> a = b \<or> (\<exists>u c d v. a = u @ c # v \<and> b = u @ d # v)"
proof (induction a b rule: list_induct2)
  case (Cons x xs y ys)
  show ?case
  proof (cases "x = y")
    case True
    have "(\<exists>u c d v. x # xs = u @ c # v \<and> x # ys = u @ d # v) \<longleftrightarrow> xs = ys \<or> (\<exists>u c d v. xs = u @ c # v \<and> ys = u @ d # v)" (is "?L \<longleftrightarrow> ?R")
    proof
      assume ?L
      then obtain u c d v where u: "x # xs = u @ c # v" "x # ys = u @ d # v" by blast
      then show ?R by (cases u) auto
    next
      assume ?R
      then consider "xs = ys" | u c d v where "xs = u @ c # v" "ys = u @ d # v" by blast
      then show ?L
      proof cases
        case 1
        then show ?thesis by (intro exI [of _ "[]"]) simp
      next
        case 2
        then show ?thesis by (intro exI [of _ "x # u"] exI [of _ c] exI [of _ d] exI [of _ v]) simp
      qed
    qed
    then show ?thesis using True Cons.IH by simp
  next
    case False
    then have "(\<exists>u c d v. x # xs = u @ c # v \<and> y # ys = u @ d # v) \<longleftrightarrow> xs = ys"
      by (auto simp: Cons_eq_append_conv intro: exI [of _ "[]"])
    then show ?thesis using False subst_loop_1 [OF Cons.hyps] by simp
  qed
qed simp

lemma align_loop_True: "length a = length b \<Longrightarrow> align_loop a b True \<longleftrightarrow> a = b"
  by (induction a b rule: list_induct2) auto

lemma align_loop_False: "length b = length a + 1 \<Longrightarrow> align_loop a b False \<longleftrightarrow> (\<exists>u c v. a = u @ v \<and> b = u @ c # v)"
proof (induction a arbitrary: b)
  case Nil
  then obtain y where "b = [y]" by (cases b) auto
  then show ?case by auto
next
  case (Cons x xs)
  then obtain y ys where b: "b = y # ys" "length ys = length xs + 1" by (cases b) auto
  show ?case
  proof (cases "x = y")
    case True
    have "(\<exists>u c v. x # xs = u @ v \<and> x # ys = u @ c # v) \<longleftrightarrow> (\<exists>u c v. xs = u @ v \<and> ys = u @ c # v)" (is "?L \<longleftrightarrow> ?R")
    proof
      assume ?L
      then obtain u c v where u: "x # xs = u @ v" "x # ys = u @ c # v" by blast
      then show ?R by (cases u) (auto intro: exI [of _ "[]"])
    next
      assume ?R
      then obtain u c v where "xs = u @ v" "ys = u @ c # v" by blast
      then show ?L by (intro exI [of _ "x # u"] exI [of _ c] exI [of _ v]) simp
    qed
    then show ?thesis using True Cons.IH [OF b(2)] by (simp add: b)
  next
    case False
    have "align_loop (x # xs) ys True \<longleftrightarrow> x # xs = ys" using b(2) by (intro align_loop_True) simp
    moreover have "(\<exists>u c v. x # xs = u @ v \<and> y # ys = u @ c # v) \<longleftrightarrow> x # xs = ys"
      using False by (auto simp: Cons_eq_append_conv)
    ultimately show ?thesis using False by (simp add: b)
  qed
qed

lemma one_edit_cases:
  "one_edit a b \<longleftrightarrow> a = b \<or> (\<exists>u c d v. a = u @ c # v \<and> b = u @ d # v) \<or>
     (\<exists>u c v. a = u @ v \<and> b = u @ c # v) \<or> (\<exists>u c v. a = u @ c # v \<and> b = u @ v)"
  unfolding one_edit.simps [of a b] by blast

lemma edit_lengths:
  "(\<exists>u c d v. a = u @ c # v \<and> b = u @ d # v) \<Longrightarrow> length a = length b"
  "(\<exists>u c v. a = u @ v \<and> b = u @ c # v) \<Longrightarrow> length b = length a + 1"
  by auto

text \<open>
  The respelling test is exactly Levenshtein distance at most one: it accepts two calls if and
  only if they are equal or one substitution, insertion or deletion turns one into the other.
\<close>

theorem editDistLE1_one_edit: "editDistLE1 a b \<longleftrightarrow> one_edit a b"
proof -
  consider "length a = length b" | "length b = length a + 1" | "length a = length b + 1"
    | "1 < \<bar>int (length a) - int (length b)\<bar>" by linarith
  then show ?thesis
  proof cases
    case 1
    then have "editDistLE1 a b \<longleftrightarrow> subst_loop a b 0" by (simp add: editDistLE1_def)
    then show ?thesis
      unfolding subst_loop_0 [OF 1] one_edit_cases using 1 edit_lengths(2) [of a b] edit_lengths(2) [of b a] by fastforce
  next
    case 2
    then have "editDistLE1 a b \<longleftrightarrow> align_loop a b False" by (simp add: editDistLE1_def)
    then show ?thesis
      unfolding align_loop_False [OF 2] one_edit_cases using 2 edit_lengths(1) [of a b] edit_lengths(2) [of b a] by fastforce
  next
    case 3
    then have "editDistLE1 a b \<longleftrightarrow> align_loop b a False" by (simp add: editDistLE1_def)
    then show ?thesis
      unfolding align_loop_False [OF 3] one_edit_cases using 3 edit_lengths(1) [of a b] edit_lengths(2) [of a b] by fastforce
  next
    case 4
    then have "\<not> one_edit a b" by (auto elim!: one_edit.cases)
    then show ?thesis using 4 by (simp add: editDistLE1_def)
  qed
qed

section \<open>The tracker over many windows\<close>

fun run_windows ::
  "(peak list \<Rightarrow> peak list) \<Rightarrow> (string list \<Rightarrow> string list) \<Rightarrow> cw_config \<Rightarrow> track list \<Rightarrow> window list \<Rightarrow> track list \<times> cwspot list list" where
  "run_windows srt enum cfg ts [] = (ts, [])"
| "run_windows srt enum cfg ts (w # ws) =
     (let (ts1, spots) = tracker_step srt enum cfg w ts;
          (ts2, out) = run_windows srt enum cfg ts1 ws
      in (ts2, spots # out))"

text \<open>The calls a window's text holds for a bin.\<close>

definition heard :: "window \<Rightarrow> int \<Rightarrow> string list" where
  "heard w b = fst (scan_tokens (tokens (w_decode w b)) ([], False))"

definition heard_count :: "window list \<Rightarrow> string \<Rightarrow> nat" where
  "heard_count ws call = length (filter (\<lambda>w. \<exists>b. call \<in> set (heard w b)) ws)"

lemma scan_tokens_valid:
  "list_all looksLikeCall calls \<Longrightarrow> list_all looksLikeCall (fst (scan_tokens toks (calls, cq)))"
  by (induction toks "(calls, cq)" arbitrary: calls cq rule: scan_tokens.induct) (simp_all add: Let_def extractCall_valid)

lemma heard_valid: "call \<in> set (heard w b) \<Longrightarrow> looksLikeCall call"
  using scan_tokens_valid [of "[]"] by (simp add: heard_def list_all_iff)

subsection \<open>Association keeps the history of a track\<close>

definition history :: "track \<Rightarrow> (string \<times> callstat) list \<times> string list" where
  "history t = (call_cnt t, emitted t)"

lemma associate_history:
  "history ` set (fst (associate cfg wi (ts, claimed) p)) \<subseteq> insert ([], []) (history ` set ts)"
proof -
  define best where "best = best_track cfg ts claimed (fst p)"
  show ?thesis
  proof (cases "0 \<le> best \<and> nat best < length ts")
    case True
    have "ts ! nat best \<in> set ts" using True by simp
    then have h: "history ((ts ! nat best)\<lparr>tbin := a, snr_ema := b, last_wi := c\<rparr>) \<in> history ` set ts" for a b c
      by (rule image_eqI [rotated]) (simp add: history_def)
    have "history ` set (ts[nat best := x]) \<subseteq> history ` set ts" if "history x \<in> history ` set ts" for x
      using set_update_subset_insert [of ts "nat best" x] that by blast
    note u = this [OF h]
    have "fst (associate cfg wi (ts, claimed) p)
      = ts[nat best := (ts ! nat best)\<lparr>tbin := fst p,
          snr_ema := fadd (fmul (r32 (7 / 10)) (snr_ema (ts ! nat best))) (fmul (r32 (3 / 10)) (snd p)), last_wi := wi\<rparr>]"
      using True by (simp add: associate_def Let_def flip: best_def)
    then show ?thesis using u by (simp only: subset_insertI2)
  next
    case False
    then have "ts[nat best := x] = ts" if "0 \<le> best" for x using that by (intro list_update_beyond) simp
    then show ?thesis by (auto simp: associate_def Let_def history_def simp flip: best_def)
  qed
qed

lemma associates_history:
  "history ` set (fst (foldl (associate cfg wi) (ts, claimed) ps)) \<subseteq> insert ([], []) (history ` set ts)"
proof (induction ps arbitrary: ts claimed)
  case (Cons p ps)
  obtain ts' claimed' where a: "associate cfg wi (ts, claimed) p = (ts', claimed')" by (cases "associate cfg wi (ts, claimed) p")
  show ?case using Cons.IH [of ts' claimed'] associate_history [of cfg wi ts claimed p] by (auto simp: a)
qed auto

subsection \<open>Counting and emitting\<close>

text \<open>What holds of every track after the windows \<open>hist\<close>.\<close>

definition track_ok :: "window list \<Rightarrow> (string \<times> callstat) list \<times> string list \<Rightarrow> bool" where
  "track_ok hist h \<longleftrightarrow>
     (\<forall>c cs. map_of (fst h) c = Some cs \<longrightarrow> looksLikeCall c \<and> cs_count cs \<le> int (heard_count hist c)) \<and>
     sorted_wrt (\<lambda>e c. \<not> is_variant c e) (snd h)"

lemma heard_count_snoc: "heard_count (hist @ [w]) c = heard_count hist c + (if \<exists>b. c \<in> set (heard w b) then 1 else 0)"
  by (simp add: heard_count_def)

lemma track_ok_later: "track_ok hist h \<Longrightarrow> track_ok (hist @ [w]) h"
  by (force simp: track_ok_def heard_count_snoc)

lemma count_call_fields:
  "emitted (count_call wi cq t call) = emitted t" "tbin (count_call wi cq t call) = tbin t"
  "map_of (call_cnt (count_call wi cq t call)) c
    = (if c = call then Some \<lparr>cs_count = cs_count (call_stat t call) + 1, cs_last_wi = wi, cs_cq = cq \<or> cs_cq (call_stat t call)\<rparr>
       else map_of (call_cnt t) c)"
  by (simp_all add: count_call_def Let_def update_conv')

lemma count_calls_fields:
  "emitted (foldl (count_call wi cq) t calls) = emitted t" "tbin (foldl (count_call wi cq) t calls) = tbin t"
  by (induction calls arbitrary: t) (simp_all add: count_call_fields)

lemma call_stat_le:
  assumes "track_ok hist (history t)"
  shows "cs_count (call_stat t c) \<le> int (heard_count hist c)"
  using assms by (auto simp: call_stat_def track_ok_def history_def split: option.split)

lemma count_calls_map:
  assumes "distinct calls"
  shows "map_of (call_cnt (foldl (count_call wi cq) t calls)) c
    = (if c \<in> set calls
       then Some \<lparr>cs_count = cs_count (call_stat t c) + 1, cs_last_wi = wi, cs_cq = cq \<or> cs_cq (call_stat t c)\<rparr>
       else map_of (call_cnt t) c)"
  using assms
proof (induction calls arbitrary: t)
  case (Cons d calls)
  have "call_stat (count_call wi cq t d) c = call_stat t c" if "c \<noteq> d"
    using that by (simp add: call_stat_def count_call_fields)
  then show ?case using Cons.IH [of "count_call wi cq t d"] Cons.prems
    by (cases "c = d") (simp_all add: count_call_fields)
qed simp

lemma count_calls_ok:
  assumes "track_ok hist (history t)" and "distinct calls" and "set calls \<subseteq> set (heard w b)"
  shows "track_ok (hist @ [w]) (history (foldl (count_call wi cq) t calls))"
proof -
  have "looksLikeCall c \<and> cs_count cs \<le> int (heard_count (hist @ [w]) c)"
    if "map_of (call_cnt (foldl (count_call wi cq) t calls)) c = Some cs" for c cs
  proof (cases "c \<in> set calls")
    case True
    then have h: "c \<in> set (heard w b)" using assms(3) by blast
    then have "heard_count (hist @ [w]) c = heard_count hist c + 1" by (auto simp: heard_count_snoc)
    then show ?thesis using that True call_stat_le [OF assms(1), of c] heard_valid [OF h]
      by (auto simp: count_calls_map [OF assms(2)])
  next
    case False
    then have "map_of (call_cnt t) c = Some cs" using that by (simp add: count_calls_map [OF assms(2)])
    then show ?thesis using track_ok_later [OF assms(1), of w] by (simp add: track_ok_def history_def)
  qed
  then show ?thesis using assms(1) by (simp add: track_ok_def history_def count_calls_fields)
qed

lemma emit_call_ok:
  assumes "track_ok hist (history t)" and "emit_call cfg w hz (t, sp) call = (t', sp')"
  shows "track_ok hist (history t')" and "call_cnt t' = call_cnt t"
    and "\<exists>new. sp' = sp @ new \<and> emitted t' = emitted t @ map spot_call new \<and>
      (\<forall>s\<in>set new. spot_call s = call \<and> confirm cfg \<le> cs_count (call_stat t call))"
  using assms by (auto simp: emit_call_def Let_def track_ok_def history_def sorted_wrt_append list_ex_iff split: if_splits)

lemma emit_calls_ok:
  assumes "track_ok hist (history t)" and "foldl (emit_call cfg w hz) (t, sp) calls = (t', sp')"
  shows "track_ok hist (history t') \<and> call_cnt t' = call_cnt t \<and>
    (\<exists>new. sp' = sp @ new \<and> emitted t' = emitted t @ map spot_call new \<and>
      (\<forall>s\<in>set new. spot_call s \<in> set calls \<and> confirm cfg \<le> cs_count (call_stat t (spot_call s))))"
  using assms
proof (induction calls arbitrary: t sp)
  case (Cons c calls)
  obtain t1 sp1 where e: "emit_call cfg w hz (t, sp) c = (t1, sp1)" by (cases "emit_call cfg w hz (t, sp) c")
  note one = emit_call_ok [OF Cons.prems(1) e]
  obtain new1 where n1: "sp1 = sp @ new1" "emitted t1 = emitted t @ map spot_call new1"
    "\<forall>s\<in>set new1. spot_call s = c \<and> confirm cfg \<le> cs_count (call_stat t c)" using one(3) by blast
  have ih: "track_ok hist (history t') \<and> call_cnt t' = call_cnt t1 \<and>
    (\<exists>new. sp' = sp1 @ new \<and> emitted t' = emitted t1 @ map spot_call new \<and>
      (\<forall>s\<in>set new. spot_call s \<in> set calls \<and> confirm cfg \<le> cs_count (call_stat t1 (spot_call s))))"
    using Cons.IH [OF one(1)] Cons.prems(2) by (simp add: e)
  then obtain new2 where n2: "sp' = sp1 @ new2" "emitted t' = emitted t1 @ map spot_call new2"
    "\<forall>s\<in>set new2. spot_call s \<in> set calls \<and> confirm cfg \<le> cs_count (call_stat t1 (spot_call s))" by blast
  have "call_stat t1 = call_stat t" using one(2) by (simp add: call_stat_def fun_eq_iff)
  then show ?case using ih n1 n2 one(2) by (intro conjI exI [of _ "new1 @ new2"]) auto
qed auto

text \<open>What the traversal of an \<open>unordered_set\<close> promises: every element once.\<close>

definition enumerates :: "(string list \<Rightarrow> string list) \<Rightarrow> bool" where
  "enumerates enum \<longleftrightarrow> (\<forall>xs. distinct (enum xs) \<and> set (enum xs) = set xs)"

lemma decode_track_ok:
  assumes "enumerates enum" and "track_ok hist (history t)" and "decode_track cfg enum w t = (t', spots)"
  shows "track_ok (hist @ [w]) (history t')" and "emitted t' = emitted t @ map spot_call spots"
    and "\<forall>s\<in>set spots. looksLikeCall (spot_call s) \<and> confirm cfg \<le> int (heard_count (hist @ [w]) (spot_call s))"
proof -
  have "track_ok (hist @ [w]) (history t') \<and> emitted t' = emitted t @ map spot_call spots \<and>
    (\<forall>s\<in>set spots. looksLikeCall (spot_call s) \<and> confirm cfg \<le> int (heard_count (hist @ [w]) (spot_call s)))"
  proof (cases "last_wi t \<noteq> w_wi w \<or> w_hz w (tbin t) \<le> 0")
    case True
    then show ?thesis using assms(3) track_ok_later [OF assms(2), of w] by (auto simp: decode_track_def Let_def split: if_splits)
  next
    case False
    obtain calls cq where sc: "scan_tokens (tokens (w_decode w (tbin t))) ([], False) = (calls, cq)" by fastforce
    define t1 where "t1 = foldl (count_call (w_wi w) cq) t (enum calls)"
    have e: "distinct (enum calls)" "set (enum calls) = set (heard w (tbin t))"
      using assms(1) sc by (simp_all add: enumerates_def heard_def)
    have ok1: "track_ok (hist @ [w]) (history t1)"
      unfolding t1_def by (rule count_calls_ok [OF assms(2) e(1), of _ "tbin t"]) (simp add: e)
    have "foldl (emit_call cfg w (w_hz w (tbin t))) (t1, []) (enum calls) = (t', spots)"
      using assms(3) False sc by (simp add: decode_track_def Let_def t1_def count_calls_fields)
    from emit_calls_ok [OF ok1 this] obtain new where n: "track_ok (hist @ [w]) (history t')" "spots = new"
      "emitted t' = emitted t1 @ map spot_call new"
      "\<forall>s\<in>set new. spot_call s \<in> set (enum calls) \<and> confirm cfg \<le> cs_count (call_stat t1 (spot_call s))" by auto
    have "looksLikeCall (spot_call s) \<and> confirm cfg \<le> int (heard_count (hist @ [w]) (spot_call s))" if "s \<in> set new" for s
      using n(4) that e(2) heard_valid [of "spot_call s" w "tbin t"] call_stat_le [OF ok1, of "spot_call s"] by fastforce
    then show ?thesis using n by (simp add: t1_def count_calls_fields)
  qed
  then show "track_ok (hist @ [w]) (history t')" "emitted t' = emitted t @ map spot_call spots"
    "\<forall>s\<in>set spots. looksLikeCall (spot_call s) \<and> confirm cfg \<le> int (heard_count (hist @ [w]) (spot_call s))" by blast+
qed

definition tracks_ok :: "window list \<Rightarrow> track list \<Rightarrow> bool" where
  "tracks_ok hist ts \<longleftrightarrow> (\<forall>t\<in>set ts. track_ok hist (history t))"

lemma tracker_step_ok:
  assumes "enumerates enum" and "tracks_ok hist ts" and "tracker_step srt enum cfg w ts = (ts', spots)"
  shows "tracks_ok (hist @ [w]) ts'"
    and "\<forall>s\<in>set spots. looksLikeCall (spot_call s) \<and> confirm cfg \<le> int (heard_count (hist @ [w]) (spot_call s))"
proof -
  define ts1 where "ts1 = fst (foldl (associate cfg (w_wi w)) (ts, replicate (length ts) False)
    (srt (find_peaks (snr_gate cfg (w_snr w)) (w_snr w))))"
  define ts2 where "ts2 = expire cfg (w_wi w) ts1"
  have "track_ok hist ([], [])" by (simp add: track_ok_def)
  then have ok1: "track_ok hist (history t)" if "t \<in> set ts1" for t
    using associates_history [of cfg "w_wi w" ts] that assms(2) unfolding ts1_def tracks_ok_def by (metis (no_types, lifting) image_iff insertE subsetD)
  have ok2: "track_ok hist (history t)" if "t \<in> set ts2" for t using ok1 that by (simp add: ts2_def expire_def)
  have r: "ts' = map (fst \<circ> decode_track cfg enum w) ts2" "spots = concat (map (snd \<circ> decode_track cfg enum w) ts2)"
    using assms(3) by (auto simp: tracker_step_def Let_def ts1_def ts2_def)
  note d = decode_track_ok [OF assms(1) ok2 prod.collapse [symmetric]]
  show "tracks_ok (hist @ [w]) ts'" using d(1) by (auto simp: r tracks_ok_def)
  show "\<forall>s\<in>set spots. looksLikeCall (spot_call s) \<and> confirm cfg \<le> int (heard_count (hist @ [w]) (spot_call s))"
    using d(3) by (auto simp: r)
qed

lemma run_windows_ok:
  assumes "enumerates enum" and "tracks_ok hist ts" and "run_windows srt enum cfg ts ws = (ts', out)"
  shows "tracks_ok (hist @ ws) ts' \<and> length out = length ws \<and>
    (\<forall>k<length ws. \<forall>s\<in>set (out ! k). looksLikeCall (spot_call s) \<and>
       confirm cfg \<le> int (heard_count (hist @ take (k + 1) ws) (spot_call s)))"
  using assms(2,3)
proof (induction ws arbitrary: hist ts out)
  case (Cons w ws)
  obtain ts1 spots where s: "tracker_step srt enum cfg w ts = (ts1, spots)" by fastforce
  note st = tracker_step_ok [OF assms(1) Cons.prems(1) s]
  obtain out2 where o: "run_windows srt enum cfg ts1 ws = (ts', out2)" "out = spots # out2"
    using Cons.prems(2) by (auto simp: s split: prod.splits)
  have ih: "tracks_ok (hist @ w # ws) ts' \<and> length out2 = length ws \<and>
    (\<forall>k<length ws. \<forall>s\<in>set (out2 ! k). looksLikeCall (spot_call s) \<and>
       confirm cfg \<le> int (heard_count (hist @ w # take (k + 1) ws) (spot_call s)))"
    using Cons.IH [OF st(1) o(1)] by simp
  have "looksLikeCall (spot_call sp) \<and> confirm cfg \<le> int (heard_count (hist @ take (k + 1) (w # ws)) (spot_call sp))"
    if k: "k < length (w # ws)" "sp \<in> set (out ! k)" for k sp
    using ih st(2) k by (cases k) (simp_all add: o(2))
  then show ?case using ih by (simp add: o(2))
qed simp

section \<open>A steady carrier\<close>

definition sorts_peaks :: "(peak list \<Rightarrow> peak list) \<Rightarrow> bool" where
  "sorts_peaks srt \<longleftrightarrow> (\<forall>ps. mset (srt ps) = mset ps \<and> sorted_wrt (\<lambda>p q. snd q \<le> snd p) (srt ps))"

text \<open>One peak at bin \<open>b\<close>, on the band, whose text holds the call \<open>c\<close> and no other.\<close>

definition steady :: "cw_config \<Rightarrow> int \<Rightarrow> string \<Rightarrow> window \<Rightarrow> bool" where
  "steady cfg b c w \<longleftrightarrow>
     map fst (find_peaks (snr_gate cfg (w_snr w)) (w_snr w)) = [b] \<and> 0 < w_hz w b \<and> set (heard w b) = {c}"

definition followed :: "cw_config \<Rightarrow> int \<Rightarrow> string \<Rightarrow> nat \<Rightarrow> track \<Rightarrow> bool" where
  "followed cfg b c k t \<longleftrightarrow>
     tbin t = b \<and> emitted t = (if 0 < k \<and> confirm cfg \<le> int k then [c] else []) \<and>
     (if k = 0 then call_cnt t = [] else (\<exists>cs. call_cnt t = [(c, cs)] \<and> cs_count cs = int k))"

lemma decode_steady:
  assumes "enumerates enum" and "1 \<le> confirm cfg" and "followed cfg b c k t" and "last_wi t = w_wi w"
    and "0 < w_hz w b" and "set (heard w b) = {c}"
  shows "followed cfg b c (k + 1) (fst (decode_track cfg enum w t))"
    and "map spot_call (snd (decode_track cfg enum w t)) = (if int (k + 1) = confirm cfg then [c] else [])"
proof -
  have t: "tbin t = b" using assms(3) by (simp add: followed_def)
  obtain calls cq where sc: "scan_tokens (tokens (w_decode w b)) ([], False) = (calls, cq)" by fastforce
  have "distinct (enum calls)" and "set (enum calls) = {c}" using assms(1,6) sc by (simp_all add: enumerates_def heard_def)
  then have "length (enum calls) = card {c}" using distinct_card by metis
  then obtain x where "enum calls = [x]" by (auto simp: length_Suc_conv)
  with \<open>set (enum calls) = {c}\<close> have e: "enum calls = [c]" by simp
  have st: "cs_count (call_stat t c) = int k" using assms(3) by (auto simp: followed_def call_stat_def split: if_splits)
  define t1 where "t1 = count_call (w_wi w) cq t c"
  obtain cs where cc: "call_cnt t1 = [(c, cs)]" "cs_count cs = int (k + 1)" "cs_last_wi cs = w_wi w"
    using assms(3) st by (cases "k = 0") (auto simp: t1_def count_call_def Let_def followed_def)
  have t1: "tbin t1 = b" "emitted t1 = (if 0 < k \<and> confirm cfg \<le> int k then [c] else [])" "cs_count (call_stat t1 c) = int (k + 1)"
    using assms(3) cc by (simp_all add: t1_def count_call_fields followed_def call_stat_def)
  have dom: "dominant cfg (w_wi w) t1 = int (k + 1)" using cc by (simp add: dominant_def)
  have d: "decode_track cfg enum w t = emit_call cfg w (w_hz w b) (t1, []) c"
    using assms(4,5) by (simp add: decode_track_def t sc e t1_def count_call_fields)
  show "map spot_call (snd (decode_track cfg enum w t)) = (if int (k + 1) = confirm cfg then [c] else [])"
    using assms(2) t1 dom by (auto simp: d emit_call_def Let_def)
  show "followed cfg b c (k + 1) (fst (decode_track cfg enum w t))"
    using assms(2) t1 dom cc by (auto simp: d emit_call_def Let_def followed_def)
qed

definition following :: "cw_config \<Rightarrow> int \<Rightarrow> string \<Rightarrow> nat \<Rightarrow> track list \<Rightarrow> bool" where
  "following cfg b c k ts \<longleftrightarrow> (if k = 0 then ts = [] else \<exists>t. ts = [t] \<and> followed cfg b c k t)"

lemma steady_associate:
  assumes "0 \<le> drift_bins cfg" and "following cfg b c k ts"
  obtains t where "fst (associate cfg wi (ts, replicate (length ts) False) (b, x)) = [t]" and "followed cfg b c k t" and "last_wi t = wi"
proof (cases "k = 0")
  case True
  then have "ts = []" using assms(2) by (simp add: following_def)
  then show thesis using True
    by (intro that [of "\<lparr>tbin = b, snr_ema = x, born_wi = wi, last_wi = wi, call_cnt = [], emitted = []\<rparr>"])
       (simp_all add: associate_def best_track_def followed_def Let_def)
next
  case False
  then obtain t where t: "ts = [t]" "followed cfg b c k t" using assms(2) by (auto simp: following_def)
  then have "best_track cfg ts (replicate (length ts) False) b = 0"
    using assms(1) by (simp add: best_track_def followed_def Let_def)
  then show thesis using t
    by (intro that [of "t\<lparr>tbin := b, snr_ema := fadd (fmul (r32 (7 / 10)) (snr_ema t)) (fmul (r32 (3 / 10)) x), last_wi := wi\<rparr>"])
       (simp_all add: associate_def followed_def Let_def)
qed

lemma steady_step:
  assumes "sorts_peaks srt" and "enumerates enum" and "1 \<le> confirm cfg" and "0 \<le> drift_bins cfg"
    and "steady cfg b c w" and "following cfg b c k ts"
  shows "following cfg b c (k + 1) (fst (tracker_step srt enum cfg w ts))"
    and "map spot_call (snd (tracker_step srt enum cfg w ts)) = (if int (k + 1) = confirm cfg then [c] else [])"
proof -
  obtain x where p: "find_peaks (snr_gate cfg (w_snr w)) (w_snr w) = [(b, x)]"
    using assms(5) by (auto simp: steady_def)
  have "mset (srt [(b, x)]) = {#(b, x)#}" using assms(1) by (simp add: sorts_peaks_def)
  then have s: "srt [(b, x)] = [(b, x)]" by simp
  obtain t where t: "fst (associate cfg (w_wi w) (ts, replicate (length ts) False) (b, x)) = [t]"
    "followed cfg b c k t" "last_wi t = w_wi w"
    by (rule steady_associate [OF assms(4,6)])
  have "expire cfg (w_wi w) [t] = [t]" using t(3) by (simp add: expire_def)
  then have r: "tracker_step srt enum cfg w ts = ([fst (decode_track cfg enum w t)], snd (decode_track cfg enum w t))"
    by (simp add: tracker_step_def Let_def p s t(1))
  note d = decode_steady [OF assms(2,3) t(2,3)]
  show "following cfg b c (k + 1) (fst (tracker_step srt enum cfg w ts))"
    using d(1) assms(5) by (simp add: r following_def steady_def)
  show "map spot_call (snd (tracker_step srt enum cfg w ts)) = (if int (k + 1) = confirm cfg then [c] else [])"
    using d(2) assms(5) by (simp add: r steady_def)
qed

lemma steady_run:
  assumes "sorts_peaks srt" and "enumerates enum" and "1 \<le> confirm cfg" and "0 \<le> drift_bins cfg"
    and "list_all (steady cfg b c) ws" and "following cfg b c k ts"
  shows "map (map spot_call) (snd (run_windows srt enum cfg ts ws))
    = map (\<lambda>i. if int i = confirm cfg then [c] else []) [k + 1..<k + 1 + length ws]"
    and "following cfg b c (k + length ws) (fst (run_windows srt enum cfg ts ws))"
  using assms(5,6)
proof (induction ws arbitrary: k ts)
  case (Cons w ws)
  {
    case 1
    note st = steady_step [OF assms(1-4) _ 1(2), of w]
    show ?case using Cons.IH(1) [OF _ st(1)] st(2) 1(1) by (simp add: split_beta Let_def upt_conv_Cons)
  next
    case 2
    note st = steady_step [OF assms(1-4) _ 2(2), of w]
    show ?case using Cons.IH(2) [OF _ st(1)] 2(1) by (simp add: split_beta Let_def)
  }
qed simp_all

section \<open>What the tracker promises\<close>

text \<open>A carrier at bin 3 sending \<open>CQ K4RO\<close> in three windows.\<close>

definition demo_cfg :: cw_config where
  "demo_cfg = \<lparr>snr_thresh = 12, adapt_k = 0, drift_bins = 2, merge_bins = 2, confirm = 2, ttl_slots = 3000\<rparr>"

definition demo_window :: "u64 \<Rightarrow> window" where
  "demo_window wi = \<lparr>w_wi = wi, w_snr = [0, 0, 0, 20, 0, 0, 0], w_decode = (\<lambda>b. ''CQ K4RO''), w_wpm = (\<lambda>b. 20), w_hz = (\<lambda>b. 7030000)\<rparr>"

definition by_strength :: "peak list \<Rightarrow> peak list" where
  "by_strength ps = rev (sort_key snd ps)"

lemma by_strength_sorts: "sorts_peaks by_strength"
proof -
  have "sorted_wrt (\<lambda>p q. snd q \<le> snd p) (by_strength ps)" for ps
    using sorted_sort_key [of snd ps] by (simp add: by_strength_def sorted_wrt_rev sorted_map)
  then show ?thesis by (simp add: sorts_peaks_def by_strength_def)
qed

lemma remdups_enumerates: "enumerates remdups"
  by (simp add: enumerates_def)

lemma demo_steady: "steady demo_cfg 3 ''K4RO'' (demo_window wi)"
proof -
  have "tokens ''CQ K4RO'' = [''CQ'', ''K4RO'']" by code_simp
  moreover have "extractCall ''K4RO'' = ''K4RO''" by code_simp
  ultimately have "heard (demo_window wi) 3 = [''K4RO'']" by (simp add: heard_def demo_window_def)
  moreover have "find_peaks (snr_gate demo_cfg (w_snr (demo_window wi))) (w_snr (demo_window wi)) = [(3, 20)]"
    by (simp add: demo_window_def demo_cfg_def snr_gate_def find_peaks_def upt_rec is_peak_def)
  ultimately show ?thesis by (simp add: steady_def) (simp add: demo_window_def)
qed

lemma demo_run:
  "map (map spot_call) (snd (run_windows by_strength remdups demo_cfg [] (map demo_window [100, 150, 200]))) = [[], [''K4RO''], []]"
  by (subst steady_run(1) [OF by_strength_sorts remdups_enumerates, of demo_cfg 3 "''K4RO''" _ 0])
     (simp_all add: demo_steady following_def, simp_all add: demo_cfg_def upt_rec)

text \<open>
  C17. No spot without proof: every spot of every window, whatever the metric and the decoded texts,
  carries a valid callsign that the decoder read in at least \<open>confirm\<close> of the windows up to that one.
\<close>

theorem spots_confirmed:
  assumes "enumerates enum" and "k < length ws" and "s \<in> set (snd (run_windows srt enum cfg [] ws) ! k)"
  shows "looksLikeCall (spot_call s) \<and> confirm cfg \<le> int (heard_count (take (k + 1) ws) (spot_call s))"
proof -
  have "tracks_ok [] []" by (simp add: tracks_ok_def)
  from run_windows_ok [OF assms(1) this prod.collapse [symmetric]] assms(2,3) show ?thesis by simp
qed

theorem spots_confirmed_witness:
  "confirm demo_cfg \<le> int (heard_count (take 2 (map demo_window [100, 150, 200])) ''K4RO'')"
proof -
  define out where "out = snd (run_windows by_strength remdups demo_cfg [] (map demo_window [100, 150, 200]))"
  have "map (map spot_call) out ! 1 = [''K4RO'']" using demo_run by (simp add: out_def)
  moreover have "length out = 3" using arg_cong [OF demo_run, of length] by (simp add: out_def)
  ultimately obtain s where "s \<in> set (out ! 1)" "spot_call s = ''K4RO''" by (cases "out ! 1") auto
  then show ?thesis
    using spots_confirmed [OF remdups_enumerates, of 1 "map demo_window [100, 150, 200]" s by_strength demo_cfg]
    by (simp add: out_def)
qed

lemma emit_calls_emitted:
  "\<exists>new. snd (foldl (emit_call cfg w hz) (t, sp) calls) = sp @ new \<and>
     emitted (fst (foldl (emit_call cfg w hz) (t, sp) calls)) = emitted t @ map spot_call new"
proof (induction calls arbitrary: t sp)
  case (Cons c calls)
  obtain t1 sp1 where e: "emit_call cfg w hz (t, sp) c = (t1, sp1)" by fastforce
  then have "\<exists>new. sp1 = sp @ new \<and> emitted t1 = emitted t @ map spot_call new"
    by (auto simp: emit_call_def Let_def split: if_splits)
  then show ?case using Cons.IH [of t1 sp1] by (auto simp: e)
qed simp

lemma decode_track_emitted:
  "emitted (fst (decode_track cfg enum w t)) = emitted t @ map spot_call (snd (decode_track cfg enum w t))"
  using emit_calls_emitted [of cfg w "w_hz w (tbin t)" "foldl (count_call (w_wi w) cq) t calls" "[]" calls for cq calls]
  by (auto simp: decode_track_def Let_def count_calls_fields split: prod.split)

text \<open>
  C33. A carrier is spotted once under one name: on every track, after any windows, no call was emitted
  twice, and none was emitted that is a prefix of an earlier one or differs from one by a single
  edit; and a track's spots are exactly the calls it adds to its emitted set.
\<close>

theorem track_emits_no_variant:
  assumes "enumerates enum"
  shows "list_all (\<lambda>t. sorted_wrt (\<lambda>e c. \<not> strict_prefix c e \<and> \<not> editDistLE1 e c) (emitted t))
      (fst (run_windows srt enum cfg [] ws)) \<and>
    emitted (fst (decode_track cfg enum w t)) = emitted t @ map spot_call (snd (decode_track cfg enum w t))"
proof -
  have "tracks_ok [] []" by (simp add: tracks_ok_def)
  from run_windows_ok [OF assms this prod.collapse [symmetric]]
  have "tracks_ok ws (fst (run_windows srt enum cfg [] ws))" by simp
  then show ?thesis
    by (auto simp: tracks_ok_def track_ok_def history_def is_variant_def list_all_iff decode_track_emitted)
qed

theorem track_emits_no_variant_witness:
  "list_all (\<lambda>t. sorted_wrt (\<lambda>e c. \<not> strict_prefix c e \<and> \<not> editDistLE1 e c) (emitted t))
     (fst (run_windows by_strength remdups demo_cfg [] (map demo_window [100, 150, 200])))"
  using track_emits_no_variant [OF remdups_enumerates] by blast

text \<open>
  C32. A steady carrier is spotted exactly once, in the window that confirms it: when every window has
  one peak, at the same bin and on the band, and its text holds one call, then a tracker started empty
  emits that call in window number \<open>confirm\<close> and in no other.
\<close>

theorem steady_carrier_spotted:
  assumes "sorts_peaks srt" and "enumerates enum" and "1 \<le> confirm cfg" and "0 \<le> drift_bins cfg"
    and "list_all (steady cfg b c) ws"
  shows "map (map spot_call) (snd (run_windows srt enum cfg [] ws))
    = map (\<lambda>i. if int i = confirm cfg then [c] else []) [1..<length ws + 1]"
  using steady_run(1) [OF assms, of 0 "[]"] by (simp add: following_def)

theorem steady_carrier_spotted_witness:
  "map (map spot_call) (snd (run_windows by_strength remdups demo_cfg [] (map demo_window [7, 7, 5, 9])))
    = [[], [''K4RO''], [], []]"
  by (subst steady_carrier_spotted [OF by_strength_sorts remdups_enumerates, of demo_cfg 3 "''K4RO''"])
     (simp_all add: demo_steady, simp_all add: demo_cfg_def upt_rec)

end
