(* ===== verification/BufferPosition.thy ===== *)
theory BufferPosition
  imports Prelude
begin

text \<open>
  The position counter of a shared sample buffer (\<open>gm/buffer/BufferPosition.h\<close>, with the mutex and
  condition variable of \<open>gm/Thread.h\<close>).  The first part is the object itself: its shape, strides
  and position as one thread sees them, in the 64-bit and 32-bit arithmetic of the code.  The second
  part is the protocol of \<open>setPosition\<close>, \<open>release\<close> and \<open>getPosition\<close> between threads, a step relation
  over the mutex, the waiters and the setters.
\<close>

section \<open>The object\<close>

text \<open>The buffer pointer is an address; the element size is the parameter \<open>sz\<close> (\<open>sizeof(T)\<close>).\<close>

record bufpos =
  buffPosition :: u64
  lastWait :: "32 word"
  bp_running :: bool
  bp_buffer :: u64
  shape :: "u64 list"
  stride :: "u64 list"

definition bufpos_new :: "u64 \<Rightarrow> bufpos" where
  "bufpos_new sz = \<lparr>buffPosition = 0, lastWait = 0, bp_running = False, bp_buffer = 0, shape = [0], stride = [sz]\<rparr>"

text \<open>\<open>axis && axis < shape.size()\<close>: the comparison is unsigned.\<close>

definition axis_ok :: "32 word \<Rightarrow> bufpos \<Rightarrow> bool" where
  "axis_ok axis b \<longleftrightarrow> axis \<noteq> 0 \<and> (scast axis :: u64) < word_of_nat (length (shape b))"

definition dim_back :: "bufpos \<Rightarrow> nat \<Rightarrow> u64" where
  "dim_back b cnt = shape b ! (length (shape b) - 1 - cnt)"

text \<open>A position on an axis in samples: the product of the last \<open>axis\<close> dimensions times the position.\<close>

definition axis_samples :: "bufpos \<Rightarrow> 32 word \<Rightarrow> u64 \<Rightarrow> u64" where
  "axis_samples b axis position =
     foldl (\<lambda>n cnt. n * dim_back b cnt) (dim_back b 0 * position) [1..<nat (sint axis)]"

definition setPosition :: "u64 \<Rightarrow> 32 word \<Rightarrow> bufpos \<Rightarrow> bufpos" where
  "setPosition position axis b =
     (if axis_ok axis b
      then (let n = axis_samples b axis position
            in if n \<noteq> buffPosition b then b\<lparr>buffPosition := n, bp_running := True\<rparr> else b)
      else b\<lparr>buffPosition := position, bp_running := True\<rparr>)"

text \<open>The divisor is an \<open>int\<close>; each factor is multiplied at 64 bits and cut to 32.  Division by zero has no result.\<close>

definition axis_div :: "bufpos \<Rightarrow> 32 word \<Rightarrow> 32 word" where
  "axis_div b axis =
     foldl (\<lambda>d cnt. ucast (scast d * dim_back b cnt)) (ucast (dim_back b 0)) [1..<nat (sint axis)]"

definition getNow :: "32 word \<Rightarrow> bufpos \<Rightarrow> u64 option" where
  "getNow axis b =
     (if axis_ok axis b
      then (let d = axis_div b axis in if d = 0 then None else Some (buffPosition b div scast d))
      else Some (buffPosition b))"

definition desired_samples :: "u64 \<Rightarrow> 32 word \<Rightarrow> bufpos \<Rightarrow> u64" where
  "desired_samples desired axis b = (if axis_ok axis b then axis_samples b axis desired else desired)"

text \<open>The end of \<open>getPosition\<close>, after \<open>waits\<close> waits: whether it prints, the counter, the result.\<close>

definition getPosition_end :: "nat \<Rightarrow> 32 word \<Rightarrow> bufpos \<Rightarrow> bool \<times> u64 option \<times> bufpos" where
  "getPosition_end waits axis b =
     (if waits = 0
      then (100 \<le> sint (lastWait b), getNow axis b, b\<lparr>lastWait := lastWait b + 1\<rparr>)
      else (False, getNow axis b, b\<lparr>lastWait := 0\<rparr>))"

definition setBuffer_size :: "u64 \<Rightarrow> u64 \<Rightarrow> u64 \<Rightarrow> bufpos \<Rightarrow> bufpos" where
  "setBuffer_size sz buff n b = b\<lparr>bp_buffer := buff, shape := [n], stride := [sz]\<rparr>"

fun stride_loop :: "u64 list \<Rightarrow> nat list \<Rightarrow> u64 \<Rightarrow> u64 list \<Rightarrow> u64 list" where
  "stride_loop sh [] lastshape st = st"
| "stride_loop sh (cnt # cnts) lastshape st =
     (let lastshape = lastshape * sh ! (length sh - cnt)
      in stride_loop sh cnts lastshape (rotate1 (st @ [lastshape])))"

definition setBuffer :: "u64 \<Rightarrow> u64 \<Rightarrow> u64 list \<Rightarrow> bufpos \<Rightarrow> bufpos" where
  "setBuffer sz buff sh b =
     b\<lparr>bp_buffer := buff, shape := sh, stride := stride_loop sh [1..<length sh] sz [sz]\<rparr>"

definition getBufferSize :: "bufpos \<Rightarrow> u64" where
  "getBufferSize b = (if shape b = [] then 0 else foldl (\<lambda>r cnt. r * shape b ! cnt) (shape b ! 0) [1..<length (shape b)])"

definition getByteSize :: "u64 \<Rightarrow> bufpos \<Rightarrow> u64" where
  "getByteSize sz b = (if shape b = [] then 0 else foldl (\<lambda>r cnt. r * shape b ! cnt) (shape b ! 0 * sz) [1..<length (shape b)])"

section \<open>Waiters and setters\<close>

text \<open>
  A waiter is inside \<open>getPosition\<close> with its desired sample position; a setter runs a list of calls
  of \<open>setPosition\<close> (with the sample position it stores) and \<open>release\<close>.  A waiter acquires the mutex
  (\<open>WLock\<close>), holds it before the test of the loop (\<open>WCheck\<close>) or before the wait (\<open>WWait\<close>), sleeps on the
  condition variable, or has left; the number counts its waits.  A setter holds the mutex before
  (\<open>SHold\<close>) and after the store (\<open>SStored\<close>), and has released it before \<open>notify_all\<close> (\<open>SNotify\<close>).
\<close>

datatype sop = SetTo u64 | Release

datatype waiter =
    WLock nat
  | WCheck nat
  | WWait nat
  | WSleep nat
  | WDone nat

datatype setter =
    SRun "sop list"
  | SHold u64 "sop list"
  | SStored "sop list"
  | SNotify "sop list"

datatype holder = HNone | HWaiter nat | HSetter nat

record bpsys =
  spos :: u64
  smutex :: holder
  waiters :: "(u64 \<times> waiter) list"
  setters :: "setter list"

definition wake :: "u64 \<times> waiter \<Rightarrow> u64 \<times> waiter" where
  "wake w = (case snd w of WSleep n \<Rightarrow> (fst w, WLock (n + 1)) | _ \<Rightarrow> w)"

inductive bp_step :: "bpsys \<Rightarrow> bpsys \<Rightarrow> bool" where
  w_lock: "i < length (waiters s) \<Longrightarrow> waiters s ! i = (d, WLock n) \<Longrightarrow> smutex s = HNone \<Longrightarrow>
    bp_step s (s\<lparr>smutex := HWaiter i, waiters := (waiters s)[i := (d, WCheck n)]\<rparr>)"
| w_wait: "i < length (waiters s) \<Longrightarrow> waiters s ! i = (d, WCheck n) \<Longrightarrow> spos s < d \<Longrightarrow>
    bp_step s (s\<lparr>waiters := (waiters s)[i := (d, WWait n)]\<rparr>)"
| w_sleep: "i < length (waiters s) \<Longrightarrow> waiters s ! i = (d, WWait n) \<Longrightarrow>
    bp_step s (s\<lparr>smutex := HNone, waiters := (waiters s)[i := (d, WSleep n)]\<rparr>)"
| w_done: "i < length (waiters s) \<Longrightarrow> waiters s ! i = (d, WCheck n) \<Longrightarrow> \<not> spos s < d \<Longrightarrow>
    bp_step s (s\<lparr>smutex := HNone, waiters := (waiters s)[i := (d, WDone n)]\<rparr>)"
| s_lock: "j < length (setters s) \<Longrightarrow> setters s ! j = SRun (SetTo p # ops) \<Longrightarrow> smutex s = HNone \<Longrightarrow>
    bp_step s (s\<lparr>smutex := HSetter j, setters := (setters s)[j := SHold p ops]\<rparr>)"
| s_store: "j < length (setters s) \<Longrightarrow> setters s ! j = SHold p ops \<Longrightarrow>
    bp_step s (s\<lparr>spos := p, setters := (setters s)[j := SStored ops]\<rparr>)"
| s_unlock: "j < length (setters s) \<Longrightarrow> setters s ! j = SStored ops \<Longrightarrow>
    bp_step s (s\<lparr>smutex := HNone, setters := (setters s)[j := SNotify ops]\<rparr>)"
| s_release: "j < length (setters s) \<Longrightarrow> setters s ! j = SRun (Release # ops) \<Longrightarrow>
    bp_step s (s\<lparr>setters := (setters s)[j := SNotify ops]\<rparr>)"
| s_notify: "j < length (setters s) \<Longrightarrow> setters s ! j = SNotify ops \<Longrightarrow>
    bp_step s (s\<lparr>waiters := map wake (waiters s), setters := (setters s)[j := SRun ops]\<rparr>)"

text \<open>A condition variable may also wake a waiter for no reason.\<close>

inductive spurious :: "bpsys \<Rightarrow> bpsys \<Rightarrow> bool" where
  "i < length (waiters s) \<Longrightarrow> waiters s ! i = (d, WSleep n) \<Longrightarrow>
    spurious s (s\<lparr>waiters := (waiters s)[i := (d, WLock (n + 1))]\<rparr>)"

definition bp_any :: "bpsys \<Rightarrow> bpsys \<Rightarrow> bool" where
  "bp_any s s' \<longleftrightarrow> bp_step s s' \<or> spurious s s'"

definition bp_start :: "u64 \<Rightarrow> u64 list \<Rightarrow> sop list list \<Rightarrow> bpsys" where
  "bp_start p0 desired programs =
     \<lparr>spos = p0, smutex = HNone, waiters = map (\<lambda>d. (d, WLock 0)) desired, setters = map SRun programs\<rparr>"

section \<open>No wake-up is lost\<close>

fun holds_w :: "waiter \<Rightarrow> bool" where
  "holds_w (WCheck n) = True" | "holds_w (WWait n) = True" | "holds_w _ = False"

fun about_to_wait :: "waiter \<Rightarrow> bool" where
  "about_to_wait (WWait n) = True" | "about_to_wait _ = False"

fun sleeping :: "waiter \<Rightarrow> bool" where
  "sleeping (WSleep n) = True" | "sleeping _ = False"

fun holds_s :: "setter \<Rightarrow> bool" where
  "holds_s (SHold p ops) = True" | "holds_s (SStored ops) = True" | "holds_s _ = False"

fun pending :: "setter \<Rightarrow> bool" where
  "pending (SStored ops) = True" | "pending (SNotify ops) = True" | "pending _ = False"

text \<open>
  The mutex names exactly the thread that holds it; a waiter about to wait still has a position
  below the desired one; a sleeping waiter has one too, unless a notification is on its way.
\<close>

definition mutex_inv :: "bpsys \<Rightarrow> bool" where
  "mutex_inv s \<longleftrightarrow>
     (\<forall>i<length (waiters s). holds_w (snd (waiters s ! i)) \<longleftrightarrow> smutex s = HWaiter i) \<and>
     (\<forall>j<length (setters s). holds_s (setters s ! j) \<longleftrightarrow> smutex s = HSetter j) \<and>
     (\<forall>i. smutex s = HWaiter i \<longrightarrow> i < length (waiters s)) \<and> (\<forall>j. smutex s = HSetter j \<longrightarrow> j < length (setters s))"

definition wake_inv :: "bpsys \<Rightarrow> bool" where
  "wake_inv s \<longleftrightarrow>
     (\<forall>i<length (waiters s). about_to_wait (snd (waiters s ! i)) \<longrightarrow> spos s < fst (waiters s ! i)) \<and>
     (\<forall>i<length (waiters s). sleeping (snd (waiters s ! i)) \<longrightarrow>
        spos s < fst (waiters s ! i) \<or> (\<exists>j<length (setters s). pending (setters s ! j)))"

lemma wake_fields:
  "fst (wake w) = fst w" "holds_w (snd (wake w)) = holds_w (snd w)" "about_to_wait (snd (wake w)) = about_to_wait (snd w)"
  "\<not> sleeping (snd (wake w))"
  by (cases w; cases "snd w"; simp add: wake_def)+

lemma about_holds: "about_to_wait w \<Longrightarrow> holds_w w"
  by (cases w) simp_all

lemma mutex_inv_step: "bp_step s s' \<Longrightarrow> mutex_inv s \<Longrightarrow> mutex_inv s'"
proof (induction rule: bp_step.induct)
  case (w_lock i s d n)
  then show ?case by (auto simp: mutex_inv_def nth_list_update)
next
  case (w_wait i s d n)
  then show ?case by (auto simp: mutex_inv_def nth_list_update)
next
  case (w_sleep i s d n)
  then have "smutex s = HWaiter i" unfolding mutex_inv_def by (metis holds_w.simps(2) snd_conv)
  then show ?case using w_sleep by (auto simp: mutex_inv_def nth_list_update)
next
  case (w_done i s d n)
  then have "smutex s = HWaiter i" unfolding mutex_inv_def by (metis holds_w.simps(1) snd_conv)
  then show ?case using w_done by (auto simp: mutex_inv_def nth_list_update)
next
  case (s_lock j s p ops)
  then show ?case by (auto simp: mutex_inv_def nth_list_update)
next
  case (s_store j s p ops)
  then show ?case by (auto simp: mutex_inv_def nth_list_update)
next
  case (s_unlock j s ops)
  then have "smutex s = HSetter j" unfolding mutex_inv_def by (metis holds_s.simps(2))
  then show ?case using s_unlock by (auto simp: mutex_inv_def nth_list_update)
next
  case (s_release j s ops)
  then show ?case by (auto simp: mutex_inv_def nth_list_update)
next
  case (s_notify j s ops)
  then show ?case by (auto simp: mutex_inv_def nth_list_update wake_fields)
qed

lemma pending_update:
  assumes "j < length ss" and "pending (ss ! j) \<Longrightarrow> pending x" and "\<exists>k<length ss. pending (ss ! k)"
  shows "\<exists>k<length ss. pending (ss[j := x] ! k)"
  using assms by (metis nth_list_update_eq nth_list_update_neq)

lemma wake_inv_step: "bp_step s s' \<Longrightarrow> mutex_inv s \<Longrightarrow> wake_inv s \<Longrightarrow> wake_inv s'"
proof (induction rule: bp_step.induct)
  case (w_lock i s d n)
  then show ?case by (auto simp: wake_inv_def nth_list_update)
next
  case (w_wait i s d n)
  then show ?case by (auto simp: wake_inv_def nth_list_update)
next
  case (w_sleep i s d n)
  then have "spos s < d" unfolding wake_inv_def by (metis about_to_wait.simps(1) fst_conv snd_conv)
  then show ?case using w_sleep by (auto simp: wake_inv_def nth_list_update)
next
  case (w_done i s d n)
  then show ?case by (auto simp: wake_inv_def nth_list_update)
next
  case (s_lock j s p ops)
  then show ?case using pending_update [of j "setters s" "SHold p ops"] by (auto simp: wake_inv_def)
next
  case (s_store j s p ops)
  then have "smutex s = HSetter j" unfolding mutex_inv_def by (metis holds_s.simps(1))
  then have "\<not> about_to_wait (snd (waiters s ! i))" if "i < length (waiters s)" for i
    using s_store(3) that about_holds by (auto simp: mutex_inv_def)
  moreover have "\<exists>k<length (setters s). pending ((setters s)[j := SStored ops] ! k)" using s_store(1) by (intro exI [of _ j]) simp
  ultimately show ?case by (auto simp: wake_inv_def)
next
  case (s_unlock j s ops)
  then show ?case using pending_update [of j "setters s" "SNotify ops"] by (auto simp: wake_inv_def)
next
  case (s_release j s ops)
  then show ?case using pending_update [of j "setters s" "SNotify ops"] by (auto simp: wake_inv_def)
next
  case (s_notify j s ops)
  then show ?case by (auto simp: wake_inv_def wake_fields)
qed

lemma inv_any: "bp_any s s' \<Longrightarrow> mutex_inv s \<and> wake_inv s \<Longrightarrow> mutex_inv s' \<and> wake_inv s'"
  unfolding bp_any_def
proof (elim disjE)
  assume "spurious s s'" and "mutex_inv s \<and> wake_inv s"
  then show "mutex_inv s' \<and> wake_inv s'"
    by (cases rule: spurious.cases) (auto simp: mutex_inv_def wake_inv_def nth_list_update)
qed (simp add: mutex_inv_step wake_inv_step)

lemma inv_start: "mutex_inv (bp_start p0 ds progs) \<and> wake_inv (bp_start p0 ds progs)"
  by (simp add: mutex_inv_def wake_inv_def bp_start_def)

lemma inv_reachable: "bp_any\<^sup>*\<^sup>* (bp_start p0 ds progs) s \<Longrightarrow> mutex_inv s \<and> wake_inv s"
  by (induction rule: rtranclp_induct) (use inv_start inv_any in blast)+

section \<open>Progress and termination\<close>

fun waiter_rank :: "waiter \<Rightarrow> nat" where
  "waiter_rank (WLock n) = 3" | "waiter_rank (WCheck n) = 2" | "waiter_rank (WWait n) = 1" | "waiter_rank _ = 0"

fun setter_rank :: "setter \<Rightarrow> nat" where
  "setter_rank (SRun ops) = 4 * length ops"
| "setter_rank (SHold p ops) = 4 * length ops + 3"
| "setter_rank (SStored ops) = 4 * length ops + 2"
| "setter_rank (SNotify ops) = 4 * length ops + 1"

definition bp_rank :: "bpsys \<Rightarrow> nat" where
  "bp_rank s = sum_list (map (waiter_rank \<circ> snd) (waiters s)) + (3 * length (waiters s) + 1) * sum_list (map setter_rank (setters s))"

lemma sum_list_lower:
  fixes f :: "'a \<Rightarrow> nat"
  assumes "i < length xs" and "f x < f (xs ! i)"
  shows "sum_list (map f (xs[i := x])) + (f (xs ! i) - f x) = sum_list (map f xs)"
proof -
  have "sum_list (map f xs) = sum_list (map f (take i xs)) + f (xs ! i) + sum_list (map f (drop (Suc i) xs))"
    using assms(1) by (subst id_take_nth_drop [of i xs]) simp_all
  moreover have "sum_list (map f (xs[i := x])) = sum_list (map f (take i xs)) + f x + sum_list (map f (drop (Suc i) xs))"
    using assms(1) by (simp add: upd_conv_take_nth_drop)
  ultimately show ?thesis using assms(2) by simp
qed

lemma waiter_rank_lower:
  assumes "i < length ws" and "waiter_rank w < waiter_rank (snd (ws ! i))"
  shows "sum_list (map (waiter_rank \<circ> snd) (ws[i := (d, w)])) < sum_list (map (waiter_rank \<circ> snd) ws)"
  using sum_list_lower [of i ws "waiter_rank \<circ> snd" "(d, w)"] assms by simp

lemma woken_rank: "sum_list (map (waiter_rank \<circ> snd) (map wake ws)) \<le> 3 * length ws + sum_list (map (waiter_rank \<circ> snd) ws)"
proof (induction ws)
  case (Cons w ws)
  have "waiter_rank (snd (wake w)) \<le> 3 + waiter_rank (snd w)" by (cases w; cases "snd w"; simp add: wake_def)
  then show ?case using Cons by simp
qed simp

lemma setter_step_rank:
  assumes "j < length (setters s)" and "setter_rank x < setter_rank (setters s ! j)"
    and "waiters s' = waiters s" and "setters s' = (setters s)[j := x]"
  shows "bp_rank s' < bp_rank s"
proof -
  have "sum_list (map setter_rank (setters s')) < sum_list (map setter_rank (setters s))"
    using sum_list_lower [of j "setters s" setter_rank x] assms by simp
  then have "(3 * length (waiters s) + 1) * sum_list (map setter_rank (setters s'))
    < (3 * length (waiters s) + 1) * sum_list (map setter_rank (setters s))" by (rule mult_less_mono2) simp
  then show ?thesis using assms(3) unfolding bp_rank_def by simp
qed

lemma bp_step_rank: "bp_step s s' \<Longrightarrow> bp_rank s' < bp_rank s"
proof (induction rule: bp_step.induct)
  case (w_lock i s d n)
  then show ?case using waiter_rank_lower [of i "waiters s" "WCheck n" d] by (simp add: bp_rank_def)
next
  case (w_wait i s d n)
  then show ?case using waiter_rank_lower [of i "waiters s" "WWait n" d] by (simp add: bp_rank_def)
next
  case (w_sleep i s d n)
  then show ?case using waiter_rank_lower [of i "waiters s" "WSleep n" d] by (simp add: bp_rank_def)
next
  case (w_done i s d n)
  then show ?case using waiter_rank_lower [of i "waiters s" "WDone n" d] by (simp add: bp_rank_def)
next
  case (s_lock j s p ops)
  then show ?case by (intro setter_step_rank [of j _ "SHold p ops"]) simp_all
next
  case (s_store j s p ops)
  then show ?case by (intro setter_step_rank [of j _ "SStored ops"]) simp_all
next
  case (s_unlock j s ops)
  then show ?case by (intro setter_step_rank [of j _ "SNotify ops"]) simp_all
next
  case (s_release j s ops)
  then show ?case by (intro setter_step_rank [of j _ "SNotify ops"]) simp_all
next
  case (s_notify j s ops)
  have "sum_list (map setter_rank ((setters s)[j := SRun ops])) + 1 = sum_list (map setter_rank (setters s))"
    using sum_list_lower [of j "setters s" setter_rank "SRun ops"] s_notify by simp
  from arg_cong [OF this, of "(*) (3 * length (waiters s) + 1)"] woken_rank [of "waiters s"]
  show ?case by (simp add: bp_rank_def algebra_simps)
qed

text \<open>When no thread can take a step, the setters have finished and only sleepers are left.\<close>

lemma stuck_state:
  assumes "mutex_inv s" and "wake_inv s" and "\<nexists>s'. bp_step s s'"
  shows "j < length (setters s) \<Longrightarrow> setters s ! j = SRun []"
    and "i < length (waiters s) \<Longrightarrow> (\<exists>n. snd (waiters s ! i) = WDone n) \<or> (\<exists>n. snd (waiters s ! i) = WSleep n) \<and> spos s < fst (waiters s ! i)"
proof -
  have st: "(\<exists>p ops. setters s ! j = SRun (SetTo p # ops)) \<and> smutex s \<noteq> HNone \<or> setters s ! j = SRun []" if "j < length (setters s)" for j
  proof (cases "setters s ! j")
    case (SRun ops)
    show ?thesis
    proof (cases ops)
      case (Cons op ops')
      then show ?thesis using SRun that assms(3) s_lock [of j s] s_release [of j s] by (cases op) blast+
    qed (simp add: SRun)
  qed (use that assms(3) s_store [of j s] s_unlock [of j s] s_notify [of j s] in blast)+
  have wt: "(\<exists>n. snd (waiters s ! i) = WLock n) \<and> smutex s \<noteq> HNone \<or> (\<exists>n. snd (waiters s ! i) = WDone n) \<or> (\<exists>n. snd (waiters s ! i) = WSleep n)"
    if i: "i < length (waiters s)" for i
  proof -
    obtain d w where w: "waiters s ! i = (d, w)" by fastforce
    show ?thesis
      using w i assms(3) w_lock [of i s d] w_wait [of i s d] w_sleep [of i s d] w_done [of i s d] by (cases w) (simp_all, blast+)
  qed
  have m: "smutex s = HNone"
  proof (cases "smutex s")
    case (HWaiter i)
    then have "i < length (waiters s)" "holds_w (snd (waiters s ! i))" using assms(1) by (auto simp: mutex_inv_def)
    then show ?thesis using wt [of i] by auto
  next
    case (HSetter j)
    then have "j < length (setters s)" "holds_s (setters s ! j)" using assms(1) by (auto simp: mutex_inv_def)
    then show ?thesis using st [of j] by auto
  qed
  show sr: "setters s ! j = SRun []" if "j < length (setters s)" for j using st [OF that] m by blast
  assume i: "i < length (waiters s)"
  have "spos s < fst (waiters s ! i)" if "snd (waiters s ! i) = WSleep n" for n
    using assms(2) i that sr unfolding wake_inv_def by (metis pending.simps(3) sleeping.simps(1))
  then show "(\<exists>n. snd (waiters s ! i) = WDone n) \<or> (\<exists>n. snd (waiters s ! i) = WSleep n) \<and> spos s < fst (waiters s ! i)"
    using wt [OF i] m by blast
qed

text \<open>
  C39. The threads always come to rest: every step of a waiter or setter lowers a rank, so with finitely
  many calls of \<open>setPosition\<close> and \<open>release\<close> there is no infinite run without spurious wake-ups.
\<close>

theorem bp_terminates: "wfp (\<lambda>s' s. bp_step s s')"
  by (rule wfp_if_convertible_to_nat [where f = bp_rank]) (rule bp_step_rank)

text \<open>
  C16. No wake-up is lost: whatever the interleaving, the calls and the spurious wake-ups, when no
  thread can take a step every setter has finished all its calls, and a waiter of \<open>getPosition\<close> has
  returned unless the position is still below the one it asked for.  In particular \<open>release\<close> alone
  never ends a wait.
\<close>

theorem no_lost_wakeup:
  assumes "bp_any\<^sup>*\<^sup>* (bp_start p0 desired programs) s" and "\<nexists>s'. bp_step s s'" and "i < length (waiters s)"
  shows "list_all (\<lambda>st. st = SRun []) (setters s) \<and>
    (case waiters s ! i of (d, WDone n) \<Rightarrow> True | (d, WSleep n) \<Rightarrow> spos s < d | _ \<Rightarrow> False)"
proof -
  have inv: "mutex_inv s" "wake_inv s" using inv_reachable [OF assms(1)] by blast+
  show ?thesis
    using stuck_state(1) [OF inv assms(2)] stuck_state(2) [OF inv assms(2,3)]
    by (auto simp: list_all_length split: prod.splits waiter.splits)
qed

text \<open>A waiter for position 5 sleeps, a setter stores 5, and the waiter returns.\<close>

definition wake_demo :: "nat \<Rightarrow> bpsys" where
  "wake_demo k =
     (let st = (\<lambda>p m w t. \<lparr>spos = p, smutex = m, waiters = [(5, w)], setters = [t]\<rparr>)
      in [st 0 HNone (WLock 0) (SRun [SetTo 5]),
          st 0 (HWaiter 0) (WCheck 0) (SRun [SetTo 5]),
          st 0 (HWaiter 0) (WWait 0) (SRun [SetTo 5]),
          st 0 HNone (WSleep 0) (SRun [SetTo 5]),
          st 0 (HSetter 0) (WSleep 0) (SHold 5 []),
          st 5 (HSetter 0) (WSleep 0) (SStored []),
          st 5 HNone (WSleep 0) (SNotify []),
          st 5 HNone (WLock 1) (SRun []),
          st 5 (HWaiter 0) (WCheck 1) (SRun []),
          st 5 HNone (WDone 1) (SRun [])] ! k)"

lemma wake_demo_run: "bp_any\<^sup>*\<^sup>* (bp_start 0 [5] [[SetTo 5]]) (wake_demo 9)"
proof -
  have s: "bp_step (wake_demo k) (wake_demo (k + 1))" if "k < 9" for k
  proof -
    consider "k = 0" | "k = 1" | "k = 2" | "k = 3" | "k = 4" | "k = 5" | "k = 6" | "k = 7" | "k = 8" using \<open>k < 9\<close> by linarith
    then show ?thesis
    proof cases
      case 1 then show ?thesis using w_lock [of 0 "wake_demo 0" 5 0] by (simp add: wake_demo_def)
    next
      case 2 then show ?thesis using w_wait [of 0 "wake_demo 1" 5 0] by (simp add: wake_demo_def)
    next
      case 3 then show ?thesis using w_sleep [of 0 "wake_demo 2" 5 0] by (simp add: wake_demo_def)
    next
      case 4 then show ?thesis using s_lock [of 0 "wake_demo 3" 5 "[]"] by (simp add: wake_demo_def)
    next
      case 5 then show ?thesis using s_store [of 0 "wake_demo 4" 5 "[]"] by (simp add: wake_demo_def)
    next
      case 6 then show ?thesis using s_unlock [of 0 "wake_demo 5" "[]"] by (simp add: wake_demo_def)
    next
      case 7 then show ?thesis using s_notify [of 0 "wake_demo 6" "[]"] by (simp add: wake_demo_def wake_def)
    next
      case 8 then show ?thesis using w_lock [of 0 "wake_demo 7" 5 1] by (simp add: wake_demo_def)
    next
      case 9 then show ?thesis using w_done [of 0 "wake_demo 8" 5 1] by (simp add: wake_demo_def)
    qed
  qed
  have "bp_any\<^sup>*\<^sup>* (wake_demo 0) (wake_demo k)" if "k \<le> 9" for k
    using that
  proof (induction k)
    case (Suc k)
    then have "bp_any (wake_demo k) (wake_demo (Suc k))" using s [of k] by (simp add: bp_any_def)
    then show ?case using Suc by simp
  qed simp
  moreover have "wake_demo 0 = bp_start 0 [5] [[SetTo 5]]" by (simp add: wake_demo_def bp_start_def)
  ultimately show ?thesis by simp
qed

theorem no_lost_wakeup_witness:
  "list_all (\<lambda>st. st = SRun []) (setters (wake_demo 9)) \<and> spos (wake_demo 9) = 5"
proof -
  have "\<nexists>s'. bp_step (wake_demo 9) s'"
    by (auto simp: wake_demo_def elim!: bp_step.cases)
  from no_lost_wakeup [OF wake_demo_run this, of 0] show ?thesis by (simp add: wake_demo_def)
qed

section \<open>Positions on an axis\<close>

text \<open>The number of samples of one step on axis \<open>a\<close>: the product of the last \<open>a\<close> dimensions.\<close>

definition axis_span :: "bufpos \<Rightarrow> nat \<Rightarrow> int" where
  "axis_span b a = (\<Prod>cnt<a. uint (dim_back b cnt))"

lemma axis_span_Suc: "axis_span b (Suc a) = axis_span b a * uint (dim_back b a)"
  by (simp add: axis_span_def)

lemma axis_samples_span:
  assumes "nat (sint axis) = Suc a"
  shows "axis_samples b axis p = word_of_int (axis_span b (Suc a) * uint p)"
  unfolding axis_samples_def assms
proof (induction a)
  case 0
  have "dim_back b 0 * p = word_of_int (uint (dim_back b 0) * uint p)" by (simp only: wi_hom_mult [symmetric] word_of_int_uint)
  then show ?case by (simp add: axis_span_def)
next
  case (Suc a)
  have "foldl (\<lambda>n cnt. n * dim_back b cnt) (dim_back b 0 * p) [1..<Suc (Suc a)]
    = word_of_int (axis_span b (Suc a) * uint p) * dim_back b (Suc a)" using Suc.IH by simp
  also have "\<dots> = word_of_int (axis_span b (Suc a) * uint p) * word_of_int (uint (dim_back b (Suc a)))" by simp
  also have "\<dots> = word_of_int (axis_span b (Suc a) * uint p * uint (dim_back b (Suc a)))" by (simp only: wi_hom_mult)
  finally show ?case by (simp only: axis_span_Suc [of b "Suc a"] mult_ac)
qed

lemma ucast_mult_scast: "ucast (scast (d :: 32 word) * (x :: u64)) = d * (ucast x :: 32 word)"
proof -
  have cut: "(ucast (word_of_int k :: u64) :: 32 word) = word_of_int k" for k
    by (rule bit_word_eqI) (simp add: bit_simps)
  have "scast d * x = word_of_int (sint d * uint x)"
    unfolding wi_hom_mult [symmetric] word_of_int_uint scast_eq by simp
  then have "ucast (scast d * x) = (word_of_int (sint d * uint x) :: 32 word)" by (simp only: cut)
  also have "\<dots> = d * word_of_int (uint x)" unfolding wi_hom_mult [symmetric] by simp
  finally show ?thesis by (simp only: ucast_eq)
qed

lemma axis_div_span:
  assumes "nat (sint axis) = Suc a"
  shows "axis_div b axis = word_of_int (axis_span b (Suc a))"
  unfolding axis_div_def assms
proof (induction a)
  case 0
  have "axis_span b (Suc 0) = uint (dim_back b 0)" by (simp add: axis_span_def)
  then show ?case unfolding ucast_eq by simp
next
  case (Suc a)
  have "foldl (\<lambda>d cnt. ucast (scast d * dim_back b cnt)) (ucast (dim_back b 0)) [1..<Suc (Suc a)]
    = (word_of_int (axis_span b (Suc a)) :: 32 word) * ucast (dim_back b (Suc a))" using Suc.IH by (simp add: ucast_mult_scast)
  also have "\<dots> = word_of_int (axis_span b (Suc a) * uint (dim_back b (Suc a)))" by (simp only: wi_hom_mult ucast_eq)
  finally show ?case by (simp only: axis_span_Suc [of b "Suc a"])
qed

text \<open>
  A position set on an axis reads back on that axis: for an axis of the shape whose last
  dimensions have a product between 1 and \<open>2 ^ 31 - 1\<close>, and a position that does not overflow 64
  bits, \<open>getNow\<close> after \<open>setPosition\<close> divides without a trap and returns the position.
\<close>

theorem position_roundtrip:
  assumes "0 < a" and "a < length (shape b)" and "length (shape b) < 2 ^ 31"
    and "0 < axis_span b a" and "axis_span b a < 2 ^ 31" and "axis_span b a * uint p < 2 ^ 64"
  shows "getNow (word_of_nat a) (setPosition p (word_of_nat a) b) = Some p"
proof -
  define axis where "axis = (word_of_nat a :: 32 word)"
  define m where "m = axis_span b a"
  have m: "0 < m" "m < 2 ^ 31" "0 \<le> m * uint p" "m * uint p < 2 ^ 64" using assms by (simp_all add: m_def)
  have si: "sint axis = int a"
  proof -
    have "take_bit 32 a = a" using assms by (simp add: take_bit_nat_eq_self_iff)
    moreover have "signed_take_bit 31 (int a) = int a" using assms by (intro signed_take_bit_int_eq_self) simp_all
    ultimately show ?thesis by (simp add: axis_def sint_uint unsigned_of_nat)
  qed
  then obtain a' where a': "nat (sint axis) = Suc a'" "a = Suc a'" using assms(1) by (cases a) simp_all
  have "(scast axis :: u64) = word_of_nat a" by (simp add: scast_eq si)
  moreover have "(word_of_nat a :: u64) < word_of_nat (length (shape b))"
    using assms by (simp add: word_less_nat_alt unsigned_of_nat take_bit_nat_eq_self)
  moreover have "axis \<noteq> 0" using si assms(1) by auto
  ultimately have ok: "axis_ok axis b" by (simp add: axis_ok_def)
  have span: "axis_span (b\<lparr>buffPosition := n, bp_running := r\<rparr>) a = m" "dim_back (b\<lparr>buffPosition := n, bp_running := r\<rparr>) = dim_back b" for n r
    by (simp_all add: m_def axis_span_def dim_back_def fun_eq_iff)
  define n where "n = (word_of_int (m * uint p) :: u64)"
  have samples: "axis_samples b axis p = n" using axis_samples_span [OF a'(1), of b p] by (simp add: n_def m_def a'(2))
  define d where "d = (word_of_int m :: 32 word)"
  have dv: "axis_div b' axis = d" if "b' = b \<or> b' = b\<lparr>buffPosition := n, bp_running := True\<rparr>" for b'
    using axis_div_span [OF a'(1), of b'] that span by (auto simp: d_def m_def a'(2))
  have sd: "sint d = m" using m by (simp add: d_def sint_uint signed_take_bit_int_eq_self_iff uint_word_of_int_small)
  have "uint (scast d :: u64) = m" using m by (simp add: scast_eq sd uint_word_of_int_small)
  moreover have "uint n = m * uint p" unfolding n_def by (rule uint_word_of_int_small [OF m(3)]) (use m in simp)
  ultimately have "uint (n div scast d) = uint p" using m(1) by (simp add: uint_div)
  then have q: "n div scast d = p" by (simp add: word_uint_eq_iff)
  have "d \<noteq> 0" using sd m(1) by auto
  then have now: "getNow axis b' = Some (buffPosition b' div scast d)"
    if "b' = b \<or> b' = b\<lparr>buffPosition := n, bp_running := True\<rparr>" for b'
    using dv [OF that] that ok by (auto simp: getNow_def axis_ok_def)
  show ?thesis unfolding axis_def [symmetric]
    using now [of b] now [of "b\<lparr>buffPosition := n, bp_running := True\<rparr>"] q ok
    by (auto simp: setPosition_def samples Let_def)
qed

theorem position_roundtrip_witness:
  "getNow 1 (setPosition 70000 1 (setBuffer 8 0 [16, 32768] (bufpos_new 8))) = Some 70000"
  using position_roundtrip [of 1 "setBuffer 8 0 [16, 32768] (bufpos_new 8)" 70000]
  by (simp add: setBuffer_def bufpos_new_def axis_span_def dim_back_def)

text \<open>
  The strides \<open>setBuffer\<close> computes.  For one and two dimensions they are the contiguous ones; for
  three the outermost stride stands second (contiguous order is \<open>sz * c * b\<close>, \<open>sz * c\<close>, \<open>sz\<close>).
\<close>

lemma setBuffer_strides:
  "stride (setBuffer sz p [a] x) = [sz]" "stride (setBuffer sz p [a, b] x) = [sz * b, sz]"
  "stride (setBuffer sz p [a, b, c] x) = [sz, sz * c * b, sz * c]"
  by (simp_all add: setBuffer_def upt_rec Let_def)

end
