(* ===== verification/BufferFile.thy ===== *)
theory BufferFile
  imports BufferPosition
begin

text \<open>
  Recording a buffer to a file and playing it back (\<open>gm/buffer/BufferFile.h\<close>,
  \<open>gm/buffer/BufferFile.cc\<close>).  A file is its bytes; the packed header is written in the little-endian
  layout of the machine.  Playback is a step function over the rest of the file, the ring of slots
  and the position counter; sleeping, printing and the device copies are not modelled.
\<close>

section \<open>The header\<close>

record file_header =
  hmagic :: u32
  hversion :: u32
  hblock_samples :: u32
  helement_bytes :: u32
  hblock_interval_ns :: u64
  hsample_rate_hz :: u32
  hrx_sample_rate :: u32

definition kBufferFileMagic :: u32 where "kBufferFileMagic = 0x474E4C48"

definition le_bytes :: "nat \<Rightarrow> 'a::len word \<Rightarrow> u8 list" where
  "le_bytes n w = map (\<lambda>i. ucast (drop_bit (8 * i) w)) [0..<n]"

definition of_le :: "u8 list \<Rightarrow> 'a::len word" where
  "of_le bs = foldr (\<lambda>b w. ucast b OR push_bit 8 w) bs 0"

definition header_bytes :: "file_header \<Rightarrow> u8 list" where
  "header_bytes h =
     le_bytes 4 (hmagic h) @ le_bytes 4 (hversion h) @ le_bytes 4 (hblock_samples h) @ le_bytes 4 (helement_bytes h) @
     le_bytes 8 (hblock_interval_ns h) @ le_bytes 4 (hsample_rate_hz h) @ le_bytes 4 (hrx_sample_rate h)"

definition header_size :: nat where "header_size = 32"

definition parse_header :: "u8 list \<Rightarrow> file_header" where
  "parse_header bs =
     \<lparr>hmagic = of_le (take 4 bs), hversion = of_le (take 4 (drop 4 bs)), hblock_samples = of_le (take 4 (drop 8 bs)),
      helement_bytes = of_le (take 4 (drop 12 bs)), hblock_interval_ns = of_le (take 8 (drop 16 bs)),
      hsample_rate_hz = of_le (take 4 (drop 24 bs)), hrx_sample_rate = of_le (take 4 (drop 28 bs))\<rparr>"

section \<open>Playback\<close>

text \<open>The constructor exits with an error, or traps where it divides by the size of a block.\<close>

datatype open_error = ShortHeader | BadMagic u32 | BadVersion u32 | DivideByZero

record playback =
  pb_data :: "u8 list"
  pb_rest :: "u8 list"
  pb_loop :: bool
  pb_block_samples :: u32
  pb_interval :: u64
  pb_total :: u64
  pb_ring :: "u8 list list"
  pb_num :: u64
  pb_pos :: bufpos
  pb_finished :: bool

definition ring_slots :: nat where "ring_slots = 16"

definition block_bytes :: "u64 \<Rightarrow> u32 \<Rightarrow> u64" where
  "block_bytes sz n = ucast n * sz"

definition open_playback :: "u64 \<Rightarrow> bool \<Rightarrow> u8 list \<Rightarrow> open_error + playback" where
  "open_playback sz loop file =
     (if length file < header_size then Inl ShortHeader
      else
        (let h = parse_header (take header_size file); body = drop header_size file
         in if hmagic h \<noteq> kBufferFileMagic then Inl (BadMagic (hmagic h))
            else if hversion h \<noteq> 1 then Inl (BadVersion (hversion h))
            else if block_bytes sz (hblock_samples h) = 0 then Inl DivideByZero
            else Inr
              \<lparr>pb_data = body, pb_rest = body, pb_loop = loop, pb_block_samples = hblock_samples h,
               pb_interval = hblock_interval_ns h,
               pb_total = word_of_nat (length body) div block_bytes sz (hblock_samples h),
               pb_ring = replicate ring_slots [], pb_num = 0,
               pb_pos = setBuffer sz 0 [word_of_nat ring_slots, ucast (hblock_samples h)] (bufpos_new sz),
               pb_finished = False\<rparr>))"

text \<open>One round of the playback loop: a block was fed, the file was rewound, or playback ended.\<close>

datatype pb_event = Fed u64 "u8 list" | Rewound | Ended

definition playback_step :: "u64 \<Rightarrow> playback \<Rightarrow> pb_event \<times> playback" where
  "playback_step sz st =
     (let need = unat (block_bytes sz (pb_block_samples st))
      in if length (pb_rest st) < need
         then (if pb_loop st then (Rewound, st\<lparr>pb_rest := pb_data st\<rparr>)
               else (Ended, st\<lparr>pb_rest := [], pb_finished := True\<rparr>))
         else
           (let block = take need (pb_rest st); slot = unat (pb_num st) mod ring_slots
            in (Fed (pb_num st) block,
                st\<lparr>pb_rest := drop need (pb_rest st), pb_ring := (pb_ring st)[slot := block],
                   pb_pos := setPosition (pb_num st) 1 (pb_pos st), pb_num := pb_num st + 1\<rparr>)))"

text \<open>At most \<open>n\<close> rounds, until playback ends.\<close>

fun playback_run :: "u64 \<Rightarrow> nat \<Rightarrow> playback \<Rightarrow> pb_event list \<times> playback" where
  "playback_run sz 0 st = ([], st)"
| "playback_run sz (Suc n) st =
     (let (e, st1) = playback_step sz st
      in if e = Ended then ([e], st1)
         else (let (es, st2) = playback_run sz n st1 in (e # es, st2)))"

section \<open>Recording\<close>

record file_params =
  fblock_samples :: u32
  fblock_interval_ns :: u64
  fsample_rate_hz :: u32
  frx_sample_rate :: u32

definition record_header :: "u64 \<Rightarrow> file_params \<Rightarrow> file_header" where
  "record_header sz p =
     \<lparr>hmagic = kBufferFileMagic, hversion = 1, hblock_samples = fblock_samples p, helement_bytes = ucast sz,
      hblock_interval_ns = fblock_interval_ns p, hsample_rate_hz = fsample_rate_hz p, hrx_sample_rate = frx_sample_rate p\<rparr>"

text \<open>
  The record loop sees a sequence of pairs: the position \<open>getPosition\<close> returned and the contents of
  the source ring at that moment, as a list of elements' bytes per sample slot.
\<close>

definition record_block :: "u64 \<Rightarrow> file_params \<Rightarrow> u64 \<Rightarrow> u64 \<Rightarrow> u8 list \<Rightarrow> u8 list" where
  "record_block sz p num_slots next ring =
     take (unat (block_bytes sz (fblock_samples p)))
       (drop (unat ((next mod num_slots) * ucast (fblock_samples p)) * unat sz) ring)"

definition record_file :: "u64 \<Rightarrow> file_params \<Rightarrow> u64 \<Rightarrow> (u64 \<times> u8 list) list \<Rightarrow> u8 list" where
  "record_file sz p num_slots seen =
     header_bytes (record_header sz p) @ concat (map (\<lambda>(next, ring). record_block sz p num_slots next ring) seen)"

section \<open>The header reads back\<close>

lemma length_le_bytes [simp]: "length (le_bytes n w) = n"
  by (simp add: le_bytes_def)

lemma bit_of_le:
  "bit (of_le bs :: 'a::len word) k \<longleftrightarrow> k < LENGTH('a) \<and> k div 8 < length bs \<and> bit (bs ! (k div 8)) (k mod 8)"
proof (induction bs arbitrary: k)
  case (Cons b bs)
  have s: "of_le (b # bs) = (ucast b OR push_bit 8 (of_le bs) :: 'a word)" by (simp add: of_le_def)
  show ?case
  proof (cases "k < 8")
    case True
    then show ?thesis by (auto simp: s bit_simps)
  next
    case False
    then have d: "k div 8 = Suc ((k - 8) div 8)" "k mod 8 = (k - 8) mod 8" by (simp_all add: le_div_geq le_mod_geq)
    have "\<not> bit b k" using False bit_imp_le_length [of b k] by auto
    then show ?thesis using False Cons [of "k - 8"] d by (auto simp: s bit_simps)
  qed
qed (simp add: of_le_def)

lemma of_le_bytes: "LENGTH('a) = 8 * n \<Longrightarrow> of_le (le_bytes n w) = (w :: 'a::len word)"
  by (rule bit_word_eqI) (auto simp: bit_of_le le_bytes_def bit_simps less_mult_imp_div_less mult.commute)

lemma length_header_bytes [simp]: "length (header_bytes h) = header_size"
  by (simp add: header_bytes_def header_size_def)

lemma parse_header_bytes: "parse_header (header_bytes h) = h"
  by (simp add: parse_header_def header_bytes_def of_le_bytes)

section \<open>A recording plays back\<close>

lemma playback_blocks:
  assumes "list_all (\<lambda>b. length b = unat (block_bytes sz (pb_block_samples st))) blocks" and "pb_rest st = concat blocks"
    and "0 < unat (block_bytes sz (pb_block_samples st))" and "pb_num st = word_of_nat k"
  shows "fst (playback_run sz (length blocks + 1) st)
    = map (\<lambda>i. Fed (word_of_nat (k + i)) (blocks ! i)) [0..<length blocks] @ [if pb_loop st then Rewound else Ended]"
  using assms
proof (induction blocks arbitrary: st k)
  case Nil
  then show ?case by (simp add: playback_step_def)
next
  case (Cons b blocks)
  define need where "need = unat (block_bytes sz (pb_block_samples st))"
  define st1 where "st1 = st\<lparr>pb_rest := drop need (pb_rest st), pb_ring := (pb_ring st)[unat (pb_num st) mod ring_slots := b],
    pb_pos := setPosition (pb_num st) 1 (pb_pos st), pb_num := pb_num st + 1\<rparr>"
  have b: "length b = need" "pb_rest st = b @ concat blocks" using Cons.prems by (simp_all add: need_def)
  have step: "playback_step sz st = (Fed (word_of_nat k) b, st1)"
    using b Cons.prems(4) by (simp add: playback_step_def Let_def st1_def flip: need_def)
  have "fst (playback_run sz (length blocks + 1) st1)
    = map (\<lambda>i. Fed (word_of_nat (Suc k + i)) (blocks ! i)) [0..<length blocks] @ [if pb_loop st1 then Rewound else Ended]"
    using Cons.prems b by (intro Cons.IH) (simp_all add: st1_def need_def)
  moreover have "[0..<length (b # blocks)] = 0 # map Suc [0..<length blocks]" by (simp add: map_Suc_upt upt_conv_Cons del: upt_Suc)
  ultimately show ?case by (simp add: step split_beta st1_def comp_def)
qed

text \<open>
  C20. What was recorded is what is played: the file that the recorder writes for any sequence of
  observed positions opens without an error, and playback feeds exactly the recorded blocks, in order
  and under the numbers 0, 1, 2 and so on, before it rewinds or ends.
\<close>

theorem playback_of_recording:
  assumes "0 < block_bytes sz (fblock_samples p)"
    and "list_all (\<lambda>(next, ring). length (record_block sz p num_slots next ring) = unat (block_bytes sz (fblock_samples p))) seen"
  shows "case open_playback sz loop (record_file sz p num_slots seen) of
      Inl e \<Rightarrow> False
    | Inr st \<Rightarrow>
        pb_interval st = fblock_interval_ns p \<and>
        fst (playback_run sz (length seen + 1) st)
          = map (\<lambda>i. Fed (word_of_nat i) (case seen ! i of (next, ring) \<Rightarrow> record_block sz p num_slots next ring)) [0..<length seen]
            @ [if loop then Rewound else Ended]"
proof -
  define blocks where "blocks = map (\<lambda>(next, ring). record_block sz p num_slots next ring) seen"
  define h where "h = record_header sz p"
  have hf: "hmagic h = kBufferFileMagic" "hversion h = 1" "hblock_samples h = fblock_samples p" "hblock_interval_ns h = fblock_interval_ns p"
    by (simp_all add: h_def record_header_def)
  have rf: "record_file sz p num_slots seen = header_bytes h @ concat blocks" by (simp add: record_file_def blocks_def h_def)
  obtain st where st: "open_playback sz loop (record_file sz p num_slots seen) = Inr st" "pb_rest st = concat blocks"
    "pb_block_samples st = fblock_samples p" "pb_num st = 0" "pb_loop st = loop" "pb_interval st = fblock_interval_ns p"
  proof -
    have "block_bytes sz (fblock_samples p) \<noteq> 0" using assms(1) by auto
    then show thesis using hf that by (simp add: rf open_playback_def parse_header_bytes Let_def)
  qed
  have "list_all (\<lambda>b. length b = unat (block_bytes sz (pb_block_samples st))) blocks"
    using assms(2) by (auto simp: st(3) blocks_def list_all_iff)
  from playback_blocks [OF this st(2), of 0] assms(1)
  have "fst (playback_run sz (length blocks + 1) st)
    = map (\<lambda>i. Fed (word_of_nat i) (blocks ! i)) [0..<length blocks] @ [if loop then Rewound else Ended]"
    by (simp add: st(3-5) word_less_nat_alt)
  moreover have "blocks ! i = (case seen ! i of (next, ring) \<Rightarrow> record_block sz p num_slots next ring)" if "i < length seen" for i
    using that by (simp add: blocks_def)
  ultimately show ?thesis using st(1,6) by (simp add: blocks_def cong: map_cong)
qed

text \<open>Three blocks of one sample of two bytes, from a ring of three slots.\<close>

definition demo_params :: file_params where
  "demo_params = \<lparr>fblock_samples = 1, fblock_interval_ns = 7, fsample_rate_hz = 4, frx_sample_rate = 0\<rparr>"

definition demo_seen :: "(u64 \<times> u8 list) list" where
  "demo_seen = [(1, [1, 2, 3, 4, 5, 6]), (2, [1, 2, 3, 4, 9, 8]), (4, [1, 2, 7, 7, 9, 8])]"

theorem playback_of_recording_witness:
  "case open_playback 2 False (record_file 2 demo_params 3 demo_seen) of
     Inl e \<Rightarrow> False
   | Inr st \<Rightarrow> fst (playback_run 2 4 st) = [Fed 0 [3, 4], Fed 1 [9, 8], Fed 2 [7, 7], Ended]"
proof -
  have b: "block_bytes 2 (fblock_samples demo_params) = 2" by (simp add: block_bytes_def demo_params_def)
  have r: "record_block 2 demo_params 3 1 [1, 2, 3, 4, 5, 6] = [3, 4]" "record_block 2 demo_params 3 2 [1, 2, 3, 4, 9, 8] = [9, 8]"
    "record_block 2 demo_params 3 4 [1, 2, 7, 7, 9, 8] = [7, 7]"
    by (simp_all add: record_block_def b) (simp_all add: demo_params_def)
  have s: "list_all (\<lambda>(next, ring). length (record_block 2 demo_params 3 next ring) = unat (block_bytes 2 (fblock_samples demo_params))) demo_seen"
    by (simp add: demo_seen_def r b)
  have n: "length demo_seen + 1 = 4" by (simp add: demo_seen_def)
  have m: "map (\<lambda>i. Fed (word_of_nat i) (case demo_seen ! i of (next, ring) \<Rightarrow> record_block 2 demo_params 3 next ring)) [0..<length demo_seen]
    = [Fed 0 [3, 4], Fed 1 [9, 8], Fed 2 [7, 7]]" by (simp add: demo_seen_def upt_rec r)
  have "0 < block_bytes 2 (fblock_samples demo_params)" by (simp add: b)
  from playback_of_recording [OF this s, of False] show ?thesis
    unfolding n m by (cases "open_playback 2 False (record_file 2 demo_params 3 demo_seen)") simp_all
qed

end
