(* ===== verification/Js8Decode.thy ===== *)
theory Js8Decode
  imports Ft8Decode Js8Text Ldpc
begin

text \<open>
  The JS8 host decoder of \<open>gm/hf/js8.cc\<close> (lines 405 to 674, \<open>gm/hf/js8.h\<close>): the publish path shared by
  the scan callback and the refine worker, with its per-epoch suppression of repeats; the scan
  \<open>decodeAndPublishContinuous\<close> over the candidates of one GPU scan; one round of the refine worker;
  and the configuration.  \<open>gm/hf/decode_stats.h\<close> is the counter of decodes.  The word table of JSC, the
  JS8 generator and the orders the C++ library leaves open are arguments; what leaves the component is
  appended to lists of the state, as in \<open>Ft8Decode\<close>.
\<close>

section \<open>Decode counters\<close>

record decode_stats =
  ds_enabled :: bool
  ds_counts :: "(string \<times> u64) list"
  ds_total :: u64

definition ds_count :: "string \<Rightarrow> decode_stats \<Rightarrow> decode_stats" where
  "ds_count mode d =
     (if \<not> ds_enabled d then d
      else d\<lparr>ds_counts := AList.update mode ((case map_of (ds_counts d) mode of None \<Rightarrow> 0 | Some c \<Rightarrow> c) + 1) (ds_counts d),
             ds_total := ds_total d + 1\<rparr>)"

section \<open>State\<close>

text \<open>The scan result with the words the GPU decoder converged to (\<open>parity\<close>, \<open>x_hat\<close>).\<close>

record js8_scan =
  js_base :: scan_result
  js_parity :: "bool list"
  js_xhat :: "u8 list"

record js8_spot =
  jp_text :: string
  jp_freq :: f32
  jp_snr :: f32
  jp_unix :: f64
  jp_offset :: f32
  jp_mode :: string
  jp_call :: "string option"

record js8_job =
  jj_fo :: int
  jj_to :: int
  jj_ts :: int
  jj_snap_start :: u64
  jj_score :: int
  jj_unix :: f64

record js8 =
  j_zmq_port :: int
  j_symbol_period :: f32
  j_cycle_secs :: f32
  j_time_osr :: int
  j_rfft_size :: int
  j_mode :: string
  j_ws_client :: bool
  j_wsdict_key :: string
  j_seen :: "string set"
  j_epoch :: u64
  j_capture :: bool
  j_osd_enable :: bool
  j_osd_order :: int
  j_osd_score_floor :: f32
  j_osd_max_per_cycle :: int
  j_osd_soft_thresh :: f32
  j_refine_enable :: bool
  j_refine_q :: "js8_job list"
  j_refine_run :: bool
  j_stats :: decode_stats
  j_zmq_out :: "(string \<times> js8_spot) list"
  j_ws_out :: "(string \<times> js8_spot \<times> int) list"
  j_captures :: "capture_line list"

definition to_lower :: "char \<Rightarrow> char" where
  "to_lower c = (let n = of_char c :: nat in if 65 \<le> n \<and> n \<le> 90 then char_of (n + 32) else c)"

definition wsdict_prefix :: "string \<Rightarrow> string" where
  "wsdict_prefix mode = ''granolasdr:'' @ filter (\<lambda>c. c \<noteq> CHR '' '') (List.map to_lower mode) @ '':heard:''"

text \<open>\<open>connects\<close> and \<open>opens\<close>: whether the dictionary client connects and the capture file opens.\<close>

definition js8_new ::
  "bool \<Rightarrow> bool \<Rightarrow> decode_stats \<Rightarrow> int \<Rightarrow> f32 \<Rightarrow> f32 \<Rightarrow> int \<Rightarrow> int \<Rightarrow> string \<Rightarrow> int \<Rightarrow> js8" where
  "js8_new connects opens stats port symbol_period cycle_secs time_osr rfft_size mode wsdict_port =
     \<lparr>j_zmq_port = port, j_symbol_period = symbol_period, j_cycle_secs = cycle_secs, j_time_osr = time_osr,
      j_rfft_size = rfft_size, j_mode = mode, j_ws_client = (0 < wsdict_port \<and> connects),
      j_wsdict_key = (if 0 < wsdict_port then wsdict_prefix mode else []), j_seen = {}, j_epoch = 0, j_capture = opens,
      j_osd_enable = False, j_osd_order = 2, j_osd_score_floor = 0, j_osd_max_per_cycle = 64, j_osd_soft_thresh = 0,
      j_refine_enable = False, j_refine_q = [], j_refine_run = False, j_stats = stats, j_zmq_out = [], j_ws_out = [],
      j_captures = []\<rparr>"

section \<open>Publishing\<close>

text \<open>\<open>ws_throws\<close> says whether the dictionary client throws on the entry.\<close>

definition js8_publishDecoded ::
  "(string \<Rightarrow> bool) \<Rightarrow> string \<Rightarrow> string \<Rightarrow> f32 \<Rightarrow> f32 \<Rightarrow> f64 \<Rightarrow> f32 \<Rightarrow> js8 \<Rightarrow> js8" where
  "js8_publishDecoded ws_throws spot from_call freq_hz snr unix_time time_offset s =
     (let s = s\<lparr>j_stats := ds_count (j_mode s) (j_stats s)\<rparr>;
          v = \<lparr>jp_text = spot, jp_freq = freq_hz, jp_snr = snr, jp_unix = unix_time, jp_offset = time_offset,
               jp_mode = j_mode s, jp_call = (if from_call \<noteq> [] then Some from_call else None)\<rparr>;
          s = (if 0 < j_zmq_port s then s\<lparr>j_zmq_out := j_zmq_out s @ [(''js8/decode'', v)]\<rparr> else s)
      in if j_ws_client s \<and> from_call \<noteq> [] then
           (let key = j_wsdict_key s @ List.map key_char from_call
            in if ws_throws key then s\<lparr>j_ws_client := False\<rparr>
               else s\<lparr>j_ws_out := j_ws_out s @ [(key, v, 900000)]\<rparr>)
         else s)"

definition js8_capture ::
  "string \<Rightarrow> f32 list \<Rightarrow> int \<Rightarrow> int \<Rightarrow> int \<Rightarrow> int \<Rightarrow> f64 \<Rightarrow> string option \<Rightarrow> f32 option \<Rightarrow> js8 \<Rightarrow> js8" where
  "js8_capture status llr fo to ts score unix_now spot odist s =
     (if \<not> j_capture s then s
      else s\<lparr>j_captures := j_captures s @
        [\<lparr>cl_mode = j_mode s, cl_status = status, cl_llr = take FTX_LDPC_N llr, cl_fo = fo, cl_to = to, cl_ts = ts,
          cl_score = score, cl_freq = composite_bin_to_rf_hz fo (j_rfft_size s), cl_snr = spot_snr score,
          cl_unix = unix_now, cl_text = spot, cl_osd_dist = odist\<rparr>]\<rparr>)"

definition dedup_key :: "string \<Rightarrow> int \<Rightarrow> string" where
  "dedup_key spot fo = spot @ ''|'' @ fmt_d fo"

definition js8_time :: "js8 \<Rightarrow> int \<Rightarrow> int \<Rightarrow> f32" where
  "js8_time s to ts = fmul (fadd (r32 (of_int to)) (fdiv (r32 (of_int ts)) (r32 (of_int (j_time_osr s))))) (j_symbol_period s)"

text \<open>What a callee reads of a string passed as \<open>c_str()\<close>.\<close>

definition as_c_str :: "string \<Rightarrow> string" where
  "as_c_str = takeWhile (\<lambda>c. c \<noteq> CHR 0x00)"

definition publishCandidateCore ::
  "(nat \<Rightarrow> string) \<Rightarrow> (string \<Rightarrow> bool) \<Rightarrow> u8 list \<Rightarrow> f32 list \<Rightarrow> int \<Rightarrow> int \<Rightarrow> int \<Rightarrow> int \<Rightarrow> f64 \<Rightarrow> string \<Rightarrow> f32 option \<Rightarrow>
     js8 \<Rightarrow> bool \<times> js8" where
  "publishCandidateCore jmap ws_throws info llr fo to ts score unix_now status odist s =
     (if \<not> checkCRC12 info then (False, s)
      else if extractMessage12 info = [] then (False, s)
      else
        (let (spot, from) = decodeJs8Message jmap info;
             key = dedup_key spot fo
         in if key \<in> j_seen s then (True, s)
            else
              (let s = s\<lparr>j_seen := insert key (j_seen s)\<rparr>;
                   s = js8_capture status llr fo to ts score unix_now (Some (as_c_str spot)) odist s
               in (True, js8_publishDecoded ws_throws (as_c_str spot) (case from of None \<Rightarrow> [] | Some c \<Rightarrow> as_c_str c)
                           (composite_bin_to_rf_hz fo (j_rfft_size s)) (spot_snr score) unix_now (js8_time s to ts) s))))"

section \<open>One scan\<close>

definition js8_info :: "js8_scan \<Rightarrow> nat \<Rightarrow> u8 list" where
  "js8_info r i = take 87 (drop (i * FTX_LDPC_N + 87) (js_xhat r))"

definition publishCandidate ::
  "(nat \<Rightarrow> string) \<Rightarrow> (string \<Rightarrow> bool) \<Rightarrow> js8_scan \<Rightarrow> nat \<Rightarrow> u8 list \<Rightarrow> f64 \<Rightarrow> string \<Rightarrow> f32 option \<Rightarrow> js8 \<Rightarrow> bool \<times> js8" where
  "publishCandidate jmap ws_throws r i info unix_now status odist s =
     publishCandidateCore jmap ws_throws info (llr_of (js_base r) i) (fo_of (js_base r) i) (to_of (js_base r) i)
       (ts_of (js_base r) i) (score_of (js_base r) i) unix_now status odist s"

text \<open>The epoch is the number of the transmit cycle; a new one forgets what was published.\<close>

definition js8_epoch :: "f64 \<Rightarrow> js8 \<Rightarrow> js8" where
  "js8_epoch unix_now s =
     (let epoch = word_of_int (trunc (ddiv unix_now (j_cycle_secs s)))
      in if epoch \<noteq> j_epoch s then s\<lparr>j_seen := {}, j_epoch := epoch\<rparr> else s)"

definition js8_pass1 ::
  "(nat \<Rightarrow> string) \<Rightarrow> (string \<Rightarrow> bool) \<Rightarrow> js8_scan \<Rightarrow> f64 \<Rightarrow> js8 \<times> int set \<Rightarrow> nat \<Rightarrow> js8 \<times> int set" where
  "js8_pass1 jmap ws_throws r unix_now = (\<lambda>(s, bins) i.
     if \<not> js_parity r ! i then (s, bins)
     else
       (let (ok, s) = publishCandidate jmap ws_throws r i (js8_info r i) unix_now ''pass'' None s
        in (s, if ok then insert (fo_of (js_base r) i) bins else bins)))"

definition js8_failures :: "js8_scan \<Rightarrow> f32 \<Rightarrow> nat \<Rightarrow> nat list" where
  "js8_failures r score_floor n =
     filter (\<lambda>i. \<not> js_parity r ! i \<and> \<not> r32 (of_int (score_of (js_base r) i)) < score_floor) [0..<n]"

definition js8_job_of :: "js8_scan \<Rightarrow> f64 \<Rightarrow> nat \<Rightarrow> js8_job" where
  "js8_job_of r unix_now i =
     \<lparr>jj_fo = fo_of (js_base r) i, jj_to = to_of (js_base r) i, jj_ts = ts_of (js_base r) i,
      jj_snap_start = sr_snap_start (js_base r), jj_score = score_of (js_base r) i, jj_unix = unix_now\<rparr>"

definition js8_enqueue :: "js8_job \<Rightarrow> js8_job list \<Rightarrow> js8_job list" where
  "js8_enqueue j q = (if kRefineQueueMax \<le> length q then drop 1 q else q) @ [j]"

text \<open>The soft-distance gate and the CRC gate on a word of the ordered-statistics decoder.\<close>

definition js8_osd_try ::
  "u8 list \<Rightarrow> int \<Rightarrow> f32 \<Rightarrow> f32 list \<Rightarrow> (u8 list \<Rightarrow> f32 \<Rightarrow> js8 \<Rightarrow> bool \<times> js8) \<Rightarrow> js8 \<Rightarrow> bool \<times> f32 \<times> js8" where
  "js8_osd_try gen order soft_thresh llr publish s =
     (case js8_osd_decode gen llr order of
        None \<Rightarrow> (False, 0, s)
      | Some (xhat, odist) \<Rightarrow>
          if soft_thresh \<le> 0 \<or> odist \<le> soft_thresh
          then (let (ok, s) = publish (take 87 (drop 87 xhat)) odist s in (ok, odist, s))
          else (False, odist, s))"

definition js8_pass2 ::
  "(nat \<Rightarrow> string) \<Rightarrow> (string \<Rightarrow> bool) \<Rightarrow> u8 list \<Rightarrow> js8_scan \<Rightarrow> f64 \<Rightarrow> (js8 \<times> int set) \<times> int \<Rightarrow> nat \<Rightarrow> (js8 \<times> int set) \<times> int" where
  "js8_pass2 jmap ws_throws gen r unix_now = (\<lambda>((s, bins), refine_used) i.
     let (ok, odist, s) = js8_osd_try gen (j_osd_order s) (j_osd_soft_thresh s) (llr_of (js_base r) i)
           (\<lambda>info odist. publishCandidate jmap ws_throws r i info unix_now ''osd'' (Some odist)) s
     in if ok then ((s, insert (fo_of (js_base r) i) bins), refine_used)
        else
          (let s = (if fo_of (js_base r) i \<notin> bins
                    then js8_capture ''fail'' (llr_of (js_base r) i) (fo_of (js_base r) i) (to_of (js_base r) i)
                           (ts_of (js_base r) i) (score_of (js_base r) i) unix_now None (Some odist) s
                    else s)
           in if j_refine_enable s \<and> refine_used < kRefineMaxPerCycle
              then ((s\<lparr>j_refine_q := js8_enqueue (js8_job_of r unix_now i) (j_refine_q s)\<rparr>, bins), refine_used + 1)
              else ((s, bins), refine_used)))"

text \<open>\<open>None\<close>: the negative cap makes \<open>resize\<close> throw, as in \<open>osd_cands\<close>.\<close>

definition js8_scan_step ::
  "(nat \<Rightarrow> string) \<Rightarrow> (string \<Rightarrow> bool) \<Rightarrow> u8 list \<Rightarrow> cpp_orders \<Rightarrow> f64 \<Rightarrow> js8_scan \<Rightarrow> js8 \<Rightarrow> js8 option" where
  "js8_scan_step jmap ws_throws gen C unix_now r s =
     (let n = unat (min (sr_count (js_base r)) CONT_CAND_MAX)
      in if n = 0 then Some s
         else
           (let s = js8_epoch unix_now s;
                (s, bins) = foldl (js8_pass1 jmap ws_throws r unix_now) (s, {}) [0..<n]
            in if \<not> j_osd_enable s then Some s
               else case osd_cands C (js_base r) (j_osd_max_per_cycle s) (js8_failures r (j_osd_score_floor s) n) of
                      None \<Rightarrow> None
                    | Some cands \<Rightarrow>
                        Some (fst (fst (foldl (js8_pass2 jmap ws_throws gen r unix_now) ((s, bins), 0) cands)))))"

section \<open>The refine worker and the configuration\<close>

text \<open>
  One round of the worker: \<open>None\<close> when it has to wait for a job or has been told to stop.
  \<open>refine\<close> is \<open>refineCandidate\<close> of the GPU side.
\<close>

definition js8_refine_round ::
  "(nat \<Rightarrow> string) \<Rightarrow> (string \<Rightarrow> bool) \<Rightarrow> u8 list \<Rightarrow> (int \<Rightarrow> int \<Rightarrow> u64 \<Rightarrow> f32 list option) \<Rightarrow> js8 \<Rightarrow> js8 option" where
  "js8_refine_round jmap ws_throws gen refine s =
     (if \<not> j_refine_run s then None
      else case j_refine_q s of
        [] \<Rightarrow> None
      | job # q \<Rightarrow>
          (let s = s\<lparr>j_refine_q := q\<rparr>
           in case refine (jj_fo job) (jj_to job) (jj_snap_start job) of
                None \<Rightarrow> Some s
              | Some rllr \<Rightarrow>
                  Some (snd (snd (js8_osd_try gen (j_osd_order s) (j_osd_soft_thresh s) rllr
                    (\<lambda>info odist. publishCandidateCore jmap ws_throws info rllr (jj_fo job) (jj_to job) (jj_ts job)
                       (jj_score job) (jj_unix job) ''refine'' (Some odist)) s)))))"

definition js8_setOsdConfig :: "bool \<Rightarrow> int \<Rightarrow> f32 \<Rightarrow> int \<Rightarrow> f32 \<Rightarrow> js8 \<Rightarrow> js8" where
  "js8_setOsdConfig enable order score_floor max_per_cycle soft_thresh s =
     s\<lparr>j_osd_enable := enable, j_osd_order := order, j_osd_score_floor := score_floor,
       j_osd_max_per_cycle := max_per_cycle, j_osd_soft_thresh := soft_thresh\<rparr>"

definition js8_setRefineEnabled :: "bool \<Rightarrow> js8 \<Rightarrow> js8" where
  "js8_setRefineEnabled enable s =
     (if enable \<and> \<not> j_refine_run s then s\<lparr>j_refine_enable := enable, j_refine_run := True\<rparr>
      else s\<lparr>j_refine_enable := enable\<rparr>)"

definition js8_stop :: "js8 \<Rightarrow> js8" where
  "js8_stop s = s\<lparr>j_refine_run := False\<rparr>"
section \<open>The key of a publication\<close>

lemma dec_of_nat_digits: "c \<in> set (dec_of_nat n) \<Longrightarrow> 48 \<le> (of_char c :: nat) \<and> (of_char c :: nat) < 58"
proof (induction n rule: dec_of_nat.induct)
  case (1 n)
  have digit: "(of_char (char_of (48 + k) :: char) :: nat) = 48 + k" if "k < 10" for k :: nat
    using that by simp
  show ?case using 1 digit [of n] digit [of "n mod 10"] by (subst (asm) (2) dec_of_nat.simps) (auto split: if_splits)
qed

lemma fmt_d_bar: "CHR ''|'' \<notin> set (fmt_d z)"
  by (auto simp: fmt_d_def split: if_splits dest: dec_of_nat_digits)

lemma dec_of_nat_value: "foldl (\<lambda>a c. 10 * a + (of_char c - 48)) (0 :: nat) (dec_of_nat n) = n"
  by (induction n rule: dec_of_nat.induct) (subst dec_of_nat.simps, auto)

lemma dec_of_nat_inj: "dec_of_nat m = dec_of_nat n \<Longrightarrow> m = n"
  by (metis dec_of_nat_value)

lemma dec_of_nat_minus: "dec_of_nat n \<noteq> CHR ''-'' # xs"
  using dec_of_nat_digits [of "CHR ''-''" n] by auto

lemma fmt_d_inj: "fmt_d a = fmt_d b \<Longrightarrow> a = b"
  by (auto simp: fmt_d_def dec_of_nat_minus dec_of_nat_minus [symmetric] eq_commute [of "CHR ''-'' # _"]
      split: if_splits dest!: dec_of_nat_inj)

lemma dedup_key_inj: "dedup_key x a = dedup_key y b \<longleftrightarrow> x = y \<and> a = b"
proof
  assume eq: "dedup_key x a = dedup_key y b"
  have tail: "takeWhile (\<lambda>c. c \<noteq> CHR ''|'') (rev (dedup_key z c)) = rev (fmt_d c)" for z c
    using fmt_d_bar [of c] by (auto simp: dedup_key_def takeWhile_append2 takeWhile_tail)
  have "rev (fmt_d a) = rev (fmt_d b)" using tail [of x a] tail [of y b] eq by simp
  then have "a = b" by (simp add: fmt_d_inj)
  then show "x = y \<and> a = b" using eq by (simp add: dedup_key_def)
qed simp
section \<open>Once per epoch\<close>

text \<open>
  The scan thread and the refine worker share the state under \<open>pub_mu_\<close>.  A step within one epoch
  is one publication, admitted by \<open>P\<close> (its information bits and frequency bin), one capture line,
  a change of the refine queue, or a configuration call; a run interleaves the steps of both threads.
\<close>

inductive js8_step ::
  "(nat \<Rightarrow> string) \<Rightarrow> (string \<Rightarrow> bool) \<Rightarrow> (u8 list \<Rightarrow> int \<Rightarrow> bool) \<Rightarrow> js8 \<Rightarrow> js8 \<Rightarrow> bool"
  for jmap ws_throws P where
  publishes: "P info fo \<Longrightarrow> js8_step jmap ws_throws P s
      (snd (publishCandidateCore jmap ws_throws info llr fo to ts score t status odist s))"
| captures: "js8_step jmap ws_throws P s (js8_capture status llr fo to ts score t spot odist s)"
| queues: "js8_step jmap ws_throws P s (s\<lparr>j_refine_q := q\<rparr>)"
| configures: "js8_step jmap ws_throws P s (js8_setOsdConfig enable order score_floor cap soft_thresh s)"
| refines: "js8_step jmap ws_throws P s (js8_setRefineEnabled enable s)"

text \<open>What a publication says, and what the dedup set and the socket hold after the publications \<open>ps\<close>.\<close>

definition pub_msg :: "(nat \<Rightarrow> string) \<Rightarrow> u8 list \<times> int \<Rightarrow> string \<times> int" where
  "pub_msg jmap p = (fst (decodeJs8Message jmap (fst p)), snd p)"

definition pub_line :: "js8 \<Rightarrow> string \<times> int \<Rightarrow> string \<times> f32" where
  "pub_line s m = (as_c_str (fst m), composite_bin_to_rf_hz (snd m) (j_rfft_size s))"

definition pub_key :: "string \<times> int \<Rightarrow> string" where
  "pub_key m = dedup_key (fst m) (snd m)"

definition pub_ext ::
  "(nat \<Rightarrow> string) \<Rightarrow> (u8 list \<Rightarrow> int \<Rightarrow> bool) \<Rightarrow> (u8 list \<times> int) list \<Rightarrow> js8 \<Rightarrow> js8 \<Rightarrow> bool" where
  "pub_ext jmap P ps s s' \<longleftrightarrow>
     (\<forall>(info, fo)\<in>set ps. P info fo \<and> checkCRC12 info) \<and>
     distinct (List.map (pub_msg jmap) ps) \<and>
     j_seen s' = j_seen s \<union> pub_key ` pub_msg jmap ` set ps \<and> (\<forall>m\<in>pub_msg jmap ` set ps. pub_key m \<notin> j_seen s) \<and>
     List.map (\<lambda>(_, v). (jp_text v, jp_freq v)) (j_zmq_out s') =
       List.map (\<lambda>(_, v). (jp_text v, jp_freq v)) (j_zmq_out s) @
       (if 0 < j_zmq_port s then List.map (pub_line s \<circ> pub_msg jmap) ps else []) \<and>
     j_rfft_size s' = j_rfft_size s \<and> j_zmq_port s' = j_zmq_port s \<and> j_epoch s' = j_epoch s"

lemma pub_key_inj: "inj pub_key"
  by (auto simp: inj_on_def pub_key_def dedup_key_inj)

lemma pub_ext_Nil:
  "j_seen t = j_seen s \<Longrightarrow> j_zmq_out t = j_zmq_out s \<Longrightarrow> j_rfft_size t = j_rfft_size s \<Longrightarrow>
     j_zmq_port t = j_zmq_port s \<Longrightarrow> j_epoch t = j_epoch s \<Longrightarrow> pub_ext jmap P [] s t"
  by (simp add: pub_ext_def)

lemma pub_ext_append:
  assumes 1: "pub_ext jmap P ps s t" and 2: "pub_ext jmap P qs t u"
  shows "pub_ext jmap P (ps @ qs) s u"
proof -
  have "pub_key m \<in> j_seen t" if "m \<in> pub_msg jmap ` set ps" for m
    using 1 that by (auto simp: pub_ext_def)
  then have disj: "pub_msg jmap ` set ps \<inter> pub_msg jmap ` set qs = {}"
    using 2 by (fastforce simp: pub_ext_def)
  have line: "pub_line t = pub_line s" using 1 by (simp add: pub_ext_def pub_line_def fun_eq_iff)
  show ?thesis
    using 1 2 disj unfolding pub_ext_def line by (simp add: ball_Un image_Un Un_assoc)
qed

lemma publishDecoded_ext:
  "j_seen (js8_publishDecoded ws_throws x from f n t d s) = j_seen s \<and>
   j_rfft_size (js8_publishDecoded ws_throws x from f n t d s) = j_rfft_size s \<and>
   j_zmq_port (js8_publishDecoded ws_throws x from f n t d s) = j_zmq_port s \<and>
   j_epoch (js8_publishDecoded ws_throws x from f n t d s) = j_epoch s \<and>
   List.map (\<lambda>(_, v). (jp_text v, jp_freq v)) (j_zmq_out (js8_publishDecoded ws_throws x from f n t d s)) =
     List.map (\<lambda>(_, v). (jp_text v, jp_freq v)) (j_zmq_out s) @ (if 0 < j_zmq_port s then [(x, f)] else [])"
  by (simp add: js8_publishDecoded_def Let_def)

lemma capture_ext:
  "j_seen (js8_capture st llr fo to ts sc t x d s) = j_seen s"
  "j_zmq_out (js8_capture st llr fo to ts sc t x d s) = j_zmq_out s"
  "j_rfft_size (js8_capture st llr fo to ts sc t x d s) = j_rfft_size s"
  "j_zmq_port (js8_capture st llr fo to ts sc t x d s) = j_zmq_port s"
  "j_epoch (js8_capture st llr fo to ts sc t x d s) = j_epoch s"
  by (simp_all add: js8_capture_def)

lemma core_ext:
  assumes P: "P info fo"
  shows "\<exists>ps. pub_ext jmap P ps s
           (snd (publishCandidateCore jmap ws_throws info llr fo to ts score t status odist s))"
proof (cases "\<not> checkCRC12 info \<or> extractMessage12 info = [] \<or> pub_key (pub_msg jmap (info, fo)) \<in> j_seen s")
  case True
  then have "snd (publishCandidateCore jmap ws_throws info llr fo to ts score t status odist s) = s"
    by (auto simp: publishCandidateCore_def Let_def pub_key_def pub_msg_def split: prod.splits)
  then show ?thesis using pub_ext_Nil [of s s] by auto
next
  case False
  obtain x c where dec: "decodeJs8Message jmap info = (x, c)" by fastforce
  have "pub_ext jmap P [(info, fo)] s
      (snd (publishCandidateCore jmap ws_throws info llr fo to ts score t status odist s))"
    using False P dec
    by (simp add: pub_ext_def publishCandidateCore_def Let_def publishDecoded_ext capture_ext pub_key_def
        pub_msg_def pub_line_def)
  then show ?thesis ..
qed

lemma step_ext: "js8_step jmap ws_throws P s s' \<Longrightarrow> \<exists>ps. pub_ext jmap P ps s s'"
proof (induction rule: js8_step.induct)
  case (publishes info fo s)
  then show ?case by (rule core_ext)
qed (rule exI [of _ "[]"], rule pub_ext_Nil;
     simp add: capture_ext js8_setOsdConfig_def js8_setRefineEnabled_def)+

lemma steps_ext: "(js8_step jmap ws_throws P)\<^sup>*\<^sup>* s s' \<Longrightarrow> \<exists>ps. pub_ext jmap P ps s s'"
proof (induction rule: rtranclp_induct)
  case base
  show ?case using pub_ext_Nil [of s s] by auto
next
  case (step t u)
  then show ?case using step_ext pub_ext_append by meson
qed
text \<open>
  C11. Within an epoch, however the scan thread and the refine worker interleave, no message is
  published twice at one frequency bin, and none that the epoch had published before: the new lines on the
  socket are the messages and frequencies of distinct publications, each of which passed the CRC and was
  not in the dedup set.
\<close>

theorem js8_once_per_epoch:
  assumes run: "(js8_step jmap ws_throws P)\<^sup>*\<^sup>* s s'" and port: "0 < j_zmq_port s"
  shows "\<exists>ps. (\<forall>(info, fo)\<in>set ps. P info fo \<and> checkCRC12 info) \<and> distinct (List.map (pub_msg jmap) ps) \<and>
           List.map (\<lambda>(_, v). (jp_text v, jp_freq v)) (j_zmq_out s') =
             List.map (\<lambda>(_, v). (jp_text v, jp_freq v)) (j_zmq_out s) @
             List.map (\<lambda>(x, fo). (as_c_str x, composite_bin_to_rf_hz fo (j_rfft_size s))) (List.map (pub_msg jmap) ps) \<and>
           (\<forall>(x, fo)\<in>pub_msg jmap ` set ps. dedup_key x fo \<notin> j_seen s \<and> dedup_key x fo \<in> j_seen s')"
proof -
  obtain ps where ps: "pub_ext jmap P ps s s'" using steps_ext [OF run] by blast
  have line: "pub_line s = (\<lambda>(x, fo). (as_c_str x, composite_bin_to_rf_hz fo (j_rfft_size s)))"
    by (auto simp: pub_line_def fun_eq_iff)
  have key: "dedup_key x fo = pub_key (x, fo)" for x fo by (simp add: pub_key_def)
  show ?thesis
    using ps port unfolding pub_ext_def line map_map [symmetric] if_P [OF port] key
    by (intro exI [of _ ps]) auto
qed

section \<open>A scan as steps\<close>

text \<open>The publications a candidate of a scan admits: the words of both decoders.\<close>

definition scan_pub :: "u8 list \<Rightarrow> int \<Rightarrow> f32 \<Rightarrow> js8_scan \<Rightarrow> nat \<Rightarrow> u8 list \<Rightarrow> int \<Rightarrow> bool" where
  "scan_pub gen order soft_thresh r n info fo \<longleftrightarrow>
     (\<exists>i<n. fo = fo_of (js_base r) i \<and>
       (js_parity r ! i \<and> info = js8_info r i \<or>
        \<not> js_parity r ! i \<and>
        (\<exists>xhat odist. js8_osd_decode gen (llr_of (js_base r) i) order = Some (xhat, odist) \<and>
           (soft_thresh \<le> 0 \<or> odist \<le> soft_thresh) \<and> info = take 87 (drop 87 xhat))))"

definition same_cfg :: "js8 \<Rightarrow> js8 \<Rightarrow> bool" where
  "same_cfg s t \<longleftrightarrow> j_osd_order t = j_osd_order s \<and> j_osd_soft_thresh t = j_osd_soft_thresh s \<and>
     j_refine_enable t = j_refine_enable s \<and> j_osd_enable t = j_osd_enable s \<and>
     j_osd_max_per_cycle t = j_osd_max_per_cycle s \<and> j_osd_score_floor t = j_osd_score_floor s"

lemma same_cfg_trans: "same_cfg s t \<Longrightarrow> same_cfg t u \<Longrightarrow> same_cfg s u"
  by (simp add: same_cfg_def)

lemma core_cfg:
  "same_cfg s (snd (publishCandidateCore jmap ws_throws info llr fo to ts score t status odist s)) \<and>
   j_refine_q (snd (publishCandidateCore jmap ws_throws info llr fo to ts score t status odist s)) = j_refine_q s"
  by (simp add: same_cfg_def publishCandidateCore_def js8_publishDecoded_def js8_capture_def Let_def split: prod.split)

lemma publish_step:
  assumes "publishCandidate jmap ws_throws r i info t status odist s = (ok, s')" "P info (fo_of (js_base r) i)"
  shows "js8_step jmap ws_throws P s s' \<and> same_cfg s s' \<and> j_refine_q s' = j_refine_q s"
proof -
  let ?c = "publishCandidateCore jmap ws_throws info (llr_of (js_base r) i) (fo_of (js_base r) i)
    (to_of (js_base r) i) (ts_of (js_base r) i) (score_of (js_base r) i) t status odist s"
  have s': "s' = snd ?c" using assms(1) by (simp add: publishCandidate_def)
  then have "same_cfg s s' \<and> j_refine_q s' = j_refine_q s" using core_cfg [of s] by simp
  then show ?thesis unfolding s' using js8_step.publishes [where P = P, OF assms(2)] by blast
qed

lemma pass1_steps:
  assumes "js8_pass1 jmap ws_throws r t (s, bins) i = (s', bins')" "i < n"
  shows "(js8_step jmap ws_throws (scan_pub gen order th r n))\<^sup>*\<^sup>* s s' \<and> same_cfg s s' \<and> j_refine_q s' = j_refine_q s"
proof (cases "js_parity r ! i")
  case False
  then show ?thesis using assms by (simp add: js8_pass1_def same_cfg_def)
next
  case True
  obtain ok u where p: "publishCandidate jmap ws_throws r i (js8_info r i) t ''pass'' None s = (ok, u)" by fastforce
  have "scan_pub gen order th r n (js8_info r i) (fo_of (js_base r) i)"
    using True assms(2) by (auto simp: scan_pub_def)
  moreover have "u = s'" using assms(1) True p by (simp add: js8_pass1_def)
  ultimately show ?thesis using publish_step [OF p] by blast
qed

lemma pass1_all_steps:
  assumes "foldl (js8_pass1 jmap ws_throws r t) (s, bins) is = (s', bins')" "set is \<subseteq> {..<n}"
  shows "(js8_step jmap ws_throws (scan_pub gen order th r n))\<^sup>*\<^sup>* s s' \<and> same_cfg s s' \<and> j_refine_q s' = j_refine_q s"
  using assms
proof (induction "is" arbitrary: s bins)
  case Nil
  then show ?case by (simp add: same_cfg_def)
next
  case (Cons i "is")
  obtain u b where u: "js8_pass1 jmap ws_throws r t (s, bins) i = (u, b)" by fastforce
  have "i < n" "set is \<subseteq> {..<n}" "foldl (js8_pass1 jmap ws_throws r t) (u, b) is = (s', bins')"
    using Cons.prems u by auto
  then show ?case using pass1_steps [OF u] Cons.IH same_cfg_trans rtranclp_trans by (metis (no_types, lifting))
qed
lemma capture_cfg: "same_cfg s (js8_capture st llr fo to ts sc t x d s) \<and> j_refine_q (js8_capture st llr fo to ts sc t x d s) = j_refine_q s"
  by (simp add: same_cfg_def js8_capture_def)

lemma osd_try_steps:
  assumes "js8_osd_try gen (j_osd_order s) (j_osd_soft_thresh s) (llr_of (js_base r) i)
      (\<lambda>info odist. publishCandidate jmap ws_throws r i info t ''osd'' (Some odist)) s = (ok, odist, s')"
    and i: "i < n" "\<not> js_parity r ! i" and cfg: "j_osd_order s = order" "j_osd_soft_thresh s = th"
  shows "(js8_step jmap ws_throws (scan_pub gen order th r n))\<^sup>*\<^sup>* s s' \<and> same_cfg s s' \<and> j_refine_q s' = j_refine_q s"
proof (cases "\<exists>xhat d. js8_osd_decode gen (llr_of (js_base r) i) order = Some (xhat, d) \<and> (th \<le> 0 \<or> d \<le> th)")
  case False
  then have "s' = s" using assms(1) cfg by (auto simp: js8_osd_try_def split: option.splits if_splits)
  then show ?thesis by (simp add: same_cfg_def)
next
  case True
  then obtain xhat d where x: "js8_osd_decode gen (llr_of (js_base r) i) order = Some (xhat, d)" "th \<le> 0 \<or> d \<le> th"
    by blast
  have "scan_pub gen order th r n (take 87 (drop 87 xhat)) (fo_of (js_base r) i)"
    using x i by (auto simp: scan_pub_def)
  moreover obtain b u where
    p: "publishCandidate jmap ws_throws r i (take 87 (drop 87 xhat)) t ''osd'' (Some d) s = (b, u)" by fastforce
  moreover have "u = s'" using assms(1) x p cfg by (auto simp: js8_osd_try_def)
  ultimately show ?thesis using publish_step [OF p] by blast
qed

lemma enqueue_js8_length: "length q \<le> 32 \<Longrightarrow> length (js8_enqueue j q) \<le> 32"
  by (simp add: js8_enqueue_def kRefineQueueMax_def)

text \<open>
  One candidate of the second pass, with the number of jobs queued so far.
\<close>

lemma pass2_steps:
  assumes res: "js8_pass2 jmap ws_throws gen r t ((s, bins), used) i = ((s', bins'), used')"
    and i: "i < n" "\<not> js_parity r ! i" and cfg: "j_osd_order s = order" "j_osd_soft_thresh s = th"
  shows "(js8_step jmap ws_throws (scan_pub gen order th r n))\<^sup>*\<^sup>* s s' \<and> same_cfg s s' \<and>
         (j_refine_q s' = j_refine_q s \<and> used' = used \<or>
          j_refine_q s' = js8_enqueue (js8_job_of r t i) (j_refine_q s) \<and> used' = used + 1 \<and> used < 2 \<and> j_refine_enable s)"
proof -
  obtain ok d u where tried: "js8_osd_try gen (j_osd_order s) (j_osd_soft_thresh s) (llr_of (js_base r) i)
      (\<lambda>info odist. publishCandidate jmap ws_throws r i info t ''osd'' (Some odist)) s = (ok, d, u)"
    by (metis prod_cases3)
  have u: "(js8_step jmap ws_throws (scan_pub gen order th r n))\<^sup>*\<^sup>* s u" "same_cfg s u" "j_refine_q u = j_refine_q s"
    using osd_try_steps [OF tried i cfg] by auto
  define v where "v = (if fo_of (js_base r) i \<notin> bins
      then js8_capture ''fail'' (llr_of (js_base r) i) (fo_of (js_base r) i) (to_of (js_base r) i)
             (ts_of (js_base r) i) (score_of (js_base r) i) t None (Some d) u else u)"
  have v: "(js8_step jmap ws_throws (scan_pub gen order th r n))\<^sup>*\<^sup>* s v" "same_cfg s v" "j_refine_q v = j_refine_q s"
    using u capture_cfg [of u] same_cfg_trans [OF u(2)]
    by (auto simp: v_def intro: rtranclp.rtrancl_into_rtrancl js8_step.captures)
  have "ok \<and> s' = u \<and> used' = used \<or> s' = v \<and> used' = used \<or>
      s' = v\<lparr>j_refine_q := js8_enqueue (js8_job_of r t i) (j_refine_q v)\<rparr> \<and> used' = used + 1 \<and> used < 2 \<and> j_refine_enable v"
    using res tried by (simp add: js8_pass2_def v_def [symmetric] kRefineMaxPerCycle_def Let_def split: if_splits)
  then consider "s' = u" "used' = used" | "s' = v" "used' = used"
    | "s' = v\<lparr>j_refine_q := js8_enqueue (js8_job_of r t i) (j_refine_q v)\<rparr>" "used' = used + 1" "used < 2" "j_refine_enable v"
    by blast
  then show ?thesis
  proof cases
    case 1
    then show ?thesis using u by blast
  next
    case 2
    then show ?thesis using v by blast
  next
    case 3
    have "(js8_step jmap ws_throws (scan_pub gen order th r n))\<^sup>*\<^sup>* s s'"
      unfolding 3(1) using v(1) js8_step.queues by (rule rtranclp.rtrancl_into_rtrancl)
    moreover have "same_cfg v s'" unfolding 3(1) by (simp add: same_cfg_def)
    then have "same_cfg s s'" by (rule same_cfg_trans [OF v(2)])
    moreover have "j_refine_q s' = js8_enqueue (js8_job_of r t i) (j_refine_q s)" unfolding 3(1) by (simp add: v(3))
    moreover have "j_refine_enable s" using 3(4) v(2) by (simp add: same_cfg_def)
    ultimately show ?thesis using 3(2,3) by blast
  qed
qed

lemma pass2_all_steps:
  assumes "foldl (js8_pass2 jmap ws_throws gen r t) ((s, bins), used) is = ((s', bins'), used')"
    and "\<forall>i\<in>set is. i < n \<and> \<not> js_parity r ! i" "j_osd_order s = order" "j_osd_soft_thresh s = th"
    and "length (j_refine_q s) \<le> 32" "used \<le> 2"
  shows "(js8_step jmap ws_throws (scan_pub gen order th r n))\<^sup>*\<^sup>* s s' \<and> same_cfg s s' \<and> length (j_refine_q s') \<le> 32 \<and>
         used' \<le> 2 \<and> (\<not> j_refine_enable s \<longrightarrow> j_refine_q s' = j_refine_q s)"
  using assms
proof (induction "is" arbitrary: s bins used)
  case Nil
  then show ?case by (simp add: same_cfg_def)
next
  case (Cons i "is")
  obtain u b k where u: "js8_pass2 jmap ws_throws gen r t ((s, bins), used) i = ((u, b), k)" by (metis surj_pair)
  have i: "i < n" "\<not> js_parity r ! i" using Cons.prems(2) by auto
  note st = pass2_steps [OF u i Cons.prems(3,4)]
  have cfg: "same_cfg s u" using st by blast
  have "(js8_step jmap ws_throws (scan_pub gen order th r n))\<^sup>*\<^sup>* u s' \<and> same_cfg u s' \<and> length (j_refine_q s') \<le> 32 \<and>
         used' \<le> 2 \<and> (\<not> j_refine_enable u \<longrightarrow> j_refine_q s' = j_refine_q u)"
  proof (rule Cons.IH)
    show "foldl (js8_pass2 jmap ws_throws gen r t) ((u, b), k) is = ((s', bins'), used')"
      using Cons.prems(1) u by simp
    show "length (j_refine_q u) \<le> 32" using st Cons.prems(5) enqueue_js8_length by auto
    show "k \<le> 2" using st Cons.prems(6) by auto
    show "j_osd_order u = order" "j_osd_soft_thresh u = th" using cfg Cons.prems(3,4) by (auto simp: same_cfg_def)
  qed (use Cons.prems(2) in auto)
  moreover have "\<not> j_refine_enable s \<longrightarrow> j_refine_q u = j_refine_q s \<and> \<not> j_refine_enable u"
    using st by (auto simp: same_cfg_def)
  ultimately show ?case using st same_cfg_trans [OF cfg] by (auto intro: rtranclp_trans)
qed
lemma js8_failures_ok:
  "i \<in> set (js8_failures r fl n) \<Longrightarrow> i < n \<and> \<not> js_parity r ! i"
  by (auto simp: js8_failures_def)

lemma js8_scan_steps:
  assumes C: "orders_ok C" and res: "js8_scan_step jmap ws_throws gen C t r s = Some s'"
    and n: "n = unat (min (sr_count (js_base r)) CONT_CAND_MAX)" and q: "length (j_refine_q s) \<le> 32"
  shows "n = 0 \<and> s' = s \<or>
    (js8_step jmap ws_throws (scan_pub gen (j_osd_order s) (j_osd_soft_thresh s) r n))\<^sup>*\<^sup>* (js8_epoch t s) s' \<and>
    same_cfg s s' \<and> length (j_refine_q s') \<le> 32 \<and>
    (\<not> (j_osd_enable s \<and> j_refine_enable s) \<longrightarrow> j_refine_q s' = j_refine_q s)"
proof (cases "n = 0")
  case True
  then show ?thesis using res n by (simp add: js8_scan_step_def Let_def)
next
  case False
  let ?e = "js8_epoch t s" and ?P = "scan_pub gen (j_osd_order s) (j_osd_soft_thresh s) r n"
  have e: "same_cfg s ?e" "j_refine_q ?e = j_refine_q s" by (simp_all add: same_cfg_def js8_epoch_def Let_def)
  obtain u bins where u: "foldl (js8_pass1 jmap ws_throws r t) (?e, {}) [0..<n] = (u, bins)" by fastforce
  have "(js8_step jmap ws_throws ?P)\<^sup>*\<^sup>* ?e u \<and> same_cfg ?e u \<and> j_refine_q u = j_refine_q ?e"
    by (rule pass1_all_steps [OF u]) auto
  then have pu: "(js8_step jmap ws_throws ?P)\<^sup>*\<^sup>* ?e u" "same_cfg s u" "j_refine_q u = j_refine_q s"
    using e same_cfg_trans by auto
  show ?thesis
  proof (cases "j_osd_enable u")
    case off: False
    then have "s' = u" using res False u n [symmetric] by (simp add: js8_scan_step_def Let_def)
    then show ?thesis using pu q by simp
  next
    case True
    then obtain cands s1 b1 k1 where
      c: "osd_cands C (js_base r) (j_osd_max_per_cycle u) (js8_failures r (j_osd_score_floor u) n) = Some cands"
      and f: "foldl (js8_pass2 jmap ws_throws gen r t) ((u, bins), 0) cands = ((s1, b1), k1)" and s': "s' = s1"
      using res False u n [symmetric] by (auto simp: js8_scan_step_def Let_def split: option.splits) (metis fst_conv surj_pair)
    have "(js8_step jmap ws_throws ?P)\<^sup>*\<^sup>* u s1 \<and> same_cfg u s1 \<and> length (j_refine_q s1) \<le> 32 \<and>
         k1 \<le> 2 \<and> (\<not> j_refine_enable u \<longrightarrow> j_refine_q s1 = j_refine_q u)"
    proof (rule pass2_all_steps [OF f])
      show "\<forall>i\<in>set cands. i < n \<and> \<not> js_parity r ! i" using osd_cands_set [OF C c] js8_failures_ok by blast
    qed (use pu q in \<open>auto simp: same_cfg_def\<close>)
    then show ?thesis using True pu same_cfg_trans [OF pu(2)] unfolding s' by (auto intro: rtranclp_trans simp: same_cfg_def)
  qed
qed

lemma js8_scan_returns:
  assumes "0 \<le> j_osd_max_per_cycle s" shows "js8_scan_step jmap ws_throws gen C t r s \<noteq> None"
proof -
  define n where "n = unat (min (sr_count (js_base r)) CONT_CAND_MAX)"
  have e: "same_cfg s (js8_epoch t s)" by (simp add: same_cfg_def js8_epoch_def Let_def)
  obtain u bins where u: "foldl (js8_pass1 jmap ws_throws r t) (js8_epoch t s, {}) [0..<n] = (u, bins)" by fastforce
  have "same_cfg (js8_epoch t s) u" using pass1_all_steps [OF u, of n] by (auto simp: atLeast0LessThan)
  then have "0 \<le> j_osd_max_per_cycle u" using assms same_cfg_trans [OF e] by (simp add: same_cfg_def)
  then have "osd_cands C (js_base r) (j_osd_max_per_cycle u) (js8_failures r (j_osd_score_floor u) n) \<noteq> None"
    by (simp add: osd_cands_def Let_def)
  then show ?thesis using u by (auto simp: js8_scan_step_def Let_def n_def [symmetric])
qed

lemma refine_round_steps:
  assumes "js8_refine_round jmap ws_throws gen refine s = Some s'"
  shows "(js8_step jmap ws_throws (\<lambda>_ _. True))\<^sup>*\<^sup>* s s'"
proof -
  obtain job q where job: "j_refine_q s = job # q" using assms by (auto simp: js8_refine_round_def split: if_splits list.splits)
  let ?s = "s\<lparr>j_refine_q := q\<rparr>"
  have 1: "(js8_step jmap ws_throws (\<lambda>_ _. True))\<^sup>*\<^sup>* s ?s" by (rule r_into_rtranclp) (rule js8_step.queues)
  have "s' = ?s \<or> js8_step jmap ws_throws (\<lambda>_ _. True) ?s s'"
  proof (cases "refine (jj_fo job) (jj_to job) (jj_snap_start job)")
    case None
    then show ?thesis using assms job by (simp add: js8_refine_round_def split: if_splits)
  next
    case (Some rllr)
    then have "s' = snd (snd (js8_osd_try gen (j_osd_order ?s) (j_osd_soft_thresh ?s) rllr
                    (\<lambda>info odist. publishCandidateCore jmap ws_throws info rllr (jj_fo job) (jj_to job) (jj_ts job)
                       (jj_score job) (jj_unix job) ''refine'' (Some odist)) ?s))"
      using assms job by (simp add: js8_refine_round_def split: if_splits)
    then have "s' = ?s \<or> (\<exists>info odist. s' = snd (publishCandidateCore jmap ws_throws info rllr (jj_fo job) (jj_to job)
        (jj_ts job) (jj_score job) (jj_unix job) ''refine'' (Some odist) ?s))"
      by (auto simp: js8_osd_try_def split: option.splits prod.splits if_splits) (metis snd_conv)+
    then show ?thesis using js8_step.publishes [where P = "\<lambda>_ _. True", OF TrueI] by metis
  qed
  then show ?thesis using 1 by (auto intro: rtranclp.rtrancl_into_rtrancl)
qed

text \<open>
  C15. A scan puts on the socket only messages of its own candidates: the new lines are the messages
  and frequencies of distinct publications, each from a candidate of the scan whose word, from the GPU decoder
  when its parity holds and otherwise from the ordered-statistics decoder within its distance threshold,
  passes the CRC.  The queue of refine jobs stays within its 32 places.
\<close>

theorem js8_scan_provenance:
  assumes C: "orders_ok C" and res: "js8_scan_step jmap ws_throws gen C t r s = Some s'"
    and q: "length (j_refine_q s) \<le> 32"
  shows "(\<exists>ps. (\<forall>(info, fo)\<in>set ps. checkCRC12 info \<and>
             scan_pub gen (j_osd_order s) (j_osd_soft_thresh s) r (unat (min (sr_count (js_base r)) CONT_CAND_MAX)) info fo) \<and>
           distinct (List.map (pub_msg jmap) ps) \<and>
           List.map (\<lambda>(_, v). (jp_text v, jp_freq v)) (j_zmq_out s') =
             List.map (\<lambda>(_, v). (jp_text v, jp_freq v)) (j_zmq_out s) @
             (if 0 < j_zmq_port s
              then List.map (\<lambda>(x, fo). (as_c_str x, composite_bin_to_rf_hz fo (j_rfft_size s))) (List.map (pub_msg jmap) ps) else [])) \<and>
         length (j_refine_q s') \<le> 32"
proof (rule conjI)
  define n where "n = unat (min (sr_count (js_base r)) CONT_CAND_MAX)"
  have line: "(\<lambda>(x, fo). (as_c_str x, composite_bin_to_rf_hz fo (j_rfft_size s))) = pub_line s"
    by (auto simp: pub_line_def fun_eq_iff)
  have e: "j_zmq_out (js8_epoch t s) = j_zmq_out s" "j_rfft_size (js8_epoch t s) = j_rfft_size s"
    "j_zmq_port (js8_epoch t s) = j_zmq_port s" by (simp_all add: js8_epoch_def Let_def)
  have l: "pub_line (js8_epoch t s) = pub_line s" by (simp add: pub_line_def e fun_eq_iff)
  note st = js8_scan_steps [OF C res n_def q]
  then show "length (j_refine_q s') \<le> 32" using q by blast
  show "\<exists>ps. (\<forall>(info, fo)\<in>set ps. checkCRC12 info \<and>
             scan_pub gen (j_osd_order s) (j_osd_soft_thresh s) r (unat (min (sr_count (js_base r)) CONT_CAND_MAX)) info fo) \<and>
           distinct (List.map (pub_msg jmap) ps) \<and>
           List.map (\<lambda>(_, v). (jp_text v, jp_freq v)) (j_zmq_out s') =
             List.map (\<lambda>(_, v). (jp_text v, jp_freq v)) (j_zmq_out s) @
             (if 0 < j_zmq_port s
              then List.map (\<lambda>(x, fo). (as_c_str x, composite_bin_to_rf_hz fo (j_rfft_size s))) (List.map (pub_msg jmap) ps) else [])"
  proof (cases "s' = s")
    case True
    then show ?thesis by (intro exI [of _ "[]"]) simp
  next
    case False
    then obtain ps where "pub_ext jmap (scan_pub gen (j_osd_order s) (j_osd_soft_thresh s) r n) ps (js8_epoch t s) s'"
      using st steps_ext by blast
    then show ?thesis unfolding pub_ext_def line n_def [symmetric] e l map_map by (intro exI [of _ ps]) auto
  qed
qed
definition js8_sample :: js8 where
  "js8_sample = js8_setOsdConfig True 1 10 64 0
     (js8_new False False \<lparr>ds_enabled = False, ds_counts = [], ds_total = 0\<rparr> 6003 (16 / 100) 15 2 4096 ''JS8'' 0)"

theorem js8_once_per_epoch_witness:
  "\<exists>ps. distinct (List.map (pub_msg sample_jmap) ps) \<and>
     List.map (\<lambda>(_, v). (jp_text v, jp_freq v)) (j_zmq_out (snd (publishCandidateCore sample_jmap (\<lambda>_. False)
       sample_frame [] 1119 3 1 30 100 ''pass'' None (snd (publishCandidateCore sample_jmap (\<lambda>_. False)
       sample_frame [] 1119 2 0 31 100 ''pass'' None js8_sample))))) =
     List.map (\<lambda>(x, fo). (as_c_str x, composite_bin_to_rf_hz fo 4096)) (List.map (pub_msg sample_jmap) ps)"
proof -
  let ?f = "\<lambda>to ts sc s. snd (publishCandidateCore sample_jmap (\<lambda>_. False) sample_frame [] 1119 to ts sc 100 ''pass'' None s)"
  have step: "js8_step sample_jmap (\<lambda>_. False) (\<lambda>_ _. True) s (?f to ts sc s)" for to ts sc s
    by (rule js8_step.publishes) simp
  have run: "(js8_step sample_jmap (\<lambda>_. False) (\<lambda>_ _. True))\<^sup>*\<^sup>* js8_sample (?f 3 1 30 (?f 2 0 31 js8_sample))"
    using step [of js8_sample 2 0 31] step [of "?f 2 0 31 js8_sample" 3 1 30]
    by (blast intro: rtranclp.rtrancl_into_rtrancl rtranclp.rtrancl_refl)
  have init: "j_zmq_port js8_sample = 6003" "j_zmq_out js8_sample = []" "j_rfft_size js8_sample = 4096"
    by (simp_all add: js8_sample_def js8_new_def js8_setOsdConfig_def)
  show ?thesis using js8_once_per_epoch [OF run] by (simp only: init) auto
qed

theorem js8_scan_provenance_witness:
  "length (j_refine_q (the (js8_scan_step sample_jmap (\<lambda>_. False) (replicate 15138 0) orders0 100
     \<lparr>js_base = scan0, js_parity = [False], js_xhat = replicate 174 0\<rparr> (js8_setRefineEnabled True js8_sample)))) \<le> 32"
proof -
  let ?s = "js8_setRefineEnabled True js8_sample" and ?r = "\<lparr>js_base = scan0, js_parity = [False], js_xhat = replicate 174 0\<rparr>"
  have q: "length (j_refine_q ?s) \<le> 32" and e: "j_osd_max_per_cycle ?s = 64"
    by (simp_all add: js8_sample_def js8_new_def js8_setOsdConfig_def js8_setRefineEnabled_def)
  have "js8_scan_step sample_jmap (\<lambda>_. False) (replicate 15138 0) orders0 100 ?r ?s \<noteq> None"
    by (rule js8_scan_returns) (simp add: e)
  then show ?thesis using js8_scan_provenance [OF orders0_ok _ q, of sample_jmap "\<lambda>_. False" "replicate 15138 0" 100 ?r] by auto
qed

end
