(* ===== verification/ContScan.thy ===== *)
theory ContScan
  imports Ft8Decode Js8Decode
begin

text \<open>
  The scan pipelines of \<open>gm/cuda/FT8Cuda.cc\<close> and \<open>gm/cuda/JS8Cuda.cc\<close>: a scan thread that launches the
  GPU on every sixth block of the magnitude ring, eight result slots, and a worker thread that waits for the
  GPU and hands each result to the decode callback (\<open>run\<close>, \<open>launchContScan\<close>, \<open>contWorker\<close>;
  \<open>scanLoop\<close>, \<open>workerLoop\<close>).  The two programs differ in what they do when all slots are taken:
  FT8 drops the block, JS8 comes back with a later one.  The threads, the GPU and the writer of
  the ring are a step relation over the shared state; the counters are 64-bit words and wrap.  What
  the GPU computes for a window is the argument \<open>scan\<close>.
\<close>

section \<open>State\<close>

definition CONTINUOUS_SLOTS :: u64 where "CONTINUOUS_SLOTS = 8"
definition cont_stride :: u64 where "cont_stride = 6"

datatype gpu_event = NotReady | EvSuccess | EvError

record 'r cont_slot =
  cs_result :: 'r
  cs_snap :: u64
  cs_event :: gpu_event
  cs_dispatched :: bool

text \<open>Where the scan thread is (with the block index it read), and where the worker is.\<close>

datatype producer = PIdle | PLaunch u64 | PFill u64 | PFlag | PCount

datatype consumer = CIdle | CFlag | CEvent | CClear | CCount | CStopped

text \<open>
  \<open>c_log\<close> is what the worker made of each slot: the window with the result handed over, or nothing when
  the GPU failed, found no candidate or no callback is set.  \<open>c_launched\<close> records the windows launched.
\<close>

record 'r cont =
  c_slots :: "'r cont_slot list"
  c_write :: u64
  c_read :: u64
  c_wi :: u64
  c_last :: u64
  c_active :: bool
  c_prod :: producer
  c_cons :: consumer
  c_ri :: u64
  c_log :: "(u64 \<times> 'r option) list"
  c_launched :: "u64 list"

definition slot_of :: "u64 \<Rightarrow> nat" where
  "slot_of i = unat (i mod CONTINUOUS_SLOTS)"

definition cont_start :: "'r \<Rightarrow> 'r cont" where
  "cont_start r0 =
     \<lparr>c_slots = replicate 8 \<lparr>cs_result = r0, cs_snap = 0, cs_event = EvSuccess, cs_dispatched = False\<rparr>,
      c_write = 0, c_read = 0, c_wi = 0, c_last = 0, c_active = True, c_prod = PIdle, c_cons = CIdle, c_ri = 0,
      c_log = [], c_launched = []\<rparr>"

section \<open>Operations\<close>

text \<open>The trigger of a scan: enough blocks, a new block, and every sixth one.\<close>

definition scan_due :: "u64 \<Rightarrow> u64 \<Rightarrow> u64 \<Rightarrow> bool" where
  "scan_due cap wi last_scan \<longleftrightarrow> cap \<le> wi \<and> last_scan < wi \<and> wi mod cont_stride = 0"

definition slots_full :: "'r cont \<Rightarrow> bool" where
  "slots_full s \<longleftrightarrow> CONTINUOUS_SLOTS \<le> c_write s - c_read s"

definition fill_slot :: "u64 \<Rightarrow> u64 \<Rightarrow> 'r cont \<Rightarrow> 'r cont" where
  "fill_slot cap wi s =
     s\<lparr>c_slots := (c_slots s)[slot_of (c_write s) :=
          (c_slots s ! slot_of (c_write s))\<lparr>cs_snap := wi - cap, cs_event := NotReady\<rparr>],
       c_launched := c_launched s @ [wi - cap]\<rparr>"

definition set_dispatched :: "u64 \<Rightarrow> bool \<Rightarrow> 'r cont \<Rightarrow> 'r cont" where
  "set_dispatched i b s =
     s\<lparr>c_slots := (c_slots s)[slot_of i := (c_slots s ! slot_of i)\<lparr>cs_dispatched := b\<rparr>]\<rparr>"

text \<open>\<open>hand\<close>: the count clamped to the capacity of the arrays, and nothing without candidates.\<close>

definition ft8_hand :: "scan_result \<Rightarrow> scan_result option" where
  "ft8_hand r = (let n = min (sr_count r) CONT_CAND_MAX in if 0 < n then Some (r\<lparr>sr_count := n\<rparr>) else None)"

definition JS8_GPU_CAND_MAX :: u32 where "JS8_GPU_CAND_MAX = 50000"

definition js8_hand :: "js8_scan \<Rightarrow> js8_scan option" where
  "js8_hand r = (let n = min (sr_count (js_base r)) JS8_GPU_CAND_MAX
                 in if 0 < n then Some (r\<lparr>js_base := (js_base r)\<lparr>sr_count := n\<rparr>\<rparr>) else None)"

text \<open>\<open>drops\<close> holds for FT8, whose scan thread has marked the block as scanned before it finds no slot.\<close>

inductive scan_step ::
  "bool \<Rightarrow> u64 \<Rightarrow> (u64 \<Rightarrow> 'r) \<Rightarrow> ('r \<Rightarrow> 'r option) \<Rightarrow> 'r cont \<Rightarrow> 'r cont \<Rightarrow> bool"
  for drops cap scan hand where
  r_write: "scan_step drops cap scan hand s (s\<lparr>c_wi := wi\<rparr>)"
| r_stop: "scan_step drops cap scan hand s (s\<lparr>c_active := False\<rparr>)"
| p_due: "c_prod s = PIdle \<Longrightarrow> c_active s \<Longrightarrow> scan_due cap (c_wi s) (c_last s) \<Longrightarrow>
    scan_step drops cap scan hand s
      (s\<lparr>c_prod := PLaunch (c_wi s), c_last := (if drops then c_wi s else c_last s)\<rparr>)"
| p_full: "c_prod s = PLaunch wi \<Longrightarrow> slots_full s \<Longrightarrow> scan_step drops cap scan hand s (s\<lparr>c_prod := PIdle\<rparr>)"
| p_room: "c_prod s = PLaunch wi \<Longrightarrow> \<not> slots_full s \<Longrightarrow>
    scan_step drops cap scan hand s (s\<lparr>c_prod := PFill wi, c_last := wi\<rparr>)"
| p_fill: "c_prod s = PFill wi \<Longrightarrow> scan_step drops cap scan hand s ((fill_slot cap wi s)\<lparr>c_prod := PFlag\<rparr>)"
| p_flag: "c_prod s = PFlag \<Longrightarrow>
    scan_step drops cap scan hand s ((set_dispatched (c_write s) True s)\<lparr>c_prod := PCount\<rparr>)"
| p_count: "c_prod s = PCount \<Longrightarrow>
    scan_step drops cap scan hand s (s\<lparr>c_write := c_write s + 1, c_prod := PIdle\<rparr>)"
| g_done: "i < length (c_slots s) \<Longrightarrow> cs_event (c_slots s ! i) = NotReady \<Longrightarrow>
    scan_step drops cap scan hand s
      (s\<lparr>c_slots := (c_slots s)[i := (c_slots s ! i)\<lparr>cs_result := scan (cs_snap (c_slots s ! i)), cs_event := EvSuccess\<rparr>]\<rparr>)"
| g_fail: "i < length (c_slots s) \<Longrightarrow> cs_event (c_slots s ! i) = NotReady \<Longrightarrow>
    scan_step drops cap scan hand s (s\<lparr>c_slots := (c_slots s)[i := (c_slots s ! i)\<lparr>cs_event := EvError\<rparr>]\<rparr>)"
| c_exit: "c_cons s = CIdle \<Longrightarrow> \<not> c_active s \<Longrightarrow> scan_step drops cap scan hand s (s\<lparr>c_cons := CStopped\<rparr>)"
| c_next: "c_cons s = CIdle \<Longrightarrow> c_active s \<Longrightarrow> c_ri s \<noteq> c_write s \<Longrightarrow>
    scan_step drops cap scan hand s (s\<lparr>c_cons := CFlag\<rparr>)"
| c_flag: "c_cons s = CFlag \<Longrightarrow> cs_dispatched (c_slots s ! slot_of (c_ri s)) \<Longrightarrow>
    scan_step drops cap scan hand s (s\<lparr>c_cons := CEvent\<rparr>)"
| c_hand: "c_cons s = CEvent \<Longrightarrow> sl = c_slots s ! slot_of (c_ri s) \<Longrightarrow> cs_event sl \<noteq> NotReady \<Longrightarrow>
    scan_step drops cap scan hand s
      (s\<lparr>c_cons := CClear,
         c_log := c_log s @ [(cs_snap sl, if cs_event sl = EvSuccess then hand (cs_result sl) else None)]\<rparr>)"
| c_clear: "c_cons s = CClear \<Longrightarrow>
    scan_step drops cap scan hand s ((set_dispatched (c_ri s) False s)\<lparr>c_cons := CCount\<rparr>)"
| c_count: "c_cons s = CCount \<Longrightarrow>
    scan_step drops cap scan hand s (s\<lparr>c_ri := c_ri s + 1, c_read := c_ri s + 1, c_cons := CIdle\<rparr>)"

text \<open>The two programs.\<close>

definition ft8_pipeline_step :: "u64 \<Rightarrow> (u64 \<Rightarrow> scan_result) \<Rightarrow> scan_result cont \<Rightarrow> scan_result cont \<Rightarrow> bool" where
  "ft8_pipeline_step cap scan = scan_step True cap scan ft8_hand"

definition js8_pipeline_step :: "u64 \<Rightarrow> (u64 \<Rightarrow> js8_scan) \<Rightarrow> js8_scan cont \<Rightarrow> js8_scan cont \<Rightarrow> bool" where
  "js8_pipeline_step cap scan = scan_step False cap scan js8_hand"

section \<open>Counters and slots\<close>

lemma slot_of_nat: "slot_of (word_of_nat i) = i mod 8"
  by (simp add: slot_of_def CONTINUOUS_SLOTS_def unat_mod unat_of_nat mod_mod_cancel)

lemma slot_inj: "r \<le> i \<Longrightarrow> i < r + 8 \<Longrightarrow> r \<le> j \<Longrightarrow> j < r + 8 \<Longrightarrow> i mod 8 = j mod (8 :: nat) \<Longrightarrow> i = j"
proof (induction i j rule: linorder_wlog)
  case (le i j)
  then have "8 dvd j - i" by (metis mod_eq_dvd_iff_nat)
  moreover have "j - i < 8" using le by linarith
  ultimately have "j - i = 0" by (metis gr0I nat_dvd_not_less)
  then show ?case using le by linarith
qed simp

lemma lag_word: "r \<le> w \<Longrightarrow> w \<le> r + 8 \<Longrightarrow> unat (word_of_nat w - word_of_nat r :: u64) = w - r"
proof -
  assume a: "r \<le> w" "w \<le> r + 8"
  have "unat (word_of_nat (w - r) :: u64) = w - r" using a by (simp only: unat_of_nat) simp
  then show ?thesis using a(1) by (simp only: of_nat_diff)
qed

lemma full_iff:
  assumes "c_write s = word_of_nat w" "c_read s = word_of_nat r" "r \<le> w" "w \<le> r + 8"
  shows "slots_full s \<longleftrightarrow> w = r + 8"
proof -
  have "slots_full s \<longleftrightarrow> 8 \<le> w - r"
    using lag_word [OF assms(3,4)] by (simp add: slots_full_def CONTINUOUS_SLOTS_def word_le_nat_alt assms(1,2))
  then show ?thesis using assms(3,4) by linarith
qed

lemma ctr_neq: "r \<le> w \<Longrightarrow> w \<le> r + 8 \<Longrightarrow> (word_of_nat r :: u64) \<noteq> word_of_nat w \<longleftrightarrow> r < w"
  using lag_word [of r w] by (cases "r = w") auto

text \<open>
  \<open>r\<close> slots given back and \<open>w\<close> counted: the slots between are the launched windows the worker has
  yet to finish, each in its own place.
\<close>

fun ahead_p :: "producer \<Rightarrow> nat" where
  "ahead_p PFlag = 1" | "ahead_p PCount = 1" | "ahead_p _ = 0"

fun ahead_c :: "consumer \<Rightarrow> nat" where
  "ahead_c CClear = 1" | "ahead_c CCount = 1" | "ahead_c _ = 0"

fun holds_p :: "producer \<Rightarrow> bool" where
  "holds_p (PFill wi) = True" | "holds_p PFlag = True" | "holds_p PCount = True" | "holds_p _ = False"

fun holds_c :: "consumer \<Rightarrow> bool" where
  "holds_c CIdle = False" | "holds_c CStopped = False" | "holds_c _ = True"

lemma no_two_places [simp]: "\<not> (c = CCount \<and> c = CIdle)" "\<not> (p = PCount \<and> p = PIdle)"
  by auto

definition inv_ctr :: "nat \<Rightarrow> nat \<Rightarrow> 'r cont \<Rightarrow> bool" where
  "inv_ctr r w s \<longleftrightarrow> length (c_slots s) = 8 \<and> c_write s = word_of_nat w \<and> c_read s = word_of_nat r \<and> c_ri s = c_read s \<and>
     r \<le> w \<and> w \<le> r + 8 \<and> length (c_launched s) = w + ahead_p (c_prod s) \<and>
     length (c_log s) = r + ahead_c (c_cons s) \<and>
     (holds_p (c_prod s) \<longrightarrow> w < r + 8) \<and>
     (holds_c (c_cons s) \<longrightarrow> r < w)"

definition inv_slots :: "(u64 \<Rightarrow> 'r) \<Rightarrow> nat \<Rightarrow> 'r cont \<Rightarrow> bool" where
  "inv_slots scan r s \<longleftrightarrow>
     (\<forall>i. r \<le> i \<and> i < length (c_launched s) \<longrightarrow>
        cs_snap (c_slots s ! (i mod 8)) = c_launched s ! i \<and>
        (cs_event (c_slots s ! (i mod 8)) = EvSuccess \<longrightarrow> cs_result (c_slots s ! (i mod 8)) = scan (c_launched s ! i)))"

definition inv_flags :: "nat \<Rightarrow> nat \<Rightarrow> 'r cont \<Rightarrow> bool" where
  "inv_flags r w s \<longleftrightarrow>
     (\<forall>i. r \<le> i \<and> i < w + of_bool (c_prod s = PCount) \<and> \<not> (i = r \<and> c_cons s = CCount) \<longrightarrow>
        cs_dispatched (c_slots s ! (i mod 8)))"

definition inv_log :: "(u64 \<Rightarrow> 'r) \<Rightarrow> ('r \<Rightarrow> 'r option) \<Rightarrow> 'r cont \<Rightarrow> bool" where
  "inv_log scan hand s \<longleftrightarrow> length (c_log s) \<le> length (c_launched s) \<and>
     (\<forall>k<length (c_log s). fst (c_log s ! k) = c_launched s ! k \<and>
        (snd (c_log s ! k) = None \<or> snd (c_log s ! k) = hand (scan (c_launched s ! k))))"

definition inv_order :: "u64 \<Rightarrow> 'r cont \<Rightarrow> bool" where
  "inv_order cap s \<longleftrightarrow> sorted_wrt (<) (c_launched s) \<and> (\<forall>x\<in>set (c_launched s). cap \<le> c_last s \<and> x \<le> c_last s - cap) \<and>
     (\<forall>wi. c_prod s = PFill wi \<longrightarrow> c_last s = wi) \<and>
     (\<forall>wi. c_prod s = PLaunch wi \<or> c_prod s = PFill wi \<longrightarrow> cap \<le> wi \<and> (\<forall>x\<in>set (c_launched s). x < wi - cap))"

lemma minus_mono: "cap \<le> a \<Longrightarrow> a < b \<Longrightarrow> a - cap < b - (cap :: u64)"
  by (simp add: word_less_nat_alt word_le_nat_alt unat_sub)

lemma ctr_step:
  "scan_step drops cap scan hand s s' \<Longrightarrow> inv_ctr r w s \<Longrightarrow>
     inv_ctr (r + of_bool (c_cons s = CCount \<and> c_cons s' = CIdle)) (w + of_bool (c_prod s = PCount \<and> c_prod s' = PIdle)) s'"
proof (induction rule: scan_step.induct)
  case (p_room s wi)
  then show ?case using full_iff [of s w r] by (simp add: inv_ctr_def)
next
  case (c_next s)
  then show ?case using ctr_neq [of r w] by (simp add: inv_ctr_def)
next
  case (p_count s)
  then show ?case by (simp add: inv_ctr_def)
next
  case (c_count s)
  then show ?case by (simp add: inv_ctr_def)
qed (simp_all add: inv_ctr_def fill_slot_def set_dispatched_def)

lemma order_step: "scan_step drops cap scan hand s s' \<Longrightarrow> inv_order cap s \<Longrightarrow> inv_order cap s'"
proof (induction rule: scan_step.induct)
  case (p_due s)
  then have le: "cap \<le> c_wi s" "c_last s < c_wi s" by (auto simp: scan_due_def)
  have lt: "x < c_wi s - cap" if "x \<in> set (c_launched s)" for x
    using that p_due.prems minus_mono [OF _ le(2), of cap] by (auto simp: inv_order_def)
  then have "x \<le> c_wi s - cap" if "x \<in> set (c_launched s)" for x using that order_less_imp_le by blast
  then show ?case using p_due le lt by (auto simp: inv_order_def)
next
  case (p_fill s wi)
  then show ?case by (auto simp: inv_order_def fill_slot_def sorted_wrt_append)
next
  case (p_room s wi)
  then show ?case by (auto simp: inv_order_def intro: order_less_imp_le)
qed (auto simp: inv_order_def set_dispatched_def)
lemma inv_slotsD:
  "inv_slots scan r s \<Longrightarrow> r \<le> i \<Longrightarrow> i < length (c_launched s) \<Longrightarrow>
     cs_snap (c_slots s ! (i mod 8)) = c_launched s ! i \<and>
     (cs_event (c_slots s ! (i mod 8)) = EvSuccess \<longrightarrow> cs_result (c_slots s ! (i mod 8)) = scan (c_launched s ! i))"
  by (simp add: inv_slots_def)

text \<open>A change of one slot that keeps the window and the meaning of its result keeps the invariant.\<close>

lemma inv_slots_update:
  assumes "inv_slots scan r s" "length (c_slots s) = 8" "c_launched t = c_launched s" "c_slots t = (c_slots s)[j := sl]"
    "cs_snap sl = cs_snap (c_slots s ! j)"
    "cs_event sl = EvSuccess \<Longrightarrow> cs_result sl = scan (cs_snap (c_slots s ! j)) \<or>
       cs_event (c_slots s ! j) = EvSuccess \<and> cs_result sl = cs_result (c_slots s ! j)"
  shows "inv_slots scan r t"
  unfolding inv_slots_def assms(3,4)
proof (intro allI impI, elim conjE)
  fix i assume i: "r \<le> i" "i < length (c_launched s)"
  show "cs_snap ((c_slots s)[j := sl] ! (i mod 8)) = c_launched s ! i \<and>
      (cs_event ((c_slots s)[j := sl] ! (i mod 8)) = EvSuccess \<longrightarrow>
       cs_result ((c_slots s)[j := sl] ! (i mod 8)) = scan (c_launched s ! i))"
    using inv_slotsD [OF assms(1) i] assms(2,5,6) by (cases "j = i mod 8") (auto simp: nth_list_update)
qed

lemma slots_step:
  assumes step: "scan_step drops cap scan hand s s'" and ctr: "inv_ctr r w s" and inv: "inv_slots scan r s"
  shows "inv_slots scan (r + of_bool (c_cons s = CCount \<and> c_cons s' = CIdle)) s'"
proof -
  have len: "length (c_slots s) = 8" using ctr by (simp add: inv_ctr_def)
  have "inv_slots scan r s'" using step inv len ctr
  proof (induction rule: scan_step.induct)
    case (p_fill s wi)
    have w: "c_write s = word_of_nat w" "length (c_launched s) = w" "w < r + 8" "length (c_slots s) = 8"
      using p_fill by (auto simp: inv_ctr_def)
    show ?case unfolding inv_slots_def
    proof (intro allI impI, elim conjE)
      fix i assume i: "r \<le> i" "i < length (c_launched ((fill_slot cap wi s)\<lparr>c_prod := PFlag\<rparr>))"
      show "cs_snap (c_slots ((fill_slot cap wi s)\<lparr>c_prod := PFlag\<rparr>) ! (i mod 8)) = c_launched ((fill_slot cap wi s)\<lparr>c_prod := PFlag\<rparr>) ! i \<and>
        (cs_event (c_slots ((fill_slot cap wi s)\<lparr>c_prod := PFlag\<rparr>) ! (i mod 8)) = EvSuccess \<longrightarrow>
         cs_result (c_slots ((fill_slot cap wi s)\<lparr>c_prod := PFlag\<rparr>) ! (i mod 8)) = scan (c_launched ((fill_slot cap wi s)\<lparr>c_prod := PFlag\<rparr>) ! i))"
      proof (cases "i = w")
        case True
        then show ?thesis using w by (simp add: fill_slot_def slot_of_nat nth_append)
      next
        case False
        then have "i < w" "i mod 8 \<noteq> w mod 8" using i w slot_inj [of r i w] by (auto simp: fill_slot_def)
        then show ?thesis using inv_slotsD [OF p_fill.prems(1) i(1)] w by (simp add: fill_slot_def slot_of_nat nth_append)
      qed
    qed
  next
    case (p_flag s)
    show ?case
      by (rule inv_slots_update [where j = "slot_of (c_write s)" and
          sl = "(c_slots s ! slot_of (c_write s))\<lparr>cs_dispatched := True\<rparr>", OF p_flag(2,3)]) (auto simp: set_dispatched_def)
  next
    case (g_done i s)
    show ?case
      by (rule inv_slots_update [where j = i and sl = "(c_slots s ! i)\<lparr>cs_result := scan (cs_snap (c_slots s ! i)),
          cs_event := EvSuccess\<rparr>", OF g_done(3,4)]) auto
  next
    case (g_fail i s)
    show ?case
      by (rule inv_slots_update [where j = i and sl = "(c_slots s ! i)\<lparr>cs_event := EvError\<rparr>", OF g_fail(3,4)]) auto
  next
    case (c_clear s)
    show ?case
      by (rule inv_slots_update [where j = "slot_of (c_ri s)" and
          sl = "(c_slots s ! slot_of (c_ri s))\<lparr>cs_dispatched := False\<rparr>", OF c_clear(2,3)]) (auto simp: set_dispatched_def)
  qed (simp_all add: inv_slots_def)
  then show ?thesis by (simp add: inv_slots_def)
qed

lemma flags_step:
  assumes step: "scan_step drops cap scan hand s s'" and ctr: "inv_ctr r w s" and inv: "inv_flags r w s"
  shows "inv_flags (r + of_bool (c_cons s = CCount \<and> c_cons s' = CIdle))
           (w + of_bool (c_prod s = PCount \<and> c_prod s' = PIdle)) s'"
  using step ctr inv
proof (induction rule: scan_step.induct)
  case (p_fill s wi)
  then have "cs_dispatched ((c_slots s)[slot_of (c_write s) := (c_slots s ! slot_of (c_write s))\<lparr>cs_snap := wi - cap, cs_event := NotReady\<rparr>] ! k) =
      cs_dispatched (c_slots s ! k)" if "k < 8" for k
    using that by (cases "k = slot_of (c_write s)") (auto simp: inv_ctr_def)
  then show ?case using p_fill by (simp add: inv_flags_def fill_slot_def)
next
  case (p_flag s)
  have w: "c_write s = word_of_nat w" "length (c_slots s) = 8" using p_flag by (auto simp: inv_ctr_def)
  show ?case using p_flag(1,3) w by (auto simp: inv_flags_def set_dispatched_def slot_of_nat nth_list_update less_Suc_eq)
next
  case (p_count s)
  then show ?case by (simp add: inv_flags_def)
next
  case (g_done i s)
  then have "cs_dispatched ((c_slots s)[i := (c_slots s ! i)\<lparr>cs_result := scan (cs_snap (c_slots s ! i)), cs_event := EvSuccess\<rparr>] ! k) =
      cs_dispatched (c_slots s ! k)" for k
    by (cases "k = i") auto
  then show ?case using g_done by (simp add: inv_flags_def)
next
  case (g_fail i s)
  then have "cs_dispatched ((c_slots s)[i := (c_slots s ! i)\<lparr>cs_event := EvError\<rparr>] ! k) = cs_dispatched (c_slots s ! k)" for k
    by (cases "k = i") auto
  then show ?case using g_fail by (simp add: inv_flags_def)
next
  case (c_clear s)
  have r: "c_ri s = word_of_nat r" "w \<le> r + 8" "length (c_slots s) = 8" and p: "c_prod s = PCount \<Longrightarrow> w < r + 8"
    using c_clear by (auto simp: inv_ctr_def)
  have eq: "i = r" if "r \<le> i" "i < w + of_bool (c_prod s = PCount)" "r mod 8 = i mod 8" for i
    using that slot_inj [of r i r] r(2) p by (cases "c_prod s = PCount") auto
  have "inv_flags r w ((set_dispatched (c_ri s) False s)\<lparr>c_cons := CCount\<rparr>)" unfolding inv_flags_def
  proof (intro allI impI, elim conjE)
    fix i
    assume i: "r \<le> i" "i < w + of_bool (c_prod ((set_dispatched (c_ri s) False s)\<lparr>c_cons := CCount\<rparr>) = PCount)"
      "\<not> (i = r \<and> c_cons ((set_dispatched (c_ri s) False s)\<lparr>c_cons := CCount\<rparr>) = CCount)"
    then have "r mod 8 \<noteq> i mod 8" using eq [of i] by (auto simp: set_dispatched_def)
    then show "cs_dispatched (c_slots ((set_dispatched (c_ri s) False s)\<lparr>c_cons := CCount\<rparr>) ! (i mod 8))"
      using c_clear(1,3) r i by (auto simp: inv_flags_def set_dispatched_def slot_of_nat)
  qed
  then show ?case by (simp add: set_dispatched_def)
next
  case (c_count s)
  then show ?case by (simp add: inv_flags_def)
qed (auto simp: inv_flags_def)

lemma log_step:
  assumes step: "scan_step drops cap scan hand s s'" and ctr: "inv_ctr r w s" and sl: "inv_slots scan r s"
    and inv: "inv_log scan hand s"
  shows "inv_log scan hand s'"
  using step ctr sl inv
proof (induction rule: scan_step.induct)
  case (p_fill s wi)
  then show ?case by (auto simp: inv_log_def fill_slot_def nth_append)
next
  case (c_hand s sl)
  have r: "c_ri s = word_of_nat r" "length (c_log s) = r" "r < length (c_launched s)"
    using c_hand by (auto simp: inv_ctr_def)
  have "cs_snap sl = c_launched s ! r \<and> (cs_event sl = EvSuccess \<longrightarrow> cs_result sl = scan (c_launched s ! r))"
    using inv_slotsD [OF c_hand.prems(2) order_refl r(3)] c_hand.hyps(2) r(1) by (simp add: slot_of_nat)
  then show ?case using c_hand.prems(3) r(2,3) by (auto simp: inv_log_def nth_append less_Suc_eq)
qed (simp_all add: inv_log_def set_dispatched_def)
section \<open>What every run keeps\<close>

definition cont_inv :: "u64 \<Rightarrow> (u64 \<Rightarrow> 'r) \<Rightarrow> ('r \<Rightarrow> 'r option) \<Rightarrow> nat \<Rightarrow> nat \<Rightarrow> 'r cont \<Rightarrow> bool" where
  "cont_inv cap scan hand r w s \<longleftrightarrow>
     inv_ctr r w s \<and> inv_slots scan r s \<and> inv_flags r w s \<and> inv_log scan hand s \<and> inv_order cap s"

lemma cont_inv_start: "cont_inv cap scan hand 0 0 (cont_start r0)"
  by (simp add: cont_inv_def inv_ctr_def inv_slots_def inv_flags_def inv_log_def inv_order_def cont_start_def)

lemma cont_inv_step:
  assumes step: "scan_step drops cap scan hand s s'" and inv: "cont_inv cap scan hand r w s"
  shows "\<exists>r w. cont_inv cap scan hand r w s'"
proof -
  have i: "inv_ctr r w s" "inv_slots scan r s" "inv_flags r w s" "inv_log scan hand s" "inv_order cap s"
    using inv by (auto simp: cont_inv_def)
  show ?thesis
    unfolding cont_inv_def
    using ctr_step [OF step i(1)] slots_step [OF step i(1,2)] flags_step [OF step i(1,3)]
      log_step [OF step i(1,2,4)] order_step [OF step i(5)] by (intro exI conjI)
qed

lemma cont_inv_run:
  assumes "(scan_step drops cap scan hand)\<^sup>*\<^sup>* (cont_start r0) s"
  shows "\<exists>r w. cont_inv cap scan hand r w s"
  using assms
proof (induction rule: rtranclp_induct)
  case base
  show ?case by (intro exI) (rule cont_inv_start)
next
  case (step t u)
  then obtain r w where "cont_inv cap scan hand r w t" by blast
  then show ?case by (rule cont_inv_step [OF step.hyps(2)])
qed

text \<open>
  C13. The worker sees the launched windows in the order of their launch, each once, and no window is launched
  twice: in every reachable state the log is a prefix of the launched windows, which increase, and what
  was handed over for a window is what the GPU computed for that window.
\<close>

theorem scans_in_order:
  assumes run: "(scan_step drops cap scan hand)\<^sup>*\<^sup>* (cont_start r0) s"
  shows "sorted_wrt (<) (c_launched s) \<and>
         List.map fst (c_log s) = take (length (c_log s)) (c_launched s) \<and> length (c_launched s) \<le> length (c_log s) + 8 \<and>
         (\<forall>(snap, res)\<in>set (c_log s). res = None \<or> res = hand (scan snap))"
proof -
  obtain r w where "cont_inv cap scan hand r w s" using cont_inv_run [OF run] by blast
  then have inv: "inv_ctr r w s" "inv_log scan hand s" "inv_order cap s" by (auto simp: cont_inv_def)
  have p: "ahead_p (c_prod s) = 0 \<or> ahead_p (c_prod s) = 1 \<and> holds_p (c_prod s)" by (cases "c_prod s") simp_all
  have "List.map fst (c_log s) = take (length (c_log s)) (c_launched s)"
    using inv(2) by (intro nth_equalityI) (auto simp: inv_log_def)
  moreover have "length (c_launched s) \<le> length (c_log s) + 8" using inv(1) p by (auto simp: inv_ctr_def)
  moreover have "res = None \<or> res = hand (scan snap)" if "(snap, res) \<in> set (c_log s)" for snap res
    using that inv(2) by (metis fst_conv in_set_conv_nth inv_log_def snd_conv)
  ultimately show ?thesis using inv(3) by (auto simp: inv_order_def)
qed

text \<open>
  C26. The two threads never hold one slot at a time: while the scan thread fills or flags a slot, the worker holds
  another.  The worker finds its slot's \<open>dispatched\<close> flag set whenever it looks, so that wait never
  spins, and no more than eight scans are outstanding.
\<close>

theorem slots_exclusive:
  assumes run: "(scan_step drops cap scan hand)\<^sup>*\<^sup>* (cont_start r0) s"
  shows "(holds_p (c_prod s) \<and> holds_c (c_cons s) \<longrightarrow> slot_of (c_write s) \<noteq> slot_of (c_ri s)) \<and>
         (c_cons s = CFlag \<longrightarrow> cs_dispatched (c_slots s ! slot_of (c_ri s))) \<and>
         c_write s - c_read s \<le> CONTINUOUS_SLOTS"
proof -
  obtain r w where "cont_inv cap scan hand r w s" using cont_inv_run [OF run] by blast
  then have inv: "inv_ctr r w s" "inv_flags r w s" by (auto simp: cont_inv_def)
  then have ctr: "c_write s = word_of_nat w" "c_ri s = word_of_nat r" "c_read s = word_of_nat r" "r \<le> w" "w \<le> r + 8"
    by (auto simp: inv_ctr_def)
  have "slot_of (c_write s) \<noteq> slot_of (c_ri s)" if "holds_p (c_prod s)" "holds_c (c_cons s)"
  proof -
    have "r < w" "w < r + 8" using that inv(1) by (auto simp: inv_ctr_def)
    then have "w mod 8 \<noteq> r mod 8" using slot_inj [of r w r] by auto
    then show ?thesis by (simp add: ctr slot_of_nat)
  qed
  moreover have "cs_dispatched (c_slots s ! slot_of (c_ri s))" if "c_cons s = CFlag"
  proof -
    have "r < w" using that inv(1) by (simp add: inv_ctr_def)
    then show ?thesis using that inv(2) by (simp add: inv_flags_def ctr(2) slot_of_nat)
  qed
  moreover have "c_write s - c_read s \<le> CONTINUOUS_SLOTS"
    using lag_word [OF ctr(4,5)] ctr(4,5) by (simp add: ctr(1,3) CONTINUOUS_SLOTS_def word_le_nat_alt del: of_nat_diff)
  ultimately show ?thesis by blast
qed
text \<open>A run of eight steps: a window launched and counted, and the worker at its slot.\<close>

definition one_launched :: "nat cont" where
  "one_launched = (cont_start 0)\<lparr>c_slots := (replicate 8 \<lparr>cs_result = 0, cs_snap = 0, cs_event = EvSuccess, cs_dispatched = False\<rparr>)
       [0 := \<lparr>cs_result = 0, cs_snap = 6, cs_event = NotReady, cs_dispatched = True\<rparr>],
     c_write := 1, c_wi := 12, c_last := 12, c_launched := [6]\<rparr>"

lemma one_launched_run: "(scan_step True 6 f Some)\<^sup>*\<^sup>* (cont_start (0 :: nat)) one_launched"
proof -
  let ?R = "scan_step True 6 f Some"
  define s1 where "s1 = (cont_start (0 :: nat))\<lparr>c_wi := 12\<rparr>"
  define s2 where "s2 = s1\<lparr>c_prod := PLaunch (c_wi s1), c_last := (if True then c_wi s1 else c_last s1)\<rparr>"
  define s3 where "s3 = s2\<lparr>c_prod := PFill 12, c_last := 12\<rparr>"
  define s4 where "s4 = (fill_slot 6 12 s3)\<lparr>c_prod := PFlag\<rparr>"
  define s5 where "s5 = (set_dispatched (c_write s4) True s4)\<lparr>c_prod := PCount\<rparr>"
  define s6 where "s6 = s5\<lparr>c_write := c_write s5 + 1, c_prod := PIdle\<rparr>"
  have "?R (cont_start 0) s1" unfolding s1_def by (rule scan_step.r_write)
  moreover have "?R s1 s2" unfolding s2_def
    by (rule scan_step.p_due) (simp_all add: s1_def cont_start_def scan_due_def cont_stride_def)
  moreover have "?R s2 s3" unfolding s3_def
    by (rule scan_step.p_room) (simp_all add: s2_def s1_def cont_start_def slots_full_def CONTINUOUS_SLOTS_def)
  moreover have "?R s3 s4" unfolding s4_def by (rule scan_step.p_fill) (simp add: s3_def)
  moreover have "?R s4 s5" unfolding s5_def by (rule scan_step.p_flag) (simp add: s4_def)
  moreover have "?R s5 s6" unfolding s6_def by (rule scan_step.p_count) (simp add: s5_def)
  moreover have "s6 = one_launched"
    by (simp add: s6_def s5_def s4_def s3_def s2_def s1_def fill_slot_def set_dispatched_def cont_start_def one_launched_def
        slot_of_def numeral_eq_Suc)
  ultimately show ?thesis by (meson rtranclp.rtrancl_into_rtrancl rtranclp.rtrancl_refl)
qed

lemma one_launched_next: "scan_step True 6 f Some one_launched (one_launched\<lparr>c_cons := CFlag\<rparr>)"
  by (rule scan_step.c_next) (simp_all add: one_launched_def cont_start_def)

theorem scans_in_order_witness: "List.map fst (c_log one_launched) = take (length (c_log one_launched)) [6]"
  using scans_in_order [OF one_launched_run] by (simp add: one_launched_def cont_start_def)

theorem slots_exclusive_witness: "cs_dispatched (c_slots one_launched ! slot_of 0)"
  using slots_exclusive [OF rtranclp.rtrancl_into_rtrancl [OF one_launched_run one_launched_next]]
  by (simp add: one_launched_def cont_start_def)

section \<open>The worker catches up\<close>

text \<open>The steps of the worker and of the GPU, as far as they change anything.\<close>

definition drain_step ::
  "bool \<Rightarrow> u64 \<Rightarrow> (u64 \<Rightarrow> 'r) \<Rightarrow> ('r \<Rightarrow> 'r option) \<Rightarrow> 'r cont \<Rightarrow> 'r cont \<Rightarrow> bool" where
  "drain_step drops cap scan hand s s' \<longleftrightarrow> scan_step drops cap scan hand s s' \<and> s' \<noteq> s \<and>
     c_active s' = c_active s \<and> c_wi s' = c_wi s \<and> c_prod s' = c_prod s"

fun place_c :: "consumer \<Rightarrow> nat" where
  "place_c CFlag = 1" | "place_c CEvent = 2" | "place_c CClear = 3" | "place_c CCount = 4" | "place_c _ = 0"

definition drain_rank :: "'r cont \<Rightarrow> nat" where
  "drain_rank s = 5 * unat (c_write s - c_read s) - place_c (c_cons s) +
     length (filter (\<lambda>sl. cs_event sl = NotReady) (c_slots s))"

lemma length_filter_update:
  "i < length xs \<Longrightarrow> length (filter P (xs[i := y])) =
     length (filter P (take i xs)) + (if P y then 1 else 0) + length (filter P (drop (Suc i) xs))"
  by (simp add: upd_conv_take_nth_drop)

lemma filter_update_fewer:
  "i < length xs \<Longrightarrow> P (xs ! i) \<Longrightarrow> \<not> P y \<Longrightarrow> length (filter P (xs[i := y])) < length (filter P xs)"
  using length_filter_update [of i xs P y] length_filter_update [of i xs P "xs ! i"] by simp

lemma filter_update_same:
  "i < length xs \<Longrightarrow> P y = P (xs ! i) \<Longrightarrow> length (filter P (xs[i := y])) = length (filter P xs)"
  using length_filter_update [of i xs P y] length_filter_update [of i xs P "xs ! i"] by simp
lemma slot_of_less: "slot_of i < 8"
proof -
  have "slot_of i = unat i mod 8" by (simp add: slot_of_def CONTINUOUS_SLOTS_def unat_mod)
  then show ?thesis by simp
qed

lemma drain_rank_bound: "cont_inv cap scan hand r w s \<Longrightarrow> drain_rank s \<le> 48"
  using lag_word [of r w] length_filter_le [of "\<lambda>sl. cs_event sl = NotReady" "c_slots s"]
  by (auto simp: cont_inv_def inv_ctr_def drain_rank_def)

lemma busy_lag: "inv_ctr r w s \<Longrightarrow> holds_c (c_cons s) \<Longrightarrow> 1 \<le> unat (c_write s - c_read s)"
  using lag_word [of r w] by (auto simp: inv_ctr_def)

lemma less_pending:
  "c_write t = c_write s \<Longrightarrow> c_read t = c_read s \<Longrightarrow> place_c (c_cons s) < place_c (c_cons t) \<Longrightarrow>
     1 \<le> unat (c_write s - c_read s) \<Longrightarrow>
     length (filter (\<lambda>sl. cs_event sl = NotReady) (c_slots t)) = length (filter (\<lambda>sl. cs_event sl = NotReady) (c_slots s)) \<Longrightarrow>
     drain_rank t < drain_rank s"
proof -
  assume a: "c_write t = c_write s" "c_read t = c_read s" "place_c (c_cons s) < place_c (c_cons t)"
    "1 \<le> unat (c_write s - c_read s)"
    "length (filter (\<lambda>sl. cs_event sl = NotReady) (c_slots t)) = length (filter (\<lambda>sl. cs_event sl = NotReady) (c_slots s))"
  have "place_c (c_cons t) \<le> 4" by (cases "c_cons t") simp_all
  then show ?thesis unfolding drain_rank_def a(1,2,5) using a(3,4) by linarith
qed

lemma drain_less:
  assumes step: "drain_step drops cap scan hand s s'" and inv: "cont_inv cap scan hand r w s" and act: "c_active s"
  shows "drain_rank s' < drain_rank s"
proof -
  have st: "scan_step drops cap scan hand s s'" and same: "s' \<noteq> s" "c_active s' = c_active s" "c_wi s' = c_wi s"
    "c_prod s' = c_prod s" using step by (auto simp: drain_step_def)
  have ctr: "inv_ctr r w s" using inv by (simp add: cont_inv_def)
  show ?thesis using st same ctr act
  proof (induction rule: scan_step.induct)
    case (r_write s wi)
    then show ?case by simp
  next
    case (r_stop s)
    then show ?case by simp
  next
    case (g_done i s)
    then show ?case using filter_update_fewer [of i "c_slots s" "\<lambda>sl. cs_event sl = NotReady"] by (simp add: drain_rank_def)
  next
    case (g_fail i s)
    then show ?case using filter_update_fewer [of i "c_slots s" "\<lambda>sl. cs_event sl = NotReady"] by (simp add: drain_rank_def)
  next
    case (c_next s)
    have c: "c_ri s = word_of_nat r" "c_read s = c_ri s" "c_write s = word_of_nat w" "r \<le> w" "w \<le> r + 8"
      using c_next.prems(5) by (simp_all add: inv_ctr_def)
    then have "r < w" using ctr_neq [OF c(4,5)] c_next.hyps(3) by metis
    then have "1 \<le> unat (c_write s - c_read s)" using lag_word [OF c(4,5)] c(1-3) by simp
    then show ?case by (intro less_pending) (simp_all add: c_next.hyps(1))
  next
    case (c_flag s)
    show ?case by (rule less_pending) (use busy_lag [OF c_flag.prems(5)] c_flag.hyps(1) in simp_all)
  next
    case (c_hand s sl)
    show ?case by (rule less_pending) (use busy_lag [OF c_hand.prems(5)] c_hand.hyps(1) in simp_all)
  next
    case (c_clear s)
    have "slot_of (c_ri s) < length (c_slots s)" using c_clear.prems(5) slot_of_less by (simp add: inv_ctr_def)
    then have "length (filter (\<lambda>sl. cs_event sl = NotReady) (c_slots ((set_dispatched (c_ri s) False s)\<lparr>c_cons := CCount\<rparr>))) =
        length (filter (\<lambda>sl. cs_event sl = NotReady) (c_slots s))"
      by (simp add: set_dispatched_def filter_update_same)
    then show ?case
      by (intro less_pending) (use busy_lag [OF c_clear.prems(5)] c_clear.hyps(1) in \<open>simp_all add: set_dispatched_def\<close>)
  next
    case (c_count s)
    have c: "c_ri s = word_of_nat r" "c_read s = c_ri s" "c_write s = word_of_nat w" "r < w" "w \<le> r + 8"
      using c_count.prems(5) c_count.hyps(1) by (simp_all add: inv_ctr_def)
    have "(c_ri s + 1) = word_of_nat (Suc r)" by (simp add: c(1))
    then have "unat (c_write s - (c_ri s + 1)) = w - Suc r" using lag_word [of "Suc r" w] c(3-5) by (simp add: add.commute)
    moreover have "unat (c_write s - c_ri s) = w - r" using lag_word [of r w] c(1,3-5) by simp
    ultimately show ?case using c(2,4) c_count.hyps(1) by (simp add: drain_rank_def)
  qed (simp_all add: fill_slot_def set_dispatched_def)
qed

lemma drain_stuck:
  assumes inv: "cont_inv cap scan hand r w s" and act: "c_active s" and run: "c_cons s \<noteq> CStopped"
    and stuck: "\<not> (\<exists>u. drain_step drops cap scan hand s u)"
  shows "c_read s = c_write s \<and> c_cons s = CIdle"
proof -
  have no: "c_active u \<noteq> c_active s \<or> c_wi u \<noteq> c_wi s \<or> c_prod u \<noteq> c_prod s \<or> c_cons u = c_cons s \<and> c_slots u = c_slots s"
    if "scan_step drops cap scan hand s u" for u
    using stuck that by (auto simp: drain_step_def)
  have ctr: "inv_ctr r w s" and fl: "inv_flags r w s" using inv by (auto simp: cont_inv_def)
  show ?thesis
  proof (cases "c_cons s")
    case CIdle
    then show ?thesis using no [OF scan_step.c_next [OF CIdle act]] ctr
      by (cases "c_ri s = c_write s") (auto simp: inv_ctr_def)
  next
    case CFlag
    then have "cs_dispatched (c_slots s ! slot_of (c_ri s))" using ctr fl by (auto simp: inv_ctr_def inv_flags_def slot_of_nat)
    then show ?thesis using no [OF scan_step.c_flag [OF CFlag]] CFlag by auto
  next
    case CEvent
    show ?thesis
    proof (cases "cs_event (c_slots s ! slot_of (c_ri s)) = NotReady")
      case True
      have "slot_of (c_ri s) < length (c_slots s)" using ctr slot_of_less by (simp add: inv_ctr_def)
      then show ?thesis using no [OF scan_step.g_fail [OF _ True]] True
        by (auto dest!: arg_cong [where f = "\<lambda>l. cs_event (l ! slot_of (c_ri s))"])
    next
      case False
      then show ?thesis using no [OF scan_step.c_hand [OF CEvent refl False]] CEvent by auto
    qed
  next
    case CClear
    then show ?thesis using no [OF scan_step.c_clear [OF CClear]] by (auto simp: set_dispatched_def)
  next
    case CCount
    then show ?thesis using no [OF scan_step.c_count [OF CCount]] by auto
  next
    case CStopped
    then show ?thesis using run by simp
  qed
qed
lemma drain_keeps: "drain_step drops cap scan hand s s' \<Longrightarrow> c_active s \<Longrightarrow> c_cons s \<noteq> CStopped \<Longrightarrow> c_active s' \<and> c_cons s' \<noteq> CStopped"
  by (auto simp: drain_step_def fill_slot_def set_dispatched_def elim: scan_step.cases)

lemma drain_run:
  assumes "(drain_step drops cap scan hand ^^ n) s t" "cont_inv cap scan hand r w s" "c_active s" "c_cons s \<noteq> CStopped"
  shows "\<exists>r w. cont_inv cap scan hand r w t \<and> n + drain_rank t \<le> drain_rank s \<and> c_active t \<and> c_cons t \<noteq> CStopped"
  using assms
proof (induction n arbitrary: t)
  case 0
  then show ?case by auto
next
  case (Suc n)
  then obtain u where u: "(drain_step drops cap scan hand ^^ n) s u" "drain_step drops cap scan hand u t" by auto
  obtain r w where i: "cont_inv cap scan hand r w u" "n + drain_rank u \<le> drain_rank s" "c_active u" "c_cons u \<noteq> CStopped"
    using Suc.IH [OF u(1) Suc.prems(2-4)] by blast
  have st: "scan_step drops cap scan hand u t" using u(2) by (simp add: drain_step_def)
  obtain r' w' where "cont_inv cap scan hand r' w' t" using cont_inv_step [OF st i(1)] by blast
  moreover have "drain_rank t < drain_rank u" by (rule drain_less [OF u(2) i(1,3)])
  ultimately show ?case using i(2) drain_keeps [OF u(2) i(3,4)] by (intro exI [of _ r'] exI [of _ w']) linarith
qed

text \<open>
  The worker catches up: from any state of a running pipeline, the worker and the GPU can take at most 48 steps
  without the scan thread, and when they can take none, every counted slot has been handled: the log
  is then exactly the launched windows, except one the scan thread is still launching.
\<close>

theorem scans_drain:
  assumes run: "(scan_step drops cap scan hand)\<^sup>*\<^sup>* (cont_start r0) s" and act: "c_active s" "c_cons s \<noteq> CStopped"
    and drain: "(drain_step drops cap scan hand ^^ n) s t"
  shows "n \<le> 48 \<and>
         ((\<nexists>u. drain_step drops cap scan hand t u) \<longrightarrow>
            c_read t = c_write t \<and> c_cons t = CIdle \<and>
            List.map fst (c_log t) = take (length (c_launched t) - ahead_p (c_prod t)) (c_launched t))"
proof -
  obtain r w where "cont_inv cap scan hand r w s" using cont_inv_run [OF run] by blast
  then have "n + drain_rank t \<le> 48" and "\<exists>r w. cont_inv cap scan hand r w t \<and> c_active t \<and> c_cons t \<noteq> CStopped"
    using drain_run [OF drain _ act] drain_rank_bound by fastforce+
  then obtain r w where n: "n \<le> 48" and t: "cont_inv cap scan hand r w t" "c_active t" "c_cons t \<noteq> CStopped" by auto
  have "List.map fst (c_log t) = take (length (c_launched t) - ahead_p (c_prod t)) (c_launched t)"
    if "c_read t = c_write t" "c_cons t = CIdle"
  proof -
    have i: "inv_ctr r w t" "inv_log scan hand t" using t(1) by (auto simp: cont_inv_def)
    have "r = w" using i(1) that ctr_neq [of r w] by (auto simp: inv_ctr_def)
    then have "length (c_log t) = length (c_launched t) - ahead_p (c_prod t)" using i(1) that(2) by (simp add: inv_ctr_def)
    then show ?thesis using i(2) by (intro nth_equalityI) (auto simp: inv_log_def)
  qed
  then show ?thesis using n drain_stuck [OF t] by blast
qed

theorem scans_drain_witness: "(1 :: nat) \<le> 48 \<and> c_read one_launched \<noteq> c_write one_launched"
proof -
  let ?f = "\<lambda>_ :: u64. 0 :: nat"
  have "drain_step True 6 ?f Some one_launched (one_launched\<lparr>c_cons := CFlag\<rparr>)"
    using one_launched_next by (simp add: drain_step_def) (simp add: one_launched_def cont_start_def)
  then have "(drain_step True 6 ?f Some ^^ 1) one_launched (one_launched\<lparr>c_cons := CFlag\<rparr>)" by (simp only: relpowp_1)
  from scans_drain [OF one_launched_run _ _ this] show ?thesis by (simp add: one_launched_def cont_start_def)
qed

end
