(* ===== verification/GpuScan.thy ===== *)
theory GpuScan
  imports FloatOrder "HOL-Library.Multiset" "HOL-Library.Signed_Division"
begin

text \<open>
  The candidate scans and the soft-symbol kernels of the GPU: \<open>gm/cuda/FT8ScanCuda.cu\<close>,
  \<open>JS8ScanCuda.cu\<close>, \<open>JS8FastScanCuda.cu\<close>, \<open>FT8SoftCuda.cu\<close>, \<open>JS8SoftCuda.cu\<close>.  A thread of the scan kernel
  scores one frequency offset of one (time, frequency) sub-step; the threads of a block first load the
  21 windows of the sync symbols into shared memory together; a thread that accepts appends its
  candidate at the place an atomic counter gives it, so candidates stand in the order the threads ran.
  The three scan kernels are one text but for the table of sync tones, which is an argument.
  \<open>expf\<close> and \<open>logf\<close> of the soft symbols are arguments too.
\<close>

section \<open>Geometry\<close>

record scan_geom =
  g_snap_start :: nat
  g_ring_size :: nat
  g_num_bins :: nat
  g_num_blocks :: nat
  g_time_osr :: nat
  g_freq_osr :: nat

record scan_par = scan_geom +
  g_min_score :: f32
  g_legacy :: bool

definition BLOCK_SZ :: nat where "BLOCK_SZ = 256"
definition WINDOW :: nat where "WINDOW = BLOCK_SZ + 8"
definition SMEM_TOTAL :: nat where "SMEM_TOTAL = 21 * WINDOW"

definition kCostas_ft8 :: "nat \<Rightarrow> nat \<Rightarrow> nat" where "kCostas_ft8 m k = [3, 1, 4, 0, 6, 5, 2] ! k"
definition kCostas_js8 :: "nat \<Rightarrow> nat \<Rightarrow> nat" where "kCostas_js8 m k = [4, 2, 5, 6, 1, 3, 0] ! k"
definition kCostasModified :: "nat \<Rightarrow> nat \<Rightarrow> nat" where
  "kCostasModified m k = [[0, 6, 2, 3, 5, 4, 1], [1, 5, 0, 2, 3, 6, 4], [2, 5, 0, 6, 4, 1, 3]] ! m ! k"

definition g_block_stride :: "'a scan_geom_scheme \<Rightarrow> nat" where
  "g_block_stride P = g_time_osr P * g_freq_osr P * g_num_bins P"

text \<open>The magnitude of a block of the window, a sub-step and a bin: the address in the ring.\<close>

definition ring_addr :: "'a scan_geom_scheme \<Rightarrow> nat \<Rightarrow> nat \<Rightarrow> nat \<Rightarrow> nat" where
  "ring_addr P sub block_abs bin =
     (g_snap_start P + block_abs) mod g_ring_size P * g_block_stride P + sub * g_num_bins P + bin"

section \<open>The scan kernel\<close>

text \<open>What a thread loads for place \<open>i\<close> of the shared memory of block \<open>(bx, by)\<close>.\<close>

definition smem_load :: "scan_par \<Rightarrow> u8 list \<Rightarrow> nat \<Rightarrow> nat \<Rightarrow> nat \<Rightarrow> u8" where
  "smem_load P mag bx combo i =
     (let slot_idx = i div WINDOW; fo_off = i mod WINDOW; m = slot_idx div 7; k = slot_idx mod 7;
          block_abs = combo mod 30 + 36 * m + k
      in if block_abs < g_num_blocks P
         then (let global_fo = bx * BLOCK_SZ + fo_off
               in if global_fo < g_num_bins P then mag ! ring_addr P (combo div 30) block_abs global_fo else 0)
         else 0)"

text \<open>\<open>for (i = tid; i < n; i += step)\<close>\<close>

function strided :: "nat \<Rightarrow> nat \<Rightarrow> nat \<Rightarrow> nat list" where
  "strided i step n = (if i < n \<and> 0 < step then i # strided (i + step) step n else [])"
  by pat_completeness auto
termination by (relation "measure (\<lambda>(i, step, n). n - i)") auto

declare strided.simps [simp del]

definition coop_load :: "(nat \<Rightarrow> u8) \<Rightarrow> nat \<Rightarrow> u8 list" where
  "coop_load load n =
     foldl (\<lambda>sm tid. foldl (\<lambda>sm i. sm[i := load i]) sm (strided tid BLOCK_SZ n)) (replicate n 0) [0..<BLOCK_SZ]"

definition smem_of :: "scan_par \<Rightarrow> u8 list \<Rightarrow> nat \<Rightarrow> nat \<Rightarrow> u8 list" where
  "smem_of P mag bx combo = coop_load (smem_load P mag bx combo) SMEM_TOTAL"

text \<open>The symbols of group \<open>m\<close> that the loop visits before its \<open>break\<close>.\<close>

definition valid_syms :: "scan_par \<Rightarrow> nat \<Rightarrow> nat \<Rightarrow> nat list" where
  "valid_syms P time_off m = takeWhile (\<lambda>k. time_off + 36 * m + k < g_num_blocks P) [0..<7]"

text \<open>
  Both metrics read a cell: \<open>cell m k j\<close> is tone offset \<open>j\<close> of symbol \<open>k\<close> of group \<open>m\<close>.  The older metric
  compares with the neighbours in tone and time, the newer one with the strongest other tone.
\<close>

definition legacy_symbol ::
  "(nat \<Rightarrow> nat \<Rightarrow> nat) \<Rightarrow> scan_par \<Rightarrow> nat \<Rightarrow> (nat \<Rightarrow> nat \<Rightarrow> nat \<Rightarrow> int) \<Rightarrow> nat \<Rightarrow> int \<times> int \<Rightarrow> nat \<Rightarrow> int \<times> int" where
  "legacy_symbol costas P time_off cell m st k =
     (let sm = costas m k; cur = cell m k sm; block_abs = time_off + 36 * m + k; (score, num_avg) = st;
          (score, num_avg) = (if 0 < sm then (score + (cur - cell m k (sm - 1)), num_avg + 1) else (score, num_avg));
          (score, num_avg) = (if sm < 7 then (score + (cur - cell m k (sm + 1)), num_avg + 1) else (score, num_avg));
          (score, num_avg) = (if 0 < k \<and> 0 < block_abs then (score + (cur - cell m (k - 1) sm), num_avg + 1) else (score, num_avg))
      in if k < 6 \<and> block_abs + 1 < g_num_blocks P then (score + (cur - cell m (k + 1) sm), num_avg + 1) else (score, num_avg))"

definition best_other :: "nat \<Rightarrow> (nat \<Rightarrow> int) \<Rightarrow> int" where
  "best_other sm v = foldl (\<lambda>b j. if j = sm then b else if b < v j then v j else b) 0 [0..<8]"

definition maxlog_symbol ::
  "(nat \<Rightarrow> nat \<Rightarrow> nat) \<Rightarrow> (nat \<Rightarrow> nat \<Rightarrow> nat \<Rightarrow> int) \<Rightarrow> nat \<Rightarrow> int \<times> int \<Rightarrow> nat \<Rightarrow> int \<times> int" where
  "maxlog_symbol costas cell m st k =
     (let sm = costas m k; (score, num_valid) = st
      in (score + (cell m k sm - best_other sm (cell m k)), num_valid + 1))"

definition sum_symbols :: "scan_par \<Rightarrow> nat \<Rightarrow> (nat \<Rightarrow> int \<times> int \<Rightarrow> nat \<Rightarrow> int \<times> int) \<Rightarrow> int \<times> int" where
  "sum_symbols P time_off step =
     foldl (\<lambda>st m. foldl (step m) st (valid_syms P time_off m)) (0, 0) [0..<3]"

text \<open>The score of a thread, when it accepts.\<close>

definition thread_score ::
  "(nat \<Rightarrow> nat \<Rightarrow> nat) \<Rightarrow> scan_par \<Rightarrow> nat \<Rightarrow> (nat \<Rightarrow> nat \<Rightarrow> nat \<Rightarrow> int) \<Rightarrow> int option" where
  "thread_score costas P time_off cell =
     (if g_legacy P then
        (let (score, num_avg) = sum_symbols P time_off (legacy_symbol costas P time_off cell)
         in if num_avg = 0 then None
            else let score = score sdiv num_avg
                 in if score < trunc (g_min_score P) then None else Some (if 32767 < score then 32767 else score))
      else
        (let (score, num_valid) = sum_symbols P time_off (maxlog_symbol costas cell)
         in if num_valid = 0 then None
            else let fscore = fdiv (r32 (of_int score)) (r32 (of_int num_valid))
                 in if fscore < g_min_score P then None
                    else Some (if 32767 \<le> fscore then 32767 else trunc fscore)))"

text \<open>The sub-steps of a candidate are stored in bytes.\<close>

record scan_cand =
  sc_fo :: nat
  sc_to :: nat
  sc_ts :: nat
  sc_fs :: nat
  sc_score :: int

text \<open>A thread: block \<open>bx\<close>, \<open>by\<close> (here \<open>combo\<close>) and place \<open>tx\<close>.  \<open>active\<close> is the optional filter of blocks.\<close>

definition scan_thread ::
  "(nat \<Rightarrow> nat \<Rightarrow> nat) \<Rightarrow> scan_par \<Rightarrow> (nat \<Rightarrow> bool) option \<Rightarrow> u8 list \<Rightarrow> nat \<times> nat \<times> nat \<Rightarrow> scan_cand option" where
  "scan_thread costas P active mag = (\<lambda>(bx, combo, tx).
     if (case active of None \<Rightarrow> False | Some a \<Rightarrow> \<not> a bx) then None
     else
       (let fo = bx * BLOCK_SZ + tx; time_off = combo mod 30; smem = smem_of P mag bx combo
        in if int (g_num_bins P) - 8 < int fo then None
           else map_option (\<lambda>score. \<lparr>sc_fo = fo, sc_to = time_off, sc_ts = combo div 30 div g_freq_osr P mod 256,
                                      sc_fs = combo div 30 mod g_freq_osr P mod 256, sc_score = score\<rparr>)
                  (thread_score costas P time_off (\<lambda>m k j. uint (smem ! ((m * 7 + k) * WINDOW + tx + j))))))"

definition scan_threads :: "scan_par \<Rightarrow> (nat \<times> nat \<times> nat) list" where
  "scan_threads P =
     List.product [0..<(g_num_bins P + BLOCK_SZ - 1) div BLOCK_SZ]
       (List.product [0..<30 * g_time_osr P * g_freq_osr P] [0..<BLOCK_SZ])"

text \<open>The counter and the candidates after the threads ran in the order \<open>ts\<close>.\<close>

definition gpu_scan ::
  "(nat \<Rightarrow> nat \<Rightarrow> nat) \<Rightarrow> scan_par \<Rightarrow> (nat \<Rightarrow> bool) option \<Rightarrow> u8 list \<Rightarrow> nat \<Rightarrow> (nat \<times> nat \<times> nat) list \<Rightarrow> nat \<times> scan_cand list" where
  "gpu_scan costas P active mag max_cands ts =
     foldl (\<lambda>(count, cands) t. case scan_thread costas P active mag t of
              None \<Rightarrow> (count, cands)
            | Some c \<Rightarrow> (count + 1, if count < max_cands then cands @ [c] else cands)) (0, []) ts"
text \<open>The three scan kernels; only that of FT8 takes the filter of blocks.\<close>

definition ft8_gpu_scan where "ft8_gpu_scan = gpu_scan kCostas_ft8"
definition js8_gpu_scan where "js8_gpu_scan P = gpu_scan kCostas_js8 P None"
definition js8_fast_gpu_scan where "js8_fast_gpu_scan P = gpu_scan kCostasModified P None"

section \<open>The shared memory\<close>

lemma set_strided: "0 < step \<Longrightarrow> j \<in> set (strided i step n) \<longleftrightarrow> i \<le> j \<and> j < n \<and> (j - i) mod step = 0"
proof (induction i step n rule: strided.induct)
  case (1 i step n)
  show ?case
  proof (cases "i < n")
    case True
    have "j = i \<or> i + step \<le> j \<and> j < n \<and> (j - (i + step)) mod step = 0 \<longleftrightarrow> i \<le> j \<and> j < n \<and> (j - i) mod step = 0"
    proof (cases "i + step \<le> j")
      case True
      then have "j - i = (j - (i + step)) + step" by linarith
      then have "(j - i) mod step = (j - (i + step)) mod step" by (metis mod_add_self2)
      then show ?thesis using True 1(2) by auto
    next
      case False
      then show ?thesis using \<open>i < n\<close> 1(2) by (cases "i \<le> j") auto
    qed
    then show ?thesis using 1 True by (subst strided.simps) simp
  next
    case False
    then show ?thesis by (subst strided.simps) auto
  qed
qed

text \<open>Writes of the same function at given places.\<close>

lemma foldl_write: "length (foldl (\<lambda>sm i. sm[i := f i]) sm is) = length sm"
  by (induction "is" arbitrary: sm) simp_all

lemma foldl_write_nth:
  "j < length sm \<Longrightarrow> foldl (\<lambda>sm i. sm[i := f i]) sm is ! j = (if j \<in> set is then f j else sm ! j)"
  by (induction "is" arbitrary: sm) (auto simp: nth_list_update)

lemma foldl_foldl_write:
  "foldl (\<lambda>sm t. foldl (\<lambda>sm i. sm[i := f i]) sm (g t)) sm ts = foldl (\<lambda>sm i. sm[i := f i]) sm (concat (List.map g ts))"
  by (induction ts arbitrary: sm) simp_all

text \<open>The cooperative load writes every place.\<close>

lemma coop_load_eq: "coop_load f n = List.map f [0..<n]"
proof (rule nth_equalityI)
  have eq: "coop_load f n = foldl (\<lambda>sm i. sm[i := f i]) (replicate n 0) (concat (List.map (\<lambda>tid. strided tid BLOCK_SZ n) [0..<BLOCK_SZ]))"
    by (simp add: coop_load_def foldl_foldl_write)
  then show len: "length (coop_load f n) = length (List.map f [0..<n])" by (simp add: foldl_write)
  fix j assume "j < length (coop_load f n)"
  then have j: "j < n" using len by simp
  have "j mod BLOCK_SZ < BLOCK_SZ" by (simp add: BLOCK_SZ_def)
  moreover have "j \<in> set (strided (j mod BLOCK_SZ) BLOCK_SZ n)"
    using j by (simp add: set_strided BLOCK_SZ_def minus_mod_eq_mult_div)
  ultimately have "j \<in> set (concat (List.map (\<lambda>tid. strided tid BLOCK_SZ n) [0..<BLOCK_SZ]))" by auto
  then show "coop_load f n ! j = List.map f [0..<n] ! j"
    using j by (simp add: eq foldl_write_nth)
qed

text \<open>What a thread scores: the magnitude of the ring, where the window has the block.\<close>

definition ring_cell :: "scan_par \<Rightarrow> u8 list \<Rightarrow> nat \<Rightarrow> nat \<Rightarrow> nat \<Rightarrow> nat \<Rightarrow> nat \<Rightarrow> nat \<Rightarrow> int" where
  "ring_cell P mag sub time_off fo m k j =
     (if time_off + 36 * m + k < g_num_blocks P then uint (mag ! ring_addr P sub (time_off + 36 * m + k) (fo + j)) else 0)"

lemma smem_cell:
  assumes "m < 3" "k < 7" "j < 8" "tx < BLOCK_SZ" "bx * BLOCK_SZ + tx + 8 \<le> g_num_bins P"
  shows "uint (smem_of P mag bx combo ! ((m * 7 + k) * WINDOW + tx + j)) =
         ring_cell P mag (combo div 30) (combo mod 30) (bx * BLOCK_SZ + tx) m k j"
proof -
  let ?i = "(m * 7 + k) * WINDOW + (tx + j)"
  have w: "tx + j < WINDOW" using assms(3,4) by (simp add: WINDOW_def)
  have "m * 7 + k \<le> 20" using assms(1,2) by linarith
  then have "(m * 7 + k) * WINDOW \<le> 20 * WINDOW" by (rule mult_le_mono1)
  then have i: "?i < SMEM_TOTAL" using w unfolding SMEM_TOTAL_def by linarith
  have d: "?i div WINDOW = m * 7 + k" "?i mod WINDOW = tx + j" using w by simp_all
  have mk: "(m * 7 + k) div 7 = m" "(m * 7 + k) mod 7 = k" using assms(2) by simp_all
  have "smem_of P mag bx combo ! ?i = smem_load P mag bx combo ?i" using i by (simp add: smem_of_def coop_load_eq)
  then show ?thesis
    using assms(3,5) unfolding smem_load_def Let_def d mk ring_cell_def by (simp add: add.assoc)
qed
section \<open>What the scan reports\<close>

text \<open>The score depends only on the cells of tones 0 to 7 of the symbols the window has.\<close>

lemma valid_syms_mem: "k \<in> set (valid_syms P time_off m) \<Longrightarrow> k < 7 \<and> time_off + 36 * m + k < g_num_blocks P"
  by (auto simp: valid_syms_def dest: set_takeWhileD)

lemma best_other_cong: "(\<And>j. j < 8 \<Longrightarrow> v j = w j) \<Longrightarrow> best_other sm v = best_other sm w"
  unfolding best_other_def by (rule foldl_cong) auto

lemma sum_symbols_cong:
  assumes "\<And>m k st. m < 3 \<Longrightarrow> k \<in> set (valid_syms P time_off m) \<Longrightarrow> f m st k = g m st k"
  shows "sum_symbols P time_off f = sum_symbols P time_off g"
  unfolding sum_symbols_def by (rule foldl_cong) (auto intro!: foldl_cong assms)

lemma thread_score_cong:
  assumes eq: "\<And>m k j. m < 3 \<Longrightarrow> k < 7 \<Longrightarrow> j < 8 \<Longrightarrow> cell m k j = cell' m k j"
    and costas: "\<And>m k. m < 3 \<Longrightarrow> k < 7 \<Longrightarrow> costas m k < 8"
  shows "thread_score costas P time_off cell = thread_score costas P time_off cell'"
proof -
  have "legacy_symbol costas P time_off cell m st k = legacy_symbol costas P time_off cell' m st k"
    if "m < 3" "k \<in> set (valid_syms P time_off m)" for m st k
  proof -
    have k: "k < 7" "costas m k < 8" using that valid_syms_mem costas by blast+
    then have "cell m k (costas m k) = cell' m k (costas m k)" "cell m k (costas m k - 1) = cell' m k (costas m k - 1)"
      "costas m k < 7 \<Longrightarrow> cell m k (costas m k + 1) = cell' m k (costas m k + 1)"
      "cell m (k - 1) (costas m k) = cell' m (k - 1) (costas m k)"
      "k < 6 \<Longrightarrow> cell m (k + 1) (costas m k) = cell' m (k + 1) (costas m k)"
      using that(1) by (auto intro!: eq)
    then show ?thesis
      by (cases st; cases "costas m k < 7"; cases "k < 6"; simp add: legacy_symbol_def Let_def del: if_split cong del: if_weak_cong prod.case_cong_weak)
  qed
  moreover have "maxlog_symbol costas cell m st k = maxlog_symbol costas cell' m st k"
    if "m < 3" "k \<in> set (valid_syms P time_off m)" for m st k
  proof -
    have k: "k < 7" "costas m k < 8" using that valid_syms_mem costas by blast+
    then have "best_other (costas m k) (cell m k) = best_other (costas m k) (cell' m k)"
      "cell m k (costas m k) = cell' m k (costas m k)"
      using that(1) eq by (auto intro: best_other_cong)
    then show ?thesis unfolding maxlog_symbol_def Let_def by simp
  qed
  ultimately have "sum_symbols P time_off (legacy_symbol costas P time_off cell) = sum_symbols P time_off (legacy_symbol costas P time_off cell')"
    "sum_symbols P time_off (maxlog_symbol costas cell) = sum_symbols P time_off (maxlog_symbol costas cell')"
    by (auto intro: sum_symbols_cong)
  then show ?thesis unfolding thread_score_def by simp
qed

text \<open>The score at a place, read from the ring, and the candidate of a thread that accepts.\<close>

definition place_score :: "(nat \<Rightarrow> nat \<Rightarrow> nat) \<Rightarrow> scan_par \<Rightarrow> u8 list \<Rightarrow> nat \<Rightarrow> nat \<Rightarrow> nat \<Rightarrow> int option" where
  "place_score costas P mag sub time_off fo = thread_score costas P time_off (ring_cell P mag sub time_off fo)"

definition place_cand :: "(nat \<Rightarrow> nat \<Rightarrow> nat) \<Rightarrow> scan_par \<Rightarrow> u8 list \<Rightarrow> nat \<Rightarrow> nat \<Rightarrow> nat \<Rightarrow> scan_cand option" where
  "place_cand costas P mag sub time_off fo =
     (if g_num_bins P < fo + 8 then None
      else map_option (\<lambda>score. \<lparr>sc_fo = fo, sc_to = time_off, sc_ts = sub div g_freq_osr P mod 256, sc_fs = sub mod g_freq_osr P mod 256,
                                  sc_score = score\<rparr>)
             (place_score costas P mag sub time_off fo))"

lemma scan_thread_eq:
  assumes "tx < BLOCK_SZ" "\<And>m k. m < 3 \<Longrightarrow> k < 7 \<Longrightarrow> costas m k < 8"
  shows "scan_thread costas P None mag (bx, combo, tx) = place_cand costas P mag (combo div 30) (combo mod 30) (bx * BLOCK_SZ + tx)"
proof (cases "bx * BLOCK_SZ + tx + 8 \<le> g_num_bins P")
  case True
  then have "\<not> int (g_num_bins P) - 8 < int (bx * BLOCK_SZ + tx)" "\<not> g_num_bins P < bx * BLOCK_SZ + tx + 8" by linarith+
  moreover have "thread_score costas P (combo mod 30) (\<lambda>m k j. uint (smem_of P mag bx combo ! ((m * 7 + k) * WINDOW + tx + j))) =
      place_score costas P mag (combo div 30) (combo mod 30) (bx * BLOCK_SZ + tx)"
    unfolding place_score_def by (rule thread_score_cong) (use smem_cell [OF _ _ _ assms(1) True] assms(2) in auto)
  ultimately show ?thesis unfolding scan_thread_def place_cand_def Let_def by (simp del: of_nat_add of_nat_mult)
next
  case False
  then have "int (g_num_bins P) - 8 < int (bx * BLOCK_SZ + tx)" "g_num_bins P < bx * BLOCK_SZ + tx + 8" by linarith+
  then show ?thesis unfolding scan_thread_def place_cand_def Let_def by (simp del: of_nat_add of_nat_mult)
qed

lemma gpu_scan_eq:
  "gpu_scan costas P active mag max_cands ts =
     (length (List.map_filter (scan_thread costas P active mag) ts), take max_cands (List.map_filter (scan_thread costas P active mag) ts))"
proof (induction ts rule: rev_induct)
  case Nil
  then show ?case by (simp add: gpu_scan_def map_filter_def)
next
  case (snoc t ts)
  then show ?case
    by (cases "scan_thread costas P active mag t") (auto simp: gpu_scan_def map_filter_def)
qed

text \<open>The places a scan looks at.\<close>

definition scan_places :: "scan_par \<Rightarrow> (nat \<times> nat \<times> nat) set" where
  "scan_places P = {(sub, time_off, fo). sub < g_time_osr P * g_freq_osr P \<and> time_off < 30 \<and> fo + 8 \<le> g_num_bins P}"
lemma set_map_filter_Some: "set (List.map_filter f xs) = {c. \<exists>x\<in>set xs. f x = Some c}"
  by (force simp: map_filter_def)

lemma distinct_map_filter:
  "distinct xs \<Longrightarrow> (\<And>x y c. x \<in> set xs \<Longrightarrow> y \<in> set xs \<Longrightarrow> f x = Some c \<Longrightarrow> f y = Some c \<Longrightarrow> x = y) \<Longrightarrow> distinct (List.map_filter f xs)"
proof (induction xs)
  case (Cons x xs)
  have d: "distinct (List.map_filter f xs)" by (rule Cons.IH) (use Cons.prems in \<open>auto intro: Cons.prems(2)\<close>)
  show ?case
  proof (cases "f x")
    case None
    then show ?thesis using d by (simp add: map_filter_simps)
  next
    case (Some c)
    have "c \<notin> set (List.map_filter f xs)"
    proof
      assume "c \<in> set (List.map_filter f xs)"
      then obtain y where "y \<in> set xs" "f y = Some c" by (auto simp: set_map_filter_Some)
      then show False using Cons.prems Some by (metis distinct.simps(2) list.set_intros)
    qed
    then show ?thesis using d Some by (simp add: map_filter_simps)
  qed
qed (simp add: map_filter_simps)

definition scan_tables :: "(nat \<Rightarrow> nat \<Rightarrow> nat) set" where
  "scan_tables = {kCostas_ft8, kCostas_js8, kCostasModified}"

lemma scan_tables_tone: "costas \<in> scan_tables \<Longrightarrow> m < 3 \<Longrightarrow> k < 7 \<Longrightarrow> costas m k < 8"
proof -
  assume c: "costas \<in> scan_tables" and mk: "m < 3" "k < 7"
  have "m \<in> {0, 1, 2}" "k \<in> {0, 1, 2, 3, 4, 5, 6}" using mk by auto
  then show ?thesis using c
    by (auto simp: scan_tables_def kCostas_ft8_def kCostas_js8_def kCostasModified_def)
qed

definition thread_place :: "nat \<times> nat \<times> nat \<Rightarrow> nat \<times> nat \<times> nat" where
  "thread_place = (\<lambda>(bx, combo, tx). (combo div 30, combo mod 30, bx * BLOCK_SZ + tx))"

lemma thread_place_inj: "inj_on thread_place {(bx, combo, tx). tx < BLOCK_SZ}"
proof (rule inj_onI)
  fix t t' assume t: "t \<in> {(bx, combo, tx). tx < BLOCK_SZ}" "t' \<in> {(bx, combo, tx). tx < BLOCK_SZ}" "thread_place t = thread_place t'"
  obtain bx combo tx bx' combo' tx' where tt: "t = (bx, combo, tx)" "t' = (bx', combo', tx')" by (metis prod_cases3)
  have tx: "tx < BLOCK_SZ" "tx' < BLOCK_SZ" and eq: "thread_place (bx, combo, tx) = thread_place (bx', combo', tx')"
    using t by (simp_all add: tt)
  have "combo = combo'" using eq unfolding thread_place_def by (metis (no_types, lifting) case_prod_conv div_mult_mod_eq prod.inject)
  moreover have "(bx * BLOCK_SZ + tx) div BLOCK_SZ = (bx' * BLOCK_SZ + tx') div BLOCK_SZ"
    "(bx * BLOCK_SZ + tx) mod BLOCK_SZ = (bx' * BLOCK_SZ + tx') mod BLOCK_SZ" using eq by (simp_all add: thread_place_def)
  then have "bx = bx'" "tx = tx'" using tx by (simp_all add: BLOCK_SZ_def)
  ultimately show "t = t'" by (simp add: tt)
qed

lemma scan_threads_places:
  "scan_places P \<subseteq> thread_place ` set (scan_threads P)"
  "p \<in> thread_place ` set (scan_threads P) \<Longrightarrow> p \<notin> scan_places P \<Longrightarrow> g_num_bins P < snd (snd p) + 8"
proof -
  show "scan_places P \<subseteq> thread_place ` set (scan_threads P)"
  proof clarify
    fix sub time_off fo assume "(sub, time_off, fo) \<in> scan_places P"
    then have p: "sub < g_time_osr P * g_freq_osr P" "time_off < 30" "fo + 8 \<le> g_num_bins P" by (auto simp: scan_places_def)
    have "fo div BLOCK_SZ < (g_num_bins P + BLOCK_SZ - 1) div BLOCK_SZ" using p(3) by (simp add: BLOCK_SZ_def)
    moreover have "sub * 30 + time_off < 30 * (g_time_osr P * g_freq_osr P)" using p(1,2) by linarith
    moreover have "fo mod BLOCK_SZ < BLOCK_SZ" by (simp add: BLOCK_SZ_def)
    ultimately have "(fo div BLOCK_SZ, sub * 30 + time_off, fo mod BLOCK_SZ) \<in> set (scan_threads P)"
      by (simp add: scan_threads_def mult.assoc)
    moreover have "thread_place (fo div BLOCK_SZ, sub * 30 + time_off, fo mod BLOCK_SZ) = (sub, time_off, fo)"
      using p(2) by (simp add: thread_place_def)
    ultimately show "(sub, time_off, fo) \<in> thread_place ` set (scan_threads P)" by (metis imageI)
  qed
  assume "p \<in> thread_place ` set (scan_threads P)" "p \<notin> scan_places P"
  then show "g_num_bins P < snd (snd p) + 8"
    by (auto simp: scan_threads_def thread_place_def scan_places_def less_mult_imp_div_less mult.commute mult.left_commute)
qed

lemma scan_threads_tx: "set (scan_threads P) \<subseteq> {(bx, combo, tx). tx < BLOCK_SZ}"
  by (auto simp: scan_threads_def)

lemma scan_threads_distinct: "distinct (scan_threads P)"
  by (simp add: scan_threads_def distinct_product)

text \<open>Within the range of a byte a candidate determines its place.\<close>

lemma sub_bytes:
  assumes "k < g_time_osr P * g_freq_osr P" and "g_time_osr P \<le> 256" "g_freq_osr P \<le> 256"
  shows "k div g_freq_osr P < 256" "k mod g_freq_osr P < 256"
proof -
  have "0 < g_freq_osr P" using assms(1) by (cases "g_freq_osr P") simp_all
  then have "k mod g_freq_osr P < g_freq_osr P" by simp
  then show "k mod g_freq_osr P < 256" using assms(3) by linarith
  have "k div g_freq_osr P < g_time_osr P" by (rule less_mult_imp_div_less [OF assms(1)])
  then show "k div g_freq_osr P < 256" using assms(2) by linarith
qed

lemma place_cand_sub:
  assumes "place_cand costas P mag sub time_off fo = Some c" and "sub < g_time_osr P * g_freq_osr P"
    and "g_time_osr P \<le> 256" "g_freq_osr P \<le> 256"
  shows "sc_fo c = fo" "sc_to c = time_off" "sc_ts c * g_freq_osr P + sc_fs c = sub"
  using assms(1) sub_bytes [OF assms(2-4)] by (auto simp: place_cand_def split: if_splits)

lemma place_cand_inj:
  assumes "place_cand costas P mag sub time_off fo = Some c" and "place_cand costas P mag sub' time_off' fo' = Some c"
    and "sub < g_time_osr P * g_freq_osr P" "sub' < g_time_osr P * g_freq_osr P" and "g_time_osr P \<le> 256" "g_freq_osr P \<le> 256"
  shows "(sub, time_off, fo) = (sub', time_off', fo')"
  using place_cand_sub [OF assms(1,3,5,6)] place_cand_sub [OF assms(2,4,5,6)] by simp

lemma some_image:
  assumes "Some ` X = f ` {p \<in> T. f p \<noteq> None}" shows "X = {c. \<exists>p\<in>T. f p = Some c}"
proof -
  have "c \<in> X \<longleftrightarrow> Some c \<in> Some ` X" for c by blast
  then have "c \<in> X \<longleftrightarrow> (\<exists>p\<in>T. f p = Some c)" for c unfolding assms by (auto simp: image_iff)
  then show ?thesis by blast
qed

lemma same_where: "(A \<Longrightarrow> \<not> B \<Longrightarrow> x = None) \<Longrightarrow> (B \<Longrightarrow> A) \<Longrightarrow> (A \<and> x \<noteq> None) = (B \<and> x \<noteq> None)"
  by blast

lemma map_filter_alt: "List.map Some (List.map_filter f xs) = filter (\<lambda>y. y \<noteq> None) (List.map f xs)"
  by (induction xs) (auto simp: map_filter_simps split: option.splits)

lemma gpu_scan_exact_facts:
  assumes costas: "costas \<in> scan_tables" and order: "mset ts = mset (scan_threads P)"
    and res: "gpu_scan costas P None mag max_cands ts = (total_found, cands)"
  shows "total_found = card {(sub, time_off, fo) \<in> scan_places P. place_score costas P mag sub time_off fo \<noteq> None} \<and>
         length cands = min total_found max_cands \<and>
         (\<exists>ps. distinct ps \<and> set ps \<subseteq> {(sub, time_off, fo) \<in> scan_places P. place_score costas P mag sub time_off fo \<noteq> None} \<and>
            List.map Some cands = List.map (\<lambda>(sub, time_off, fo). place_cand costas P mag sub time_off fo) ps \<and>
            (total_found \<le> max_cands \<longrightarrow>
               set ps = {(sub, time_off, fo) \<in> scan_places P. place_score costas P mag sub time_off fo \<noteq> None})) \<and>
         (g_time_osr P \<le> 256 \<and> g_freq_osr P \<le> 256 \<longrightarrow> distinct cands) \<and>
         set cands \<subseteq> {c. \<exists>(sub, time_off, fo)\<in>scan_places P. place_cand costas P mag sub time_off fo = Some c} \<and>
         (total_found \<le> max_cands \<longrightarrow>
            set cands = {c. \<exists>(sub, time_off, fo)\<in>scan_places P. place_cand costas P mag sub time_off fo = Some c})"
proof -
  let ?f = "\<lambda>(sub, time_off, fo). place_cand costas P mag sub time_off fo"
  let ?all = "List.map_filter (scan_thread costas P None mag) ts" and ?ps = "filter (\<lambda>p. ?f p \<noteq> None) (List.map thread_place ts)"
  let ?A = "{c. \<exists>p\<in>scan_places P. ?f p = Some c}" and ?S = "{p \<in> scan_places P. ?f p \<noteq> None}"
  have set_ts: "set ts = set (scan_threads P)" using order by (metis mset_eq_setD)
  have dist_ts: "distinct ts" using order scan_threads_distinct by (metis mset_eq_imp_distinct_iff)
  have thread: "scan_thread costas P None mag t = ?f (thread_place t)" if "t \<in> set ts" for t
    using that scan_threads_tx [of P] scan_thread_eq [of _ costas P mag] scan_tables_tone [OF costas]
    by (auto simp: set_ts thread_place_def)
  have none: "?f p = None" if "p \<in> thread_place ` set ts" "p \<notin> scan_places P" for p
    using scan_threads_places(2) [of p P] that by (cases p) (simp add: set_ts place_cand_def)
  have found: "p \<in> thread_place ` set ts" if "p \<in> scan_places P" for p
    using scan_threads_places(1) [of P] that unfolding set_ts by (rule subsetD)
  have ps: "distinct ?ps" "set ?ps = ?S"
  proof -
    have "inj_on thread_place (set ts)" using thread_place_inj scan_threads_tx [of P] by (auto simp: set_ts intro: inj_on_subset)
    then show "distinct ?ps" using dist_ts by (simp add: distinct_map)
    have "p \<in> thread_place ` set ts \<and> ?f p \<noteq> None \<longleftrightarrow> p \<in> scan_places P \<and> ?f p \<noteq> None" for p
      by (rule same_where [OF none found])
    then show "set ?ps = ?S" unfolding set_filter set_map by (intro Collect_cong)
  qed
  have all: "List.map Some ?all = List.map ?f ?ps"
  proof -
    have "List.map (scan_thread costas P None mag) ts = List.map ?f (List.map thread_place ts)" using thread by simp
    then show ?thesis by (simp only: map_filter_alt filter_map comp_def)
  qed
  have set_all: "set ?all = ?A"
  proof -
    have "Some ` set ?all = ?f ` ?S" using arg_cong [OF all, of set] unfolding set_map ps(2) .
    then show ?thesis by (rule some_image)
  qed
  have len: "length ?all = card ?S" using arg_cong [OF all, of length] distinct_card [OF ps(1)] unfolding ps(2) by (simp only: length_map)
  have S: "{(sub, time_off, fo) \<in> scan_places P. place_score costas P mag sub time_off fo \<noteq> None} = ?S"
    by (auto simp: place_cand_def scan_places_def)
  have A: "{c. \<exists>(sub, time_off, fo)\<in>scan_places P. place_cand costas P mag sub time_off fo = Some c} = ?A"
    by (simp add: case_prod_unfold)
  have r: "total_found = length ?all" "cands = take max_cands ?all" using res by (simp_all add: gpu_scan_eq)
  have dist: "distinct cands" if b: "g_time_osr P \<le> 256" "g_freq_osr P \<le> 256"
  proof -
    have "inj_on ?f ?S"
    proof (rule inj_onI)
      fix p q assume "p \<in> ?S" "q \<in> ?S" "?f p = ?f q"
      then show "p = q" by (cases p; cases q) (auto simp: scan_places_def dest: place_cand_inj [OF _ _ _ _ b])
    qed
    then have "distinct (List.map Some ?all)" unfolding all distinct_map ps(2) using ps(1) by blast
    then show ?thesis using r(2) by (simp add: distinct_map)
  qed
  show ?thesis unfolding A S
  proof (intro conjI impI exI [of _ "take max_cands ?ps"])
    show "total_found = card ?S" using r(1) len by (simp only:)
    show "length cands = min total_found max_cands" using r by simp
    show "distinct (take max_cands ?ps)" using ps(1) by (rule distinct_take)
    show "set (take max_cands ?ps) \<subseteq> ?S" using set_take_subset [of max_cands ?ps] unfolding ps(2) .
    show "List.map Some cands = List.map ?f (take max_cands ?ps)" unfolding r(2) take_map [symmetric] all ..
    show "set (take max_cands ?ps) = ?S" if "total_found \<le> max_cands"
    proof -
      have "length ?ps \<le> max_cands" using that r(1) arg_cong [OF all, of length] by (simp only: length_map)
      then show ?thesis using ps(2) by (simp only: take_all)
    qed
    show "g_time_osr P \<le> 256 \<and> g_freq_osr P \<le> 256 \<Longrightarrow> distinct cands" using dist by blast
    show "set cands \<subseteq> ?A" using r(2) set_all set_take_subset by metis
    show "total_found \<le> max_cands \<Longrightarrow> set cands = ?A" using r set_all by simp
  qed
qed

text \<open>
  C25. In whatever order the threads of a scan run, its count is the number of places that reach the threshold, and
  its list is the list of the candidates of different such places, each place once: all of them when the count is
  within the capacity, and otherwise as many as the capacity.  Sub-steps are stored in bytes, so that different places
  have different candidates as long as neither oversampling exceeds 256.  The score of a place is the one read
  directly from the ring, so the shared-memory windows change nothing.
\<close>

theorem gpu_scan_exact:
  assumes costas: "costas \<in> scan_tables" and order: "mset ts = mset (scan_threads P)"
    and res: "gpu_scan costas P None mag max_cands ts = (total_found, cands)"
  shows "total_found = card {(sub, time_off, fo) \<in> scan_places P. place_score costas P mag sub time_off fo \<noteq> None} \<and>
         length cands = min total_found max_cands \<and>
         (\<exists>ps. distinct ps \<and> set ps \<subseteq> {(sub, time_off, fo) \<in> scan_places P. place_score costas P mag sub time_off fo \<noteq> None} \<and>
            List.map Some cands = List.map (\<lambda>(sub, time_off, fo). place_cand costas P mag sub time_off fo) ps \<and>
            (total_found \<le> max_cands \<longrightarrow>
               set ps = {(sub, time_off, fo) \<in> scan_places P. place_score costas P mag sub time_off fo \<noteq> None})) \<and>
         (g_time_osr P \<le> 256 \<and> g_freq_osr P \<le> 256 \<longrightarrow> distinct cands) \<and>
         set cands \<subseteq> {c. \<exists>(sub, time_off, fo)\<in>scan_places P. place_cand costas P mag sub time_off fo = Some c} \<and>
         (total_found \<le> max_cands \<longrightarrow>
            set cands = {c. \<exists>(sub, time_off, fo)\<in>scan_places P. place_cand costas P mag sub time_off fo = Some c})"
  using assms by (rule gpu_scan_exact_facts)

section \<open>The soft symbols\<close>

definition kFT8_Gray_map_d :: "nat \<Rightarrow> nat" where "kFT8_Gray_map_d j = [0, 1, 3, 2, 5, 6, 4, 7] ! j"

definition fmaxf :: "f32 \<Rightarrow> f32 \<Rightarrow> f32" where "fmaxf a b = (if a < b then b else a)"

definition lse4d :: "(f32 \<Rightarrow> f32) \<Rightarrow> (f32 \<Rightarrow> f32) \<Rightarrow> f32 \<Rightarrow> f32 \<Rightarrow> f32 \<Rightarrow> f32 \<Rightarrow> f32" where
  "lse4d expf logf a b c d =
     (let m = fmaxf (fmaxf a b) (fmaxf c d)
      in fadd m (logf (fadd (fadd (fadd (expf (fsub a m)) (expf (fsub b m))) (expf (fsub c m))) (expf (fsub d m)))))"

definition soft_level :: "scan_par \<Rightarrow> u8 list \<Rightarrow> nat \<Rightarrow> nat \<Rightarrow> nat \<Rightarrow> f32" where
  "soft_level P mag sub block_abs bin =
     (if bin < g_num_bins P then fmul (r32 (of_int (uint (mag ! ring_addr P sub block_abs bin)))) (1 / 2) else 0)"

text \<open>The three values a thread writes for data symbol \<open>k\<close>; \<open>tones\<close> is the Gray map of FT8, and nothing for JS8.\<close>

definition soft_symbol ::
  "(f32 \<Rightarrow> f32) \<Rightarrow> (f32 \<Rightarrow> f32) \<Rightarrow> (nat \<Rightarrow> nat) \<Rightarrow> scan_par \<Rightarrow> u8 list \<Rightarrow> scan_cand \<Rightarrow> nat \<Rightarrow> f32 list" where
  "soft_symbol expf logf tones P mag c k =
     (let block_abs = sc_to c + (k + (if k < 29 then 7 else 14))
      in if g_num_blocks P \<le> block_abs then [0, 0, 0]
         else
           (let s2 = List.map (\<lambda>j. soft_level P mag (sc_ts c * g_freq_osr P + sc_fs c) block_abs (sc_fo c + tones j)) [0..<8];
                lse = lse4d expf logf
            in [fsub (lse (s2 ! 4) (s2 ! 5) (s2 ! 6) (s2 ! 7)) (lse (s2 ! 0) (s2 ! 1) (s2 ! 2) (s2 ! 3)),
                fsub (lse (s2 ! 2) (s2 ! 3) (s2 ! 6) (s2 ! 7)) (lse (s2 ! 0) (s2 ! 1) (s2 ! 4) (s2 ! 5)),
                fsub (lse (s2 ! 1) (s2 ! 3) (s2 ! 5) (s2 ! 7)) (lse (s2 ! 0) (s2 ! 2) (s2 ! 4) (s2 ! 6))]))"

definition ft8_soft_symbol where "ft8_soft_symbol expf logf = soft_symbol expf logf kFT8_Gray_map_d"
definition js8_soft_symbol where "js8_soft_symbol expf logf = soft_symbol expf logf (\<lambda>j. j)"

definition soft_thread :: "(scan_cand \<Rightarrow> nat \<Rightarrow> f32 list) \<Rightarrow> nat \<Rightarrow> scan_cand list \<Rightarrow> f32 list \<Rightarrow> nat \<Rightarrow> f32 list" where
  "soft_thread symbol n cands log174 flat =
     (let cand_idx = flat div 58; k = flat mod 58; out = cand_idx * 174 + k * 3
      in if n \<le> cand_idx then log174
         else (let v = symbol (cands ! cand_idx) k
               in log174[out := v ! 0, out + 1 := v ! 1, out + 2 := v ! 2]))"

definition soft_threads :: "nat \<Rightarrow> nat list" where
  "soft_threads max_cands = [0..<(max_cands * 58 + 256 - 1) div 256 * 256]"

definition gpu_soft :: "(scan_cand \<Rightarrow> nat \<Rightarrow> f32 list) \<Rightarrow> nat \<Rightarrow> nat \<Rightarrow> scan_cand list \<Rightarrow> f32 list \<Rightarrow> nat list \<Rightarrow> f32 list" where
  "gpu_soft symbol total_found max_cands cands log174 ts =
     foldl (soft_thread symbol (min total_found max_cands) cands) log174 ts"

text \<open>The threads write disjoint places, so their order does not matter.\<close>

definition soft_place :: "(scan_cand \<Rightarrow> nat \<Rightarrow> f32 list) \<Rightarrow> scan_cand list \<Rightarrow> nat \<Rightarrow> f32" where
  "soft_place symbol cands x = symbol (cands ! (x div 174)) (x mod 174 div 3) ! (x mod 3)"

lemma soft_place_at:
  assumes "k < 58" "b < 3" shows "soft_place symbol cands (i * 174 + k * 3 + b) = symbol (cands ! i) k ! b"
proof -
  have a: "k * 3 + b < 174" using assms by linarith
  have "(i * 174 + (k * 3 + b)) div 174 = i" "(i * 174 + (k * 3 + b)) mod 174 = k * 3 + b" using a by simp_all
  moreover have "(k * 3 + b) div 3 = k" using assms(2) by simp
  moreover have "(i * 174 + (k * 3 + b)) mod 3 = b"
  proof -
    have "i * 174 + (k * 3 + b) = b + 3 * (i * 58 + k)" by simp
    then show ?thesis using assms(2) by (metis mod_less mod_mult_self2)
  qed
  ultimately show ?thesis by (simp add: soft_place_def add.assoc)
qed

lemma soft_thread_writes:
  "soft_thread symbol n cands log174 flat =
     foldl (\<lambda>l x. l[x := soft_place symbol cands x]) log174
       (if flat div 58 < n then List.map (\<lambda>b. flat div 58 * 174 + flat mod 58 * 3 + b) [0, 1, 2] else [])"
  using soft_place_at [of "flat mod 58" 0 symbol cands "flat div 58"] soft_place_at [of "flat mod 58" 1 symbol cands "flat div 58"]
    soft_place_at [of "flat mod 58" 2 symbol cands "flat div 58"]
  by (simp add: soft_thread_def Let_def)

lemma whole_blocks: "n \<le> (n + 256 - 1) div 256 * (256 :: nat)"
  using div_mult_mod_eq [of "n + 256 - 1" 256] mod_less_divisor [of 256 "n + 256 - 1"] by linarith

lemma gpu_soft_at:
  assumes "mset ts = mset (soft_threads max_cands)" "max_cands * 174 \<le> length log174"
    and "i < min total_found max_cands" "k < 58" "b < 3"
  shows "gpu_soft symbol total_found max_cands cands log174 ts ! (i * 174 + k * 3 + b) = symbol (cands ! i) k ! b"
proof -
  let ?x = "i * 174 + k * 3 + b" and ?n = "min total_found max_cands"
  let ?w = "\<lambda>flat. if flat div 58 < ?n then List.map (\<lambda>b. flat div 58 * 174 + flat mod 58 * 3 + b) [0, 1, 2] else []"
  have i: "Suc i \<le> max_cands" using assms(3) by simp
  have "Suc i * 174 \<le> max_cands * 174" using i by (rule mult_le_mono1)
  then have x: "?x < length log174" using assms(2,4,5) by simp
  have "Suc i * 58 \<le> max_cands * 58" using i by (rule mult_le_mono1)
  then have f: "i * 58 + k < max_cands * 58" using assms(4) by simp
  have "max_cands * 58 \<le> (max_cands * 58 + 256 - 1) div 256 * 256" by (rule whole_blocks)
  then have "i * 58 + k \<in> set ts" using f mset_eq_setD [OF assms(1)] by (simp add: soft_threads_def)
  moreover have "(i * 58 + k) div 58 = i" "(i * 58 + k) mod 58 = k" using assms(4) by simp_all
  moreover have "b \<in> {0, 1, 2}" using assms(5) by auto
  ultimately have "?x \<in> set (concat (List.map ?w ts))" using assms(3) by force
  moreover have "gpu_soft symbol total_found max_cands cands log174 ts =
      foldl (\<lambda>l x. l[x := soft_place symbol cands x]) log174 (concat (List.map ?w ts))"
    unfolding gpu_soft_def foldl_foldl_write [symmetric] by (rule foldl_cong) (simp_all add: soft_thread_writes)
  ultimately show ?thesis using x by (simp add: foldl_write_nth soft_place_at assms(4,5))
qed
theorem gpu_scan_exact_witness:
  "length (snd (gpu_scan kCostas_js8 \<lparr>g_snap_start = 3, g_ring_size = 5, g_num_bins = 16, g_num_blocks = 4, g_time_osr = 1,
     g_freq_osr = 1, g_min_score = 5, g_legacy = True\<rparr> None (replicate 80 7) 20 (scan_threads \<lparr>g_snap_start = 3,
     g_ring_size = 5, g_num_bins = 16, g_num_blocks = 4, g_time_osr = 1, g_freq_osr = 1, g_min_score = 5, g_legacy = True\<rparr>))) \<le> 20"
proof -
  let ?P = "\<lparr>g_snap_start = 3, g_ring_size = 5, g_num_bins = 16, g_num_blocks = 4, g_time_osr = 1, g_freq_osr = 1,
     g_min_score = 5, g_legacy = True\<rparr>"
  obtain n cs where res: "gpu_scan kCostas_js8 ?P None (replicate 80 7) 20 (scan_threads ?P) = (n, cs)" by fastforce
  have "kCostas_js8 \<in> scan_tables" by (simp add: scan_tables_def)
  from gpu_scan_exact [OF this refl res] have "length cs = min n 20" by blast
  then show ?thesis unfolding res by simp
qed

end
