(* ===== verification/GpuReceive.thy ===== *)
theory GpuReceive
  imports GpuScan FtxReceive
begin

text \<open>
  The receive path over the GPU: a clean transmission in the magnitude ring is found by the scan
  (\<open>FT8ScanCuda.cu\<close>), its soft symbols (\<open>FT8SoftCuda.cu\<close>) have the signs of the code word sent, and
  that word decodes to the payload (\<open>ft8_lib\<close>).
\<close>

section \<open>Log-sum-exp\<close>

text \<open>What is used of \<open>expf\<close> and \<open>logf\<close>.\<close>

definition math_ok :: "(f32 \<Rightarrow> f32) \<Rightarrow> (f32 \<Rightarrow> f32) \<Rightarrow> bool" where
  "math_ok expf logf \<longleftrightarrow> expf 0 = 1 \<and> (\<forall>x\<le>0. 0 \<le> expf x \<and> expf x \<le> 1) \<and> (\<forall>x. 1 \<le> x \<and> x \<le> 4 \<longrightarrow> 0 \<le> logf x \<and> logf x \<le> 3 / 2)"

lemma r32_num [simp]: "r32 1 = 1" "r32 2 = 2" "r32 3 = 3" "r32 4 = 4" "r32 (1 / 2) = 1 / 2" "r32 (- (1 / 2)) = - (1 / 2)"
  using r32_int [of 1] r32_int [of 2] r32_int [of 3] r32_int [of 4] r32_half [of 1] r32_half [of "-1"] by simp_all

lemma fadd_between: "l \<le> a + b \<Longrightarrow> a + b \<le> u \<Longrightarrow> r32 l = l \<Longrightarrow> r32 u = u \<Longrightarrow> l \<le> fadd a b \<and> fadd a b \<le> u"
  unfolding fadd_def using r32_mono [of l "a + b"] r32_mono [of "a + b" u] by simp

text \<open>A half: a magnitude as the kernel reads it.\<close>

definition half_byte :: "f32 \<Rightarrow> bool" where
  "half_byte x \<longleftrightarrow> (\<exists>n. 0 \<le> n \<and> n < 256 \<and> x = of_int n / 2)"

lemma half_byte_r32: "half_byte x \<Longrightarrow> r32 x = x \<and> r32 (x + 3 / 2) = x + 3 / 2"
proof -
  assume "half_byte x"
  then obtain n where n: "0 \<le> n" "n < 256" "x = of_int n / 2" by (auto simp: half_byte_def)
  have e: "x + 3 / 2 = of_int (n + 3) / 2" by (simp add: n(3))
  have "r32 x = x" unfolding n(3) by (rule r32_half) (use n in simp)
  moreover have "r32 (x + 3 / 2) = x + 3 / 2" unfolding e by (rule r32_half) (use n in simp)
  ultimately show ?thesis by blast
qed

lemma fsub_nonpos: "x \<le> m \<Longrightarrow> fsub x m \<le> 0"
  unfolding fsub_def using r32_mono [of "x - m" 0] by simp

lemma fsub_self [simp]: "fsub m m = 0"
  by (simp add: fsub_def)

definition fmax4 :: "f32 \<Rightarrow> f32 \<Rightarrow> f32 \<Rightarrow> f32 \<Rightarrow> f32" where
  "fmax4 a b c d = fmaxf (fmaxf a b) (fmaxf c d)"

lemma fmaxf_max: "fmaxf a b = max a b"
  by (auto simp: fmaxf_def)

lemma lse4d_bounds:
  assumes ok: "math_ok expf logf" and h: "half_byte a" "half_byte b" "half_byte c" "half_byte d"
  shows "fmax4 a b c d \<le> lse4d expf logf a b c d \<and> lse4d expf logf a b c d \<le> fmax4 a b c d + 3 / 2"
proof -
  define m where "m = fmax4 a b c d"
  have m: "a \<le> m" "b \<le> m" "c \<le> m" "d \<le> m" "m = a \<or> m = b \<or> m = c \<or> m = d"
    by (auto simp: m_def fmax4_def fmaxf_def)
  then have hm: "half_byte m" using h by auto
  let ?e = "\<lambda>x. expf (fsub x m)"
  have e: "0 \<le> ?e x \<and> ?e x \<le> 1" if "x \<le> m" for x
    using that ok fsub_nonpos by (simp add: math_ok_def)
  have one: "?e a = 1 \<or> ?e b = 1 \<or> ?e c = 1 \<or> ?e d = 1" using m(5) ok by (auto simp: math_ok_def)
  define s2 where "s2 = fadd (?e a) (?e b)"
  define s3 where "s3 = fadd s2 (?e c)"
  define s4 where "s4 = fadd s3 (?e d)"
  have s2: "0 \<le> s2 \<and> s2 \<le> 2" "?e a = 1 \<or> ?e b = 1 \<Longrightarrow> 1 \<le> s2"
    unfolding s2_def using e [OF m(1)] e [OF m(2)] fadd_between [of 0 "?e a" "?e b" 2] fadd_between [of 1 "?e a" "?e b" 2]
    by auto
  have s3: "0 \<le> s3 \<and> s3 \<le> 3" "1 \<le> s2 \<or> ?e c = 1 \<Longrightarrow> 1 \<le> s3"
    unfolding s3_def using s2(1) e [OF m(3)] fadd_between [of 0 s2 "?e c" 3] fadd_between [of 1 s2 "?e c" 3] by auto
  have s4: "s4 \<le> 4" "1 \<le> s3 \<or> ?e d = 1 \<Longrightarrow> 1 \<le> s4"
    unfolding s4_def using s3(1) e [OF m(4)] fadd_between [of 0 s3 "?e d" 4] fadd_between [of 1 s3 "?e d" 4] by auto
  have "1 \<le> s4" using one s2(2) s3(2) s4(2) by blast
  then have l: "0 \<le> logf s4" "logf s4 \<le> 3 / 2" using s4(1) ok by (auto simp: math_ok_def)
  have "lse4d expf logf a b c d = fadd m (logf s4)"
    by (simp add: lse4d_def Let_def m_def fmax4_def s2_def s3_def s4_def)
  then show ?thesis
    using fadd_between [of m m "logf s4" "m + 3 / 2"] half_byte_r32 [OF hm] l by (simp add: m_def)
qed

lemma llr_sign:
  assumes "math_ok expf logf" "half_byte a" "half_byte b" "half_byte c" "half_byte d"
    "half_byte a'" "half_byte b'" "half_byte c'" "half_byte d'"
  shows "fmax4 a' b' c' d' + 2 \<le> fmax4 a b c d \<Longrightarrow> 0 < fsub (lse4d expf logf a b c d) (lse4d expf logf a' b' c' d')"
    and "fmax4 a b c d + 2 \<le> fmax4 a' b' c' d' \<Longrightarrow> \<not> 0 < fsub (lse4d expf logf a b c d) (lse4d expf logf a' b' c' d')"
proof -
  let ?x = "lse4d expf logf a b c d" and ?y = "lse4d expf logf a' b' c' d'"
  note b = lse4d_bounds [OF assms(1-5)] lse4d_bounds [OF assms(1,6-9)]
  show "0 < fsub ?x ?y" if "fmax4 a' b' c' d' + 2 \<le> fmax4 a b c d"
  proof -
    have "1 / 2 \<le> ?x - ?y" using b that by linarith
    then have "1 / 2 \<le> fsub ?x ?y" unfolding fsub_def using r32_mono [of "1 / 2" "?x - ?y"] by simp
    then show ?thesis by linarith
  qed
  show "\<not> 0 < fsub ?x ?y" if "fmax4 a b c d + 2 \<le> fmax4 a' b' c' d'"
  proof -
    have "?x \<le> ?y" using b that by linarith
    then show ?thesis using fsub_nonpos [of ?x ?y] by linarith
  qed
qed
section \<open>The soft symbols of a clean symbol\<close>

lemma soft_level_half: "bin < g_num_bins P \<Longrightarrow> soft_level P mg sub b bin = of_int (uint (mg ! ring_addr P sub b bin)) / 2"
  and soft_level_half_byte: "half_byte (soft_level P mg sub b bin)"
proof -
  let ?n = "uint (mg ! ring_addr P sub b bin)"
  have n: "0 \<le> ?n" "?n < 256" using uint_bounded [of "mg ! ring_addr P sub b bin"] by simp_all
  have "r32 (of_int ?n) = of_int ?n" by (rule r32_int) (use n in simp)
  then have v: "fmul (r32 (of_int ?n)) (1 / 2) = of_int ?n / 2"
    using r32_half [of ?n] n by (simp add: fmul_def)
  then show "bin < g_num_bins P \<Longrightarrow> soft_level P mg sub b bin = of_int ?n / 2" by (simp add: soft_level_def)
  show "half_byte (soft_level P mg sub b bin)"
    unfolding soft_level_def v half_byte_def using n by (cases "bin < g_num_bins P") (auto intro: exI [of _ 0])
qed

text \<open>The three decisions for the levels \<open>s\<close> of the eight values, when value \<open>v\<close> stands out by 2 (4 steps of a byte).\<close>

lemma symbol_signs:
  assumes ok: "math_ok expf logf" and h: "\<And>j. j < 8 \<Longrightarrow> half_byte (s j)"
    and top: "\<And>j. j < 8 \<Longrightarrow> j \<noteq> (if b2 then 4 else 0) + (if b1 then 2 else 0) + (if b0 then 1 else 0) \<Longrightarrow>
        s j + 2 \<le> s ((if b2 then 4 else 0) + (if b1 then 2 else 0) + (if b0 then 1 else 0 :: nat))"
  shows "0 < fsub (lse4d expf logf (s 4) (s 5) (s 6) (s 7)) (lse4d expf logf (s 0) (s 1) (s 2) (s 3)) \<longleftrightarrow> b2"
    and "0 < fsub (lse4d expf logf (s 2) (s 3) (s 6) (s 7)) (lse4d expf logf (s 0) (s 1) (s 4) (s 5)) \<longleftrightarrow> b1"
    and "0 < fsub (lse4d expf logf (s 1) (s 3) (s 5) (s 7)) (lse4d expf logf (s 0) (s 2) (s 4) (s 6)) \<longleftrightarrow> b0"
proof -
  define v where "v = (if b2 then 4 else 0) + (if b1 then 2 else 0) + (if b0 then 1 else 0 :: nat)"
  have top: "s j + 2 \<le> s v" if "j < 8" "j \<noteq> v" for j using top that unfolding v_def by blast
  have gap: "fmax4 (s i1) (s i2) (s i3) (s i4) + 2 \<le> fmax4 (s j1) (s j2) (s j3) (s j4)"
    if "i1 < 8" "i2 < 8" "i3 < 8" "i4 < 8" "v \<in> {j1, j2, j3, j4}" "v \<notin> {i1, i2, i3, i4}" for i1 i2 i3 i4 j1 j2 j3 j4
  proof -
    have "s i1 + 2 \<le> s v" "s i2 + 2 \<le> s v" "s i3 + 2 \<le> s v" "s i4 + 2 \<le> s v" using top that by blast+
    then have "fmax4 (s i1) (s i2) (s i3) (s i4) + 2 \<le> s v" by (simp add: fmax4_def fmaxf_def)
    also have "s v \<le> fmax4 (s j1) (s j2) (s j3) (s j4)" using that(5) by (auto simp: fmax4_def fmaxf_max)
    finally show ?thesis .
  qed
  note hs = h [of 0] h [of 1] h [of 2] h [of 3] h [of 4] h [of 5] h [of 6] h [of 7]
  have v2: "if b2 then v \<in> {4, 5, 6, 7} \<and> v \<notin> {0, 1, 2, 3} else v \<in> {0, 1, 2, 3} \<and> v \<notin> {4, 5, 6, 7}"
    and v1: "if b1 then v \<in> {2, 3, 6, 7} \<and> v \<notin> {0, 1, 4, 5} else v \<in> {0, 1, 4, 5} \<and> v \<notin> {2, 3, 6, 7}"
    and v0: "if b0 then v \<in> {1, 3, 5, 7} \<and> v \<notin> {0, 2, 4, 6} else v \<in> {0, 2, 4, 6} \<and> v \<notin> {1, 3, 5, 7}"
    by (simp_all add: v_def)
  show "0 < fsub (lse4d expf logf (s 4) (s 5) (s 6) (s 7)) (lse4d expf logf (s 0) (s 1) (s 2) (s 3)) \<longleftrightarrow> b2"
    using v2 gap [of 0 1 2 3 4 5 6 7] gap [of 4 5 6 7 0 1 2 3] llr_sign [OF ok hs(5-8,1-4)] by (cases b2) simp_all
  show "0 < fsub (lse4d expf logf (s 2) (s 3) (s 6) (s 7)) (lse4d expf logf (s 0) (s 1) (s 4) (s 5)) \<longleftrightarrow> b1"
    using v1 gap [of 0 1 4 5 2 3 6 7] gap [of 2 3 6 7 0 1 4 5] llr_sign [OF ok hs(3,4,7,8,1,2,5,6)] by (cases b1) simp_all
  show "0 < fsub (lse4d expf logf (s 1) (s 3) (s 5) (s 7)) (lse4d expf logf (s 0) (s 2) (s 4) (s 6)) \<longleftrightarrow> b0"
    using v0 gap [of 0 2 4 6 1 3 5 7] gap [of 1 3 5 7 0 2 4 6] llr_sign [OF ok hs(2,4,6,8,1,3,5,7)] by (cases b0) simp_all
qed

section \<open>A clean transmission\<close>

definition g_level :: "'a scan_geom_scheme \<Rightarrow> u8 list \<Rightarrow> nat \<Rightarrow> nat \<Rightarrow> nat \<Rightarrow> nat \<Rightarrow> nat \<Rightarrow> int" where
  "g_level P mg sub time_off fo k t = uint (mg ! ring_addr P sub (time_off + k) (fo + t))"

text \<open>The tones stand at a place of the ring, each at least \<open>gap\<close> steps above the other seven.\<close>

definition ring_shows :: "'a scan_geom_scheme \<Rightarrow> u8 list \<Rightarrow> nat \<Rightarrow> nat \<Rightarrow> nat \<Rightarrow> u8 list \<Rightarrow> int \<Rightarrow> bool" where
  "ring_shows P mg sub time_off fo tones gap \<longleftrightarrow>
     (\<forall>k<length tones. time_off + k < g_num_blocks P \<and> unat (tones ! k) < 8 \<and>
        (\<forall>t<8. t \<noteq> unat (tones ! k) \<longrightarrow>
           g_level P mg sub time_off fo k t + gap \<le> g_level P mg sub time_off fo k (unat (tones ! k))))"

lemma gray_map_d: "j < 8 \<Longrightarrow> kFT8_Gray_map_d j = unat (kFT8_Gray_map ! j)" "j < 8 \<Longrightarrow> kFT8_Gray_map_d j < 8"
  "i < 8 \<Longrightarrow> j < 8 \<Longrightarrow> kFT8_Gray_map_d i = kFT8_Gray_map_d j \<longleftrightarrow> i = j"
proof -
  have r: "j \<in> {0, 1, 2, 3, 4, 5, 6, 7}" if "j < 8" for j :: nat using that by auto
  show "j < 8 \<Longrightarrow> kFT8_Gray_map_d j = unat (kFT8_Gray_map ! j)"
    using r [of j] by (auto simp: kFT8_Gray_map_d_def kFT8_Gray_map_def)
  show "j < 8 \<Longrightarrow> kFT8_Gray_map_d j < 8" using r [of j] by (auto simp: kFT8_Gray_map_d_def)
  have "distinct (List.map kFT8_Gray_map_d [0..<8])" by (simp add: kFT8_Gray_map_d_def upt_rec)
  then show "i < 8 \<Longrightarrow> j < 8 \<Longrightarrow> kFT8_Gray_map_d i = kFT8_Gray_map_d j \<longleftrightarrow> i = j"
    by (auto simp: distinct_map inj_on_def)
qed

lemma nth_upt8: "j < 8 \<Longrightarrow> List.map s [0..<8] ! j = s j"
  by simp

lemma soft_symbol_eq:
  assumes "s = (\<lambda>j. soft_level P mg (sc_ts c * g_freq_osr P + sc_fs c) (sc_to c + (k + (if k < 29 then 7 else 14))) (sc_fo c + tones j))"
    and "sc_to c + (k + (if k < 29 then 7 else 14)) < g_num_blocks P"
  shows "soft_symbol expf logf tones P mg c k =
     [fsub (lse4d expf logf (s 4) (s 5) (s 6) (s 7)) (lse4d expf logf (s 0) (s 1) (s 2) (s 3)),
      fsub (lse4d expf logf (s 2) (s 3) (s 6) (s 7)) (lse4d expf logf (s 0) (s 1) (s 4) (s 5)),
      fsub (lse4d expf logf (s 1) (s 3) (s 5) (s 7)) (lse4d expf logf (s 0) (s 2) (s 4) (s 6))]"
  using assms(2) unfolding soft_symbol_def Let_def assms(1) [symmetric]
  by (simp add: nth_upt8 numeral_2_eq_2 del: upt_rec_numeral)

lemma hard_bits3:
  "(0 < a) = x \<Longrightarrow> (0 < b) = y \<Longrightarrow> (0 < c) = z \<Longrightarrow> hard_bits [a, b, c] = [byte_of_bool x, byte_of_bool y, byte_of_bool z]"
  by (simp add: hard_bits_def byte_of_bool_def)

lemma ft8_soft_signs:
  assumes ok: "math_ok expf logf" and vis: "ring_shows P mg sub time_off fo (ft8_encode p) gap" and gap: "4 \<le> gap"
    and place: "sc_fo c = fo" "sc_to c = time_off" "sc_ts c * g_freq_osr P + sc_fs c = sub" "fo + 8 \<le> g_num_bins P" and k: "k < 58"
  shows "hard_bits (ft8_soft_symbol expf logf P mg c k) =
     List.map (\<lambda>i. byte_of_bool (msg_bit (ft8_codeword p) i)) [3 * k, 3 * k + 1, 3 * k + 2]"
proof -
  let ?x = "msg_bit (ft8_codeword p)" and ?i = "k + (if k < 29 then 7 else 14)"
  let ?v = "bits3 ?x (3 * k)" and ?s = "\<lambda>j. soft_level P mg sub (time_off + ?i) (fo + kFT8_Gray_map_d j)"
  have i: "?i < 79" using k by simp
  have l: "?i < length (ft8_encode p)" using i by (simp add: ft8_encode_tones)
  have v: "?v < 8" by (simp add: bits3_def)
  have tone: "unat (ft8_encode p ! ?i) = kFT8_Gray_map_d ?v"
    using i k gray_map_d(1) [OF v] by (simp add: ft8_encode_tones ft8_tone_def ft8_data_before_def)
  have win: "time_off + ?i < g_num_blocks P"
    and top: "\<And>t. t < 8 \<Longrightarrow> t \<noteq> kFT8_Gray_map_d ?v \<Longrightarrow>
      g_level P mg sub time_off fo ?i t + gap \<le> g_level P mg sub time_off fo ?i (kFT8_Gray_map_d ?v)"
    using vis l tone unfolding ring_shows_def by auto
  have lvl: "?s j = of_int (g_level P mg sub time_off fo ?i (kFT8_Gray_map_d j)) / 2" if "j < 8" for j
    unfolding g_level_def by (rule soft_level_half) (use gray_map_d(2) [OF that] place(4) in linarith)
  have "?s j + 2 \<le> ?s ?v" if j: "j < 8" "j \<noteq> ?v" for j
  proof -
    have "g_level P mg sub time_off fo ?i (kFT8_Gray_map_d j) + 4 \<le> g_level P mg sub time_off fo ?i (kFT8_Gray_map_d ?v)"
      using top [OF gray_map_d(2) [OF j(1)]] gray_map_d(3) [OF j(1) v] j(2) gap by linarith
    then have "(of_int (g_level P mg sub time_off fo ?i (kFT8_Gray_map_d j)) + 4 :: rat) \<le>
        of_int (g_level P mg sub time_off fo ?i (kFT8_Gray_map_d ?v))"
      by (metis of_int_add of_int_le_iff of_int_numeral)
    then show ?thesis unfolding lvl [OF j(1)] lvl [OF v] by (simp add: field_simps)
  qed
  then have best: "\<And>j. j < 8 \<Longrightarrow> j \<noteq> (if ?x (3 * k) then 4 else 0) + (if ?x (3 * k + 1) then 2 else 0) + (if ?x (3 * k + 2) then 1 else 0) \<Longrightarrow>
        ?s j + 2 \<le> ?s ((if ?x (3 * k) then 4 else 0) + (if ?x (3 * k + 1) then 2 else 0) + (if ?x (3 * k + 2) then 1 else 0))"
    unfolding bits3_def by blast
  note signs = symbol_signs [where s = ?s, OF ok soft_level_half_byte best]
  have s: "?s = (\<lambda>j. soft_level P mg (sc_ts c * g_freq_osr P + sc_fs c) (sc_to c + ?i) (sc_fo c + kFT8_Gray_map_d j))"
    by (simp only: place)
  have win': "sc_to c + ?i < g_num_blocks P" using win by (simp only: place)
  have eq: "ft8_soft_symbol expf logf P mg c k =
     [fsub (lse4d expf logf (?s 4) (?s 5) (?s 6) (?s 7)) (lse4d expf logf (?s 0) (?s 1) (?s 2) (?s 3)),
      fsub (lse4d expf logf (?s 2) (?s 3) (?s 6) (?s 7)) (lse4d expf logf (?s 0) (?s 1) (?s 4) (?s 5)),
      fsub (lse4d expf logf (?s 1) (?s 3) (?s 5) (?s 7)) (lse4d expf logf (?s 0) (?s 2) (?s 4) (?s 6))]"
    unfolding ft8_soft_symbol_def by (rule soft_symbol_eq [OF s win'])
  show ?thesis unfolding eq list.map by (rule hard_bits3 [OF signs])
qed
section \<open>The score of a clean transmission\<close>

lemma best_other_le: "(\<And>j. j < 8 \<Longrightarrow> j \<noteq> sm \<Longrightarrow> v j \<le> u) \<Longrightarrow> 0 \<le> u \<Longrightarrow> best_other sm v \<le> u"
proof -
  assume v: "\<And>j. j < 8 \<Longrightarrow> j \<noteq> sm \<Longrightarrow> v j \<le> u" and u: "0 \<le> u"
  have "foldl (\<lambda>b j. if j = sm then b else if b < v j then v j else b) b js \<le> u" if "set js \<subseteq> {..<8}" "b \<le> u" for js b
    using that
  proof (induction js arbitrary: b)
    case (Cons j js)
    have "(if j = sm then b else if b < v j then v j else b) \<le> u" using Cons.prems v [of j] by simp
    then show ?case using Cons by simp
  qed simp
  then show ?thesis unfolding best_other_def using u by (simp add: atLeast0LessThan)
qed

lemma foldl_score_ge:
  assumes "\<And>k. k \<in> set ks \<Longrightarrow> d \<le> g k"
  shows "\<exists>e. foldl (\<lambda>st k. let (score, n) = st in (score + g k, n + 1 :: int)) (a, n) ks = (a + e, n + int (length ks)) \<and>
     d * int (length ks) \<le> e"
  using assms
proof (induction ks arbitrary: a n)
  case (Cons k ks)
  then obtain e where "foldl (\<lambda>st k. let (score, n) = st in (score + g k, n + 1 :: int)) (a + g k, n + 1) ks =
      (a + g k + e, n + 1 + int (length ks))" "d * int (length ks) \<le> e" by (metis list.set_intros(2))
  moreover have "d \<le> g k" using Cons.prems by simp
  ultimately show ?case by (intro exI [of _ "g k + e"]) (auto simp: algebra_simps)
qed simp

text \<open>All 21 symbols in the window, each worth at least \<open>d\<close>: the mean is at least \<open>d\<close>.\<close>

lemma sum_symbols_ge:
  assumes win: "time_off + 78 < g_num_blocks P"
    and d: "\<And>m k. m < 3 \<Longrightarrow> k < 7 \<Longrightarrow> d \<le> cell m k (costas m k) - best_other (costas m k) (cell m k)"
  shows "\<exists>e. sum_symbols P time_off (maxlog_symbol costas cell) = (e, 21) \<and> 21 * d \<le> e"
proof -
  have valid: "valid_syms P time_off m = [0..<7]" if "m < 3" for m
    unfolding valid_syms_def by (rule takeWhile_eq_all_conv [THEN iffD2]) (use that win in auto)
  have step: "\<exists>e. foldl (maxlog_symbol costas cell m) (a, n) [0..<7] = (a + e, n + 7) \<and> d * 7 \<le> e" if "m < 3" for m a n
  proof -
    have "maxlog_symbol costas cell m =
        (\<lambda>st k. let (score, n) = st in (score + (cell m k (costas m k) - best_other (costas m k) (cell m k)), n + 1))"
      by (simp add: maxlog_symbol_def fun_eq_iff Let_def)
    then show ?thesis
      using foldl_score_ge [of "[0..<7]" d "\<lambda>k. cell m k (costas m k) - best_other (costas m k) (cell m k)" a n] d [OF that]
      by simp
  qed
  obtain e0 where e0: "foldl (maxlog_symbol costas cell 0) (0, 0) [0..<7] = (0 + e0, 0 + 7)" "d * 7 \<le> e0"
    using step [of 0 0 0] by auto
  obtain e1 where e1: "foldl (maxlog_symbol costas cell 1) (0 + e0, 0 + 7) [0..<7] = (0 + e0 + e1, 0 + 7 + 7)" "d * 7 \<le> e1"
    using step [of 1 "0 + e0" "0 + 7"] by auto
  obtain e2 where e2: "foldl (maxlog_symbol costas cell 2) (0 + e0 + e1, 0 + 7 + 7) [0..<7] = (0 + e0 + e1 + e2, 0 + 7 + 7 + 7)" "d * 7 \<le> e2"
    using step [of 2 "0 + e0 + e1" "0 + 7 + 7"] by auto
  have "[0..<3] = [0, 1, 2 :: nat]" by (simp add: upt_rec)
  then have "sum_symbols P time_off (maxlog_symbol costas cell) = (e0 + e1 + e2, 21)"
    unfolding sum_symbols_def using e0(1) e1(1) e2(1) by (simp add: valid)
  then show ?thesis using e0(2) e1(2) e2(2) by auto
qed

lemma clean_scores:
  assumes vis: "ring_shows P mg sub time_off fo (ft8_encode p) gap" and gap: "0 \<le> gap" "g_min_score P \<le> of_int gap"
    and leg: "\<not> g_legacy P"
  shows "place_score kCostas_ft8 P mg sub time_off fo \<noteq> None"
proof -
  let ?cell = "ring_cell P mg sub time_off fo"
  have len: "length (ft8_encode p) = 79" by (simp add: ft8_encode_tones)
  then have win: "time_off + 78 < g_num_blocks P" using vis unfolding ring_shows_def by auto
  have d: "gap \<le> ?cell m k (kCostas_ft8 m k) - best_other (kCostas_ft8 m k) (?cell m k)" if mk: "m < 3" "k < 7" for m k
  proof -
    have i: "36 * m + k < 79" using mk by linarith
    have k: "k \<in> {0, 1, 2, 3, 4, 5, 6}" using mk(2) by auto
    have "ft8_encode p ! (36 * m + k) = kFT8_Costas_pattern ! k"
    proof -
      have "m = 0 \<or> m = 1 \<or> m = 2" using mk(1) by linarith
      then show ?thesis using mk(2) by (elim disjE) (simp_all add: ft8_encode_tones ft8_tone_def)
    qed
    moreover have "unat (kFT8_Costas_pattern ! k) = kCostas_ft8 m k"
      using k by (auto simp: kFT8_Costas_pattern_def kCostas_ft8_def)
    ultimately have tone: "unat (ft8_encode p ! (36 * m + k)) = kCostas_ft8 m k" by simp
    have c: "?cell m k t = g_level P mg sub time_off fo (36 * m + k) t" for t
      using win i by (simp add: ring_cell_def g_level_def add.assoc)
    have t8: "kCostas_ft8 m k < 8" using mk by (intro scan_tables_tone) (simp_all add: scan_tables_def)
    have top: "?cell m k t + gap \<le> ?cell m k (kCostas_ft8 m k)" if "t < 8" "t \<noteq> kCostas_ft8 m k" for t
      using vis i len tone that unfolding ring_shows_def c by auto
    have "(0 :: nat) < 8" "(1 :: nat) < 8" "(0 :: nat) \<noteq> 1" by simp_all
    then obtain t where t: "t < 8" "t \<noteq> kCostas_ft8 m k" by metis
    have nn: "0 \<le> ?cell m k x" for x by (simp add: ring_cell_def)
    have "best_other (kCostas_ft8 m k) (?cell m k) \<le> ?cell m k (kCostas_ft8 m k) - gap"
    proof (rule best_other_le)
      show "?cell m k j \<le> ?cell m k (kCostas_ft8 m k) - gap" if "j < 8" "j \<noteq> kCostas_ft8 m k" for j
        using top [OF that] by linarith
      show "0 \<le> ?cell m k (kCostas_ft8 m k) - gap" using top [OF t] nn [of t] by linarith
    qed
    then show ?thesis by linarith
  qed
  obtain e where e: "sum_symbols P time_off (maxlog_symbol kCostas_ft8 ?cell) = (e, 21)" "21 * gap \<le> e"
    using sum_symbols_ge [where cell = ?cell and costas = kCostas_ft8, OF win d] by blast
  have "\<not> fdiv (r32 (of_int e)) (r32 (of_int 21)) < g_min_score P"
  proof -
    have "g_level P mg sub time_off fo 0 t < 256 \<and> 0 \<le> g_level P mg sub time_off fo 0 t" for t
      using uint_bounded [of "mg ! ring_addr P sub (time_off + 0) (fo + t)"] by (simp add: g_level_def)
    moreover have "\<exists>t t'. g_level P mg sub time_off fo 0 t + gap \<le> g_level P mg sub time_off fo 0 t'"
    proof -
      have "\<forall>t<8. t \<noteq> unat (ft8_encode p ! 0) \<longrightarrow>
          g_level P mg sub time_off fo 0 t + gap \<le> g_level P mg sub time_off fo 0 (unat (ft8_encode p ! 0))"
        using vis len unfolding ring_shows_def by simp
      moreover have "(0 :: nat) < 8" "(1 :: nat) < 8" "(0 :: nat) \<noteq> 1" by simp_all
      ultimately show ?thesis by metis
    qed
    ultimately have g: "gap < 256" by (smt (verit))
    have "r32 (of_int (21 * gap)) = of_int (21 * gap)" by (rule r32_int) (use g gap in simp)
    then have "of_int (21 * gap) \<le> r32 (of_int e)" using r32_mono [of "of_int (21 * gap)" "of_int e"] e(2) by simp
    moreover have "r32 (of_int 21) = 21" using r32_int [of 21] by simp
    ultimately have "of_int gap \<le> r32 (of_int e) / r32 (of_int 21)" by simp
    then have "r32 (of_int gap) \<le> fdiv (r32 (of_int e)) (r32 (of_int 21))" unfolding fdiv_def by (rule r32_mono)
    moreover have "r32 (of_int gap) = of_int gap" by (rule r32_int) (use g gap in simp)
    ultimately show ?thesis using gap(2) by linarith
  qed
  then show ?thesis using e(1) leg by (simp add: place_score_def thread_score_def Let_def)
qed
section \<open>From the ring to the payload\<close>

lemma concat_nth_triples:
  assumes "\<And>k b. k < 58 \<Longrightarrow> b < 3 \<Longrightarrow> xs ! (o0 + k * 3 + b) = ys k ! b" "o0 + 174 \<le> length xs" "\<And>k. length (ys k) = 3"
  shows "take 174 (drop o0 xs) = concat (List.map ys [0..<58])"
proof (rule nth_equalityI)
  have c: "length (concat (List.map ys [0..<n])) = 3 * n" for n by (induction n) (simp_all add: assms(3))
  show len: "length (take 174 (drop o0 xs)) = length (concat (List.map ys [0..<58]))" using assms(2) c [of 58] by simp
  have nth: "concat (List.map ys [0..<n]) ! (k * 3 + b) = ys k ! b" if "k < n" "b < 3" for n k b
    using that
  proof (induction n)
    case (Suc n)
    show ?case
    proof (cases "k = n")
      case True
      then show ?thesis using Suc.prems c [of n] by (simp add: nth_append)
    next
      case False
      then have "k < n" "k * 3 + b < 3 * n" using Suc.prems by auto
      then show ?thesis using Suc c [of n] by (simp add: nth_append)
    qed
  qed simp
  fix i assume "i < length (take 174 (drop o0 xs))"
  then have i: "i < 174" by simp
  have "i = i div 3 * 3 + i mod 3" by simp
  moreover have "i div 3 < 58" "i mod 3 < 3" using i by simp_all
  ultimately have "xs ! (o0 + i) = concat (List.map ys [0..<58]) ! i"
    using assms(1) [of "i div 3" "i mod 3"] nth [of "i div 3" 58 "i mod 3"] by (metis add.assoc)
  then show "take 174 (drop o0 xs) ! i = concat (List.map ys [0..<58]) ! i" using i assms(2) by simp
qed

lemma length_soft_symbol [simp]: "length (ft8_soft_symbol expf logf P mg c k) = 3"
  by (simp add: ft8_soft_symbol_def soft_symbol_def Let_def)

lemma length_gpu_soft [simp]: "length (gpu_soft symbol total_found max_cands cands log174 us) = length log174"
proof -
  have "length (soft_thread symbol n cands l flat) = length l" for n l flat by (simp add: soft_thread_def Let_def)
  then have "length (foldl (soft_thread symbol n cands) l us) = length l" for n l by (induction us arbitrary: l) simp_all
  then show ?thesis by (simp add: gpu_soft_def)
qed

text \<open>
  C2. A clean FT8 transmission in the magnitude ring is received: when its tones stand at least four steps, and
  the threshold, above the others anywhere the scan looks, the oversampling factors fit the bytes that
  candidates store sub-steps in, and the candidates fit, then in every order of the threads the scan lists it,
  and the hard decisions of its soft symbols decode to the payload sent.
\<close>

theorem gpu_clean_received:
  assumes p: "length p = 10" and vis: "ring_shows P mg sub time_off fo (ft8_encode p) gap"
    and gap: "4 \<le> gap" "g_min_score P \<le> of_int gap" and leg: "\<not> g_legacy P"
    and place: "(sub, time_off, fo) \<in> scan_places P" and osr: "g_time_osr P \<le> 256" "g_freq_osr P \<le> 256"
    and ts: "mset ts = mset (scan_threads P)" and us: "mset us = mset (soft_threads max_cands)"
    and scan: "ft8_gpu_scan P None mg max_cands ts = (total_found, cands)" and fit: "total_found \<le> max_cands"
    and math: "math_ok expf logf" and room: "max_cands * 174 \<le> length log174"
  shows "\<exists>i<length cands. sc_fo (cands ! i) = fo \<and> sc_to (cands ! i) = time_off \<and>
           (let llr = take 174 (drop (i * 174) (gpu_soft (ft8_soft_symbol expf logf P mg) total_found max_cands cands log174 us))
            in case FtxDecode.ftx_decode_from_bits (hard_bits llr) m st of
                 (ok, m', st') \<Rightarrow> ok \<and> msg_bits (payload_of m') 80 = msg_bits p 77 @ replicate 3 False)"
proof -
  have tab: "kCostas_ft8 \<in> scan_tables" by (simp add: scan_tables_def)
  have "place_score kCostas_ft8 P mg sub time_off fo \<noteq> None"
    by (rule clean_scores [OF vis _ gap(2) leg]) (use gap(1) in simp)
  then obtain c where c: "place_cand kCostas_ft8 P mg sub time_off fo = Some c"
    using place by (auto simp: place_cand_def scan_places_def)
  have at: "sc_fo c = fo" "sc_to c = time_off" "sc_ts c * g_freq_osr P + sc_fs c = sub"
    using place_cand_sub [OF c _ osr] place by (simp_all add: scan_places_def)
  have found: "length cands = min total_found max_cands" "c \<in> set cands"
    using scan_tables_tone gpu_scan_exact_facts [OF tab ts scan [unfolded ft8_gpu_scan_def]] fit c place by blast+
  then obtain i where i: "i < length cands" "cands ! i = c" by (metis in_set_conv_nth)
  let ?x = "msg_bit (ft8_codeword p)"
  let ?log = "gpu_soft (ft8_soft_symbol expf logf P mg) total_found max_cands cands log174 us"
  have "Suc i * 174 \<le> max_cands * 174" using i(1) found(1) by (intro mult_le_mono1) simp
  then have "take 174 (drop (i * 174) ?log) = concat (List.map (ft8_soft_symbol expf logf P mg c) [0..<58])"
    using gpu_soft_at [OF us room] i found(1) room by (intro concat_nth_triples) simp_all
  moreover have "fo + 8 \<le> g_num_bins P" using place by (simp add: scan_places_def)
  note signs = ft8_soft_signs [OF math vis gap(1) at this]
  have "hard_bits (concat (List.map (ft8_soft_symbol expf logf P mg c) [0..<58])) =
      concat (List.map (\<lambda>k. List.map (\<lambda>i. byte_of_bool (?x i)) [3 * k, 3 * k + 1, 3 * k + 2]) [0..<58])"
    unfolding hard_bits_concat map_map comp_def by (intro arg_cong [where f = concat] map_cong refl signs) simp
  then have "hard_bits (concat (List.map (ft8_soft_symbol expf logf P mg c) [0..<58])) = codeword_bits p"
    by (simp only: concat_triples codeword_bits_def) simp
  ultimately have bits: "hard_bits (take 174 (drop (i * 174) ?log)) = codeword_bits p" by simp
  have "case FtxDecode.ftx_decode_from_bits (codeword_bits p) m st of
      (ok, m', st') \<Rightarrow> ok \<and> msg_bits (payload_of m') 80 = msg_bits p 77 @ replicate 3 False"
    using crc_ok_codeword [OF p]
    by (simp add: FtxDecode.ftx_decode_from_bits_def crc_gate_eq msg_bits_gate_payload word_payload_codeword [OF p]
        flip: gate_payload_def)
  then show ?thesis using i at bits by (intro exI [of _ i]) (simp add: Let_def)
qed
text \<open>A ring of 79 blocks and eight bins that holds one transmission: full scale on its tones.\<close>

definition one_par :: scan_par where
  "one_par = \<lparr>g_snap_start = 0, g_ring_size = 79, g_num_bins = 8, g_num_blocks = 79, g_time_osr = 1, g_freq_osr = 1,
              g_min_score = 5, g_legacy = False\<rparr>"

definition one_ring :: "u8 list \<Rightarrow> u8 list" where
  "one_ring tones = concat (List.map (\<lambda>t. List.map (\<lambda>j. if j = unat t then 255 else 0) [0..<8]) tones)"

lemma one_ring_nth: "k < length tones \<Longrightarrow> j < 8 \<Longrightarrow> one_ring tones ! (k * 8 + j) = (if j = unat (tones ! k) then 255 else 0)"
proof (induction tones arbitrary: k)
  case (Cons t tones)
  have l: "length (List.map (\<lambda>j. if j = unat t then 255 else 0 :: u8) [0..<8]) = 8" by simp
  show ?case
  proof (cases k)
    case 0
    then show ?thesis using Cons.prems by (simp add: one_ring_def nth_append)
  next
    case (Suc k')
    have "one_ring (t # tones) ! (k * 8 + j) = one_ring tones ! (k' * 8 + j)"
      unfolding one_ring_def list.map concat.simps nth_append l Suc by simp
    then show ?thesis using Cons Suc by simp
  qed
qed simp

lemma one_ring_shows: "ring_shows one_par (one_ring (ft8_encode p)) 0 0 0 (ft8_encode p) 200"
proof -
  have len: "length (ft8_encode p) = 79" by (simp add: ft8_encode_tones)
  have "unat (ft8_encode p ! k) < 8" if "k < 79" for k
  proof -
    have "ft8_encode p ! k < 8" using ft8_tones_small nth_mem len that by metis
    then show ?thesis by (simp add: word_less_nat_alt)
  qed
  moreover have "g_level one_par (one_ring (ft8_encode p)) 0 0 0 k t = (if t = unat (ft8_encode p ! k) then 255 else 0)"
    if "k < 79" "t < 8" for k t
    using that one_ring_nth [of k "ft8_encode p" t] len
    by (simp add: g_level_def ring_addr_def g_block_stride_def one_par_def)
  ultimately show ?thesis unfolding ring_shows_def len by (simp add: one_par_def)
qed

lemma one_places: "scan_places one_par = {0} \<times> {..<30} \<times> {0}"
  by (auto simp: scan_places_def one_par_def)

theorem gpu_clean_received_witness:
  "\<exists>i. fst (FtxDecode.ftx_decode_from_bits (hard_bits (take 174 (drop (i * 174)
       (gpu_soft (ft8_soft_symbol (\<lambda>x. if x = 0 then 1 else 0) (\<lambda>_. 0) one_par (one_ring (ft8_encode (replicate 10 1))))
         (fst (ft8_gpu_scan one_par None (one_ring (ft8_encode (replicate 10 1))) 30 (scan_threads one_par))) 30
         (snd (ft8_gpu_scan one_par None (one_ring (ft8_encode (replicate 10 1))) 30 (scan_threads one_par)))
         (replicate 5220 0) (soft_threads 30))))) \<lparr>payload_of = [], msg_hash = 0\<rparr>
       \<lparr>ldpc_errors = 0, crc_extracted = 0, crc_calculated = 0\<rparr>)"
proof -
  let ?mg = "one_ring (ft8_encode (replicate 10 1))"
  obtain n cs where res: "ft8_gpu_scan one_par None ?mg 30 (scan_threads one_par) = (n, cs)" by fastforce
  have tab: "kCostas_ft8 \<in> scan_tables" by (simp add: scan_tables_def)
  have "n = card {(sub, time_off, fo) \<in> scan_places one_par. place_score kCostas_ft8 one_par ?mg sub time_off fo \<noteq> None}"
    using gpu_scan_exact_facts [OF tab refl res [unfolded ft8_gpu_scan_def]] by blast
  also have "\<dots> \<le> card (scan_places one_par)" by (rule card_mono) (auto simp: one_places)
  finally have fit: "n \<le> 30" by (simp add: one_places)
  have math: "math_ok (\<lambda>x. if x = 0 then 1 else 0) (\<lambda>_. 0)" by (simp add: math_ok_def)
  have place: "(0, 0, 0) \<in> scan_places one_par" by (simp add: one_places)
  have osr: "g_time_osr one_par \<le> 256" "g_freq_osr one_par \<le> 256" by (simp_all add: one_par_def)
  have len: "length (replicate 10 1 :: u8 list) = 10" by simp
  have par: "(4 :: int) \<le> 200" "g_min_score one_par \<le> of_int 200" "\<not> g_legacy one_par" by (simp_all add: one_par_def)
  have room: "30 * 174 \<le> length (replicate 5220 0 :: f32 list)" by simp
  show ?thesis unfolding res fst_conv snd_conv
    using gpu_clean_received [OF len one_ring_shows par place osr refl refl res fit math room,
        of "\<lparr>payload_of = [], msg_hash = 0\<rparr>" "\<lparr>ldpc_errors = 0, crc_extracted = 0, crc_calculated = 0\<rparr>"]
    unfolding Let_def case_prod_unfold by blast
qed

end
