(* ===== verification/SyndromeScan.thy ===== *)
theory SyndromeScan
  imports GpuReceive
begin

text \<open>
  The syndrome scan (\<open>gm/cuda/FT8SyndromeScan.cu\<close>): a thread takes the strongest tone of each of the 58
  data symbols, folds the 174 bits into the 83 parity checks, three words of 32 bits, and accepts the place
  when few checks fail and enough of the 21 sync symbols show their tone.
\<close>

definition kFT8_Costas_d :: "nat \<Rightarrow> nat" where "kFT8_Costas_d k = [3, 1, 4, 0, 6, 5, 2] ! k"
definition kFT8_inv_Gray_map_d :: "nat \<Rightarrow> nat" where "kFT8_inv_Gray_map_d t = [0, 1, 3, 2, 6, 4, 5, 7] ! t"

definition kFTX_LDPC_Mn_d :: "nat list list" where
  "kFTX_LDPC_Mn_d =
    [[16, 45, 73], [25, 51, 62], [33, 58, 78], [1, 44, 45], [2, 7, 61], [3, 6, 54], [4, 35, 48],
     [5, 13, 21], [8, 56, 79], [9, 64, 69], [10, 19, 66], [11, 36, 60], [12, 37, 58], [14, 32, 43],
     [15, 63, 80], [17, 28, 77], [18, 74, 83], [22, 53, 81], [23, 30, 34], [24, 31, 40], [26, 41, 76],
     [27, 57, 70], [29, 49, 65], [3, 38, 78], [5, 39, 82], [46, 50, 73], [51, 52, 74], [55, 71, 72],
     [44, 67, 72], [43, 68, 78], [1, 32, 59], [2, 6, 71], [4, 16, 54], [7, 65, 67], [8, 30, 42],
     [9, 22, 31], [10, 18, 76], [11, 23, 82], [12, 28, 61], [13, 52, 79], [14, 50, 51], [15, 81, 83],
     [17, 29, 60], [19, 33, 64], [20, 26, 73], [21, 34, 40], [24, 27, 77], [25, 55, 58], [35, 53, 66],
     [36, 48, 68], [37, 46, 75], [38, 45, 47], [39, 57, 69], [41, 56, 62], [20, 49, 53], [46, 52, 63],
     [45, 70, 75], [27, 35, 80], [1, 15, 30], [2, 68, 80], [3, 36, 51], [4, 28, 51], [5, 31, 56],
     [6, 20, 37], [7, 40, 82], [8, 60, 69], [9, 10, 49], [11, 44, 57], [12, 39, 59], [13, 24, 55],
     [14, 21, 65], [16, 71, 78], [17, 30, 76], [18, 25, 80], [19, 61, 83], [22, 38, 77], [23, 41, 50],
     [7, 26, 58], [29, 32, 81], [33, 40, 73], [18, 34, 48], [13, 42, 64], [5, 26, 43], [47, 69, 72],
     [54, 55, 70], [45, 62, 68], [10, 63, 67], [14, 66, 72], [22, 60, 74], [35, 39, 79], [1, 46, 64],
     [1, 24, 66], [2, 5, 70], [3, 31, 65], [4, 49, 58], [1, 4, 5], [6, 60, 67], [7, 32, 75], [8, 48, 82],
     [9, 35, 41], [10, 39, 62], [11, 14, 61], [12, 71, 74], [13, 23, 78], [11, 35, 55], [15, 16, 79],
     [7, 9, 16], [17, 54, 63], [18, 50, 57], [19, 30, 47], [20, 64, 80], [21, 28, 69], [22, 25, 43],
     [13, 22, 37], [2, 47, 51], [23, 54, 74], [26, 34, 72], [27, 36, 37], [21, 36, 63], [29, 40, 44],
     [19, 26, 57], [3, 46, 82], [14, 15, 58], [33, 52, 53], [30, 43, 52], [6, 9, 52], [27, 33, 65],
     [25, 69, 73], [38, 55, 83], [20, 39, 77], [18, 29, 56], [32, 48, 71], [42, 51, 59], [28, 44, 79],
     [34, 60, 62], [31, 45, 61], [46, 68, 77], [6, 24, 76], [8, 10, 78], [40, 41, 70], [17, 50, 53],
     [42, 66, 68], [4, 22, 72], [36, 64, 81], [13, 29, 47], [2, 8, 81], [56, 67, 73], [5, 38, 50],
     [12, 38, 64], [59, 72, 80], [3, 26, 79], [45, 76, 81], [1, 65, 74], [7, 18, 77], [11, 56, 59],
     [14, 39, 54], [16, 37, 66], [10, 28, 55], [15, 60, 70], [17, 25, 82], [20, 30, 31], [12, 67, 68],
     [23, 75, 80], [27, 32, 62], [24, 69, 75], [19, 21, 71], [34, 53, 61], [35, 46, 47], [33, 59, 76],
     [40, 43, 83], [41, 42, 63], [49, 75, 83], [20, 44, 48], [42, 49, 57]]"

record syn_par = scan_geom +
  y_scan_bins :: nat
  y_bin_start :: nat
  y_max_syn_errors :: int
  y_min_sync_matches :: int

definition y_slots :: nat where "y_slots = 79"

text \<open>The symbol of a window of the shared memory: first the data symbols, then the sync symbols.\<close>

definition sym_off :: "nat \<Rightarrow> nat" where
  "sym_off slot_idx =
     (if slot_idx < 29 then slot_idx + 7
      else if slot_idx < 58 then slot_idx - 29 + 43
      else (let s = slot_idx - 58 in if s < 7 then s else if s < 14 then s - 7 + 36 else s - 14 + 72))"

definition time_off_range :: "'a scan_geom_scheme \<Rightarrow> nat" where
  "time_off_range P = (if 79 < g_num_blocks P then g_num_blocks P - 79 + 1 else 1)"

definition syn_load :: "syn_par \<Rightarrow> u8 list \<Rightarrow> nat \<Rightarrow> nat \<Rightarrow> nat \<Rightarrow> u8" where
  "syn_load P mg bx combo i =
     (let slot_idx = i div WINDOW; fo_off = i mod WINDOW;
          block_abs = combo mod time_off_range P + sym_off slot_idx
      in if block_abs < g_num_blocks P
         then (let global_fo = y_bin_start P + bx * BLOCK_SZ + fo_off
               in if global_fo < g_num_bins P then mg ! ring_addr P (combo div time_off_range P) block_abs global_fo else 0)
         else 0)"

definition syn_smem :: "syn_par \<Rightarrow> u8 list \<Rightarrow> nat \<Rightarrow> nat \<Rightarrow> u8 list" where
  "syn_smem P mg bx combo = coop_load (syn_load P mg bx combo) (y_slots * WINDOW)"

text \<open>The strongest of eight tones, the lowest one on a tie.\<close>

definition best_tone :: "(nat \<Rightarrow> u8) \<Rightarrow> nat" where
  "best_tone v = snd (foldl (\<lambda>(best, best_t) t. if best < v t then (v t, t) else (best, best_t)) (v 0, 0) [1..<8])"

text \<open>The three parity words.\<close>

definition syn_flip :: "u32 \<times> u32 \<times> u32 \<Rightarrow> nat \<Rightarrow> u32 \<times> u32 \<times> u32" where
  "syn_flip syn chk =
     (let (syn0, syn1, syn2) = syn
      in if chk < 32 then (syn0 XOR push_bit chk 1, syn1, syn2)
         else if chk < 64 then (syn0, syn1 XOR push_bit (chk - 32) 1, syn2)
         else (syn0, syn1, syn2 XOR push_bit (chk - 64) 1))"

definition syn_bit :: "nat \<Rightarrow> u32 \<times> u32 \<times> u32 \<Rightarrow> u32 \<times> u32 \<times> u32" where
  "syn_bit bit_idx syn = foldl (\<lambda>syn q. syn_flip syn (kFTX_LDPC_Mn_d ! bit_idx ! q - 1)) syn [0..<3]"

definition syn_symbol :: "(nat \<Rightarrow> nat \<Rightarrow> u8) \<Rightarrow> u32 \<times> u32 \<times> u32 \<Rightarrow> nat \<Rightarrow> u32 \<times> u32 \<times> u32" where
  "syn_symbol cell syn k =
     (let j = kFT8_inv_Gray_map_d (best_tone (cell k))
      in foldl (\<lambda>syn b. if j div 2 ^ (2 - b) mod 2 = 1 then syn_bit (k * 3 + b) syn else syn) syn [0..<3])"

definition popc :: "u32 \<Rightarrow> nat" where
  "popc w = length (filter (bit w) [0..<32])"

definition syn_fails :: "(nat \<Rightarrow> nat \<Rightarrow> u8) \<Rightarrow> nat" where
  "syn_fails cell =
     (let (syn0, syn1, syn2) = foldl (syn_symbol cell) (0, 0, 0) [0..<58]
      in popc syn0 + popc syn1 + popc (syn2 AND 0x0007FFFF))"

definition sync_matches :: "(nat \<Rightarrow> nat \<Rightarrow> u8) \<Rightarrow> nat" where
  "sync_matches cell =
     foldl (\<lambda>n s. if best_tone (cell (58 + s)) = kFT8_Costas_d (s mod 7) then n + 1 else n) 0 [0..<21]"

definition syn_accepts :: "syn_par \<Rightarrow> (nat \<Rightarrow> nat \<Rightarrow> u8) \<Rightarrow> bool" where
  "syn_accepts P cell \<longleftrightarrow> \<not> y_max_syn_errors P < int (syn_fails cell) \<and> \<not> int (sync_matches cell) < y_min_sync_matches P"

text \<open>\<open>cell slot t\<close>: tone offset \<open>t\<close> in the window of a slot, as a thread sees it.\<close>

record syn_cand =
  y_fo :: nat
  y_to :: nat
  y_ts :: nat
  y_fs :: nat

definition syn_thread :: "syn_par \<Rightarrow> u8 list \<Rightarrow> nat \<times> nat \<times> nat \<Rightarrow> syn_cand option" where
  "syn_thread P mg = (\<lambda>(bx, combo, tx).
     let fo = y_bin_start P + bx * BLOCK_SZ + tx; time_off = combo mod time_off_range P; sub = combo div time_off_range P;
         smem = syn_smem P mg bx combo
     in if int (y_bin_start P + y_scan_bins P) - 7 \<le> int fo then None
        else if syn_accepts P (\<lambda>sl t. smem ! (sl * WINDOW + tx + t))
        then Some \<lparr>y_fo = fo, y_to = time_off mod 256, y_ts = sub div g_freq_osr P mod 256, y_fs = sub mod g_freq_osr P mod 256\<rparr>
        else None)"

definition syn_threads :: "syn_par \<Rightarrow> (nat \<times> nat \<times> nat) list" where
  "syn_threads P =
     List.product [0..<(y_scan_bins P + BLOCK_SZ - 1) div BLOCK_SZ]
       (List.product [0..<time_off_range P * g_time_osr P * g_freq_osr P] [0..<BLOCK_SZ])"

definition ft8_syndrome_scan :: "syn_par \<Rightarrow> u8 list \<Rightarrow> nat \<Rightarrow> (nat \<times> nat \<times> nat) list \<Rightarrow> nat \<times> syn_cand list" where
  "ft8_syndrome_scan P mg max_cands ts =
     foldl (\<lambda>(total_found, cands) t. case syn_thread P mg t of
              None \<Rightarrow> (total_found, cands)
            | Some c \<Rightarrow> (total_found + 1, if total_found < max_cands then cands @ [c] else cands)) (0, []) ts"
section \<open>Tables and tones\<close>

lemma Mn_d_eq: "kFTX_LDPC_Mn_d = kFTX_LDPC_Mn"
  by (simp add: kFTX_LDPC_Mn_d_def kFTX_LDPC_Mn_def)

lemma Mn_d_props:
  "list_all (\<lambda>r. length r = 3 \<and> distinct r \<and> list_all (\<lambda>m. 1 \<le> m \<and> m \<le> 83) r) kFTX_LDPC_Mn_d"
  "length kFTX_LDPC_Mn_d = 174"
  by code_simp+

lemma inv_gray: "j < 8 \<Longrightarrow> kFT8_inv_Gray_map_d (kFT8_Gray_map_d j) = j"
proof -
  assume "j < 8"
  then have "j \<in> {0, 1, 2, 3, 4, 5, 6, 7}" by auto
  then show ?thesis by (auto simp: kFT8_inv_Gray_map_d_def kFT8_Gray_map_d_def)
qed
section \<open>The parity words\<close>

definition syn_get :: "u32 \<times> u32 \<times> u32 \<Rightarrow> nat \<Rightarrow> bool" where
  "syn_get syn m = (let (syn0, syn1, syn2) = syn in if m < 32 then bit syn0 m else if m < 64 then bit syn1 (m - 32) else bit syn2 (m - 64))"

lemma bit_one_at: "k < 32 \<Longrightarrow> bit (w XOR 2 ^ k :: u32) n = (bit w n \<noteq> (n = k))"
  by (auto simp: bit_xor_iff bit_exp_iff possible_bit_word)

lemma syn_get_flip: "chk < 83 \<Longrightarrow> m < 83 \<Longrightarrow> syn_get (syn_flip syn chk) m = (syn_get syn m \<noteq> (m = chk))"
  by (cases syn) (auto simp: syn_get_def syn_flip_def bit_one_at)

lemma Mn_d_row:
  assumes "i < 174"
  obtains a b c where "kFTX_LDPC_Mn_d ! i = [a, b, c]" "distinct [a, b, c]" "\<forall>x\<in>{a, b, c}. 1 \<le> x \<and> x \<le> 83"
proof -
  have r: "length (kFTX_LDPC_Mn_d ! i) = 3" "distinct (kFTX_LDPC_Mn_d ! i)" "\<forall>x\<in>set (kFTX_LDPC_Mn_d ! i). 1 \<le> x \<and> x \<le> 83"
  proof -
    have "kFTX_LDPC_Mn_d ! i \<in> set kFTX_LDPC_Mn_d" using Mn_d_props(2) assms by simp
    then show "length (kFTX_LDPC_Mn_d ! i) = 3" "distinct (kFTX_LDPC_Mn_d ! i)" "\<forall>x\<in>set (kFTX_LDPC_Mn_d ! i). 1 \<le> x \<and> x \<le> 83"
      using Mn_d_props(1) unfolding list_all_iff by blast+
  qed
  then obtain a b c where "kFTX_LDPC_Mn_d ! i = [a, b, c]" by (auto simp: numeral_3_eq_3 length_Suc_conv)
  then show ?thesis using that r by auto
qed

lemma syn_get_bit:
  assumes "i < 174" and m: "m < 83"
  shows "syn_get (syn_bit i syn) m = (syn_get syn m \<noteq> (m + 1 \<in> set (kFTX_LDPC_Mn_d ! i)))"
proof -
  obtain a b c where r: "kFTX_LDPC_Mn_d ! i = [a, b, c]" and d: "distinct [a, b, c]" and x: "\<forall>x\<in>{a, b, c}. 1 \<le> x \<and> x \<le> 83"
    using assms(1) by (rule Mn_d_row)
  have "[0..<3] = [0, 1, 2 :: nat]" by (simp add: upt_rec)
  then have "syn_bit i syn = syn_flip (syn_flip (syn_flip syn (a - 1)) (b - 1)) (c - 1)" by (simp add: syn_bit_def r)
  moreover have "a - 1 < 83" "b - 1 < 83" "c - 1 < 83" using x by auto
  moreover have "m = a - 1 \<longleftrightarrow> m + 1 = a" "m = b - 1 \<longleftrightarrow> m + 1 = b" "m = c - 1 \<longleftrightarrow> m + 1 = c" using x by auto
  ultimately show ?thesis using m d by (auto simp: syn_get_flip r)
qed

text \<open>The hard decision on a bit, and the word of all 174.\<close>

definition dec_bit :: "(nat \<Rightarrow> nat \<Rightarrow> u8) \<Rightarrow> nat \<Rightarrow> bool" where
  "dec_bit cell i \<longleftrightarrow> kFT8_inv_Gray_map_d (best_tone (cell (i div 3))) div 2 ^ (2 - i mod 3) mod 2 = 1"

definition hard_word :: "(nat \<Rightarrow> nat \<Rightarrow> u8) \<Rightarrow> u8 list" where
  "hard_word cell = List.map (\<lambda>i. byte_of_bool (dec_bit cell i)) [0..<174]"

lemma syn_get_symbol:
  assumes k: "k < 58" and m: "m < 83"
  shows "syn_get (syn_symbol cell syn k) m =
    (((syn_get syn m \<noteq> (dec_bit cell (3 * k) \<and> m + 1 \<in> set (kFTX_LDPC_Mn_d ! (3 * k)))) \<noteq>
      (dec_bit cell (Suc (3 * k)) \<and> m + 1 \<in> set (kFTX_LDPC_Mn_d ! Suc (3 * k)))) \<noteq>
     (dec_bit cell (Suc (Suc (3 * k))) \<and> m + 1 \<in> set (kFTX_LDPC_Mn_d ! Suc (Suc (3 * k)))))"
proof -
  let ?j = "kFT8_inv_Gray_map_d (best_tone (cell k))"
  have d: "dec_bit cell (3 * k) \<longleftrightarrow> ?j div 4 mod 2 = 1" "dec_bit cell (Suc (3 * k)) \<longleftrightarrow> ?j div 2 mod 2 = 1"
    "dec_bit cell (Suc (Suc (3 * k))) \<longleftrightarrow> ?j mod 2 = 1"
  proof -
    have "3 * k div 3 = k" "3 * k mod 3 = 0" "Suc (3 * k) div 3 = k" "Suc (3 * k) mod 3 = 1"
      "Suc (Suc (3 * k)) div 3 = k" "Suc (Suc (3 * k)) mod 3 = 2" by presburger+
    then show "dec_bit cell (3 * k) \<longleftrightarrow> ?j div 4 mod 2 = 1" "dec_bit cell (Suc (3 * k)) \<longleftrightarrow> ?j div 2 mod 2 = 1"
      "dec_bit cell (Suc (Suc (3 * k))) \<longleftrightarrow> ?j mod 2 = 1" by (simp_all add: dec_bit_def)
  qed
  have i: "3 * k < 174" "Suc (3 * k) < 174" "Suc (Suc (3 * k)) < 174" using k by linarith+
  note b = syn_get_bit [OF i(1) m] syn_get_bit [OF i(2) m] syn_get_bit [OF i(3) m]
  have u: "[0..<3] = [0, 1, 2 :: nat]" by (simp add: upt_rec)
  have e: "k * 3 + 0 = 3 * k" "k * 3 + 1 = Suc (3 * k)" "k * 3 + 2 = Suc (Suc (3 * k))" by simp_all
  have p: "2 ^ (2 - 0) = (4 :: nat)" "2 ^ (2 - 1) = (2 :: nat)" "2 ^ (2 - 2) = (1 :: nat)" by simp_all
  show ?thesis unfolding d syn_symbol_def Let_def u foldl.simps e p div_by_1
    by (cases "?j div 4 mod 2 = 1"; cases "?j div 2 mod 2 = 1"; cases "?j mod 2 = 1") (simp_all only: b if_True if_False simp_thms)
qed

lemma syn_get_all:
  assumes m: "m < 83"
  shows "n \<le> 58 \<Longrightarrow> syn_get (foldl (syn_symbol cell) (0, 0, 0) [0..<n]) m =
     par (3 * n) (\<lambda>i. dec_bit cell i \<and> m + 1 \<in> set (kFTX_LDPC_Mn_d ! i))"
proof (induction n)
  case 0
  then show ?case by (simp add: syn_get_def)
next
  case (Suc n)
  have n: "n < 58" using Suc.prems by simp
  have e: "3 * Suc n = Suc (Suc (Suc (3 * n)))" by simp
  have "syn_get (foldl (syn_symbol cell) (0, 0, 0) [0..<n]) m = par (3 * n) (\<lambda>i. dec_bit cell i \<and> m + 1 \<in> set (kFTX_LDPC_Mn_d ! i))"
    using Suc by simp
  then show ?case unfolding e by (simp add: syn_get_symbol [OF n m] del: mult_Suc_right)
qed

lemma popc_fails:
  "popc syn0 + popc syn1 + popc (syn2 AND 0x0007FFFF) = length (filter (syn_get (syn0, syn1, syn2)) [0..<83])"
proof -
  have u: "[0..<83] = [0..<32] @ List.map (\<lambda>i. i + 32) [0..<32] @ List.map (\<lambda>i. i + 64) [0..<19]"
    by (simp add: map_add_upt upt_add_eq_append [of 0 32 "32 + 19", simplified] upt_add_eq_append [of 32 64 19, simplified])
  have m: "(0x0007FFFF :: u32) = mask 19" by (simp add: mask_eq_exp_minus_1)
  have "bit (syn2 AND 0x0007FFFF) = (\<lambda>n. bit syn2 n \<and> n < 19)"
    unfolding m fun_eq_iff bit_and_iff bit_mask_iff by (auto simp: possible_bit_word)
  moreover have "[0..<32] = [0..<19] @ [19..<(32 :: nat)]" using upt_add_eq_append [of 0 19 13] by simp
  moreover have "filter (\<lambda>n. bit syn2 n \<and> n < 19) [19..<32] = []" by (simp add: filter_empty_conv)
  moreover have "filter (\<lambda>n. bit syn2 n \<and> n < 19) [0..<19] = filter (bit syn2) [0..<19]" by (rule filter_cong) auto
  ultimately have "popc (syn2 AND 0x0007FFFF) = length (filter (bit syn2) [0..<19])"
    unfolding popc_def by (simp only: filter_append append_Nil2)
  moreover have "length (filter (syn_get (syn0, syn1, syn2)) [0..<32]) = popc syn0"
    unfolding popc_def by (intro arg_cong [where f = length] filter_cong) (auto simp: syn_get_def)
  moreover have "length (filter (syn_get (syn0, syn1, syn2)) (List.map (\<lambda>i. i + 32) [0..<32])) = popc syn1"
    unfolding popc_def filter_map length_map comp_def by (intro arg_cong [where f = length] filter_cong) (auto simp: syn_get_def)
  moreover have "length (filter (syn_get (syn0, syn1, syn2)) (List.map (\<lambda>i. i + 64) [0..<19])) = length (filter (bit syn2) [0..<19])"
    unfolding filter_map length_map comp_def by (intro arg_cong [where f = length] filter_cong) (auto simp: syn_get_def)
  ultimately show ?thesis unfolding u by (simp del: upt_rec_numeral)
qed
section \<open>The syndrome is the decoder's parity check\<close>

lemma check_xor_columns:
  assumes "length xs = 174" and "set xs \<subseteq> {0, 1}" and m: "m < 83"
  shows "check_xor xs m \<noteq> 0 \<longleftrightarrow> par 174 (\<lambda>p. xs ! p \<noteq> 0 \<and> m + 1 \<in> set (kFTX_LDPC_Mn ! p))"
proof -
  have "check_parity ft8_check_var_j ft8_check_deg (\<lambda>p. xs ! p \<noteq> 0) m =
      par 174 (\<lambda>p. xs ! p \<noteq> 0 \<and> m \<in> fst ` set (ft8_var_adj ! p))"
    by (rule check_parity_columns [OF ft8_tables_ok]) (simp add: ft8_length_cv m)
  moreover have "m + 1 \<in> set (kFTX_LDPC_Mn ! p) \<longleftrightarrow> m \<in> fst ` set (ft8_var_adj ! p)" if "p < 174" for p
  proof -
    have "length (map (map (\<lambda>(m, k). m + 1)) ft8_var_adj) = 174"
      unfolding gpu_tables(3) using Mn_d_props(2) by (simp add: Mn_d_eq)
    then have "kFTX_LDPC_Mn ! p = map (\<lambda>(m, k). m + 1) (ft8_var_adj ! p)" using that by (simp flip: gpu_tables(3))
    then show ?thesis by (auto simp: image_iff split: prod.splits intro: rev_bexI)
  qed
  then have "par 174 (\<lambda>p. xs ! p \<noteq> 0 \<and> m \<in> fst ` set (ft8_var_adj ! p)) =
      par 174 (\<lambda>p. xs ! p \<noteq> 0 \<and> m + 1 \<in> set (kFTX_LDPC_Mn ! p))" by (intro par_cong) simp
  ultimately show ?thesis using check_xor_parity [OF assms] by simp
qed

lemma hard_word_props: "length (hard_word cell) = 174" "set (hard_word cell) \<subseteq> {0, 1}"
  "i < 174 \<Longrightarrow> hard_word cell ! i \<noteq> 0 \<longleftrightarrow> dec_bit cell i"
  by (auto simp: hard_word_def byte_of_bool_def)

lemma syn_fails_facts: "syn_fails cell = ldpc_check (hard_word cell)"
proof -
  define syn where "syn = foldl (syn_symbol cell) (0, 0, 0) [0..<58]"
  obtain syn0 syn1 syn2 where s: "syn = (syn0, syn1, syn2)" by (cases syn)
  have "syn_get syn m = (check_xor (hard_word cell) m \<noteq> 0)" if m: "m < 83" for m
  proof -
    have "syn_get syn m = par 174 (\<lambda>i. dec_bit cell i \<and> m + 1 \<in> set (kFTX_LDPC_Mn_d ! i))"
      using syn_get_all [OF m, of 58 cell] by (simp add: syn_def)
    also have "\<dots> = par 174 (\<lambda>i. hard_word cell ! i \<noteq> 0 \<and> m + 1 \<in> set (kFTX_LDPC_Mn ! i))"
      by (intro par_cong) (simp add: hard_word_props(3) Mn_d_eq)
    finally show ?thesis using check_xor_columns [OF hard_word_props(1,2) m] by simp
  qed
  then have "filter (syn_get syn) [0..<83] = filter (\<lambda>m. check_xor (hard_word cell) m \<noteq> 0) [0..<83]"
    by (intro filter_cong) auto
  moreover have "ldpc_check (hard_word cell) = length (filter (\<lambda>m. check_xor (hard_word cell) m \<noteq> 0) [0..<83])"
    unfolding ldpc_check_def foldl_count_le FTX_LDPC_M_def by simp
  ultimately show ?thesis
    unfolding syn_fails_def syn_def [symmetric] s Let_def prod.case popc_fails by simp
qed

text \<open>
  C12. The syndrome scan's bit tricks compute the decoder's parity check: the set bits of the three folded words
  are as many as the checks that \<open>ldpc_check\<close> finds failing on the hard decisions.
\<close>

theorem syndrome_is_ldpc_check: "syn_fails cell = ldpc_check (hard_word cell)"
  by (rule syn_fails_facts)

section \<open>Clean transmissions\<close>

lemma best_tone_unique:
  assumes "t < 8" and "\<And>j. j < 8 \<Longrightarrow> j \<noteq> t \<Longrightarrow> v j < v t"
  shows "best_tone v = t"
proof -
  let ?f = "\<lambda>(best, best_t) t. if best < v t then (v t, t) else (best, best_t)"
  have step: "foldl ?f (v 0, 0) [1..<Suc n] = (if t \<le> n then (v t, t) else foldl ?f (v 0, 0) [1..<Suc n]) \<and>
      (n < t \<longrightarrow> (\<exists>j<t. foldl ?f (v 0, 0) [1..<Suc n] = (v j, j)))" if "n < 8" for n
    using that
  proof (induction n)
    case 0
    then show ?case by (cases t) auto
  next
    case (Suc n)
    have l: "foldl ?f (v 0, 0) [1..<Suc (Suc n)] = ?f (foldl ?f (v 0, 0) [1..<Suc n]) (Suc n)" by simp
    consider "t \<le> n" | "t = Suc n" | "Suc n < t" by linarith
    then show ?case
    proof cases
      case 1
      then have "foldl ?f (v 0, 0) [1..<Suc n] = (v t, t)" using Suc by auto
      moreover have "v (Suc n) < v t" using assms(2) [of "Suc n"] 1 Suc.prems by simp
      ultimately show ?thesis unfolding l using 1 by auto
    next
      case 2
      then obtain j where "j < t" "foldl ?f (v 0, 0) [1..<Suc n] = (v j, j)" using Suc by auto
      moreover have "v j < v t" using assms(2) [of j] \<open>j < t\<close> assms(1) by simp
      ultimately show ?thesis unfolding l using 2 by simp
    next
      case 3
      then obtain j where "j < t" "foldl ?f (v 0, 0) [1..<Suc n] = (v j, j)" using Suc by auto
      then show ?thesis unfolding l using 3 by auto
    qed
  qed
  show ?thesis unfolding best_tone_def using step [of 7] assms(1) by simp
qed
lemma syn_cell:
  assumes "sl < 79" "j < 8" "tx < BLOCK_SZ" "y_bin_start P + bx * BLOCK_SZ + tx + 8 \<le> g_num_bins P"
  shows "syn_smem P mg bx combo ! (sl * WINDOW + tx + j) =
    (if combo mod time_off_range P + sym_off sl < g_num_blocks P
     then mg ! ring_addr P (combo div time_off_range P) (combo mod time_off_range P + sym_off sl) (y_bin_start P + bx * BLOCK_SZ + tx + j)
     else 0)"
proof -
  let ?i = "sl * WINDOW + (tx + j)"
  have w: "tx + j < WINDOW" using assms(2,3) by (simp add: WINDOW_def)
  have "sl * WINDOW \<le> 78 * WINDOW" by (rule mult_le_mono1) (use assms(1) in simp)
  then have i: "?i < y_slots * WINDOW" using w unfolding y_slots_def by linarith
  have d: "?i div WINDOW = sl" "?i mod WINDOW = tx + j" using w by simp_all
  have "syn_smem P mg bx combo ! ?i = syn_load P mg bx combo ?i" using i by (simp add: syn_smem_def coop_load_eq)
  then show ?thesis using assms(2,4) unfolding syn_load_def Let_def d by (simp add: add.assoc)
qed

lemma sym_off_tone:
  assumes "sl < 79"
  shows "sym_off sl < 79"
    and "sl < 58 \<Longrightarrow> ft8_tone x (sym_off sl) = kFT8_Gray_map ! bits3 x (3 * sl)"
    and "58 \<le> sl \<Longrightarrow> ft8_tone x (sym_off sl) = kFT8_Costas_pattern ! ((sl - 58) mod 7)"
proof -
  show "sym_off sl < 79" using assms by (auto simp: sym_off_def Let_def)
  show "ft8_tone x (sym_off sl) = kFT8_Gray_map ! bits3 x (3 * sl)" if "sl < 58"
    using that by (auto simp: sym_off_def ft8_tone_def ft8_data_before_def)
  assume s: "58 \<le> sl"
  define i where "i = sl - 58"
  have i: "i < 21" "sl = 58 + i" using s assms by (auto simp: i_def)
  consider "i < 7" | "7 \<le> i" "i < 14" | "14 \<le> i" by linarith
  then show "ft8_tone x (sym_off sl) = kFT8_Costas_pattern ! ((sl - 58) mod 7)"
  proof cases
    case 2
    then have "i mod 7 = i - 7" by (simp add: mod_if)
    then show ?thesis using 2 i by (simp add: sym_off_def ft8_tone_def)
  next
    case 3
    then have "i mod 7 = i - 14" using i by (simp add: mod_if)
    then show ?thesis using 3 i by (simp add: sym_off_def ft8_tone_def)
  qed (simp add: i sym_off_def ft8_tone_def)
qed

lemma clean_best_tone:
  assumes vis: "ring_shows P mg sub time_off fo (ft8_encode p) gap" and gap: "1 \<le> gap" and sl: "sl < 79"
    and cell: "\<And>j. j < 8 \<Longrightarrow> cell sl j = mg ! ring_addr P sub (time_off + sym_off sl) (fo + j)"
  shows "best_tone (cell sl) = unat (ft8_tone (msg_bit (ft8_codeword p)) (sym_off sl))"
proof -
  let ?t = "unat (ft8_encode p ! sym_off sl)"
  have k: "sym_off sl < 79" "ft8_encode p ! sym_off sl = ft8_tone (msg_bit (ft8_codeword p)) (sym_off sl)"
    using sym_off_tone(1) [OF sl] by (simp_all add: ft8_encode_tones)
  then have t: "?t < 8" and top: "\<And>j. j < 8 \<Longrightarrow> j \<noteq> ?t \<Longrightarrow>
      g_level P mg sub time_off fo (sym_off sl) j + gap \<le> g_level P mg sub time_off fo (sym_off sl) ?t"
    using vis by (auto simp: ring_shows_def ft8_encode_tones)
  have "best_tone (cell sl) = ?t"
  proof (rule best_tone_unique [OF t])
    fix j assume j: "j < 8" "j \<noteq> ?t"
    then have "uint (cell sl j) < uint (cell sl ?t)"
      using top [OF j] gap cell [OF j(1)] cell [OF t] by (simp add: g_level_def)
    then show "cell sl j < cell sl ?t" by (simp add: word_less_def)
  qed
  then show ?thesis by (simp only: k(2))
qed

lemma inv_gray_bits:
  "kFT8_inv_Gray_map_d (unat (kFT8_Gray_map ! bits3 x n)) = bits3 x n"
proof -
  have "bits3 x n < 8" by (simp add: bits3_def)
  then show ?thesis using inv_gray gray_map_d(1) by metis
qed

lemma clean_hard_word:
  assumes "\<And>sl. sl < 58 \<Longrightarrow> best_tone (cell sl) = unat (kFT8_Gray_map ! bits3 (msg_bit (ft8_codeword p)) (3 * sl))"
  shows "hard_word cell = codeword_bits p"
proof -
  let ?x = "msg_bit (ft8_codeword p)"
  have "dec_bit cell i = ?x i" if i: "i < 174" for i
  proof -
    have k: "i div 3 < 58" and m: "i mod 3 < 3" using i by simp_all
    have e: "i = 3 * (i div 3) + i mod 3" by simp
    have d: "dec_bit cell i \<longleftrightarrow> bits3 ?x (3 * (i div 3)) div 2 ^ (2 - i mod 3) mod 2 = 1"
      unfolding dec_bit_def assms [OF k] inv_gray_bits ..
    have "bits3 ?x n div 2 ^ (2 - b) mod 2 = 1 \<longleftrightarrow> ?x (n + b)" if "b < 3" for n b
    proof -
      have "b = 0 \<or> b = 1 \<or> b = 2" using that by linarith
      then show ?thesis by (elim disjE) (simp_all add: bits3_def)
    qed
    from this [OF m, of "3 * (i div 3)"] show ?thesis unfolding d by (simp flip: e)
  qed
  then show ?thesis unfolding hard_word_def codeword_bits_def by (intro map_cong) auto
qed

lemma clean_sync_matches:
  assumes "\<And>i. i < 21 \<Longrightarrow> best_tone (cell (58 + i)) = unat (kFT8_Costas_pattern ! (i mod 7))"
  shows "sync_matches cell = 21"
proof -
  have "best_tone (cell (58 + i)) = kFT8_Costas_d (i mod 7)" if "i < 21" for i
  proof -
    have "i mod 7 < 7" by simp
    then have "i mod 7 \<in> {0, 1, 2, 3, 4, 5, 6}" by auto
    then have "unat (kFT8_Costas_pattern ! (i mod 7)) = kFT8_Costas_d (i mod 7)"
      by (auto simp: kFT8_Costas_pattern_def kFT8_Costas_d_def)
    then show ?thesis using assms [OF that] by simp
  qed
  then have "filter (\<lambda>s. best_tone (cell (58 + s)) = kFT8_Costas_d (s mod 7)) [0..<21] = [0..<21]"
    by (simp del: upt_rec_numeral add: filter_id_conv)
  then show ?thesis unfolding sync_matches_def foldl_count_le by simp
qed
lemma syndrome_scan_eq:
  "ft8_syndrome_scan P mg max_cands ts =
     (length (List.map_filter (syn_thread P mg) ts), take max_cands (List.map_filter (syn_thread P mg) ts))"
proof (induction ts rule: rev_induct)
  case Nil
  then show ?case by (simp add: ft8_syndrome_scan_def map_filter_def)
next
  case (snoc t ts)
  then show ?case by (cases "syn_thread P mg t") (auto simp: ft8_syndrome_scan_def map_filter_def)
qed

text \<open>The places of the syndrome scan, and the thread of a place.\<close>

definition syn_places :: "syn_par \<Rightarrow> (nat \<times> nat \<times> nat) set" where
  "syn_places P = {(sub, time_off, fo). sub < g_time_osr P * g_freq_osr P \<and> time_off < time_off_range P \<and>
     y_bin_start P \<le> fo \<and> fo + 7 < y_bin_start P + y_scan_bins P \<and> fo + 8 \<le> g_num_bins P}"

lemma syn_place_thread:
  assumes "(sub, time_off, fo) \<in> syn_places P"
  defines "i \<equiv> fo - y_bin_start P"
  shows "(i div BLOCK_SZ, sub * time_off_range P + time_off, i mod BLOCK_SZ) \<in> set (syn_threads P)"
proof -
  have i: "i < y_scan_bins P" using assms by (auto simp: syn_places_def)
  have "i div BLOCK_SZ < (y_scan_bins P + BLOCK_SZ - 1) div BLOCK_SZ"
  proof -
    have "Suc (i div BLOCK_SZ) = (i + BLOCK_SZ) div BLOCK_SZ" by (simp add: BLOCK_SZ_def)
    also have "\<dots> \<le> (y_scan_bins P + BLOCK_SZ - 1) div BLOCK_SZ" by (rule div_le_mono) (use i in simp)
    finally show ?thesis by simp
  qed
  moreover have "i mod BLOCK_SZ < BLOCK_SZ" by (simp add: BLOCK_SZ_def)
  moreover have "sub * time_off_range P + time_off < time_off_range P * g_time_osr P * g_freq_osr P"
  proof -
    have s: "Suc sub \<le> g_time_osr P * g_freq_osr P" "time_off < time_off_range P" using assms by (auto simp: syn_places_def)
    have "sub * time_off_range P + time_off < Suc sub * time_off_range P" using s(2) by simp
    also have "\<dots> \<le> g_time_osr P * g_freq_osr P * time_off_range P" by (rule mult_le_mono1) (rule s(1))
    finally show ?thesis by (simp add: ac_simps)
  qed
  ultimately show ?thesis by (simp add: syn_threads_def)
qed

lemma clean_syn_thread:
  assumes p: "length p = 10" and vis: "ring_shows P mg sub time_off fo (ft8_encode p) gap" and gap: "1 \<le> gap"
    and tol: "0 \<le> y_max_syn_errors P" "y_min_sync_matches P \<le> 21" and place: "(sub, time_off, fo) \<in> syn_places P"
  defines "i \<equiv> fo - y_bin_start P"
  shows "syn_thread P mg (i div BLOCK_SZ, sub * time_off_range P + time_off, i mod BLOCK_SZ) =
    Some \<lparr>y_fo = fo, y_to = time_off mod 256, y_ts = sub div g_freq_osr P mod 256, y_fs = sub mod g_freq_osr P mod 256\<rparr>"
proof -
  let ?bx = "i div BLOCK_SZ" and ?tx = "i mod BLOCK_SZ" and ?combo = "sub * time_off_range P + time_off"
  have fo: "y_bin_start P + ?bx * BLOCK_SZ + ?tx = fo" using place by (simp add: i_def syn_places_def)
  have tx: "?tx < BLOCK_SZ" by (simp add: BLOCK_SZ_def)
  have c: "?combo div time_off_range P = sub" "?combo mod time_off_range P = time_off"
    using place by (simp_all add: syn_places_def)
  define cell where "cell = (\<lambda>sl t. syn_smem P mg ?bx ?combo ! (sl * WINDOW + ?tx + t))"
  have bins: "y_bin_start P + ?bx * BLOCK_SZ + ?tx + 8 \<le> g_num_bins P" unfolding fo using place by (simp add: syn_places_def)
  have cells: "cell sl j = mg ! ring_addr P sub (time_off + sym_off sl) (fo + j)" if "sl < 79" "j < 8" for sl j
  proof -
    have "sym_off sl < length (ft8_encode p)" using sym_off_tone(1) [OF that(1)] by (simp add: ft8_encode_tones)
    then have "time_off + sym_off sl < g_num_blocks P" using vis unfolding ring_shows_def by blast
    then show ?thesis using syn_cell [OF that tx bins, of mg ?combo] unfolding cell_def c fo by simp
  qed
  have best: "best_tone (cell sl) = unat (ft8_tone (msg_bit (ft8_codeword p)) (sym_off sl))" if "sl < 79" for sl
    by (rule clean_best_tone [OF vis gap that]) (rule cells [OF that])
  have "hard_word cell = codeword_bits p"
    by (rule clean_hard_word) (simp add: best sym_off_tone(2))
  then have fails: "syn_fails cell = 0"
    using syn_fails_facts [of cell] ldpc_check_word [of "codeword_bits p"] codeword_word [OF p] hard_word_props(1,2) [of cell] by simp
  have sync: "sync_matches cell = 21"
    by (rule clean_sync_matches) (simp add: best sym_off_tone(3))
  have acc: "syn_accepts P cell" using tol by (simp add: syn_accepts_def fails sync)
  have lim: "\<not> int (y_bin_start P + y_scan_bins P) - 7 \<le> int fo" using place by (simp add: syn_places_def)
  show ?thesis
    unfolding syn_thread_def prod.case Let_def fo c if_not_P [OF lim] cell_def [symmetric] if_P [OF acc] ..
qed

text \<open>
  C27. The syndrome scan misses no clean FT8 transmission: when each of its tones stands above the other seven
  anywhere the scan looks, the scan lists the place (its offsets cut to the bytes they are stored in), however many failing checks and missing sync symbols it
  tolerates and in whatever order the threads run, as long as the candidates fit.
\<close>

theorem syndrome_scan_finds:
  assumes "length p = 10" and "ring_shows P mg sub time_off fo (ft8_encode p) gap" and "1 \<le> gap"
    and "0 \<le> y_max_syn_errors P" and "y_min_sync_matches P \<le> 21" and "(sub, time_off, fo) \<in> syn_places P"
    and "mset ts = mset (syn_threads P)" and "ft8_syndrome_scan P mg max_cands ts = (total_found, cands)"
    and "total_found \<le> max_cands"
  shows "\<lparr>y_fo = fo, y_to = time_off mod 256, y_ts = sub div g_freq_osr P mod 256, y_fs = sub mod g_freq_osr P mod 256\<rparr> \<in> set cands"
proof -
  let ?i = "fo - y_bin_start P"
  have "cands = List.map_filter (syn_thread P mg) ts" using assms(8,9) by (auto simp: syndrome_scan_eq)
  moreover have "set ts = set (syn_threads P)" using assms(7) by (rule mset_eq_setD)
  ultimately show ?thesis
    using clean_syn_thread [OF assms(1-6)] syn_place_thread [OF assms(6)] by (auto simp: set_map_filter_Some)
qed

definition one_syn :: syn_par where
  "one_syn = \<lparr>g_snap_start = 0, g_ring_size = 79, g_num_bins = 8, g_num_blocks = 79, g_time_osr = 1, g_freq_osr = 1,
              y_scan_bins = 8, y_bin_start = 0, y_max_syn_errors = 0, y_min_sync_matches = 21\<rparr>"

theorem syndrome_scan_finds_witness:
  "\<lparr>y_fo = 0, y_to = 0, y_ts = 0, y_fs = 0\<rparr> \<in>
     set (snd (ft8_syndrome_scan one_syn (one_ring (ft8_encode (replicate 10 1))) 256 (syn_threads one_syn)))"
proof -
  let ?mg = "one_ring (ft8_encode (replicate 10 1))"
  obtain n cs where res: "ft8_syndrome_scan one_syn ?mg 256 (syn_threads one_syn) = (n, cs)" by fastforce
  have "ring_addr one_syn = ring_addr one_par"
    by (simp add: fun_eq_iff ring_addr_def g_block_stride_def one_par_def one_syn_def)
  then have "ring_shows one_syn ?mg 0 0 0 = ring_shows one_par ?mg 0 0 0"
    by (simp add: fun_eq_iff ring_shows_def g_level_def) (simp add: one_par_def one_syn_def)
  then have vis: "ring_shows one_syn ?mg 0 0 0 (ft8_encode (replicate 10 1)) 200" using one_ring_shows by simp
  have place: "(0, 0, 0) \<in> syn_places one_syn" by (simp add: syn_places_def one_syn_def time_off_range_def)
  have "n \<le> length (syn_threads one_syn)" using res by (auto simp: syndrome_scan_eq map_filter_def)
  then have fit: "n \<le> 256" by (simp add: syn_threads_def length_product one_syn_def time_off_range_def BLOCK_SZ_def)
  have par: "0 \<le> y_max_syn_errors one_syn" "y_min_sync_matches one_syn \<le> 21" by (simp_all add: one_syn_def)
  have len: "length (replicate 10 1 :: u8 list) = 10" by simp
  show ?thesis
    unfolding res snd_conv using syndrome_scan_finds [OF len vis _ par place refl res fit] by simp
qed

end
