(* ===== verification/MagBlock.thy ===== *)
theory MagBlock
  imports Prelude
begin

text \<open>
  The magnitude block (\<open>gm/cuda/MagBlock.cc\<close>): it gathers the input blocks in a buffer, and whenever more
  than two transform lengths have come in it transforms overlapping windows, stores the magnitudes in
  the magnitude ring and moves the buffer on by one transform length.  With retention it also keeps the input blocks
  in the complex ring, with a map from each slot of the magnitude ring to the input block its window begins at.
  Samples are a type variable.  The transform of a window at a frequency shift, with the magnitudes taken, is the
  argument \<open>row\<close>: it runs on the GPU, in cuFFT and in \<open>HostCuda\<close>, and fails when cuFFT does.  Copies on the GPU
  happen in the order of the stream, so they are modelled at the place where they are enqueued.  The copy that moves
  the buffer on is between overlapping areas of one buffer, for which CUDA promises nothing: what it leaves in the
  buffer is the argument \<open>dmove\<close>, and nothing is assumed of it.
\<close>

section \<open>State\<close>

definition kComplexCompositeBlocks :: nat where "kComplexCompositeBlocks = 4096"

record mb_geom =
  mb_N :: nat
  rfft_length :: nat
  mb_time_osr :: nat
  mb_freq_osr :: nat
  retain_complex :: bool

record ('a, 'm) mag_block =
  demodData :: "'a list"
  buff_pos :: nat
  mag_ring :: "'m list list"
  mag_write :: u64
  complex_ring :: "'a list list"
  complex_write :: u64
  cplx_wi :: u64
  slot_cplx_idx :: "u64 list"

text \<open>A new block; the contents of the two device buffers are arbitrary.\<close>

definition mag_block_new :: "mb_geom \<Rightarrow> 'a list \<Rightarrow> 'm list list \<Rightarrow> 'a list list \<Rightarrow> ('a, 'm) mag_block" where
  "mag_block_new G demod mags cplx =
     \<lparr>demodData = demod, buff_pos = 0, mag_ring = mags, mag_write = 0, complex_ring = cplx, complex_write = 0, cplx_wi = 0,
      slot_cplx_idx = replicate (mb_N G) 0\<rparr>"

section \<open>Operations\<close>

text \<open>A copy into a buffer.\<close>

definition write_at :: "'a list \<Rightarrow> nat \<Rightarrow> 'a list \<Rightarrow> 'a list" where
  "write_at buf p xs = take p buf @ xs @ drop (p + length xs) buf"

definition ring_slot :: "u64 \<Rightarrow> nat \<Rightarrow> nat" where
  "ring_slot i n = unat i mod n"

text \<open>The rows of a slot, sub-step by sub-step; none when a transform fails.\<close>

definition slot_rows :: "mb_geom \<Rightarrow> (nat \<Rightarrow> 'a list \<Rightarrow> 'm list option) \<Rightarrow> 'a list \<Rightarrow> 'm list option" where
  "slot_rows G row demod =
     map_option concat
       (those (List.map (\<lambda>(t, f). row f (take (rfft_length G) (drop (t * rfft_length G div mb_time_osr G) demod)))
          (List.product [0..<mb_time_osr G] [0..<mb_freq_osr G])))"

definition retain_block :: "'a list \<Rightarrow> ('a, 'm) mag_block \<Rightarrow> ('a, 'm) mag_block" where
  "retain_block blk s =
     s\<lparr>complex_ring := (complex_ring s)[ring_slot (cplx_wi s) kComplexCompositeBlocks := blk],
       cplx_wi := cplx_wi s + 1, complex_write := cplx_wi s + 1\<rparr>"

definition doCopy ::
  "mb_geom \<Rightarrow> (nat \<Rightarrow> nat \<Rightarrow> 'a list \<Rightarrow> 'a list) \<Rightarrow> (nat \<Rightarrow> 'a list \<Rightarrow> 'm list option) \<Rightarrow> 'a list
     \<Rightarrow> ('a, 'm) mag_block \<Rightarrow> ('a, 'm) mag_block option" where
  "doCopy G dmove row blk s =
     (let s = s\<lparr>demodData := write_at (demodData s) (buff_pos s) blk, buff_pos := buff_pos s + length blk\<rparr>;
          s = (if retain_complex G then retain_block blk s else s)
      in if 2 * rfft_length G < buff_pos s
         then
           (let cplx_start = (if retain_complex G then cplx_wi s - of_nat (buff_pos s div length blk) else 0)
            in case slot_rows G row (demodData s) of
                 None \<Rightarrow> None
               | Some rows \<Rightarrow>
                   (let bp = buff_pos s - rfft_length G; wi = mag_write s
                    in Some (s\<lparr>buff_pos := bp,
                               demodData := dmove (rfft_length G) bp (demodData s),
                               mag_ring := (mag_ring s)[ring_slot wi (mb_N G) := rows],
                               slot_cplx_idx :=
                                 (if retain_complex G then (slot_cplx_idx s)[ring_slot wi (mb_N G) := cplx_start]
                                  else slot_cplx_idx s),
                               mag_write := wi + 1\<rparr>)))
         else Some s)"

text \<open>A copy that behaves as \<open>memmove\<close>: what the program expects of the move, and CUDA does not promise.\<close>

definition moves_overlapping :: "(nat \<Rightarrow> nat \<Rightarrow> 'a list \<Rightarrow> 'a list) \<Rightarrow> bool" where
  "moves_overlapping dmove \<longleftrightarrow>
     (\<forall>src n buf. src + n \<le> length buf \<longrightarrow> dmove src n buf = write_at buf 0 (take n (drop src buf)))"

text \<open>\<open>run\<close>, once \<open>getPosition\<close> has returned \<open>nxt\<close>: a reader more than four blocks behind skips them all.\<close>

function mag_catch_up ::
  "mb_geom \<Rightarrow> (nat \<Rightarrow> nat \<Rightarrow> 'a list \<Rightarrow> 'a list) \<Rightarrow> (nat \<Rightarrow> 'a list \<Rightarrow> 'm list option) \<Rightarrow> (nat \<Rightarrow> 'a list) \<Rightarrow> nat \<Rightarrow> nat \<Rightarrow> ('a, 'm) mag_block
     \<Rightarrow> (nat \<times> ('a, 'm) mag_block) option" where
  "mag_catch_up G dmove row inp now nxt s =
     (if now < nxt then
        (if 4 < nxt - now then Some (nxt, s)
         else case doCopy G dmove row (inp now) s of
                None \<Rightarrow> None
              | Some s' \<Rightarrow> mag_catch_up G dmove row inp (now + 1) nxt s')
      else Some (now, s))"
  by pat_completeness auto
termination by (relation "measure (\<lambda>(G, dmove, row, inp, now, nxt, s). nxt - now)") auto

declare mag_catch_up.simps [simp del]

text \<open>The blocks of a list, one after another.\<close>

primrec feed_blocks ::
  "mb_geom \<Rightarrow> (nat \<Rightarrow> nat \<Rightarrow> 'a list \<Rightarrow> 'a list) \<Rightarrow> (nat \<Rightarrow> 'a list \<Rightarrow> 'm list option) \<Rightarrow> 'a list list \<Rightarrow> ('a, 'm) mag_block \<Rightarrow> ('a, 'm) mag_block option" where
  "feed_blocks G dmove row [] s = Some s"
| "feed_blocks G dmove row (b # bs) s = (case doCopy G dmove row b s of None \<Rightarrow> None | Some s' \<Rightarrow> feed_blocks G dmove row bs s')"

section \<open>The windows\<close>

lemma length_write_at [simp]: "p + length xs \<le> length buf \<Longrightarrow> length (write_at buf p xs) = length buf"
  by (simp add: write_at_def)

lemma take_write_at: "p + length xs \<le> length buf \<Longrightarrow> take (p + length xs) (write_at buf p xs) = take p buf @ xs"
  by (simp add: write_at_def)

lemma slot_rows_take:
  assumes "0 < mb_time_osr G" shows "slot_rows G row (take (2 * rfft_length G) demod) = slot_rows G row demod"
proof -
  have "take (rfft_length G) (drop (t * rfft_length G div mb_time_osr G) (take (2 * rfft_length G) demod)) =
      take (rfft_length G) (drop (t * rfft_length G div mb_time_osr G) demod)" if "t < mb_time_osr G" for t
  proof -
    have "t * rfft_length G div mb_time_osr G \<le> mb_time_osr G * rfft_length G div mb_time_osr G"
      by (intro div_le_mono mult_le_mono1) (use that in simp)
    then have "t * rfft_length G div mb_time_osr G \<le> rfft_length G" using assms by simp
    then have "min (rfft_length G) (2 * rfft_length G - t * rfft_length G div mb_time_osr G) = rfft_length G" by linarith
    then show ?thesis by (simp add: drop_take)
  qed
  then have "List.map (\<lambda>(t, f). row f (take (rfft_length G) (drop (t * rfft_length G div mb_time_osr G) (take (2 * rfft_length G) demod))))
        (List.product [0..<mb_time_osr G] [0..<mb_freq_osr G]) =
      List.map (\<lambda>(t, f). row f (take (rfft_length G) (drop (t * rfft_length G div mb_time_osr G) demod)))
        (List.product [0..<mb_time_osr G] [0..<mb_freq_osr G])"
    by (intro map_cong refl) auto
  then show ?thesis by (simp only: slot_rows_def)
qed

lemma take_write_0: "take (length xs) (write_at buf 0 xs) = xs"
  by (simp add: write_at_def)

text \<open>\<open>mag_window G bs v\<close>: the samples of window \<open>v\<close>, two transform lengths of the input.\<close>

definition mag_window :: "mb_geom \<Rightarrow> 'a list list \<Rightarrow> nat \<Rightarrow> 'a list" where
  "mag_window G bs v = take (2 * rfft_length G) (drop (v * rfft_length G) (concat bs))"

lemma length_concat_blocks: "\<forall>b\<in>set bs. length b = L \<Longrightarrow> length (concat bs) = length bs * L"
  by (induction bs) simp_all

lemma mag_window_snoc: "(v + 2) * rfft_length G \<le> length (concat bs) \<Longrightarrow> mag_window G (bs @ [b]) v = mag_window G bs v"
proof -
  assume a: "(v + 2) * rfft_length G \<le> length (concat bs)"
  then have "v * rfft_length G + 2 * rfft_length G \<le> length (concat bs)" by (simp add: algebra_simps)
  then have "2 * rfft_length G \<le> length (drop (v * rfft_length G) (concat bs))" "v * rfft_length G \<le> length (concat bs)" by simp_all
  then show ?thesis by (simp add: mag_window_def)
qed

text \<open>A ring of \<open>n\<close> places that holds the values \<open>f\<close> of the last \<open>n\<close> of \<open>w\<close>.\<close>

definition ring_of :: "nat \<Rightarrow> nat \<Rightarrow> (nat \<Rightarrow> 'b) \<Rightarrow> 'b list \<Rightarrow> bool" where
  "ring_of n w f xs \<longleftrightarrow> length xs = n \<and> (\<forall>v<w. w \<le> v + n \<longrightarrow> xs ! (v mod n) = f v)"

text \<open>The same of the entries that satisfy \<open>Q\<close> only.\<close>

definition ring_where :: "(nat \<Rightarrow> bool) \<Rightarrow> nat \<Rightarrow> nat \<Rightarrow> (nat \<Rightarrow> 'b) \<Rightarrow> 'b list \<Rightarrow> bool" where
  "ring_where Q n w f xs \<longleftrightarrow> length xs = n \<and> (\<forall>v<w. w \<le> v + n \<longrightarrow> Q v \<longrightarrow> xs ! (v mod n) = f v)"

lemma ring_of_where: "ring_of n w f xs = ring_where (\<lambda>_. True) n w f xs"
  by (simp add: ring_of_def ring_where_def)

lemma ring_where_cong: "ring_where Q n w f xs \<Longrightarrow> (\<And>v. v < w \<Longrightarrow> f v = g v) \<Longrightarrow> ring_where Q n w g xs"
  by (simp add: ring_where_def)

lemma ring_where_put: "0 < n \<Longrightarrow> ring_where Q n w f xs \<Longrightarrow> (Q w \<Longrightarrow> y = f w) \<Longrightarrow> ring_where Q n (Suc w) f (xs[w mod n := y])"
proof -
  assume n: "0 < n" and r: "ring_where Q n w f xs" and y: "Q w \<Longrightarrow> y = f w"
  have ne: "w mod n \<noteq> v mod n" if "v < w" "Suc w \<le> v + n" for v
  proof
    assume "w mod n = v mod n"
    then have "n dvd w - v" using that(1) by (metis less_imp_le mod_eq_dvd_iff_nat)
    then show False using that by (auto dest!: dvd_imp_le)
  qed
  show ?thesis
    unfolding ring_where_def
  proof (intro conjI allI impI)
    show "length (xs[w mod n := y]) = n" using r by (simp add: ring_where_def)
    show "xs[w mod n := y] ! (v mod n) = f v" if "v < Suc w" "Suc w \<le> v + n" "Q v" for v
      using that ne [of v] r n y by (cases "v = w") (simp_all add: ring_where_def)
  qed
qed

lemma ring_of_cong: "ring_of n w f xs \<Longrightarrow> (\<And>v. v < w \<Longrightarrow> f v = g v) \<Longrightarrow> ring_of n w g xs"
  unfolding ring_of_where by (rule ring_where_cong)

lemma ring_of_put: "0 < n \<Longrightarrow> ring_of n w f xs \<Longrightarrow> ring_of n (Suc w) f (xs[w mod n := f w])"
  unfolding ring_of_where by (rule ring_where_put) simp_all

text \<open>
  The invariant after \<open>bs\<close>, with \<open>w\<close> windows done.  \<open>mv\<close> says that the device moves overlapping areas; without it
  nothing is said of the buffer once it has been moved, nor of the magnitudes of the windows after the first.
\<close>

definition mag_inv :: "bool \<Rightarrow> mb_geom \<Rightarrow> (nat \<Rightarrow> 'a list \<Rightarrow> 'm list option) \<Rightarrow> nat \<Rightarrow> nat \<Rightarrow> 'a list list \<Rightarrow> nat \<Rightarrow> ('a, 'm) mag_block \<Rightarrow> bool" where
  "mag_inv mv G row L B bs w s \<longleftrightarrow>
     w * B \<le> length bs \<and> length bs - w * B \<le> 2 * B \<and>
     (0 < w \<longrightarrow> B < length bs - w * B) \<and> buff_pos s = (length bs - w * B) * L \<and>
     (mv \<or> w = 0 \<longrightarrow> length (demodData s) = 4 * rfft_length G \<and>
        take (buff_pos s) (demodData s) = drop (w * rfft_length G) (concat bs)) \<and>
     mag_write s = of_nat w \<and>
     ring_where (\<lambda>v. mv \<or> v = 0) (mb_N G) w (\<lambda>v. slot_rows G row (mag_window G bs v)) (List.map Some (mag_ring s)) \<and>
     length (slot_cplx_idx s) = mb_N G \<and>
     (retain_complex G \<longrightarrow> cplx_wi s = of_nat (length bs) \<and> complex_write s = cplx_wi s \<and>
        ring_of kComplexCompositeBlocks (length bs) (\<lambda>j. bs ! j) (complex_ring s) \<and>
        (\<forall>b\<in>set (complex_ring s). length b = L) \<and>
        ring_of (mb_N G) w (\<lambda>v. of_nat (v * B)) (slot_cplx_idx s))"

text \<open>What a step needs of the sizes.\<close>

definition mb_ok :: "mb_geom \<Rightarrow> nat \<Rightarrow> nat \<Rightarrow> bool" where
  "mb_ok G L B \<longleftrightarrow> 0 < L \<and> 0 < B \<and> rfft_length G = L * B \<and> 0 < mb_N G \<and> 0 < mb_time_osr G"

lemma ring_slot_nat: "i < 2 ^ 64 \<Longrightarrow> ring_slot (of_nat i) n = i mod n"
  by (simp add: ring_slot_def unat_of_nat)

lemma feed_inv:
  assumes inv: "mag_inv mv G row L B bs w s" and ok: "mb_ok G L B" and len: "length blk = L" "\<forall>b\<in>set bs. length b = L"
    and s: "t = s\<lparr>demodData := write_at (demodData s) (buff_pos s) blk, buff_pos := buff_pos s + length blk\<rparr>"
  shows "buff_pos t = (Suc (length bs) - w * B) * L"
    and "mv \<or> w = 0 \<Longrightarrow> length (demodData t) = 4 * rfft_length G \<and> take (buff_pos t) (demodData t) = drop (w * rfft_length G) (concat (bs @ [blk]))"
proof -
  have bp: "buff_pos s = (length bs - w * B) * L" and le: "w * B \<le> length bs" "length bs - w * B \<le> 2 * B"
    using inv unfolding mag_inv_def by blast+
  show "buff_pos t = (Suc (length bs) - w * B) * L" using le(1) by (simp add: s bp len Suc_diff_le algebra_simps)
  assume mv: "mv \<or> w = 0"
  have d: "length (demodData s) = 4 * rfft_length G" "take (buff_pos s) (demodData s) = drop (w * rfft_length G) (concat bs)"
    using inv mv unfolding mag_inv_def by blast+
  have "buff_pos s + L \<le> 2 * B * L + L" unfolding bp using le(2) mult_le_mono1 [of _ "2 * B" L] by simp
  also have "\<dots> \<le> 4 * rfft_length G" using ok by (simp add: mb_ok_def)
  finally have room: "buff_pos s + length blk \<le> length (demodData s)" by (simp add: len d)
  have "w * rfft_length G \<le> length (concat bs)"
    unfolding length_concat_blocks [OF len(2)] using ok mult_le_mono1 [OF le(1), of L] by (simp add: mb_ok_def ac_simps)
  then show "length (demodData t) = 4 * rfft_length G \<and> take (buff_pos t) (demodData t) = drop (w * rfft_length G) (concat (bs @ [blk]))"
    using take_write_at [OF room] d room by (simp add: s)
qed

lemma mult_less_L: "0 < L \<Longrightarrow> 2 * (L * B) < k * L \<longleftrightarrow> 2 * B < (k :: nat)"
proof -
  assume "0 < L"
  moreover have "2 * (L * B) = 2 * B * L" by simp
  ultimately show ?thesis by (simp only: mult_less_cancel2) simp
qed

lemma doCopy_inv:
  assumes inv: "mag_inv mv G row L B bs w s" and ok: "mb_ok G L B" and len: "length blk = L" "\<forall>b\<in>set bs. length b = L"
    and small: "length bs < 2 ^ 64" and step: "doCopy G dmove row blk s = Some s'" and move: "mv \<Longrightarrow> moves_overlapping dmove"
  shows "mag_inv mv G row L B (bs @ [blk]) (if 2 * B < Suc (length bs) - w * B then Suc w else w) s'"
proof -
  let ?n = "length bs" and ?bs = "bs @ [blk]" and ?rf = "rfft_length G"
  define t where "t = s\<lparr>demodData := write_at (demodData s) (buff_pos s) blk, buff_pos := buff_pos s + length blk\<rparr>"
  define u where "u = (if retain_complex G then retain_block blk t else t)"
  note f = feed_inv [OF inv ok len t_def]
  have u: "demodData u = demodData t" "buff_pos u = buff_pos t" "mag_write u = mag_write s" "mag_ring u = mag_ring s"
    "slot_cplx_idx u = slot_cplx_idx s"
    by (simp_all add: u_def t_def retain_block_def)
  have L: "0 < L" "0 < B" "?rf = L * B" "0 < mb_N G" "0 < mb_time_osr G" using ok by (simp_all add: mb_ok_def)
  have i: "w * B \<le> ?n" "?n - w * B \<le> 2 * B" "0 < w \<longrightarrow> B < ?n - w * B" "mag_write s = of_nat w"
    "ring_where (\<lambda>v. mv \<or> v = 0) (mb_N G) w (\<lambda>v. slot_rows G row (mag_window G bs v)) (List.map Some (mag_ring s))" "length (slot_cplx_idx s) = mb_N G"
    using inv by (simp_all add: mag_inv_def)
  have total: "length (concat bs) = ?n * L" by (rule length_concat_blocks [OF len(2)])
  have old: "mag_window G ?bs v = mag_window G bs v" if "v < w" for v
  proof (rule mag_window_snoc)
    have "(v + 2) * B \<le> (w + 1) * B" by (rule mult_le_mono1) (use that in simp)
    also have "\<dots> \<le> ?n" using i(1,3) that by simp
    finally have "(v + 2) * B * L \<le> ?n * L" by (rule mult_le_mono1)
    then show "(v + 2) * ?rf \<le> length (concat bs)" by (simp only: total L(3) ac_simps)
  qed
  have mags: "ring_where (\<lambda>v. mv \<or> v = 0) (mb_N G) w (\<lambda>v. slot_rows G row (mag_window G ?bs v)) (List.map Some (mag_ring s))"
    by (rule ring_where_cong [OF i(5)]) (simp add: old)
  have cplx: "cplx_wi u = of_nat (Suc ?n) \<and> complex_write u = cplx_wi u \<and>
      ring_of kComplexCompositeBlocks (Suc ?n) (\<lambda>j. ?bs ! j) (complex_ring u) \<and>
      (\<forall>b\<in>set (complex_ring u). length b = L) \<and>
      ring_of (mb_N G) w (\<lambda>v. of_nat (v * B)) (slot_cplx_idx s)" if r: "retain_complex G"
  proof -
    have c: "cplx_wi s = of_nat ?n" "ring_of kComplexCompositeBlocks ?n (\<lambda>j. bs ! j) (complex_ring s)"
      "ring_of (mb_N G) w (\<lambda>v. of_nat (v * B)) (slot_cplx_idx s)" "\<forall>b\<in>set (complex_ring s). length b = L"
      using inv r by (simp_all add: mag_inv_def)
    have "ring_of kComplexCompositeBlocks ?n (\<lambda>j. ?bs ! j) (complex_ring s)"
      by (rule ring_of_cong [OF c(2)]) (simp add: nth_append)
    then have "ring_of kComplexCompositeBlocks (Suc ?n) (\<lambda>j. ?bs ! j) ((complex_ring s)[?n mod kComplexCompositeBlocks := ?bs ! ?n])"
      by (rule ring_of_put [rotated]) (simp add: kComplexCompositeBlocks_def)
    moreover have "\<forall>b\<in>set ((complex_ring s)[?n mod kComplexCompositeBlocks := blk]). length b = L"
      using c(4) len(1) set_update_subset_insert [of "complex_ring s"] by blast
    ultimately show ?thesis using c r by (simp add: u_def t_def retain_block_def ring_slot_nat [OF small] add.commute)
  qed
  have bp: "buff_pos u = (Suc ?n - w * B) * L" by (simp add: u f(1))
  have trig: "2 * ?rf < buff_pos u \<longleftrightarrow> 2 * B < Suc ?n - w * B" unfolding bp L(3) by (rule mult_less_L [OF L(1)])
  have step': "doCopy G dmove row blk s =
      (if 2 * ?rf < buff_pos u
       then (case slot_rows G row (demodData u) of
               None \<Rightarrow> None
             | Some rows \<Rightarrow> Some (u\<lparr>buff_pos := buff_pos u - ?rf,
                  demodData := dmove ?rf (buff_pos u - ?rf) (demodData u),
                  mag_ring := (mag_ring u)[ring_slot (mag_write u) (mb_N G) := rows],
                  slot_cplx_idx := (if retain_complex G
                     then (slot_cplx_idx u)[ring_slot (mag_write u) (mb_N G) := cplx_wi u - of_nat (buff_pos u div length blk)]
                     else slot_cplx_idx u),
                  mag_write := mag_write u + 1\<rparr>))
       else Some u)"
    unfolding doCopy_def t_def [symmetric] Let_def u_def [symmetric] by simp
  show ?thesis
  proof (cases "2 * ?rf < buff_pos u")
    case False
    then have "s' = u" using step step' by simp
    then show ?thesis
      using False trig f i mags cplx total u by (auto simp: mag_inv_def)
  next
    case True
    then obtain rows where rows: "slot_rows G row (demodData u) = Some rows" using step step' by (auto split: option.splits)
    have k: "2 * B < Suc ?n - w * B" using True trig by simp
    have wn: "w \<le> w * B" using L(2) by simp
    have w64: "w < 2 ^ 64" using wn i(1) small by linarith
    have pos: "buff_pos u - ?rf = (Suc ?n - Suc w * B) * L" unfolding bp L(3) by (simp add: algebra_simps diff_mult_distrib)
    have room: "buff_pos u \<le> 4 * ?rf"
    proof -
      have "Suc ?n - w * B \<le> 4 * B" using i(1,2) L(2) by linarith
      then have "(Suc ?n - w * B) * L \<le> 4 * B * L" by (rule mult_le_mono1)
      then show ?thesis unfolding bp L(3) by (simp add: ac_simps)
    qed
    let ?sh = "take (buff_pos u - ?rf) (drop ?rf (demodData u))"
    have demod: "length (dmove ?rf (buff_pos u - ?rf) (demodData u)) = 4 * ?rf \<and>
        take (buff_pos u - ?rf) (dmove ?rf (buff_pos u - ?rf) (demodData u)) = drop (Suc w * ?rf) (concat ?bs)" if mv: "mv"
    proof -
      have d: "length (demodData u) = 4 * ?rf" "take (buff_pos u) (demodData u) = drop (w * ?rf) (concat ?bs)" using f(2) mv by (simp_all add: u)
      have lsh: "length ?sh = buff_pos u - ?rf" using room True by (simp add: d)
      have m: "dmove ?rf (buff_pos u - ?rf) (demodData u) = write_at (demodData u) 0 ?sh"
        using move [OF mv] room True by (simp add: moves_overlapping_def d)
      have "take (length ?sh) (write_at (demodData u) 0 ?sh) = ?sh" by (rule take_write_0)
      also have "?sh = drop ?rf (take (buff_pos u) (demodData u))" using True by (simp add: drop_take)
      also have "\<dots> = drop (Suc w * ?rf) (concat ?bs)" by (simp only: d drop_drop mult_Suc)
      finally have "take (buff_pos u - ?rf) (write_at (demodData u) 0 ?sh) = drop (Suc w * ?rf) (concat ?bs)" by (simp only: lsh)
      moreover have "length (write_at (demodData u) 0 ?sh) = 4 * ?rf" using lsh room True by (simp add: d)
      ultimately show ?thesis by (simp only: m)
    qed
    have new: "Some rows = slot_rows G row (mag_window G ?bs w)" if mv: "mv \<or> w = 0"
    proof -
      have d: "take (buff_pos u) (demodData u) = drop (w * ?rf) (concat ?bs)" using f(2) mv by (simp add: u)
      have "mag_window G ?bs w = take (2 * ?rf) (take (buff_pos u) (demodData u))" by (simp only: mag_window_def d)
      then have "mag_window G ?bs w = take (2 * ?rf) (demodData u)" using True by (simp only: take_take) (simp add: min_absorb1)
      then show ?thesis using rows slot_rows_take [OF L(5), of row "demodData u"] by simp
    qed
    have mags': "ring_where (\<lambda>v. mv \<or> v = 0) (mb_N G) (Suc w) (\<lambda>v. slot_rows G row (mag_window G ?bs v))
        (List.map Some ((mag_ring s)[ring_slot (of_nat w) (mb_N G) := rows]))"
      using ring_where_put [OF L(4) mags new] by (simp add: map_update ring_slot_nat [OF w64])
    have idx: "ring_of (mb_N G) (Suc w) (\<lambda>v. of_nat (v * B))
        ((slot_cplx_idx s)[ring_slot (of_nat w) (mb_N G) := cplx_wi u - of_nat (buff_pos u div length blk)])"
      if r: "retain_complex G"
    proof -
      have "cplx_wi u - of_nat (buff_pos u div length blk) = of_nat (Suc ?n) - of_nat (Suc ?n - w * B)"
        using cplx [OF r] L(1) by (simp add: bp len)
      also have "\<dots> = of_nat (w * B)" using i(1) by (simp only: of_nat_diff [OF le_SucI [OF i(1)]]) simp
      finally show ?thesis
        using ring_of_put [OF L(4), of w "\<lambda>v. of_nat (v * B)" "slot_cplx_idx s"] cplx [OF r] by (simp add: ring_slot_nat [OF w64])
    qed
    define s2 where "s2 = u\<lparr>buff_pos := buff_pos u - ?rf, demodData := dmove ?rf (buff_pos u - ?rf) (demodData u),
                  mag_ring := (mag_ring u)[ring_slot (mag_write u) (mb_N G) := rows],
                  slot_cplx_idx := (if retain_complex G
                     then (slot_cplx_idx u)[ring_slot (mag_write u) (mb_N G) := cplx_wi u - of_nat (buff_pos u div length blk)]
                     else slot_cplx_idx u),
                  mag_write := mag_write u + 1\<rparr>"
    have s2: "s' = s2" using step unfolding step' if_P [OF True] rows s2_def by simp
    have "Suc w * B \<le> length ?bs" "length ?bs - Suc w * B \<le> 2 * B" "B < length ?bs - Suc w * B"
      using k i(1,2) L(2) by simp_all
    then have "mag_inv mv G row L B ?bs (Suc w) s2"
      unfolding mag_inv_def using pos demod mags' idx cplx i(4,6) by (simp add: s2_def u)
    then show ?thesis using k s2 by simp
  qed
qed

section \<open>A run\<close>

lemma feed_blocks_snoc:
  "feed_blocks G dmove row (bs @ [b]) s = (case feed_blocks G dmove row bs s of None \<Rightarrow> None | Some t \<Rightarrow> doCopy G dmove row b t)"
  by (induction bs arbitrary: s) (simp_all split: option.splits)

text \<open>The buffers a new block allocates.\<close>

definition mb_mem :: "mb_geom \<Rightarrow> nat \<Rightarrow> 'a list \<Rightarrow> 'm list list \<Rightarrow> 'a list list \<Rightarrow> bool" where
  "mb_mem G L demod mags cplx \<longleftrightarrow> length demod = 4 * rfft_length G \<and> length mags = mb_N G \<and>
     length cplx = kComplexCompositeBlocks \<and> (\<forall>b\<in>set cplx. length b = L)"

lemma mag_inv_new: "mb_mem G L demod mags cplx \<Longrightarrow> mb_ok G L B \<Longrightarrow> mag_inv mv G row L B [] 0 (mag_block_new G demod mags cplx)"
  by (simp add: mag_inv_def mag_block_new_def mb_mem_def ring_of_def ring_where_def)

lemma feed_blocks_inv:
  assumes "mb_mem G L demod mags cplx" and ok: "mb_ok G L B" and move: "mv \<Longrightarrow> moves_overlapping dmove"
  shows "feed_blocks G dmove row bs (mag_block_new G demod mags cplx) = Some s \<Longrightarrow> \<forall>b\<in>set bs. length b = L \<Longrightarrow> length bs \<le> 2 ^ 64 \<Longrightarrow>
     \<exists>w. mag_inv mv G row L B bs w s"
proof (induction bs arbitrary: s rule: rev_induct)
  case Nil
  then show ?case using mag_inv_new [OF assms(1,2)] by auto
next
  case (snoc b bs)
  then obtain t where t: "feed_blocks G dmove row bs (mag_block_new G demod mags cplx) = Some t" "doCopy G dmove row b t = Some s"
    by (auto simp: feed_blocks_snoc split: option.splits)
  then obtain w where "mag_inv mv G row L B bs w t" using snoc by auto
  from doCopy_inv [OF this ok _ _ _ t(2) move] snoc.prems show ?case by auto
qed

text \<open>The number of windows of \<open>n\<close> blocks.\<close>

lemma windows_of:
  assumes "mag_inv mv G row L B bs w s" and "0 < B" shows "w = (length bs - (B + 1)) div B"
proof -
  let ?n = "length bs"
  have i: "w * B \<le> ?n" "?n - w * B \<le> 2 * B" "0 < w \<longrightarrow> B < ?n - w * B" using assms(1) by (simp_all add: mag_inv_def)
  show ?thesis
  proof (cases "w = 0")
    case True
    then have "?n - (B + 1) < B" using i(2) assms(2) by simp
    then show ?thesis using True by simp
  next
    case False
    then obtain d where d: "?n - (B + 1) = w * B + d" "d < B"
      using i assms(2) by (intro that [of "?n - (B + 1) - w * B"]) simp_all
    then show ?thesis by simp
  qed
qed

lemma those_total: "(\<And>x. x \<in> set xs \<Longrightarrow> f x \<noteq> None) \<Longrightarrow> those (List.map f xs) \<noteq> None"
  by (induction xs) (auto split: option.splits)

lemma doCopy_total:
  assumes "\<And>f xs. row f xs \<noteq> None" shows "doCopy G dmove row b s \<noteq> None"
proof -
  have "slot_rows G row demod \<noteq> None" for demod
    unfolding slot_rows_def option.map_disc_iff by (rule those_total) (simp add: case_prod_beta assms)
  then have "\<exists>rows. slot_rows G row demod = Some rows" for demod by blast
  then obtain h where h: "slot_rows G row demod = Some (h demod)" for demod by metis
  show ?thesis unfolding doCopy_def Let_def h option.case by (simp only: if_distrib [of "\<lambda>x. x \<noteq> None"] option.distinct simp_thms if_cancel)
qed

lemma feed_blocks_total:
  assumes "\<And>f xs. row f xs \<noteq> None" shows "feed_blocks G dmove row bs s \<noteq> None"
proof (induction bs arbitrary: s)
  case (Cons b bs)
  obtain t where "doCopy G dmove row b s = Some t" using doCopy_total [of row G dmove b s, OF assms] by blast
  then show ?case using Cons by simp
qed simp

lemma mag_inv_slot:
  assumes "mag_inv mv G row L B bs w s" and "v < w" "w \<le> v + mb_N G" and "mv \<or> v = 0" and "0 < mb_N G"
  shows "Some (mag_ring s ! (v mod mb_N G)) = slot_rows G row (mag_window G bs v)"
proof -
  have r: "length (mag_ring s) = mb_N G" "List.map Some (mag_ring s) ! (v mod mb_N G) = slot_rows G row (mag_window G bs v)"
    using assms(1-4) by (auto simp: mag_inv_def ring_where_def)
  moreover have "v mod mb_N G < length (mag_ring s)" using r(1) assms(5) by simp
  ultimately show ?thesis by simp
qed

text \<open>
  C14. The magnitude block after any sequence of input blocks, whatever the device leaves behind when it moves the
  overlapping buffer: it has stored one slot per transform length and its counters say so; the first slot holds the
  transforms of the first two transform lengths of input; with retention the complex ring holds the last 4096 input
  blocks, and the map takes each slot of the whole ring to the input block its window begins with.  It fails only
  when a transform does.
\<close>

theorem mag_block_windows:
  assumes mem: "mb_mem G L demod mags cplx" and ok: "mb_ok G L B" and len: "\<forall>b\<in>set bs. length b = L" "length bs \<le> 2 ^ 64"
    and total: "\<And>f xs. row f xs \<noteq> None"
  shows "\<exists>s. feed_blocks G dmove row bs (mag_block_new G demod mags cplx) = Some s \<and>
     (let w = (length bs - (B + 1)) div B
      in mag_write s = of_nat w \<and>
         (0 < w \<and> w \<le> mb_N G \<longrightarrow> Some (mag_ring s ! 0) = slot_rows G row (mag_window G bs 0)) \<and>
         (retain_complex G \<longrightarrow> complex_write s = of_nat (length bs) \<and>
            (\<forall>j<length bs. length bs \<le> j + 4096 \<longrightarrow> complex_ring s ! (j mod 4096) = bs ! j) \<and>
            (\<forall>v<w. w \<le> v + mb_N G \<longrightarrow> slot_cplx_idx s ! (v mod mb_N G) = of_nat (v * B))))"
proof -
  obtain s where s: "feed_blocks G dmove row bs (mag_block_new G demod mags cplx) = Some s"
    using feed_blocks_total [of row G dmove bs "mag_block_new G demod mags cplx", OF total] by blast
  then obtain w where w: "mag_inv False G row L B bs w s" using feed_blocks_inv [OF mem ok _ s len, where mv = False] by auto
  have "0 < B" "0 < mb_N G" using ok by (simp_all add: mb_ok_def)
  then have "w = (length bs - (B + 1)) div B" using windows_of [OF w] by blast
  moreover have "Some (mag_ring s ! 0) = slot_rows G row (mag_window G bs 0)" if "0 < w" "w \<le> mb_N G"
    using mag_inv_slot [OF w, of 0] that \<open>0 < mb_N G\<close> by simp
  ultimately show ?thesis
    using w s by (intro exI [of _ s]) (auto simp: mag_inv_def ring_of_def kComplexCompositeBlocks_def Let_def)
qed

theorem mag_block_windows_witness:
  "\<exists>s. feed_blocks \<lparr>mb_N = 3, rfft_length = 4, mb_time_osr = 2, mb_freq_osr = 1, retain_complex = True\<rparr> (\<lambda>src n buf. replicate 16 99)
     (\<lambda>f xs. Some [sum_list xs]) [[1, 2], [3, 4], [5, 6], [7, 8], [9, 10], [11, 12], [13, 14 :: nat]]
     (mag_block_new \<lparr>mb_N = 3, rfft_length = 4, mb_time_osr = 2, mb_freq_osr = 1, retain_complex = True\<rparr> (replicate 16 0) (replicate 3 []) (replicate 4096 [0, 0])) =
       Some s \<and> mag_write s = 2 \<and> mag_ring s ! 0 = [10, 18] \<and> slot_cplx_idx s ! 0 = 0 \<and> slot_cplx_idx s ! 1 = 2"
proof -
  let ?G = "\<lparr>mb_N = 3, rfft_length = 4, mb_time_osr = 2, mb_freq_osr = 1, retain_complex = True\<rparr>"
  let ?row = "\<lambda>f :: nat. \<lambda>xs :: nat list. Some [sum_list xs]" and ?bs = "[[1, 2], [3, 4], [5, 6], [7, 8], [9, 10], [11, 12], [13, 14 :: nat]]"
  let ?mv = "\<lambda>src :: nat. \<lambda>n :: nat. \<lambda>buf :: nat list. replicate 16 (99 :: nat)"
  have mem: "mb_mem ?G 2 (replicate 16 0) (replicate 3 []) (replicate 4096 [0, 0])" by (simp add: mb_mem_def kComplexCompositeBlocks_def)
  have ok: "mb_ok ?G 2 2" by (simp add: mb_ok_def)
  obtain s where s: "feed_blocks ?G ?mv ?row ?bs (mag_block_new ?G (replicate 16 0) (replicate 3 []) (replicate 4096 [0, 0])) = Some s"
    and p: "let w = (length ?bs - (2 + 1)) div 2
      in mag_write s = of_nat w \<and>
         (0 < w \<and> w \<le> mb_N ?G \<longrightarrow> Some (mag_ring s ! 0) = slot_rows ?G ?row (mag_window ?G ?bs 0)) \<and>
         (retain_complex ?G \<longrightarrow> complex_write s = of_nat (length ?bs) \<and>
            (\<forall>j<length ?bs. length ?bs \<le> j + 4096 \<longrightarrow> complex_ring s ! (j mod 4096) = ?bs ! j) \<and>
            (\<forall>v<w. w \<le> v + mb_N ?G \<longrightarrow> slot_cplx_idx s ! (v mod mb_N ?G) = of_nat (v * 2)))"
    using mag_block_windows [OF mem ok, where row = ?row and bs = ?bs and dmove = ?mv] by auto
  have "slot_rows ?G ?row (mag_window ?G ?bs 0) = Some [10, 18]" by (simp add: slot_rows_def mag_window_def upt_rec)
  moreover have "slot_cplx_idx s ! (v mod 3) = of_nat (v * 2)" if "v < 2" for v using p that by simp
  then have "slot_cplx_idx s ! 0 = 0" "slot_cplx_idx s ! 1 = 2" by (metis mod_0 mult_0 of_nat_0 zero_less_numeral, force)
  ultimately show ?thesis using s p by simp
qed

text \<open>
  What the program means to have: every slot of the ring holds the transforms of its own window.  That needs the
  device to move overlapping areas as \<open>memmove\<close> does, which the documentation of CUDA does not promise.
\<close>

theorem mag_windows_if_moved:
  assumes mem: "mb_mem G L demod mags cplx" and ok: "mb_ok G L B" and len: "\<forall>b\<in>set bs. length b = L" "length bs \<le> 2 ^ 64"
    and move: "moves_overlapping dmove" and run: "feed_blocks G dmove row bs (mag_block_new G demod mags cplx) = Some s"
    and v: "v < (length bs - (B + 1)) div B" "(length bs - (B + 1)) div B \<le> v + mb_N G"
  shows "Some (mag_ring s ! (v mod mb_N G)) = slot_rows G row (mag_window G bs v)"
proof -
  obtain w where w: "mag_inv True G row L B bs w s" using feed_blocks_inv [OF mem ok move run len] by blast
  have "0 < B" "0 < mb_N G" using ok by (simp_all add: mb_ok_def)
  then show ?thesis using mag_inv_slot [OF w] windows_of [OF w] v by simp
qed

text \<open>
  What the move of the buffer asks of the device: a copy between places \<open>rfft_length\<close> to \<open>buff_pos\<close> and the
  front of one buffer.  Whenever it happens the two overlap in one block, which a device copy does not allow.
\<close>

definition shift_ranges :: "mb_geom \<Rightarrow> nat \<Rightarrow> nat set \<times> nat set" where
  "shift_ranges G bp = ({rfft_length G..<rfft_length G + bp}, {0..<bp})"

theorem mag_shift_overlaps:
  assumes inv: "mag_inv mv G row L B bs w s" and ok: "mb_ok G L B" and len: "length blk = L"
    and trig: "2 * rfft_length G < buff_pos s + length blk" and res: "doCopy G dmove row blk s = Some s'"
  shows "card (fst (shift_ranges G (buff_pos s')) \<inter> snd (shift_ranges G (buff_pos s'))) = L"
proof -
  have i: "buff_pos s = (length bs - w * B) * L" "length bs - w * B \<le> 2 * B" using inv by (simp_all add: mag_inv_def)
  have L: "0 < L" "rfft_length G = L * B" using ok by (simp_all add: mb_ok_def)
  have "2 * (L * B) < Suc (length bs - w * B) * L" using trig by (simp add: i(1) len L(2))
  then have "2 * B < Suc (length bs - w * B)" using mult_less_L [OF L(1)] by blast
  then have "buff_pos s = 2 * B * L" using i by simp
  moreover have "buff_pos s' = buff_pos s + L - rfft_length G"
    using res trig len by (auto simp: doCopy_def Let_def retain_block_def split: option.splits if_splits)
  ultimately have "buff_pos s' = rfft_length G + L" by (simp add: L(2))
  then have "fst (shift_ranges G (buff_pos s')) \<inter> snd (shift_ranges G (buff_pos s')) = {rfft_length G..<rfft_length G + L}"
    by (auto simp: shift_ranges_def)
  then show ?thesis by simp
qed

text \<open>A reader at most four blocks behind feeds them all; one further behind skips them all.\<close>

lemma mag_catch_up_feed:
  "nxt - now \<le> 4 \<Longrightarrow> mag_catch_up G dmove row inp now nxt s =
     map_option (\<lambda>t. (max now nxt, t)) (feed_blocks G dmove row (List.map inp [now..<nxt]) s)"
proof (induction "nxt - now" arbitrary: now s)
  case 0
  then show ?case by (subst mag_catch_up.simps) simp
next
  case (Suc d)
  then have l: "now < nxt" "\<not> 4 < nxt - now" "[now..<nxt] = now # [Suc now..<nxt]" by (simp_all add: upt_rec)
  show ?case
  proof (cases "doCopy G dmove row (inp now) s")
    case None
    then show ?thesis using l by (subst mag_catch_up.simps) simp
  next
    case (Some t)
    then have "mag_catch_up G dmove row inp now nxt s = mag_catch_up G dmove row inp (Suc now) nxt t"
      using l by (subst mag_catch_up.simps) simp
    also have "\<dots> = map_option (\<lambda>t. (max (Suc now) nxt, t)) (feed_blocks G dmove row (List.map inp [Suc now..<nxt]) t)"
      by (rule Suc.hyps(1)) (use Suc.hyps(2) Suc.prems in linarith)+
    finally show ?thesis using l(1,3) Some by (simp add: max_def)
  qed
qed

lemma mag_catch_up_drop: "4 < nxt - now \<Longrightarrow> mag_catch_up G dmove row inp now nxt s = Some (nxt, s)"
  by (subst mag_catch_up.simps) auto

end
