(* ===== verification/Refine.thy ===== *)
theory Refine
  imports MagBlock GpuReceive
begin

text \<open>
  The refine fallback: \<open>gm/hf/refine.cc\<close> (fine alignment on the sync tones, soft bits from the magnitudes, and
  the extraction of a decimated frame) and \<open>refineCandidate\<close> of \<open>gm/cuda/FT8Cuda.cc\<close> and \<open>JS8Cuda.cc\<close>, which reads
  the frame of a candidate back from the complex ring of the magnitude block.  A complex sample is a pair of
  \<open>float\<close>s.  The transform (kiss_fft) and the functions of \<open>cmath\<close> are arguments; every other operation is rounded
  as written, without contraction.
\<close>

section \<open>Constants\<close>

type_synonym cpx = "f32 \<times> f32"

record refine_mode =
  rm_costas :: "nat list"
  rm_tone_map :: "nat list"

definition kFT8Refine :: refine_mode where
  "kFT8Refine = \<lparr>rm_costas = [3, 1, 4, 0, 6, 5, 2], rm_tone_map = [0, 1, 3, 2, 5, 6, 4, 7]\<rparr>"
definition kJS8Refine :: refine_mode where
  "kJS8Refine = \<lparr>rm_costas = [4, 2, 5, 6, 1, 3, 0], rm_tone_map = [0, 1, 2, 3, 4, 5, 6, 7]\<rparr>"

definition kRefineSr :: int where "kRefineSr = 12800"
definition kRefineNsps :: nat where "kRefineNsps = 2048"
definition kRefineNsym :: nat where "kRefineNsym = 79"
definition kRefineFrame :: nat where "kRefineFrame = kRefineNsym * kRefineNsps"

definition COS_POS :: "nat list" where "COS_POS = [0, 36, 72]"
definition data_pos :: "nat \<Rightarrow> nat" where "data_pos k = k + (if k < 29 then 7 else 14)"

definition kSlopeMaxHz :: f32 where "kSlopeMaxHz = 5"
definition kSlopeSteps :: nat where "kSlopeSteps = 21"
definition kSlopeAccept :: f32 where "kSlopeAccept = r32 (105 / 100)"
definition M_PI :: f64 where "M_PI = 884279719003555 / 281474976710656"

text \<open>The transform and the functions of \<open>cmath\<close>, on \<open>double\<close> and on \<open>float\<close>.\<close>

record refine_math =
  m_fft :: "cpx list \<Rightarrow> cpx list"
  m_hypot :: "f32 \<Rightarrow> f32 \<Rightarrow> f32"
  m_cos :: "f64 \<Rightarrow> f64"
  m_sin :: "f64 \<Rightarrow> f64"
  m_cosf :: "f32 \<Rightarrow> f32"
  m_sinf :: "f32 \<Rightarrow> f32"

definition cadd :: "cpx \<Rightarrow> cpx \<Rightarrow> cpx" where
  "cadd x y = (fadd (fst x) (fst y), fadd (snd x) (snd y))"

definition cmul :: "cpx \<Rightarrow> cpx \<Rightarrow> cpx" where
  "cmul x y = (fsub (fmul (fst x) (fst y)) (fmul (snd x) (snd y)), fadd (fmul (fst x) (snd y)) (fmul (snd x) (fst y)))"

text \<open>The switch, from the value of \<open>REFINE_DECHIRP\<close>.\<close>

definition dechirp_enabled :: "string option \<Rightarrow> bool" where
  "dechirp_enabled e = (case e of None \<Rightarrow> False | Some s \<Rightarrow> s \<noteq> [] \<and> hd s = CHR ''1'')"

section \<open>Symbols\<close>

text \<open>A sample, zero outside the frame, turned back by the frequency and its slope.\<close>

definition sym_sample :: "refine_math \<Rightarrow> cpx list \<Rightarrow> int \<Rightarrow> f32 \<Rightarrow> f32 \<Rightarrow> int \<Rightarrow> cpx" where
  "sym_sample M frame flen df slope idx =
     (let s = (if 0 \<le> idx \<and> idx < flen then frame ! nat idx else (0, 0))
      in if df \<noteq> 0 \<or> slope \<noteq> 0
         then (let t = ddiv (of_int idx) (of_int kRefineSr);
                   ph = dmul (dmul (-2) M_PI) (dadd (dmul df t) (dmul (dmul (dmul (1 / 2) slope) t) t))
               in cmul s (r32 (m_cos M ph), r32 (m_sin M ph)))
         else s)"

definition is_pilot :: "nat \<Rightarrow> bool" where
  "is_pilot p \<longleftrightarrow> list_ex (\<lambda>b. b \<le> p \<and> p - b < 7) COS_POS"

definition pilot_energy :: "refine_math \<Rightarrow> refine_mode \<Rightarrow> cpx list \<Rightarrow> nat \<Rightarrow> f32 \<Rightarrow> f32" where
  "pilot_energy M mode out p energy =
     foldl (\<lambda>e b. if b \<le> p \<and> p - b < 7
                  then (let z = out ! (rm_costas mode ! (p - b)) in fadd e (m_hypot M (fst z) (snd z)))
                  else e) energy COS_POS"

text \<open>One symbol; without \<open>Z\<close> the symbols that are not sync symbols are skipped.\<close>

definition sym_step ::
  "refine_math \<Rightarrow> cpx list \<Rightarrow> int \<Rightarrow> int \<Rightarrow> f32 \<Rightarrow> f32 \<Rightarrow> refine_mode \<Rightarrow> f32 \<times> cpx list option \<Rightarrow> nat \<Rightarrow> f32 \<times> cpx list option" where
  "sym_step M frame flen dt df slope mode st p =
     (let (energy, Z) = st
      in if Z = None \<and> \<not> is_pilot p then (energy, Z)
         else
           (let base = int (p * kRefineNsps) + dt;
                out = m_fft M (List.map (\<lambda>i. sym_sample M frame flen df slope (base + int i)) [0..<kRefineNsps])
            in (pilot_energy M mode out p energy,
                map_option (\<lambda>z. foldl (\<lambda>z j. z[p * 8 + j := out ! j]) z [0..<8]) Z)))"

definition sym_tones ::
  "refine_math \<Rightarrow> cpx list \<Rightarrow> int \<Rightarrow> int \<Rightarrow> f32 \<Rightarrow> f32 \<Rightarrow> refine_mode \<Rightarrow> cpx list option \<Rightarrow> f32 \<times> cpx list option" where
  "sym_tones M frame flen dt df slope mode Z = foldl (sym_step M frame flen dt df slope mode) (0, Z) [0..<kRefineNsym]"

section \<open>Alignment\<close>

text \<open>The loops of the sweeps: keep a value whose energy is greater.\<close>

definition sweep :: "('x \<Rightarrow> f32) \<Rightarrow> 'x list \<Rightarrow> 'x \<times> f32 \<Rightarrow> 'x \<times> f32" where
  "sweep energy xs best = foldl (\<lambda>(b, best_e) x. if best_e < energy x then (x, energy x) else (b, best_e)) best xs"

function dt_steps :: "int \<Rightarrow> int list" where
  "dt_steps dt = (if dt \<le> 512 then dt # dt_steps (dt + 64) else [])"
  by pat_completeness auto
termination by (relation "measure (\<lambda>dt. nat (513 - dt))") auto

declare dt_steps.simps [simp del]

definition df_steps :: "f32 list" where
  "df_steps = List.map (\<lambda>fi. fadd (- 7 / 2) (fdiv (fmul 7 (of_nat fi)) 12)) [0..<13]"

definition slope_steps :: "f32 list" where
  "slope_steps = List.map (\<lambda>si. fadd (- kSlopeMaxHz) (fdiv (fmul (fmul 2 kSlopeMaxHz) (of_nat si)) (of_nat (kSlopeSteps - 1)))) [0..<kSlopeSteps]"

definition refine_align :: "refine_math \<Rightarrow> cpx list \<Rightarrow> int \<Rightarrow> refine_mode \<Rightarrow> bool \<Rightarrow> int \<times> f32 \<times> f32 \<times> f32" where
  "refine_align M frame flen mode dechirp =
     (let energy = \<lambda>dt df slope. fst (sym_tones M frame flen dt df slope mode None);
          (best_dt, _) = sweep (\<lambda>dt. energy dt 0 0) (dt_steps (-512)) (0, -1);
          (best_df, _) = sweep (\<lambda>df. energy best_dt df 0) df_steps (0, -1);
          (best_dt, best_e) = sweep (\<lambda>dt. energy dt best_df 0) (dt_steps (-512)) (best_dt, -1)
      in if dechirp
         then
           (let (cand_slope, e_slope) = sweep (energy best_dt best_df) slope_steps (0, -1)
            in if cand_slope \<noteq> 0 \<and> fmul best_e kSlopeAccept < e_slope
               then (let (best_df, best_e) = sweep (\<lambda>df. energy best_dt df cand_slope) df_steps (best_df, -1)
                     in (best_dt, best_df, cand_slope, best_e))
               else (best_dt, best_df, 0, best_e))
         else (best_dt, best_df, 0, best_e))"

definition refine_max4 :: "f32 \<Rightarrow> f32 \<Rightarrow> f32 \<Rightarrow> f32 \<Rightarrow> f32" where
  "refine_max4 a b c d = max (max a b) (max c d)"

definition refine_symbol :: "refine_math \<Rightarrow> refine_mode \<Rightarrow> cpx list \<Rightarrow> nat \<Rightarrow> f32 list" where
  "refine_symbol M mode Z k =
     (let s2 = List.map (\<lambda>j. let z = Z ! (data_pos k * 8 + rm_tone_map mode ! j) in m_hypot M (fst z) (snd z)) [0..<8]
      in [fsub (refine_max4 (s2 ! 4) (s2 ! 5) (s2 ! 6) (s2 ! 7)) (refine_max4 (s2 ! 0) (s2 ! 1) (s2 ! 2) (s2 ! 3)),
          fsub (refine_max4 (s2 ! 2) (s2 ! 3) (s2 ! 6) (s2 ! 7)) (refine_max4 (s2 ! 0) (s2 ! 1) (s2 ! 4) (s2 ! 5)),
          fsub (refine_max4 (s2 ! 1) (s2 ! 3) (s2 ! 5) (s2 ! 7)) (refine_max4 (s2 ! 0) (s2 ! 2) (s2 ! 4) (s2 ! 6))])"

text \<open>The bins at the alignment, and the result: the energy and the 174 soft bits.\<close>

definition refine_bins :: "refine_math \<Rightarrow> cpx list \<Rightarrow> int \<Rightarrow> refine_mode \<Rightarrow> bool \<Rightarrow> cpx list" where
  "refine_bins M frame flen mode dechirp =
     (let (dt, df, slope, e) = refine_align M frame flen mode dechirp
      in the (snd (sym_tones M frame flen dt df slope mode (Some (replicate (kRefineNsym * 8) (0, 0))))))"

definition refine_llr :: "refine_math \<Rightarrow> cpx list \<Rightarrow> int \<Rightarrow> refine_mode \<Rightarrow> bool \<Rightarrow> f32 \<times> f32 list" where
  "refine_llr M frame flen mode dechirp =
     (snd (snd (snd (refine_align M frame flen mode dechirp))),
      concat (List.map (refine_symbol M mode (refine_bins M frame flen mode dechirp)) [0..<58]))"

section \<open>Extraction\<close>

text \<open>Reading outside an array is \<open>None\<close>.\<close>

definition at_int :: "'a list \<Rightarrow> int \<Rightarrow> 'a option" where
  "at_int xs i = (if 0 \<le> i \<and> i < int (length xs) then Some (xs ! nat i) else None)"

definition lowpass_taps :: "refine_math \<Rightarrow> int \<Rightarrow> int \<Rightarrow> f32 list" where
  "lowpass_taps M sr_in half =
     (let pi = r32 M_PI;
          fc = fdiv (fmul (r32 (40 / 100)) (of_int kRefineSr)) (r32 (of_int sr_in));
          h = List.map (\<lambda>t. let sinc = (if t = 0 then fmul 2 fc
                                        else fdiv (m_sinf M (fmul (fmul (fmul 2 pi) fc) (of_int t))) (fmul pi (of_int t)));
                                win = fmul (1 / 2) (fsub 1 (m_cosf M (fdiv (fmul (fmul 2 pi) (of_int (t + half))) (of_int (2 * half)))))
                            in fmul sinc win) [- half..half];
          hsum = foldl fadd 0 h
      in List.map (\<lambda>v. fdiv v hsum) h)"

definition fir_step :: "cpx list \<Rightarrow> cpx list \<Rightarrow> int \<Rightarrow> int \<Rightarrow> cpx option \<Rightarrow> int \<Rightarrow> cpx option" where
  "fir_step g inp half c acc t =
     (case (acc, at_int g (t + half), at_int inp (c + t)) of
        (Some a, Some gt, Some x) \<Rightarrow> Some (cadd a (cmul gt x))
      | _ \<Rightarrow> None)"

definition fir_at :: "cpx list \<Rightarrow> cpx list \<Rightarrow> int \<Rightarrow> int \<Rightarrow> int \<Rightarrow> cpx option" where
  "fir_at g inp n_in half c = foldl (fir_step g inp half c) (Some (0, 0)) [max (- half) (- c)..min half (n_in - 1 - c)]"

definition next_phasor :: "refine_math \<Rightarrow> cpx \<Rightarrow> nat \<Rightarrow> cpx \<Rightarrow> cpx" where
  "next_phasor M rot_step k phasor =
     (let phasor = cmul phasor rot_step
      in if k mod 1024 = 0
         then (let m = m_hypot M (fst phasor) (snd phasor)
               in if r32 (1 / 1000000) < m then (fdiv (fst phasor) m, fdiv (snd phasor) m) else phasor)
         else phasor)"

definition extract_frame :: "refine_math \<Rightarrow> cpx list \<Rightarrow> int \<Rightarrow> f32 \<Rightarrow> int \<Rightarrow> nat \<Rightarrow> cpx list option" where
  "extract_frame M inp n_in freq_hz sr_in n_out =
     (let decim = sr_in div kRefineSr; half = 4 * decim; h = lowpass_taps M sr_in half;
          w = fdiv (fmul (fmul (-2) (r32 M_PI)) freq_hz) (r32 (of_int sr_in));
          g = List.map (\<lambda>t. let ph = fmul w (of_int t); a = h ! nat (t + half)
                            in (fmul a (m_cosf M ph), fmul a (m_sinf M ph))) [- half..half];
          rot_step = (m_cosf M (fmul w (of_int decim)), m_sinf M (fmul w (of_int decim)))
      in fst (foldl (\<lambda>(out, phasor) k.
                (case (out, fir_at g inp n_in half (int k * decim)) of
                   (Some os, Some acc) \<Rightarrow> Some (os @ [cmul phasor acc])
                 | _ \<Rightarrow> None, next_phasor M rot_step k phasor)) (Some [], (1, 0)) [0..<n_out]))"

section \<open>\<open>refineCandidate\<close>\<close>

text \<open>The frame of a slot of the magnitude ring, when it is complete and still held.\<close>

definition refine_frame ::
  "nat \<Rightarrow> nat \<Rightarrow> 'a list list \<Rightarrow> nat \<Rightarrow> u64 list \<Rightarrow> u64 \<Rightarrow> u64 \<Rightarrow> 'a list option" where
  "refine_frame ring_bins cplx_bins cring N slot_idx cwi mag_slot =
     (let BLK = cplx_bins; blocks_per_sym = ring_bins div cplx_bins; FRAME_BLOCKS = kRefineNsym * blocks_per_sym;
          cplx_start = slot_idx ! ring_slot mag_slot N
      in if cwi < cplx_start + of_nat FRAME_BLOCKS then None
         else if of_nat kComplexCompositeBlocks < cwi - cplx_start then None
         else
           (let s0 = ring_slot cplx_start kComplexCompositeBlocks; first = min FRAME_BLOCKS (kComplexCompositeBlocks - s0);
                base = concat cring; host = take (first * BLK) (drop (s0 * BLK) base)
            in Some (if first < FRAME_BLOCKS then host @ take ((FRAME_BLOCKS - first) * BLK) base else host)))"

definition refineCandidate ::
  "refine_math \<Rightarrow> refine_mode \<Rightarrow> bool \<Rightarrow> nat \<Rightarrow> nat \<Rightarrow> cpx list list \<Rightarrow> nat \<Rightarrow> u64 list \<Rightarrow> u64 \<Rightarrow> int \<Rightarrow> nat \<Rightarrow> u64 \<Rightarrow> f32 list option" where
  "refineCandidate M mode dechirp ring_bins cplx_bins cring N slot_idx cwi fo to snap_start =
     (case refine_frame ring_bins cplx_bins cring N slot_idx cwi (snap_start + of_nat to) of
        None \<Rightarrow> None
      | Some host \<Rightarrow>
          (let freq_hz = fmul (r32 (of_int fo)) (fdiv 409600 (r32 (of_nat ring_bins)));
               n_in = int (kRefineNsym * (ring_bins div cplx_bins) * cplx_bins)
           in map_option (\<lambda>decim. snd (refine_llr M decim (int kRefineFrame) mode dechirp))
                (extract_frame M host n_in freq_hz 409600 kRefineFrame)))"
section \<open>The search\<close>

lemma sweep_ge: "best_e \<le> snd (sweep e xs (b, best_e)) \<and> (\<forall>x\<in>set xs. e x \<le> snd (sweep e xs (b, best_e)))"
proof (induction xs arbitrary: b best_e)
  case (Cons x xs)
  have "sweep e (x # xs) (b, best_e) = sweep e xs (if best_e < e x then (x, e x) else (b, best_e))" by (simp add: sweep_def)
  then show ?case using Cons.IH [of "e x" x] Cons.IH [of best_e b] by auto
qed (simp add: sweep_def)

lemma sweep_val: "sweep e xs (b, best_e) = (b, best_e) \<or> (\<exists>x\<in>set xs. sweep e xs (b, best_e) = (x, e x))"
proof (induction xs arbitrary: b best_e)
  case (Cons x xs)
  have "sweep e (x # xs) (b, best_e) = sweep e xs (if best_e < e x then (x, e x) else (b, best_e))" by (simp add: sweep_def)
  then show ?case using Cons.IH [of x "e x"] Cons.IH [of b best_e] by auto
qed (simp add: sweep_def)

text \<open>A sweep of values that are not negative, from below zero: its result is a greatest value.\<close>

lemma sweep_best:
  assumes s: "sweep e xs (b, -1) = (x, m)" and pos: "\<And>x. 0 \<le> e x" and ne: "xs \<noteq> []"
  shows "x \<in> set xs" "m = e x" "\<forall>y\<in>set xs. e y \<le> m"
proof -
  have ge: "\<forall>y\<in>set xs. e y \<le> m" using sweep_ge [where best_e = "-1" and e = e and xs = xs and b = b] s by simp
  then show "\<forall>y\<in>set xs. e y \<le> m" .
  obtain y where "y \<in> set xs" using ne by (cases xs) auto
  then have "0 \<le> m" using ge pos [of y] by force
  then have "(x, m) \<noteq> (b, -1)" by auto
  then show "x \<in> set xs" "m = e x" using sweep_val [where best_e = "-1" and e = e and xs = xs and b = b] s by auto
qed

lemma pilot_energy_skip: "\<not> is_pilot p \<Longrightarrow> pilot_energy M mode out p energy = energy"
  by (auto simp: is_pilot_def pilot_energy_def COS_POS_def)

lemma pilot_energy_props:
  assumes "\<And>a b. 0 \<le> m_hypot M a b" and "0 \<le> energy" and "r32 energy = energy"
  shows "0 \<le> pilot_energy M mode out p energy \<and> r32 (pilot_energy M mode out p energy) = pilot_energy M mode out p energy"
proof -
  have "0 \<le> fadd e (m_hypot M a b) \<and> r32 (fadd e (m_hypot M a b)) = fadd e (m_hypot M a b)" if "0 \<le> e" for e a b
    using that assms(1) fadd_nonneg by (simp add: fadd_def)
  then have "0 \<le> foldl (\<lambda>e b. if b \<le> p \<and> p - b < 7
                  then (let z = out ! (rm_costas mode ! (p - b)) in fadd e (m_hypot M (fst z) (snd z))) else e) energy bs \<and>
      r32 (foldl (\<lambda>e b. if b \<le> p \<and> p - b < 7
                  then (let z = out ! (rm_costas mode ! (p - b)) in fadd e (m_hypot M (fst z) (snd z))) else e) energy bs) =
      foldl (\<lambda>e b. if b \<le> p \<and> p - b < 7
                  then (let z = out ! (rm_costas mode ! (p - b)) in fadd e (m_hypot M (fst z) (snd z))) else e) energy bs" for bs
    using assms(2,3) by (induction bs arbitrary: energy) (simp_all add: Let_def)
  then show ?thesis by (simp only: pilot_energy_def)
qed

text \<open>The energy does not depend on whether the bins are kept: the skipped symbols add nothing.\<close>

lemma sym_tones_energy: "fst (sym_tones M frame flen dt df slope mode (Some z)) = fst (sym_tones M frame flen dt df slope mode None)"
proof -
  let ?s = "sym_step M frame flen dt df slope mode"
  have "fst (foldl ?s (e, Some z) ps) = fst (foldl ?s (e, None) ps) \<and> snd (foldl ?s (e, Some z) ps) \<noteq> None \<and>
      snd (foldl ?s (e, None) ps) = None" for e ps
  proof (induction ps arbitrary: e z)
    case (Cons p ps)
    obtain e' z' where "?s (e, Some z) p = (e', Some z')" "?s (e, None) p = (e', None)"
      by (cases "is_pilot p") (auto simp: sym_step_def Let_def pilot_energy_skip)
    then show ?case using Cons.IH by simp
  qed simp
  then show ?thesis by (simp add: sym_tones_def)
qed

lemma sym_tones_props:
  assumes "\<And>a b. 0 \<le> m_hypot M a b"
  shows "0 \<le> fst (sym_tones M frame flen dt df slope mode Z)"
    and "r32 (fst (sym_tones M frame flen dt df slope mode Z)) = fst (sym_tones M frame flen dt df slope mode Z)"
proof -
  let ?s = "sym_step M frame flen dt df slope mode"
  have step: "0 \<le> fst (?s (e, Z) p) \<and> r32 (fst (?s (e, Z) p)) = fst (?s (e, Z) p)" if "0 \<le> e" "r32 e = e" for e Z p
    using pilot_energy_props [of M, OF assms that] that by (simp add: sym_step_def Let_def)
  have "0 \<le> fst (foldl ?s (e, Z) ps) \<and> r32 (fst (foldl ?s (e, Z) ps)) = fst (foldl ?s (e, Z) ps)"
    if "0 \<le> e" "r32 e = e" for e Z ps
    using that
  proof (induction ps arbitrary: e Z)
    case (Cons p ps)
    obtain e' Z' where e': "?s (e, Z) p = (e', Z')" by fastforce
    then have "0 \<le> e'" "r32 e' = e'" using step [OF Cons.prems, of Z p] by simp_all
    then show ?case using Cons.IH [of e' Z'] e' by simp
  qed simp
  from this [of 0 Z "[0..<kRefineNsym]"]
  show "0 \<le> fst (sym_tones M frame flen dt df slope mode Z)"
    and "r32 (fst (sym_tones M frame flen dt df slope mode Z)) = fst (sym_tones M frame flen dt df slope mode Z)"
    by (simp_all add: sym_tones_def)
qed

lemma df_steps_0: "0 \<in> set df_steps"
proof -
  have "fdiv (fmul 7 (of_nat 6)) 12 = 7 / 2"
    using r32_int [of 42] r32_half [of 7] by (simp add: fdiv_def fmul_def)
  then have "fadd (- 7 / 2) (fdiv (fmul 7 (of_nat 6)) 12) = 0" by (simp only: fadd_def) simp
  then show ?thesis unfolding df_steps_def set_map by (intro image_eqI [of _ _ 6]) (simp_all only: set_upt atLeastLessThan_iff, simp)
qed

lemma accept_ge: "0 \<le> e \<Longrightarrow> r32 e = e \<Longrightarrow> e \<le> fmul e kSlopeAccept"
proof -
  assume e: "0 \<le> e" "r32 e = e"
  have "r32 1 \<le> kSlopeAccept" unfolding kSlopeAccept_def by (rule r32_mono) simp
  then have "e * 1 \<le> e * kSlopeAccept" using e(1) by (intro mult_left_mono) simp_all
  then show ?thesis using r32_mono [of e "e * kSlopeAccept"] e(2) by (simp add: fmul_def)
qed

lemma dt_steps_ne: "dt_steps (-512) \<noteq> []" and df_steps_ne: "df_steps \<noteq> []" and slope_steps_ne: "slope_steps \<noteq> []"
  by (subst dt_steps.simps) (simp_all add: df_steps_def slope_steps_def kSlopeSteps_def)

lemma refine_align_facts:
  assumes hyp: "\<And>a b. 0 \<le> m_hypot M a b" and res: "refine_align M frame flen mode dechirp = (dt, df, slope, e)"
  defines "energy \<equiv> \<lambda>dt df slope. fst (sym_tones M frame flen dt df slope mode None)"
  shows "dt \<in> set (dt_steps (-512))" "df \<in> set df_steps" "e = energy dt df slope"
    "\<forall>dt'\<in>set (dt_steps (-512)). energy dt' 0 0 \<le> e"
    "slope = 0 \<Longrightarrow> \<forall>dt'\<in>set (dt_steps (-512)). energy dt' df 0 \<le> e"
    "slope \<noteq> 0 \<Longrightarrow> dechirp \<and> slope \<in> set slope_steps \<and> (\<forall>df'\<in>set df_steps. energy dt df' slope \<le> e)"
proof -
  have pos: "0 \<le> energy dt df slope" for dt df slope unfolding energy_def by (rule sym_tones_props(1)) (rule hyp)
  have flt: "r32 (energy dt df slope) = energy dt df slope" for dt df slope unfolding energy_def by (rule sym_tones_props(2)) (rule hyp)
  obtain dt1 m1 where s1: "sweep (\<lambda>dt. energy dt 0 0) (dt_steps (-512)) (0, -1) = (dt1, m1)" by fastforce
  obtain df2 m2 where s2: "sweep (\<lambda>df. energy dt1 df 0) df_steps (0, -1) = (df2, m2)" by fastforce
  obtain dt3 m3 where s3: "sweep (\<lambda>dt. energy dt df2 0) (dt_steps (-512)) (dt1, -1) = (dt3, m3)" by fastforce
  obtain sl m4 where s4: "sweep (energy dt3 df2) slope_steps (0, -1) = (sl, m4)" by fastforce
  obtain df5 m5 where s5: "sweep (\<lambda>df. energy dt3 df sl) df_steps (df2, -1) = (df5, m5)" by fastforce
  note b1 = sweep_best [OF s1 pos dt_steps_ne] and b2 = sweep_best [OF s2 pos df_steps_ne]
    and b3 = sweep_best [OF s3 pos dt_steps_ne] and b4 = sweep_best [OF s4 pos slope_steps_ne] and b5 = sweep_best [OF s5 pos df_steps_ne]
  have m12: "m1 \<le> m2" using b2(3) df_steps_0 b1(2) by simp
  have m23: "m2 \<le> m3" using b3(3) b1(1) b2(2) by simp
  have m45: "m4 \<le> m5" using b5(3) b2(1) b4(2) by simp
  have all: "energy dt' 0 0 \<le> m3" if "dt' \<in> set (dt_steps (-512))" for dt' using b1(3) that m12 m23 by fastforce
  have r: "refine_align M frame flen mode dechirp =
      (if dechirp \<and> sl \<noteq> 0 \<and> fmul m3 kSlopeAccept < m4 then (dt3, df5, sl, m5) else (dt3, df2, 0, m3))"
    unfolding refine_align_def Let_def energy_def [symmetric] s1 s2 s3 s4 s5 prod.case by simp
  show "dt \<in> set (dt_steps (-512))" "df \<in> set df_steps" "e = energy dt df slope"
    using res b2(1) b3(1,2) b5(1,2) unfolding r by (auto split: if_splits)
  have "m3 \<le> fmul m3 kSlopeAccept" unfolding b3(2) by (rule accept_ge [OF pos flt])
  then have "m3 \<le> e" using res m45 unfolding r by (auto split: if_splits)
  then show "\<forall>dt'\<in>set (dt_steps (-512)). energy dt' 0 0 \<le> e" using all by fastforce
  show "\<forall>dt'\<in>set (dt_steps (-512)). energy dt' df 0 \<le> e" if "slope = 0"
    using that res b3(3) unfolding r by (auto split: if_splits)
  show "dechirp \<and> slope \<in> set slope_steps \<and> (\<forall>df'\<in>set df_steps. energy dt df' slope \<le> e)" if "slope \<noteq> 0"
    using that res b5(3) b4(1) unfolding r by (auto split: if_splits)
qed

text \<open>
  C29. The coordinate search never ends below where it began: the energy \<open>refine_llr\<close> returns is that of the
  very alignment whose bins give the soft bits, although the search skips the data symbols; it is at
  least that of every time offset at zero frequency, and of every time offset at the chosen frequency
  (of every frequency, when a slope was taken), for any transform and any non-negative \<open>hypot\<close>.
\<close>

theorem refine_alignment:
  assumes "\<And>a b. 0 \<le> m_hypot M a b" and "refine_align M frame flen mode dechirp = (dt, df, slope, e)"
  shows "fst (refine_llr M frame flen mode dechirp) = e \<and>
     e = fst (sym_tones M frame flen dt df slope mode (Some (replicate (kRefineNsym * 8) (0, 0)))) \<and>
     (\<forall>dt'\<in>set (dt_steps (-512)). fst (sym_tones M frame flen dt' 0 0 mode None) \<le> e) \<and>
     (if slope = 0 then \<forall>dt'\<in>set (dt_steps (-512)). fst (sym_tones M frame flen dt' df 0 mode None) \<le> e
      else dechirp \<and> (\<forall>df'\<in>set df_steps. fst (sym_tones M frame flen dt df' slope mode None) \<le> e))"
  using refine_align_facts [OF assms] assms(2) by (simp add: refine_llr_def sym_tones_energy)

section \<open>The frame\<close>

lemma take_concat: "\<forall>b\<in>set xss. length b = L \<Longrightarrow> k \<le> length xss \<Longrightarrow> take (k * L) (concat xss) = concat (take k xss)"
proof (induction xss arbitrary: k)
  case (Cons b xss)
  then show ?case by (cases k) simp_all
qed simp

lemma drop_concat: "\<forall>b\<in>set xss. length b = L \<Longrightarrow> k \<le> length xss \<Longrightarrow> drop (k * L) (concat xss) = concat (drop k xss)"
proof (induction xss arbitrary: k)
  case (Cons b xss)
  then show ?case by (cases k) simp_all
qed simp

text \<open>At most one wrap: a stretch of a ring, read in two pieces, holds the values in order.\<close>

lemma ring_stretch:
  assumes r: "ring_of n w f xs" and n: "0 < n" and i: "i + len \<le> w" "w \<le> i + n"
  defines "first \<equiv> min len (n - i mod n)"
  shows "take first (drop (i mod n) xs) @ take (len - first) xs = List.map f [i..<i + len]"
proof (rule nth_equalityI)
  have l: "length xs = n" using r by (simp add: ring_of_def)
  have ln: "len \<le> n" using i by linarith
  have s: "i mod n < n" using n by simp
  have lens: "length (take first (drop (i mod n) xs)) = first" "len - first \<le> n" "first \<le> len"
    using l ln by (auto simp: first_def)
  then show "length (take first (drop (i mod n) xs) @ take (len - first) xs) = length (List.map f [i..<i + len])"
    using l by simp
  fix j assume "j < length (take first (drop (i mod n) xs) @ take (len - first) xs)"
  then have j: "j < len" using lens l by simp
  have val: "xs ! ((i + j) mod n) = f (i + j)" using r j i by (auto simp: ring_of_def)
  show "(take first (drop (i mod n) xs) @ take (len - first) xs) ! j = List.map f [i..<i + len] ! j"
  proof (cases "j < first")
    case True
    then have "i mod n + j < n" by (auto simp: first_def)
    then have "(i + j) mod n = i mod n + j" using n by (metis mod_add_left_eq mod_less)
    then show ?thesis using True lens val j l s by (simp add: nth_append)
  next
    case False
    then have "first = n - i mod n" using j by (auto simp: first_def)
    then have e: "i mod n + j = n + (j - first)" using False s by linarith
    have "j - first < n" using j ln False by linarith
    then have "(i + j) mod n = j - first" using e n by (metis mod_add_left_eq mod_add_self1 mod_less)
    then show ?thesis using False lens val j l by (simp add: nth_append)
  qed
qed

lemma map_nth_range: "i + len \<le> length bs \<Longrightarrow> List.map (\<lambda>j. bs ! j) [i..<i + len] = take len (drop i bs)"
  by (rule nth_equalityI) simp_all

lemma word_of_nat_less: "a < 2 ^ 64 \<Longrightarrow> b < 2 ^ 64 \<Longrightarrow> (of_nat a :: u64) < of_nat b \<longleftrightarrow> a < b"
  by (simp add: word_less_nat_alt unat_of_nat)

lemma refine_frame_at:
  assumes idx: "slot_idx ! ring_slot slt N = of_nat start" and bins: "0 < L" "ring_bins = L * B"
    and ring: "ring_of kComplexCompositeBlocks n f cring" "\<forall>b\<in>set cring. length b = L"
    and le: "start \<le> n" and small: "n + 79 * B < 2 ^ 64"
  shows "refine_frame ring_bins L cring N slot_idx (of_nat n) slt =
     (if start + 79 * B \<le> n \<and> n \<le> start + kComplexCompositeBlocks then Some (concat (List.map f [start..<start + 79 * B])) else None)"
proof -
  let ?C = kComplexCompositeBlocks and ?F = "79 * B"
  have F: "kRefineNsym * (ring_bins div L) = ?F" using bins by (simp add: kRefineNsym_def)
  have C: "0 < ?C" "?C < 2 ^ 64" by (simp_all add: kComplexCompositeBlocks_def)
  have "of_nat start + of_nat ?F = (of_nat (start + ?F) :: u64)" by (simp only: of_nat_add)
  then have g1: "of_nat n < of_nat start + (of_nat ?F :: u64) \<longleftrightarrow> n < start + ?F"
    using word_of_nat_less [of n "start + ?F"] small le by simp
  have "of_nat n - of_nat start = (of_nat (n - start) :: u64)" using le by (simp only: of_nat_diff)
  then have g2: "of_nat ?C < of_nat n - (of_nat start :: u64) \<longleftrightarrow> ?C < n - start"
    using word_of_nat_less [of ?C "n - start"] small C(2) by simp
  have s0: "ring_slot (of_nat start) ?C = start mod ?C" by (rule ring_slot_nat) (use le small in linarith)
  have lc: "length cring = ?C" using ring(1) by (simp add: ring_of_def)
  show ?thesis
  proof (cases "start + ?F \<le> n \<and> n \<le> start + ?C")
    case True
    define first where "first = min ?F (?C - start mod ?C)"
    have m: "start mod ?C < ?C" using C(1) by simp
    have first: "first \<le> ?C - start mod ?C" "first \<le> ?F" "start mod ?C \<le> ?C" "?F \<le> ?C"
      using m True by (auto simp: first_def)
    have host: "take (first * L) (drop (start mod ?C * L) (concat cring)) = concat (take first (drop (start mod ?C) cring))"
      using first lc ring(2) by (subst drop_concat, simp, simp, subst take_concat) (auto dest: in_set_dropD)
    have rest: "take ((?F - first) * L) (concat cring) = concat (take (?F - first) cring)"
      using first lc ring(2) by (intro take_concat) simp_all
    have "(if first < ?F then concat (take first (drop (start mod ?C) cring)) @ concat (take (?F - first) cring)
           else concat (take first (drop (start mod ?C) cring))) =
        concat (take first (drop (start mod ?C) cring) @ take (?F - first) cring)"
      using first(2) by simp
    also have "\<dots> = concat (List.map f [start..<start + ?F])"
      unfolding first_def using ring_stretch [OF ring(1) C(1), of start ?F] True by simp
    finally show ?thesis
      using True unfolding refine_frame_def Let_def F idx s0 g1 g2 first_def [symmetric] host rest by auto
  next
    case False
    then show ?thesis unfolding refine_frame_def Let_def F idx s0 g1 g2 by auto
  qed
qed

lemma refine_frame_window:
  assumes mem: "mb_mem G L demod mags cplx" and ok: "mb_ok G L B" and len: "\<forall>b\<in>set bs. length b = L"
    and small: "length bs + 79 * B < 2 ^ 64" and ret: "retain_complex G"
    and run: "feed_blocks G dmove row bs (mag_block_new G demod mags cplx) = Some s"
    and slt: "v < (length bs - (B + 1)) div B" "(length bs - (B + 1)) div B \<le> v + mb_N G"
  shows "refine_frame (rfft_length G) L (complex_ring s) (mb_N G) (slot_cplx_idx s) (complex_write s) (of_nat v) =
     (if v * B + 79 * B \<le> length bs \<and> length bs \<le> v * B + 4096
      then Some (take (79 * rfft_length G) (drop (v * rfft_length G) (concat bs))) else None)"
proof -
  let ?n = "length bs"
  obtain w where w: "mag_inv False G row L B bs w s" using feed_blocks_inv [OF mem ok _ run len, where mv = False] small by auto
  have L: "0 < L" "0 < B" "rfft_length G = L * B" "0 < mb_N G" using ok by (simp_all add: mb_ok_def)
  have wv: "v < w" "w \<le> v + mb_N G" using slt windows_of [OF w L(2)] by simp_all
  have i: "w * B \<le> ?n" "complex_write s = of_nat ?n" "ring_of kComplexCompositeBlocks ?n (\<lambda>j. bs ! j) (complex_ring s)"
    "\<forall>b\<in>set (complex_ring s). length b = L" "ring_of (mb_N G) w (\<lambda>v. of_nat (v * B)) (slot_cplx_idx s)"
    using w ret unfolding mag_inv_def by auto
  have "v * B \<le> w * B" by (rule mult_le_mono1) (use wv in simp)
  then have vn: "v * B \<le> ?n" using i(1) by linarith
  have "v \<le> v * B" using L(2) by simp
  then have "v < 2 ^ 64" using vn small by linarith
  then have idx: "slot_cplx_idx s ! ring_slot (of_nat v) (mb_N G) = of_nat (v * B)"
    using i(5) wv by (simp add: ring_slot_nat ring_of_def)
  have frame: "concat (List.map (\<lambda>j. bs ! j) [v * B..<v * B + 79 * B]) = take (79 * rfft_length G) (drop (v * rfft_length G) (concat bs))"
    if "v * B + 79 * B \<le> ?n"
  proof -
    have "take (79 * B * L) (drop (v * B * L) (concat bs)) = concat (take (79 * B) (drop (v * B) bs))"
      using that len by (subst drop_concat, simp, simp, subst take_concat) (auto dest: in_set_dropD)
    then show ?thesis using that by (simp only: map_nth_range L(3) ac_simps)
  qed
  show ?thesis
    using frame unfolding i(2) refine_frame_at [OF idx L(1,3) i(3,4) vn small] by (simp add: kComplexCompositeBlocks_def)
qed

section \<open>Extraction stays within its arrays\<close>

lemma fir_at_Some:
  assumes "length g = nat (2 * half + 1)" and "n_in = int (length inp)" and "0 \<le> half"
  shows "fir_at g inp n_in half c \<noteq> None"
proof -
  have gen: "foldl (fir_step g inp half c) (Some a) ts \<noteq> None"
    if "\<forall>t\<in>set ts. - half \<le> t \<and> t \<le> half \<and> 0 \<le> c + t \<and> c + t < int (length inp)" for a ts
    using that
  proof (induction ts arbitrary: a)
    case (Cons t ts)
    then have "at_int g (t + half) \<noteq> None" "at_int inp (c + t) \<noteq> None" using assms(1,3) by (auto simp: at_int_def)
    then obtain gt x where "fir_step g inp half c (Some a) t = Some (cadd a (cmul gt x))" by (auto simp: fir_step_def)
    then show ?case using Cons by simp
  qed simp
  show ?thesis unfolding fir_at_def by (rule gen) (use assms(2) in auto)
qed

text \<open>For every frequency and every length of input and output.\<close>

lemma extract_frame_in_bounds:
  assumes "0 \<le> sr_in"
  shows "\<exists>out. extract_frame M inp (int (length inp)) freq_hz sr_in n_out = Some out \<and> length out = n_out"
proof -
  define half where "half = 4 * (sr_in div kRefineSr)"
  have half: "0 \<le> half" using assms by (simp add: half_def kRefineSr_def pos_imp_zdiv_nonneg_iff)
  have fold: "\<exists>out. fst (foldl (\<lambda>(out, phasor) k.
                (case (out, fir_at g inp (int (length inp)) half (int k * (sr_in div kRefineSr))) of
                   (Some os, Some acc) \<Rightarrow> Some (os @ [cmul phasor acc])
                 | _ \<Rightarrow> None, next_phasor M rot k phasor)) (Some [], (1, 0)) [0..<n]) = Some out \<and> length out = n"
    if g: "length g = nat (2 * half + 1)" for g n rot
  proof (induction n)
    case (Suc n)
    let ?f = "\<lambda>(out, phasor) k.
                (case (out, fir_at g inp (int (length inp)) half (int k * (sr_in div kRefineSr))) of
                   (Some os, Some acc) \<Rightarrow> Some (os @ [cmul phasor acc])
                 | _ \<Rightarrow> None, next_phasor M rot k phasor)"
    obtain res ph where f: "foldl ?f (Some [], (1, 0)) [0..<n] = (res, ph)" by (rule prod.exhaust)
    obtain out where o: "res = Some out" "length out = n" using Suc unfolding f fst_conv by blast
    obtain acc where "fir_at g inp (int (length inp)) half (int n * (sr_in div kRefineSr)) = Some acc"
      using fir_at_Some [OF g refl half] by blast
    then show ?case using o f by simp
  qed simp
  have "length (List.map (\<lambda>t. let ph = w * of_int t; a = h ! nat (t + half) in (x a ph, y a ph)) [- half..half]) = nat (2 * half + 1)"
    for w :: rat and h :: "f32 list" and x y :: "f32 \<Rightarrow> f32 \<Rightarrow> f32"
    by simp
  then show ?thesis unfolding extract_frame_def Let_def half_def [symmetric] by (intro fold) simp
qed

section \<open>\<open>refineCandidate\<close>\<close>

text \<open>
  C3. Refine reads back exactly the input a slot stands for: after any input, and whatever the overlapping move of
  \<open>MagBlock\<close> leaves in its own buffer, for a slot the magnitude ring still holds \<open>refineCandidate\<close> aligns the 79 transform lengths of input that begin with the slot's window, without ever
  reading outside an array, and it refuses exactly when they have not all come in or the complex ring no
  longer holds them.
\<close>

theorem refine_reads_window:
  assumes mem: "mb_mem G L demod mags cplx" and ok: "mb_ok G L B" and len: "\<forall>b\<in>set bs. length b = L"
    and small: "length bs + 79 * B < 2 ^ 64" and ret: "retain_complex G"
    and run: "feed_blocks G dmove row bs (mag_block_new G demod mags cplx) = Some s"
    and slt: "v < (length bs - (B + 1)) div B" "(length bs - (B + 1)) div B \<le> v + mb_N G"
    and v: "snap_start + of_nat to = of_nat v"
  shows "if v * B + 79 * B \<le> length bs \<and> length bs \<le> v * B + 4096
     then \<exists>decim. extract_frame M (take (79 * rfft_length G) (drop (v * rfft_length G) (concat bs))) (int (79 * rfft_length G))
              (fmul (r32 (of_int fo)) (fdiv 409600 (r32 (of_nat (rfft_length G))))) 409600 kRefineFrame = Some decim \<and>
            length decim = kRefineFrame \<and>
            refineCandidate M mode dechirp (rfft_length G) L (complex_ring s) (mb_N G) (slot_cplx_idx s) (complex_write s) fo to snap_start =
              Some (snd (refine_llr M decim (int kRefineFrame) mode dechirp))
     else refineCandidate M mode dechirp (rfft_length G) L (complex_ring s) (mb_N G) (slot_cplx_idx s) (complex_write s) fo to snap_start = None"
proof -
  let ?n = "length bs"
  note frame = refine_frame_window [OF mem ok len small ret run slt]
  have L: "0 < L" "rfft_length G = L * B" using ok by (simp_all add: mb_ok_def)
  have n_in: "kRefineNsym * (rfft_length G div L) * L = 79 * rfft_length G" using L by (simp add: kRefineNsym_def)
  show ?thesis
  proof (cases "v * B + 79 * B \<le> ?n \<and> ?n \<le> v * B + 4096")
    case True
    let ?fr = "take (79 * rfft_length G) (drop (v * rfft_length G) (concat bs))"
    have "(v * B + 79 * B) * L \<le> ?n * L" by (rule mult_le_mono1) (use True in simp)
    then have "length ?fr = 79 * rfft_length G" by (simp add: length_concat_blocks [OF len] L(2) algebra_simps)
    then obtain decim where d: "extract_frame M ?fr (int (79 * rfft_length G))
        (fmul (r32 (of_int fo)) (fdiv 409600 (r32 (of_nat (rfft_length G))))) 409600 kRefineFrame = Some decim"
      "length decim = kRefineFrame"
      using extract_frame_in_bounds [of 409600 M ?fr "fmul (r32 (of_int fo)) (fdiv 409600 (r32 (of_nat (rfft_length G))))" kRefineFrame]
      by auto
    have "refineCandidate M mode dechirp (rfft_length G) L (complex_ring s) (mb_N G) (slot_cplx_idx s) (complex_write s) fo to snap_start =
        Some (snd (refine_llr M decim (int kRefineFrame) mode dechirp))"
      unfolding refineCandidate_def v frame if_P [OF True] option.case Let_def n_in d(1) by simp
    then show ?thesis using True d by auto
  next
    case False
    have "refineCandidate M mode dechirp (rfft_length G) L (complex_ring s) (mb_N G) (slot_cplx_idx s) (complex_write s) fo to snap_start = None"
      unfolding refineCandidate_def v frame if_not_P [OF False] by simp
    then show ?thesis unfolding if_not_P [OF False] .
  qed
qed

section \<open>The soft bits of a clean frame\<close>

definition bin_mag :: "refine_math \<Rightarrow> cpx list \<Rightarrow> nat \<Rightarrow> nat \<Rightarrow> f32" where
  "bin_mag M Z p t = (let z = Z ! (p * 8 + t) in m_hypot M (fst z) (snd z))"

text \<open>In each data symbol the bin of its tone is at least \<open>g\<close> greater than the other seven.\<close>

definition bins_show :: "refine_math \<Rightarrow> cpx list \<Rightarrow> u8 list \<Rightarrow> f32 \<Rightarrow> bool" where
  "bins_show M Z tones g \<longleftrightarrow>
     (\<forall>k<58. \<forall>t<8. t \<noteq> unat (tones ! data_pos k) \<longrightarrow>
        bin_mag M Z (data_pos k) t + g \<le> bin_mag M Z (data_pos k) (unat (tones ! data_pos k)))"

lemma max_sign:
  assumes "0 < g" and "r32 g = (g :: f32)"
  shows "y + g \<le> x \<Longrightarrow> 0 < fsub x y" and "x + g \<le> y \<Longrightarrow> \<not> 0 < fsub x y"
proof -
  show "0 < fsub x y" if "y + g \<le> x"
  proof -
    have "r32 g \<le> fsub x y" unfolding fsub_def by (rule r32_mono) (use that in linarith)
    then show ?thesis using assms by linarith
  qed
  show "\<not> 0 < fsub x y" if "x + g \<le> y" using that assms(1) fsub_nonpos [of x y] by linarith
qed

lemma refine_max4_bound: "a \<le> u \<Longrightarrow> b \<le> u \<Longrightarrow> c \<le> u \<Longrightarrow> d \<le> u \<Longrightarrow> refine_max4 a b c d \<le> u"
  by (simp add: refine_max4_def)

lemma refine_max4_ge: "a \<le> refine_max4 a b c d" "b \<le> refine_max4 a b c d" "c \<le> refine_max4 a b c d" "d \<le> refine_max4 a b c d"
  by (simp_all add: refine_max4_def le_max_iff_disj)

lemma refine_max4_signs:
  assumes g: "0 < g" "r32 g = g"
    and best: "\<And>j. j < 8 \<Longrightarrow> j \<noteq> (if b2 then 4 else 0) + (if b1 then 2 else 0) + (if b0 then 1 else 0) \<Longrightarrow>
        s j + g \<le> s ((if b2 then 4 else 0) + (if b1 then 2 else 0) + (if b0 then 1 else 0 :: nat))"
  shows "0 < fsub (refine_max4 (s 4) (s 5) (s 6) (s 7)) (refine_max4 (s 0) (s 1) (s 2) (s 3)) \<longleftrightarrow> b2"
    and "0 < fsub (refine_max4 (s 2) (s 3) (s 6) (s 7)) (refine_max4 (s 0) (s 1) (s 4) (s 5)) \<longleftrightarrow> b1"
    and "0 < fsub (refine_max4 (s 1) (s 3) (s 5) (s 7)) (refine_max4 (s 0) (s 2) (s 4) (s 6)) \<longleftrightarrow> b0"
proof -
  define v where "v = (if b2 then 4 else 0) + (if b1 then 2 else 0) + (if b0 then 1 else 0 :: nat)"
  have best: "s j + g \<le> s v" if "j < 8" "j \<noteq> v" for j using best that unfolding v_def by blast
  have gap: "refine_max4 (s i1) (s i2) (s i3) (s i4) + g \<le> refine_max4 (s j1) (s j2) (s j3) (s j4)"
    if "i1 < 8" "i2 < 8" "i3 < 8" "i4 < 8" "v \<in> {j1, j2, j3, j4}" "v \<notin> {i1, i2, i3, i4}" for i1 i2 i3 i4 j1 j2 j3 j4
  proof -
    have "s i1 + g \<le> s v" "s i2 + g \<le> s v" "s i3 + g \<le> s v" "s i4 + g \<le> s v" using best that by blast+
    then have "refine_max4 (s i1) (s i2) (s i3) (s i4) \<le> s v - g" by (intro refine_max4_bound) linarith+
    then have "refine_max4 (s i1) (s i2) (s i3) (s i4) + g \<le> s v" by linarith
    also have "s v \<le> refine_max4 (s j1) (s j2) (s j3) (s j4)" using that(5) by (elim insertE emptyE) (simp_all only: refine_max4_ge)
    finally show ?thesis .
  qed
  note sg = max_sign [OF g]
  have v2: "if b2 then v \<in> {4, 5, 6, 7} \<and> v \<notin> {0, 1, 2, 3} else v \<in> {0, 1, 2, 3} \<and> v \<notin> {4, 5, 6, 7}"
    and v1: "if b1 then v \<in> {2, 3, 6, 7} \<and> v \<notin> {0, 1, 4, 5} else v \<in> {0, 1, 4, 5} \<and> v \<notin> {2, 3, 6, 7}"
    and v0: "if b0 then v \<in> {1, 3, 5, 7} \<and> v \<notin> {0, 2, 4, 6} else v \<in> {0, 2, 4, 6} \<and> v \<notin> {1, 3, 5, 7}"
    by (simp_all add: v_def)
  show "0 < fsub (refine_max4 (s 4) (s 5) (s 6) (s 7)) (refine_max4 (s 0) (s 1) (s 2) (s 3)) \<longleftrightarrow> b2"
    using v2 sg(1) [OF gap [of 0 1 2 3 4 5 6 7]] sg(2) [OF gap [of 4 5 6 7 0 1 2 3]] by (cases b2) simp_all
  show "0 < fsub (refine_max4 (s 2) (s 3) (s 6) (s 7)) (refine_max4 (s 0) (s 1) (s 4) (s 5)) \<longleftrightarrow> b1"
    using v1 sg(1) [OF gap [of 0 1 4 5 2 3 6 7]] sg(2) [OF gap [of 2 3 6 7 0 1 4 5]] by (cases b1) simp_all
  show "0 < fsub (refine_max4 (s 1) (s 3) (s 5) (s 7)) (refine_max4 (s 0) (s 2) (s 4) (s 6)) \<longleftrightarrow> b0"
    using v0 sg(1) [OF gap [of 0 2 4 6 1 3 5 7]] sg(2) [OF gap [of 1 3 5 7 0 2 4 6]] by (cases b0) simp_all
qed

lemma refine_symbol_signs:
  assumes vis: "bins_show M Z (ft8_encode p) g" and g: "0 < g" "r32 g = g" and k: "k < 58"
  shows "hard_bits (refine_symbol M kFT8Refine Z k) =
     List.map (\<lambda>i. byte_of_bool (msg_bit (ft8_codeword p) i)) [3 * k, 3 * k + 1, 3 * k + 2]"
proof -
  let ?x = "msg_bit (ft8_codeword p)" and ?v = "bits3 (msg_bit (ft8_codeword p)) (3 * k)"
  let ?s = "\<lambda>j. bin_mag M Z (data_pos k) (kFT8_Gray_map_d j)"
  have v: "?v < 8" by (simp add: bits3_def)
  have "data_pos k < 79" using k by (simp add: data_pos_def)
  then have tone: "unat (ft8_encode p ! data_pos k) = kFT8_Gray_map_d ?v"
    using k gray_map_d(1) [OF v] by (simp add: ft8_encode_tones ft8_tone_def ft8_data_before_def data_pos_def)
  have "?s j + g \<le> ?s ?v" if j: "j < 8" "j \<noteq> ?v" for j
    using vis [unfolded bins_show_def, rule_format, OF k, of "kFT8_Gray_map_d j"] gray_map_d(2) [OF j(1)] gray_map_d(3) [OF j(1) v] j(2)
    by (simp only: tone simp_thms)
  then have best: "\<And>j. j < 8 \<Longrightarrow> j \<noteq> (if ?x (3 * k) then 4 else 0) + (if ?x (3 * k + 1) then 2 else 0) + (if ?x (3 * k + 2) then 1 else 0) \<Longrightarrow>
        ?s j + g \<le> ?s ((if ?x (3 * k) then 4 else 0) + (if ?x (3 * k + 1) then 2 else 0) + (if ?x (3 * k + 2) then 1 else 0))"
    unfolding bits3_def by blast
  note signs = refine_max4_signs [where s = ?s, OF g best]
  have "rm_tone_map kFT8Refine ! j = kFT8_Gray_map_d j" if "j < 8" for j
    by (simp only: kFT8Refine_def kFT8_Gray_map_d_def refine_mode.simps)
  then have s2: "List.map (\<lambda>j. let z = Z ! (data_pos k * 8 + rm_tone_map kFT8Refine ! j) in m_hypot M (fst z) (snd z)) [0..<8] =
      List.map ?s [0..<8]"
    unfolding bin_mag_def by (intro map_cong refl) simp
  have eq: "refine_symbol M kFT8Refine Z k =
     [fsub (refine_max4 (?s 4) (?s 5) (?s 6) (?s 7)) (refine_max4 (?s 0) (?s 1) (?s 2) (?s 3)),
      fsub (refine_max4 (?s 2) (?s 3) (?s 6) (?s 7)) (refine_max4 (?s 0) (?s 1) (?s 4) (?s 5)),
      fsub (refine_max4 (?s 1) (?s 3) (?s 5) (?s 7)) (refine_max4 (?s 0) (?s 2) (?s 4) (?s 6))]"
    unfolding refine_symbol_def unfolding s2 unfolding Let_def by (simp add: nth_upt8 numeral_2_eq_2 del: upt_rec_numeral)
  show ?thesis unfolding eq list.map by (rule hard_bits3 [OF signs])
qed

text \<open>
  C28. The refine fallback decodes every clean FT8 transmission: when, at the alignment the search settles on,
  the bin of each data tone exceeds the other seven by any positive \<open>float\<close>, the hard decisions of the soft
  bits decode to the payload sent, with or without the search for a drift.
\<close>

theorem refine_clean_received:
  assumes p: "length p = 10" and vis: "bins_show M (refine_bins M frame flen kFT8Refine dechirp) (ft8_encode p) g"
    and g: "0 < g" "r32 g = g"
  shows "case FtxDecode.ftx_decode_from_bits (hard_bits (snd (refine_llr M frame flen kFT8Refine dechirp))) m st of
           (ok, m', st') \<Rightarrow> ok \<and> msg_bits (payload_of m') 80 = msg_bits p 77 @ replicate 3 False"
proof -
  let ?x = "msg_bit (ft8_codeword p)"
  note signs = refine_symbol_signs [OF vis g]
  have "hard_bits (snd (refine_llr M frame flen kFT8Refine dechirp)) =
      concat (List.map (\<lambda>k. List.map (\<lambda>i. byte_of_bool (?x i)) [3 * k, 3 * k + 1, 3 * k + 2]) [0..<58])"
    unfolding refine_llr_def snd_conv hard_bits_concat map_map comp_def
    by (intro arg_cong [where f = concat] map_cong refl signs) simp
  then have bits: "hard_bits (snd (refine_llr M frame flen kFT8Refine dechirp)) = codeword_bits p"
    by (simp only: concat_triples codeword_bits_def) simp
  show ?thesis unfolding bits
    using crc_ok_codeword [OF p]
    by (simp add: FtxDecode.ftx_decode_from_bits_def crc_gate_eq msg_bits_gate_payload word_payload_codeword [OF p]
        flip: gate_payload_def)
qed

section \<open>Examples\<close>

lemma dt_steps_range: "x \<in> set (dt_steps d) \<Longrightarrow> d \<le> x \<and> x \<le> 512"
proof (induction d rule: dt_steps.induct)
  case (1 d)
  then show ?case by (subst (asm) dt_steps.simps) (auto split: if_splits)
qed

text \<open>The bins kept are the transforms of the symbols.\<close>

lemma sym_tones_bins:
  fixes M frame flen dt df slope mode
  assumes len: "length z = kRefineNsym * 8" and p: "p < kRefineNsym" and j: "j < 8"
  defines "out \<equiv> \<lambda>p. m_fft M (List.map (\<lambda>i. sym_sample M frame flen df slope (int (p * kRefineNsps) + dt + int i)) [0..<kRefineNsps])"
  shows "the (snd (sym_tones M frame flen dt df slope mode (Some z))) ! (p * 8 + j) = out p ! j"
proof -
  let ?f = "\<lambda>i. out (i div 8) ! (i mod 8)" and ?js = "\<lambda>p. List.map (\<lambda>j. p * 8 + j) [0..<8]"
  have inner: "foldl (\<lambda>z j. z[q * 8 + j := out q ! j]) z [0..<8] = foldl (\<lambda>z i. z[i := ?f i]) z (?js q)" for q z
    unfolding foldl_map by (rule foldl_cong) (auto simp: div_mult_self3 mod_mult_self3)
  have "snd (foldl (sym_step M frame flen dt df slope mode) (e, Some z) ps) = Some (foldl (\<lambda>z q. foldl (\<lambda>z i. z[i := ?f i]) z (?js q)) z ps)"
    for e z ps
  proof (induction ps arbitrary: e z)
    case (Cons q ps)
    have "sym_step M frame flen dt df slope mode (e, Some z) q =
        (pilot_energy M mode (out q) q e, Some (foldl (\<lambda>z i. z[i := ?f i]) z (?js q)))"
      by (simp add: sym_step_def Let_def inner [symmetric]) (simp add: out_def)
    then show ?case using Cons.IH by simp
  qed simp
  then have "the (snd (sym_tones M frame flen dt df slope mode (Some z))) =
      foldl (\<lambda>z i. z[i := ?f i]) z (concat (List.map ?js [0..<kRefineNsym]))"
    by (simp only: sym_tones_def option.sel foldl_foldl_write)
  moreover have "p * 8 + j \<in> set (concat (List.map ?js [0..<kRefineNsym]))" using p j by (auto intro!: bexI [of _ p])
  moreover have "p * 8 + j < length z" using p j len by simp
  moreover have "?f (p * 8 + j) = out p ! j" using j by simp
  ultimately show ?thesis by (simp only: foldl_write_nth if_True)
qed

text \<open>A transform that reads the tone off the sample 512 places into the symbol, for a frame that says its tone everywhere.\<close>

definition tone_math :: refine_math where
  "tone_math = \<lparr>m_fft = (\<lambda>xs. List.map (\<lambda>j. (if of_nat j = fst (xs ! 512) then 1 else 0, 0)) [0..<8]), m_hypot = (\<lambda>a b. \<bar>a\<bar>),
     m_cos = (\<lambda>_. 1), m_sin = (\<lambda>_. 0), m_cosf = (\<lambda>_. 1), m_sinf = (\<lambda>_. 0)\<rparr>"

definition tone_frame :: "u8 list \<Rightarrow> cpx list" where
  "tone_frame tones = List.map (\<lambda>i. (of_int (uint (tones ! (i div 2048))), 0)) [0..<length tones * 2048]"

theorem refine_alignment_witness:
  "fst (sym_tones tone_math [] 0 (-512) 0 0 kFT8Refine None) \<le> fst (refine_llr tone_math [] 0 kFT8Refine True)"
proof -
  obtain dt df slope e where r: "refine_align tone_math [] 0 kFT8Refine True = (dt, df, slope, e)" by (metis surj_pair)
  have pos: "0 \<le> m_hypot tone_math a b" for a b by (simp add: tone_math_def)
  have "- 512 \<in> set (dt_steps (-512))" by (subst dt_steps.simps) simp
  moreover have "\<forall>dt'\<in>set (dt_steps (-512)). fst (sym_tones tone_math [] 0 dt' 0 0 kFT8Refine None) \<le> e"
    and "fst (refine_llr tone_math [] 0 kFT8Refine True) = e" using refine_alignment [OF pos r] by blast+
  ultimately show ?thesis by simp
qed

theorem refine_reads_window_witness:
  "\<exists>s. feed_blocks \<lparr>mb_N = 100, rfft_length = 1, mb_time_osr = 1, mb_freq_osr = 1, retain_complex = True\<rparr> (\<lambda>src n buf. buf) (\<lambda>f xs. Some xs) (replicate 82 [(1, 0)])
       (mag_block_new \<lparr>mb_N = 100, rfft_length = 1, mb_time_osr = 1, mb_freq_osr = 1, retain_complex = True\<rparr> (replicate 4 (0, 0))
         (replicate 100 []) (replicate 4096 [(0, 0)])) = Some s \<and>
     refineCandidate tone_math kFT8Refine False 1 1 (complex_ring s) 100 (slot_cplx_idx s) (complex_write s) 7 0 0 \<noteq> None"
proof -
  let ?G = "\<lparr>mb_N = 100, rfft_length = 1, mb_time_osr = 1, mb_freq_osr = 1, retain_complex = True\<rparr>"
  let ?new = "mag_block_new ?G (replicate 4 (0, 0)) (replicate 100 []) (replicate 4096 [(0, 0)]) :: (cpx, cpx) mag_block"
  obtain s where s: "feed_blocks ?G (\<lambda>src n buf. buf) (\<lambda>f xs. Some xs) (replicate 82 [(1, 0)]) ?new = Some s"
    using feed_blocks_total [of "\<lambda>f xs. Some xs" ?G "\<lambda>src n buf. buf" "replicate 82 [(1, 0)]" ?new] by auto
  have mem: "mb_mem ?G 1 (replicate 4 (0, 0)) (replicate 100 []) (replicate 4096 [(0 :: f32, 0 :: f32)])"
    by (simp add: mb_mem_def kComplexCompositeBlocks_def)
  have ok: "mb_ok ?G 1 1" by (simp add: mb_ok_def)
  have "refineCandidate tone_math kFT8Refine False (rfft_length ?G) 1 (complex_ring s) (mb_N ?G) (slot_cplx_idx s) (complex_write s) 7 0 0 \<noteq> None"
    using refine_reads_window [OF mem ok _ _ _ s, of 0 0 0 tone_math 7 kFT8Refine False] by auto
  then show ?thesis using s by simp
qed

lemma tone_sample:
  assumes tones: "length tones = 79" "\<forall>t\<in>set tones. t < 8" and p: "p < 79" and dt: "-512 \<le> dt" "dt \<le> 512"
  shows "fst (sym_sample tone_math (tone_frame tones) (79 * 2048) df 0 (int (p * kRefineNsps) + dt + 512)) = of_int (uint (tones ! p))"
proof -
  let ?idx = "int (p * kRefineNsps) + dt + 512" and ?a = "of_int (uint (tones ! p)) :: f32"
  define d where "d = nat (dt + 512)"
  have idx: "?idx = int (p * 2048 + d)" "d \<le> 1024" using dt by (simp_all add: d_def kRefineNsps_def)
  have r: "p * 2048 + d < 79 * 2048" using p idx(2) by linarith
  have "(p * 2048 + d) div 2048 = p" using idx(2) by simp
  then have elem: "tone_frame tones ! (p * 2048 + d) = (?a, 0)" using r tones(1) by (simp add: tone_frame_def)
  have "tones ! p < 8" using tones p by simp
  then have "0 \<le> uint (tones ! p)" "uint (tones ! p) < 8" by (simp_all add: word_less_def)
  then have "r32 ?a = ?a" by (intro r32_int) simp
  then have "fst (cmul (?a, 0) (r32 1, r32 0)) = ?a" by (simp add: cmul_def fsub_def fmul_def)
  moreover have in_frame: "0 \<le> int (p * 2048 + d) \<and> int (p * 2048 + d) < 79 * 2048" using r by linarith
  ultimately show ?thesis unfolding sym_sample_def idx(1) if_P [OF in_frame] nat_int elem Let_def by (simp add: tone_math_def)
qed

lemma tone_frame_bins:
  assumes tones: "length tones = 79" "\<forall>t\<in>set tones. t < 8" and t: "t < 8" and p: "p < 79"
  shows "bin_mag tone_math (refine_bins tone_math (tone_frame tones) (79 * 2048) mode False) p t = (if t = unat (tones ! p) then 1 else 0)"
proof -
  obtain dt df slope e where r: "refine_align tone_math (tone_frame tones) (79 * 2048) mode False = (dt, df, slope, e)" by (metis surj_pair)
  have pos: "0 \<le> m_hypot tone_math a b" for a b by (simp add: tone_math_def)
  note f = refine_align_facts [OF pos r]
  have s: "slope = 0" using f(6) by blast
  note dt = dt_steps_range [OF f(1)]
  let ?Z = "refine_bins tone_math (tone_frame tones) (79 * 2048) mode False"
  let ?xs = "List.map (\<lambda>i. sym_sample tone_math (tone_frame tones) (79 * 2048) df slope (int (p * kRefineNsps) + dt + int i)) [0..<kRefineNsps]"
  have z: "?Z ! (p * 8 + t) = m_fft tone_math ?xs ! t"
    unfolding refine_bins_def r Let_def prod.case by (rule sym_tones_bins) (simp_all add: kRefineNsym_def p t)
  have x: "fst (?xs ! 512) = of_int (uint (tones ! p))"
    using tone_sample [OF tones p, of dt df] dt by (simp add: s kRefineNsps_def del: upt_rec_numeral)
  have "m_fft tone_math ?xs ! t = (if of_nat t = fst (?xs ! 512) then 1 else 0, 0)"
    using t by (simp add: tone_math_def del: upt_rec_numeral)
  moreover have "(of_nat t = (of_int (uint (tones ! p)) :: f32)) \<longleftrightarrow> t = unat (tones ! p)"
  proof -
    have "uint (tones ! p) = int (unat (tones ! p))" by simp
    then have "(of_int (uint (tones ! p)) :: f32) = of_nat (unat (tones ! p))" by (simp only: of_int_of_nat_eq)
    then show ?thesis by (simp only: of_nat_eq_iff)
  qed
  ultimately have "?Z ! (p * 8 + t) = (if t = unat (tones ! p) then 1 else 0, 0)" by (simp only: z x)
  then show ?thesis by (simp add: bin_mag_def tone_math_def)
qed

theorem refine_clean_received_witness:
  "fst (FtxDecode.ftx_decode_from_bits
     (hard_bits (snd (refine_llr tone_math (tone_frame (ft8_encode (replicate 10 1))) (79 * 2048) kFT8Refine False)))
     \<lparr>payload_of = [], msg_hash = 0\<rparr> \<lparr>ldpc_errors = 0, crc_extracted = 0, crc_calculated = 0\<rparr>)"
proof -
  let ?tones = "ft8_encode (replicate 10 1)"
  have tones: "length ?tones = 79" "\<forall>t\<in>set ?tones. t < 8" by (simp_all add: ft8_encode_tones ft8_tones_small)
  have small: "unat (?tones ! data_pos k) < 8" if "k < 58" for k
  proof -
    have "data_pos k < 79" using that by (simp add: data_pos_def)
    then have "?tones ! data_pos k < 8" using tones by (metis nth_mem)
    then show ?thesis by (simp add: word_less_nat_alt)
  qed
  have vis: "bins_show tone_math (refine_bins tone_math (tone_frame ?tones) (79 * 2048) kFT8Refine False) ?tones 1"
  proof -
    have "data_pos k < 79" if "k < 58" for k using that by (simp add: data_pos_def)
    then show ?thesis unfolding bins_show_def
      using tone_frame_bins [OF tones] small by simp
  qed
  have len: "length (replicate 10 1 :: u8 list) = 10" by simp
  show ?thesis
    using refine_clean_received [OF len vis, of "\<lparr>payload_of = [], msg_hash = 0\<rparr>" "\<lparr>ldpc_errors = 0, crc_extracted = 0, crc_calculated = 0\<rparr>"]
    unfolding case_prod_unfold by simp
qed

end
