(* ===== verification/CwSkimmer.thy ===== *)
theory CwSkimmer
  imports CwTracker CwMorse BandMap FloatOrder MagBlock "HOL-Library.Signed_Division"
begin

text \<open>
  The CW skimmer (\<open>gm/cuda/CWSkimmerCuda.cc\<close>): on every 25th slot of the magnitude ring it takes the last slots
  to the host, computes a keying metric for every bin, and steps the tracker of \<open>cw_track.cc\<close>, which asks it for
  the Morse text of a bin, the speed, and the frequency.  The conversion functions of \<open>cstdlib\<close> are arguments;
  the copies from the device are taken as reads of the ring.
\<close>

section \<open>Geometry and settings\<close>

definition cw_total :: u32 where "cw_total = foldl (\<lambda>total b. total + cw_bw b) 0 kCWBands"

definition content_bins :: "int \<Rightarrow> int" where
  "content_bins num_bins = min (sint (2 * cw_total)) num_bins"

definition TOSR :: nat where "TOSR = 4"
definition SKIM_STRIDE :: u64 where "SKIM_STRIDE = 25"
definition wslots :: "nat \<Rightarrow> nat" where "wslots N = min 250 (N - 2)"
definition wrows :: "nat \<Rightarrow> nat" where "wrows N = wslots N * TOSR"

text \<open>Settings from the environment; \<open>strtof\<close> is \<open>None\<close> where it converts nothing.\<close>

definition snr_setting :: "(string \<Rightarrow> f32 option) \<Rightarrow> string option \<Rightarrow> f32" where
  "snr_setting strtof e = (case e of None \<Rightarrow> 6 | Some s \<Rightarrow> (case strtof s of None \<Rightarrow> 6 | Some v \<Rightarrow> v))"

definition skim_config ::
  "(string \<Rightarrow> f32 option) \<Rightarrow> (string \<Rightarrow> int) \<Rightarrow> string option \<Rightarrow> string option \<Rightarrow> string option \<Rightarrow> string option \<Rightarrow> cw_config" where
  "skim_config strtof atoi cw_snr cw_drift cw_confirm cw_adapt_k =
     (let cfg = \<lparr>snr_thresh = snr_setting strtof cw_snr, adapt_k = 0, drift_bins = 2, merge_bins = 2, confirm = 2, ttl_slots = 60 * 50\<rparr>;
          cfg = (case cw_drift of None \<Rightarrow> cfg | Some d \<Rightarrow> cfg\<lparr>drift_bins := max 0 (atoi d), merge_bins := max 0 (atoi d)\<rparr>);
          cfg = (case cw_confirm of None \<Rightarrow> cfg | Some c \<Rightarrow> cfg\<lparr>confirm := max 1 (atoi c)\<rparr>);
          cfg = cfg\<lparr>adapt_k := r32 (27 / 10)\<rparr>
      in case cw_adapt_k of None \<Rightarrow> cfg
         | Some k \<Rightarrow> cfg\<lparr>adapt_k := max 0 (case strtof k of None \<Rightarrow> 0 | Some v \<Rightarrow> v)\<rparr>)"

section \<open>Frequencies\<close>

fun bin_loop :: "int \<Rightarrow> int \<Rightarrow> cw_band list \<Rightarrow> f64" where
  "bin_loop c cum [] = 0"
| "bin_loop c cum (b # bs) =
     (if c < cum + sint (cw_bw b) then dmul (of_int (uint (cw_start b + word_of_int (c - cum)))) 100
      else bin_loop c (cum + sint (cw_bw b)) bs)"

definition binToHz :: "int \<Rightarrow> f64" where
  "binToHz magbin = bin_loop (magbin sdiv 2) 0 kCWBands"

section \<open>The envelope of a bin\<close>

definition sk_val :: "nat \<Rightarrow> u8 list list \<Rightarrow> nat \<Rightarrow> nat \<Rightarrow> nat \<Rightarrow> u8" where
  "sk_val NB win s row bin = win ! s ! (row * NB + bin)"

definition bin_vals :: "nat \<Rightarrow> nat \<Rightarrow> u8 list list \<Rightarrow> nat \<Rightarrow> u8 list" where
  "bin_vals NB W win bin = concat (map (\<lambda>s. map (\<lambda>r. sk_val NB win s r bin) [0..<TOSR]) [0..<W])"

definition col_of :: "u8 list \<Rightarrow> f32 list" where
  "col_of vals = map (\<lambda>v. r32 (of_int (uint v))) vals"

definition SPAN_PAD :: nat where "SPAN_PAD = 4"

fun back_to :: "f32 \<Rightarrow> f32 list \<Rightarrow> nat \<Rightarrow> nat \<Rightarrow> nat" where
  "back_to act col a 0 = 0"
| "back_to act col a (Suc b) = (if a < Suc b \<and> col ! Suc b < act then back_to act col a b else Suc b)"

definition active_span :: "f32 list \<Rightarrow> nat \<times> nat" where
  "active_span col =
     (let cmin = list_lo col; cmax = list_hi col; act = fadd cmin (fmul (1 / 2) (fsub cmax cmin));
          a = length (takeWhile (\<lambda>x. x < act) col); b = back_to act col a (length col - 1);
          a = (if SPAN_PAD < a then a - SPAN_PAD else 0);
          b = (if b + SPAN_PAD < length col then b + SPAN_PAD else length col - 1)
      in (a, b))"

text \<open>The median of the span is subtracted, and what falls below zero is cut.\<close>

definition detrend :: "f32 list \<Rightarrow> f32 list" where
  "detrend buf =
     (let floor = sort buf ! (length buf div 2)
      in map (\<lambda>v. let v = fsub v floor in if v < 0 then 0 else v) buf)"

definition decodeActive :: "fmath \<Rightarrow> f32 list \<Rightarrow> cw \<Rightarrow> string \<times> cw" where
  "decodeActive fm col dec =
     (let (a, b) = active_span col; wlen = int b - int a + 1
      in if wlen < 8 then ([], dec)
         else (let dbuf = detrend (take (nat wlen) (drop a col))
               in if list_ex (\<lambda>v. 0 < v) dbuf then decode_envelope fm dbuf dec else ([], dec)))"

section \<open>The metric of a bin\<close>

definition byte_hist :: "u8 list \<Rightarrow> nat list" where
  "byte_hist vals = foldl (\<lambda>hist v. hist[unat v := hist ! unat v + 1]) (replicate 256 0) vals"

fun pct_loop :: "nat \<Rightarrow> nat \<Rightarrow> nat list \<Rightarrow> nat list \<Rightarrow> nat \<Rightarrow> nat \<Rightarrow> bool \<Rightarrow> nat \<times> nat" where
  "pct_loop med_t p80_t hist [] cum p50 g50 = (p50, 0)"
| "pct_loop med_t p80_t hist (h # hs) cum p50 g50 =
     (let cum = cum + hist ! h;
          (p50, g50) = (if \<not> g50 \<and> med_t \<le> cum then (h, True) else (p50, g50))
      in if p80_t \<le> cum then (p50, h) else pct_loop med_t p80_t hist hs cum p50 g50)"

definition bin_metric :: "u8 list \<Rightarrow> f32" where
  "bin_metric vals =
     (let med_t = length vals div 2; p80_t = length vals * 4 div 5;
          (p50, p80) = pct_loop med_t p80_t (byte_hist vals) [0..<256] 0 0 False
      in r32 (of_int (int p80 - int p50)))"

section \<open>The worker\<close>

record skim_geom =
  sk_N :: nat
  sk_num_bins :: nat

definition skim_due :: "skim_geom \<Rightarrow> u64 \<Rightarrow> u64 \<Rightarrow> bool" where
  "skim_due G wi prev \<longleftrightarrow> \<not> (wi < of_nat (wslots (sk_N G)) + 1 \<or> wi \<le> prev \<or> wi mod SKIM_STRIDE \<noteq> 0)"

definition snapshot :: "skim_geom \<Rightarrow> u8 list list \<Rightarrow> u64 \<Rightarrow> u8 list list" where
  "snapshot G ring wi =
     (let W = wslots (sk_N G); start = wi - of_nat W in map (\<lambda>s. ring ! ring_slot (start + of_nat s) (sk_N G)) [0..<W])"

text \<open>
  What the tracker is given.  The speed is read right after the text of the same bin; \<open>decode\<close> of
  \<open>cw_morse.cc\<close> begins with a reset, so the text and the speed do not depend on the bins decoded before.
\<close>

definition skim_window :: "skim_geom \<Rightarrow> fmath \<Rightarrow> u8 list list \<Rightarrow> u64 \<Rightarrow> window" where
  "skim_window G fm ring wi =
     (let win = snapshot G ring wi; W = wslots (sk_N G); vals = \<lambda>bin. bin_vals (sk_num_bins G) W win bin;
          dec = cw_new 5 20
      in \<lparr>w_wi = wi, w_snr = map (\<lambda>bin. bin_metric (vals bin)) [0..<nat (content_bins (int (sk_num_bins G)))],
          w_decode = (\<lambda>bin. fst (decodeActive fm (col_of (vals (nat bin))) dec)),
          w_wpm = (\<lambda>bin. cw_wpm (snd (decodeActive fm (col_of (vals (nat bin))) dec))),
          w_hz = binToHz\<rparr>)"

text \<open>One pass of the loop for each sight of the ring.\<close>

definition skim_pass ::
  "skim_geom \<Rightarrow> fmath \<Rightarrow> (peak list \<Rightarrow> peak list) \<Rightarrow> (string list \<Rightarrow> string list) \<Rightarrow> cw_config \<Rightarrow> u64 \<times> track list \<Rightarrow> u64 \<times> u8 list list
     \<Rightarrow> (u64 \<times> track list) \<times> cwspot list" where
  "skim_pass G fm srt enum cfg st sight =
     (let (prev, ts) = st; (wi, ring) = sight
      in if skim_due G wi prev
         then (let (ts, spots) = tracker_step srt enum cfg (skim_window G fm ring wi) ts in ((wi, ts), spots))
         else (st, []))"

fun skim_run ::
  "skim_geom \<Rightarrow> fmath \<Rightarrow> (peak list \<Rightarrow> peak list) \<Rightarrow> (string list \<Rightarrow> string list) \<Rightarrow> cw_config \<Rightarrow> u64 \<times> track list \<Rightarrow> (u64 \<times> u8 list list) list
     \<Rightarrow> cwspot list list" where
  "skim_run G fm srt enum cfg st [] = []"
| "skim_run G fm srt enum cfg st (x # xs) =
     (let (st', spots) = skim_pass G fm srt enum cfg st x in spots # skim_run G fm srt enum cfg st' xs)"

section \<open>The metric is a difference of percentiles\<close>

lemma byte_hist_snoc: "byte_hist (vals @ [v]) = (byte_hist vals)[unat v := byte_hist vals ! unat v + 1]"
  by (simp add: byte_hist_def)

lemma length_byte_hist [simp]: "length (byte_hist vals) = 256"
  by (induction vals rule: rev_induct) (simp_all add: byte_hist_snoc, simp add: byte_hist_def)

lemma byte_hist_nth: "h < 256 \<Longrightarrow> byte_hist vals ! h = length (filter (\<lambda>v. unat v = h) vals)"
proof (induction vals rule: rev_induct)
  case (snoc v vals)
  then show ?case by (cases "unat v = h") (simp_all add: byte_hist_snoc)
qed (simp add: byte_hist_def)

text \<open>How many values lie below a level.\<close>

definition below :: "u8 list \<Rightarrow> nat \<Rightarrow> nat" where
  "below vals h = length (filter (\<lambda>v. unat v < h) vals)"

lemma below_Suc: "below vals (Suc h) = below vals h + length (filter (\<lambda>v. unat v = h) vals)"
  by (induction vals) (auto simp: below_def less_Suc_eq)

lemma below_256: "below vals 256 = length vals"
proof -
  have "filter (\<lambda>v. unat (v :: u8) < 256) vals = vals" by (rule filter_True) (use unsigned_less [where 'a = nat and 'b = 8] in simp)
  then show ?thesis by (simp add: below_def)
qed

lemma pct_loop_levels:
  assumes "pct_loop med p80 (byte_hist vals) [k..<256] (below vals k) p50 g50 = (a, b)"
    and "k \<le> 256" and "below vals k < p80" and "p80 \<le> length vals" and "med \<le> p80"
    and "if g50 then below vals p50 < med \<and> med \<le> below vals (Suc p50) else below vals k < med"
  shows "below vals a < med \<and> med \<le> below vals (Suc a) \<and> below vals b < p80 \<and> p80 \<le> below vals (Suc b)"
  using assms
proof (induction "256 - k" arbitrary: k p50 g50)
  case 0
  then show ?case by (simp add: below_256)
next
  case (Suc n)
  then have k: "k < 256" by simp
  have b: "below vals k + byte_hist vals ! k = below vals (Suc k)" using k by (simp add: below_Suc byte_hist_nth)
  have l: "[k..<256] = k # [Suc k..<256]" using k by (rule upt_conv_Cons)
  define p50' g50' where "p50' = (if \<not> g50 \<and> med \<le> below vals (Suc k) then k else p50)"
    and "g50' = (g50 \<or> med \<le> below vals (Suc k))"
  have inv: "if g50' then below vals p50' < med \<and> med \<le> below vals (Suc p50') else below vals (Suc k) < med"
    using Suc.prems(6) by (auto simp: p50'_def g50'_def split: if_splits)
  have step: "(if p80 \<le> below vals (Suc k) then (p50', k)
      else pct_loop med p80 (byte_hist vals) [Suc k..<256] (below vals (Suc k)) p50' g50') = (a, b)"
    using Suc.prems(1) by (auto simp: l b p50'_def g50'_def Let_def split: if_splits)
  show ?case
  proof (cases "p80 \<le> below vals (Suc k)")
    case True
    then have "g50'" using Suc.prems(5) by (simp add: g50'_def)
    then show ?thesis using True step inv Suc.prems(3) by auto
  next
    case False
    then show ?thesis using step inv Suc.prems(4,5) Suc.hyps k by (intro Suc.hyps(1)) auto
  qed
qed

text \<open>The element of a sorted list at a position is given by two counts.\<close>

lemma sorted_nth_counts:
  fixes xs :: "'a :: linorder list"
  assumes "sorted xs" and "length (filter (\<lambda>x. x < v) xs) \<le> k" and "k < length (filter (\<lambda>x. x \<le> v) xs)"
  shows "xs ! k = v"
  using assms
proof (induction xs arbitrary: k)
  case (Cons x xs)
  have hd: "\<And>y. y \<in> set xs \<Longrightarrow> x \<le> y" and s: "sorted xs" using Cons.prems(1) by auto
  show ?case
  proof (cases k)
    case 0
    then have "\<not> x < v" using Cons.prems(2) by (auto split: if_splits)
    moreover have "x \<le> v"
    proof (rule ccontr)
      assume "\<not> x \<le> v"
      then have "filter (\<lambda>y. y \<le> v) (x # xs) = []" using hd by (fastforce simp: filter_empty_conv)
      then show False using Cons.prems(3) by simp
    qed
    ultimately show ?thesis using 0 by simp
  next
    case (Suc j)
    have "length (filter (\<lambda>y. y < v) xs) \<le> j"
    proof (cases "x < v")
      case False
      then have "filter (\<lambda>y. y < v) xs = []" using hd by (fastforce simp: filter_empty_conv)
      then show ?thesis by simp
    qed (use Cons.prems(2) Suc in simp)
    moreover have "j < length (filter (\<lambda>y. y \<le> v) xs)" using Cons.prems(3) Suc by (simp split: if_splits)
    ultimately show ?thesis using Cons.IH s Suc by simp
  qed
qed simp

lemma length_filter_sort: "length (filter P (sort xs)) = length (filter P xs)"
proof -
  have "mset (filter P (sort xs)) = mset (filter P xs)" by simp
  then show ?thesis by (metis size_mset)
qed

lemma level_rank:
  assumes "below vals a < t" and "t \<le> below vals (Suc a)" shows "sort (map unat vals) ! (t - 1) = a"
proof (rule sorted_nth_counts)
  have "length (filter (\<lambda>x. x < a) (map unat vals)) = below vals a"
    "length (filter (\<lambda>x. x \<le> a) (map unat vals)) = below vals (Suc a)"
    by (simp_all add: below_def filter_map comp_def less_Suc_eq_le)
  then show "length (filter (\<lambda>x. x < a) (sort (map unat vals))) \<le> t - 1"
    "t - 1 < length (filter (\<lambda>x. x \<le> a) (sort (map unat vals)))"
    using assms by (simp_all only: length_filter_sort)
qed simp

lemma bin_metric_ranks:
  assumes "2 \<le> length vals"
  shows "bin_metric vals = r32 (of_int (int (sort (map unat vals) ! (length vals * 4 div 5 - 1))
                                       - int (sort (map unat vals) ! (length vals div 2 - 1))))"
proof -
  define med p80 where "med = length vals div 2" and "p80 = length vals * 4 div 5"
  obtain a b where ab: "pct_loop med p80 (byte_hist vals) [0..<256] 0 0 False = (a, b)" by (metis surj_pair)
  have z: "below vals 0 = 0" by (simp add: below_def)
  have t: "0 < med" "med \<le> p80" "p80 \<le> length vals" using assms by (simp_all add: med_def p80_def)
  have "below vals a < med \<and> med \<le> below vals (Suc a) \<and> below vals b < p80 \<and> p80 \<le> below vals (Suc b)"
    by (rule pct_loop_levels [of med p80 vals 0 0 False]) (use ab t z in simp_all)
  then have r: "sort (map unat vals) ! (med - 1) = a" "sort (map unat vals) ! (p80 - 1) = b" by (blast intro: level_rank)+
  show ?thesis
    unfolding bin_metric_def Let_def med_def [symmetric] p80_def [symmetric] r ab prod.case by (rule refl)
qed

section \<open>A constant level does not matter\<close>

text \<open>The magnitudes are logarithmic, so a gain ahead of the ring adds a constant to every value of a bin.\<close>

definition raise_by :: "u8 \<Rightarrow> u8 list \<Rightarrow> u8 list" where
  "raise_by k vals = map (\<lambda>v. v + k) vals"

lemma sort_map_add: "sort (map (\<lambda>x. x + c) xs) = map (\<lambda>x. x + (c :: f32)) (sort xs)"
proof (rule properties_for_sort)
  have "sorted_wrt (\<lambda>x y. x + c \<le> y + c) (sort xs)" by (rule sorted_wrt_mono_rel [OF _ sorted_sort]) simp
  then show "sorted (map (\<lambda>x. x + c) (sort xs))" by (simp add: sorted_map)
qed simp

lemma list_lo_add: "xs \<noteq> [] \<Longrightarrow> list_lo (map (\<lambda>x. x + c) xs) = list_lo xs + c"
proof -
  have "foldl (\<lambda>lo x. if x < lo then x else lo) (a + c) (map (\<lambda>x. x + c) ys) = foldl (\<lambda>lo x. if x < lo then x else lo) a ys + c"
    for a :: f32 and ys by (induction ys arbitrary: a) simp_all
  then show "xs \<noteq> [] \<Longrightarrow> ?thesis" by (cases xs) (simp_all add: list_lo_def)
qed

lemma list_hi_add: "xs \<noteq> [] \<Longrightarrow> list_hi (map (\<lambda>x. x + c) xs) = list_hi xs + c"
proof -
  have "foldl (\<lambda>hi x. if hi < x then x else hi) (a + c) (map (\<lambda>x. x + c) ys) = foldl (\<lambda>hi x. if hi < x then x else hi) a ys + c"
    for a :: f32 and ys by (induction ys arbitrary: a) simp_all
  then show "xs \<noteq> [] \<Longrightarrow> ?thesis" by (cases xs) (simp_all add: list_hi_def)
qed

lemma list_lo_in: "xs \<noteq> [] \<Longrightarrow> list_lo xs \<in> set xs"
proof -
  have "foldl (\<lambda>lo x. if x < lo then x else lo) a ys \<in> insert a (set ys)" for a :: f32 and ys
  proof (induction ys arbitrary: a)
    case (Cons y ys)
    then show ?case using Cons [of y] Cons [of a] by auto
  qed simp
  then show "xs \<noteq> [] \<Longrightarrow> ?thesis" by (cases xs) (fastforce simp: list_lo_def)+
qed

lemma list_hi_in: "xs \<noteq> [] \<Longrightarrow> list_hi xs \<in> set xs"
proof -
  have "foldl (\<lambda>hi x. if hi < x then x else hi) a ys \<in> insert a (set ys)" for a :: f32 and ys
  proof (induction ys arbitrary: a)
    case (Cons y ys)
    then show ?case using Cons [of y] Cons [of a] by auto
  qed simp
  then show "xs \<noteq> [] \<Longrightarrow> ?thesis" by (cases xs) (fastforce simp: list_hi_def)+
qed

definition mid_level :: "f32 list \<Rightarrow> f32" where
  "mid_level col = fadd (list_lo col) (fmul (1 / 2) (fsub (list_hi col) (list_lo col)))"

definition byte_col :: "f32 list \<Rightarrow> bool" where
  "byte_col col \<longleftrightarrow> col \<noteq> [] \<and> (\<forall>x\<in>set col. \<exists>n. x = of_int n \<and> 0 \<le> n \<and> n < 256)"

lemma mid_level_exact:
  assumes "byte_col col" shows "mid_level col = (list_lo col + list_hi col) / 2"
proof -
  obtain l h where l: "list_lo col = of_int l" "0 \<le> l" "l < 256" and h: "list_hi col = of_int h" "0 \<le> h" "h < 256"
    using assms list_lo_in [of col] list_hi_in [of col] unfolding byte_col_def by meson
  have "fsub (of_int h) (of_int l) = of_int (h - l)"
    unfolding fsub_def using r32_int [of "h - l"] l h by simp
  moreover have "fmul (1 / 2) (of_int (h - l)) = of_int (h - l) / 2"
    unfolding fmul_def using r32_half [of "h - l"] l h by simp
  moreover have "fadd (of_int l) (of_int (h - l) / 2) = of_int (l + h) / 2"
    unfolding fadd_def using r32_half [of "l + h"] l h by (simp add: field_simps)
  ultimately show ?thesis unfolding mid_level_def l h by (simp only: of_int_add)
qed

lemma back_to_add: "b < length col \<Longrightarrow> back_to (act + c) (map (\<lambda>x. x + c) col) a b = back_to act col a b"
  by (induction b) simp_all

lemma active_span_add:
  assumes "byte_col col" and "byte_col (map (\<lambda>x. x + c) col)"
  shows "active_span (map (\<lambda>x. x + c) col) = active_span col"
proof -
  have ne: "col \<noteq> []" using assms(1) by (simp add: byte_col_def)
  have m: "mid_level (map (\<lambda>x. x + c) col) = mid_level col + c"
    unfolding mid_level_exact [OF assms(1)] mid_level_exact [OF assms(2)] list_lo_add [OF ne] list_hi_add [OF ne]
    by (simp add: field_simps)
  have t: "length (takeWhile (\<lambda>x. x < mid_level col + c) (map (\<lambda>x. x + c) col)) = length (takeWhile (\<lambda>x. x < mid_level col) col)"
    by (simp add: takeWhile_map comp_def)
  have b: "back_to (mid_level col + c) (map (\<lambda>x. x + c) col) a (length col - 1) = back_to (mid_level col) col a (length col - 1)" for a
    using ne by (intro back_to_add) simp
  show ?thesis
    unfolding active_span_def Let_def mid_level_def [symmetric] m t length_map b by (rule refl)
qed

lemma detrend_add: "detrend (map (\<lambda>x. x + c) xs) = detrend xs"
proof (cases "xs = []")
  case False
  then have "length xs div 2 < length (sort xs)" by simp
  then show ?thesis by (simp add: detrend_def sort_map_add Let_def fsub_def)
qed simp

lemma decodeActive_add:
  assumes "byte_col col" and "byte_col (map (\<lambda>x. x + c) col)"
  shows "decodeActive fm (map (\<lambda>x. x + c) col) dec = decodeActive fm col dec"
  unfolding decodeActive_def active_span_add [OF assms] take_map drop_map detrend_add by (rule refl)

lemma col_of_ints: "col_of vals = map (\<lambda>v. of_int (uint v)) vals"
proof -
  have "r32 (of_int (uint v)) = of_int (uint v)" for v :: u8
    by (rule r32_int) (use uint_bounded [of v] in simp)
  then show ?thesis by (simp add: col_of_def)
qed

lemma uint_byte: "uint (v :: u8) < 256"
  using uint_bounded [of v] by simp

lemma uint_raise: "uint v + uint k < 256 \<Longrightarrow> uint (v + k) = uint v + uint (k :: u8)"
  by (simp add: uint_word_ariths)

lemma col_of_raise:
  assumes "\<forall>v\<in>set vals. uint v + uint k < 256"
  shows "col_of (raise_by k vals) = map (\<lambda>x. x + of_int (uint k)) (col_of vals)"
proof -
  have "(of_int (uint (v + k)) :: rat) = of_int (uint v) + of_int (uint k)" if "v \<in> set vals" for v
    using uint_raise [of v k] assms that by (simp only: of_int_add)
  then show ?thesis unfolding col_of_ints raise_by_def by (simp only: map_map comp_def cong: map_cong)
qed

lemma byte_col_col_of: "vals \<noteq> [] \<Longrightarrow> byte_col (col_of vals)"
  unfolding byte_col_def col_of_ints set_map ball_simps(9) using uint_byte unsigned_greater_eq by blast

lemma bin_metric_raise:
  assumes "2 \<le> length vals" and "\<forall>v\<in>set vals. uint v + uint k < 256"
  shows "bin_metric (raise_by k vals) = bin_metric vals"
proof -
  have u: "unat (v + k) = unat v + unat k" if "v \<in> set vals" for v
    unfolding unat_eq_nat_uint uint_raise [OF bspec [OF assms(2) that]] by (rule nat_add_distrib) (rule uint_ge_0)+
  then have m: "map unat (raise_by k vals) = map (\<lambda>x. x + unat k) (map unat vals)" by (simp add: raise_by_def)
  have s: "sort (map (\<lambda>x. x + unat k) xs) = map (\<lambda>x. x + unat k) (sort xs)" for xs
  proof (rule properties_for_sort)
    have "sorted_wrt (\<lambda>x y. x + unat k \<le> y + unat k) (sort xs)" by (rule sorted_wrt_mono_rel [OF _ sorted_sort]) simp
    then show "sorted (map (\<lambda>x. x + unat k) (sort xs))" by (simp add: sorted_map)
  qed simp
  have l: "length (raise_by k vals) = length vals" by (simp add: raise_by_def)
  have i: "length vals * 4 div 5 - 1 < length vals" "length vals div 2 - 1 < length vals" using assms(1) by linarith+
  show ?thesis
    unfolding bin_metric_ranks [OF assms(1)] bin_metric_ranks [of "raise_by k vals", unfolded l, OF assms(1)] m s
    using i by (simp only: nth_map length_sort length_map) simp
qed

section \<open>Frequencies lie in the CW bands\<close>

definition in_cw_band :: "f64 \<Rightarrow> bool" where
  "in_cw_band hz \<longleftrightarrow> list_ex (\<lambda>b. of_int (100 * uint (cw_start b)) \<le> hz \<and> hz < of_int (100 * uint (cw_end b))) kCWBands"

lemma uint_add_small: "0 \<le> k \<Longrightarrow> uint a + k < 2 ^ 32 \<Longrightarrow> uint (a + word_of_int k) = uint (a :: u32) + k"
  by (simp add: uint_word_ariths uint_word_of_int mod_add_right_eq)

lemma bin_loop_in_band:
  assumes "cum \<le> c" and "c < cum + sum_list (map (\<lambda>b. sint (cw_bw b)) bs)"
    and "list_all (\<lambda>b. 0 \<le> sint (cw_bw b) \<and> uint (cw_start b) + sint (cw_bw b) = uint (cw_end b) \<and> uint (cw_end b) < 2 ^ 20) bs"
  shows "list_ex (\<lambda>b. of_int (100 * uint (cw_start b)) \<le> bin_loop c cum bs \<and>
                      bin_loop c cum bs < of_int (100 * uint (cw_end b))) bs"
  using assms
proof (induction bs arbitrary: cum)
  case (Cons b bs)
  show ?case
  proof (cases "c < cum + sint (cw_bw b)")
    case True
    define k where "k = c - cum"
    have k: "0 \<le> k" "uint (cw_start b) + k < uint (cw_end b)" "uint (cw_end b) < 2 ^ 20"
      using Cons.prems True by (auto simp: k_def)
    then have "uint (cw_start b + word_of_int k) = uint (cw_start b) + k" by (intro uint_add_small) simp_all
    then have e: "bin_loop c cum (b # bs) = dmul (of_int (uint (cw_start b) + k)) 100"
      using True by (simp add: k_def)
    have "dmul (of_int (uint (cw_start b) + k)) 100 = of_int (100 * (uint (cw_start b) + k))"
      unfolding dmul_def using r64_int [of "100 * (uint (cw_start b) + k)"] k by (simp add: mult.commute)
    have "of_int (100 * uint (cw_start b)) \<le> bin_loop c cum (b # bs) \<and> bin_loop c cum (b # bs) < of_int (100 * uint (cw_end b))"
      unfolding e \<open>dmul _ _ = _\<close> of_int_le_iff of_int_less_iff using k by simp
    then show ?thesis by (simp del: bin_loop.simps)
  next
    case False
    then show ?thesis using Cons by simp
  qed
qed simp

lemma cw_rows:
  "list_all (\<lambda>b. 0 \<le> sint (cw_bw b) \<and> uint (cw_start b) + sint (cw_bw b) = uint (cw_end b) \<and> uint (cw_end b) < 2 ^ 20) kCWBands"
  "sum_list (map (\<lambda>b. sint (cw_bw b)) kCWBands) = 4700"
  by code_simp+

lemma content_bins_le: "content_bins n \<le> 9400"
proof -
  have "sint (2 * cw_total) = 9400" by code_simp
  then show ?thesis by (simp add: content_bins_def)
qed

lemma binToHz_in_band: "0 \<le> m \<Longrightarrow> m < 9400 \<Longrightarrow> in_cw_band (binToHz m)"
proof -
  assume m: "0 \<le> m" "m < 9400"
  then have "m sdiv 2 = m div 2" by (cases "m = 0") (simp_all add: signed_divide_int_def)
  moreover have "0 \<le> m div 2" "m div 2 < 0 + sum_list (map (\<lambda>b. sint (cw_bw b)) kCWBands)" using m by (simp_all add: cw_rows(2))
  ultimately show ?thesis unfolding in_cw_band_def binToHz_def using bin_loop_in_band [OF _ _ cw_rows(1)] by simp
qed

text \<open>The frequencies of the composite bins in order: each band from its start to its end, two bins for each step of 100 Hz.\<close>

definition band_freqs :: "cw_band list \<Rightarrow> f64 list" where
  "band_freqs bs =
     concat (map (\<lambda>b. concat (map (\<lambda>f. replicate 2 (of_nat (100 * f))) [unat (cw_start b)..<unat (cw_end b)])) bs)"

definition band_row :: "cw_band \<Rightarrow> bool" where
  "band_row b \<longleftrightarrow> sint (cw_bw b) = int (unat (cw_end b) - unat (cw_start b)) \<and> unat (cw_start b) \<le> unat (cw_end b) \<and> unat (cw_end b) < 2 ^ 20"

lemma pairs_map: "map (\<lambda>m. f (m div 2)) [0..<2 * n] = concat (map (\<lambda>k. replicate 2 (f k)) [0..<n])"
proof (induction n)
  case (Suc n)
  have "[0..<2 * Suc n] = [0..<2 * n] @ [2 * n, Suc (2 * n)]" "2 * n div 2 = n" "Suc (2 * n) div 2 = n" by simp_all
  moreover have "replicate 2 x = [x, x]" for x :: 'a by (simp add: numeral_2_eq_2)
  ultimately show ?case using Suc by simp
qed simp

lemma bin_loop_list:
  "list_all band_row bs \<Longrightarrow> map (\<lambda>m. bin_loop (int c + int (m div 2)) (int c) bs) [0..<2 * sum_list (map (\<lambda>b. nat (sint (cw_bw b))) bs)] = band_freqs bs"
proof (induction bs arbitrary: c)
  case (Cons b bs)
  define n st where "n = nat (sint (cw_bw b))" and "st = unat (cw_start b)"
  define e where "e = unat (cw_end b)"
  have r: "sint (cw_bw b) = int (e - st)" "st \<le> e" "e < 2 ^ 20"
    using Cons.prems unfolding list.pred_inject band_row_def e_def st_def by blast+
  have n: "n = e - st" unfolding n_def r(1) by (rule nat_int)
  have b: "sint (cw_bw b) = int n" "unat (cw_end b) = st + n" "st + n < 2 ^ 20"
  proof -
    show "sint (cw_bw b) = int n" by (simp only: r(1) n)
    show "unat (cw_end b) = st + n" "st + n < 2 ^ 20" using r(2,3) n e_def by linarith+
  qed
  let ?r = "sum_list (map (\<lambda>b. nat (sint (cw_bw b))) bs)"
  have first: "bin_loop (int c + int k) (int c) (b # bs) = of_nat (100 * (st + k))" if "k < n" for k
  proof -
    have "uint (cw_start b) = int st" unfolding st_def by (rule uint_nat)
    moreover have "int st + int k < 2 ^ 32" using that b(3) by simp
    ultimately have "uint (cw_start b + word_of_int (int k)) = int (st + k)"
      using uint_add_small [of "int k" "cw_start b"] by simp
    moreover have "dmul (of_int (int (st + k))) 100 = of_int (100 * int (st + k))"
      unfolding dmul_def using r64_int [of "100 * int (st + k)"] that b(3) by (simp add: mult.commute)
    ultimately show ?thesis using that b(1) by simp
  qed
  have "[0..<2 * (n + ?r)] = [0..<2 * n] @ map (\<lambda>m. 2 * n + m) [0..<2 * ?r]"
    using upt_add_eq_append [of 0 "2 * n" "2 * ?r"] map_add_upt [of "2 * n" "2 * ?r"] by (simp add: add.commute distrib_left)
  then have "map (\<lambda>m. bin_loop (int c + int (m div 2)) (int c) (b # bs)) [0..<2 * (n + ?r)] =
      map (\<lambda>m. bin_loop (int c + int (m div 2)) (int c) (b # bs)) [0..<2 * n] @
      map (\<lambda>m. bin_loop (int c + int ((2 * n + m) div 2)) (int c) (b # bs)) [0..<2 * ?r]"
    by (simp add: comp_def)
  also have "map (\<lambda>m. bin_loop (int c + int (m div 2)) (int c) (b # bs)) [0..<2 * n] =
      concat (map (\<lambda>k. replicate 2 (of_nat (100 * (st + k)))) [0..<n])"
  proof -
    have "map (\<lambda>m. bin_loop (int c + int (m div 2)) (int c) (b # bs)) [0..<2 * n] = map (\<lambda>m. of_nat (100 * (st + m div 2))) [0..<2 * n]"
      using first by (intro map_cong refl) (auto simp del: bin_loop.simps)
    then show ?thesis by (simp only: pairs_map [of "\<lambda>k. of_nat (100 * (st + k))"])
  qed
  also have "map (\<lambda>m. bin_loop (int c + int ((2 * n + m) div 2)) (int c) (b # bs)) [0..<2 * ?r] =
      map (\<lambda>m. bin_loop (int (c + n) + int (m div 2)) (int (c + n)) bs) [0..<2 * ?r]"
    using b(1) by (intro map_cong refl) (simp add: add.assoc)
  also have "\<dots> = band_freqs bs" using Cons.prems by (intro Cons.IH) simp
  also have "concat (map (\<lambda>k. replicate 2 (of_nat (100 * (st + k)))) [0..<n]) @ band_freqs bs = band_freqs (b # bs)"
  proof -
    have "[st..<st + n] = map (\<lambda>k. st + k) [0..<n]" using map_add_upt [of st n] by (simp add: add.commute)
    then show ?thesis by (simp add: band_freqs_def b(2) comp_def flip: st_def)
  qed
  finally show ?case by (simp add: n_def)
qed (simp add: band_freqs_def)

lemma binToHz_list: "map (\<lambda>m. binToHz (int m)) [0..<9400] = band_freqs kCWBands"
proof -
  have rows: "list_all band_row kCWBands" by (simp add: kCWBands_def cwb_def band_row_def)
  have len: "2 * sum_list (map (\<lambda>b. nat (sint (cw_bw b))) kCWBands) = 9400" by (simp add: kCWBands_def cwb_def)
  have "int m sdiv 2 = int 0 + int (m div 2)" for m by (cases "m = 0") (simp_all add: signed_divide_int_def sgn_if zdiv_int)
  then have "map (\<lambda>m. binToHz (int m)) [0..<9400] = map (\<lambda>m. bin_loop (int 0 + int (m div 2)) (int 0) kCWBands) [0..<9400]"
    unfolding binToHz_def by (intro map_cong refl) (simp only: int_ops(1))
  also have "\<dots> = band_freqs kCWBands" by (rule bin_loop_list [OF rows, of 0, unfolded len])
  finally show ?thesis .
qed

section \<open>The windows the tracker should see\<close>

text \<open>
  The specification speaks of the history of the ring, \<open>h i\<close> the slot with number \<open>i\<close>, and of numbers without
  wrap-around.  The window with write index \<open>n\<close> is over the last slots before \<open>n\<close>: of a bin it has the values
  of four rows per slot, their percentiles by sorting, and the text and speed of that envelope.
\<close>

definition envelope :: "skim_geom \<Rightarrow> (nat \<Rightarrow> u8 list) \<Rightarrow> nat \<Rightarrow> nat \<Rightarrow> u8 list" where
  "envelope G h n bin =
     concat (map (\<lambda>i. map (\<lambda>r. h i ! (r * sk_num_bins G + bin)) [0..<4]) [n - wslots (sk_N G)..<n])"

definition spread :: "nat \<Rightarrow> u8 list \<Rightarrow> f32" where
  "spread W vals = of_int (uint (sort vals ! (16 * W div 5 - 1)) - uint (sort vals ! (2 * W - 1)))"

definition window_at :: "skim_geom \<Rightarrow> fmath \<Rightarrow> (nat \<Rightarrow> u8 list) \<Rightarrow> nat \<Rightarrow> window" where
  "window_at G fm h n =
     (let heard = \<lambda>bin. decodeActive fm (map (\<lambda>v. of_int (uint v)) (envelope G h n (nat bin))) (cw_new 5 20)
      in \<lparr>w_wi = of_nat n,
          w_snr = map (\<lambda>bin. spread (wslots (sk_N G)) (envelope G h n bin)) [0..<min 9400 (sk_num_bins G)],
          w_decode = (\<lambda>bin. fst (heard bin)), w_wpm = (\<lambda>bin. cw_wpm (snd (heard bin))), w_hz = binToHz\<rparr>)"

text \<open>The write indices analysed, of those the loop happened to see: each once, in order.\<close>

definition analysed :: "skim_geom \<Rightarrow> nat list \<Rightarrow> nat list" where
  "analysed G polls = sort (remdups (filter (\<lambda>n. wslots (sk_N G) < n \<and> 25 dvd n) polls))"

text \<open>The ring once \<open>n\<close> slots have been written to it.\<close>

definition ring_after :: "nat \<Rightarrow> (nat \<Rightarrow> u8 list) \<Rightarrow> u8 list list \<Rightarrow> nat \<Rightarrow> u8 list list" where
  "ring_after N h ring0 n = foldl (\<lambda>ring i. ring[i mod N := h i]) ring0 [0..<n]"

definition sights :: "skim_geom \<Rightarrow> (nat \<Rightarrow> u8 list) \<Rightarrow> u8 list list \<Rightarrow> nat list \<Rightarrow> (u64 \<times> u8 list list) list" where
  "sights G h ring0 polls = map (\<lambda>n. (of_nat n, ring_after (sk_N G) h ring0 n)) polls"

lemma ring_after_history: "0 < N \<Longrightarrow> length ring0 = N \<Longrightarrow> ring_of N n h (ring_after N h ring0 n)"
proof (induction n)
  case (Suc n)
  then show ?case using ring_of_put [of N n h "ring_after N h ring0 n"] by (simp add: ring_after_def)
qed (simp add: ring_after_def ring_of_def)

lemma wslots_bounds: "3 \<le> N \<Longrightarrow> 1 \<le> wslots N \<and> wslots N \<le> 250 \<and> wslots N \<le> N"
  by (auto simp: wslots_def min_def)

lemma snapshot_history:
  assumes "3 \<le> sk_N G" and "length ring0 = sk_N G" and "wslots (sk_N G) < n" and "n < 2 ^ 64"
  shows "snapshot G (ring_after (sk_N G) h ring0 n) (of_nat n) = map h [n - wslots (sk_N G)..<n]"
proof (rule nth_equalityI)
  let ?W = "wslots (sk_N G)" and ?N = "sk_N G"
  show "length (snapshot G (ring_after ?N h ring0 n) (of_nat n)) = length (map h [n - ?W..<n])"
    using assms(3) by (simp add: snapshot_def Let_def)
  fix s assume "s < length (snapshot G (ring_after ?N h ring0 n) (of_nat n))"
  then have s: "s < ?W" by (simp add: snapshot_def Let_def)
  have "(of_nat n - of_nat ?W + of_nat s :: u64) = of_nat (n - ?W + s)" using assms(3) by (simp add: of_nat_diff)
  moreover have "n - ?W + s < 2 ^ 64" using assms(3,4) s by linarith
  ultimately have "ring_slot (of_nat n - of_nat ?W + of_nat s) ?N = (n - ?W + s) mod ?N" by (simp only: ring_slot_nat)
  moreover have "ring_after ?N h ring0 n ! ((n - ?W + s) mod ?N) = h (n - ?W + s)"
  proof -
    have "n - ?W + s < n" "n \<le> n - ?W + s + ?N" using assms(3) s wslots_bounds [OF assms(1)] by linarith+
    moreover have "ring_of ?N n h (ring_after ?N h ring0 n)" by (rule ring_after_history) (use assms(1,2) in simp_all)
    ultimately show ?thesis unfolding ring_of_def by blast
  qed
  ultimately show "snapshot G (ring_after ?N h ring0 n) (of_nat n) ! s = map h [n - ?W..<n] ! s"
    using s assms(3) by (simp add: snapshot_def Let_def)
qed

lemma bin_vals_envelope:
  assumes "wslots (sk_N G) < n"
  shows "bin_vals (sk_num_bins G) (wslots (sk_N G)) (map h [n - wslots (sk_N G)..<n]) bin = envelope G h n bin"
proof -
  let ?W = "wslots (sk_N G)"
  have "[n - ?W..<n] = map (\<lambda>s. n - ?W + s) [0..<?W]" using assms map_add_upt [of "n - ?W" ?W] by (simp add: add.commute)
  then have "envelope G h n bin = concat (map (\<lambda>s. map (\<lambda>r. h (n - ?W + s) ! (r * sk_num_bins G + bin)) [0..<4]) [0..<?W])"
    by (simp add: envelope_def comp_def)
  moreover have "map h [n - ?W..<n] ! s = h (n - ?W + s)" if "s < ?W" for s using that assms by simp
  ultimately show ?thesis
    unfolding bin_vals_def sk_val_def TOSR_def by (simp only:) (intro arg_cong [where f = concat] map_cong refl; simp)
qed

lemma length_envelope: "wslots (sk_N G) < n \<Longrightarrow> length (envelope G h n bin) = 4 * wslots (sk_N G)"
  by (simp add: envelope_def length_concat comp_def sum_list_triv)

lemma sort_unat: "sort (map unat vals) = map unat (sort (vals :: u8 list))"
proof (rule properties_for_sort)
  have "sorted_wrt (\<lambda>x y. unat x \<le> unat y) (sort vals)"
    by (rule sorted_wrt_mono_rel [OF _ sorted_sort]) (simp add: word_le_nat_alt)
  then show "sorted (map unat (sort vals))" by (simp add: sorted_map)
qed simp

lemma bin_metric_spread:
  assumes "1 \<le> W" and "length vals = 4 * W" shows "bin_metric vals = spread W vals"
proof -
  have i: "16 * W div 5 - 1 < length (sort vals)" "2 * W - 1 < length (sort vals)" "2 \<le> length vals" using assms by simp_all
  have t: "length vals * 4 div 5 = 16 * W div 5" "length vals div 2 = 2 * W" using assms(2) by simp_all
  have gen: "0 \<le> x \<Longrightarrow> x < 256 \<Longrightarrow> 0 \<le> y \<Longrightarrow> y < 256 \<Longrightarrow> \<bar>x - y\<bar> < 2 ^ 24" for x y :: int by simp
  have b: "\<bar>uint a - uint c\<bar> < 2 ^ 24" for a c :: u8 by (intro gen uint_byte uint_ge_0)
  show ?thesis
    unfolding bin_metric_ranks [OF i(3)] sort_unat t spread_def nth_map [OF i(1)] nth_map [OF i(2)] uint_nat [symmetric]
    by (rule r32_int [OF b])
qed

lemma content_bins_min: "nat (content_bins (int NB)) = min 9400 NB"
proof -
  have "sint (2 * cw_total) = 9400" by code_simp
  then show ?thesis by (simp add: content_bins_def min_def)
qed

lemma skim_window_at:
  assumes "3 \<le> sk_N G" and "length ring0 = sk_N G" and "wslots (sk_N G) < n" and "n < 2 ^ 64"
  shows "skim_window G fm (ring_after (sk_N G) h ring0 n) (of_nat n) = window_at G fm h n"
proof -
  have "bin_metric (envelope G h n bin) = spread (wslots (sk_N G)) (envelope G h n bin)" for bin
    using bin_metric_spread length_envelope [OF assms(3)] wslots_bounds [OF assms(1)] by blast
  then show ?thesis
    unfolding skim_window_def window_at_def snapshot_history [OF assms] Let_def bin_vals_envelope [OF assms(3)]
      content_bins_min col_of_ints by simp
qed

lemma skim_due_iff:
  assumes "3 \<le> sk_N G" and "n < 2 ^ 64" and "p < 2 ^ 64"
  shows "skim_due G (of_nat n) (of_nat p) \<longleftrightarrow> wslots (sk_N G) < n \<and> 25 dvd n \<and> p < n"
proof -
  let ?W = "wslots (sk_N G)"
  have u: "unat (of_nat n :: u64) = n" "unat (of_nat p :: u64) = p" using assms(2,3) by (simp_all add: unat_of_nat)
  have "unat (of_nat (?W + 1) :: u64) = ?W + 1" using wslots_bounds [OF assms(1)] by (subst unat_of_nat) simp
  then have w: "unat (of_nat ?W + 1 :: u64) = ?W + 1" by (simp add: add.commute)
  have "unat (of_nat n mod SKIM_STRIDE) = n mod 25" by (simp add: unat_mod u SKIM_STRIDE_def)
  then have "of_nat n mod SKIM_STRIDE = (0 :: u64) \<longleftrightarrow> n mod 25 = 0" by (metis unat_eq_zero)
  then show ?thesis unfolding skim_due_def word_less_nat_alt word_le_nat_alt u w by (auto simp: dvd_eq_mod_eq_0)
qed

lemma sort_remdups_Cons: "\<forall>m\<in>set xs. n < m \<Longrightarrow> sort (remdups (n # xs)) = n # sort (remdups xs)"
  for n :: nat
proof -
  assume n: "\<forall>m\<in>set xs. n < m"
  then have "insort n (sort (remdups xs)) = n # sort (remdups xs)" by (intro insort_is_Cons) auto
  moreover have "n \<notin> set xs" using n by auto
  ultimately show ?thesis by simp
qed

text \<open>From any write index on.\<close>

lemma skim_run_analysed:
  assumes G: "3 \<le> sk_N G" "length ring0 = sk_N G"
  shows "sorted polls \<Longrightarrow> \<forall>n\<in>set polls. p \<le> n \<and> n < 2 ^ 64 \<Longrightarrow> p < 2 ^ 64 \<Longrightarrow>
     concat (skim_run G fm srt enum cfg (of_nat p, ts) (sights G h ring0 polls)) =
     concat (snd (run_windows srt enum cfg ts (map (window_at G fm h) (analysed G (filter (\<lambda>n. p < n) polls)))))"
proof (induction polls arbitrary: p ts)
  case Nil
  then show ?case by (simp add: sights_def analysed_def)
next
  case (Cons n ns)
  let ?ring = "ring_after (sk_N G) h ring0 n" and ?due = "\<lambda>n. wslots (sk_N G) < n \<and> 25 dvd n"
  have n: "n < 2 ^ 64" "p \<le> n" "\<forall>m\<in>set ns. n \<le> m" using Cons.prems by auto
  note due = skim_due_iff [OF G(1) n(1) Cons.prems(3)]
  have sg: "sights G h ring0 (n # ns) = (of_nat n, ?ring) # sights G h ring0 ns" by (simp add: sights_def)
  obtain ts' spots where t: "tracker_step srt enum cfg (window_at G fm h n) ts = (ts', spots)" by (metis surj_pair)
  show ?case
  proof (cases "?due n \<and> p < n")
    case True
    have "skim_due G (of_nat n) (of_nat p)" "skim_window G fm ?ring (of_nat n) = window_at G fm h n"
      using True due skim_window_at [OF G _ n(1)] by blast+
    then have "skim_pass G fm srt enum cfg (of_nat p, ts) (of_nat n, ?ring) = ((of_nat n, ts'), spots)"
      using t by (simp add: skim_pass_def)
    then have l: "concat (skim_run G fm srt enum cfg (of_nat p, ts) (sights G h ring0 (n # ns))) =
        spots @ concat (snd (run_windows srt enum cfg ts' (map (window_at G fm h) (analysed G (filter (\<lambda>m. n < m) ns)))))"
      using Cons.IH [of n ts'] Cons.prems n by (simp add: sg)
    have "analysed G (filter (\<lambda>m. p < m) (n # ns)) = n # analysed G (filter (\<lambda>m. n < m) ns)"
    proof -
      have f: "set (filter ?due (filter (\<lambda>m. p < m) (n # ns))) = set (n # filter ?due (filter (\<lambda>m. n < m) ns))"
        using True n(3) by (auto simp: order_le_less)
      have "analysed G (filter (\<lambda>m. p < m) (n # ns)) = sort (remdups (n # filter ?due (filter (\<lambda>m. n < m) ns)))"
        unfolding analysed_def sorted_list_of_set_sort_remdups [symmetric] f by (rule refl)
      also have "\<dots> = n # analysed G (filter (\<lambda>m. n < m) ns)" unfolding analysed_def by (rule sort_remdups_Cons) simp
      finally show ?thesis .
    qed
    then show ?thesis using l t by (simp split: prod.splits)
  next
    case False
    then have "\<not> skim_due G (of_nat n) (of_nat p)" using due by blast
    then have "skim_pass G fm srt enum cfg (of_nat p, ts) (of_nat n, ?ring) = ((of_nat p, ts), [])"
      by (simp add: skim_pass_def)
    moreover have "analysed G (filter (\<lambda>m. p < m) (n # ns)) = analysed G (filter (\<lambda>m. p < m) ns)"
      using False by (auto simp: analysed_def)
    ultimately show ?thesis using Cons.IH [of p ts] Cons.prems by (simp add: sg)
  qed
qed

lemma skim_run_spec:
  assumes "3 \<le> sk_N G" "length ring0 = sk_N G" "sorted polls" "\<forall>n\<in>set polls. n < 2 ^ 64"
  shows "concat (skim_run G fm srt enum cfg (0, []) (sights G h ring0 polls)) =
     concat (snd (run_windows srt enum cfg [] (map (window_at G fm h) (analysed G polls))))"
proof -
  have "analysed G (filter (\<lambda>n. 0 < n) polls) = analysed G polls" unfolding analysed_def filter_filter by (metis (no_types, lifting) gr_zeroI not_less0)
  then show ?thesis using skim_run_analysed [OF assms(1-3), of 0 fm srt enum cfg "[]" h] assms(4) by simp
qed

section \<open>Every spot lies in a CW band\<close>

definition bins_in :: "nat \<Rightarrow> track list \<Rightarrow> bool" where
  "bins_in n ts \<longleftrightarrow> (\<forall>t\<in>set ts. 0 \<le> tbin t \<and> tbin t < int n)"

lemma associate_bins:
  assumes "bins_in n (fst st)" and "0 \<le> fst p" and "fst p < int n"
  shows "bins_in n (fst (associate cfg wi st p))"
proof -
  obtain ts claimed where st: "st = (ts, claimed)" by (cases st)
  show ?thesis
    using assms by (auto simp: st associate_def Let_def bins_in_def dest!: set_update_subset_insert [THEN subsetD])
qed

lemma associates_bins:
  "bins_in n (fst st) \<Longrightarrow> list_all (\<lambda>p. 0 \<le> fst p \<and> fst p < int n) ps \<Longrightarrow> bins_in n (fst (foldl (associate cfg wi) st ps))"
  by (induction ps arbitrary: st) (simp_all add: associate_bins)

lemma find_peaks_range: "p \<in> set (find_peaks gate snr) \<Longrightarrow> 0 \<le> fst p \<and> fst p < int (length snr)"
  by (auto simp: find_peaks_def)

lemma emit_calls_hz:
  "foldl (emit_call cfg w hz) (t, spots) calls = (t', spots') \<Longrightarrow> list_all (\<lambda>s. spot_hz s = hz) spots \<Longrightarrow>
     tbin t' = tbin t \<and> list_all (\<lambda>s. spot_hz s = hz) spots'"
proof (induction calls arbitrary: t spots)
  case (Cons c cs)
  obtain t1 s1 where e: "emit_call cfg w hz (t, spots) c = (t1, s1)" by (metis surj_pair)
  then have "tbin t1 = tbin t \<and> list_all (\<lambda>s. spot_hz s = hz) s1"
    using Cons.prems(2) by (auto simp: emit_call_def Let_def split: if_splits)
  then show ?case using Cons.IH [of t1 s1] Cons.prems(1) by (simp add: e)
qed simp

lemma decode_track_hz:
  assumes "decode_track cfg enum w t = (t', spots)"
  shows "tbin t' = tbin t \<and> list_all (\<lambda>s. spot_hz s = w_hz w (tbin t)) spots"
proof (cases "last_wi t \<noteq> w_wi w \<or> w_hz w (tbin t) \<le> 0")
  case True
  then show ?thesis using assms by (auto simp: decode_track_def Let_def split: if_splits)
next
  case False
  obtain calls cq where sc: "scan_tokens (tokens (w_decode w (tbin t))) ([], False) = (calls, cq)" by (metis surj_pair)
  have "foldl (emit_call cfg w (w_hz w (tbin t))) (foldl (count_call (w_wi w) cq) t (enum calls), []) (enum calls) = (t', spots)"
    using assms False sc by (simp add: decode_track_def Let_def)
  from emit_calls_hz [OF this] show ?thesis by (simp add: count_calls_fields)
qed

lemma tracker_step_bins:
  assumes "sorts_peaks srt" and "bins_in n ts" and "length (w_snr w) \<le> n" and "tracker_step srt enum cfg w ts = (ts', spots)"
  shows "bins_in n ts'" and "\<forall>s\<in>set spots. \<exists>b. 0 \<le> b \<and> b < int n \<and> spot_hz s = w_hz w b"
proof -
  define ts1 where "ts1 = fst (foldl (associate cfg (w_wi w)) (ts, replicate (length ts) False)
    (srt (find_peaks (snr_gate cfg (w_snr w)) (w_snr w))))"
  define ts2 where "ts2 = expire cfg (w_wi w) ts1"
  have "set (srt (find_peaks (snr_gate cfg (w_snr w)) (w_snr w))) = set (find_peaks (snr_gate cfg (w_snr w)) (w_snr w))"
    using assms(1) unfolding sorts_peaks_def by (metis set_mset_mset)
  then have "list_all (\<lambda>p. 0 \<le> fst p \<and> fst p < int n) (srt (find_peaks (snr_gate cfg (w_snr w)) (w_snr w)))"
    using find_peaks_range [of _ "snr_gate cfg (w_snr w)" "w_snr w"] assms(3) by (fastforce simp: list_all_iff)
  then have "bins_in n ts1" unfolding ts1_def using assms(2) by (intro associates_bins) simp_all
  then have b2: "bins_in n ts2" by (simp add: ts2_def expire_def bins_in_def)
  have r: "ts' = map (fst \<circ> decode_track cfg enum w) ts2" "spots = concat (map (snd \<circ> decode_track cfg enum w) ts2)"
    using assms(4) by (auto simp: tracker_step_def Let_def ts1_def ts2_def)
  note d = decode_track_hz [OF prod.collapse [symmetric], of cfg enum w]
  show "bins_in n ts'" using b2 d by (simp add: r bins_in_def)
  show "\<forall>s\<in>set spots. \<exists>b. 0 \<le> b \<and> b < int n \<and> spot_hz s = w_hz w b"
    using b2 d unfolding r bins_in_def list_all_iff by fastforce
qed

lemma run_windows_hz:
  assumes "sorts_peaks srt" and "bins_in n ts" and "list_all (\<lambda>w. length (w_snr w) \<le> n \<and> w_hz w = hz) ws"
    and "s \<in> set (concat (snd (run_windows srt enum cfg ts ws)))"
  shows "\<exists>b. 0 \<le> b \<and> b < int n \<and> spot_hz s = hz b"
  using assms(2-)
proof (induction ws arbitrary: ts)
  case (Cons w ws)
  obtain ts1 spots where st: "tracker_step srt enum cfg w ts = (ts1, spots)" by (metis surj_pair)
  have l: "length (w_snr w) \<le> n" "w_hz w = hz" using Cons.prems(2) by simp_all
  note b = tracker_step_bins [OF assms(1) Cons.prems(1) l(1) st]
  have "s \<in> set spots \<or> s \<in> set (concat (snd (run_windows srt enum cfg ts1 ws)))"
    using Cons.prems(3) by (auto simp: st split: prod.splits)
  then show ?case using b(2) l(2) Cons.IH [OF b(1)] Cons.prems(2) by auto
qed simp

text \<open>What the skimmer prints: a valid call, read in enough windows, on a frequency of a CW band.\<close>

lemma skim_spots_sound:
  assumes "enumerates enum" and "sorts_peaks srt" and G: "3 \<le> sk_N G" "length ring0 = sk_N G"
    and polls: "sorted polls" "\<forall>n\<in>set polls. n < 2 ^ 64"
    and s: "s \<in> set (concat (skim_run G fm srt enum cfg (0, []) (sights G h ring0 polls)))"
  shows "looksLikeCall (spot_call s)"
    and "confirm cfg \<le> int (heard_count (map (window_at G fm h) (analysed G polls)) (spot_call s))"
    and "in_cw_band (spot_hz s)"
proof -
  define ws where "ws = map (window_at G fm h) (analysed G polls)"
  have s: "s \<in> set (concat (snd (run_windows srt enum cfg [] ws)))"
    using s unfolding skim_run_spec [OF G polls] ws_def .
  have "tracks_ok [] []" by (simp add: tracks_ok_def)
  define ts' out where "ts' = fst (run_windows srt enum cfg [] ws)" and "out = snd (run_windows srt enum cfg [] ws)"
  then have "run_windows srt enum cfg [] ws = (ts', out)" by simp
  note ok = run_windows_ok [OF assms(1) \<open>tracks_ok [] []\<close> this]
  obtain k where k: "k < length ws" "s \<in> set (out ! k)"
    using s [folded out_def] ok by (metis UN_E in_set_conv_nth set_concat)
  then have h: "looksLikeCall (spot_call s)" "confirm cfg \<le> int (heard_count (take (k + 1) ws) (spot_call s))"
    using ok by auto
  have "heard_count (take (k + 1) ws) c \<le> heard_count (take (k + 1) ws @ drop (k + 1) ws) c" for c
    unfolding heard_count_def filter_append length_append by simp
  then show "confirm cfg \<le> int (heard_count (map (window_at G fm h) (analysed G polls)) (spot_call s))"
    using h(2) unfolding ws_def [symmetric] append_take_drop_id by (metis of_nat_mono order_trans)
  have "bins_in 9400 []" by (simp add: bins_in_def)
  moreover have "list_all (\<lambda>w. length (w_snr w) \<le> 9400 \<and> w_hz w = binToHz) ws"
    by (simp add: ws_def list_all_iff window_at_def Let_def)
  ultimately obtain b where "0 \<le> b" "b < int 9400" "spot_hz s = binToHz b" using run_windows_hz [OF assms(2) _ _ s] by blast
  then show "in_cw_band (spot_hz s)" using binToHz_in_band [of b] by simp
  show "looksLikeCall (spot_call s)" by (rule h)
qed

text \<open>The offline decoder starts from a reset: what it decoded before does not matter.\<close>

lemma decode_forgets:
  assumes "hop_ms s = hop_ms s'" and "init_dit_ms s = init_dit_ms s'"
  shows "decode_envelope fm env s = decode_envelope fm env s'"
proof -
  have "cw_reset s = cw_reset s'" using assms by (cases s, cases s') (simp add: cw_reset_def)
  then show ?thesis by (simp add: decode_envelope_def Let_def)
qed

section \<open>Properties\<close>

text \<open>
  C24. The metric of a bin is the difference of two order statistics of its magnitudes: the value of rank
  four fifths and the value of rank one half.  The histogram with its early exit computes what sorting would.
\<close>

theorem bin_metric_percentiles:
  assumes "2 \<le> length vals"
  shows "bin_metric vals = r32 (of_int (int (sort (map unat vals) ! (length vals * 4 div 5 - 1))
                                       - int (sort (map unat vals) ! (length vals div 2 - 1))))"
  by (rule bin_metric_ranks [OF assms])

theorem bin_metric_percentiles_witness:
  "bin_metric [200, 100, 102, 210, 100, 101, 205, 103, 100, 100] = r32 99"
proof -
  have "sort (map unat [200 :: u8, 100, 102, 210, 100, 101, 205, 103, 100, 100]) = [100, 100, 100, 100, 101, 102, 103, 200, 205, 210]"
    by simp
  then show ?thesis using bin_metric_percentiles [of "[200, 100, 102, 210, 100, 101, 205, 103, 100, 100]"] by simp
qed

text \<open>
  C23. A constant level added to a bin (the magnitudes are logarithmic, so a gain ahead of the ring) changes
  neither the metric the gate sees nor the text and speed decoded from it, as long as no byte overflows.
\<close>

theorem bin_level_invariant:
  assumes "2 \<le> length vals" and "\<forall>v\<in>set vals. uint v + uint k < 256"
  shows "bin_metric (raise_by k vals) = bin_metric vals \<and>
         decodeActive fm (col_of (raise_by k vals)) dec = decodeActive fm (col_of vals) dec"
proof (rule conjI)
  show "bin_metric (raise_by k vals) = bin_metric vals" by (rule bin_metric_raise [OF assms])
  have ne: "vals \<noteq> []" "raise_by k vals \<noteq> []" using assms(1) by (auto simp: raise_by_def)
  show "decodeActive fm (col_of (raise_by k vals)) dec = decodeActive fm (col_of vals) dec"
    using decodeActive_add [OF byte_col_col_of [OF ne(1)], of "of_int (uint k)"] byte_col_col_of [OF ne(2)]
    unfolding col_of_raise [OF assms(2)] by blast
qed

definition keyed_bin :: "u8 list" where
  "keyed_bin = replicate 6 100 @ replicate 4 200 @ replicate 4 101 @ replicate 12 205 @ replicate 4 100"

theorem bin_level_invariant_witness:
  "bin_metric (raise_by 20 keyed_bin) = bin_metric keyed_bin \<and>
   decodeActive flat_math (col_of (raise_by 20 keyed_bin)) (cw_new 5 20) = decodeActive flat_math (col_of keyed_bin) (cw_new 5 20)"
  by (rule bin_level_invariant) (simp_all add: keyed_bin_def)

text \<open>
  C22. What the worker does is what was meant: whenever it happens to look at the ring, at write indices that only
  grow, the spots it prints are those of the tracker on the windows of the history of the ring at the analysed
  indices - every due index it saw once, in order - where a window is over exactly the last slots written before its
  index, a bin's metric is the difference of two order statistics of its values there, and its text and speed are those
  of the same values; and the frequency of a bin is that of its place in the list of the bands.
\<close>

theorem skim_worker_refines:
  assumes "3 \<le> sk_N G" and "length ring0 = sk_N G" and "sorted polls" and "\<forall>n\<in>set polls. n < 2 ^ 64"
  shows "concat (skim_run G fm srt enum cfg (0, []) (sights G h ring0 polls)) =
           concat (snd (run_windows srt enum cfg [] (map (window_at G fm h) (analysed G polls)))) \<and>
         map (\<lambda>m. binToHz (int m)) [0..<9400] = band_freqs kCWBands"
  using skim_run_spec [OF assms] binToHz_list by blast

text \<open>A ring of five slots, so windows of three, seen at six moments: the indices 25 and 50 are analysed.\<close>

definition small_ring :: skim_geom where "small_ring = \<lparr>sk_N = 5, sk_num_bins = 8\<rparr>"

definition counting_slot :: "nat \<Rightarrow> u8 list" where "counting_slot i = map (\<lambda>k. of_nat (i + k)) [0..<32]"

theorem skim_worker_refines_witness:
  "concat (skim_run small_ring flat_math by_strength remdups demo_cfg (0, []) (sights small_ring counting_slot (replicate 5 []) [2, 25, 25, 26, 50, 51])) =
     concat (snd (run_windows by_strength remdups demo_cfg []
       [window_at small_ring flat_math counting_slot 25, window_at small_ring flat_math counting_slot 50]))"
proof -
  have "analysed small_ring [2, 25, 25, 26, 50, 51] = [25, 50]" by (simp add: analysed_def small_ring_def wslots_def)
  then show ?thesis
    using skim_worker_refines [of small_ring "replicate 5 []" "[2, 25, 25, 26, 50, 51]" flat_math by_strength remdups demo_cfg counting_slot]
    by (simp add: small_ring_def)
qed

end
