(* ===== verification/Spec2Isabelle.thy ===== *)
theory Spec2Isabelle
  imports Js8Text Ft8Decode FtxNonstd FtxClean CwMorse CwTracker BufferFile Js8Decode ContScan SyndromeScan Refine CwSkimmer
begin

text \<open>
  Verification of granolasdr, a GPU receiver for HF digital modes.  The program reads wide-band
  samples, channelises the amateur bands, and decodes FT8, JS8 and CW signals; the theories model the
  decoders, the GPU kernels that find and demodulate candidates, and the data structures and protocols
  between them, not the GPU transforms.

  \<^bold>\<open>Parts and how they interact.\<close>  Samples pass between threads through position counters
  (\<open>gm/buffer\<close>).  \<open>MagBlock\<close> fills a ring of magnitudes and a ring of raw samples.  For FT8, a GPU scan over
  the magnitudes hands candidates with log-likelihoods to \<open>gm/hf/ft8.cc\<close>, which runs
  LDPC decoding (\<open>gm/cuda/FT8LdpcCuda.cu\<close>, \<open>ft8_lib/ft8/ldpc.c\<close>), ordered-statistics decoding
  (\<open>gm/cuda/OsdCore.cc\<close>), the CRC gate and the message unpacker of \<open>ft8_lib\<close>, and publishes spots.  JS8
  takes the same way with its own CRC-12, frames and word tables (\<open>gm/hf/js8.cc\<close>, \<open>gm/hf/jsc.cc\<close>).  CW
  carriers are tracked by \<open>gm/hf/cw_track.cc\<close> over texts that \<open>gm/hf/cw_morse.cc\<close> decodes.

  \<^bold>\<open>Theories, sources and lemmas.\<close>

  \<^item> \<open>Prelude\<close>: machine integers, bits of words, generic lemmas.  \<open>Float32\<close>, \<open>FloatOrder\<close>: IEEE binary32
    and binary64 as rationals rounded after every operation, with error, exactness, monotonicity and
    idempotence of rounding.  NaN and overflow to infinity are outside the model.
  \<^item> \<open>Js8Crc\<close> (\<open>js8.cc\<close> 24-61): the CRC-12 gate; accepted words differ in at least four bits.
    \<open>Jsc\<close> (\<open>jsc.cc\<close>): the dense word code; decompression inverts encoding; the word table is an
    argument.  \<open>Js8Text\<close> (\<open>js8.cc\<close> 62-401): callsigns, grids, Huffman text and every branch of
    \<open>decodeJs8Message\<close>; frames decode to what they carry.
  \<^item> \<open>Osd\<close> (\<open>OsdCore.cc\<close>, \<open>FT8Osd.cc\<close>, \<open>JS8Osd.cc\<close>): when decoding fails, that results are codewords, and
    that no codeword within the searched patterns is closer.
  \<^item> \<open>LdpcTables\<close>, \<open>Ldpc\<close> (\<open>FT8LdpcCuda.cu\<close>, \<open>JS8LdpcCuda.cu\<close>, \<open>JS8Generator.h\<close>): the check tables, both
    flooded sum-product kernels phase by phase and the CPU decoder; an accepted word satisfies every
    check and is not zero; the sign rule of odd-degree checks.
  \<^item> \<open>Ft8Hash\<close>, \<open>ParallelFor\<close>, \<open>Ft8Decode\<close> (\<open>ft8.cc\<close>, \<open>ft8.h\<close>): the callsign table (a locale gives its
    interface to the message code), the thread pool as a step relation that refines the serial loop,
    and the continuous scan with its spot window, gates and refine queue.  \<open>BandMap\<close> (\<open>band_map.cc\<close>,
    \<open>hf_bands.h\<close>, \<open>cw_bands.h\<close>): composite bins to frequencies and bands.
  \<^item> \<open>Js8Decode\<close> (\<open>js8.cc\<close> 405-674, \<open>js8.h\<close>, \<open>decode_stats.h\<close>): the JS8 scan, its refine worker and the
    publish path; interleaved threads publish a message once per epoch and bin, and only CRC-checked words.
  \<^item> \<open>MagBlock\<close> (\<open>MagBlock.cc\<close>, \<open>DeviceRingBuffer.h\<close>): which input samples stand in each slot of the rings,
    as far as that does not rest on a device copy between overlapping areas.
    \<open>GpuScan\<close> (\<open>FT8ScanCuda.cu\<close>, \<open>JS8ScanCuda.cu\<close>, \<open>JS8FastScanCuda.cu\<close>, \<open>FT8SoftCuda.cu\<close>, \<open>JS8SoftCuda.cu\<close>):
    the scan and soft-symbol kernels, each thread a function and every order of the threads allowed; the
    scan reports exactly the places over the threshold.  \<open>GpuReceive\<close>: a clean transmission is found and
    decoded.  \<open>SyndromeScan\<close> (\<open>FT8SyndromeScan.cu\<close>): the folded parity words are the decoder's parity
    check, and no clean transmission is missed.
  \<^item> \<open>ContScan\<close> (\<open>FT8Cuda.cc\<close>, \<open>JS8Cuda.cc\<close>): scan thread, GPU and worker around eight slots as a step
    relation; order, exclusion and progress.  \<open>Refine\<close> (\<open>refine.cc\<close>, \<open>refineCandidate\<close>): the frame read back,
    its extraction, the alignment search and the soft bits; it aligns the samples the scan saw, the
    search never loses energy, clean frames decode.
  \<^item> \<open>FtxText\<close>, \<open>FtxPack\<close>, \<open>FtxMessage\<close>, \<open>FtxNonstd\<close> (\<open>text.c\<close>, \<open>message.c\<close>): packing and unpacking of
    messages; round trips, buffer bounds with the text an error leaves, rejected texts.  \<open>FtxCrc\<close>, \<open>FtxTables\<close>, \<open>FtxEncode\<close>
    (\<open>crc.c\<close>, \<open>constants.c\<close>, \<open>encode.c\<close>): CRC-14, the tables, codewords and tones.  \<open>FtxLdpc\<close>, \<open>FtxCode\<close>
    (\<open>ldpc.c\<close>): both decoders; the checks and the generator define the same code.  \<open>FtxHeap\<close>,
    \<open>FtxDecode\<close> (\<open>decode.c\<close>): the candidate heap, sync scores, likelihoods and the candidate decoder;
    \<open>FtxReceive\<close>, \<open>FtxClean\<close>: what the gate accepts, and that clean tones decode.
  \<^item> \<open>CwMorse\<close> (\<open>cw_morse.cc\<close>): the streaming and the offline Morse decoder; a keyed text is decoded,
    the state keeps its type, de-glitched runs alternate, and what the moving average computes.
    \<open>CwTracker\<close> (\<open>cw_track.cc\<close>): callsign shape, edit distance, and the tracker over many windows.
    \<open>CwSkimmer\<close> (\<open>CWSkimmerCuda.cc\<close>): metric, active span and worker loop; the loop analyses the
    windows of the ring's history it should, the metric is a difference of percentiles, a constant level changes
    nothing, and every spot is a confirmed call inside a CW band.
  \<^item> \<open>BufferPosition\<close>, \<open>BufferFile\<close> (\<open>gm/buffer\<close>): positions and strides in machine arithmetic, waiters
    and setters as a step relation (no lost wake-up, termination), recording and playback of files.
  \<^item> This theory: properties that span components, here that a standard message crosses the air.

  \<^bold>\<open>Conventions.\<close>  A definition carries the name of the function, loop or field it models; \<open>PROJECT.json\<close>
  gives its lines.  Integers are words of the code's width, or integers where the code cannot reach
  its bounds.  Errors are values.  Loops are recursion on lists or counters that the code bounds; the
  step relations are for threads, and termination is proved for them by a rank.  Library code that
  is not under \<open>src\<close> or whose result the standard leaves open is a parameter: \<open>sqrtf\<close>, \<open>logf\<close>, \<open>expf\<close>, \<open>tanhf\<close>,
  \<open>atanhf\<close>, sines and \<open>hypot\<close>, the Fourier transforms, what a device copy between overlapping areas leaves, the order of \<open>std::sort\<close> on ties, of \<open>std::nth_element\<close> and of unordered containers,
  sockets, the clock.

  \<^bold>\<open>Not modelled.\<close>  The GPU transforms, channelisers and element-wise signal kernels (floating-point
  pipelines around cuFFT), allocation of device memory, the device drivers, the ZeroMQ and HTTP servers,
  the programs \<open>main\<close>, demos and tests, the vendored kiss_fft (an argument), and the generated word tables
  \<open>jsc_map.cc\<close> and \<open>jsc_list.cc\<close>, which are arguments here.
\<close>

section \<open>A message over the air\<close>

lemma std_payload_low:
  assumes "77 - 3 \<le> i" and "i < 80"
  shows "msg_bit (std_payload a b g i3) i \<longleftrightarrow> i < 77 \<and> bit i3 (76 - i)"
proof -
  have "i = 74 \<or> i = 75 \<or> i = 76 \<or> i = 77 \<or> i = 78 \<or> i = 79" using assms by linarith
  then show ?thesis by (elim disjE) (simp_all add: msg_bit_def std_payload_def bit_simps)
qed

lemma length_std_payload [simp]: "length (std_payload a b g i3) = 10"
  by (simp add: std_payload_def)

lemma xor_sequence_tail: "77 \<le> i \<Longrightarrow> i < 80 \<Longrightarrow> \<not> bit (kFT4_XOR_sequence ! (i div 8)) (7 - i mod 8)"
proof -
  assume "77 \<le> i" and "i < 80"
  then have "i = 77 \<or> i = 78 \<or> i = 79" by linarith
  then show ?thesis by (elim disjE) (simp_all add: kFT4_XOR_sequence_def bit_numeral_rec)
qed

lemma ft4_scramble_bit80: "length p = 10 \<Longrightarrow> i < 80 \<Longrightarrow>
    msg_bit (ft4_scramble p) i \<longleftrightarrow> msg_bit p i \<noteq> bit (kFT4_XOR_sequence ! (i div 8)) (7 - i mod 8)"
proof -
  assume "length p = 10" and "i < 80"
  then have "i div 8 < 10" by linarith
  then show ?thesis by (simp add: msg_bit_def bit_xor_iff ft4_scramble_def)
qed

text \<open>A standard payload is restored in full: the three bits beyond the 77 are zero on both sides.\<close>

lemma std_payload_restored:
  fixes a b :: u32 and g :: u16 and i3 :: u8
  defines "p \<equiv> std_payload a b g i3"
  shows "sent_bits wfl (gate_payload (codeword_bits (sent_bits wfl p))) = p"
proof (rule bytes_eqI)
  show "length (sent_bits wfl (gate_payload (codeword_bits (sent_bits wfl p)))) = length p"
    by (simp add: sent_bits_def ft4_scramble_def p_def length_gate_payload)
  fix i assume "i < 8 * length (sent_bits wfl (gate_payload (codeword_bits (sent_bits wfl p))))"
  then have i: "i < 80" by (simp add: sent_bits_def ft4_scramble_def length_gate_payload split: if_splits)
  have sl: "length (sent_bits wfl p) = 10" by (simp add: sent_bits_def ft4_scramble_def p_def)
  show "msg_bit (sent_bits wfl (gate_payload (codeword_bits (sent_bits wfl p)))) i = msg_bit p i"
  proof (cases "i < 77")
    case True
    then show ?thesis
      using gate_codeword_bit [OF sl True] by (auto simp: sent_bits_def ft4_scramble_bit80 length_gate_payload p_def split: if_splits)
  next
    case False
    have "\<not> msg_bit (gate_payload (codeword_bits (sent_bits wfl p))) i" using False i by (simp add: msg_bit_gate_payload)
    moreover have "\<not> msg_bit p i" using std_payload_low [of i a b g i3] False i by (simp add: p_def)
    ultimately show ?thesis using xor_sequence_tail [of i] False i
      by (cases "protocol wfl = FT4") (simp_all add: sent_bits_def ft4_scramble_bit80 length_gate_payload)
  qed
qed

lemma std_payload_nonzero:
  assumes "i3 = 1 \<or> i3 = 2"
  shows "\<exists>i<77. msg_bit (sent_bits wfl (std_payload a b g i3)) i"
proof (cases "protocol wfl = FT4")
  case True
  have "bit (kFT4_XOR_sequence ! (74 div 8)) (7 - 74 mod 8)" by (simp add: kFT4_XOR_sequence_def bit_numeral_rec)
  moreover have "\<not> msg_bit (std_payload a b g i3) 74" using std_payload_low [of 74 a b g i3] assms by (auto simp: bit_numeral_rec)
  ultimately have "msg_bit (sent_bits wfl (std_payload a b g i3)) 74" using True by (simp add: sent_bits_def ft4_scramble_bit80)
  then show ?thesis by (intro exI [of _ 74]) simp
next
  case False
  show ?thesis using assms
  proof
    assume "i3 = 1"
    then have "msg_bit (std_payload a b g i3) 76" using std_payload_low [of 76 a b g i3] by simp
    then show ?thesis using False by (intro exI [of _ 76]) (simp add: sent_bits_def)
  next
    assume "i3 = 2"
    then have "msg_bit (std_payload a b g i3) 75" using std_payload_low [of 75 a b g i3] by (simp add: bit_numeral_rec)
    then show ?thesis using False by (intro exI [of _ 75]) (simp add: sent_bits_def)
  qed
qed

text \<open>
  C1. A standard message crosses the air: encoding its three fields gives a payload, and any receiver
  whose waterfall shows that payload's FT8 or FT4 tones as the loudest decodes the candidate and then
  the text, with any callsign tables on the two sides.
\<close>

theorem std_message_over_the_air:
  fixes hi hi' :: "'h hash_if option"
  assumes "std_call call_to" and "std_call call_de" and "std_extra extra"
    and "\<not> ((ends_with call_to ''/P'' \<or> ends_with call_de ''/P'') \<and> (ends_with call_to ''/R'' \<or> ends_with call_de ''/R''))"
    and "sqrt_ok fm" and "0 < n"
  shows "\<exists>p h1. encode_std hi call_to call_de extra h = (Inr p, h1) \<and>
    (clean_candidate wfl c p \<longrightarrow>
      (case ftx_decode_candidate fm plain0 wfl c n m st of (ok, m', st') \<Rightarrow>
         ok \<and> fst (FtxMessage.ftx_message_decode hi' (payload_of m') h') = Inr (join3 (call_to, call_de, extra))))"
proof -
  obtain a b g i3 h1 h2 where e: "encode_std hi call_to call_de extra h = (Inr (std_payload a b g i3), h1)"
    and i3: "i3 = 1 \<or> i3 = 2" and t: "get_type (std_payload a b g i3) = STANDARD"
    and d: "decode_std hi' (std_payload a b g i3) h' = (Inr (call_to, call_de, extra), h2)"
    using std_message_payload [OF assms(1-4), where hi = hi and h = h and hi' = hi' and h' = h'] by blast
  have "case ftx_decode_candidate fm plain0 wfl c n m st of (ok, m', st') \<Rightarrow>
         ok \<and> fst (FtxMessage.ftx_message_decode hi' (payload_of m') h') = Inr (join3 (call_to, call_de, extra))"
    if "clean_candidate wfl c (std_payload a b g i3)"
    using clean_candidate_result [OF _ assms(5,6) that std_payload_nonzero [OF i3], of plain0 m st] t d
    by (auto simp: std_payload_restored FtxMessage.ftx_message_decode_def)
  with e show ?thesis by (intro exI [where x = "std_payload a b g i3"] exI [where x = h1]) blast
qed

theorem std_message_over_the_air_witness:
  "\<exists>p h1. encode_std (Some ft8_hash_if) ''CQ'' ''K1ABC/P'' ''FN42'' hashtable_init = (Inr p, h1) \<and>
    (case ftx_decode_candidate sqrt_one [] (tone_waterfall FT8 (ft8_encode p)) first_candidate 5
            \<lparr>payload_of = [], msg_hash = 0\<rparr> \<lparr>ldpc_errors = 0, crc_extracted = 0, crc_calculated = 0\<rparr> of
       (ok, m', st') \<Rightarrow>
         ok \<and> fst (FtxMessage.ftx_message_decode (Some ft8_hash_if) (payload_of m') hashtable_init) = Inr ''CQ K1ABC/P FN42'')"
proof -
  have c: "std_call ''CQ''" by (simp add: std_call_def)
  have "''K1ABC/P'' = ''K1ABC'' @ ''/P''" by simp
  then have k: "std_call ''K1ABC/P''" using base_call_witness(1) unfolding std_call_def call_suffixes_def by blast
  have "is_locator ''FN42''" by code_simp
  then have x: "std_extra ''FN42''" by (simp add: std_extra_def)
  have s: "\<not> ((ends_with ''CQ'' ''/P'' \<or> ends_with ''K1ABC/P'' ''/P'') \<and> (ends_with ''CQ'' ''/R'' \<or> ends_with ''K1ABC/P'' ''/R''))"
    by code_simp
  have q: "sqrt_ok sqrt_one" by (simp add: sqrt_ok_def sqrt_one_def power_int_minus)
  obtain p h1 where p: "encode_std (Some ft8_hash_if) ''CQ'' ''K1ABC/P'' ''FN42'' hashtable_init = (Inr p, h1)"
    using std_message_over_the_air [OF c k x s q, of 5 "Some ft8_hash_if" hashtable_init "tone_waterfall FT8 []" first_candidate
      "Some ft8_hash_if" hashtable_init "[]" "\<lparr>payload_of = [], msg_hash = 0\<rparr>" "\<lparr>ldpc_errors = 0, crc_extracted = 0, crc_calculated = 0\<rparr>"]
    by auto
  have "shows_tones (tone_waterfall FT8 (ft8_encode p)) first_candidate 8 (ft8_encode p)"
    by (rule tone_waterfall_shows [OF ft8_tones_small]) simp
  then have cl: "clean_candidate (tone_waterfall FT8 (ft8_encode p)) first_candidate p"
    by (simp add: clean_candidate_def tone_waterfall_def)
  have "join3 (''CQ'', ''K1ABC/P'', ''FN42'') = ''CQ K1ABC/P FN42''" by code_simp
  then show ?thesis
    using std_message_over_the_air [OF c k x s q, of 5 "Some ft8_hash_if" hashtable_init "tone_waterfall FT8 (ft8_encode p)" first_candidate
      "Some ft8_hash_if" hashtable_init "[]" "\<lparr>payload_of = [], msg_hash = 0\<rparr>" "\<lparr>ldpc_errors = 0, crc_extracted = 0, crc_calculated = 0\<rparr>"] p cl
    by auto
qed

end
